(* ===== verification/Prelude.thy ===== *)
theory Prelude
  imports Main "HOL-Library.Word" "HOL-Library.Monad_Syntax"
begin

text \<open>
  Shared material of the development: the machine types of \<open>common/defines.h\<close>, the two
  collections of lemmas the component proofs draw on, and generic facts on lists, options and
  words.  A kernel \<open>PANIC\<close> (or a failed \<open>ASSERT\<close>) is the value \<^const>\<open>None\<close> throughout, so
  that a function of the kernel that may stop the machine has a result of \<open>option\<close> type and the
  \<open>do\<close> notation of the option monad threads it.
\<close>

unbundle bit_operations_syntax

type_synonym u8 = "8 word"
type_synonym u16 = "16 word"
type_synonym u32 = "32 word"
type_synonym u64 = "64 word"
type_synonym usize = "64 word"
type_synonym ptr = "64 word"

abbreviation NULL :: ptr where
  "NULL \<equiv> 0"

text \<open>\<open>ASSERT(expr)\<close> of \<open>common/defines.h\<close>: continue or panic.\<close>

definition ASSERT :: "bool \<Rightarrow> unit option" where
  "ASSERT b = (if b then Some () else None)"

definition PANIC :: "'a option" where
  "PANIC = None"

named_theorems kernel_defs "definitions that the component proofs unfold"
named_theorems kernel_simps "rewrite rules shared by the component proofs"

lemma ASSERT_simps [simp]:
  "ASSERT True = Some ()"
  "ASSERT False = None"
  by (simp_all add: ASSERT_def)

lemma bind_ASSERT_eq_Some [simp]:
  "(ASSERT b \<bind> f) = Some x \<longleftrightarrow> b \<and> f () = Some x"
  by (cases b) simp_all

lemma PANIC_neq_Some [simp]: "PANIC \<noteq> Some x" "Some x \<noteq> PANIC"
  by (simp_all add: PANIC_def)

lemma Option_bind_Some_iff:
  "(m \<bind> f) = Some y \<longleftrightarrow> (\<exists>x. m = Some x \<and> f x = Some y)"
  by (cases m) auto

subsection \<open>Lists\<close>

lemma take_Suc_update: "n < length xs \<Longrightarrow> take (Suc n) (xs[n := x]) = take n xs @ [x]"
  by (simp add: take_Suc_conv_app_nth)

lemma find_Some_split:
  assumes "find P xs = Some x"
  obtains ys zs where "xs = ys @ x # zs" "P x" "\<forall>y\<in>set ys. \<not> P y"
proof -
  from assms obtain i where i: "i < length xs" "P (xs ! i)" "x = xs ! i" "\<forall>j<i. \<not> P (xs ! j)"
    by (auto simp: find_Some_iff)
  then have "xs = take i xs @ x # drop (Suc i) xs"
    using id_take_nth_drop by blast
  moreover have "\<forall>y\<in>set (take i xs). \<not> P y"
    using i by (auto simp: in_set_conv_nth)
  ultimately show thesis
    using i that by blast
qed

lemma remove1_split:
  "x \<notin> set ys \<Longrightarrow> remove1 x (ys @ x # zs) = ys @ zs"
  by (simp add: remove1_append)

subsection \<open>Words\<close>

lemma unat_u64_less [simp]: "unat (x :: u64) < 18446744073709551616"
  using unsigned_less [of x] by simp

lemma unat_u64_le [simp]: "unat (x :: u64) \<le> 18446744073709551616"
  by (rule less_imp_le) simp

lemma unat_u32_less [simp]: "unat (x :: u32) < 4294967296"
  using unsigned_less [of x] by simp

lemma unat_u8_less [simp]: "unat (x :: u8) < 256"
  using unsigned_less [of x] by simp

lemma unat_ucast_u32 [simp]: "unat (ucast (x :: u32) :: u64) = unat x"
proof -
  have "unat x < 2 ^ 64" by (rule less_trans [OF unat_u32_less]) simp
  then show ?thesis by (simp add: unsigned_ucast_eq take_bit_nat_eq_self)
qed

lemma unat_add_no_wrap:
  "unat (a :: u64) + unat b < 18446744073709551616 \<Longrightarrow> unat (a + b) = unat a + unat b"
  by (simp add: unat_word_ariths)

lemma unat_of_nat_u64:
  "n < 18446744073709551616 \<Longrightarrow> unat (of_nat n :: u64) = n"
  by (simp add: unat_of_nat take_bit_eq_mod)

lemma word_add_offset_eq_iff:
  assumes "m < 18446744073709551616" "n < 18446744073709551616"
  shows "(a + of_nat m :: u64) = a + of_nat n \<longleftrightarrow> m = n"
proof
  assume "a + of_nat m = a + of_nat n"
  then have "(of_nat m :: u64) = of_nat n"
    by simp
  then have "unat (of_nat m :: u64) = unat (of_nat n :: u64)"
    by simp
  with assms show "m = n"
    by (simp add: unat_of_nat_u64)
qed simp


lemma unat_minus1_u64 [simp]: "unat (- 1 :: u64) = 18446744073709551615"
  by (simp add: unsigned_minus_1_eq_mask mask_eq_exp_minus_1)

lemma unat_pred_less_iff:
  assumes "(x :: u64) \<noteq> 0" shows "unat (x - 1) < k \<longleftrightarrow> unat x < Suc k"
proof -
  have "0 < unat x" using assms by (simp add: unat_gt_0)
  then show ?thesis using assms by (simp add: unat_minus_one) arith
qed

lemma uint_word_eq_iff [simp]: "uint x = uint y \<longleftrightarrow> x = y"
  by (simp add: word_uint_eq_iff)

lemma uint_word_eq_0_iff [simp]: "uint x = 0 \<longleftrightarrow> x = 0"
  by (simp add: uint_0_iff)

lemma of_nat_unat_u64 [simp]: "(of_nat (unat (x :: u64)) :: u64) = x"
  by simp

section \<open>Signed integers\<close>

text \<open>\<open>++\<close> and \<open>--\<close> of an \<open>int\<close> of 32 bits: leaving the range, which C leaves undefined, is \<^const>\<open>None\<close>.\<close>

definition INT_MAX :: int where "INT_MAX = 2147483647"

definition INT_MIN :: int where "INT_MIN = - 2147483648"

definition int_inc :: "int \<Rightarrow> int option" where
  "int_inc v = (if v < INT_MAX then Some (v + 1) else None)"

definition int_dec :: "int \<Rightarrow> int option" where
  "int_dec v = (if INT_MIN < v then Some (v - 1) else None)"

lemma int_inc_Some: "int_inc v = Some r \<longleftrightarrow> v < INT_MAX \<and> r = v + 1"
  by (auto simp: int_inc_def)

lemma int_dec_Some: "int_dec v = Some r \<longleftrightarrow> INT_MIN < v \<and> r = v - 1"
  by (auto simp: int_dec_def)

end
