(* ===== verification/Clist.thy ===== *)
theory Clist
  imports Prelude
begin

text \<open>
  The intrusive lists of \<open>common/list.h\<close> and \<open>common/list.c\<close>, modelled on an explicit heap: a
  \<open>ListNode\<close> is a record at an address, the operations are the field assignments of the C code
  in their order, so that aliasing (a node that is its own neighbour, \<open>node4 = node2\<close>, and so
  on) is what the heap makes of it.  The predicate \<open>clist h xs\<close> says that the heap holds
  exactly the circular list \<open>xs\<close>; the lemmas show what each operation does to that sequence.
  The non-circular \<open>Queue\<close> of the same files, and the lock-free \<open>QueueNode\<close> stack, follow.
\<close>

section \<open>Circular doubly linked lists\<close>

record ListNode =
  ln_prev :: ptr
  ln_next :: ptr

type_synonym lheap = "ptr \<Rightarrow> ListNode"

definition set_prev :: "ptr \<Rightarrow> ptr \<Rightarrow> lheap \<Rightarrow> lheap" where
  "set_prev p v h = h(p := (h p)\<lparr>ln_prev := v\<rparr>)"

definition set_next :: "ptr \<Rightarrow> ptr \<Rightarrow> lheap \<Rightarrow> lheap" where
  "set_next p v h = h(p := (h p)\<lparr>ln_next := v\<rparr>)"

definition init_list_node :: "ptr \<Rightarrow> lheap \<Rightarrow> lheap" where
  "init_list_node node h = set_next node node (set_prev node node h)"

definition merge_list :: "ptr \<Rightarrow> ptr \<Rightarrow> lheap \<Rightarrow> ptr \<times> lheap" where
  "merge_list node1 node2 h =
     (if node1 = NULL then (node2, h)
      else if node2 = NULL then (node1, h)
      else let node3 = ln_next (h node1);
               node4 = ln_prev (h node2);
               h1 = set_next node1 node2 h;
               h2 = set_prev node2 node1 h1;
               h3 = set_next node4 node3 h2;
               h4 = set_prev node3 node4 h3
           in (node1, h4))"

definition insert_into_list :: "ptr \<Rightarrow> ptr \<Rightarrow> lheap \<Rightarrow> ptr \<times> lheap" where
  "insert_into_list list node h = merge_list list node (init_list_node node h)"

definition detach_from_list :: "ptr \<Rightarrow> lheap \<Rightarrow> ptr \<times> lheap" where
  "detach_from_list node h =
     (let prev = ln_prev (h node);
          h1 = set_next (ln_prev (h node)) (ln_next (h node)) h;
          h2 = set_prev (ln_next (h1 node)) (ln_prev (h1 node)) h1;
          h3 = init_list_node node h2
      in (if prev = node then NULL else prev, h3))"

definition empty_list :: "ptr \<Rightarrow> lheap \<Rightarrow> bool" where
  "empty_list list h \<longleftrightarrow> ln_next (h list) = list"

text \<open>
  \<open>_for_in_list(valptr, list)\<close>: the values of \<open>valptr\<close> in the order the loop body sees them when
  the body leaves the links alone.  The cursor starts at \<open>list->next\<close>, the body also sees
  \<open>list\<close> itself, and the loop stops after it.  The fuel bounds the number of iterations;
  \<^const>\<open>None\<close> says that it was not enough.
\<close>

fun for_in_list_from :: "nat \<Rightarrow> ptr \<Rightarrow> ptr \<Rightarrow> lheap \<Rightarrow> ptr list option" where
  "for_in_list_from 0 flag valptr h = None"
| "for_in_list_from (Suc fuel) flag valptr h =
     (if valptr = NULL then Some []
      else map_option ((#) valptr)
             (for_in_list_from fuel flag (if valptr = flag then NULL else ln_next (h valptr)) h))"

definition for_in_list :: "nat \<Rightarrow> ptr \<Rightarrow> lheap \<Rightarrow> ptr list option" where
  "for_in_list fuel list h = for_in_list_from fuel list (ln_next (h list)) h"

section \<open>The queue of list.c\<close>

record Queue =
  q_begin :: ptr
  q_end :: ptr
  q_sz :: int

definition queue_init :: Queue where
  "queue_init = \<lparr>q_begin = NULL, q_end = NULL, q_sz = 0\<rparr>"

definition queue_push :: "Queue \<Rightarrow> ptr \<Rightarrow> lheap \<Rightarrow> Queue \<times> lheap" where
  "queue_push x item h =
     (let h1 = init_list_node item h in
      if q_sz x = 0 then (x\<lparr>q_begin := item, q_end := item, q_sz := q_sz x + 1\<rparr>, h1)
      else (x\<lparr>q_end := item, q_sz := q_sz x + 1\<rparr>, snd (merge_list (q_end x) item h1)))"

definition queue_pop :: "Queue \<Rightarrow> lheap \<Rightarrow> (Queue \<times> lheap) option" where
  "queue_pop x h =
     (if q_sz x = 0 then PANIC
      else if q_sz x = 1 then Some (x\<lparr>q_begin := NULL, q_end := NULL, q_sz := q_sz x - 1\<rparr>, h)
      else let t = q_begin x
           in Some (x\<lparr>q_begin := ln_next (h (q_begin x)), q_sz := q_sz x - 1\<rparr>,
                    snd (detach_from_list t h)))"

definition queue_front :: "Queue \<Rightarrow> ptr option" where
  "queue_front x = (if q_begin x = NULL then PANIC else Some (q_begin x))"

definition queue_empty :: "Queue \<Rightarrow> bool" where
  "queue_empty x \<longleftrightarrow> q_sz x = 0"

section \<open>The single-linked queue nodes\<close>

text \<open>
  A \<open>QueueNode\<close> holds only \<open>next\<close>.  In the kernel every call is made while \<open>page_lock\<close> is held
  or before other processors run, so the compare-and-exchange meets no interference; a spurious
  failure of the weak exchange only repeats \<open>node->next = *head\<close> with the same value.
\<close>

type_synonym qheap = "ptr \<Rightarrow> ptr"

definition add_to_queue :: "ptr \<Rightarrow> ptr \<Rightarrow> qheap \<Rightarrow> ptr \<times> qheap" where
  "add_to_queue head node q = (node, q(node := head))"

definition fetch_from_queue :: "ptr \<Rightarrow> qheap \<Rightarrow> ptr \<times> ptr" where
  "fetch_from_queue head q = (if head = NULL then (NULL, NULL) else (head, q head))"

definition fetch_all_from_queue :: "ptr \<Rightarrow> ptr \<times> ptr" where
  "fetch_all_from_queue head = (head, NULL)"

section \<open>The sequence a heap holds\<close>

text \<open>\<open>links h xs\<close>: neighbours in \<open>xs\<close> point at each other.\<close>

fun links :: "lheap \<Rightarrow> ptr list \<Rightarrow> bool" where
  "links h (x # y # zs) \<longleftrightarrow> ln_next (h x) = y \<and> ln_prev (h y) = x \<and> links h (y # zs)"
| "links h _ \<longleftrightarrow> True"

definition clist :: "lheap \<Rightarrow> ptr list \<Rightarrow> bool" where
  "clist h xs \<longleftrightarrow> xs \<noteq> [] \<and> distinct xs \<and> NULL \<notin> set xs \<and> links h (xs @ [hd xs])"

text \<open>\<open>stack q p xs\<close>: the single-linked nodes reachable from \<open>p\<close> are \<open>xs\<close>.\<close>

fun qstack :: "qheap \<Rightarrow> ptr \<Rightarrow> ptr list \<Rightarrow> bool" where
  "qstack q p [] \<longleftrightarrow> p = NULL"
| "qstack q p (x # xs) \<longleftrightarrow> p = x \<and> x \<noteq> NULL \<and> qstack q (q x) xs"

definition queue_rep :: "Queue \<Rightarrow> lheap \<Rightarrow> ptr list \<Rightarrow> bool" where
  "queue_rep x h xs \<longleftrightarrow> q_sz x = int (length xs) \<and>
     (if xs = [] then q_begin x = NULL \<and> q_end x = NULL
      else clist h xs \<and> q_begin x = hd xs \<and> q_end x = last xs)"

section \<open>Reading a heap through its sequence\<close>

lemma set_next_simps [simp]:
  "ln_next (set_next p v h q) = (if q = p then v else ln_next (h q))"
  "ln_prev (set_next p v h q) = ln_prev (h q)"
  by (simp_all add: set_next_def)

lemma set_prev_simps [simp]:
  "ln_prev (set_prev p v h q) = (if q = p then v else ln_prev (h q))"
  "ln_next (set_prev p v h q) = ln_next (h q)"
  by (simp_all add: set_prev_def)

lemma init_list_node_simps [simp]:
  "ln_next (init_list_node n h q) = (if q = n then n else ln_next (h q))"
  "ln_prev (init_list_node n h q) = (if q = n then n else ln_prev (h q))"
  by (simp_all add: init_list_node_def)

lemma links_append:
  "links h (xs @ y # zs) \<longleftrightarrow> links h (xs @ [y]) \<and> links h (y # zs)"
  by (induction h xs rule: links.induct) (auto simp: neq_Nil_conv)

lemma links_cong:
  assumes "\<And>x. x \<in> set (butlast xs) \<Longrightarrow> ln_next (h' x) = ln_next (h x)"
    and "\<And>x. x \<in> set (tl xs) \<Longrightarrow> ln_prev (h' x) = ln_prev (h x)"
  shows "links h' xs \<longleftrightarrow> links h xs"
  using assms
proof (induction h xs rule: links.induct)
  case (1 h x y zs)
  have "links h' (y # zs) \<longleftrightarrow> links h (y # zs)"
    by (rule "1.IH") (use "1.prems" in \<open>auto dest: in_set_butlastD list.set_sel(2)\<close>)
  with "1.prems" show ?case by auto
qed auto

lemma links_snoc: "links h (xs @ [y, z]) \<longleftrightarrow> links h (xs @ [y]) \<and> ln_next (h y) = z \<and> ln_prev (h z) = y"
  using links_append [of h xs y "[z]"] by simp

lemma clist_rotate: "clist h (xs @ ys) \<Longrightarrow> clist h (ys @ xs)"
proof (cases "xs = [] \<or> ys = []")
  case False
  then obtain x xs' y ys' where e: "xs = x # xs'" "ys = y # ys'"
    by (auto simp: neq_Nil_conv)
  assume "clist h (xs @ ys)"
  then have d: "distinct (ys @ xs)" "NULL \<notin> set (ys @ xs)" and l: "links h (xs @ ys @ [x])"
    by (auto simp: clist_def e)
  from l have "links h (xs @ [y])" "links h (ys @ [x])"
    using links_append [of h xs y "ys' @ [x]"] by (simp_all add: e)
  then have "links h (ys @ xs @ [y])"
    using links_append [of h ys x "xs' @ [y]"] by (simp add: e)
  with d show ?thesis by (simp add: clist_def e)
qed auto

lemma clist_distinct: "clist h xs \<Longrightarrow> distinct xs"
  by (simp add: clist_def)

lemma clist_Cons_iff:
  "clist h (n # xs) \<longleftrightarrow> distinct (n # xs) \<and> NULL \<notin> set (n # xs) \<and> links h (n # xs @ [n])"
  by (simp add: clist_def)

lemma clist_singleton: "clist h [n] \<longleftrightarrow> n \<noteq> NULL \<and> ln_next (h n) = n \<and> ln_prev (h n) = n"
  by (auto simp: clist_def)

lemma clist_next: "clist h (n # xs) \<Longrightarrow> ln_next (h n) = hd (xs @ [n])"
  by (cases xs) (auto simp: clist_def)

lemma links_last: "links h (x # xs @ [z]) \<Longrightarrow> ln_prev (h z) = last (x # xs)"
  by (induction xs arbitrary: x) auto

lemma clist_prev: "clist h (n # xs) \<Longrightarrow> ln_prev (h n) = last (n # xs)"
  using links_last [of h n xs n] by (simp add: clist_def)

lemma clist_frame:
  assumes "clist h xs" "\<And>x. x \<in> set xs \<Longrightarrow> h' x = h x"
  shows "clist h' xs"
proof -
  from assms(1) have "xs \<noteq> []" by (simp add: clist_def)
  have "links h' (xs @ [hd xs]) \<longleftrightarrow> links h (xs @ [hd xs])"
    by (rule links_cong) (use \<open>xs \<noteq> []\<close> assms(2) in \<open>auto simp: butlast_append neq_Nil_conv\<close>)
  with assms(1) show ?thesis by (simp add: clist_def)
qed


section \<open>What the operations do to the sequence\<close>

lemma links_appendD: "links h (xs @ ys) \<Longrightarrow> links h xs \<and> links h ys"
proof (cases xs rule: rev_cases)
  case (snoc xs' x)
  assume l: "links h (xs @ ys)"
  show ?thesis
  proof (cases ys)
    case Nil
    with l show ?thesis by simp
  next
    case (Cons y ys')
    with l snoc show ?thesis
      using links_append [of h "xs' @ [x]" y ys'] links_snoc [of h xs' x y] by auto
  qed
qed simp

lemma links_join:
  assumes "links h (xs @ [a])" "links h (b # ys)" "ln_next (h a) = b" "ln_prev (h b) = a"
  shows "links h (xs @ a # b # ys)"
  using assms links_append [of h xs a "b # ys"] by simp

lemma hd_snoc_in: "hd (xs @ [a]) \<in> insert a (set xs)"
  by (cases xs) auto

lemma last_notin_butlast: "distinct xs \<Longrightarrow> xs \<noteq> [] \<Longrightarrow> last xs \<notin> set (butlast xs)"
  by (metis append_butlast_last_id distinct_butlast not_distinct_conv_prefix)

lemma hd_notin_tl: "distinct xs \<Longrightarrow> hd xs \<notin> set (tl xs)"
  by (cases xs) auto

lemma merge_list_spec:
  assumes c1: "clist h (n1 # xs)" and c2: "clist h (n2 # ys)"
    and dj: "set (n1 # xs) \<inter> set (n2 # ys) = {}"
  shows "fst (merge_list n1 n2 h) = n1"
    and "clist (snd (merge_list n1 n2 h)) (n1 # n2 # ys @ xs)"
    and "q \<notin> set (n1 # xs) \<union> set (n2 # ys) \<Longrightarrow> snd (merge_list n1 n2 h) q = h q"
proof -
  let ?h = "snd (merge_list n1 n2 h)"
  let ?n3 = "hd (xs @ [n1])" and ?n4 = "last (n2 # ys)"
  have nn: "n1 \<noteq> NULL" "n2 \<noteq> NULL" and d: "distinct (n1 # xs)" "distinct (n2 # ys)"
    using c1 c2 by (auto simp: clist_def)
  have n3: "ln_next (h n1) = ?n3" "?n3 \<in> set (n1 # xs)"
    using clist_next [OF c1] hd_snoc_in [of xs n1] by auto
  have n4: "ln_prev (h n2) = ?n4" "?n4 \<in> set (n2 # ys)"
    using clist_prev [OF c2] last_in_set [of "n2 # ys"] by auto
  have nx: "ln_next (?h q) = (if q = ?n4 then ?n3 else if q = n1 then n2 else ln_next (h q))" for q
    using nn by (simp add: merge_list_def Let_def n3(1) n4(1))
  have pv: "ln_prev (?h q) = (if q = ?n3 then ?n4 else if q = n2 then n1 else ln_prev (h q))" for q
    using nn by (simp add: merge_list_def Let_def n3(1) n4(1))
  show "fst (merge_list n1 n2 h) = n1"
    using nn by (simp add: merge_list_def Let_def)
  show "?h q = h q" if "q \<notin> set (n1 # xs) \<union> set (n2 # ys)"
    using that n3(2) n4(2) nn
    by (auto simp: merge_list_def Let_def n3(1) n4(1) set_next_def set_prev_def)
  have a: "links ?h (n2 # ys)"
  proof -
    have "links ?h (n2 # ys) \<longleftrightarrow> links h (n2 # ys)"
    proof (rule links_cong)
      fix x assume "x \<in> set (butlast (n2 # ys))"
      then have "x \<in> set (n2 # ys)" "x \<noteq> ?n4"
        using last_notin_butlast [OF d(2)] in_set_butlastD [of x "n2 # ys"] by blast+
      with dj show "ln_next (?h x) = ln_next (h x)" by (auto simp: nx)
    next
      fix x assume "x \<in> set (tl (n2 # ys))"
      with d(2) dj n3(2) show "ln_prev (?h x) = ln_prev (h x)" by (auto simp: pv)
    qed
    with c2 show ?thesis
      using links_appendD [of h "n2 # ys" "[n2]"] by (simp add: clist_def)
  qed
  have b: "links ?h (xs @ [n1])"
  proof -
    have "links ?h (xs @ [n1]) \<longleftrightarrow> links h (xs @ [n1])"
    proof (rule links_cong)
      fix x assume "x \<in> set (butlast (xs @ [n1]))"
      with d dj n4(2) show "ln_next (?h x) = ln_next (h x)" by (auto simp: nx)
    next
      fix x assume x: "x \<in> set (tl (xs @ [n1]))"
      have "distinct (xs @ [n1])" using d by auto
      with x have "x \<noteq> ?n3" using hd_notin_tl by blast
      moreover have "x \<in> set (n1 # xs)" using x list.set_sel(2) [of "xs @ [n1]" x] by auto
      ultimately show "ln_prev (?h x) = ln_prev (h x)" using dj by (auto simp: pv)
    qed
    with c1 show ?thesis
      using links_appendD [of h "[n1]" "xs @ [n1]"] by (simp add: clist_def)
  qed
  have "links ?h (butlast (n2 # ys) @ ?n4 # ?n3 # tl (xs @ [n1]))"
    using a b by (intro links_join) (auto simp: nx pv append_butlast_last_id)
  moreover have "butlast (n2 # ys) @ ?n4 # ?n3 # tl (xs @ [n1]) = n2 # ys @ xs @ [n1]"
  proof -
    have "?n3 # tl (xs @ [n1]) = xs @ [n1]" by (cases xs) auto
    then show ?thesis
      using append_butlast_last_id [of "n2 # ys"]
      by (metis append.assoc append_Cons append_Nil list.distinct(1))
  qed
  ultimately have "links ?h (n2 # ys @ xs @ [n1])" by metis
  moreover have "ln_next (?h n1) = n2" "ln_prev (?h n2) = n1"
    using dj n3(2) n4(2) by (auto simp: nx pv)
  ultimately show "clist ?h (n1 # n2 # ys @ xs)"
    using c1 c2 dj by (auto simp: clist_def)
qed

lemma detach_from_list_spec:
  assumes c: "clist h (n # xs)"
  shows "fst (detach_from_list n h) = (if xs = [] then NULL else last xs)"
    and "clist (snd (detach_from_list n h)) [n]"
    and "xs \<noteq> [] \<Longrightarrow> clist (snd (detach_from_list n h)) xs"
    and "q \<notin> set (n # xs) \<Longrightarrow> snd (detach_from_list n h) q = h q"
proof -
  let ?h = "snd (detach_from_list n h)"
  have d: "distinct (n # xs)" "NULL \<notin> set (n # xs)"
    using c by (simp_all add: clist_def)
  have nx: "ln_next (h n) = hd (xs @ [n])" and pv: "ln_prev (h n) = last (n # xs)"
    using clist_next [OF c] clist_prev [OF c] by simp_all
  have last_eq: "last (n # xs) = n \<longleftrightarrow> xs = []"
    using d last_in_set [of xs] by (cases "xs = []") auto
  show "fst (detach_from_list n h) = (if xs = [] then NULL else last xs)"
    using last_eq by (auto simp: detach_from_list_def Let_def pv)
  show "clist ?h [n]"
    using d by (simp add: clist_singleton detach_from_list_def Let_def)
  show "?h q = h q" if "q \<notin> set (n # xs)"
  proof -
    have "q \<noteq> hd (xs @ [n])" "q \<noteq> last (n # xs)"
      using that hd_snoc_in [of xs n] last_in_set [of "n # xs"] by auto
    with last_eq show ?thesis
      using that by (auto simp: detach_from_list_def Let_def nx pv set_next_def set_prev_def
          init_list_node_def)
  qed
  show "clist ?h xs" if ne: "xs \<noteq> []"
  proof -
    have ln: "last (n # xs) = last xs" "hd (xs @ [n]) = hd xs" using ne by auto
    have neq: "last xs \<noteq> n" "hd xs \<noteq> n" using d ne by (auto dest: hd_in_set)
    have nx': "ln_next (?h q) = (if q = n then n else if q = last xs then hd xs else ln_next (h q))" for q
      using ne neq by (simp add: detach_from_list_def Let_def nx pv ln)
    have pv': "ln_prev (?h q) = (if q = n then n else if q = hd xs then last xs else ln_prev (h q))" for q
      using ne neq by (simp add: detach_from_list_def Let_def nx pv ln)
    have "links ?h xs \<longleftrightarrow> links h xs"
    proof (rule links_cong)
      fix x assume "x \<in> set (butlast xs)"
      then have "x \<noteq> n" "x \<noteq> last xs"
        using d ne last_notin_butlast [of xs] by (auto dest: in_set_butlastD)
      then show "ln_next (?h x) = ln_next (h x)" by (simp add: nx')
    next
      fix x assume "x \<in> set (tl xs)"
      then have "x \<noteq> n" "x \<noteq> hd xs"
        using d hd_notin_tl [of xs] by (auto dest: list.set_sel(2) [OF ne])
      then show "ln_prev (?h x) = ln_prev (h x)" by (simp add: pv')
    qed
    with c have "links ?h xs"
      using links_appendD [of h "[n]" "xs @ [n]"] links_appendD [of h xs "[n]"]
      by (simp add: clist_def)
    moreover have "links ?h (butlast xs @ [last xs, hd xs])"
      using \<open>links ?h xs\<close> ne neq by (simp add: links_snoc nx' pv')
    moreover have "butlast xs @ [last xs, hd xs] = xs @ [hd xs]"
      using append_butlast_last_id [OF ne]
      by (metis append.assoc append_Cons append_Nil)
    ultimately show ?thesis using ne d by (simp add: clist_def)
  qed
qed

text \<open>
  With a list head \<open>l\<close> that stays in place, the two insertions the kernel uses and the removal of
  an arbitrary member act on the members \<open>xs\<close> as \<open>n # xs\<close>, \<open>xs @ [n]\<close> and \<open>remove1 n xs\<close>.
\<close>

lemma init_list_node_frame: "q \<noteq> n \<Longrightarrow> init_list_node n h q = h q"
  by (simp add: init_list_node_def set_next_def set_prev_def)

lemma init_list_node_clist: "n \<noteq> NULL \<Longrightarrow> clist (init_list_node n h) [n]"
  by (simp add: clist_singleton)

lemma insert_head:
  assumes "clist h (l # xs)" "n \<notin> set (l # xs)" "n \<noteq> NULL"
  shows "clist (snd (insert_into_list l n h)) (l # n # xs)"
proof -
  have "clist (init_list_node n h) (l # xs)"
    by (rule clist_frame [OF assms(1)]) (use assms(2) in \<open>auto intro: init_list_node_frame\<close>)
  from merge_list_spec(2) [OF this init_list_node_clist [OF assms(3)]] assms(2)
  show ?thesis by (simp add: insert_into_list_def)
qed

lemma insert_tail:
  assumes "clist h (l # xs)" "n \<notin> set (l # xs)" "n \<noteq> NULL"
  shows "clist (snd (insert_into_list (ln_prev (h l)) n h)) (l # xs @ [n])"
proof -
  let ?t = "last (l # xs)" and ?b = "butlast (l # xs)"
  have e: "l # xs = ?b @ [?t]" by (rule append_butlast_last_id [symmetric]) simp
  have "clist h ([?t] @ ?b)"
    using clist_rotate [of h ?b "[?t]"] assms(1) e by simp
  moreover have "ln_prev (h l) = ?t" by (rule clist_prev [OF assms(1)])
  moreover have "set (?t # ?b) = set (l # xs)" using e by (metis append_Cons append_Nil insert_is_Un list.simps(15) set_append sup_commute)
  ultimately have "clist (snd (insert_into_list (ln_prev (h l)) n h)) ([?t, n] @ ?b)"
    using insert_head [of h ?t ?b n] assms(2,3) by simp
  then have "clist (snd (insert_into_list (ln_prev (h l)) n h)) (?b @ [?t, n])"
    by (rule clist_rotate)
  moreover have "?b @ [?t, n] = l # xs @ [n]"
    using e by (metis append.assoc append_Cons append_Nil)
  ultimately show ?thesis by metis
qed

lemma detach_member:
  assumes "clist h (l # xs)" "n \<in> set xs"
  shows "clist (snd (detach_from_list n h)) (l # remove1 n xs)"
    and "clist (snd (detach_from_list n h)) [n]"
proof -
  from assms(2) obtain ys zs where e: "xs = ys @ n # zs" "n \<notin> set ys"
    by (meson split_list_first)
  have c: "clist h (n # zs @ l # ys)"
    using clist_rotate [of h "l # ys" "n # zs"] assms(1) e by simp
  have "clist (snd (detach_from_list n h)) (zs @ l # ys)"
    by (rule detach_from_list_spec(3) [OF c]) simp
  then have "clist (snd (detach_from_list n h)) ((l # ys) @ zs)"
    using clist_rotate [of _ zs "l # ys"] by simp
  then show "clist (snd (detach_from_list n h)) (l # remove1 n xs)"
    using e by (simp add: remove1_append)
  show "clist (snd (detach_from_list n h)) [n]"
    by (rule detach_from_list_spec(2) [OF c])
qed

lemma empty_list_iff: "clist h (l # xs) \<Longrightarrow> empty_list l h \<longleftrightarrow> xs = []"
  by (cases xs) (auto simp: empty_list_def clist_def)

lemma for_in_list_from_links:
  assumes "links h (xs @ [l])" "l \<notin> set xs" "NULL \<notin> set (xs @ [l])" "length xs + 2 \<le> fuel"
  shows "for_in_list_from fuel l (hd (xs @ [l])) h = Some (xs @ [l])"
  using assms
proof (induction xs arbitrary: fuel)
  case Nil
  then obtain f where "fuel = Suc (Suc f)" by (metis add_2_eq_Suc le_iff_add list.size(3) plus_nat.add_0)
  with Nil show ?case by simp
next
  case (Cons x xs)
  then obtain f where f: "fuel = Suc f" "length xs + 2 \<le> f" by (cases fuel) auto
  have "ln_next (h x) = hd (xs @ [l])" "links h (xs @ [l])"
    using Cons.prems(1) by (cases xs; auto)+
  with Cons.IH [OF _ _ _ f(2)] Cons.prems f show ?case by auto
qed

lemma for_in_list_visits:
  assumes "clist h (l # xs)" "length xs + 2 \<le> fuel"
  shows "for_in_list fuel l h = Some (xs @ [l])"
proof -
  have "links h (xs @ [l])" "l \<notin> set xs" "NULL \<notin> set (xs @ [l])"
    using assms(1) links_appendD [of h "[l]" "xs @ [l]"] by (auto simp: clist_def)
  then show ?thesis
    using for_in_list_from_links [OF _ _ _ assms(2), of h l] clist_next [OF assms(1)]
    by (simp add: for_in_list_def)
qed


section \<open>Queues\<close>

text \<open>
  Pushing a list of nodes, draining a number of them, and what a client of a first-in first-out
  queue of nodes relies on.  The representation relation
  \<open>rep\<close> is between a queue, the heap its nodes live in, and the sequence of its members.
\<close>

fun push_list :: "('q \<Rightarrow> 'n \<Rightarrow> 'h \<Rightarrow> 'q \<times> 'h) \<Rightarrow> 'q \<times> 'h \<Rightarrow> 'n list \<Rightarrow> 'q \<times> 'h" where
  "push_list push s [] = s"
| "push_list push (q, h) (x # xs) = push_list push (push q x h) xs"

fun drain_list :: "('q \<Rightarrow> 'n option) \<Rightarrow> ('q \<Rightarrow> 'h \<Rightarrow> ('q \<times> 'h) option) \<Rightarrow> nat \<Rightarrow> 'q \<times> 'h \<Rightarrow> 'n list option" where
  "drain_list front pop 0 s = Some []"
| "drain_list front pop (Suc n) (q, h) =
     do { x \<leftarrow> front q; s \<leftarrow> pop q h; xs \<leftarrow> drain_list front pop n s; Some (x # xs) }"

locale fifo_queue =
  fixes rep :: "'q \<Rightarrow> 'h \<Rightarrow> 'n list \<Rightarrow> bool"
    and fresh :: "'n \<Rightarrow> bool"
    and init :: 'q
    and push :: "'q \<Rightarrow> 'n \<Rightarrow> 'h \<Rightarrow> 'q \<times> 'h"
    and pop :: "'q \<Rightarrow> 'h \<Rightarrow> ('q \<times> 'h) option"
    and front :: "'q \<Rightarrow> 'n option"
    and isempty :: "'q \<Rightarrow> bool"
  assumes rep_init: "rep init h []"
    and rep_push: "rep q h xs \<Longrightarrow> fresh x \<Longrightarrow> x \<notin> set xs \<Longrightarrow> push q x h = (q', h') \<Longrightarrow> rep q' h' (xs @ [x])"
    and pop_Nil: "rep q h [] \<Longrightarrow> pop q h = None"
    and rep_pop: "rep q h (x # xs) \<Longrightarrow> \<exists>q' h'. pop q h = Some (q', h') \<and> rep q' h' xs"
    and front_Nil: "rep q h [] \<Longrightarrow> front q = None"
    and front_Cons: "rep q h (x # xs) \<Longrightarrow> front q = Some x"
    and isempty_iff: "rep q h xs \<Longrightarrow> isempty q \<longleftrightarrow> xs = []"
begin

lemma rep_push_all:
  assumes "rep q h ys" "distinct (ys @ xs)" "\<forall>x\<in>set xs. fresh x"
  shows "rep (fst (push_list push (q, h) xs)) (snd (push_list push (q, h) xs)) (ys @ xs)"
  using assms
proof (induction xs arbitrary: q h ys)
  case (Cons x xs)
  obtain q' h' where p: "push q x h = (q', h')" by fastforce
  have "rep q' h' (ys @ [x])" by (rule rep_push) (use Cons.prems p in auto)
  from Cons.IH [OF this] Cons.prems p show ?case by simp
qed simp

lemma drain_rep: "rep q h xs \<Longrightarrow> drain_list front pop (length xs) (q, h) = Some xs"
proof (induction xs arbitrary: q h)
  case (Cons x xs)
  from rep_pop [OF Cons.prems] obtain q' h' where "pop q h = Some (q', h')" "rep q' h' xs"
    by blast
  with Cons.IH [of q' h'] front_Cons [OF Cons.prems] show ?case by simp
qed simp

lemma fifo:
  assumes "distinct xs" "\<forall>x\<in>set xs. fresh x"
  shows "drain_list front pop (length xs) (push_list push (init, h) xs) = Some xs"
  using drain_rep [OF rep_push_all [OF rep_init, of xs]] assms by simp

lemma front_oldest:
  assumes "rep q h (x # xs)" "fresh y" "y \<notin> set (x # xs)" "push q y h = (q', h')"
  shows "front q' = front q"
  using front_Cons [OF rep_push [OF assms(1) assms(2) assms(3) assms(4), simplified]]
    front_Cons [OF assms(1)] by simp

end

lemma queue_push_rep:
  assumes r: "queue_rep x h xs" and f: "n \<noteq> NULL" "n \<notin> set xs" and p: "queue_push x n h = (x', h')"
  shows "queue_rep x' h' (xs @ [n])"
proof (cases "xs = []")
  case True
  with r p f show ?thesis
    by (auto simp: queue_rep_def queue_push_def Let_def clist_singleton)
next
  case False
  then obtain b t where e: "xs = b @ [t]" by (meson rev_exhaust)
  have c: "clist h (t # b)" using r False clist_rotate [of h b "[t]"] e by (simp add: queue_rep_def)
  have "clist (snd (insert_into_list t n h)) ([t, n] @ b)"
    using insert_head [OF c, of n] f e by auto
  then have "clist (snd (merge_list t n (init_list_node n h))) (b @ [t, n])"
    using clist_rotate [of _ "[t, n]" b] by (simp add: insert_into_list_def)
  moreover have "q_sz x \<noteq> 0" "q_end x = t" "q_begin x = hd xs"
    using r False e by (auto simp: queue_rep_def)
  ultimately show ?thesis
    using p r e False by (auto simp: queue_rep_def queue_push_def Let_def hd_append)
qed

lemma queue_pop_rep:
  assumes r: "queue_rep x h (n # xs)"
  shows "\<exists>x' h'. queue_pop x h = Some (x', h') \<and> queue_rep x' h' xs"
proof (cases "xs = []")
  case True
  with r show ?thesis by (auto simp: queue_rep_def queue_pop_def)
next
  case False
  have c: "clist h (n # xs)" using r by (simp add: queue_rep_def)
  have "q_sz x \<noteq> 0" "q_sz x \<noteq> 1" using r False by (auto simp: queue_rep_def)
  moreover have "ln_next (h n) = hd xs" using clist_next [OF c] False by simp
  ultimately show ?thesis
    using r False detach_from_list_spec(3) [OF c False]
    by (auto simp: queue_rep_def queue_pop_def Let_def)
qed

interpretation bufq: fifo_queue queue_rep "\<lambda>n. n \<noteq> NULL" queue_init queue_push queue_pop
  queue_front queue_empty
proof (unfold_locales, goal_cases)
  case (2 q h xs x q' h')
  then show ?case by (blast intro: queue_push_rep)
next
  case (4 q h x xs)
  then show ?case by (rule queue_pop_rep)
qed (auto simp: queue_rep_def queue_init_def queue_pop_def queue_front_def queue_empty_def PANIC_def
      clist_def)

section \<open>Properties\<close>

text \<open>
  \<open>_merge_list\<close> on two disjoint circular lists gives one circular list in which \<open>node1\<close> is
  followed by \<open>node2\<close> and its list, then by the rest of the first list; it returns \<open>node1\<close>,
  establishes \<open>node1->next == node2\<close> as \<open>list.h\<close> promises, and touches no other node.
\<close>

theorem merge_list_correct:
  assumes "clist h (n1 # xs)" "clist h (n2 # ys)" "set (n1 # xs) \<inter> set (n2 # ys) = {}"
    and "merge_list n1 n2 h = (r, h')"
  shows "r = n1 \<and> clist h' (n1 # n2 # ys @ xs) \<and> ln_next (h' n1) = n2
    \<and> (\<forall>q. q \<notin> set (n1 # xs) \<union> set (n2 # ys) \<longrightarrow> h' q = h q)"
  using merge_list_spec [OF assms(1-3)] assms(4) clist_next [of h' n1 "n2 # ys @ xs"] by auto

theorem merge_list_correct_witness:
  "let h = (\<lambda>p. \<lparr>ln_prev = p, ln_next = p\<rparr>); h' = snd (merge_list 8 16 h)
   in clist h' [8, 16] \<and> ln_next (h' 8) = 16"
proof -
  have "clist (\<lambda>p. \<lparr>ln_prev = p, ln_next = p\<rparr>) [8]" "clist (\<lambda>p. \<lparr>ln_prev = p, ln_next = p\<rparr>) [16]"
    by (simp_all add: clist_singleton)
  from merge_list_correct [OF this _ prod.collapse [symmetric]] show ?thesis by (simp add: Let_def)
qed

text \<open>
  \<open>_detach_from_list\<close> removes exactly the given node: the other nodes keep their cyclic order,
  the node becomes a single-node list, the result is the node's predecessor, or NULL when the node
  was alone, and no node outside the list is touched.
\<close>

theorem detach_from_list_correct:
  assumes "clist h (n # xs)" "detach_from_list n h = (r, h')"
  shows "clist h' [n] \<and> (if xs = [] then r = NULL else clist h' xs \<and> r = last xs)
    \<and> (\<forall>q. q \<notin> set (n # xs) \<longrightarrow> h' q = h q)"
  using detach_from_list_spec [OF assms(1)] assms(2) by auto

theorem detach_from_list_correct_witness:
  "let h = snd (merge_list 8 16 (\<lambda>p. \<lparr>ln_prev = p, ln_next = p\<rparr>)); (r, h') = detach_from_list 8 h
   in clist h [8, 16] \<and> clist h' [8] \<and> clist h' [16] \<and> r = 16"
proof -
  let ?h = "snd (merge_list 8 16 (\<lambda>p. \<lparr>ln_prev = p, ln_next = p\<rparr>))"
  have "clist ?h (8 # [16])"
    using merge_list_spec(2) [of "\<lambda>p. \<lparr>ln_prev = p, ln_next = p\<rparr>" 8 "[]" 16 "[]"]
    by (simp add: clist_singleton)
  from this detach_from_list_correct [OF this prod.collapse [symmetric]] show ?thesis
    by (simp add: Let_def case_prod_beta)
qed

text \<open>
  the \<open>Queue\<close> of \<open>list.c\<close> is first-in first-out on the heap: whatever distinct non-NULL nodes
  are pushed on a fresh queue, \<open>queue_front\<close> and \<open>queue_pop\<close> give them back in push order and no
  call panics.
\<close>

theorem queue_fifo:
  assumes "distinct xs" "NULL \<notin> set xs"
  shows "drain_list queue_front queue_pop (length xs) (push_list queue_push (queue_init, h) xs) = Some xs"
  by (rule bufq.fifo) (use assms in auto)

theorem queue_fifo_witness:
  "drain_list queue_front queue_pop 3 (push_list queue_push (queue_init, \<lambda>p. \<lparr>ln_prev = p, ln_next = p\<rparr>) [8, 16, 24]) = Some [8, 16, 24]"
  using queue_fifo [of "[8, 16, 24]" "\<lambda>p. \<lparr>ln_prev = p, ln_next = p\<rparr>"]
  by (simp add: numeral_3_eq_3)

end
