(* ===== verification/Cstring.thy ===== *)
theory Cstring
  imports Prelude
begin

text \<open>
  \<open>common/string.c\<close>, the rounding helpers of \<open>common/defines.h\<close>, the bit arrays of
  \<open>common/bitmap.h\<close> and the reference counts of \<open>common/rc.c\<close>.  An array parameter of the
  functions that only index it, or whose pointers are \<open>restrict\<close>, is the function from an index
  to the byte there (\<open>s[i]\<close>); \<open>memmove\<close>, whose regions may overlap, works on one memory.
  \<open>char\<close> is unsigned on AArch64.
\<close>

section \<open>defines.h\<close>

definition round_down :: "u64 \<Rightarrow> u64 \<Rightarrow> u64" where
  "round_down a b = a - a mod b"

definition round_up :: "u64 \<Rightarrow> u64 \<Rightarrow> u64" where
  "round_up a b = round_down (a + b - 1) b"

definition BIT :: "nat \<Rightarrow> u64" where
  "BIT i = push_bit i 1"

section \<open>string.c\<close>

type_synonym barr = "usize \<Rightarrow> u8"
type_synonym mem = "ptr \<Rightarrow> u8"

text \<open>The \<open>for\<close> loops count \<open>i\<close> up; the first argument is the number of rounds left.\<close>

fun memset_loop :: "nat \<Rightarrow> usize \<Rightarrow> u8 \<Rightarrow> barr \<Rightarrow> barr" where
  "memset_loop 0 i c s = s"
| "memset_loop (Suc k) i c s = memset_loop k (i + 1) c (s(i := c))"

definition memset :: "barr \<Rightarrow> 32 word \<Rightarrow> usize \<Rightarrow> barr" where
  "memset s c n = memset_loop (unat n) 0 (ucast (c AND 0xff)) s"

fun memcpy_loop :: "nat \<Rightarrow> usize \<Rightarrow> barr \<Rightarrow> barr \<Rightarrow> barr" where
  "memcpy_loop 0 i dest src = dest"
| "memcpy_loop (Suc k) i dest src = memcpy_loop k (i + 1) (dest(i := src i)) src"

definition memcpy :: "barr \<Rightarrow> barr \<Rightarrow> usize \<Rightarrow> barr" where
  "memcpy dest src n = memcpy_loop (unat n) 0 dest src"

fun memcmp_loop :: "nat \<Rightarrow> usize \<Rightarrow> barr \<Rightarrow> barr \<Rightarrow> int" where
  "memcmp_loop 0 i s1 s2 = 0"
| "memcmp_loop (Suc k) i s1 s2 =
     (let c1 = uint (s1 i); c2 = uint (s2 i)
      in if c1 \<noteq> c2 then c1 - c2 else memcmp_loop k (i + 1) s1 s2)"

definition memcmp :: "barr \<Rightarrow> barr \<Rightarrow> usize \<Rightarrow> int" where
  "memcmp s1 s2 n = memcmp_loop (unat n) 0 s1 s2"

text \<open>The two copy loops of \<open>memmove\<close>: \<open>*d++ = *s++\<close> and \<open>*--d = *--s\<close>.\<close>

fun copy_up :: "nat \<Rightarrow> ptr \<Rightarrow> ptr \<Rightarrow> mem \<Rightarrow> mem" where
  "copy_up 0 d s m = m"
| "copy_up (Suc k) d s m = copy_up k (d + 1) (s + 1) (m(d := m s))"

fun copy_down :: "nat \<Rightarrow> ptr \<Rightarrow> ptr \<Rightarrow> mem \<Rightarrow> mem" where
  "copy_down 0 d s m = m"
| "copy_down (Suc k) d s m = copy_down k (d - 1) (s - 1) (m(d - 1 := m (s - 1)))"

definition memmove :: "ptr \<Rightarrow> ptr \<Rightarrow> usize \<Rightarrow> mem \<Rightarrow> mem" where
  "memmove d s n m =
     (if s < d \<and> d - s < n then copy_down (unat n) (d + n) (s + n) m
      else copy_up (unat n) d s m)"

text \<open>The index \<open>i\<close> at which the first loop of \<open>strncpy\<close> stops, with \<open>dest\<close> so far.\<close>

fun strncpy_copy :: "nat \<Rightarrow> usize \<Rightarrow> barr \<Rightarrow> barr \<Rightarrow> nat \<times> usize \<times> barr" where
  "strncpy_copy 0 i dest src = (0, i, dest)"
| "strncpy_copy (Suc k) i dest src =
     (if src i \<noteq> 0 then strncpy_copy k (i + 1) (dest(i := src i)) src else (Suc k, i, dest))"

definition strncpy :: "barr \<Rightarrow> barr \<Rightarrow> usize \<Rightarrow> barr" where
  "strncpy dest src n =
     (case strncpy_copy (unat n) 0 dest src of (k, i, dest') \<Rightarrow> memset_loop k i 0 dest')"

definition strncpy_fast :: "barr \<Rightarrow> barr \<Rightarrow> usize \<Rightarrow> barr" where
  "strncpy_fast dest src n =
     (case strncpy_copy (unat n) 0 dest src of
        (k, i, dest') \<Rightarrow> if i < n then dest'(i := 0) else dest')"

fun strncmp_loop :: "nat \<Rightarrow> usize \<Rightarrow> barr \<Rightarrow> barr \<Rightarrow> int" where
  "strncmp_loop 0 i s1 s2 = 0"
| "strncmp_loop (Suc k) i s1 s2 =
     (if s1 i \<noteq> s2 i then uint (s1 i) - uint (s2 i)
      else if s1 i = 0 \<or> s2 i = 0 then 0
      else strncmp_loop k (i + 1) s1 s2)"

definition strncmp :: "barr \<Rightarrow> barr \<Rightarrow> usize \<Rightarrow> int" where
  "strncmp s1 s2 n = strncmp_loop (unat n) 0 s1 s2"

text \<open>\<open>strlen\<close> has no bound: \<^const>\<open>None\<close> is a loop that never meets a NUL.\<close>

partial_function (option) strlen_loop :: "barr \<Rightarrow> usize \<Rightarrow> usize option" where
  "strlen_loop s i = (if s i \<noteq> 0 then strlen_loop s (i + 1) else Some i)"

definition strlen :: "barr \<Rightarrow> usize option" where
  "strlen s = strlen_loop s 0"

section \<open>bitmap.h\<close>

type_synonym BitmapCell = u64

text \<open>
  \<open>BITMAP_PARSE_INDEX\<close>: cell index and in-cell offset.  A bitmap is the list of its cells; an
  index outside it is the out-of-bounds access of the C code, here a failed check.
\<close>

definition BITMAP_TO_NUM_CELLS :: "nat \<Rightarrow> nat" where
  "BITMAP_TO_NUM_CELLS sz = (sz + 64 - 1) div 64"

definition bitmap_get :: "BitmapCell list \<Rightarrow> nat \<Rightarrow> bool option" where
  "bitmap_get bitmap index =
     (let idx = index div 64; offset = index mod 64
      in if idx < length bitmap then Some (drop_bit offset (bitmap ! idx) AND 1 \<noteq> 0) else None)"

definition bitmap_set :: "BitmapCell list \<Rightarrow> nat \<Rightarrow> BitmapCell list option" where
  "bitmap_set bitmap index =
     (let idx = index div 64; offset = index mod 64
      in if idx < length bitmap then Some (bitmap[idx := bitmap ! idx OR BIT offset]) else None)"

definition bitmap_clear :: "BitmapCell list \<Rightarrow> nat \<Rightarrow> BitmapCell list option" where
  "bitmap_clear bitmap index =
     (let idx = index div 64; offset = index mod 64
      in if idx < length bitmap then Some (bitmap[idx := bitmap ! idx AND NOT (BIT offset)]) else None)"

section \<open>rc.c\<close>

text \<open>\<open>RefCount\<close> is an \<open>isize\<close>; the atomic operations wrap.\<close>

type_synonym RefCount = "64 word"

definition init_rc :: RefCount where
  "init_rc = 0"

definition increment_rc :: "RefCount \<Rightarrow> RefCount" where
  "increment_rc rc = rc + 1"

definition decrement_rc :: "RefCount \<Rightarrow> bool \<times> RefCount" where
  "decrement_rc rc = (let r = rc - 1 in (r \<le>s 0, r))"


section \<open>Copying and comparing\<close>

lemma copy_up_spec:
  assumes "k \<le> 18446744073709551616"
    and "\<And>i j. i < j \<Longrightarrow> j < k \<Longrightarrow> d + of_nat i \<noteq> s + of_nat j"
  shows "copy_up k d s m = (\<lambda>q. if unat (q - d) < k then m (s + (q - d)) else m q)"
  using assms
proof (induction k arbitrary: d s m)
  case (Suc k)
  have step: "copy_up k (d + 1) (s + 1) (m(d := m s)) =
      (\<lambda>q. if unat (q - (d + 1)) < k then (m(d := m s)) (s + 1 + (q - (d + 1))) else (m(d := m s)) q)"
  proof (rule Suc.IH)
    fix i j assume "i < j" "j < k"
    then show "d + 1 + of_nat i \<noteq> s + 1 + of_nat j"
      using Suc.prems(2) [of "Suc i" "Suc j"] by (simp add: algebra_simps)
  qed (use Suc.prems in simp)
  have "copy_up (Suc k) d s m q = (if unat (q - d) < Suc k then m (s + (q - d)) else m q)" for q
  proof (cases "q = d")
    case True
    with True Suc.prems(1) show ?thesis by (simp add: step)
  next
    case False
    then have lt: "unat (q - d - 1) < k \<longleftrightarrow> unat (q - d) < Suc k"
      by (intro unat_pred_less_iff) simp
    show ?thesis
    proof (cases "unat (q - d) < Suc k")
      case True
      have "unat (q - d) \<noteq> 0" using False by (simp add: unat_eq_0)
      with True Suc.prems(2) [of 0 "unat (q - d)"] have "d \<noteq> s + (q - d)" by simp
      with False True lt show ?thesis by (simp add: step diff_diff_eq)
    next
      case F: False
      with False lt show ?thesis by (simp add: step diff_diff_eq)
    qed
  qed
  then show ?case by blast
qed simp

lemma copy_down_spec:
  assumes "k \<le> 18446744073709551616"
    and "\<And>i j. i < j \<Longrightarrow> j < k \<Longrightarrow> d + of_nat j \<noteq> s + of_nat i"
  shows "copy_down k (d + of_nat k) (s + of_nat k) m
      = (\<lambda>q. if unat (q - d) < k then m (s + (q - d)) else m q)"
  using assms
proof (induction k arbitrary: m)
  case (Suc k)
  let ?m = "m(d + of_nat k := m (s + of_nat k))"
  have step: "copy_down k (d + of_nat k) (s + of_nat k) ?m
      = (\<lambda>q. if unat (q - d) < k then ?m (s + (q - d)) else ?m q)"
    by (rule Suc.IH) (use Suc.prems in auto)
  have k: "k < 18446744073709551616" using Suc.prems(1) by simp
  have "copy_down (Suc k) (d + of_nat (Suc k)) (s + of_nat (Suc k)) m q
      = (if unat (q - d) < Suc k then m (s + (q - d)) else m q)" for q
  proof (cases "q = d + of_nat k")
    case True
    with k show ?thesis by (simp add: step unat_of_nat_u64)
  next
    case False
    then have "unat (q - d) \<noteq> k"
      by (metis add_diff_cancel_left' diff_add_cancel add.commute of_nat_unat_u64)
    then have lt: "unat (q - d) < Suc k \<longleftrightarrow> unat (q - d) < k" by auto
    moreover have "s + (q - d) \<noteq> d + of_nat k" if "unat (q - d) < k"
      using Suc.prems(2) [OF that] by auto
    ultimately show ?thesis using False by (simp add: step)
  qed
  then show ?case by blast
qed simp

lemma region_offset_unat:
  assumes "unat (a :: u64) + unat (n :: u64) \<le> 18446744073709551616" "i < unat n"
  shows "unat (a + of_nat i) = unat a + i"
proof -
  have "i < 18446744073709551616" using assms(2) unat_u64_less [of n] by linarith
  then show ?thesis using assms by (simp add: unat_word_ariths unat_of_nat_u64)
qed

lemma memcpy_loop_spec:
  "k \<le> 18446744073709551616 \<Longrightarrow>
   memcpy_loop k i dest src = (\<lambda>q. if unat (q - i) < k then src q else dest q)"
proof (induction k arbitrary: i dest)
  case (Suc k)
  have "memcpy_loop (Suc k) i dest src q = (if unat (q - i) < Suc k then src q else dest q)" for q
  proof (cases "q = i")
    case True
    with True Suc show ?thesis by simp
  next
    case False
    then have "unat (q - i - 1) < k \<longleftrightarrow> unat (q - i) < Suc k"
      by (intro unat_pred_less_iff) simp
    with Suc False show ?thesis by (simp add: diff_diff_eq)
  qed
  then show ?case by blast
qed simp

lemma memset_loop_spec:
  "k \<le> 18446744073709551616 \<Longrightarrow>
   memset_loop k i c s = (\<lambda>q. if unat (q - i) < k then c else s q)"
proof -
  have "memset_loop k i c s = memcpy_loop k i s (\<lambda>_. c)"
    by (induction k arbitrary: i s) auto
  then show "k \<le> 18446744073709551616 \<Longrightarrow> ?thesis" by (simp add: memcpy_loop_spec)
qed

lemma memcpy_spec: "memcpy dest src n q = (if q < n then src q else dest q)"
  unfolding memcpy_def word_less_nat_alt
  by (subst memcpy_loop_spec) (use unat_u64_less [of n] in \<open>simp_all add: less_imp_le\<close>)

lemma memset_spec: "memset s c n q = (if q < n then ucast (c AND 0xff) else s q)"
  unfolding memset_def word_less_nat_alt
  by (subst memset_loop_spec) (use unat_u64_less [of n] in \<open>simp_all add: less_imp_le\<close>)

text \<open>
  The string an array holds when at most \<open>n\<close> bytes may be read: its bytes up to the first NUL.
\<close>

fun cstr :: "nat \<Rightarrow> usize \<Rightarrow> barr \<Rightarrow> u8 list" where
  "cstr 0 i s = []"
| "cstr (Suc k) i s = (if s i = 0 then [] else s i # cstr k (i + 1) s)"

lemma cstr_numeral [simp]:
  "cstr (numeral v) i s = (if s i = 0 then [] else s i # cstr (pred_numeral v) (i + 1) s)"
  by (simp add: numeral_eq_Suc)

lemma cstr_length: "length (cstr k i s) \<le> k"
  by (induction k arbitrary: i) auto

lemma strncmp_loop_zero_iff:
  "strncmp_loop k i s1 s2 = 0 \<longleftrightarrow> cstr k i s1 = cstr k i s2"
  by (induction k arbitrary: i) auto

lemma strncpy_copy_spec:
  assumes "strncpy_copy k i dest src = (r, j, dest')" "k \<le> 18446744073709551616"
  shows "r \<le> k \<and> j = i + of_nat (k - r) \<and> length (cstr k i src) = k - r
    \<and> (r \<noteq> 0 \<longrightarrow> src j = 0)
    \<and> dest' = (\<lambda>q. if unat (q - i) < k - r then src q else dest q)"
  using assms
proof (induction k arbitrary: i dest)
  case (Suc k)
  show ?case
  proof (cases "src i = 0")
    case True
    with Suc.prems show ?thesis by auto
  next
    case False
    with Suc.prems have c: "strncpy_copy k (i + 1) (dest(i := src i)) src = (r, j, dest')" by simp
    from Suc.IH [OF c] Suc.prems(2)
    have IH: "r \<le> k" "j = i + 1 + of_nat (k - r)" "length (cstr k (i + 1) src) = k - r"
      "r \<noteq> 0 \<longrightarrow> src j = 0"
      "dest' = (\<lambda>q. if unat (q - (i + 1)) < k - r then src q else (dest(i := src i)) q)"
      by auto
    have "dest' q = (if unat (q - i) < Suc k - r then src q else dest q)" for q
    proof (cases "q = i")
      case True
      with True IH(1,5) Suc.prems(2) show ?thesis by (simp add: Suc_diff_le)
    next
      case F: False
      then have "unat (q - i - 1) < k - r \<longleftrightarrow> unat (q - i) < Suc (k - r)"
        by (intro unat_pred_less_iff) simp
      with F IH(1,5) show ?thesis by (simp add: diff_diff_eq Suc_diff_le)
    qed
    with IH False show ?thesis by (auto simp: Suc_diff_le algebra_simps)
  qed
qed auto

lemma cstr_copy:
  "k \<le> 18446744073709551616 \<Longrightarrow> length (cstr k i src) = l \<Longrightarrow>
   (\<And>q. unat (q - i) < l \<Longrightarrow> dest q = src q) \<Longrightarrow>
   (\<And>q. l \<le> unat (q - i) \<Longrightarrow> unat (q - i) < k \<Longrightarrow> dest q = 0) \<Longrightarrow>
   cstr k i dest = cstr k i src"
proof (induction k arbitrary: i l)
  case (Suc k)
  show ?case
  proof (cases "src i = 0")
    case True
    with Suc.prems(2) Suc.prems(4) [of i] show ?thesis by simp
  next
    case False
    then obtain l' where l': "l = Suc l'" "length (cstr k (i + 1) src) = l'"
      using Suc.prems(2) by auto
    have "cstr k (i + 1) dest = cstr k (i + 1) src"
    proof (rule Suc.IH [OF _ l'(2)])
      fix q :: u64
      have e: "q - (i + 1) = q - i - 1" by simp
      have q: "q \<noteq> i" if "unat (q - (i + 1)) < k" using that Suc.prems(1) by auto
      have lt: "unat (q - (i + 1)) < n \<longleftrightarrow> unat (q - i) < Suc n" if "q \<noteq> i" for n
        unfolding e using that by (intro unat_pred_less_iff) simp
      have kl: "l' \<le> k" using l'(2) cstr_length [of k "i + 1" src] by simp
      show "dest q = src q" if "unat (q - (i + 1)) < l'"
        using Suc.prems(3) [of q] lt [of l'] q that kl l'(1) by auto
      show "dest q = 0" if "l' \<le> unat (q - (i + 1))" "unat (q - (i + 1)) < k"
        using Suc.prems(4) [of q] lt [of l'] lt [of k] q that l'(1) by (metis not_less)
    qed (use Suc.prems in simp)
    with False Suc.prems(3) [of i] l'(1) show ?thesis by simp
  qed
qed simp

lemma strlen_loop_Some:
  assumes "src (i + of_nat k) = 0" "\<And>j. j < k \<Longrightarrow> src (i + of_nat j) \<noteq> 0"
  shows "strlen_loop src i = Some (i + of_nat k)"
  using assms
proof (induction k arbitrary: i)
  case (Suc k)
  have "strlen_loop src (i + 1) = Some (i + 1 + of_nat k)"
  proof (rule Suc.IH)
    show "src (i + 1 + of_nat j) \<noteq> 0" if "j < k" for j
      using Suc.prems(2) [of "Suc j"] that by (simp add: algebra_simps)
  qed (use Suc.prems(1) in \<open>simp add: algebra_simps\<close>)
  with Suc.prems(2) [of 0] show ?case
    by (subst strlen_loop.simps) (simp add: algebra_simps)
qed (simp add: strlen_loop.simps)


lemma strncpy_spec:
  assumes "l = length (cstr (unat n) 0 src)"
  shows "strncpy dest src n q
    = (if unat q < l then src q else if unat q < unat n then 0 else dest q)"
proof -
  obtain r j d' where c: "strncpy_copy (unat n) 0 dest src = (r, j, d')" by (metis prod_cases3)
  have n: "unat n \<le> 18446744073709551616" using unat_u64_less [of n] by simp
  from strncpy_copy_spec [OF c n] assms
  have r: "r \<le> unat n" "j = of_nat l" "l = unat n - r"
    and d': "d' = (\<lambda>q. if unat q < l then src q else dest q)" by auto
  have "l < 18446744073709551616" unfolding r(3) using unat_u64_less [of n] by linarith
  then have j: "unat j = l" unfolding r(2) by (rule unat_of_nat_u64)
  have "strncpy dest src n q = (if unat (q - j) < r then 0 else d' q)"
    using memset_loop_spec [of r j 0 d', OF order_trans [OF r(1) n]] by (simp add: strncpy_def c)
  moreover have "unat (q - j) < r \<longleftrightarrow> l \<le> unat q \<and> unat q < unat n"
  proof (cases "l \<le> unat q")
    case True
    then have "unat (q - j) = unat q - l" using j by (simp add: unat_sub word_le_nat_alt)
    with True r show ?thesis by auto
  next
    case False
    then have "unat (q - j) = 18446744073709551616 + unat q - l"
      using j by (simp add: unat_sub_if_size word_size word_le_nat_alt)
    with False r(1,3) unat_u64_less [of n] show ?thesis by linarith
  qed
  ultimately show ?thesis by (auto simp: d')
qed

section \<open>Bits\<close>

lemma drop_bit_and_one: "drop_bit k (w :: u64) AND 1 \<noteq> 0 \<longleftrightarrow> bit w k"
  by (simp add: and_one_eq bit_iff_odd_drop_bit odd_iff_mod_2_eq_one)

lemma bit_BIT: "bit (BIT k) j \<longleftrightarrow> j = k \<and> k < 64"
  unfolding BIT_def bit_push_bit_iff by (auto simp: bit_1_iff)

lemma bitmap_get_bit:
  "i div 64 < length bm \<Longrightarrow> bitmap_get bm i = Some (bit (bm ! (i div 64)) (i mod 64))"
  by (simp add: bitmap_get_def Let_def drop_bit_and_one)

lemma div_mod_64_eq: "i div 64 = j div 64 \<Longrightarrow> i mod 64 = j mod 64 \<Longrightarrow> i = (j :: nat)"
  by (metis div_mult_mod_eq)

section \<open>Properties\<close>

text \<open>
  \<open>memmove\<close> is correct for overlapping regions: if neither region wraps around the end of the
  address space, afterwards the destination holds the bytes the source held before, and every byte
  outside the destination is unchanged.
\<close>

theorem memmove_correct:
  assumes "unat s + unat n \<le> 2 ^ 64" "unat d + unat n \<le> 2 ^ 64"
  shows "(\<forall>i < unat n. memmove d s n m (d + of_nat i) = m (s + of_nat i))
    \<and> (\<forall>q. (\<forall>i < unat n. q \<noteq> d + of_nat i) \<longrightarrow> memmove d s n m q = m q)"
proof -
  let ?N = "18446744073709551616 :: nat"
  have N: "unat s + unat n \<le> ?N" "unat d + unat n \<le> ?N" "unat n \<le> ?N" using assms by auto
  have "memmove d s n m = (\<lambda>q. if unat (q - d) < unat n then m (s + (q - d)) else m q)"
  proof (cases "s < d \<and> d - s < n")
    case True
    then have "unat d - unat s < unat n" "unat s < unat d"
      by (auto simp: word_less_nat_alt unat_sub word_le_nat_alt)
    have "d + of_nat j \<noteq> s + of_nat i" if "i < j" "j < unat n" for i j
    proof
      assume "d + of_nat j = s + of_nat i"
      then have "unat d + j = unat s + i"
        using that region_offset_unat [OF N(1), of i] region_offset_unat [OF N(2), of j] by simp
      with that \<open>unat s < unat d\<close> show False by simp
    qed
    from copy_down_spec [OF N(3) this, of m] True show ?thesis by (simp add: memmove_def)
  next
    case False
    have "d + of_nat i \<noteq> s + of_nat j" if "i < j" "j < unat n" for i j
    proof
      assume "d + of_nat i = s + of_nat j"
      then have e: "unat d + i = unat s + j"
        using that region_offset_unat [OF N(1), of j] region_offset_unat [OF N(2), of i] by simp
      with that have "s < d" "unat (d - s) < unat n"
        by (auto simp: word_less_nat_alt unat_sub word_le_nat_alt)
      with False show False by (simp add: word_less_nat_alt)
    qed
    from copy_up_spec [OF N(3) this, of m] False show ?thesis by (auto simp: memmove_def)
  qed
  then have mv: "memmove d s n m q = (if unat (q - d) < unat n then m (s + (q - d)) else m q)" for q
    by simp
  have "memmove d s n m (d + of_nat i) = m (s + of_nat i)" if i: "i < unat n" for i
  proof -
    have "unat (of_nat i :: u64) = i"
      using i unat_u64_less [of n] by (intro unat_of_nat_u64) linarith
    with i show ?thesis by (simp add: mv)
  qed
  moreover have "memmove d s n m q = m q" if "\<forall>i < unat n. q \<noteq> d + of_nat i" for q
  proof -
    have "q = d + of_nat (unat (q - d))" by simp
    with that have "\<not> unat (q - d) < unat n" by blast
    then show ?thesis by (simp add: mv)
  qed
  ultimately show ?thesis by blast
qed

theorem memmove_correct_witness:
  "let m = (\<lambda>p. if p = 10 then 1 else if p = 11 then 2 else if p = 12 then 3 else 0); m' = memmove 11 10 3 m
   in m' 11 = 1 \<and> m' 12 = 2 \<and> m' 13 = 3 \<and> m' 10 = 1"
proof -
  let ?m = "\<lambda>p :: ptr. if p = 10 then 1 else if p = 11 then 2 else if p = 12 then 3 else (0 :: u8)"
  have h: "\<forall>i < 3. memmove 11 10 3 ?m (11 + of_nat i) = ?m (10 + of_nat i)"
    and fr: "\<forall>q. (\<forall>i < 3. q \<noteq> 11 + of_nat i) \<longrightarrow> memmove 11 10 3 ?m q = ?m q"
    using memmove_correct [of 10 3 11 ?m] by simp_all
  have "(0::nat) < 3" "(1::nat) < 3" "(2::nat) < 3" by simp_all
  note h [rule_format, OF this(1)] h [rule_format, OF this(2)] h [rule_format, OF this(3)]
  moreover have "\<forall>i < 3. (10 :: u64) \<noteq> 11 + of_nat i"
    by (simp add: numeral_3_eq_3 less_Suc_eq)
  ultimately show ?thesis using fr [rule_format, of 10] by (simp add: Let_def)
qed

text \<open>
  \<open>strncmp\<close> with bound \<open>n\<close> returns 0 exactly when the two arrays hold the same string within
  their first \<open>n\<close> bytes, and after \<open>strncpy\<close> the destination compares equal to the source and is
  padded with NUL bytes up to \<open>n\<close>.
\<close>

theorem strncmp_strncpy:
  "(strncmp s1 s2 n = 0 \<longleftrightarrow> cstr (unat n) 0 s1 = cstr (unat n) 0 s2)
   \<and> strncmp (strncpy dest src n) src n = 0
   \<and> (\<forall>q < n. strncpy dest src n q = (if unat q < length (cstr (unat n) 0 src) then src q else 0))"
proof -
  have "strncmp (strncpy dest src n) src n = 0"
    unfolding strncmp_def strncmp_loop_zero_iff
    by (rule cstr_copy [OF unat_u64_le refl]) (simp_all add: strncpy_spec [OF refl])
  then show ?thesis
    by (auto simp: strncmp_def strncmp_loop_zero_iff strncpy_spec [OF refl] word_less_nat_alt)
qed

theorem strncmp_strncpy_witness:
  "let src = (\<lambda>i. if i = 0 then 65 else 0); d = strncpy (\<lambda>_. 7) src 4 in
     d 0 = 65 \<and> d 2 = 0 \<and> strncmp d src 4 = 0"
proof -
  let ?src = "\<lambda>i :: usize. if i = 0 then 65 else (0 :: u8)"
  have l: "length (cstr (unat (4 :: usize)) 0 ?src) = 1"
    by simp
  show ?thesis
    using strncmp_strncpy [of ?src ?src 4 "\<lambda>_. 7" ?src] unfolding l by (simp add: Let_def)
qed

text \<open>
  the three bit operations of \<open>bitmap.h\<close> treat a bitmap of \<open>64 * length\<close> bits as a boolean
  array: after \<open>bitmap_set\<close> or \<open>bitmap_clear\<close> of an index inside it, that bit reads as 1 or 0 and
  every other bit reads as before.
\<close>

theorem bitmap_array:
  assumes "i < 64 * length bm" "j < 64 * length bm"
  shows "\<exists>bs bc. bitmap_set bm i = Some bs \<and> bitmap_clear bm i = Some bc
    \<and> bitmap_get bs j = (if j = i then Some True else bitmap_get bm j)
    \<and> bitmap_get bc j = (if j = i then Some False else bitmap_get bm j)"
proof -
  have i: "i div 64 < length bm" and j: "j div 64 < length bm" using assms by auto
  have "bitmap_get (bm[i div 64 := bm ! (i div 64) OR BIT (i mod 64)]) j
      = (if j = i then Some True else bitmap_get bm j)"
    using i j div_mod_64_eq [of i j]
    by (auto simp: bitmap_get_bit nth_list_update bit_or_iff bit_BIT)
  moreover have "bitmap_get (bm[i div 64 := bm ! (i div 64) AND NOT (BIT (i mod 64))]) j
      = (if j = i then Some False else bitmap_get bm j)"
    using i j div_mod_64_eq [of i j]
    by (auto simp: bitmap_get_bit nth_list_update bit_and_iff bit_not_iff bit_BIT)
  ultimately show ?thesis
    using i by (simp add: bitmap_set_def bitmap_clear_def Let_def)
qed

theorem bitmap_array_witness:
  "\<exists>bs bc. bitmap_set [0, 5] 65 = Some bs \<and> bitmap_clear [0, 5] 65 = Some bc \<and> bitmap_get bs 65 = Some True
     \<and> bitmap_get bc 65 = Some False"
  using bitmap_array [of 65 "[0, 5]" 65] by simp

end
