(* ===== verification/Sched.thy ===== *)
theory Sched
  imports Prelude Clist
begin

text \<open>
  The scheduler (\<open>kernel/sched.c\<close>, \<open>kernel/schinfo.h\<close>) and the per-processor timers of
  \<open>kernel/cpu.c\<close> it arms.  A process is named by the address of its \<open>struct proc\<close>, its timer by the
  same address.  \<open>runnable_queue\<close> is the member sequence of the circular list (front first), with
  insertion and removal as \<open>Clist.insert_head\<close> and \<open>Clist.detach_member\<close> establish them for the heap
  operations.  Every function below runs under \<open>runlock\<close>, so it is one atomic step; the current time
  \<open>get_timestamp_ms()\<close> is an argument.
\<close>

section \<open>State\<close>

datatype procstate = UNUSED | RUNNABLE | RUNNING | SLEEPING | DEEPSLEEPING | ZOMBIE

definition NCPU :: nat where
  "NCPU = 4"

definition ELAPSE :: u64 where
  "ELAPSE = 7"

record timer =
  triggered :: bool
  elapse :: u64
  tkey :: u64

record schedst =
  pstate :: "ptr \<Rightarrow> procstate"
  pidle :: "ptr \<Rightarrow> bool"
  pcnt :: "ptr \<Rightarrow> int"
  ptimer :: "ptr \<Rightarrow> timer"
  runnable_queue :: "ptr list"
  thisproc :: "nat \<Rightarrow> ptr"
  idleproc :: "nat \<Rightarrow> ptr"
  cputimer :: "nat \<Rightarrow> ptr list"
  hello_timer :: "nat \<Rightarrow> ptr"

section \<open>cpu.c: the timer tree of a processor\<close>

text \<open>
  The red-black tree of a processor is the list of the timers in it, ordered as \<open>__timer_cmp\<close> orders
  them: by the sign of the 64-bit difference of the keys, then by address.  \<open>_rb_insert\<close> refuses
  only a node that is already there.  \<open>_rb_erase\<close> of a zero-initialised node that is in no tree sets
  the root to NULL, because such a node has no parent and no child.
\<close>

definition timer_cmp :: "schedst \<Rightarrow> ptr \<Rightarrow> ptr \<Rightarrow> bool" where
  "timer_cmp s l r =
     (let d = tkey (ptimer s l) - tkey (ptimer s r)
      in if d <s 0 then True else if d = 0 then l < r else False)"

fun timer_insort :: "(ptr \<Rightarrow> ptr \<Rightarrow> bool) \<Rightarrow> ptr \<Rightarrow> ptr list \<Rightarrow> ptr list" where
  "timer_insort cmp t [] = [t]"
| "timer_insort cmp t (u # us) = (if cmp t u then t # u # us else u # timer_insort cmp t us)"

definition set_cpu_timer :: "nat \<Rightarrow> u64 \<Rightarrow> ptr \<Rightarrow> schedst \<Rightarrow> schedst option" where
  "set_cpu_timer c now t s =
     (let s1 = s\<lparr>ptimer := (ptimer s)(t := (ptimer s t)\<lparr>triggered := False,
                                                       tkey := now + elapse (ptimer s t)\<rparr>)\<rparr>
      in do { ASSERT (t \<notin> set (cputimer s1 c));
              Some (s1\<lparr>cputimer := (cputimer s1)(c := timer_insort (timer_cmp s1) t (cputimer s1 c))\<rparr>) })"

definition cancel_cpu_timer :: "nat \<Rightarrow> ptr \<Rightarrow> schedst \<Rightarrow> schedst option" where
  "cancel_cpu_timer c t s =
     do { ASSERT (\<not> triggered (ptimer s t));
          Some (s\<lparr>cputimer := (cputimer s)(c := (if t \<in> set (cputimer s c)
                                                then remove1 t (cputimer s c) else []))\<rparr>) }"

section \<open>sched.c\<close>

definition init_schinfo :: "ptr \<Rightarrow> schedst \<Rightarrow> schedst" where
  "init_schinfo p s =
     s\<lparr>pcnt := (pcnt s)(p := 0),
       ptimer := (ptimer s)(p := (ptimer s p)\<lparr>triggered := False, elapse := ELAPSE\<rparr>)\<rparr>"

definition is_zombie :: "ptr \<Rightarrow> schedst \<Rightarrow> bool" where
  "is_zombie p s \<longleftrightarrow> pstate s p = ZOMBIE"

definition is_unused :: "ptr \<Rightarrow> schedst \<Rightarrow> bool" where
  "is_unused p s \<longleftrightarrow> pstate s p = UNUSED"

definition make_runnable :: "ptr \<Rightarrow> schedst \<Rightarrow> schedst" where
  "make_runnable p s =
     s\<lparr>pstate := (pstate s)(p := RUNNABLE), runnable_queue := p # runnable_queue s\<rparr>"

definition activate_proc :: "ptr \<Rightarrow> bool \<Rightarrow> schedst \<Rightarrow> bool \<times> schedst" where
  "activate_proc p onalert s =
     (if pstate s p = RUNNABLE \<or> pstate s p = RUNNING then (False, s)
      else if pstate s p = SLEEPING \<or> pstate s p = UNUSED then (True, make_runnable p s)
      else if pstate s p = DEEPSLEEPING then
        (if onalert then (False, s) else (True, make_runnable p s))
      else (False, s))"

definition update_this_state :: "nat \<Rightarrow> procstate \<Rightarrow> schedst \<Rightarrow> schedst" where
  "update_this_state c new_state s =
     (let s1 = s\<lparr>pstate := (pstate s)(thisproc s c := new_state)\<rparr>
      in if new_state = SLEEPING \<or> new_state = ZOMBIE \<or> new_state = DEEPSLEEPING
         then s1\<lparr>runnable_queue := remove1 (thisproc s1 c) (runnable_queue s1)\<rparr> else s1)"

text \<open>
  The loop of \<open>pick_next\<close>: \<open>ans\<close> is the candidate so far.  The first runnable candidate ends the
  loop with \<open>break\<close>, so the comparison of \<open>cnt\<close> in the other branch is never reached.
\<close>

fun pick_loop :: "schedst \<Rightarrow> ptr option \<Rightarrow> ptr list \<Rightarrow> ptr option" where
  "pick_loop s ans [] = ans"
| "pick_loop s ans (cand # ps) =
     (if pstate s cand = RUNNABLE then
        (case ans of
           None \<Rightarrow> Some cand
         | Some a \<Rightarrow> pick_loop s (if pcnt s a > pcnt s cand then Some cand else Some a) ps)
      else pick_loop s ans ps)"

definition pick_next :: "nat \<Rightarrow> schedst \<Rightarrow> ptr \<times> schedst" where
  "pick_next c s =
     (case pick_loop s None (runnable_queue s) of
        Some a \<Rightarrow> (a, s\<lparr>pcnt := (pcnt s)(a := pcnt s a + 1)\<rparr>)
      | None \<Rightarrow> (idleproc s c, s))"

definition update_this_proc :: "nat \<Rightarrow> u64 \<Rightarrow> ptr \<Rightarrow> schedst \<Rightarrow> schedst option" where
  "update_this_proc c now p s = set_cpu_timer c now p (s\<lparr>thisproc := (thisproc s)(c := p)\<rparr>)"

definition simple_sched :: "nat \<Rightarrow> u64 \<Rightarrow> procstate \<Rightarrow> schedst \<Rightarrow> schedst option" where
  "simple_sched c now new_state s =
     do { let this = thisproc s c;
          ASSERT (pstate s this = RUNNING);
          let s1 = update_this_state c new_state s;
          s2 \<leftarrow> (if \<not> triggered (ptimer s1 this) then cancel_cpu_timer c this s1 else Some s1);
          let (next, s3) = pick_next c s2;
          s4 \<leftarrow> update_this_proc c now next s3;
          ASSERT (pstate s4 next = RUNNABLE \<or> pidle s4 next);
          Some (s4\<lparr>pstate := (pstate s4)(next := RUNNING)\<rparr>) }"

text \<open>
  One round of \<open>timer_clock_handler\<close> on processor \<open>c\<close>: the first timer of the tree, if it is due,
  is cancelled, marked, and its handler runs: \<open>interrupt\<close>, which reschedules, for the timer of a
  process, \<open>hello\<close>, which arms itself again, for the processor's own timer.  A round that
  reschedules continues only when the interrupted process runs again, so a round is one step.
\<close>

definition timer_clock_round :: "nat \<Rightarrow> u64 \<Rightarrow> schedst \<Rightarrow> schedst option" where
  "timer_clock_round c now s =
     (case cputimer s c of
        [] \<Rightarrow> Some s
      | t # _ \<Rightarrow>
          if now < tkey (ptimer s t) then Some s
          else do { s1 \<leftarrow> cancel_cpu_timer c t s;
                    let s2 = s1\<lparr>ptimer := (ptimer s1)(t := (ptimer s1 t)\<lparr>triggered := True\<rparr>)\<rparr>;
                    if t = hello_timer s2 c then set_cpu_timer c now t s2
                    else simple_sched c now RUNNABLE s2 })"

text \<open>\<open>set_cpu_on\<close>: the processor goes online and arms its \<open>hello\<close> timer for 5000 ms.\<close>

definition set_cpu_on :: "nat \<Rightarrow> u64 \<Rightarrow> schedst \<Rightarrow> schedst option" where
  "set_cpu_on c now s =
     (let t = hello_timer s c
      in set_cpu_timer c now t (s\<lparr>ptimer := (ptimer s)(t := (ptimer s t)\<lparr>elapse := 5000\<rparr>)\<rparr>))"

text \<open>
  \<open>define_init(idle)\<close>: each processor starts in its own idle process, which is running and is in
  no queue; \<open>idles\<close> are the addresses \<open>kalloc\<close> gave.  \<open>define_early_init(runnable_queue)\<close> empties
  the queue.
\<close>

definition sched_init :: "(nat \<Rightarrow> ptr) \<Rightarrow> (nat \<Rightarrow> ptr) \<Rightarrow> schedst" where
  "sched_init idles hellos =
     \<lparr>pstate = (\<lambda>p. if p \<in> idles ` {..<NCPU} then RUNNING else UNUSED),
      pidle = (\<lambda>p. p \<in> idles ` {..<NCPU}),
      pcnt = (\<lambda>_. 0),
      ptimer = (\<lambda>_. \<lparr>triggered = False, elapse = ELAPSE, tkey = 0\<rparr>),
      runnable_queue = [],
      thisproc = idles, idleproc = idles, cputimer = (\<lambda>_. []),
      hello_timer = hellos\<rparr>"

section \<open>Runs\<close>

text \<open>
  A step is one critical section: a processor reschedules with one of the states the kernel passes
  to \<open>_sched\<close>, comes online, serves its clock, or some process that is not an idle process is
  activated.  The idle process only yields.  The last premise of \<open>activate\<close> says that a process is
  not one of the static \<open>hello_timer\<close> objects.
\<close>

inductive sched_step :: "schedst \<Rightarrow> schedst \<Rightarrow> bool" where
  resched: "c < NCPU \<Longrightarrow> ns \<in> {RUNNABLE, SLEEPING, DEEPSLEEPING, ZOMBIE} \<Longrightarrow>
     (pidle s (thisproc s c) \<longrightarrow> ns = RUNNABLE) \<Longrightarrow>
     simple_sched c now ns s = Some t \<Longrightarrow> sched_step s t"
| online: "c < NCPU \<Longrightarrow> set_cpu_on c now s = Some t \<Longrightarrow> sched_step s t"
| clock: "c < NCPU \<Longrightarrow> timer_clock_round c now s = Some t \<Longrightarrow> sched_step s t"
| activate: "\<not> pidle s p \<Longrightarrow> p \<notin> hello_timer s ` {..<NCPU} \<Longrightarrow>
     activate_proc p onalert s = (b, t) \<Longrightarrow> sched_step s t"

inductive sched_reach :: "(nat \<Rightarrow> ptr) \<Rightarrow> (nat \<Rightarrow> ptr) \<Rightarrow> schedst \<Rightarrow> bool" for idles hellos where
  start: "inj_on idles {..<NCPU} \<Longrightarrow> inj_on hellos {..<NCPU} \<Longrightarrow> idles ` {..<NCPU} \<inter> hellos ` {..<NCPU} = {} \<Longrightarrow>
     sched_reach idles hellos (sched_init idles hellos)"
| step: "sched_reach idles hellos s \<Longrightarrow> sched_step s t \<Longrightarrow> sched_reach idles hellos t"

text \<open>Processes, processors and queue agree.\<close>

definition sched_inv :: "schedst \<Rightarrow> bool" where
  "sched_inv s \<longleftrightarrow>
     distinct (runnable_queue s)
     \<and> (\<forall>p. p \<in> set (runnable_queue s) \<longleftrightarrow> \<not> pidle s p \<and> pstate s p \<in> {RUNNABLE, RUNNING})
     \<and> inj_on (thisproc s) {..<NCPU} \<and> inj_on (idleproc s) {..<NCPU} \<and> inj_on (hello_timer s) {..<NCPU}
     \<and> (\<forall>c<NCPU. pstate s (thisproc s c) = RUNNING)
     \<and> (\<forall>p. pstate s p = RUNNING \<longrightarrow> (\<exists>c<NCPU. thisproc s c = p))
     \<and> (\<forall>c<NCPU. pidle s (idleproc s c))
     \<and> (\<forall>c<NCPU. pidle s (thisproc s c) \<longrightarrow> thisproc s c = idleproc s c)
     \<and> (\<forall>c<NCPU. pstate s (hello_timer s c) = UNUSED \<and> \<not> pidle s (hello_timer s c))"

text \<open>The trees hold the timer of the running process and the \<open>hello\<close> timer, if any, once.\<close>

definition timer_inv :: "schedst \<Rightarrow> bool" where
  "timer_inv s \<longleftrightarrow>
     (\<forall>c<NCPU. distinct (cputimer s c)
       \<and> (\<forall>t. t \<in> set (cputimer s c) \<longrightarrow>
             (t = thisproc s c \<or> t = hello_timer s c) \<and> \<not> triggered (ptimer s t)))"

section \<open>Every operation keeps the invariant\<close>

lemma sched_inv_hello:
  assumes "sched_inv s" "c' < NCPU" "c < NCPU"
  shows "hello_timer s c' \<noteq> thisproc s c" "hello_timer s c' \<noteq> idleproc s c"
    "pstate s (hello_timer s c') = UNUSED" "\<not> pidle s (hello_timer s c')"
proof -
  show h: "pstate s (hello_timer s c') = UNUSED" "\<not> pidle s (hello_timer s c')"
    using assms by (simp_all add: sched_inv_def)
  have "pstate s (thisproc s c) = RUNNING" "pidle s (idleproc s c)"
    using assms by (simp_all add: sched_inv_def)
  with h show "hello_timer s c' \<noteq> thisproc s c" "hello_timer s c' \<noteq> idleproc s c" by auto
qed

lemma timer_insort_set [simp]: "set (timer_insort cmp t ts) = insert t (set ts)"
  by (induction ts) auto

lemma timer_insort_distinct: "t \<notin> set ts \<Longrightarrow> distinct ts \<Longrightarrow> distinct (timer_insort cmp t ts)"
  by (induction ts) auto

lemma cancel_cpu_timer_Some:
  "cancel_cpu_timer c t s = Some s' \<longleftrightarrow> \<not> triggered (ptimer s t)
     \<and> s' = s\<lparr>cputimer := (cputimer s)(c := (if t \<in> set (cputimer s c)
                                                then remove1 t (cputimer s c) else []))\<rparr>"
  by (auto simp: cancel_cpu_timer_def)

lemma set_cpu_timer_Some:
  "set_cpu_timer c now t s = Some s' \<longleftrightarrow> t \<notin> set (cputimer s c)
     \<and> (\<exists>l. set l = insert t (set (cputimer s c)) \<and> (distinct (cputimer s c) \<longrightarrow> distinct l)
        \<and> s' = s\<lparr>ptimer := (ptimer s)(t := (ptimer s t)\<lparr>triggered := False,
                                                       tkey := now + elapse (ptimer s t)\<rparr>),
                  cputimer := (cputimer s)(c := l)\<rparr>
        \<and> l = timer_insort (timer_cmp (s\<lparr>ptimer := (ptimer s)(t := (ptimer s t)\<lparr>triggered := False,
                 tkey := now + elapse (ptimer s t)\<rparr>)\<rparr>)) t (cputimer s c))"
  by (auto simp: set_cpu_timer_def Let_def timer_insort_distinct)

lemma pick_loop_None:
  "pick_loop s None ps = find (\<lambda>p. pstate s p = RUNNABLE) ps"
  by (induction ps) auto

lemma pick_next_cases:
  obtains (found) a where "pick_next c s = (a, s\<lparr>pcnt := (pcnt s)(a := pcnt s a + 1)\<rparr>)"
      "find (\<lambda>p. pstate s p = RUNNABLE) (runnable_queue s) = Some a"
      "a \<in> set (runnable_queue s)" "pstate s a = RUNNABLE"
    | (idle) "pick_next c s = (idleproc s c, s)" "\<forall>p\<in>set (runnable_queue s). pstate s p \<noteq> RUNNABLE"
proof (cases "find (\<lambda>p. pstate s p = RUNNABLE) (runnable_queue s)")
  case None
  then show ?thesis
    using find_None_iff [of "\<lambda>p. pstate s p = RUNNABLE" "runnable_queue s"]
    by (intro idle) (auto simp: pick_next_def pick_loop_None)
next
  case (Some a)
  then show ?thesis
    using find_Some_iff [of "\<lambda>p. pstate s p = RUNNABLE" "runnable_queue s" a]
    by (intro found) (auto simp: pick_next_def pick_loop_None)
qed

text \<open>The part of \<open>simple_sched\<close> after the choice of \<open>next\<close>, on the invariant.\<close>

lemma sched_inv_update_this_state:
  assumes "sched_inv s" "c < NCPU" "ns \<in> {RUNNABLE, SLEEPING, DEEPSLEEPING, ZOMBIE}"
    and "pidle s (thisproc s c) \<longrightarrow> ns = RUNNABLE"
    and s1: "s1 = update_this_state c ns s"
  shows "distinct (runnable_queue s1)"
    and "p \<in> set (runnable_queue s1) \<longleftrightarrow> \<not> pidle s1 p \<and> pstate s1 p \<in> {RUNNABLE, RUNNING}"
    and "pstate s1 = (pstate s)(thisproc s c := ns)"
    and "thisproc s1 = thisproc s" "idleproc s1 = idleproc s" "pidle s1 = pidle s"
    and "ptimer s1 = ptimer s" "cputimer s1 = cputimer s" "hello_timer s1 = hello_timer s"
    and "pcnt s1 = pcnt s"
  using assms(1-4) by (auto simp: s1 update_this_state_def Let_def sched_inv_def)

lemma inj_on_upd_NCPU:
  "inj_on f {..<NCPU} \<Longrightarrow> (\<And>c'. c' < NCPU \<Longrightarrow> c' \<noteq> c \<Longrightarrow> f c' \<noteq> v) \<Longrightarrow> inj_on (f(c := v)) {..<NCPU}"
  by (auto simp: inj_on_def)

text \<open>The timer of the process that is switched out is not in the tree afterwards.\<close>

lemma cancel_stage:
  assumes ti: "timer_inv s" and c: "c < NCPU"
    and f: "ptimer s1 = ptimer s" "cputimer s1 = cputimer s"
  shows "\<exists>l. (if \<not> triggered (ptimer s1 (thisproc s c)) then cancel_cpu_timer c (thisproc s c) s1 else Some s1)
      = Some (s1\<lparr>cputimer := (cputimer s)(c := l)\<rparr>)
    \<and> set l \<subseteq> {hello_timer s c} \<and> distinct l \<and> (\<forall>t\<in>set l. \<not> triggered (ptimer s t))"
proof (cases "triggered (ptimer s (thisproc s c))")
  case True
  have "s1 = s1\<lparr>cputimer := (cputimer s)(c := cputimer s c)\<rparr>" by (simp add: f(2) [symmetric])
  with True ti c show ?thesis
    by (intro exI [of _ "cputimer s c"]) (auto simp: timer_inv_def f)
next
  case False
  with ti c show ?thesis
    by (intro exI [of _ "if thisproc s c \<in> set (cputimer s c) then remove1 (thisproc s c) (cputimer s c) else []"])
      (auto simp: cancel_cpu_timer_def f timer_inv_def)
qed

lemma sched_inv_switch:
  assumes inv: "sched_inv s" and c: "c < NCPU" and ns: "ns \<noteq> RUNNING"
    and ps: "pstate s1 = (pstate s)(thisproc s c := ns)"
    and rq: "distinct (runnable_queue s1)"
      "\<And>p. p \<in> set (runnable_queue s1) \<longleftrightarrow> \<not> pidle s p \<and> pstate s1 p \<in> {RUNNABLE, RUNNING}"
    and a: "a \<in> set (runnable_queue s1) \<and> pstate s1 a = RUNNABLE \<or> a = idleproc s c"
    and t: "pstate t = (pstate s1)(a := RUNNING)" "runnable_queue t = runnable_queue s1"
      "thisproc t = (thisproc s)(c := a)" "idleproc t = idleproc s" "pidle t = pidle s"
      "hello_timer t = hello_timer s"
  shows "sched_inv t"
proof -
  have other: "thisproc s c' \<noteq> a" if "c' < NCPU" "c' \<noteq> c" for c'
  proof
    assume e: "thisproc s c' = a"
    have run: "pstate s a = RUNNING" using inv that(1) e by (auto simp: sched_inv_def)
    have ne: "a \<noteq> thisproc s c" using inv that c e by (auto simp: sched_inv_def inj_on_def)
    from a show False
    proof
      assume "a \<in> set (runnable_queue s1) \<and> pstate s1 a = RUNNABLE"
      with run ne show False by (simp add: ps)
    next
      assume "a = idleproc s c"
      with inv c that e have "a = idleproc s c'" "a = idleproc s c" by (auto simp: sched_inv_def)
      with inv c that show False by (auto simp: sched_inv_def inj_on_def)
    qed
  qed
  have "inj_on (thisproc t) {..<NCPU}"
    using inv other by (auto simp: t(3) sched_inv_def intro: inj_on_upd_NCPU)
  moreover have "\<forall>p. p \<in> set (runnable_queue t) \<longleftrightarrow> \<not> pidle t p \<and> pstate t p \<in> {RUNNABLE, RUNNING}"
    using a rq(2) inv c by (auto simp: t sched_inv_def)
  moreover have "\<exists>c'<NCPU. thisproc t c' = p" if "pstate t p = RUNNING" for p
  proof (cases "p = a")
    case True
    with c show ?thesis by (auto simp: t(3))
  next
    case False
    with that ns have "pstate s p = RUNNING" "p \<noteq> thisproc s c" by (auto simp: t(1) ps split: if_splits)
    with inv show ?thesis by (auto simp: sched_inv_def t(3))
  qed
  moreover have "pstate t (thisproc t c') = RUNNING" if "c' < NCPU" for c'
    using inv that c by (auto simp: t ps sched_inv_def inj_on_def)
  moreover have "pstate t (hello_timer t c') = UNUSED \<and> \<not> pidle t (hello_timer t c')" if "c' < NCPU" for c'
  proof -
    note h = sched_inv_hello [OF inv that c]
    moreover have "hello_timer s c' \<noteq> a" using a h by (auto simp: ps)
    ultimately show ?thesis by (simp add: t ps)
  qed
  moreover have "thisproc t c' = idleproc t c'" if "c' < NCPU" "pidle t (thisproc t c')" for c'
    using that a rq(2) inv by (auto simp: t sched_inv_def split: if_splits)
  ultimately show ?thesis
    using inv rq(1) by (simp add: sched_inv_def t(2,4,5,6))
qed

lemma simple_sched_total:
  assumes inv: "sched_inv s" and ti: "timer_inv s" and c: "c < NCPU"
    and ns: "ns \<in> {RUNNABLE, SLEEPING, DEEPSLEEPING, ZOMBIE}"
    and idle: "pidle s (thisproc s c) \<longrightarrow> ns = RUNNABLE"
  shows "\<exists>t. simple_sched c now ns s = Some t \<and> sched_inv t \<and> timer_inv t
    \<and> thisproc t c = fst (pick_next c (update_this_state c ns s))"
proof -
  define s1 where "s1 = update_this_state c ns s"
  note u = sched_inv_update_this_state [OF inv c ns idle s1_def]
  from cancel_stage [OF ti c u(7,8)] obtain l where
    l: "(if \<not> triggered (ptimer s1 (thisproc s c)) then cancel_cpu_timer c (thisproc s c) s1 else Some s1)
          = Some (s1\<lparr>cputimer := (cputimer s)(c := l)\<rparr>)"
       "set l \<subseteq> {hello_timer s c}" "distinct l" "\<forall>t\<in>set l. \<not> triggered (ptimer s t)" by blast
  define s2 where "s2 = s1\<lparr>cputimer := (cputimer s)(c := l)\<rparr>"
  have pick: "pick_loop s2 None (runnable_queue s2) = pick_loop s1 None (runnable_queue s1)"
    by (simp add: s2_def pick_loop_None)
  obtain a s3 where pn: "pick_next c s2 = (a, s3)" by fastforce
  have "\<exists>f. s3 = s2\<lparr>pcnt := f\<rparr>"
    using pn by (cases rule: pick_next_cases [of c s2]) (auto intro: exI [of _ "pcnt s2"])
  then obtain f where s3: "s3 = s2\<lparr>pcnt := f\<rparr>" by blast
  have a1: "fst (pick_next c s1) = a"
    using pn pick by (auto simp: pick_next_def s2_def split: option.splits)
  have a: "a \<in> set (runnable_queue s1) \<and> pstate s1 a = RUNNABLE \<or> a = idleproc s c"
    using pn by (cases rule: pick_next_cases [of c s2]) (auto simp: s2_def u(5))
  have "a \<noteq> hello_timer s c'" if "c' < NCPU" for c'
    using a sched_inv_hello [OF inv that c] u(3) by auto
  then have anl: "a \<notin> set l" using l(2) c by auto
  define t where "t = (s3\<lparr>thisproc := (thisproc s)(c := a),
      ptimer := (ptimer s)(a := (ptimer s a)\<lparr>triggered := False, tkey := now + elapse (ptimer s a)\<rparr>),
      cputimer := (cputimer s)(c := timer_insort (timer_cmp (s3\<lparr>thisproc := (thisproc s)(c := a), ptimer := (ptimer s)(a := (ptimer s a)\<lparr>triggered := False,
           tkey := now + elapse (ptimer s a)\<rparr>)\<rparr>)) a l),
      pstate := (pstate s1)(a := RUNNING)\<rparr>)"
  have run: "pstate s (thisproc s c) = RUNNING" using inv c by (simp add: sched_inv_def)
  have ok: "pstate s1 a = RUNNABLE \<or> pidle s a" using a inv c by (auto simp: sched_inv_def)
  have "simple_sched c now ns s = Some t"
    using l(1) anl run ok
    by (simp add: simple_sched_def Let_def s1_def [symmetric] pn s2_def [symmetric] update_this_proc_def
        set_cpu_timer_def s3 t_def u) (simp add: s2_def u)
  moreover have "sched_inv t"
    by (rule sched_inv_switch [OF inv c _ u(3) u(1) _ a])
      (use ns u in \<open>auto simp: t_def s3 s2_def\<close>)
  moreover have "timer_inv t"
  proof -
    have "\<not> triggered (ptimer t x)" if "\<not> triggered (ptimer s x)" for x
      using that by (simp add: t_def)
    then show ?thesis
      using ti l(2,3,4) anl c
      by (auto simp: timer_inv_def t_def s3 s2_def u(9) timer_insort_distinct)
  qed
  moreover have "thisproc t c = a" by (simp add: t_def)
  ultimately show ?thesis using a1 s1_def by auto
qed


lemma set_cpu_timer_frame:
  assumes "set_cpu_timer c now t s = Some s'"
  shows "pstate s' = pstate s" "pidle s' = pidle s" "runnable_queue s' = runnable_queue s"
    "thisproc s' = thisproc s" "idleproc s' = idleproc s" "hello_timer s' = hello_timer s"
  using assms by (auto simp: set_cpu_timer_Some)

lemma sched_inv_cong:
  assumes "pstate s' = pstate s" "pidle s' = pidle s" "runnable_queue s' = runnable_queue s"
    "thisproc s' = thisproc s" "idleproc s' = idleproc s" "hello_timer s' = hello_timer s"
  shows "sched_inv s' \<longleftrightarrow> sched_inv s"
  by (simp add: sched_inv_def assms)

lemma set_cpu_timer_timer_inv:
  assumes ti: "timer_inv s" and c: "c < NCPU" and t: "t = thisproc s c \<or> t = hello_timer s c"
    and s': "set_cpu_timer c now t s = Some s'"
  shows "timer_inv s'"
proof -
  let ?s1 = "s\<lparr>ptimer := (ptimer s)(t := (ptimer s t)\<lparr>triggered := False, tkey := now + elapse (ptimer s t)\<rparr>)\<rparr>"
  define l where "l = timer_insort (timer_cmp ?s1) t (cputimer s c)"
  have n: "t \<notin> set (cputimer s c)" and l3: "s' = ?s1\<lparr>cputimer := (cputimer s)(c := l)\<rparr>"
    using s' by (auto simp: set_cpu_timer_def Let_def l_def)
  have l: "set l = insert t (set (cputimer s c))" "distinct (cputimer s c) \<longrightarrow> distinct l"
    using n by (simp_all add: l_def timer_insort_distinct)
  have "\<not> triggered (ptimer s' x)" if "\<not> triggered (ptimer s x) \<or> x = t" for x
    using that by (auto simp: l3)
  then show ?thesis using ti c t l by (auto simp: timer_inv_def l3)
qed

lemma set_cpu_on_inv:
  assumes "sched_inv s" "timer_inv s" "c < NCPU" "set_cpu_on c now s = Some t"
  shows "sched_inv t \<and> timer_inv t"
proof -
  let ?s = "s\<lparr>ptimer := (ptimer s)(hello_timer s c := (ptimer s (hello_timer s c))\<lparr>elapse := 5000\<rparr>)\<rparr>"
  have s: "set_cpu_timer c now (hello_timer s c) ?s = Some t"
    using assms(4) by (simp add: set_cpu_on_def Let_def)
  have "timer_inv ?s" using assms(2) by (auto simp: timer_inv_def)
  from set_cpu_timer_timer_inv [OF this assms(3) _ s] have "timer_inv t" by simp
  moreover have "sched_inv t"
    using sched_inv_cong [of t s] set_cpu_timer_frame [OF s] assms(1) by simp
  ultimately show ?thesis by blast
qed

lemma timer_clock_round_total:
  assumes inv: "sched_inv s" and ti: "timer_inv s" and c: "c < NCPU"
  shows "\<exists>t. timer_clock_round c now s = Some t \<and> sched_inv t \<and> timer_inv t"
proof (cases "\<exists>x xs. cputimer s c = x # xs \<and> \<not> now < tkey (ptimer s x)")
  case False
  with inv ti show ?thesis by (auto simp: timer_clock_round_def split: list.splits)
next
  case True
  then obtain x xs where x: "cputimer s c = x # xs" "\<not> now < tkey (ptimer s x)" by blast
  have tx: "\<not> triggered (ptimer s x)" "x \<notin> set xs" "distinct xs" "x = thisproc s c \<or> x = hello_timer s c"
    "\<And>t. t \<in> set xs \<Longrightarrow> (t = thisproc s c \<or> t = hello_timer s c) \<and> \<not> triggered (ptimer s t)"
    using ti c x(1) by (auto simp: timer_inv_def)
  let ?s2 = "s\<lparr>cputimer := (cputimer s)(c := xs), ptimer := (ptimer s)(x := (ptimer s x)\<lparr>triggered := True\<rparr>)\<rparr>"
  have canc: "cancel_cpu_timer c x s = Some (s\<lparr>cputimer := (cputimer s)(c := xs)\<rparr>)"
    using tx(1) x(1) by (simp add: cancel_cpu_timer_def)
  have inv2: "sched_inv ?s2" using sched_inv_cong [of ?s2 s] inv by simp
  have other: "x \<notin> set (cputimer s c')" if "c' < NCPU" "c' \<noteq> c" for c'
  proof
    assume "x \<in> set (cputimer s c')"
    then have "x = thisproc s c' \<or> x = hello_timer s c'" using ti that by (auto simp: timer_inv_def)
    moreover have "thisproc s c \<noteq> thisproc s c'" "hello_timer s c \<noteq> hello_timer s c'"
      using inv that c by (auto simp: sched_inv_def inj_on_def)
    moreover note sched_inv_hello(1) [OF inv that(1) c] sched_inv_hello(1) [OF inv c that(1)]
    ultimately show False using tx(4) by auto
  qed
  have "timer_inv ?s2" unfolding timer_inv_def
  proof (intro allI impI conjI)
    fix c' t assume c': "c' < NCPU"
    show "distinct (cputimer ?s2 c')" using ti c' tx(3) by (auto simp: timer_inv_def)
    assume t: "t \<in> set (cputimer ?s2 c')"
    show "t = thisproc ?s2 c' \<or> t = hello_timer ?s2 c'"
      using t tx(5) ti c' by (cases "c' = c") (auto simp: timer_inv_def)
    show "\<not> triggered (ptimer ?s2 t)"
      using t tx(2,5) other [OF c'] ti c' by (cases "c' = c") (auto simp: timer_inv_def)
  qed
  note t2 = this
  have rnd: "timer_clock_round c now s
      = (if x = hello_timer s c then set_cpu_timer c now x ?s2 else simple_sched c now RUNNABLE ?s2)"
    using x canc by (simp add: timer_clock_round_def Let_def)
  show ?thesis
  proof (cases "x = hello_timer s c")
    case True
    then have "\<exists>t. set_cpu_timer c now x ?s2 = Some t"
      using tx(2) by (simp add: set_cpu_timer_def Let_def)
    then obtain t where t: "set_cpu_timer c now x ?s2 = Some t" by blast
    have "sched_inv t" using sched_inv_cong [of t ?s2] set_cpu_timer_frame [OF t] inv2 by simp
    moreover have "timer_inv t" by (rule set_cpu_timer_timer_inv [OF t2 c _ t]) (use True in simp)
    ultimately show ?thesis using rnd True t by auto
  next
    case False
    with simple_sched_total [OF inv2 t2 c, of RUNNABLE now] rnd show ?thesis by auto
  qed
qed

lemma activate_proc_inv:
  assumes inv: "sched_inv s" and ti: "timer_inv s" and p: "\<not> pidle s p" "p \<notin> hello_timer s ` {..<NCPU}"
    and t: "activate_proc p onalert s = (b, t)"
  shows "sched_inv t \<and> timer_inv t"
proof (cases "t = s")
  case True
  with inv ti show ?thesis by simp
next
  case False
  then have e: "t = make_runnable p s" "pstate s p \<notin> {RUNNABLE, RUNNING}"
    using t by (auto simp: activate_proc_def split: if_splits)
  have "p \<noteq> thisproc s c" if "c < NCPU" for c
    using inv that e(2) by (auto simp: sched_inv_def)
  then have "sched_inv t"
    using inv p e(2) by (auto simp: e(1) make_runnable_def sched_inv_def)
  moreover have "timer_inv t" using ti by (simp add: e(1) make_runnable_def timer_inv_def)
  ultimately show ?thesis by blast
qed

lemma sched_step_inv:
  "sched_step s t \<Longrightarrow> sched_inv s \<Longrightarrow> timer_inv s \<Longrightarrow> sched_inv t \<and> timer_inv t"
proof (induction rule: sched_step.induct)
  case (resched c ns s now t)
  from simple_sched_total [OF resched.prems resched.hyps(1-3), of now] resched.hyps(4)
  show ?case by auto
next
  case (online c now s t)
  from set_cpu_on_inv [OF online.prems online.hyps] show ?case .
next
  case (clock c now s t)
  from timer_clock_round_total [OF clock.prems clock.hyps(1), of now] clock.hyps(2)
  show ?case by auto
next
  case (activate s p onalert b t)
  from activate_proc_inv [OF activate.prems activate.hyps] show ?case .
qed

lemma simple_sched_frame:
  "simple_sched c now ns s = Some t \<Longrightarrow> pidle t = pidle s \<and> hello_timer t = hello_timer s \<and> idleproc t = idleproc s"
  by (auto simp: simple_sched_def update_this_state_def pick_next_def update_this_proc_def
      set_cpu_timer_def cancel_cpu_timer_def Let_def split: if_splits option.splits)

lemma simple_sched_this_state:
  assumes sch: "simple_sched c now ns s = Some t" and inv: "sched_inv s" and c: "c < NCPU"
    and ns: "ns \<noteq> RUNNABLE" and idle: "\<not> pidle s (thisproc s c)"
  shows "pstate t (thisproc s c) = ns"
proof -
  let ?s1 = "update_this_state c ns s"
  have "\<exists>s2. (s2 = ?s1 \<or> cancel_cpu_timer c (thisproc s c) ?s1 = Some s2)
      \<and> (case pick_next c s2 of (nx, s3) \<Rightarrow> do { s4 \<leftarrow> update_this_proc c now nx s3;
            ASSERT (pstate s4 nx = RUNNABLE \<or> pidle s4 nx); Some (s4\<lparr>pstate := (pstate s4)(nx := RUNNING)\<rparr>) }) = Some t"
    using sch by (cases "cancel_cpu_timer c (thisproc s c) ?s1") (auto simp: simple_sched_def Let_def split: if_splits)
  then obtain s2 where s2: "s2 = ?s1 \<or> cancel_cpu_timer c (thisproc s c) ?s1 = Some s2"
    and rest: "(case pick_next c s2 of (nx, s3) \<Rightarrow> do { s4 \<leftarrow> update_this_proc c now nx s3;
            ASSERT (pstate s4 nx = RUNNABLE \<or> pidle s4 nx); Some (s4\<lparr>pstate := (pstate s4)(nx := RUNNING)\<rparr>) }) = Some t"
    by blast
  obtain a s3 where a: "pick_next c s2 = (a, s3)" by fastforce
  have t: "pstate t = (pstate s3)(a := RUNNING)"
    using rest a by (auto simp: update_this_proc_def set_cpu_timer_def Let_def)
  have e: "pstate s2 = pstate ?s1" "idleproc s2 = idleproc s"
    using s2 by (auto simp: cancel_cpu_timer_Some update_this_state_def Let_def)
  have st: "pstate ?s1 (thisproc s c) = ns" by (simp add: update_this_state_def Let_def)
  have p: "pstate s3 = pstate s2" using a by (auto simp: pick_next_def split: option.splits)
  have "a \<noteq> thisproc s c"
    using a
  proof (cases rule: pick_next_cases [of c s2])
    case (found b)
    then have "pstate s2 a = RUNNABLE" using a by (auto simp: find_Some_iff)
    then show ?thesis using st e ns by auto
  next
    case idle
    then show ?thesis using a e inv c assms(5) by (auto simp: sched_inv_def)
  qed
  then show ?thesis using t p e st by simp
qed

lemma sched_step_frame:
  "sched_step s t \<Longrightarrow> pidle t = pidle s \<and> hello_timer t = hello_timer s"
proof (induction rule: sched_step.induct)
  case (resched c ns s now t)
  then show ?case using simple_sched_frame by blast
next
  case (online c now s t)
  then show ?case by (auto simp: set_cpu_on_def set_cpu_timer_def Let_def)
next
  case (clock c now s t)
  then show ?case
    by (auto simp: timer_clock_round_def cancel_cpu_timer_def set_cpu_timer_def Let_def
        split: list.splits if_splits dest: simple_sched_frame)
next
  case (activate s p onalert b t)
  then show ?case by (auto simp: activate_proc_def make_runnable_def split: if_splits)
qed

lemma sched_reach_inv: "sched_reach idles hellos s \<Longrightarrow> sched_inv s \<and> timer_inv s"
proof (induction rule: sched_reach.induct)
  case start
  then have "idles c \<noteq> hellos c'" if "c < NCPU" "c' < NCPU" for c c' using that by blast
  with start show ?case by (auto simp: sched_init_def sched_inv_def timer_inv_def)
next
  case (step s t)
  with sched_step_inv [OF step.hyps(2)] show ?case by blast
qed

section \<open>Properties\<close>

text \<open>
  C22: in every state the scheduler can reach, rescheduling on any processor succeeds: no \<open>ASSERT\<close> of
  \<open>simple_sched\<close>, \<open>set_cpu_timer\<close> or \<open>cancel_cpu_timer\<close> fails, and the processor ends up running a
  process that is in state RUNNING and runs on no other processor.
\<close>

theorem simple_sched_never_panics:
  assumes "sched_reach idles hellos s" "c < NCPU"
    and "ns \<in> {RUNNABLE, SLEEPING, DEEPSLEEPING, ZOMBIE}"
    and "pidle s (thisproc s c) \<longrightarrow> ns = RUNNABLE"
  shows "\<exists>t. simple_sched c now ns s = Some t \<and> pstate t (thisproc t c) = RUNNING
    \<and> (\<forall>c' < NCPU. thisproc t c' = thisproc t c \<longrightarrow> c' = c)"
proof -
  from simple_sched_total [OF _ _ assms(2-4), of now] sched_reach_inv [OF assms(1)]
  obtain t where t: "simple_sched c now ns s = Some t" "sched_inv t" by blast
  then show ?thesis using assms(2) by (auto simp: sched_inv_def inj_on_def)
qed

theorem simple_sched_never_panics_witness:
  "let s = sched_init (\<lambda>c. of_nat (4096 + 64 * c)) (\<lambda>c. of_nat (8192 + 64 * c)) in
   \<exists>t. simple_sched 0 5 RUNNABLE s = Some t \<and> pstate t (thisproc t 0) = RUNNING"
proof -
  let ?i = "\<lambda>c :: nat. of_nat (4096 + 64 * c) :: ptr" and ?h = "\<lambda>c :: nat. of_nat (8192 + 64 * c) :: ptr"
  have n: "{..<NCPU} = {0, 1, 2, 3}" by (auto simp: NCPU_def)
  have "sched_reach ?i ?h (sched_init ?i ?h)"
    by (rule sched_reach.start) (simp_all add: n)
  from simple_sched_never_panics [OF this, of 0 RUNNABLE 5] show ?thesis
    by (auto simp: NCPU_def Let_def)
qed

text \<open>
  C23: in every reachable state a process is in the runnable queue exactly when it is runnable or
  running and not an idle process, no process is queued twice, and \<open>activate_proc\<close> on a sleeping
  process queues it and reports so; a deeply sleeping process ignores an alert.
\<close>

theorem runnable_queue_exact:
  assumes "sched_reach idles hellos s" "\<not> pidle s p"
  shows "distinct (runnable_queue s)
    \<and> (p \<in> set (runnable_queue s) \<longleftrightarrow> pstate s p = RUNNABLE \<or> pstate s p = RUNNING)
    \<and> (pstate s p = SLEEPING \<or> pstate s p = UNUSED \<or> pstate s p = DEEPSLEEPING \<and> \<not> onalert \<longrightarrow>
         fst (activate_proc p onalert s) \<and> p \<notin> set (runnable_queue s)
         \<and> pstate (snd (activate_proc p onalert s)) p = RUNNABLE
         \<and> runnable_queue (snd (activate_proc p onalert s)) = p # runnable_queue s)
    \<and> (pstate s p = DEEPSLEEPING \<and> onalert \<longrightarrow> activate_proc p onalert s = (False, s))"
  using sched_reach_inv [OF assms(1)] assms(2)
  by (auto simp: sched_inv_def activate_proc_def make_runnable_def)

theorem runnable_queue_exact_witness:
  "let s = sched_init (\<lambda>c. of_nat (4096 + 64 * c)) (\<lambda>c. of_nat (8192 + 64 * c)) in
   fst (activate_proc 64 False s) \<and> runnable_queue (snd (activate_proc 64 False s)) = [64]"
proof -
  let ?i = "\<lambda>c :: nat. of_nat (4096 + 64 * c) :: ptr" and ?h = "\<lambda>c :: nat. of_nat (8192 + 64 * c) :: ptr"
  have n: "{..<NCPU} = {0, 1, 2, 3}" by (auto simp: NCPU_def)
  have r: "sched_reach ?i ?h (sched_init ?i ?h)"
    by (rule sched_reach.start) (simp_all add: n)
  have "\<not> pidle (sched_init ?i ?h) 64" "pstate (sched_init ?i ?h) 64 = UNUSED"
    "runnable_queue (sched_init ?i ?h) = []"
    by (simp_all add: sched_init_def n)
  with runnable_queue_exact [OF r, of 64 False] show ?thesis by (simp add: Let_def)
qed

text \<open>
  C30: the scheduler is not fair.  The comparison of \<open>cnt\<close> in \<open>pick_next\<close> is never reached, so the
  first runnable process of the queue is always chosen: a process at the front of the queue that
  yields (or whose clock fires) is chosen again at once, however often it ran, and every other
  runnable process keeps waiting.
\<close>

theorem yield_front_runs_again:
  assumes "sched_reach idles hellos s" "c < NCPU" "runnable_queue s = thisproc s c # ps"
  shows "\<exists>t. simple_sched c now RUNNABLE s = Some t \<and> thisproc t c = thisproc s c"
proof -
  let ?s = "update_this_state c RUNNABLE s"
  have "fst (pick_next c ?s) = thisproc s c"
    by (simp add: pick_next_def update_this_state_def Let_def assms(3))
  with simple_sched_total [OF _ _ assms(2), of s RUNNABLE now] sched_reach_inv [OF assms(1)]
  show ?thesis by auto
qed

theorem yield_front_runs_again_witness:
  "\<exists>t t'. runnable_queue t = [72, 64] \<and> thisproc t 0 = 72 \<and> pcnt t 72 = 1 \<and> pcnt t 64 = 0
     \<and> simple_sched 0 6 RUNNABLE t = Some t' \<and> thisproc t' 0 = 72"
proof -
  let ?i = "\<lambda>c :: nat. of_nat (4096 + 64 * c) :: ptr" and ?h = "\<lambda>c :: nat. of_nat (8192 + 64 * c) :: ptr"
  have n: "{..<NCPU} = {0, 1, 2, 3}" by (auto simp: NCPU_def)
  let ?s = "sched_init ?i ?h"
  let ?s1 = "snd (activate_proc 64 False ?s)"
  let ?s2 = "snd (activate_proc 72 False ?s1)"
  have r: "sched_reach ?i ?h ?s" by (rule sched_reach.start) (simp_all add: n)
  have "sched_step ?s ?s1"
    by (rule sched_step.activate [of _ 64 False "fst (activate_proc 64 False ?s)"])
      (simp_all add: sched_init_def n)
  with r have r1: "sched_reach ?i ?h ?s1" by (rule sched_reach.step)
  have "sched_step ?s1 ?s2"
    by (rule sched_step.activate [of _ 72 False "fst (activate_proc 72 False ?s1)"])
      (simp_all add: activate_proc_def make_runnable_def sched_init_def n)
  with r1 have r2: "sched_reach ?i ?h ?s2" by (rule sched_reach.step)
  have e: "\<exists>t. simple_sched 0 5 RUNNABLE ?s2 = Some t \<and> runnable_queue t = [72, 64] \<and> thisproc t 0 = 72
      \<and> pcnt t 72 = 1 \<and> pcnt t 64 = 0"
    by (simp add: activate_proc_def make_runnable_def sched_init_def n simple_sched_def update_this_state_def Let_def
        cancel_cpu_timer_def pick_next_def update_this_proc_def set_cpu_timer_def)
  then obtain t where t: "simple_sched 0 5 RUNNABLE ?s2 = Some t" "runnable_queue t = [72, 64]"
    "thisproc t 0 = 72" "pcnt t 72 = 1" "pcnt t 64 = 0" by blast
  have "sched_step ?s2 t" by (rule sched_step.resched [OF _ _ _ t(1)]) (simp_all add: NCPU_def)
  with r2 have "sched_reach ?i ?h t" by (rule sched_reach.step)
  from yield_front_runs_again [OF this, of 0 "[64]" 6] t show ?thesis by (auto simp: NCPU_def)
qed

end
