(* ===== verification/Sem.thy ===== *)
theory Sem
  imports Sched
begin

text \<open>
  Semaphores (\<open>common/sem.c\<close>, \<open>common/sem.h\<close>) on top of the scheduler.  The state of one semaphore is
  its value and its sleep list; a \<open>WaitData\<close> is named by the address \<open>kalloc\<close> gives it.  The sleep
  list is the member sequence of the circular list, newest first, as \<open>_insert_into_list\<close> leaves it,
  so \<open>sleeplist.prev\<close> is its last member.  Each function below runs under the lock of the semaphore
  and is one step; \<open>_wait_sem\<close> takes the scheduler lock before it gives up its own, so it is two
  steps: up to and including the switch to another process, and from the moment it runs again.
  The value is an \<open>int\<close> of 32 bits: an increment or a decrement that leaves its range, which C leaves
  undefined, is the value \<^const>\<open>None\<close>, as a failing \<open>ASSERT\<close> is.
\<close>

section \<open>State\<close>

record Semaphore =
  sval :: int
  sleeplist :: "ptr list"

record WaitData =
  w_up :: bool
  w_proc :: ptr

record semst =
  sem :: Semaphore
  waits :: "ptr \<Rightarrow> WaitData"
  ssched :: schedst

section \<open>Operations\<close>

definition init_sem :: "int \<Rightarrow> Semaphore" where
  "init_sem v = \<lparr>sval = v, sleeplist = []\<rparr>"

definition get_sem :: "Semaphore \<Rightarrow> bool \<times> Semaphore" where
  "get_sem s = (if sval s > 0 then (True, s\<lparr>sval := sval s - 1\<rparr>) else (False, s))"

definition query_sem :: "Semaphore \<Rightarrow> int" where
  "query_sem s = sval s"

definition get_all_sem :: "Semaphore \<Rightarrow> int \<times> Semaphore" where
  "get_all_sem s = (if sval s > 0 then (sval s, s\<lparr>sval := 0\<rparr>) else (0, s))"

definition post_sem :: "semst \<Rightarrow> semst option" where
  "post_sem st =
     do { v \<leftarrow> int_inc (sval (sem st));
          let st1 = st\<lparr>sem := (sem st)\<lparr>sval := v\<rparr>\<rparr>;
          if sval (sem st1) \<le> 0 then
            do { ASSERT (sleeplist (sem st1) \<noteq> []);
                 let w = last (sleeplist (sem st1));
                 Some (st1\<lparr>waits := (waits st1)(w := (waits st1 w)\<lparr>w_up := True\<rparr>),
                           sem := (sem st1)\<lparr>sleeplist := remove1 w (sleeplist (sem st1))\<rparr>,
                           ssched := snd (activate_proc (w_proc (waits st1 w)) False (ssched st1))\<rparr>) }
          else Some st1 }"

text \<open>The loop of \<open>post_all_sem\<close>: \<open>ret\<close> is the number of rounds before the current one, minus one.\<close>

lemma post_sem_sval: "post_sem st = Some st' \<Longrightarrow> sval (sem st') = sval (sem st) + 1"
  by (auto simp: post_sem_def Let_def int_inc_def bind_eq_Some_conv split: if_splits)

function post_all_loop :: "int \<Rightarrow> semst \<Rightarrow> (int \<times> semst) option" where
  "post_all_loop ret st =
     (case post_sem st of
        None \<Rightarrow> None
      | Some st1 \<Rightarrow>
          (let (got, s) = get_sem (sem st1); st2 = st1\<lparr>sem := s\<rparr>
           in if got then Some (ret + 1, st2) else post_all_loop (ret + 1) st2))"
  by pat_completeness auto

termination post_all_loop
  by (relation "measure (\<lambda>(ret, st). nat (1 - sval (sem st)))")
    (auto simp: get_sem_def split: if_splits dest: post_sem_sval)

definition post_all_sem :: "semst \<Rightarrow> (int \<times> semst) option" where
  "post_all_sem st = post_all_loop (- 1) st"

text \<open>
  \<open>_wait_sem\<close> on processor \<open>c\<close> at time \<open>now\<close>; \<open>w\<close> is the address of the new \<open>WaitData\<close>.  The first
  part returns \<open>True\<close> when the call returns at once, and \<open>False\<close> when the caller went to sleep.
\<close>

definition wait_sem_begin :: "nat \<Rightarrow> u64 \<Rightarrow> ptr \<Rightarrow> bool \<Rightarrow> semst \<Rightarrow> (bool \<times> semst) option" where
  "wait_sem_begin c now w alertable st =
     do { v \<leftarrow> int_dec (sval (sem st));
          let st1 = st\<lparr>sem := (sem st)\<lparr>sval := v\<rparr>\<rparr>;
          if sval (sem st1) \<ge> 0 then Some (True, st1)
          else do { let st2 = st1\<lparr>waits := (waits st1)(w := \<lparr>w_up = False, w_proc = thisproc (ssched st1) c\<rparr>),
                                  sem := (sem st1)\<lparr>sleeplist := w # sleeplist (sem st1)\<rparr>\<rparr>;
                    s' \<leftarrow> simple_sched c now (if alertable then SLEEPING else DEEPSLEEPING) (ssched st2);
                    Some (False, st2\<lparr>ssched := s'\<rparr>) } }"

definition wait_sem_end :: "ptr \<Rightarrow> semst \<Rightarrow> (bool \<times> semst) option" where
  "wait_sem_end w st =
     do { st1 \<leftarrow> (if \<not> w_up (waits st w)
                  then do { v \<leftarrow> int_inc (sval (sem st));
                            let st1 = st\<lparr>sem := (sem st)\<lparr>sval := v\<rparr>\<rparr>;
                            ASSERT (sval (sem st1) \<le> 0);
                            Some (st1\<lparr>sem := (sem st1)\<lparr>sleeplist := remove1 w (sleeplist (sem st1))\<rparr>\<rparr>) }
                  else Some st);
          Some (w_up (waits st1 w), st1) }"

text \<open>
  \<open>unalertable_wait_sem\<close> and \<open>prelocked_unalertable_wait_sem\<close> assert that \<open>_wait_sem\<close> returns true.
  A call that does not sleep does; this is the return of one that slept.
\<close>

definition unalertable_wait_end :: "ptr \<Rightarrow> semst \<Rightarrow> semst option" where
  "unalertable_wait_end w st = do { (up, st1) \<leftarrow> wait_sem_end w st; ASSERT up; Some st1 }"

section \<open>Runs\<close>

text \<open>
  A run of one semaphore together with the scheduler.  \<open>pending\<close> is the set of the calls of
  \<open>_wait_sem\<close> that went to sleep and have not returned, \<open>posts\<close> counts the posts, \<open>grants\<close> the units
  handed out: a wait that returned at once, a waiter that a post marked \<open>up\<close>, a successful
  \<open>get_sem\<close>, the units of \<open>get_all_sem\<close>.  An idle process does not wait.
\<close>

definition granted :: "semst \<Rightarrow> nat" where
  "granted st = (if sval (sem st) < 0 then 1 else 0)"

inductive sem_run :: "int \<Rightarrow> nat \<Rightarrow> nat \<Rightarrow> ptr set \<Rightarrow> semst \<Rightarrow> bool" for v0 where
  init: "0 \<le> v0 \<Longrightarrow> sched_reach idles hellos s \<Longrightarrow>
     sem_run v0 0 0 {} \<lparr>sem = init_sem v0, waits = ws, ssched = s\<rparr>"
| wait_b: "sem_run v0 m n P st \<Longrightarrow> c < NCPU \<Longrightarrow> \<not> pidle (ssched st) (thisproc (ssched st) c) \<Longrightarrow>
     w \<notin> P \<Longrightarrow> wait_sem_begin c now w alertable st = Some (b, st') \<Longrightarrow>
     sem_run v0 m (if b then n + 1 else n) (if b then P else insert w P) st'"
| wait_e: "sem_run v0 m n P st \<Longrightarrow> w \<in> P \<Longrightarrow> wait_sem_end w st = Some (b, st') \<Longrightarrow>
     sem_run v0 m n (P - {w}) st'"
| post: "sem_run v0 m n P st \<Longrightarrow> post_sem st = Some st' \<Longrightarrow>
     sem_run v0 (m + 1) (n + granted st) P st'"
| get: "sem_run v0 m n P st \<Longrightarrow> get_sem (sem st) = (b, s') \<Longrightarrow>
     sem_run v0 m (if b then n + 1 else n) P (st\<lparr>sem := s'\<rparr>)"
| get_all: "sem_run v0 m n P st \<Longrightarrow> get_all_sem (sem st) = (k, s') \<Longrightarrow>
     sem_run v0 m (n + nat k) P (st\<lparr>sem := s'\<rparr>)"
| post_all: "sem_run v0 m n P st \<Longrightarrow> post_all_sem st = Some (k, st') \<Longrightarrow>
     sem_run v0 (m + nat k + 1) (n + nat k + 1) P st'"
| sched: "sem_run v0 m n P st \<Longrightarrow> sched_step (ssched st) s' \<Longrightarrow>
     sem_run v0 m n P (st\<lparr>ssched := s'\<rparr>)"

definition sem_inv :: "ptr set \<Rightarrow> semst \<Rightarrow> bool" where
  "sem_inv P st \<longleftrightarrow>
     sched_inv (ssched st) \<and> timer_inv (ssched st)
     \<and> distinct (sleeplist (sem st)) \<and> set (sleeplist (sem st)) = {w \<in> P. \<not> w_up (waits st w)}
     \<and> length (sleeplist (sem st)) = nat (- sval (sem st))
     \<and> (\<forall>w\<in>P. \<not> pidle (ssched st) (w_proc (waits st w))
               \<and> w_proc (waits st w) \<notin> hello_timer (ssched st) ` {..<NCPU})"

section \<open>Every operation keeps the invariant\<close>

lemma activate_proc_frame:
  "activate_proc p a s = (b, t) \<Longrightarrow> pidle t = pidle s \<and> hello_timer t = hello_timer s"
  by (auto simp: activate_proc_def make_runnable_def split: if_splits)

lemma sem_inv_waiter_neg: "sem_inv P st \<Longrightarrow> sleeplist (sem st) \<noteq> [] \<Longrightarrow> sval (sem st) < 0"
  by (cases "sval (sem st) < 0") (simp_all add: sem_inv_def)

text \<open>Waking the oldest waiter, with all its effects.\<close>

lemma post_sem_wakes:
  assumes "sem_inv P st" "sleeplist (sem st) = ws @ [w]"
  shows "post_sem st = Some (st\<lparr>waits := (waits st)(w := (waits st w)\<lparr>w_up := True\<rparr>),
       sem := \<lparr>sval = sval (sem st) + 1, sleeplist = ws\<rparr>,
       ssched := snd (activate_proc (w_proc (waits st w)) False (ssched st))\<rparr>)"
proof -
  have "sval (sem st) < 0" using sem_inv_waiter_neg assms by auto
  moreover have "w \<notin> set ws" using assms by (simp add: sem_inv_def)
  ultimately show ?thesis using assms(2) by (simp add: post_sem_def Let_def remove1_append int_inc_def INT_MAX_def)
qed

lemma post_sem_no_waiter:
  assumes "sem_inv P st" "sleeplist (sem st) = []" "sval (sem st) < INT_MAX"
  shows "0 \<le> sval (sem st)" "post_sem st = Some (st\<lparr>sem := (sem st)\<lparr>sval := sval (sem st) + 1\<rparr>\<rparr>)"
  using assms by (auto simp: sem_inv_def post_sem_def Let_def int_inc_def)

lemma post_sem_range: "post_sem st = Some st' \<Longrightarrow> sval (sem st) < INT_MAX"
  by (auto simp: post_sem_def int_inc_def bind_eq_Some_conv split: if_splits)

lemma wait_sem_begin_range: "wait_sem_begin c now w a st = Some r \<Longrightarrow> INT_MIN < sval (sem st)"
  by (auto simp: wait_sem_begin_def int_dec_def bind_eq_Some_conv split: if_splits)

lemma post_sem_inv:
  assumes inv: "sem_inv P st" and max: "sval (sem st) < INT_MAX"
  shows "\<exists>st'. post_sem st = Some st' \<and> sem_inv P st' \<and> sval (sem st') = sval (sem st) + 1"
proof (cases "sleeplist (sem st)" rule: rev_cases)
  case Nil
  with inv post_sem_no_waiter [OF inv Nil max] show ?thesis by (auto simp: sem_inv_def)
next
  case (snoc ws w)
  let ?s = "activate_proc (w_proc (waits st w)) False (ssched st)"
  have len: "nat (- sval (sem st)) = Suc (length ws)" "distinct ws" "w \<notin> set ws"
    and ws: "insert w (set ws) = {w \<in> P. \<not> w_up (waits st w)}"
    using inv snoc by (simp_all add: sem_inv_def)
  have w: "w \<in> P" using ws by blast
  have s: "sched_inv (snd ?s) \<and> timer_inv (snd ?s)"
    by (rule activate_proc_inv [of "ssched st" "w_proc (waits st w)" False "fst ?s"])
      (use inv w in \<open>auto simp: sem_inv_def\<close>)
  have f: "pidle (snd ?s) = pidle (ssched st) \<and> hello_timer (snd ?s) = hello_timer (ssched st)"
    by (rule activate_proc_frame [of _ False _ "fst ?s"]) simp
  have "set ws = {v \<in> P. \<not> w_up (((waits st)(w := (waits st w)\<lparr>w_up := True\<rparr>)) v)}"
    using ws len(3) by (auto split: if_splits)
  then show ?thesis
    using post_sem_wakes [OF inv snoc] inv s f len by (simp add: sem_inv_def)
qed

lemma get_sem_inv: "sem_inv P st \<Longrightarrow> get_sem (sem st) = (b, s') \<Longrightarrow> sem_inv P (st\<lparr>sem := s'\<rparr>)"
  by (auto simp: get_sem_def sem_inv_def split: if_splits)

lemma post_all_loop_spec:
  "sem_inv P st \<Longrightarrow> sval (sem st) < INT_MAX \<Longrightarrow> \<exists>st'. post_all_loop r st = Some (r + int (length (sleeplist (sem st))) + 1, st')
     \<and> sem_inv P st' \<and> sval (sem st') = max 0 (sval (sem st))"
proof (induction r st rule: post_all_loop.induct)
  case (1 ret st)
  note inv1 = "1.prems"(1)
  from post_sem_inv [OF "1.prems"] obtain st1 where
    st1: "post_sem st = Some st1" "sem_inv P st1" "sval (sem st1) = sval (sem st) + 1" by blast
  obtain got s where g: "get_sem (sem st1) = (got, s)" by fastforce
  have inv2: "sem_inv P (st1\<lparr>sem := s\<rparr>)" by (rule get_sem_inv [OF st1(2) g])
  have len: "length (sleeplist (sem st)) = nat (- sval (sem st))" using inv1 by (simp add: sem_inv_def)
  show ?case
  proof (cases got)
    case True
    with g st1(3) have "0 \<le> sval (sem st)" "sval s = sval (sem st)" by (auto simp: get_sem_def split: if_splits)
    with len inv2 st1 g True show ?thesis by simp
  next
    case False
    with g st1(3) have v: "sval (sem st) < 0" "s = sem st1" by (auto simp: get_sem_def split: if_splits)
    have len2: "length (sleeplist (sem st1)) = nat (- sval (sem st1))" using st1(2) by (simp add: sem_inv_def)
    have "sval (sem (st1\<lparr>sem := s\<rparr>)) < INT_MAX" using v st1(3) by (simp add: INT_MAX_def)
    from "1.IH" [OF st1(1) refl g [symmetric] refl False inv2 this] v st1(1,3) g False len len2
    show ?thesis by (auto simp: max_def)
  qed
qed

lemma wait_sem_begin_inv:
  assumes inv: "sem_inv P st" and c: "c < NCPU" and idle: "\<not> pidle (ssched st) (thisproc (ssched st) c)"
    and w: "w \<notin> P" and min: "INT_MIN < sval (sem st)"
  shows "\<exists>b st'. wait_sem_begin c now w alertable st = Some (b, st')
     \<and> sem_inv (if b then P else insert w P) st' \<and> (b \<longleftrightarrow> 0 < sval (sem st)) \<and> sval (sem st') = sval (sem st) - 1
     \<and> (\<not> b \<longrightarrow> sleeplist (sem st') = w # sleeplist (sem st))"
proof (cases "0 < sval (sem st)")
  case True
  with inv show ?thesis by (auto simp: wait_sem_begin_def sem_inv_def int_dec_def INT_MIN_def)
next
  case False
  let ?ns = "if alertable then SLEEPING else DEEPSLEEPING"
  have s: "sched_inv (ssched st)" "timer_inv (ssched st)" using inv by (simp_all add: sem_inv_def)
  from simple_sched_total [OF s c _, of ?ns now] idle obtain s' where
    s': "simple_sched c now ?ns (ssched st) = Some s'" "sched_inv s'" "timer_inv s'" by (cases alertable) auto
  have f: "pidle s' = pidle (ssched st)" "hello_timer s' = hello_timer (ssched st)"
    using simple_sched_frame [OF s'(1)] by simp_all
  have "thisproc (ssched st) c \<notin> hello_timer (ssched st) ` {..<NCPU}"
    using sched_inv_hello(1) [OF s(1) _ c] by (metis imageE lessThan_iff)
  with False inv w s' f idle min show ?thesis
    by (auto simp: wait_sem_begin_def Let_def sem_inv_def int_dec_def)
qed

lemma wait_sem_end_inv:
  assumes inv: "sem_inv P st" and w: "w \<in> P"
  shows "\<exists>st'. wait_sem_end w st = Some (w_up (waits st w), st') \<and> sem_inv (P - {w}) st'
     \<and> sval (sem st') + int (length (sleeplist (sem st'))) = sval (sem st) + int (length (sleeplist (sem st)))"
proof (cases "w_up (waits st w)")
  case True
  with inv show ?thesis by (auto simp: wait_sem_end_def sem_inv_def)
next
  case False
  then have m: "w \<in> set (sleeplist (sem st))" using inv w by (auto simp: sem_inv_def)
  then have "sleeplist (sem st) \<noteq> []" by auto
  then have v: "sval (sem st) < 0" by (rule sem_inv_waiter_neg [OF inv])
  have "length (remove1 w (sleeplist (sem st))) = nat (- sval (sem st)) - 1"
    using m inv by (simp add: length_remove1 sem_inv_def)
  with False inv v m show ?thesis
    by (auto simp: wait_sem_end_def Let_def sem_inv_def set_remove1_eq int_inc_def INT_MAX_def)
qed

lemma post_all_range: "post_all_sem st = Some r \<Longrightarrow> sval (sem st) < INT_MAX"
  by (auto simp: post_all_sem_def post_sem_range split: option.splits)

lemma sem_inv_sched:
  assumes "sem_inv P st" "sched_step (ssched st) s'"
  shows "sem_inv P (st\<lparr>ssched := s'\<rparr>)"
  using sched_step_inv [OF assms(2)] sched_step_frame [OF assms(2)] assms(1) by (simp add: sem_inv_def)

lemma sem_run_inv:
  "sem_run v0 m n P st \<Longrightarrow> sem_inv P st
     \<and> int n + sval (sem st) + int (length (sleeplist (sem st))) = v0 + int m"
proof (induction rule: sem_run.induct)
  case (init idles hellos s ws)
  with sched_reach_inv [OF init(2)] show ?case by (simp add: sem_inv_def init_sem_def)
next
  case (wait_b m n P st c w now alertable b st')
  from wait_sem_begin_inv [of P st c w now alertable] wait_b wait_sem_begin_range [OF wait_b.hyps(5)] show ?case
    by (auto simp: sem_inv_def split: if_splits)
next
  case (wait_e m n P st w b st')
  from wait_sem_end_inv [of P st w] wait_e show ?case by auto
next
  case (post m n P st st')
  from post_sem_inv [of P st] post post_sem_range [OF post.hyps(2)] show ?case by (auto simp: sem_inv_def granted_def)
next
  case (get m n P st b s')
  then have "sem_inv P (st\<lparr>sem := s'\<rparr>)" using get_sem_inv by blast
  with get show ?case by (auto simp: get_sem_def split: if_splits)
next
  case (get_all m n P st k s')
  then show ?case by (auto simp: get_all_sem_def sem_inv_def split: if_splits)
next
  case (post_all m n P st k st')
  from post_all_loop_spec [of P st "-1"] post_all post_all_range [OF post_all.hyps(2)] show ?case
    by (auto simp: post_all_sem_def sem_inv_def max_def)
next
  case (sched m n P st s')
  then show ?case using sem_inv_sched by simp
qed

section \<open>Executions\<close>

text \<open>
  A run in which the rest of the kernel behaves as its code does.  A process is in one wait at a time,
  and it returns from its wait on the processor that runs it.  \<open>activate_proc\<close> is called for a process
  that sleeps here by the post that marks it, and otherwise only as an alert: \<open>start_proc\<close> calls it
  for a new process, and the post of another semaphore for a waiter of that semaphore.  \<open>U\<close> is the set
  of the pending waits that are not alertable.
\<close>

definition asleep :: "ptr set \<Rightarrow> semst \<Rightarrow> ptr set" where
  "asleep P st = {w_proc (waits st w) | w. w \<in> P \<and> \<not> w_up (waits st w)}"

inductive sem_exec :: "int \<Rightarrow> nat \<Rightarrow> nat \<Rightarrow> ptr set \<Rightarrow> ptr set \<Rightarrow> semst \<Rightarrow> bool" for v0 where
  init: "0 \<le> v0 \<Longrightarrow> sched_reach idles hellos s \<Longrightarrow>
     sem_exec v0 0 0 {} {} \<lparr>sem = init_sem v0, waits = ws, ssched = s\<rparr>"
| wait_b: "sem_exec v0 m n P U st \<Longrightarrow> c < NCPU \<Longrightarrow> \<not> pidle (ssched st) (thisproc (ssched st) c) \<Longrightarrow>
     w \<notin> P \<Longrightarrow> \<forall>v\<in>P. w_proc (waits st v) \<noteq> thisproc (ssched st) c \<Longrightarrow>
     wait_sem_begin c now w alertable st = Some (b, st') \<Longrightarrow>
     sem_exec v0 m (if b then n + 1 else n) (if b then P else insert w P) (if b \<or> alertable then U else insert w U) st'"
| wait_e: "sem_exec v0 m n P U st \<Longrightarrow> w \<in> P \<Longrightarrow> c < NCPU \<Longrightarrow> thisproc (ssched st) c = w_proc (waits st w) \<Longrightarrow>
     wait_sem_end w st = Some (b, st') \<Longrightarrow> sem_exec v0 m n (P - {w}) (U - {w}) st'"
| post: "sem_exec v0 m n P U st \<Longrightarrow> post_sem st = Some st' \<Longrightarrow>
     sem_exec v0 (m + 1) (n + granted st) P U st'"
| get: "sem_exec v0 m n P U st \<Longrightarrow> get_sem (sem st) = (b, s') \<Longrightarrow>
     sem_exec v0 m (if b then n + 1 else n) P U (st\<lparr>sem := s'\<rparr>)"
| get_all: "sem_exec v0 m n P U st \<Longrightarrow> get_all_sem (sem st) = (k, s') \<Longrightarrow>
     sem_exec v0 m (n + nat k) P U (st\<lparr>sem := s'\<rparr>)"
| post_all: "sem_exec v0 m n P U st \<Longrightarrow> post_all_sem st = Some (k, st') \<Longrightarrow>
     sem_exec v0 (m + nat k + 1) (n + nat k + 1) P U st'"
| resched: "sem_exec v0 m n P U st \<Longrightarrow> c < NCPU \<Longrightarrow> ns \<in> {RUNNABLE, SLEEPING, DEEPSLEEPING, ZOMBIE} \<Longrightarrow>
     (pidle (ssched st) (thisproc (ssched st) c) \<longrightarrow> ns = RUNNABLE) \<Longrightarrow>
     simple_sched c now ns (ssched st) = Some s' \<Longrightarrow> sem_exec v0 m n P U (st\<lparr>ssched := s'\<rparr>)"
| online: "sem_exec v0 m n P U st \<Longrightarrow> c < NCPU \<Longrightarrow> set_cpu_on c now (ssched st) = Some s' \<Longrightarrow>
     sem_exec v0 m n P U (st\<lparr>ssched := s'\<rparr>)"
| clock: "sem_exec v0 m n P U st \<Longrightarrow> c < NCPU \<Longrightarrow> timer_clock_round c now (ssched st) = Some s' \<Longrightarrow>
     sem_exec v0 m n P U (st\<lparr>ssched := s'\<rparr>)"
| activate: "sem_exec v0 m n P U st \<Longrightarrow> \<not> pidle (ssched st) p \<Longrightarrow> p \<notin> hello_timer (ssched st) ` {..<NCPU} \<Longrightarrow>
     (p \<in> asleep P st \<longrightarrow> onalert) \<Longrightarrow> activate_proc p onalert (ssched st) = (b, s') \<Longrightarrow>
     sem_exec v0 m n P U (st\<lparr>ssched := s'\<rparr>)"

lemma sem_exec_run: "sem_exec v0 m n P U st \<Longrightarrow> sem_run v0 m n P st"
proof (induction rule: sem_exec.induct)
  case (wait_e m n P U st w c b st')
  then show ?case using sem_run.wait_e by blast
next
  case (resched m n P U st c ns now s')
  then show ?case using sem_run.sched sched_step.resched by blast
next
  case (online m n P U st c now s')
  then show ?case using sem_run.sched sched_step.online by blast
next
  case (clock m n P U st c now s')
  then show ?case using sem_run.sched sched_step.clock by blast
next
  case (activate m n P U st p onalert b s')
  then show ?case using sem_run.sched sched_step.activate by blast
qed (blast intro: sem_run.intros)+

lemma simple_sched_keeps:
  assumes "simple_sched c now ns s = Some t" "pstate s p = x" "x \<noteq> RUNNABLE" "\<not> pidle s p" "p \<noteq> thisproc s c"
  shows "pstate t p = x"
  using assms by (auto simp: simple_sched_def update_this_state_def pick_next_def update_this_proc_def
      set_cpu_timer_def cancel_cpu_timer_def Let_def split: if_splits option.splits)

lemma not_this: "sched_inv s \<Longrightarrow> c < NCPU \<Longrightarrow> pstate s p = x \<Longrightarrow> x \<noteq> RUNNING \<Longrightarrow> p \<noteq> thisproc s c"
  by (auto simp: sched_inv_def)

lemma set_cpu_on_pstate: "set_cpu_on c now s = Some t \<Longrightarrow> pstate t = pstate s"
  by (auto simp: set_cpu_on_def set_cpu_timer_def Let_def)

lemma clock_keeps:
  assumes "timer_clock_round c now s = Some t" "pstate s p = x" "x \<noteq> RUNNABLE" "x \<noteq> RUNNING" "\<not> pidle s p"
    "sched_inv s" "c < NCPU"
  shows "pstate t p = x"
proof -
  have here: "p \<noteq> thisproc s c" by (rule not_this [OF assms(6,7,2,4)])
  have keeps: "pstate t p = x"
    if "simple_sched c now RUNNABLE u = Some t" "pstate u = pstate s" "pidle u = pidle s" "thisproc u = thisproc s" for u
    by (rule simple_sched_keeps [OF that(1)]) (use that assms(2,3,5) here in simp_all)
  show ?thesis
    using assms(1,2) keeps by (fastforce simp: timer_clock_round_def set_cpu_timer_def cancel_cpu_timer_def Let_def bind_eq_Some_conv
        split: list.splits if_splits)
qed

lemma activate_keeps:
  "activate_proc q a s = (b, t) \<Longrightarrow> pstate s p = DEEPSLEEPING \<Longrightarrow> (q = p \<longrightarrow> a) \<Longrightarrow> pstate t p = DEEPSLEEPING"
  by (auto simp: activate_proc_def make_runnable_def split: if_splits)

text \<open>A pending wait that is not alertable and not marked belongs to a process in deep sleep.\<close>

definition deep_inv :: "ptr set \<Rightarrow> ptr set \<Rightarrow> semst \<Rightarrow> bool" where
  "deep_inv P U st \<longleftrightarrow> U \<subseteq> P \<and> inj_on (\<lambda>w. w_proc (waits st w)) P
     \<and> (\<forall>w\<in>U. \<not> w_up (waits st w) \<longrightarrow> pstate (ssched st) (w_proc (waits st w)) = DEEPSLEEPING)"

lemma deep_invD: "deep_inv P U st \<Longrightarrow> w \<in> U \<Longrightarrow> \<not> w_up (waits st w) \<Longrightarrow> pstate (ssched st) (w_proc (waits st w)) = DEEPSLEEPING"
  by (simp add: deep_inv_def)

lemma deep_inv_sched:
  assumes "deep_inv P U st" "\<And>w. w \<in> U \<Longrightarrow> \<not> w_up (waits st w) \<Longrightarrow> pstate (ssched st) (w_proc (waits st w)) = DEEPSLEEPING \<Longrightarrow>
      pstate s' (w_proc (waits st w)) = DEEPSLEEPING"
  shows "deep_inv P U (st\<lparr>ssched := s'\<rparr>)"
  using assms by (simp add: deep_inv_def)

lemma deep_inv_post:
  assumes d: "deep_inv P U st" and i: "sem_inv P st" and p: "post_sem st = Some st'"
  shows "deep_inv P U st' \<and> (\<forall>v. w_proc (waits st' v) = w_proc (waits st v))"
proof (cases "sleeplist (sem st)" rule: rev_cases)
  case Nil
  then show ?thesis using post_sem_no_waiter [OF i Nil post_sem_range [OF p]] p d by (auto simp: deep_inv_def)
next
  case (snoc ws w)
  have st': "waits st' = (waits st)(w := (waits st w)\<lparr>w_up := True\<rparr>)"
      "ssched st' = snd (activate_proc (w_proc (waits st w)) False (ssched st))"
    using post_sem_wakes [OF i snoc] p by auto
  have "insert w (set ws) = {v \<in> P. \<not> w_up (waits st v)}" using i snoc by (simp add: sem_inv_def)
  then have w: "w \<in> P" by blast
  have deep: "pstate (ssched st') (w_proc (waits st v)) = DEEPSLEEPING" if v: "v \<in> U" "v \<noteq> w" "\<not> w_up (waits st v)" for v
  proof (rule activate_keeps)
    show "activate_proc (w_proc (waits st w)) False (ssched st) = (fst (activate_proc (w_proc (waits st w)) False (ssched st)), ssched st')"
      by (simp add: st'(2))
    show "pstate (ssched st) (w_proc (waits st v)) = DEEPSLEEPING" using d v by (simp add: deep_inv_def)
    show "w_proc (waits st w) = w_proc (waits st v) \<longrightarrow> False"
      using d v w unfolding deep_inv_def inj_on_def by blast
  qed
  have e: "w_proc (waits st' v) = w_proc (waits st v)" for v by (simp add: st'(1))
  show ?thesis using d deep unfolding deep_inv_def e by (simp add: st'(1))
qed

lemma post_all_loop_w_proc: "post_all_loop r st = Some (k, st') \<Longrightarrow> w_proc (waits st' v) = w_proc (waits st v)"
proof (induction r st rule: post_all_loop.induct)
  case (1 ret st)
  obtain st1 where st1: "post_sem st = Some st1" using "1.prems" by (auto split: option.splits)
  have e: "w_proc (waits st1 v) = w_proc (waits st v)"
    using st1 by (auto simp: post_sem_def Let_def bind_eq_Some_conv split: if_splits)
  obtain got s where g: "get_sem (sem st1) = (got, s)" by fastforce
  show ?case
  proof (cases got)
    case True
    then show ?thesis using "1.prems" st1 g e by auto
  next
    case False
    then show ?thesis using "1.IH" [OF st1 refl g [symmetric] refl False] "1.prems" st1 g e by auto
  qed
qed

lemma deep_inv_post_all:
  assumes d: "deep_inv P U st" and i: "sem_inv P st" and p: "post_all_sem st = Some (k, st')"
  shows "deep_inv P U st'"
proof -
  have m: "sval (sem st) < INT_MAX" by (rule post_all_range [OF p])
  have "sem_inv P st'" "0 \<le> sval (sem st')"
    using post_all_loop_spec [OF i m, of "- 1"] p by (auto simp: post_all_sem_def)
  then have "\<forall>w\<in>P. w_up (waits st' w)" by (auto simp: sem_inv_def)
  moreover have "w_proc (waits st' v) = w_proc (waits st v)" for v
    using p post_all_loop_w_proc unfolding post_all_sem_def by blast
  ultimately show ?thesis using d by (auto simp: deep_inv_def)
qed

lemma deep_inv_wait_begin:
  assumes d: "deep_inv P U st" and i: "sem_inv P st" and c: "c < NCPU"
    and new: "\<not> pidle (ssched st) (thisproc (ssched st) c)" "w \<notin> P" "\<forall>v\<in>P. w_proc (waits st v) \<noteq> thisproc (ssched st) c"
    and b: "wait_sem_begin c now w alertable st = Some (b, st')"
  shows "deep_inv (if b then P else insert w P) (if b \<or> alertable then U else insert w U) st'"
proof (cases b)
  case True
  then have "waits st' = waits st \<and> ssched st' = ssched st"
    using b by (auto simp: wait_sem_begin_def Let_def bind_eq_Some_conv split: if_splits)
  then show ?thesis using d True by (simp add: deep_inv_def)
next
  case False
  let ?p = "thisproc (ssched st) c"
  have sw: "simple_sched c now (if alertable then SLEEPING else DEEPSLEEPING) (ssched st) = Some (ssched st')"
      "waits st' = (waits st)(w := \<lparr>w_up = False, w_proc = ?p\<rparr>)"
    using b False by (auto simp: wait_sem_begin_def Let_def bind_eq_Some_conv split: if_splits)
  have si: "sched_inv (ssched st)" using i by (simp add: sem_inv_def)
  have "pstate (ssched st') ?p = DEEPSLEEPING" if "\<not> alertable"
    using simple_sched_this_state [OF sw(1) si c] new(1) that by simp
  moreover have "pstate (ssched st') (w_proc (waits st v)) = DEEPSLEEPING" if "v \<in> U" "\<not> w_up (waits st v)" for v
  proof (rule simple_sched_keeps [OF sw(1)])
    show deep: "pstate (ssched st) (w_proc (waits st v)) = DEEPSLEEPING" using d that by (simp add: deep_inv_def)
    show "\<not> pidle (ssched st) (w_proc (waits st v))" using d i that by (auto simp: deep_inv_def sem_inv_def)
    show "w_proc (waits st v) \<noteq> thisproc (ssched st) c" by (rule not_this [OF si c deep]) simp
  qed simp
  ultimately show ?thesis using d False new(2,3) sw(2) by (auto simp: deep_inv_def inj_on_def)
qed

lemma sem_exec_inv: "sem_exec v0 m n P U st \<Longrightarrow> deep_inv P U st \<and> finite P"
proof (induction rule: sem_exec.induct)
  case (init idles hellos s ws)
  show ?case by (simp add: deep_inv_def)
next
  case (wait_b m n P U st c w now alertable b st')
  have "sem_inv P st" using sem_run_inv [OF sem_exec_run [OF wait_b.hyps(1)]] by blast
  from deep_inv_wait_begin [OF _ this wait_b.hyps(2-6)] wait_b.IH show ?case by auto
next
  case (wait_e m n P U st w c b st')
  have "waits st' = waits st \<and> ssched st' = ssched st"
    using wait_e.hyps(5) by (auto simp: wait_sem_end_def Let_def bind_eq_Some_conv split: if_splits)
  then show ?case using wait_e.IH by (auto simp: deep_inv_def inj_on_def)
next
  case (post m n P U st st')
  have "sem_inv P st" using sem_run_inv [OF sem_exec_run [OF post.hyps(1)]] by blast
  from deep_inv_post [OF _ this post.hyps(2)] post.IH show ?case by blast
next
  case (get m n P U st b s')
  then show ?case by (simp add: deep_inv_def)
next
  case (get_all m n P U st k s')
  then show ?case by (simp add: deep_inv_def)
next
  case (post_all m n P U st k st')
  have "sem_inv P st" using sem_run_inv [OF sem_exec_run [OF post_all.hyps(1)]] by blast
  from deep_inv_post_all [OF _ this post_all.hyps(2)] post_all.IH show ?case by blast
next
  case (resched m n P U st c ns now s')
  have i: "sem_inv P st" using sem_run_inv [OF sem_exec_run [OF resched.hyps(1)]] by blast
  have "pstate s' (w_proc (waits st w)) = DEEPSLEEPING"
    if "w \<in> U" "pstate (ssched st) (w_proc (waits st w)) = DEEPSLEEPING" for w
  proof (rule simple_sched_keeps [OF resched.hyps(5) that(2)])
    show "\<not> pidle (ssched st) (w_proc (waits st w))" using i that(1) resched.IH by (auto simp: sem_inv_def deep_inv_def)
    show "w_proc (waits st w) \<noteq> thisproc (ssched st) c"
      using i not_this [OF _ resched.hyps(2) that(2)] by (simp add: sem_inv_def)
  qed simp
  then show ?case using resched.IH deep_inv_sched by blast
next
  case (online m n P U st c now s')
  then show ?case using set_cpu_on_pstate by (auto simp: deep_inv_def)
next
  case (clock m n P U st c now s')
  have i: "sem_inv P st" using sem_run_inv [OF sem_exec_run [OF clock.hyps(1)]] by blast
  have "pstate s' (w_proc (waits st w)) = DEEPSLEEPING"
    if "w \<in> U" "pstate (ssched st) (w_proc (waits st w)) = DEEPSLEEPING" for w
    by (rule clock_keeps [OF clock.hyps(3) _ _ _ _ _ clock.hyps(2)])
      (use i that clock.IH in \<open>auto simp: sem_inv_def deep_inv_def\<close>)
  then show ?case using clock.IH deep_inv_sched by blast
next
  case (activate m n P U st p onalert b s')
  have "pstate s' (w_proc (waits st w)) = DEEPSLEEPING"
    if "w \<in> U" "\<not> w_up (waits st w)" "pstate (ssched st) (w_proc (waits st w)) = DEEPSLEEPING" for w
    by (rule activate_keeps [OF activate.hyps(5)])
      (use that activate.IH activate.hyps(4) in \<open>auto simp: deep_inv_def asleep_def\<close>)
  then show ?case using activate.IH deep_inv_sched by blast
qed

lemma waiters_bound:
  assumes inv: "sem_inv P st" and fin: "finite P" and c: "int (card P) \<le> INT_MAX"
  shows "INT_MIN < sval (sem st)"
proof -
  have "length (sleeplist (sem st)) = nat (- sval (sem st))" "distinct (sleeplist (sem st))"
    "set (sleeplist (sem st)) \<subseteq> P" using inv by (auto simp: sem_inv_def)
  then have "nat (- sval (sem st)) \<le> card P" using fin by (metis card_mono distinct_card)
  then show ?thesis using c by (simp add: INT_MAX_def INT_MIN_def)
qed

lemma unalertable_woken:
  assumes inv: "sem_inv P st" and d: "deep_inv P U st" and c: "c < NCPU"
    and v: "v \<in> U" "thisproc (ssched st) c = w_proc (waits st v)"
  shows "unalertable_wait_end v st \<noteq> None"
proof -
  have "pstate (ssched st) (thisproc (ssched st) c) = RUNNING" using inv c by (simp add: sem_inv_def sched_inv_def)
  then have "w_up (waits st v)" using deep_invD [OF d v(1)] v(2) by (cases "w_up (waits st v)") auto
  then show ?thesis by (simp add: unalertable_wait_end_def wait_sem_end_def)
qed

section \<open>Properties\<close>

text \<open>
  C28: No \<open>ASSERT\<close> of a semaphore fails, and its value leaves the range of \<open>int\<close> in one case only.  In
  every state of every execution a post and a post to all succeed unless 2^31 - 1 units are unused, where
  the increment overflows.  A wait by a process that is not idle succeeds with at most 2^31 - 1 calls
  pending, and the caller goes to sleep exactly when the value is not positive; the return of a
  sleeping waiter succeeds; and the return from a wait that is not alertable passes the \<open>ASSERT\<close> of its
  macro whenever the process runs, because only a post wakes it.
\<close>

theorem semaphore_never_panics:
  assumes "sem_exec v0 m n P U st" "int (card P) \<le> INT_MAX" "c < NCPU"
  shows "(post_sem st \<noteq> None \<longleftrightarrow> sval (sem st) < INT_MAX) \<and> (post_all_sem st \<noteq> None \<longleftrightarrow> sval (sem st) < INT_MAX)
    \<and> (\<forall>v. v \<in> P \<longrightarrow> wait_sem_end v st \<noteq> None)
    \<and> (\<forall>w alertable now. \<not> pidle (ssched st) (thisproc (ssched st) c) \<longrightarrow> w \<notin> P \<longrightarrow>
         (\<exists>b st'. wait_sem_begin c now w alertable st = Some (b, st') \<and> (b \<longleftrightarrow> 0 < sval (sem st))))
    \<and> (\<forall>v. v \<in> U \<longrightarrow> thisproc (ssched st) c = w_proc (waits st v) \<longrightarrow> unalertable_wait_end v st \<noteq> None)"
proof -
  have inv: "sem_inv P st" using sem_run_inv [OF sem_exec_run [OF assms(1)]] by blast
  have d: "deep_inv P U st" and fin: "finite P" using sem_exec_inv [OF assms(1)] by blast+
  have "post_sem st \<noteq> None \<longleftrightarrow> sval (sem st) < INT_MAX"
    using post_sem_inv [OF inv] post_sem_range [of st] by blast
  moreover have "post_all_sem st \<noteq> None" if "sval (sem st) < INT_MAX"
    using post_all_loop_spec [OF inv that, of "- 1"] by (auto simp: post_all_sem_def)
  then have "post_all_sem st \<noteq> None \<longleftrightarrow> sval (sem st) < INT_MAX"
    using post_all_range [of st] by blast
  moreover have "\<forall>v. v \<in> P \<longrightarrow> wait_sem_end v st \<noteq> None" using wait_sem_end_inv [OF inv] by fastforce
  moreover have "\<forall>w alertable now. \<not> pidle (ssched st) (thisproc (ssched st) c) \<longrightarrow> w \<notin> P \<longrightarrow>
      (\<exists>b st'. wait_sem_begin c now w alertable st = Some (b, st') \<and> (b \<longleftrightarrow> 0 < sval (sem st)))"
    using wait_sem_begin_inv [OF inv assms(3) _ _ waiters_bound [OF inv fin assms(2)]] by blast
  moreover have "\<forall>v. v \<in> U \<longrightarrow> thisproc (ssched st) c = w_proc (waits st v) \<longrightarrow> unalertable_wait_end v st \<noteq> None"
    using unalertable_woken [OF inv d assms(3)] by blast
  ultimately show ?thesis by blast
qed

text \<open>A reachable scheduler state in which process 64 runs on processor 0, for the witnesses.\<close>

lemma sem_run_example:
  "\<exists>idles hellos s. sched_reach idles hellos s \<and> \<not> pidle s (thisproc s 0) \<and> thisproc s 0 = 64
     \<and> pstate s 64 = RUNNING"
proof -
  let ?i = "\<lambda>c :: nat. of_nat (4096 + 64 * c) :: ptr" and ?h = "\<lambda>c :: nat. of_nat (8192 + 64 * c) :: ptr"
  have n: "{..<NCPU} = {0, 1, 2, 3}" by (auto simp: NCPU_def)
  let ?s = "sched_init ?i ?h"
  let ?s1 = "snd (activate_proc 64 False ?s)"
  have r: "sched_reach ?i ?h ?s" by (rule sched_reach.start) (simp_all add: n)
  have "sched_step ?s ?s1"
    by (rule sched_step.activate [of _ 64 False "fst (activate_proc 64 False ?s)"])
      (simp_all add: sched_init_def n)
  with r have r1: "sched_reach ?i ?h ?s1" by (rule sched_reach.step)
  have "\<exists>t. simple_sched 0 5 RUNNABLE ?s1 = Some t \<and> thisproc t 0 = 64 \<and> pidle t 64 = False \<and> pstate t 64 = RUNNING"
    by (simp add: activate_proc_def make_runnable_def sched_init_def n simple_sched_def update_this_state_def Let_def
        cancel_cpu_timer_def pick_next_def update_this_proc_def set_cpu_timer_def)
  then obtain t where t: "simple_sched 0 5 RUNNABLE ?s1 = Some t" "thisproc t 0 = 64" "\<not> pidle t 64"
    "pstate t 64 = RUNNING" by blast
  have "sched_step ?s1 t" by (rule sched_step.resched [OF _ _ _ t(1)]) (simp_all add: NCPU_def)
  with r1 have "sched_reach ?i ?h t" by (rule sched_reach.step)
  moreover have "\<not> pidle t (thisproc t 0)" using t by simp
  ultimately show ?thesis using t(2,4) by blast
qed

theorem semaphore_never_panics_witness:
  "\<exists>st st' st''. thisproc (ssched st) 0 = 64 \<and> wait_sem_begin 0 9 128 False st = Some (False, st') \<and> sem_exec 0 0 0 {128} {128} st'
     \<and> post_sem st' = Some st'' \<and> w_up (waits st'' 128)"
proof -
  obtain idles hellos s where s: "sched_reach idles hellos s" "\<not> pidle s (thisproc s 0)" "thisproc s 0 = 64"
    using sem_run_example by blast
  let ?st = "\<lparr>sem = init_sem 0, waits = (\<lambda>_. \<lparr>w_up = False, w_proc = 0\<rparr>), ssched = s\<rparr>"
  have r: "sem_exec 0 0 0 {} {} ?st" by (rule sem_exec.init [OF _ s(1)]) simp
  from semaphore_never_panics [OF r, of 0] s(2)
  have "\<exists>b st'. wait_sem_begin 0 9 128 False ?st = Some (b, st') \<and> (b \<longleftrightarrow> 0 < sval (sem ?st))"
    by (auto simp: NCPU_def INT_MAX_def)
  then obtain st' where st': "wait_sem_begin 0 9 128 False ?st = Some (False, st')" by (auto simp: init_sem_def)
  from sem_exec.wait_b [OF r _ _ _ _ st'] s(2) have r2: "sem_exec 0 0 0 {128} {128} st'" by (simp add: NCPU_def)
  have v: "sleeplist (sem st') = [128]" "sval (sem st') = - 1"
    using st' by (auto simp: wait_sem_begin_def Let_def init_sem_def bind_eq_Some_conv int_dec_def INT_MIN_def)
  with semaphore_never_panics [OF r2, of 0] obtain st'' where st'': "post_sem st' = Some st''" by (auto simp: INT_MAX_def NCPU_def)
  from v st'' have "w_up (waits st'' 128)" by (auto simp: post_sem_def int_inc_def INT_MAX_def Let_def)
  with s(3) st' r2 st'' show ?thesis by (intro exI [of _ ?st] exI [of _ st'] exI [of _ st'']) simp
qed

text \<open>
  C29: a semaphore hands out no more units than it has.  In every run the units granted plus the
  value, with the sleepers added back, are the initial value plus the posts; so at most
  initial + posts units are granted, no waiter sleeps while the value is positive, and a sleep lock
  (initial value 1, released once per acquisition) has at most one holder.
\<close>

theorem semaphore_conservation:
  assumes "sem_run v0 m n P st"
  shows "int n + max 0 (sval (sem st)) = v0 + int m \<and> int n \<le> v0 + int m
    \<and> (0 < sval (sem st) \<longrightarrow> sleeplist (sem st) = []) \<and> (v0 = 1 \<longrightarrow> n \<le> m + 1)"
proof -
  have inv: "sem_inv P st" and e: "int n + sval (sem st) + int (length (sleeplist (sem st))) = v0 + int m"
    using sem_run_inv [OF assms] by blast+
  have l: "length (sleeplist (sem st)) = nat (- sval (sem st))" using inv by (simp add: sem_inv_def)
  then have "int n + max 0 (sval (sem st)) = v0 + int m" using e by (cases "sval (sem st) < 0") (auto simp: max_def)
  with l show ?thesis by auto
qed

theorem semaphore_conservation_witness:
  "\<exists>st. sem_run 1 0 1 {} st \<and> sval (sem st) = 0 \<and> sleeplist (sem st) = []
     \<and> int 1 + max 0 (sval (sem st)) = 1 + int 0"
proof -
  obtain idles hellos s where s: "sched_reach idles hellos s" using sem_run_example by blast
  let ?st = "\<lparr>sem = init_sem 1, waits = (\<lambda>_. \<lparr>w_up = False, w_proc = 0\<rparr>), ssched = s\<rparr>"
  have "sem_run 1 0 0 {} ?st" by (rule sem_run.init [OF _ s]) simp
  then have "sem_run 1 0 (if True then 0 + 1 else 0) {} (?st\<lparr>sem := \<lparr>sval = 0, sleeplist = []\<rparr>\<rparr>)"
    by (rule sem_run.get) (simp add: get_sem_def init_sem_def)
  then have r: "sem_run 1 0 1 {} (?st\<lparr>sem := \<lparr>sval = 0, sleeplist = []\<rparr>\<rparr>)" by simp
  from semaphore_conservation [OF r] r show ?thesis by (intro exI [of _ "?st\<lparr>sem := \<lparr>sval = 0, sleeplist = []\<rparr>\<rparr>"]) simp
qed

text \<open>
  a post with sleepers wakes the one that has slept longest: it is marked \<open>up\<close>, leaves the
  sleep list, the others keep their order, and its process becomes runnable if it was asleep.  A
  post to all returns the number of sleepers, wakes every one and leaves the value non-negative.
\<close>

theorem post_wakes_oldest:
  assumes "sem_run v0 m n P st" "sleeplist (sem st) = ws @ [w]"
    and "pstate (ssched st) (w_proc (waits st w)) \<in> {SLEEPING, DEEPSLEEPING}"
  shows "(\<exists>st'. post_sem st = Some st' \<and> sleeplist (sem st') = ws \<and> w_up (waits st' w)
           \<and> pstate (ssched st') (w_proc (waits st w)) = RUNNABLE)
    \<and> (\<exists>st'. post_all_sem st = Some (int (length ws) + 1, st') \<and> sleeplist (sem st') = [] \<and> sval (sem st') = 0
           \<and> (\<forall>v\<in>P. w_up (waits st' v)))"
proof -
  have inv: "sem_inv P st" using sem_run_inv [OF assms(1)] by blast
  have "sval (sem st) < 0" by (rule sem_inv_waiter_neg [OF inv]) (simp add: assms(2))
  with post_all_loop_spec [OF inv, of "- 1"] INT_MAX_def obtain st' where
    st': "post_all_sem st = Some (int (length ws) + 1, st')" "sem_inv P st'" "sval (sem st') = 0"
    by (auto simp: post_all_sem_def assms(2) max_def)
  then have "sleeplist (sem st') = []" "\<forall>v\<in>P. w_up (waits st' v)" by (auto simp: sem_inv_def)
  with st' post_sem_wakes [OF inv assms(2)] assms(3) show ?thesis
    by (auto simp: activate_proc_def make_runnable_def)
qed

theorem post_wakes_oldest_witness:
  "\<exists>st st'. sleeplist (sem st) = [128] \<and> pstate (ssched st) 64 = SLEEPING
     \<and> post_sem st = Some st' \<and> sleeplist (sem st') = [] \<and> pstate (ssched st') 64 = RUNNABLE"
proof -
  obtain idles hellos s where s: "sched_reach idles hellos s" "\<not> pidle s (thisproc s 0)" "thisproc s 0 = 64"
    "pstate s 64 = RUNNING"
    using sem_run_example by blast
  let ?st = "\<lparr>sem = init_sem 0, waits = (\<lambda>_. \<lparr>w_up = False, w_proc = 0\<rparr>), ssched = s\<rparr>"
  have r: "sem_run 0 0 0 {} ?st" by (rule sem_run.init [OF _ s(1)]) simp
  have inv: "sem_inv {} ?st" using sem_run_inv [OF r] by blast
  from wait_sem_begin_inv [OF inv, of 0 128 9 True] s obtain t where
    t: "wait_sem_begin 0 9 128 True ?st = Some (False, t)" "sleeplist (sem t) = [128]"
    by (auto simp: NCPU_def init_sem_def INT_MIN_def)
  from sem_run.wait_b [OF r _ _ _ t(1)] s(2) have r2: "sem_run 0 0 0 {128} t" by (simp add: NCPU_def)
  from t(1) have w: "w_proc (waits t 128) = 64" and sch: "simple_sched 0 9 SLEEPING s = Some (ssched t)"
    using s(3) by (auto simp: wait_sem_begin_def Let_def init_sem_def Option_bind_Some_iff int_dec_def INT_MIN_def)
  have "pstate (ssched t) 64 = SLEEPING"
    using simple_sched_this_state [OF sch] sched_reach_inv [OF s(1)] s by (simp add: NCPU_def)
  with post_wakes_oldest [OF r2, of "[]" 128] t(2) w show ?thesis by auto
qed

end
