(* ===== verification/Bytes.thy ===== *)
theory Bytes
  imports Prelude
begin

text \<open>
  Byte images of C objects: little-endian integers as AArch64 lays them out, and reading and
  writing a run of bytes inside a block.  Arrays of integers are the concatenation of their images.
\<close>

section \<open>Integers\<close>

fun le_bytes :: "nat \<Rightarrow> 'a::len word \<Rightarrow> u8 list" where
  "le_bytes 0 w = []"
| "le_bytes (Suc n) w = ucast w # le_bytes n (drop_bit 8 w)"

fun le_word :: "u8 list \<Rightarrow> 'a::len word" where
  "le_word [] = 0"
| "le_word (b # bs) = ucast b OR push_bit 8 (le_word bs)"

lemma length_le_bytes [simp]: "length (le_bytes n w) = n"
  by (induction n w rule: le_bytes.induct) auto

lemma le_word_le_bytes_take: "le_word (le_bytes n w) = take_bit (8 * n) w"
proof (induction n w rule: le_bytes.induct)
  case (1 w)
  then show ?case by simp
next
  case (2 n w)
  have "le_word (le_bytes (Suc n) w) = ucast (ucast w :: u8) OR push_bit 8 (take_bit (8 * n) (drop_bit 8 w))"
    using 2 by simp
  also have "\<dots> = take_bit (8 * Suc n) w"
    by (rule bit_eqI) (auto simp: bit_simps)
  finally show ?case .
qed

lemma le_word_le_bytes:
  assumes "LENGTH('a) \<le> 8 * n" shows "le_word (le_bytes n w) = (w :: 'a::len word)"
  using assms by (simp add: le_word_le_bytes_take take_bit_word_eq_self)

lemma le_bytes_le_word:
  "length bs = n \<Longrightarrow> 8 * n \<le> LENGTH('a) \<Longrightarrow> le_bytes n (le_word bs :: 'a::len word) = bs"
proof (induction bs arbitrary: n)
  case Nil
  then show ?case by simp
next
  case (Cons b bs)
  then obtain m where m: "n = Suc m" "length bs = m" by (cases n) auto
  let ?w = "le_word bs :: 'a word"
  have tk: "take_bit (8 * m) ?w = ?w"
    using Cons.IH [OF m(2)] Cons.prems m le_word_le_bytes_take [of m ?w] by simp
  have "drop_bit 8 (ucast b OR push_bit 8 ?w :: 'a word) = take_bit (LENGTH('a) - 8) ?w"
    by (rule bit_eqI) (auto simp: bit_simps dest: bit_imp_le_length)
  also have "\<dots> = ?w"
  proof -
    have "min (LENGTH('a) - 8) (8 * m) = 8 * m" using Cons.prems m by auto
    then have "take_bit (LENGTH('a) - 8) (take_bit (8 * m) ?w) = take_bit (8 * m) ?w"
      by (simp add: take_bit_take_bit)
    then show ?thesis by (simp only: tk)
  qed
  finally have d: "drop_bit 8 (ucast b OR push_bit 8 ?w :: 'a word) = ?w" .
  have "ucast (ucast b OR push_bit 8 ?w :: 'a word) = b"
    using Cons.prems m by (intro bit_eqI) (auto simp: bit_simps)
  with d Cons.IH [OF m(2)] Cons.prems m show ?case by simp
qed

section \<open>Runs of bytes in a block\<close>

definition get_bytes :: "nat \<Rightarrow> nat \<Rightarrow> u8 list \<Rightarrow> u8 list" where
  "get_bytes off n d = take n (drop off d)"

definition put_bytes :: "nat \<Rightarrow> u8 list \<Rightarrow> u8 list \<Rightarrow> u8 list" where
  "put_bytes off bs d = take off d @ bs @ drop (off + length bs) d"

lemma length_get_bytes [simp]: "off + n \<le> length d \<Longrightarrow> length (get_bytes off n d) = n"
  by (simp add: get_bytes_def)

lemma length_put_bytes [simp]: "off + length bs \<le> length d \<Longrightarrow> length (put_bytes off bs d) = length d"
  by (simp add: put_bytes_def)

lemma get_put_bytes [simp]:
  "off + length bs \<le> length d \<Longrightarrow> n = length bs \<Longrightarrow> get_bytes off n (put_bytes off bs d) = bs"
  by (simp add: get_bytes_def put_bytes_def)

lemma nth_put_bytes:
  "off + length bs \<le> length d \<Longrightarrow> i < length d \<Longrightarrow>
   put_bytes off bs d ! i = (if off \<le> i \<and> i < off + length bs then bs ! (i - off) else d ! i)"
  by (auto simp: put_bytes_def nth_append min_def not_less)

lemma get_put_bytes_other:
  assumes "off + length bs \<le> length d" "off' + n \<le> length d" "off' + n \<le> off \<or> off + length bs \<le> off'"
  shows "get_bytes off' n (put_bytes off bs d) = get_bytes off' n d"
  using assms by (intro nth_equalityI) (auto simp: get_bytes_def nth_put_bytes)

lemma put_get_bytes [simp]: "off + n \<le> length d \<Longrightarrow> put_bytes off (get_bytes off n d) d = d"
  by (rule nth_equalityI) (auto simp: nth_put_bytes get_bytes_def)

section \<open>Arrays\<close>

definition le_array :: "nat \<Rightarrow> 'a::len word list \<Rightarrow> u8 list" where
  "le_array n ws = concat (map (le_bytes n) ws)"

fun le_words :: "nat \<Rightarrow> nat \<Rightarrow> u8 list \<Rightarrow> 'a::len word list" where
  "le_words n 0 bs = []"
| "le_words n (Suc k) bs = le_word (take n bs) # le_words n k (drop n bs)"

lemma length_le_array [simp]: "length (le_array n ws) = n * length ws"
  by (induction ws) (auto simp: le_array_def)

lemma length_le_words [simp]: "length (le_words n k bs) = k"
  by (induction n k bs rule: le_words.induct) auto

lemma le_array_Cons [simp]: "le_array n (w # ws) = le_bytes n w @ le_array n ws"
  and le_array_Nil [simp]: "le_array n [] = []"
  by (simp_all add: le_array_def)

lemma le_words_le_array_append:
  assumes "LENGTH('a) \<le> 8 * n"
  shows "le_words n (length ws) (le_array n ws @ rest) = (ws :: 'a::len word list)"
  by (induction ws) (simp_all add: le_word_le_bytes [OF assms])

lemma le_words_le_array_prefix:
  "k = length ws \<Longrightarrow> LENGTH('a) \<le> 8 * n \<Longrightarrow> le_words n k (le_array n ws @ rest) = (ws :: 'a::len word list)"
  using le_words_le_array_append by blast

lemma le_words_le_array:
  assumes "LENGTH('a) \<le> 8 * n"
  shows "le_words n (length ws) (le_array n ws) = (ws :: 'a::len word list)"
  using le_words_le_array_append [OF assms, of ws "[]"] by simp

lemma le_array_le_words:
  assumes "8 * n \<le> LENGTH('a)" "length bs = n * k"
  shows "le_array n (le_words n k bs :: 'a::len word list) = bs"
  using assms(2)
proof (induction k arbitrary: bs)
  case 0
  then show ?case by simp
next
  case (Suc k)
  have "le_bytes n (le_word (take n bs) :: 'a word) = take n bs"
    by (rule le_bytes_le_word) (use Suc.prems assms(1) in auto)
  with Suc show ?case by simp
qed

lemma le_words_zero: "le_words n k (replicate m 0) = replicate k 0"
proof -
  have z: "le_word (replicate j 0) = 0" for j by (induction j) auto
  show ?thesis by (induction k arbitrary: m) (simp_all add: z)
qed

end
