(* ===== verification/Fs_Defs.thy ===== *)
theory Fs_Defs
  imports Bytes
begin

text \<open>
  The on-disk objects of \<open>fs/defines.h\<close>: their records, their sizes and their byte images.  A block is
  a list of \<^term>\<open>512::nat\<close> bytes.
\<close>

section \<open>Constants\<close>

definition BLOCK_SIZE :: nat where "BLOCK_SIZE = 512"
definition LOG_MAX_SIZE :: nat where "LOG_MAX_SIZE = (BLOCK_SIZE - 8) div 8"
definition INODE_NUM_DIRECT :: nat where "INODE_NUM_DIRECT = 12"
definition INODE_NUM_INDIRECT :: nat where "INODE_NUM_INDIRECT = BLOCK_SIZE div 4"
definition INODE_PER_BLOCK :: nat where "INODE_PER_BLOCK = BLOCK_SIZE div 64"
definition INODE_MAX_BLOCKS :: nat where "INODE_MAX_BLOCKS = INODE_NUM_DIRECT + INODE_NUM_INDIRECT"
definition INODE_MAX_BYTES :: nat where "INODE_MAX_BYTES = INODE_MAX_BLOCKS * BLOCK_SIZE"
definition FILE_NAME_MAX_LENGTH :: nat where "FILE_NAME_MAX_LENGTH = 14"
definition BIT_PER_BLOCK :: nat where "BIT_PER_BLOCK = BLOCK_SIZE * 8"
definition INODE_INVALID :: u16 where "INODE_INVALID = 0"
definition INODE_DIRECTORY :: u16 where "INODE_DIRECTORY = 1"
definition INODE_REGULAR :: u16 where "INODE_REGULAR = 2"
definition INODE_DEVICE :: u16 where "INODE_DEVICE = 3"
definition ROOT_INODE_NO :: nat where "ROOT_INODE_NO = 1"

lemmas fs_sizes = BLOCK_SIZE_def LOG_MAX_SIZE_def INODE_NUM_DIRECT_def INODE_NUM_INDIRECT_def
  INODE_PER_BLOCK_def INODE_MAX_BLOCKS_def INODE_MAX_BYTES_def FILE_NAME_MAX_LENGTH_def BIT_PER_BLOCK_def

lemmas inode_types = INODE_INVALID_def INODE_DIRECTORY_def INODE_REGULAR_def INODE_DEVICE_def

section \<open>Super block and log header\<close>

record SuperBlock =
  num_blocks :: u32
  num_data_blocks :: u32
  num_inodes :: u32
  num_log_blocks :: u32
  log_start :: u32
  inode_start :: u32
  bitmap_start :: u32

definition super_block_of :: "u8 list \<Rightarrow> SuperBlock" where
  "super_block_of d = (let w = le_words 4 7 d in
     \<lparr>num_blocks = w ! 0, num_data_blocks = w ! 1, num_inodes = w ! 2, num_log_blocks = w ! 3,
      log_start = w ! 4, inode_start = w ! 5, bitmap_start = w ! 6\<rparr>)"

definition super_block_bytes :: "SuperBlock \<Rightarrow> u8 list" where
  "super_block_bytes s = le_array 4 [num_blocks s, num_data_blocks s, num_inodes s, num_log_blocks s,
     log_start s, inode_start s, bitmap_start s]"

lemma super_block_roundtrip: "super_block_of (super_block_bytes s @ rest) = s"
proof -
  let ?w = "[num_blocks s, num_data_blocks s, num_inodes s, num_log_blocks s, log_start s, inode_start s, bitmap_start s]"
  have "le_words 4 7 (super_block_bytes s @ rest) = ?w"
    unfolding super_block_bytes_def by (rule le_words_le_array_prefix) simp_all
  then show ?thesis by (simp add: super_block_of_def)
qed

record LogHeader =
  lh_num_blocks :: usize
  lh_block_no :: "usize list"

definition log_header_of :: "u8 list \<Rightarrow> LogHeader" where
  "log_header_of d = (let w = le_words 8 (Suc LOG_MAX_SIZE) d in \<lparr>lh_num_blocks = hd w, lh_block_no = tl w\<rparr>)"

definition log_header_bytes :: "LogHeader \<Rightarrow> u8 list" where
  "log_header_bytes h = le_array 8 (lh_num_blocks h # lh_block_no h)"

lemma log_header_roundtrip:
  assumes "length (lh_block_no h) = LOG_MAX_SIZE"
  shows "log_header_of (log_header_bytes h) = h" "length (log_header_bytes h) = BLOCK_SIZE"
proof -
  have "le_words 8 (length (lh_num_blocks h # lh_block_no h)) (le_array 8 (lh_num_blocks h # lh_block_no h))
      = lh_num_blocks h # lh_block_no h"
    by (rule le_words_le_array) simp
  then show "log_header_of (log_header_bytes h) = h"
    using assms by (simp add: log_header_of_def log_header_bytes_def del: le_array_Cons)
  show "length (log_header_bytes h) = BLOCK_SIZE"
    using assms by (simp add: log_header_bytes_def fs_sizes)
qed

lemma log_header_of_length [simp]: "length (lh_block_no (log_header_of d)) = LOG_MAX_SIZE"
  by (simp add: log_header_of_def Let_def)

section \<open>Inodes and directory entries\<close>

record InodeEntry =
  ie_type :: u16
  ie_major :: u16
  ie_minor :: u16
  ie_num_links :: u16
  ie_num_bytes :: u32
  ie_addrs :: "u32 list"
  ie_indirect :: u32

definition inode_entry_bytes :: "InodeEntry \<Rightarrow> u8 list" where
  "inode_entry_bytes e = le_array 2 [ie_type e, ie_major e, ie_minor e, ie_num_links e]
     @ le_array 4 (ie_num_bytes e # ie_addrs e @ [ie_indirect e])"

definition inode_entry_of :: "u8 list \<Rightarrow> InodeEntry" where
  "inode_entry_of d = (let s = le_words 2 4 d; w = le_words 4 14 (drop 8 d) in
     \<lparr>ie_type = s ! 0, ie_major = s ! 1, ie_minor = s ! 2, ie_num_links = s ! 3,
      ie_num_bytes = w ! 0, ie_addrs = take 12 (drop 1 w), ie_indirect = w ! 13\<rparr>)"

lemma inode_entry_roundtrip:
  assumes "length (ie_addrs e) = INODE_NUM_DIRECT"
  shows "inode_entry_of (inode_entry_bytes e) = e" "length (inode_entry_bytes e) = 64"
proof -
  let ?s = "[ie_type e, ie_major e, ie_minor e, ie_num_links e]"
  let ?w = "ie_num_bytes e # ie_addrs e @ [ie_indirect e]"
  have s: "le_words 2 4 (inode_entry_bytes e) = ?s"
    unfolding inode_entry_bytes_def by (rule le_words_le_array_prefix) simp_all
  have "le_words 4 (length ?w) (le_array 4 ?w) = ?w" by (rule le_words_le_array) simp
  then have w: "le_words 4 14 (drop 8 (inode_entry_bytes e)) = ?w"
    using assms by (simp add: inode_entry_bytes_def fs_sizes del: le_array_Cons)
  have "?w ! 13 = ie_indirect e" using assms by (simp add: fs_sizes nth_append nth_Cons')
  with s w assms show "inode_entry_of (inode_entry_bytes e) = e"
    by (simp add: inode_entry_of_def fs_sizes)
  show "length (inode_entry_bytes e) = 64"
    using assms by (simp add: inode_entry_bytes_def fs_sizes)
qed

lemma inode_entry_of_addrs [simp]: "length (ie_addrs (inode_entry_of d)) = INODE_NUM_DIRECT"
  by (simp add: inode_entry_of_def Let_def fs_sizes)

record DirEntry =
  de_inode_no :: u16
  de_name :: "u8 list"

definition dir_entry_bytes :: "DirEntry \<Rightarrow> u8 list" where
  "dir_entry_bytes e = le_bytes 2 (de_inode_no e) @ de_name e"

definition dir_entry_of :: "u8 list \<Rightarrow> DirEntry" where
  "dir_entry_of d = \<lparr>de_inode_no = le_word (take 2 d), de_name = take FILE_NAME_MAX_LENGTH (drop 2 d)\<rparr>"

lemma dir_entry_roundtrip:
  assumes "length (de_name e) = FILE_NAME_MAX_LENGTH"
  shows "dir_entry_of (dir_entry_bytes e) = e" "length (dir_entry_bytes e) = 16"
  using assms by (simp_all add: dir_entry_of_def dir_entry_bytes_def le_word_le_bytes fs_sizes)

definition indirect_addrs :: "u8 list \<Rightarrow> u32 list" where
  "indirect_addrs d = le_words 4 INODE_NUM_INDIRECT d"

definition indirect_bytes :: "u32 list \<Rightarrow> u8 list" where
  "indirect_bytes a = le_array 4 a"

lemma indirect_roundtrip:
  "length a = INODE_NUM_INDIRECT \<Longrightarrow> indirect_addrs (indirect_bytes a) = a"
  using le_words_le_array [of 4 a] by (simp add: indirect_addrs_def indirect_bytes_def)

end
