(* ===== verification/Cache.thy ===== *)
theory Cache
  imports Fs_Defs
begin

text \<open>
  The block cache and its write-ahead log (\<open>fs/cache.c\<close>, \<open>fs/cache.h\<close>).  The state is the device
  (the content of every block), the trace of the device writes, the \<open>Block\<close> structures by the order
  of their allocation, the LRU list \<open>head\<close> (from \<open>head.next\<close> to \<open>head.prev\<close>), the in-memory log
  header and the fields of \<open>log\<close>.  \<open>cache_acquire\<close> and \<open>cache_release\<close> are cut where the code gives up
  one lock before it takes the next; the operations above them use them with all steps in a row, so
  the lemmas on the cache, the log and the allocator are about one thread at a time.  What another
  thread may do between the steps is shown by \<open>release_race\<close> and \<open>acquire_race\<close>.  The result \<^const>\<open>None\<close> of an operation is a panic, an access outside an array, or a
  sleep lock that is not free, so that another thread has to run first.
\<close>

section \<open>State\<close>

definition OP_MAX_NUM_BLOCKS :: nat where "OP_MAX_NUM_BLOCKS = 10"
definition EVICTION_THRESHOLD :: nat where "EVICTION_THRESHOLD = 20"

record Block =
  block_no :: usize
  acquired :: bool
  pinned :: bool
  locked :: bool
  valid :: bool
  bdata :: "u8 list"

record OpContext =
  rm :: usize

record cachest =
  sblock :: SuperBlock
  disk :: "usize \<Rightarrow> u8 list"
  wtrace :: "(usize \<times> u8 list) list"
  bheap :: "nat \<Rightarrow> Block"
  head :: "nat list"
  bfresh :: nat
  header :: LogHeader
  committing :: bool
  outstanding :: int
  log_lock :: int

definition upd_block :: "nat \<Rightarrow> (Block \<Rightarrow> Block) \<Rightarrow> cachest \<Rightarrow> cachest" where
  "upd_block i f st = st\<lparr>bheap := (bheap st)(i := f (bheap st i))\<rparr>"

section \<open>Device access\<close>

definition device_read :: "nat \<Rightarrow> cachest \<Rightarrow> cachest" where
  "device_read i st = upd_block i (\<lambda>b. b\<lparr>bdata := disk st (block_no b)\<rparr>) st"

definition device_put :: "usize \<Rightarrow> u8 list \<Rightarrow> cachest \<Rightarrow> cachest" where
  "device_put n d st = st\<lparr>disk := (disk st)(n := d), wtrace := wtrace st @ [(n, d)]\<rparr>"

definition device_write :: "nat \<Rightarrow> cachest \<Rightarrow> cachest" where
  "device_write i st = device_put (block_no (bheap st i)) (bdata (bheap st i)) st"

definition log_block :: "cachest \<Rightarrow> nat \<Rightarrow> usize" where
  "log_block st t = ucast (log_start (sblock st)) + of_nat t + 1"

definition read_header :: "cachest \<Rightarrow> cachest" where
  "read_header st = st\<lparr>header := log_header_of (disk st (ucast (log_start (sblock st))))\<rparr>"

definition write_header :: "cachest \<Rightarrow> cachest" where
  "write_header st = device_put (ucast (log_start (sblock st))) (log_header_bytes (header st)) st"

definition init_block :: Block where
  "init_block = \<lparr>block_no = 0, acquired = False, pinned = False, locked = False, valid = False,
                 bdata = replicate BLOCK_SIZE 0\<rparr>"

section \<open>Acquire and release\<close>

definition get_num_cached_blocks :: "cachest \<Rightarrow> nat" where
  "get_num_cached_blocks st = length (head st)"

definition lock_block :: "nat \<Rightarrow> cachest \<Rightarrow> cachest option" where
  "lock_block i st = do { ASSERT (\<not> locked (bheap st i)); Some (upd_block i (\<lambda>b. b\<lparr>locked := True\<rparr>) st) }"

text \<open>
  \<open>cache_acquire\<close> is three steps, because the spin lock is given up before the sleep lock of the block is
  taken.  Under the spin lock it looks for the block in the list, or for one to reuse, or allocates one,
  and marks it as acquired; then it takes the sleep lock; then it reads the block, and a new block enters
  the list under the spin lock.
\<close>

datatype acquire_case = Hit | Reuse | New

definition acquire_look :: "usize \<Rightarrow> cachest \<Rightarrow> acquire_case \<times> nat \<times> cachest" where
  "acquire_look n st =
     (case find (\<lambda>i. block_no (bheap st i) = n) (head st) of
        Some i \<Rightarrow> (Hit, i, upd_block i (\<lambda>b. b\<lparr>acquired := True\<rparr>) st)
      | None \<Rightarrow>
          (case find (\<lambda>i. \<not> acquired (bheap st i) \<and> \<not> pinned (bheap st i)) (rev (head st)) of
             Some i \<Rightarrow> (Reuse, i, upd_block i (\<lambda>b. b\<lparr>block_no := n, acquired := True, valid := False\<rparr>) st)
           | None \<Rightarrow>
               (let i = bfresh st
                in (New, i, upd_block i (\<lambda>_. init_block\<lparr>block_no := n, acquired := True, valid := False\<rparr>)
                              (st\<lparr>bfresh := Suc i\<rparr>)))))"

definition acquire_fill :: "acquire_case \<Rightarrow> nat \<Rightarrow> cachest \<Rightarrow> cachest" where
  "acquire_fill a i st =
     (case a of
        Hit \<Rightarrow> if \<not> valid (bheap st i) \<and> \<not> pinned (bheap st i)
               then upd_block i (\<lambda>b. b\<lparr>valid := True\<rparr>) (device_read i st) else st
      | Reuse \<Rightarrow> upd_block i (\<lambda>b. b\<lparr>valid := True\<rparr>) (device_read i st)
      | New \<Rightarrow> (let st1 = upd_block i (\<lambda>b. b\<lparr>valid := True\<rparr>) (device_read i st)
                in st1\<lparr>head := head st1 @ [i]\<rparr>))"

text \<open>The three steps in a row, when no other thread runs in between.\<close>

definition cache_acquire :: "usize \<Rightarrow> cachest \<Rightarrow> (nat \<times> cachest) option" where
  "cache_acquire n st =
     (let (a, i, st1) = acquire_look n st
      in do { st2 \<leftarrow> lock_block i st1; Some (i, acquire_fill a i st2) })"

text \<open>\<open>cache_release\<close> is two: it gives up the sleep lock, and then, under the spin lock, the block.\<close>

definition release_lock :: "nat \<Rightarrow> cachest \<Rightarrow> cachest" where
  "release_lock i st = upd_block i (\<lambda>b. b\<lparr>locked := False\<rparr>) st"

definition release_list :: "nat \<Rightarrow> cachest \<Rightarrow> cachest" where
  "release_list i st =
     (let st1 = upd_block i (\<lambda>b. b\<lparr>acquired := False\<rparr>) st;
          st2 = st1\<lparr>head := remove1 i (head st1)\<rparr>
      in if \<not> pinned (bheap st2 i) \<and> get_num_cached_blocks st2 > EVICTION_THRESHOLD then st2
         else st2\<lparr>head := i # head st2\<rparr>)"

definition cache_release :: "nat \<Rightarrow> cachest \<Rightarrow> cachest" where
  "cache_release i st = release_list i (release_lock i st)"

lemma cache_acquire_cases:
  "cache_acquire n st =
     (case find (\<lambda>i. block_no (bheap st i) = n) (head st) of
        Some i \<Rightarrow>
          do { st1 \<leftarrow> lock_block i (upd_block i (\<lambda>b. b\<lparr>acquired := True\<rparr>) st);
               Some (i, if \<not> valid (bheap st1 i) \<and> \<not> pinned (bheap st1 i)
                        then upd_block i (\<lambda>b. b\<lparr>valid := True\<rparr>) (device_read i st1) else st1) }
      | None \<Rightarrow>
          (case find (\<lambda>i. \<not> acquired (bheap st i) \<and> \<not> pinned (bheap st i)) (rev (head st)) of
             Some i \<Rightarrow>
               do { st1 \<leftarrow> lock_block i (upd_block i (\<lambda>b. b\<lparr>block_no := n, acquired := True, valid := False\<rparr>) st);
                    Some (i, upd_block i (\<lambda>b. b\<lparr>valid := True\<rparr>) (device_read i st1)) }
           | None \<Rightarrow>
               do { let i = bfresh st;
                    let st0 = upd_block i (\<lambda>_. init_block\<lparr>block_no := n, acquired := True, valid := False\<rparr>)
                                (st\<lparr>bfresh := Suc i\<rparr>);
                    st1 \<leftarrow> lock_block i st0;
                    let st2 = upd_block i (\<lambda>b. b\<lparr>valid := True\<rparr>) (device_read i st1);
                    Some (i, st2\<lparr>head := head st2 @ [i]\<rparr>) }))"
  by (simp add: cache_acquire_def acquire_look_def acquire_fill_def Let_def split: option.split)

lemma cache_release_at_once:
  "cache_release i st =
     (let st1 = upd_block i (\<lambda>b. b\<lparr>locked := False, acquired := False\<rparr>) st;
          st2 = st1\<lparr>head := remove1 i (head st1)\<rparr>
      in if \<not> pinned (bheap st2 i) \<and> get_num_cached_blocks st2 > EVICTION_THRESHOLD then st2
         else st2\<lparr>head := i # head st2\<rparr>)"
  by (simp add: cache_release_def release_lock_def release_list_def upd_block_def get_num_cached_blocks_def Let_def)

text \<open>
  What may happen between the steps.  When a thread takes the sleep lock of a block after the holder gave
  it up and before the holder gives up the block, the holder's last step leaves it held but not marked as
  acquired, free to be reused for another number; and with more than 20 blocks left in the list it even
  frees it.
\<close>

theorem release_race:
  assumes "find (\<lambda>j. block_no (bheap st j) = n) (head st) = Some i" "valid (bheap st i)" "distinct (head st)"
  shows "\<exists>st1. cache_acquire n (release_lock i st) = Some (i, st1)
     \<and> locked (bheap (release_list i st1) i) \<and> \<not> acquired (bheap (release_list i st1) i)
     \<and> (\<not> pinned (bheap st i) \<and> EVICTION_THRESHOLD < length (remove1 i (head st)) \<longrightarrow> i \<notin> set (head (release_list i st1)))"
proof -
  let ?st1 = "upd_block i (\<lambda>b. b\<lparr>acquired := True, locked := True\<rparr>) st"
  have e: "(\<lambda>j. block_no (bheap (release_lock i st) j) = n) = (\<lambda>j. block_no (bheap st j) = n)"
    by (auto simp: release_lock_def upd_block_def)
  have "head (release_lock i st) = head st" by (simp add: release_lock_def upd_block_def)
  then have "cache_acquire n (release_lock i st) = Some (i, ?st1)"
    using assms(1,2) by (simp add: cache_acquire_cases e) (simp add: lock_block_def release_lock_def upd_block_def)
  moreover have "locked (bheap (release_list i ?st1) i)" "\<not> acquired (bheap (release_list i ?st1) i)"
    by (simp_all add: release_list_def upd_block_def Let_def)
  moreover have "i \<notin> set (head (release_list i ?st1))"
    if "\<not> pinned (bheap st i)" "EVICTION_THRESHOLD < length (remove1 i (head st))"
    using that assms(3) by (simp add: release_list_def upd_block_def Let_def get_num_cached_blocks_def set_remove1_eq)
  ultimately show ?thesis by blast
qed

text \<open>
  Two threads that ask for the same block, which is not in the list, while no block can be reused: each
  allocates one, because a new block enters the list only with the last step, and the list ends up with
  two blocks of one number.
\<close>

theorem acquire_race:
  assumes "\<forall>i\<in>set (head st). block_no (bheap st i) \<noteq> n \<and> (acquired (bheap st i) \<or> pinned (bheap st i))"
    and "bfresh st \<notin> set (head st)"
  shows "\<exists>i j st1 st2. acquire_look n st = (New, i, st1) \<and> acquire_look n st1 = (New, j, st2) \<and> i \<noteq> j
     \<and> (\<exists>st3 st4. lock_block i st2 = Some st3 \<and> lock_block j (acquire_fill New i st3) = Some st4
         \<and> (let st5 = acquire_fill New j st4 in head st5 = head st @ [i, j]
              \<and> block_no (bheap st5 i) = n \<and> block_no (bheap st5 j) = n))"
proof -
  let ?i = "bfresh st" and ?b = "init_block\<lparr>block_no := n, acquired := True, valid := False\<rparr>"
  let ?st1 = "upd_block ?i (\<lambda>_. ?b) (st\<lparr>bfresh := Suc ?i\<rparr>)"
  let ?st2 = "upd_block (Suc ?i) (\<lambda>_. ?b) (?st1\<lparr>bfresh := Suc (Suc ?i)\<rparr>)"
  have n: "find P xs = None" if "\<And>x. x \<in> set xs \<Longrightarrow> \<not> P x" for P and xs :: "nat list"
    using that by (simp add: find_None_iff)
  have l: "acquire_look n st = (New, ?i, ?st1)"
    using assms(1) n [of "head st"] n [of "rev (head st)"] by (simp add: acquire_look_def Let_def)
  have b: "bheap ?st1 k = bheap st k" if "k \<in> set (head st)" for k using that assms(2) by (auto simp: upd_block_def)
  have h: "head ?st1 = head st" "bfresh ?st1 = Suc ?i" by (simp_all add: upd_block_def)
  have "find (\<lambda>k. block_no (bheap ?st1 k) = n) (head ?st1) = None"
    by (rule n) (use assms(1) b h in force)
  moreover have "find (\<lambda>k. \<not> acquired (bheap ?st1 k) \<and> \<not> pinned (bheap ?st1 k)) (rev (head ?st1)) = None"
    by (rule n) (use assms(1) b h in force)
  ultimately have l2: "acquire_look n ?st1 = (New, Suc ?i, ?st2)"
    by (simp add: acquire_look_def Let_def h)
  show ?thesis
    using l l2 by (simp add: lock_block_def upd_block_def init_block_def acquire_fill_def device_read_def Let_def)
qed

section \<open>The log\<close>

text \<open>A loop over the entries of the log header; each round may stop the machine.\<close>

fun for_each :: "('i \<Rightarrow> 's \<Rightarrow> 's option) \<Rightarrow> 'i list \<Rightarrow> 's \<Rightarrow> 's option" where
  "for_each f [] s = Some s"
| "for_each f (i # is) s = f i s \<bind> for_each f is"

definition header_entry :: "nat \<Rightarrow> cachest \<Rightarrow> usize option" where
  "header_entry t st = (if t < length (lh_block_no (header st)) then Some (lh_block_no (header st) ! t) else None)"

text \<open>One round of \<open>recover_from_log\<close>: the log block goes to its home.\<close>

definition recover_round :: "nat \<Rightarrow> cachest \<Rightarrow> cachest option" where
  "recover_round t st =
     do { (from, st1) \<leftarrow> cache_acquire (log_block st t) st;
          n \<leftarrow> header_entry t st1;
          (to, st2) \<leftarrow> cache_acquire n st1;
          let st3 = upd_block to (\<lambda>b. b\<lparr>bdata := bdata (bheap st2 from)\<rparr>) st2;
          let st4 = device_write to st3;
          Some (cache_release to (cache_release from st4)) }"

definition recover_from_log :: "cachest \<Rightarrow> cachest option" where
  "recover_from_log st =
     do { st1 \<leftarrow> for_each recover_round [0..<unat (lh_num_blocks (header st))] st;
          Some (write_header (st1\<lparr>header := (header st1)\<lparr>lh_num_blocks := 0\<rparr>\<rparr>)) }"

definition init_bcache :: "SuperBlock \<Rightarrow> (usize \<Rightarrow> u8 list) \<Rightarrow> cachest option" where
  "init_bcache sb dv =
     recover_from_log (read_header
       \<lparr>sblock = sb, disk = dv, wtrace = [], bheap = (\<lambda>_. init_block),
        head = rev [0..<EVICTION_THRESHOLD], bfresh = EVICTION_THRESHOLD,
        header = \<lparr>lh_num_blocks = 0, lh_block_no = replicate LOG_MAX_SIZE 0\<rparr>,
        committing = False, outstanding = 0, log_lock = 1\<rparr>)"

text \<open>
  \<open>cache_begin_op\<close>.  A round that cannot start takes the semaphore \<open>log.lock\<close> and tries again; when
  its value is not positive the caller sleeps, and the first component of the result is
  \<^const>\<open>None\<close>.
\<close>

definition op_must_wait :: "cachest \<Rightarrow> bool" where
  "op_must_wait st \<longleftrightarrow> committing st
     \<or> int (unat (lh_num_blocks (header st))) + (outstanding st + 1) * int OP_MAX_NUM_BLOCKS > int LOG_MAX_SIZE"

function cache_begin_op :: "cachest \<Rightarrow> OpContext option \<times> cachest" where
  "cache_begin_op st =
     (if op_must_wait st
      then (let st1 = st\<lparr>log_lock := log_lock st - 1\<rparr>
            in if log_lock st1 \<ge> 0 then cache_begin_op st1 else (None, st1))
      else (Some \<lparr>rm = of_nat OP_MAX_NUM_BLOCKS\<rparr>, st\<lparr>outstanding := outstanding st + 1\<rparr>))"
  by pat_completeness auto

termination cache_begin_op
  by (relation "measure (\<lambda>st. nat (log_lock st))") auto

declare cache_begin_op.simps [simp del]

definition header_index :: "usize \<Rightarrow> cachest \<Rightarrow> nat" where
  "header_index n st = length (takeWhile (\<lambda>m. m \<noteq> n) (take (unat (lh_num_blocks (header st))) (lh_block_no (header st))))"

definition cache_sync :: "OpContext option \<Rightarrow> nat \<Rightarrow> cachest \<Rightarrow> (OpContext option \<times> cachest) option" where
  "cache_sync ctx i st =
     (case ctx of
        None \<Rightarrow> Some (None, device_write i st)
      | Some c \<Rightarrow>
          do { let st1 = upd_block i (\<lambda>b. b\<lparr>pinned := True\<rparr>) st;
               let k = header_index (block_no (bheap st1 i)) st1;
               ASSERT (k < LOG_MAX_SIZE);
               let st2 = st1\<lparr>header := (header st1)\<lparr>lh_block_no := (lh_block_no (header st1))[k := block_no (bheap st1 i)]\<rparr>\<rparr>;
               if of_nat k = lh_num_blocks (header st2)
               then do { ASSERT (rm c \<noteq> 0);
                         Some (Some (c\<lparr>rm := rm c - 1\<rparr>),
                               st2\<lparr>header := (header st2)\<lparr>lh_num_blocks := lh_num_blocks (header st2) + 1\<rparr>\<rparr>) }
               else Some (ctx, st2) })"

definition commit_log_round :: "nat \<Rightarrow> cachest \<Rightarrow> cachest option" where
  "commit_log_round t st =
     do { (to, st1) \<leftarrow> cache_acquire (log_block st t) st;
          n \<leftarrow> header_entry t st1;
          (from, st2) \<leftarrow> cache_acquire n st1;
          let st3 = upd_block to (\<lambda>b. b\<lparr>bdata := bdata (bheap st2 from)\<rparr>) st2;
          let st4 = device_write to st3;
          Some (cache_release to (cache_release from st4)) }"

definition commit_home_round :: "nat \<Rightarrow> cachest \<Rightarrow> cachest option" where
  "commit_home_round t st =
     do { (from, st1) \<leftarrow> cache_acquire (log_block st t) st;
          n \<leftarrow> header_entry t st1;
          (to, st2) \<leftarrow> cache_acquire n st1;
          let st3 = upd_block to (\<lambda>b. b\<lparr>bdata := bdata (bheap st2 from)\<rparr>) st2;
          let st4 = upd_block to (\<lambda>b. b\<lparr>pinned := False\<rparr>) (device_write to st3);
          Some (cache_release to (cache_release from st4)) }"

definition commit :: "cachest \<Rightarrow> cachest option" where
  "commit st =
     do { st1 \<leftarrow> for_each commit_log_round [0..<unat (lh_num_blocks (header st))] st;
          let st2 = write_header st1;
          st3 \<leftarrow> for_each commit_home_round [0..<unat (lh_num_blocks (header st2))] st2;
          Some (write_header (st3\<lparr>header := (header st3)\<lparr>lh_num_blocks := 0\<rparr>\<rparr>)) }"

text \<open>\<open>post_all_sem(&log.lock)\<close> leaves the value \<open>max 0 val\<close> (see \<open>Sem.post_all_loop_spec\<close>).\<close>

definition wake_log :: "cachest \<Rightarrow> cachest" where
  "wake_log st = st\<lparr>log_lock := max 0 (log_lock st)\<rparr>"

definition cache_end_op :: "OpContext option \<Rightarrow> cachest \<Rightarrow> cachest option" where
  "cache_end_op ctx st =
     do { ASSERT (ctx \<noteq> None);
          let st1 = st\<lparr>outstanding := outstanding st - 1\<rparr>;
          ASSERT (\<not> committing st1);
          if outstanding st1 = 0
          then do { st2 \<leftarrow> commit (st1\<lparr>committing := True\<rparr>);
                    Some (wake_log (st2\<lparr>committing := False\<rparr>)) }
          else Some (wake_log st1) }"

section \<open>The bitmap\<close>

definition bit_mask :: "nat \<Rightarrow> u8" where
  "bit_mask i = push_bit (i mod 8) 1"

definition find_free_bit :: "u8 list \<Rightarrow> nat \<Rightarrow> nat option" where
  "find_free_bit d lim = find (\<lambda>i. d ! (i div 8) AND bit_mask i = 0) [0..<min BIT_PER_BLOCK lim]"

fun cache_alloc_loop :: "OpContext option \<Rightarrow> nat list \<Rightarrow> cachest \<Rightarrow> (usize \<times> OpContext option \<times> cachest) option" where
  "cache_alloc_loop ctx [] st = PANIC"
| "cache_alloc_loop ctx (bi # bis) st =
     do { (b, st1) \<leftarrow> cache_acquire (of_nat bi) st;
          let base = (bi - unat (bitmap_start (sblock st))) * BIT_PER_BLOCK;
          case find_free_bit (bdata (bheap st1 b)) (unat (num_blocks (sblock st)) - base) of
            Some i \<Rightarrow>
              do { let st2 = upd_block b (\<lambda>b. b\<lparr>bdata := (bdata b)[i div 8 := bdata b ! (i div 8) OR bit_mask i]\<rparr>) st1;
                   (ctx1, st3) \<leftarrow> cache_sync ctx b st2;
                   (nb, st4) \<leftarrow> cache_acquire (of_nat (base + i)) (cache_release b st3);
                   let st5 = upd_block nb (\<lambda>b. b\<lparr>bdata := replicate BLOCK_SIZE 0\<rparr>) st4;
                   (ctx2, st6) \<leftarrow> cache_sync ctx1 nb st5;
                   Some (of_nat (base + i), ctx2, cache_release nb st6) }
          | None \<Rightarrow> cache_alloc_loop ctx bis (cache_release b st1) }"

definition cache_alloc :: "OpContext option \<Rightarrow> cachest \<Rightarrow> (usize \<times> OpContext option \<times> cachest) option" where
  "cache_alloc ctx st =
     cache_alloc_loop ctx [unat (bitmap_start (sblock st)) ..<
       unat (bitmap_start (sblock st) + 1 + num_blocks (sblock st) div of_nat BIT_PER_BLOCK)] st"

definition cache_free :: "OpContext option \<Rightarrow> usize \<Rightarrow> cachest \<Rightarrow> (OpContext option \<times> cachest) option" where
  "cache_free ctx n st =
     do { let bi = unat n mod BIT_PER_BLOCK;
          (b, st1) \<leftarrow> cache_acquire (ucast (bitmap_start (sblock st)) + n div of_nat BIT_PER_BLOCK) st;
          let st2 = upd_block b (\<lambda>b. b\<lparr>bdata := (bdata b)[bi div 8 := bdata b ! (bi div 8) AND NOT (bit_mask bi)]\<rparr>) st1;
          (ctx1, st3) \<leftarrow> cache_sync ctx b st2;
          Some (ctx1, cache_release b st3) }"

section \<open>The content a caller sees\<close>

text \<open>
  \<open>cview st n\<close> is what \<open>cache_acquire n\<close> hands out: the cached copy of block \<open>n\<close> or its content on
  the device.  Block 0, the boot record, is never acquired, so the unused structures, which carry
  the number 0, are told apart by it.
\<close>

definition cview :: "cachest \<Rightarrow> usize \<Rightarrow> u8 list" where
  "cview st n = (case find (\<lambda>i. block_no (bheap st i) = n \<and> valid (bheap st i)) (head st) of
     Some i \<Rightarrow> bdata (bheap st i) | None \<Rightarrow> disk st n)"

definition locked_nos :: "cachest \<Rightarrow> usize set" where
  "locked_nos st = {block_no (bheap st i) | i. i \<in> set (head st) \<and> locked (bheap st i)}"

definition pinned_nos :: "cachest \<Rightarrow> usize set" where
  "pinned_nos st = {block_no (bheap st i) | i. i \<in> set (head st) \<and> pinned (bheap st i)}"

abbreviation header_no :: "cachest \<Rightarrow> usize" where
  "header_no st \<equiv> ucast (log_start (sblock st))"

definition cache_inv :: "cachest \<Rightarrow> bool" where
  "cache_inv st \<longleftrightarrow>
     distinct (head st) \<and> (\<forall>i\<in>set (head st). i < bfresh st)
     \<and> (\<forall>i\<in>set (head st). \<forall>j\<in>set (head st). block_no (bheap st i) = block_no (bheap st j) \<longrightarrow>
           block_no (bheap st i) \<noteq> 0 \<longrightarrow> i = j)
     \<and> (\<forall>i\<in>set (head st). valid (bheap st i) = (block_no (bheap st i) \<noteq> 0))
     \<and> (\<forall>i\<in>set (head st). acquired (bheap st i) = locked (bheap st i))
     \<and> (\<forall>i\<in>set (head st). block_no (bheap st i) = 0 \<longrightarrow> \<not> locked (bheap st i) \<and> \<not> pinned (bheap st i))
     \<and> (\<forall>i\<in>set (head st). length (bdata (bheap st i)) = BLOCK_SIZE)
     \<and> (\<forall>n. length (disk st n) = BLOCK_SIZE)
     \<and> (\<forall>i\<in>set (head st). valid (bheap st i) \<longrightarrow> \<not> pinned (bheap st i) \<longrightarrow> \<not> locked (bheap st i) \<longrightarrow>
           bdata (bheap st i) = disk st (block_no (bheap st i)))
     \<and> (\<forall>i\<in>set (head st). block_no (bheap st i) \<noteq> 0 \<longrightarrow> block_no (bheap st i) \<noteq> header_no st)"

text \<open>Block \<open>i\<close> is held by the caller and carries number \<open>n\<close>.\<close>

definition holds :: "cachest \<Rightarrow> nat \<Rightarrow> usize \<Rightarrow> bool" where
  "holds st i n \<longleftrightarrow> i \<in> set (head st) \<and> block_no (bheap st i) = n \<and> n \<noteq> 0 \<and> locked (bheap st i)"

lemma cache_invD:
  assumes "cache_inv st"
  shows "distinct (head st)"
    and "i \<in> set (head st) \<Longrightarrow> i < bfresh st"
    and "i \<in> set (head st) \<Longrightarrow> j \<in> set (head st) \<Longrightarrow> block_no (bheap st i) = block_no (bheap st j) \<Longrightarrow>
           block_no (bheap st i) \<noteq> 0 \<Longrightarrow> i = j"
    and "i \<in> set (head st) \<Longrightarrow> valid (bheap st i) = (block_no (bheap st i) \<noteq> 0)"
    and "i \<in> set (head st) \<Longrightarrow> acquired (bheap st i) = locked (bheap st i)"
    and "i \<in> set (head st) \<Longrightarrow> block_no (bheap st i) = 0 \<Longrightarrow> \<not> locked (bheap st i) \<and> \<not> pinned (bheap st i)"
    and "i \<in> set (head st) \<Longrightarrow> length (bdata (bheap st i)) = BLOCK_SIZE"
    and "length (disk st n) = BLOCK_SIZE"
    and "i \<in> set (head st) \<Longrightarrow> valid (bheap st i) \<Longrightarrow> \<not> pinned (bheap st i) \<Longrightarrow> \<not> locked (bheap st i) \<Longrightarrow>
           bdata (bheap st i) = disk st (block_no (bheap st i))"
    and "i \<in> set (head st) \<Longrightarrow> block_no (bheap st i) \<noteq> 0 \<Longrightarrow> block_no (bheap st i) \<noteq> header_no st"
  using assms unfolding cache_inv_def by blast+

lemma find_Some_in: "find P xs = Some x \<Longrightarrow> x \<in> set xs \<and> P x"
  by (auto simp: find_Some_iff)

lemma find_eq_Some_unique:
  assumes "x \<in> set xs" "P x" "\<And>y. y \<in> set xs \<Longrightarrow> P y \<Longrightarrow> y = x"
  shows "find P xs = Some x"
proof (cases "find P xs")
  case None
  then show ?thesis using assms(1,2) by (auto simp: find_None_iff)
next
  case (Some y)
  then show ?thesis using find_Some_in [OF Some] assms(3) by blast
qed

lemma cview_cached:
  assumes "cache_inv st" "i \<in> set (head st)" "block_no (bheap st i) \<noteq> 0"
  shows "cview st (block_no (bheap st i)) = bdata (bheap st i)"
proof -
  have "find (\<lambda>j. block_no (bheap st j) = block_no (bheap st i) \<and> valid (bheap st j)) (head st) = Some i"
  proof (rule find_eq_Some_unique)
    show "i \<in> set (head st)" "block_no (bheap st i) = block_no (bheap st i) \<and> valid (bheap st i)"
      using assms(2,3) cache_invD(4) [OF assms(1)] by blast+
    show "y = i" if "y \<in> set (head st)" "block_no (bheap st y) = block_no (bheap st i) \<and> valid (bheap st y)" for y
      using that cache_invD(3) [OF assms(1) that(1) assms(2)] assms(3) by simp
  qed
  then show ?thesis by (simp add: cview_def)
qed

lemma cview_uncached:
  assumes "\<And>i. i \<in> set (head st) \<Longrightarrow> block_no (bheap st i) = n \<Longrightarrow> \<not> valid (bheap st i)"
  shows "cview st n = disk st n"
proof -
  have "find (\<lambda>j. block_no (bheap st j) = n \<and> valid (bheap st j)) (head st) = None"
    using assms by (auto simp: find_None_iff)
  then show ?thesis by (simp add: cview_def)
qed

text \<open>Two states show the same when every number is cached in both with the same data, or in neither.\<close>

lemma cview_eqI:
  assumes "cache_inv st" "cache_inv st'"
    and "\<And>i. i \<in> set (head st) \<Longrightarrow> block_no (bheap st i) \<noteq> 0 \<Longrightarrow>
       cview st' (block_no (bheap st i)) = bdata (bheap st i)"
    and "\<And>i. i \<in> set (head st') \<Longrightarrow> block_no (bheap st' i) \<noteq> 0 \<Longrightarrow>
       cview st (block_no (bheap st' i)) = bdata (bheap st' i)"
    and "disk st' = disk st"
  shows "cview st' = cview st"
proof
  fix n
  show "cview st' n = cview st n"
  proof (cases "\<exists>i\<in>set (head st). block_no (bheap st i) = n \<and> n \<noteq> 0")
    case True
    then obtain i where i: "i \<in> set (head st)" "block_no (bheap st i) = n" "n \<noteq> 0" by blast
    then show ?thesis using assms(3) [of i] cview_cached [OF assms(1) i(1)] by simp
  next
    case no: False
    show ?thesis
    proof (cases "\<exists>i\<in>set (head st'). block_no (bheap st' i) = n \<and> n \<noteq> 0")
      case True
      then obtain i where i: "i \<in> set (head st')" "block_no (bheap st' i) = n" "n \<noteq> 0" by blast
      then show ?thesis using assms(4) [of i] cview_cached [OF assms(2) i(1)] by simp
    next
      case False
      have "cview st n = disk st n" by (rule cview_uncached) (use no cache_invD(4) [OF assms(1)] in blast)
      moreover have "cview st' n = disk st' n" by (rule cview_uncached) (use False cache_invD(4) [OF assms(2)] in blast)
      ultimately show ?thesis using assms(5) by simp
    qed
  qed
qed

lemma upd_block_simps [simp]:
  "head (upd_block i f st) = head st" "bheap (upd_block i f st) = (bheap st)(i := f (bheap st i))"
  "disk (upd_block i f st) = disk st" "wtrace (upd_block i f st) = wtrace st" "sblock (upd_block i f st) = sblock st"
  "header (upd_block i f st) = header st" "bfresh (upd_block i f st) = bfresh st"
  "committing (upd_block i f st) = committing st" "outstanding (upd_block i f st) = outstanding st"
  "log_lock (upd_block i f st) = log_lock st"
  by (simp_all add: upd_block_def)

section \<open>What acquire does\<close>

text \<open>The state after an acquire: one structure taken, from the list or new, nothing else changed.\<close>

definition taken :: "cachest \<Rightarrow> usize \<Rightarrow> nat \<Rightarrow> bool \<Rightarrow> nat list \<Rightarrow> nat \<Rightarrow> cachest" where
  "taken st n i p h f = st\<lparr>bheap := (bheap st)(i := \<lparr>block_no = n, acquired = True, pinned = p, locked = True,
     valid = True, bdata = cview st n\<rparr>), head := h, bfresh := f\<rparr>"

definition takes :: "cachest \<Rightarrow> usize \<Rightarrow> nat \<Rightarrow> bool \<Rightarrow> nat list \<Rightarrow> nat \<Rightarrow> bool" where
  "takes st n i p h f \<longleftrightarrow>
     (i \<in> set (head st) \<and> h = head st \<and> f = bfresh st \<and> \<not> locked (bheap st i)
        \<and> (block_no (bheap st i) = n \<and> p = pinned (bheap st i) \<or> \<not> pinned (bheap st i) \<and> \<not> p)
      \<or> i = bfresh st \<and> i \<notin> set (head st) \<and> h = head st @ [i] \<and> f = Suc i \<and> \<not> p)
     \<and> (\<forall>j\<in>set (head st). block_no (bheap st j) = n \<longrightarrow> j = i)"

lemma block_eta:
  "valid b \<Longrightarrow> b\<lparr>acquired := True, locked := True\<rparr>
     = \<lparr>block_no = block_no b, acquired = True, pinned = pinned b, locked = True, valid = True, bdata = bdata b\<rparr>"
  by (cases b) simp

lemma cache_acquire_form:
  assumes inv: "cache_inv st" and n: "n \<noteq> 0" "n \<notin> locked_nos st"
  shows "\<exists>i p h f. cache_acquire n st = Some (i, taken st n i p h f) \<and> takes st n i p h f"
proof (cases "find (\<lambda>i. block_no (bheap st i) = n) (head st)")
  case (Some i)
  then have i: "i \<in> set (head st)" "block_no (bheap st i) = n" using find_Some_in [OF Some] by auto
  have l: "\<not> locked (bheap st i)" using n(2) i by (auto simp: locked_nos_def)
  have v: "valid (bheap st i)" using cache_invD(4) [OF inv i(1)] i n by simp
  have d: "cview st n = bdata (bheap st i)" using cview_cached [OF inv i(1)] i n by simp
  have e: "(bheap st i)\<lparr>acquired := True, locked := True\<rparr> = \<lparr>block_no = n, acquired = True,
      pinned = pinned (bheap st i), locked = True, valid = True, bdata = cview st n\<rparr>"
    using block_eta [OF v] unfolding d i(2) .
  have "cache_acquire n st = Some (i, taken st n i (pinned (bheap st i)) (head st) (bfresh st))"
    using Some l v by (simp add: cache_acquire_cases lock_block_def taken_def upd_block_def) (simp only: e)
  moreover have "takes st n i (pinned (bheap st i)) (head st) (bfresh st)"
    unfolding takes_def
  proof (intro conjI ballI impI disjI1)
    fix j assume "j \<in> set (head st)" "block_no (bheap st j) = n"
    then show "j = i" using cache_invD(3) [OF inv _ i(1)] i(2) n by simp
  qed (use i l in simp_all)
  ultimately show ?thesis by blast
next
  case none: None
  then have no: "\<forall>j\<in>set (head st). block_no (bheap st j) \<noteq> n" by (auto simp: find_None_iff)
  have d: "cview st n = disk st n" by (rule cview_uncached) (use no in blast)
  show ?thesis
  proof (cases "find (\<lambda>i. \<not> acquired (bheap st i) \<and> \<not> pinned (bheap st i)) (rev (head st))")
    case (Some i)
    then have i: "i \<in> set (head st)" "\<not> acquired (bheap st i)" "\<not> pinned (bheap st i)"
      using find_Some_in [OF Some] by auto
    have l: "\<not> locked (bheap st i)" using cache_invD(5) [OF inv i(1)] i by simp
    have e: "(bheap st i)\<lparr>block_no := n, acquired := True, locked := True, bdata := disk st n, valid := True\<rparr>
        = \<lparr>block_no = n, acquired = True, pinned = False, locked = True, valid = True, bdata = disk st n\<rparr>"
      using i(3) by (cases "bheap st i") simp
    have "cache_acquire n st = Some (i, taken st n i False (head st) (bfresh st))"
      using none Some l d
      by (simp add: cache_acquire_cases lock_block_def taken_def upd_block_def device_read_def) (simp only: e)
    moreover have "takes st n i False (head st) (bfresh st)"
      using i l no by (auto simp: takes_def)
    ultimately show ?thesis by blast
  next
    case None
    have "cache_acquire n st = Some (bfresh st, taken st n (bfresh st) False (head st @ [bfresh st]) (Suc (bfresh st)))"
      using none None d
      by (simp add: cache_acquire_cases lock_block_def taken_def upd_block_def device_read_def init_block_def Let_def)
    moreover have "takes st n (bfresh st) False (head st @ [bfresh st]) (Suc (bfresh st))"
      using no cache_invD(2) [OF inv, of "bfresh st"] unfolding takes_def by blast
    ultimately show ?thesis by blast
  qed
qed

lemma taken_simps [simp]:
  "head (taken st n i p h f) = h" "disk (taken st n i p h f) = disk st" "wtrace (taken st n i p h f) = wtrace st"
  "sblock (taken st n i p h f) = sblock st" "header (taken st n i p h f) = header st" "bfresh (taken st n i p h f) = f"
  "committing (taken st n i p h f) = committing st" "outstanding (taken st n i p h f) = outstanding st"
  "log_lock (taken st n i p h f) = log_lock st"
  "bheap (taken st n i p h f) = (bheap st)(i := \<lparr>block_no = n, acquired = True, pinned = p, locked = True,
     valid = True, bdata = cview st n\<rparr>)"
  by (simp_all add: taken_def)

lemma cview_length: "cache_inv st \<Longrightarrow> length (cview st n) = BLOCK_SIZE"
  using cache_invD(7,8) find_Some_in by (fastforce simp: cview_def split: option.splits)

lemma takes_head:
  assumes "takes st n i p h f" shows "set h = insert i (set (head st))"
  using assms by (auto simp: takes_def)

lemma taken_inv:
  assumes inv: "cache_inv st" and n: "n \<noteq> 0" and hn: "n \<noteq> header_no st" and t: "takes st n i p h f"
  shows "cache_inv (taken st n i p h f)"
proof -
  have h: "set h = insert i (set (head st))" by (rule takes_head [OF t])
  have only: "j = i" if "j \<in> set (head st)" "block_no (bheap st j) = n" for j
    using t that by (simp add: takes_def)
  have "\<forall>j\<in>set (head st). j < bfresh st" using cache_invD(2) [OF inv] by blast
  then have d: "distinct h \<and> (\<forall>j\<in>set h. j < f)"
    using t cache_invD(1) [OF inv] by (auto simp: takes_def less_Suc_eq)
  show ?thesis unfolding cache_inv_def
  proof (intro conjI ballI allI impI)
    show "distinct (head (taken st n i p h f))" using d by simp
    fix j k assume jk: "j \<in> set (head (taken st n i p h f))" "k \<in> set (head (taken st n i p h f))"
      "block_no (bheap (taken st n i p h f) j) = block_no (bheap (taken st n i p h f) k)"
      "block_no (bheap (taken st n i p h f) j) \<noteq> 0"
    then show "j = k" using cache_invD(3) [OF inv, of j k] h only by (cases "j = i"; cases "k = i") auto
  next
    fix j assume j: "j \<in> set (head (taken st n i p h f))"
    let ?b = "bheap (taken st n i p h f) j"
    show "j < bfresh (taken st n i p h f)" using j d by simp
    have c: "j = i \<or> j \<in> set (head st)" using j h by auto
    show "valid ?b = (block_no ?b \<noteq> 0)" using c cache_invD(4) [OF inv, of j] n by auto
    show "acquired ?b = locked ?b" using c cache_invD(5) [OF inv, of j] by auto
    show "length (bdata ?b) = BLOCK_SIZE" using c cache_invD(7) [OF inv, of j] cview_length [OF inv] by auto
    { assume "block_no ?b = 0"
      then show "\<not> locked ?b" "\<not> pinned ?b" using c cache_invD(6) [OF inv, of j] n by (auto split: if_splits) }
    { assume "block_no ?b \<noteq> 0"
      then show "block_no ?b \<noteq> header_no (taken st n i p h f)"
        using c cache_invD(10) [OF inv, of j] hn by (auto split: if_splits) }
    assume "valid ?b" "\<not> pinned ?b" "\<not> locked ?b"
    then show "bdata ?b = disk (taken st n i p h f) (block_no ?b)"
      using c cache_invD(9) [OF inv, of j] by (auto split: if_splits)
  next
    fix m show "length (disk (taken st n i p h f) m) = BLOCK_SIZE" using cache_invD(8) [OF inv] by simp
  qed
qed

lemma taken_view:
  assumes inv: "cache_inv st" and n: "n \<noteq> 0" and hn: "n \<noteq> header_no st" and t: "takes st n i p h f"
  shows "cview (taken st n i p h f) = cview st"
proof (rule cview_eqI [OF inv taken_inv [OF inv n hn t]])
  let ?t = "taken st n i p h f"
  note inv' = taken_inv [OF inv n hn t]
  have h: "set h = insert i (set (head st))" by (rule takes_head [OF t])
  fix j
  { assume j: "j \<in> set (head st)" "block_no (bheap st j) \<noteq> 0"
    show "cview ?t (block_no (bheap st j)) = bdata (bheap st j)"
    proof (cases "j = i")
      case False
      then show ?thesis using cview_cached [OF inv', of j] j h by simp
    next
      case True
      then have l: "\<not> locked (bheap st i)" using t j(1) cache_invD(2) [OF inv, of i] by (auto simp: takes_def)
      show ?thesis
      proof (cases "block_no (bheap st i) = n")
        case True
        then show ?thesis using cview_cached [OF inv', of i] h n \<open>j = i\<close> j cview_cached [OF inv, of i] by simp
      next
        case False
        then have "\<not> pinned (bheap st i)"
          using t j(1) \<open>j = i\<close> cache_invD(2) [OF inv, of i] by (auto simp: takes_def)
        then have d: "bdata (bheap st i) = disk st (block_no (bheap st i))"
          using cache_invD(4,9) [OF inv, of i] j \<open>j = i\<close> l by simp
        have "cview ?t (block_no (bheap st i)) = disk ?t (block_no (bheap st i))"
        proof (rule cview_uncached)
          fix k assume k: "k \<in> set (head ?t)" "block_no (bheap ?t k) = block_no (bheap st i)"
          then have "k \<noteq> i" using False by auto
          then have "k = i" using k h cache_invD(3) [OF inv, of k i] j \<open>j = i\<close> by auto
          with \<open>k \<noteq> i\<close> show "\<not> valid (bheap ?t k)" by simp
        qed
        then show ?thesis using d \<open>j = i\<close> by simp
      qed
    qed }
  { assume j: "j \<in> set (head ?t)" "block_no (bheap ?t j) \<noteq> 0"
    then show "cview st (block_no (bheap ?t j)) = bdata (bheap ?t j)"
      using cview_cached [OF inv, of j] h by (cases "j = i") auto }
qed simp

lemma taken_pinned:
  assumes inv: "cache_inv st" and t: "takes st n i p h f" shows "pinned_nos (taken st n i p h f) = pinned_nos st"
proof -
  have h: "set h = insert i (set (head st))" by (rule takes_head [OF t])
  have "i < bfresh st" if "i \<in> set (head st)" using cache_invD(2) [OF inv that] .
  then have i: "p \<longleftrightarrow> i \<in> set (head st) \<and> pinned (bheap st i)" "p \<Longrightarrow> block_no (bheap st i) = n"
    using t by (auto simp: takes_def)
  show ?thesis
    using i by (auto simp: pinned_nos_def h fun_upd_apply)
qed

lemma taken_locked:
  assumes inv: "cache_inv st" and t: "takes st n i p h f"
  shows "locked_nos (taken st n i p h f) = insert n (locked_nos st)"
proof -
  have h: "set h = insert i (set (head st))" by (rule takes_head [OF t])
  have "\<not> locked (bheap st i)" if "i \<in> set (head st)"
    using cache_invD(2) [OF inv that] t that by (auto simp: takes_def)
  then show ?thesis by (auto simp: locked_nos_def h fun_upd_apply) metis
qed

definition same_meta :: "cachest \<Rightarrow> cachest \<Rightarrow> bool" where
  "same_meta st st' \<longleftrightarrow> sblock st' = sblock st \<and> header st' = header st \<and> committing st' = committing st
     \<and> outstanding st' = outstanding st \<and> log_lock st' = log_lock st"

text \<open>Every block held before is still held, with the same content.\<close>

definition keeps :: "cachest \<Rightarrow> cachest \<Rightarrow> bool" where
  "keeps st st' \<longleftrightarrow> (\<forall>j m. holds st j m \<longrightarrow> holds st' j m \<and> bheap st' j = bheap st j)"

lemma cache_acquire_spec:
  assumes inv: "cache_inv st" and n: "n \<noteq> 0" "n \<notin> locked_nos st" and hn: "n \<noteq> header_no st"
  obtains i st' where "cache_acquire n st = Some (i, st')" "cache_inv st'" "holds st' i n"
    "bdata (bheap st' i) = cview st n" "cview st' = cview st" "disk st' = disk st" "wtrace st' = wtrace st"
    "same_meta st st'" "locked_nos st' = insert n (locked_nos st)" "pinned_nos st' = pinned_nos st" "keeps st st'"
    "\<And>j m. holds st j m \<Longrightarrow> j \<noteq> i"
proof -
  from cache_acquire_form [OF inv n] obtain i p h f where
    a: "cache_acquire n st = Some (i, taken st n i p h f)" and t: "takes st n i p h f" by blast
  have h: "set h = insert i (set (head st))" by (rule takes_head [OF t])
  have l: "\<not> locked (bheap st i)" if "i \<in> set (head st)"
    using cache_invD(2) [OF inv that] t that by (auto simp: takes_def)
  show thesis
  proof (rule that [OF a taken_inv [OF inv n(1) hn t]])
    show "holds (taken st n i p h f) i n" using h n by (simp add: holds_def)
    show "same_meta st (taken st n i p h f)" by (simp add: same_meta_def)
    show "keeps st (taken st n i p h f)" using h l by (auto simp: keeps_def holds_def)
    show "j \<noteq> i" if "holds st j m" for j m using that l by (auto simp: holds_def)
  qed (simp_all add: taken_view [OF inv n(1) hn t] taken_locked [OF inv t] taken_pinned [OF inv t])
qed

section \<open>Working on a held block\<close>

lemma holds_unique: "cache_inv st \<Longrightarrow> holds st i n \<Longrightarrow> j \<in> set (head st) \<Longrightarrow> block_no (bheap st j) = n \<Longrightarrow> j = i"
  using cache_invD(3) [of st j i] by (auto simp: holds_def)

lemma held_update:
  assumes inv: "cache_inv st" and h: "holds st i n" and len: "length (bdata b) = BLOCK_SIZE"
    and b: "block_no b = n" "acquired b" "locked b" "valid b"
  shows "cache_inv (upd_block i (\<lambda>_. b) st)" "cview (upd_block i (\<lambda>_. b) st) = (cview st)(n := bdata b)"
    "locked_nos (upd_block i (\<lambda>_. b) st) = locked_nos st" "holds (upd_block i (\<lambda>_. b) st) i n"
proof -
  let ?t = "upd_block i (\<lambda>_. b) st"
  have i: "i \<in> set (head st)" "block_no (bheap st i) = n" "n \<noteq> 0" "locked (bheap st i)" using h by (auto simp: holds_def)
  show "holds ?t i n" using i b by (simp add: holds_def)
  show "locked_nos ?t = locked_nos st" using i b by (auto simp: locked_nos_def)
  show inv': "cache_inv ?t" unfolding cache_inv_def
  proof (intro conjI ballI allI impI)
    show "distinct (head ?t)" using cache_invD(1) [OF inv] by simp
    fix j k assume jk: "j \<in> set (head ?t)" "k \<in> set (head ?t)" "block_no (bheap ?t j) = block_no (bheap ?t k)"
      "block_no (bheap ?t j) \<noteq> 0"
    then show "j = k" using cache_invD(3) [OF inv, of j k] i b by (auto split: if_splits)
  next
    fix j assume j: "j \<in> set (head ?t)"
    show "j < bfresh ?t" using j cache_invD(2) [OF inv] by simp
    show "valid (bheap ?t j) = (block_no (bheap ?t j) \<noteq> 0)" using j cache_invD(4) [OF inv, of j] b i by simp
    show "acquired (bheap ?t j) = locked (bheap ?t j)" using j cache_invD(5) [OF inv, of j] b by simp
    show "length (bdata (bheap ?t j)) = BLOCK_SIZE" using j cache_invD(7) [OF inv, of j] len by simp
    { assume "block_no (bheap ?t j) = 0"
      then show "\<not> locked (bheap ?t j)" "\<not> pinned (bheap ?t j)"
        using j cache_invD(6) [OF inv, of j] b i by (auto split: if_splits) }
    { assume "block_no (bheap ?t j) \<noteq> 0"
      then show "block_no (bheap ?t j) \<noteq> header_no ?t"
        using j cache_invD(10) [OF inv, of j] b i by (auto split: if_splits) }
    assume "valid (bheap ?t j)" "\<not> pinned (bheap ?t j)" "\<not> locked (bheap ?t j)"
    then show "bdata (bheap ?t j) = disk ?t (block_no (bheap ?t j))"
      using j b cache_invD(9) [OF inv, of j] by (auto split: if_splits)
  next
    fix m show "length (disk ?t m) = BLOCK_SIZE" using cache_invD(8) [OF inv] by simp
  qed
  show "cview ?t = (cview st)(n := bdata b)"
  proof
    fix m
    show "cview ?t m = ((cview st)(n := bdata b)) m"
    proof (cases "m = n")
      case True
      then show ?thesis using cview_cached [OF inv', of i] i b by simp
    next
      case False
      have "find (\<lambda>j. block_no (bheap ?t j) = m \<and> valid (bheap ?t j)) (head st)
          = find (\<lambda>j. block_no (bheap st j) = m \<and> valid (bheap st j)) (head st)"
        by (rule find_cong) (use False b i in auto)
      then show ?thesis using False b i by (auto simp: cview_def split: option.splits dest!: find_Some_in)
    qed
  qed
qed

lemma held_device_write:
  assumes inv: "cache_inv st" and h: "holds st i n"
  shows "cache_inv (device_write i st)" "cview (device_write i st) = cview st"
    "disk (device_write i st) = (disk st)(n := bdata (bheap st i))"
    "wtrace (device_write i st) = wtrace st @ [(n, bdata (bheap st i))]"
    "bheap (device_write i st) = bheap st" "head (device_write i st) = head st"
proof -
  let ?t = "device_write i st"
  have i: "i \<in> set (head st)" "block_no (bheap st i) = n" "n \<noteq> 0" "locked (bheap st i)" using h by (auto simp: holds_def)
  show d: "disk ?t = (disk st)(n := bdata (bheap st i))" "wtrace ?t = wtrace st @ [(n, bdata (bheap st i))]"
    and e: "bheap ?t = bheap st" "head ?t = head st"
    using i by (simp_all add: device_write_def device_put_def)
  have f: "bfresh ?t = bfresh st" by (simp add: device_write_def device_put_def)
  have "bdata (bheap st j) = disk ?t (block_no (bheap st j))"
    if "j \<in> set (head st)" "valid (bheap st j)" "\<not> pinned (bheap st j)" "\<not> locked (bheap st j)" for j
    using that cache_invD(9) [OF inv that] holds_unique [OF inv h that(1)] i by (auto simp: d)
  moreover have "sblock ?t = sblock st" by (simp add: device_write_def device_put_def)
  ultimately show "cache_inv ?t" using inv cache_invD(7) [OF inv i(1)] unfolding cache_inv_def e f
    by (simp add: d(1))
  show "cview ?t = cview st"
  proof
    fix m
    have v: "valid (bheap st i)" using cache_invD(4) [OF inv i(1)] i by simp
    show "cview ?t m = cview st m"
    proof (cases "m = n")
      case True
      have "find (\<lambda>j. block_no (bheap st j) = n \<and> valid (bheap st j)) (head st) = Some i"
      proof (rule find_eq_Some_unique)
        show "j = i" if "j \<in> set (head st)" "block_no (bheap st j) = n \<and> valid (bheap st j)" for j
          using holds_unique [OF inv h that(1)] that(2) by blast
      qed (use i v in simp_all)
      then show ?thesis using True by (simp add: cview_def e)
    next
      case False
      then show ?thesis by (simp add: cview_def e d(1) split: option.splits)
    qed
  qed
qed

lemma held_release:
  assumes inv: "cache_inv st" and h: "holds st i n"
    and clean: "pinned (bheap st i) \<or> bdata (bheap st i) = disk st n"
  shows "cache_inv (cache_release i st)" "cview (cache_release i st) = cview st"
    "locked_nos (cache_release i st) = locked_nos st - {n}" "pinned_nos (cache_release i st) = pinned_nos st"
    "disk (cache_release i st) = disk st" "wtrace (cache_release i st) = wtrace st"
    "same_meta st (cache_release i st)"
    "\<And>j m. holds st j m \<Longrightarrow> j \<noteq> i \<Longrightarrow> holds (cache_release i st) j m \<and> bheap (cache_release i st) j = bheap st j"
proof -
  let ?t = "cache_release i st"
  have i: "i \<in> set (head st)" "block_no (bheap st i) = n" "n \<noteq> 0" "locked (bheap st i)" using h by (auto simp: holds_def)
  have v: "valid (bheap st i)" using cache_invD(4) [OF inv i(1)] i by simp
  have bh: "bheap ?t = (bheap st)(i := (bheap st i)\<lparr>locked := False, acquired := False\<rparr>)"
    and rest: "disk ?t = disk st" "wtrace ?t = wtrace st" "bfresh ?t = bfresh st" "same_meta st ?t"
    by (simp_all add: cache_release_at_once Let_def same_meta_def)
  then show "disk ?t = disk st" "wtrace ?t = wtrace st" "same_meta st ?t" by simp_all
  have dist: "distinct (head ?t)" using cache_invD(1) [OF inv] by (simp add: cache_release_at_once Let_def)
  have sub: "j \<in> set (head st)" if "j \<in> set (head ?t)" for j
    using that i(1) set_remove1_subset [of i "head st"]
    by (auto simp: cache_release_at_once Let_def split: if_splits)
  have sup: "j \<in> set (head ?t)" if "j \<in> set (head st)" "j \<noteq> i \<or> pinned (bheap st i)" for j
    using that cache_invD(1) [OF inv] by (auto simp: cache_release_at_once Let_def set_remove1_eq)
  have uni: "j = i" if "j \<in> set (head st)" "block_no (bheap st j) = n" for j
    using holds_unique [OF inv h that] .
  have flds: "block_no (bheap ?t j) = block_no (bheap st j)" "valid (bheap ?t j) = valid (bheap st j)"
    "bdata (bheap ?t j) = bdata (bheap st j)" "pinned (bheap ?t j) = pinned (bheap st j)"
    "locked (bheap ?t j) = (locked (bheap st j) \<and> j \<noteq> i)" "acquired (bheap ?t j) = (acquired (bheap st j) \<and> j \<noteq> i)" for j
    by (simp_all add: bh)
  show inv': "cache_inv ?t" unfolding cache_inv_def
  proof (intro conjI ballI allI impI)
    show "distinct (head ?t)" by (rule dist)
    fix j k assume jk: "j \<in> set (head ?t)" "k \<in> set (head ?t)" "block_no (bheap ?t j) = block_no (bheap ?t k)"
      "block_no (bheap ?t j) \<noteq> 0"
    then show "j = k" using cache_invD(3) [OF inv, of j k] sub by (simp add: flds)
  next
    fix j assume j: "j \<in> set (head ?t)"
    note js = sub [OF j]
    show "j < bfresh ?t" using js cache_invD(2) [OF inv] rest by simp
    show "valid (bheap ?t j) = (block_no (bheap ?t j) \<noteq> 0)" using js cache_invD(4) [OF inv, of j] by (simp add: flds)
    show "acquired (bheap ?t j) = locked (bheap ?t j)" using js cache_invD(5) [OF inv, of j] by (simp add: flds)
    show "length (bdata (bheap ?t j)) = BLOCK_SIZE" using js cache_invD(7) [OF inv, of j] by (simp add: flds)
    { assume "block_no (bheap ?t j) = 0"
      then show "\<not> locked (bheap ?t j)" "\<not> pinned (bheap ?t j)"
        using js cache_invD(6) [OF inv, of j] by (simp_all add: flds) }
    { assume "block_no (bheap ?t j) \<noteq> 0"
      then show "block_no (bheap ?t j) \<noteq> header_no ?t"
        using js cache_invD(10) [OF inv, of j] rest(4) by (simp add: flds same_meta_def) }
    assume "valid (bheap ?t j)" "\<not> pinned (bheap ?t j)" "\<not> locked (bheap ?t j)"
    then show "bdata (bheap ?t j) = disk ?t (block_no (bheap ?t j))"
      using js cache_invD(9) [OF inv, of j] clean i by (cases "j = i") (simp_all add: flds rest)
  next
    fix m show "length (disk ?t m) = BLOCK_SIZE" using cache_invD(8) [OF inv] rest by simp
  qed
  show "cview ?t = cview st"
  proof (rule cview_eqI [OF inv inv'])
    fix j
    { assume j: "j \<in> set (head st)" "block_no (bheap st j) \<noteq> 0"
      show "cview ?t (block_no (bheap st j)) = bdata (bheap st j)"
      proof (cases "j \<in> set (head ?t)")
        case True
        then show ?thesis using cview_cached [OF inv', of j] j by (simp add: flds)
      next
        case False
        then have ji: "j = i" "\<not> pinned (bheap st i)" using sup [OF j(1)] by auto
        have "cview ?t n = disk ?t n"
          by (rule cview_uncached) (use sub uni False ji in \<open>auto simp: flds\<close>)
        then show ?thesis using ji clean i rest by simp
      qed }
    { assume "j \<in> set (head ?t)" "block_no (bheap ?t j) \<noteq> 0"
      then show "cview st (block_no (bheap ?t j)) = bdata (bheap ?t j)"
        using cview_cached [OF inv sub] by (simp add: flds) }
  qed (rule rest)
  show "locked_nos ?t = locked_nos st - {n}"
  proof (intro set_eqI iffI)
    fix m assume "m \<in> locked_nos ?t"
    then obtain j where "j \<in> set (head ?t)" "locked (bheap st j)" "j \<noteq> i" "m = block_no (bheap st j)"
      by (auto simp: locked_nos_def flds)
    then show "m \<in> locked_nos st - {n}" using sub uni by (auto simp: locked_nos_def)
  next
    fix m assume "m \<in> locked_nos st - {n}"
    then obtain j where "j \<in> set (head st)" "locked (bheap st j)" "j \<noteq> i" "m = block_no (bheap st j)"
      using i by (auto simp: locked_nos_def)
    then show "m \<in> locked_nos ?t" using sup by (auto simp: locked_nos_def flds)
  qed
  show "pinned_nos ?t = pinned_nos st"
  proof (intro set_eqI iffI)
    fix m assume "m \<in> pinned_nos ?t"
    then show "m \<in> pinned_nos st" using sub by (auto simp: pinned_nos_def flds)
  next
    fix m assume "m \<in> pinned_nos st"
    then obtain j where "j \<in> set (head st)" "pinned (bheap st j)" "m = block_no (bheap st j)" by (auto simp: pinned_nos_def)
    then show "m \<in> pinned_nos ?t" using sup [of j] by (auto simp: pinned_nos_def flds)
  qed
  show "holds ?t j m \<and> bheap ?t j = bheap st j" if "holds st j m" "j \<noteq> i" for j m
    using that sup [of j] by (auto simp: holds_def bh)
qed

end
