(* ===== verification/Log.thy ===== *)
theory Log
  imports Cache
begin

text \<open>
  Crash safety of the log of \<open>fs/cache.c\<close>.  A device write of one block is atomic and the writes
  reach the device in program order.  A crash during \<open>commit\<close> leaves the device after some prefix of
  the writes of \<open>commit\<close>; \<open>init_bcache\<close> then recovers.
\<close>

section \<open>Sequences of device writes\<close>

fun apply_writes :: "(usize \<Rightarrow> u8 list) \<Rightarrow> (usize \<times> u8 list) list \<Rightarrow> usize \<Rightarrow> u8 list" where
  "apply_writes D [] = D"
| "apply_writes D ((n, d) # ws) = apply_writes (D(n := d)) ws"

lemma apply_writes_append [simp]: "apply_writes D (xs @ ys) = apply_writes (apply_writes D xs) ys"
  by (induction xs arbitrary: D) (auto split: prod.splits)

lemma apply_writes_snoc: "apply_writes D (ws @ [(n, d)]) = (apply_writes D ws)(n := d)"
  by (simp add: fun_upd_def)

lemma apply_writes_other: "n \<notin> fst ` set ws \<Longrightarrow> apply_writes D ws n = D n"
  by (induction ws arbitrary: D) (auto split: prod.splits)

lemma apply_writes_map_upt:
  assumes "inj_on f {..<k}" "t < k" "k \<le> m"
  shows "apply_writes D (map (\<lambda>t. (f t, g t)) [0..<k]) (f t) = g t"
  using assms
proof (induction k)
  case (Suc k)
  show ?case
  proof (cases "t = k")
    case False
    then have "f t \<noteq> f k" using Suc.prems by (auto simp: inj_on_def)
    moreover have "inj_on f {..<k}" using Suc.prems(1) by (auto simp: inj_on_def)
    ultimately show ?thesis using Suc False by (auto simp: less_Suc_eq)
  qed simp
qed simp

lemma for_each_append: "for_each f (xs @ ys) s = for_each f xs s \<bind> for_each f ys"
  by (induction xs arbitrary: s) (auto simp: bind_assoc split: Option.bind_splits)

section \<open>Copying one block to another\<close>

lemma same_meta_trans: "same_meta a b \<Longrightarrow> same_meta b c \<Longrightarrow> same_meta a c"
  by (simp add: same_meta_def)

lemma cview_clean:
  assumes inv: "cache_inv st" and n: "n \<notin> pinned_nos st" "n \<notin> locked_nos st"
  shows "cview st n = disk st n"
proof (cases "\<exists>i\<in>set (head st). block_no (bheap st i) = n \<and> n \<noteq> 0")
  case True
  then obtain i where i: "i \<in> set (head st)" "block_no (bheap st i) = n" "n \<noteq> 0" by blast
  have "\<not> pinned (bheap st i)" "\<not> locked (bheap st i)" using n i by (auto simp: pinned_nos_def locked_nos_def)
  then show ?thesis using cview_cached [OF inv i(1)] cache_invD(4,9) [OF inv i(1)] i by simp
next
  case False
  show ?thesis by (rule cview_uncached) (use False cache_invD(4) [OF inv] in blast)
qed

lemma two_acquires:
  assumes inv: "cache_inv st" and a: "a \<noteq> 0" "a \<notin> locked_nos st" and b: "b \<noteq> 0" "b \<notin> locked_nos st" "a \<noteq> b"
    and hn: "a \<noteq> header_no st" "b \<noteq> header_no st"
  obtains i1 st1 i2 st2 where "cache_acquire a st = Some (i1, st1)" "cache_acquire b st1 = Some (i2, st2)"
    "header st1 = header st" "cache_inv st2" "holds st2 i1 a" "holds st2 i2 b" "i1 \<noteq> i2" "cview st2 = cview st" "disk st2 = disk st"
    "wtrace st2 = wtrace st" "same_meta st st2" "locked_nos st2 = insert a (insert b (locked_nos st))"
    "pinned_nos st2 = pinned_nos st"
    "bdata (bheap st2 i1) = cview st a" "bdata (bheap st2 i2) = cview st b"
proof -
  from cache_acquire_spec [OF inv a hn(1)] obtain i1 st1 where
    1: "cache_acquire a st = Some (i1, st1)" "cache_inv st1" "holds st1 i1 a" "bdata (bheap st1 i1) = cview st a"
      "cview st1 = cview st" "disk st1 = disk st" "wtrace st1 = wtrace st" "same_meta st st1"
      "locked_nos st1 = insert a (locked_nos st)" "pinned_nos st1 = pinned_nos st" by metis
  have "b \<notin> locked_nos st1" "b \<noteq> header_no st1" using 1 b hn by (simp_all add: same_meta_def)
  from cache_acquire_spec [OF 1(2) b(1) this] obtain i2 st2 where
    2: "cache_acquire b st1 = Some (i2, st2)" "cache_inv st2" "holds st2 i2 b" "bdata (bheap st2 i2) = cview st1 b"
      "cview st2 = cview st1" "disk st2 = disk st1" "wtrace st2 = wtrace st1" "same_meta st1 st2"
      "locked_nos st2 = insert b (locked_nos st1)" "pinned_nos st2 = pinned_nos st1" "keeps st1 st2"
      "\<And>j m. holds st1 j m \<Longrightarrow> j \<noteq> i2" by metis
  have k: "holds st2 i1 a" "bheap st2 i1 = bheap st1 i1" using 1(3) 2(11) by (auto simp: keeps_def)
  show thesis
    by (rule that [OF 1(1) 2(1) _ 2(2) k(1) 2(3) 2(12) [OF 1(3)]])
      (use 1 2 k same_meta_trans in \<open>auto simp: same_meta_def\<close>)
qed

text \<open>The part all three loops share: copy, write, optionally unpin, release both.\<close>

definition copy_tail :: "bool \<Rightarrow> nat \<Rightarrow> nat \<Rightarrow> cachest \<Rightarrow> cachest" where
  "copy_tail unpin to from st =
     (let st1 = device_write to (upd_block to (\<lambda>b. b\<lparr>bdata := bdata (bheap st from)\<rparr>) st);
          st2 = (if unpin then upd_block to (\<lambda>b. b\<lparr>pinned := False\<rparr>) st1 else st1)
      in cache_release to (cache_release from st2))"

lemma pinned_nos_mem: "m \<in> pinned_nos st \<longleftrightarrow> (\<exists>i\<in>set (head st). pinned (bheap st i) \<and> block_no (bheap st i) = m)"
  unfolding pinned_nos_def by blast

lemma pinned_nos_iff:
  assumes "cache_inv st" "holds st i n" shows "n \<in> pinned_nos st \<longleftrightarrow> pinned (bheap st i)"
proof
  assume "n \<in> pinned_nos st"
  then obtain j where j: "j \<in> set (head st)" "block_no (bheap st j) = n" "pinned (bheap st j)"
    unfolding pinned_nos_def by blast
  with holds_unique [OF assms j(1,2)] show "pinned (bheap st i)" by simp
next
  assume "pinned (bheap st i)"
  with assms(2) show "n \<in> pinned_nos st" unfolding pinned_nos_def holds_def by blast
qed

lemma upd_pinned_nos:
  assumes inv: "cache_inv st" and h: "holds st i n" and b: "block_no b = n"
  shows "pinned_nos (upd_block i (\<lambda>_. b) st) = (if pinned b then insert n (pinned_nos st) else pinned_nos st - {n})"
    (is "pinned_nos ?t = ?r")
proof (rule set_eqI)
  fix m
  have i: "i \<in> set (head st)" "block_no (bheap st i) = n" using h by (auto simp: holds_def)
  show "m \<in> pinned_nos ?t \<longleftrightarrow> m \<in> ?r"
  proof (cases "m = n")
    case True
    have "j = i" if "j \<in> set (head st)" "block_no (bheap ?t j) = n" for j
    proof (rule ccontr)
      assume "j \<noteq> i"
      then show False using that(2) holds_unique [OF inv h that(1)] by simp
    qed
    note only = this
    have "pinned b" if "n \<in> pinned_nos ?t"
    proof -
      from that obtain j where j: "j \<in> set (head st)" "pinned (bheap ?t j)" "block_no (bheap ?t j) = n"
        unfolding pinned_nos_mem upd_block_simps(1) by blast
      then have "j = i" using only by blast
      then show ?thesis using j(2) by simp
    qed
    moreover have "pinned b \<Longrightarrow> n \<in> pinned_nos ?t" using i b unfolding pinned_nos_mem by (intro bexI [of _ i]) auto
    ultimately show ?thesis using True by auto
  next
    case False
    have "m \<in> pinned_nos ?t \<longleftrightarrow> m \<in> pinned_nos st" unfolding pinned_nos_mem
    proof (rule bex_cong)
      show "(pinned (bheap ?t j) \<and> block_no (bheap ?t j) = m) = (pinned (bheap st j) \<and> block_no (bheap st j) = m)" for j
        using False i b by (cases "j = i") simp_all
    qed simp
    then show ?thesis using False by simp
  qed
qed

lemma holds_frame: "head st' = head st \<Longrightarrow> bheap st' = bheap st \<Longrightarrow> holds st' i n = holds st i n"
  by (simp add: holds_def)

lemma copy_tail_spec:
  fixes u :: bool
  assumes inv: "cache_inv st" and to: "holds st to d" and fr: "holds st from s" and ne: "to \<noteq> from" "d \<noteq> s"
    and clean: "pinned (bheap st from) \<or> bdata (bheap st from) = disk st s"
  defines "t \<equiv> copy_tail u to from st" and "x \<equiv> bdata (bheap st from)"
  shows "cache_inv t" "cview t = (cview st)(d := x)" "disk t = (disk st)(d := x)" "wtrace t = wtrace st @ [(d, x)]"
    "same_meta st t" "locked_nos t = locked_nos st - {s, d}"
    "pinned_nos t = (if u then pinned_nos st - {d} else pinned_nos st)"
proof -
  let ?b1 = "(bheap st to)\<lparr>bdata := x\<rparr>"
  let ?st1 = "upd_block to (\<lambda>_. ?b1) st"
  have toi: "to \<in> set (head st)" "block_no (bheap st to) = d" "locked (bheap st to)" "d \<noteq> 0" using to by (auto simp: holds_def)
  have av: "acquired (bheap st to)" "valid (bheap st to)" using cache_invD(4,5) [OF inv toi(1)] toi by auto
  have fi: "from \<in> set (head st)" "block_no (bheap st from) = s" using fr by (auto simp: holds_def)
  have len: "length x = BLOCK_SIZE" using cache_invD(7) [OF inv fi(1)] by (simp add: x_def)
  have "length (bdata ?b1) = BLOCK_SIZE" "block_no ?b1 = d" "acquired ?b1" "locked ?b1" "valid ?b1"
    using toi av len by simp_all
  note h1 = held_update [OF inv to this]
  have p1: "pinned_nos ?st1 = pinned_nos st"
  proof -
    note pinned_nos_iff [OF inv to]
    then show ?thesis using upd_pinned_nos [OF inv to, of ?b1] toi by auto
  qed
  let ?st2 = "device_write to ?st1"
  note h2 = held_device_write [OF h1(1) h1(4)]
  have m2: "same_meta st ?st2" by (simp add: same_meta_def device_write_def device_put_def)
  have ho2: "holds ?st2 to d" by (simp add: holds_def h2 toi)
  define b3 where "b3 = (if u then ?b1\<lparr>pinned := False\<rparr> else ?b1)"
  define st3 where "st3 = upd_block to (\<lambda>_. b3) ?st2"
  have b3: "length (bdata b3) = BLOCK_SIZE" "block_no b3 = d" "acquired b3" "locked b3" "valid b3" "bdata b3 = x"
    using toi av len by (simp_all add: b3_def)
  note h3 = held_update [OF h2(1) ho2 b3(1-5), folded st3_def]
  have p3: "pinned_nos st3 = (if u then pinned_nos st - {d} else pinned_nos st)"
  proof -
    have "pinned_nos ?st2 = pinned_nos st" "pinned b3 \<longleftrightarrow> \<not> u \<and> pinned (bheap st to)"
      using p1 by (simp_all add: pinned_nos_def h2 b3_def)
    moreover note pinned_nos_iff [OF inv to]
    ultimately show ?thesis using upd_pinned_nos [OF h2(1) ho2 b3(2), folded st3_def] by auto
  qed
  have f3: "bheap st3 from = bheap st from" "holds st3 from s"
    using ne fr by (simp_all add: st3_def h2 holds_def)
  have "pinned (bheap st3 from) \<or> bdata (bheap st3 from) = disk st3 s"
    using clean ne(2) f3(1) by (simp add: st3_def h2)
  note h4 = held_release [OF h3(1) f3(2) this]
  let ?st4 = "cache_release from st3"
  have t4: "holds ?st4 to d" "bheap ?st4 to = b3" using h4(8) [OF h3(4) ne(1)] by (simp_all add: st3_def)
  have "disk ?st4 d = x" using h4(5) by (simp add: st3_def h2)
  then have "pinned (bheap ?st4 to) \<or> bdata (bheap ?st4 to) = disk ?st4 d"
    by (simp only: t4(2) b3(6) simp_thms)
  note h5 = held_release [OF h4(1) t4(1) this]
  have "t = cache_release to ?st4"
  proof -
    have "(if u then upd_block to (\<lambda>b. b\<lparr>pinned := False\<rparr>) ?st2 else ?st2) = st3"
      by (auto simp: st3_def b3_def upd_block_def device_write_def device_put_def)
    moreover have "upd_block to (\<lambda>b. b\<lparr>bdata := bdata (bheap st from)\<rparr>) st = ?st1"
      by (simp add: upd_block_def x_def)
    ultimately show ?thesis unfolding t_def copy_tail_def Let_def by (simp only:)
  qed
  note t = this
  show "cache_inv t" unfolding t by (rule h5)
  show "cview t = (cview st)(d := x)" using h5(2) h4(2) h3(2) h2(2) h1(2) b3(6) by (simp add: t)
  show "disk t = (disk st)(d := x)" using h5(5) h4(5) h2(3) by (simp add: t st3_def)
  show "wtrace t = wtrace st @ [(d, x)]" using h5(6) h4(6) h2(4) by (simp add: t st3_def)
  show "locked_nos t = locked_nos st - {s, d}"
    using h5(3) h4(3) h3(3) h1(3) by (auto simp: t locked_nos_def [of ?st2] h2 locked_nos_def [of ?st1])
  show "pinned_nos t = (if u then pinned_nos st - {d} else pinned_nos st)" using h5(4) h4(4) p3 by (simp add: t)
  have "same_meta st st3" using m2 by (simp add: same_meta_def st3_def)
  then show "same_meta st t" using h5(7) h4(7) same_meta_trans t by metis
qed

section \<open>The log area\<close>

definition log_nos :: "SuperBlock \<Rightarrow> usize set" where
  "log_nos sb = (\<lambda>k. ucast (log_start sb) + of_nat k) ` {..LOG_MAX_SIZE}"

definition log_entries :: "LogHeader \<Rightarrow> usize list" where
  "log_entries h = take (unat (lh_num_blocks h)) (lh_block_no h)"

text \<open>
  A header whose entries are distinct home blocks outside the log, and a log that does not start at
  the boot record.
\<close>

definition wf_header :: "SuperBlock \<Rightarrow> LogHeader \<Rightarrow> bool" where
  "wf_header sb h \<longleftrightarrow> log_start sb \<noteq> 0 \<and> length (lh_block_no h) = LOG_MAX_SIZE \<and> unat (lh_num_blocks h) \<le> LOG_MAX_SIZE
     \<and> distinct (log_entries h) \<and> 0 \<notin> set (log_entries h) \<and> set (log_entries h) \<inter> log_nos sb = {}"

lemma log_area_inj:
  assumes "i \<le> LOG_MAX_SIZE" "j \<le> LOG_MAX_SIZE"
  shows "(ucast (log_start sb) + of_nat i :: usize) = ucast (log_start sb) + of_nat j \<longleftrightarrow> i = j"
  using assms by (intro word_add_offset_eq_iff) (simp_all add: fs_sizes)

lemma log_area_nonzero:
  assumes "log_start sb \<noteq> 0" "k \<le> LOG_MAX_SIZE"
  shows "(ucast (log_start sb) + of_nat k :: usize) \<noteq> 0"
proof -
  have u: "unat (ucast (log_start sb) :: usize) = unat (log_start sb)"
    by simp
  have k: "k \<le> 63" using assms(2) by (simp add: fs_sizes)
  have "unat (log_start sb) + k < 18446744073709551616"
    using unat_u32_less [of "log_start sb"] k by linarith
  then have "unat (ucast (log_start sb) + of_nat k :: usize) = unat (log_start sb) + k"
    using k by (subst unat_add_no_wrap) (simp_all add: u unat_of_nat_u64)
  moreover have "0 < unat (log_start sb)" using assms(1) by (simp add: unat_gt_0)
  ultimately show ?thesis by (metis add_gr_0 unsigned_0 less_irrefl)
qed

lemma log_block_area: "log_block st t = ucast (log_start (sblock st)) + of_nat (Suc t)"
  by (simp add: log_block_def ac_simps)

lemma log_block_props:
  assumes "log_start (sblock st) \<noteq> 0" "t < LOG_MAX_SIZE"
  shows "log_block st t \<noteq> 0" "log_block st t \<in> log_nos (sblock st)" "log_block st t \<noteq> ucast (log_start (sblock st))"
    "t' < LOG_MAX_SIZE \<Longrightarrow> log_block st t = log_block st t' \<longleftrightarrow> t = t'"
proof -
  show "log_block st t \<noteq> 0" unfolding log_block_area by (rule log_area_nonzero) (use assms in auto)
  show "log_block st t \<in> log_nos (sblock st)" unfolding log_block_area log_nos_def using assms by (intro imageI) simp
  show "log_block st t \<noteq> ucast (log_start (sblock st))"
    using log_area_inj [of "Suc t" 0 "sblock st"] assms(2) by (simp add: log_block_area)
  show "log_block st t = log_block st t' \<longleftrightarrow> t = t'" if "t' < LOG_MAX_SIZE"
    using log_area_inj [of "Suc t" "Suc t'" "sblock st"] assms(2) that by (simp add: log_block_area)
qed

lemma wf_headerD:
  assumes "wf_header (sblock st) (header st)" "t < unat (lh_num_blocks (header st))"
  shows "t < LOG_MAX_SIZE" "t < length (lh_block_no (header st))" "lh_block_no (header st) ! t \<in> set (log_entries (header st))"
    "lh_block_no (header st) ! t \<noteq> 0" "lh_block_no (header st) ! t \<notin> log_nos (sblock st)"
    "log_start (sblock st) \<noteq> 0"
proof -
  show *: "t < LOG_MAX_SIZE" "t < length (lh_block_no (header st))" "log_start (sblock st) \<noteq> 0"
    using assms unfolding wf_header_def by linarith+
  have "take (unat (lh_num_blocks (header st))) (lh_block_no (header st)) ! t
      \<in> set (take (unat (lh_num_blocks (header st))) (lh_block_no (header st)))"
    by (rule nth_mem) (use * assms(2) in simp)
  then show e: "lh_block_no (header st) ! t \<in> set (log_entries (header st))"
    using assms(2) by (simp add: log_entries_def)
  have w: "0 \<notin> set (log_entries (header st))" "set (log_entries (header st)) \<inter> log_nos (sblock st) = {}"
    using assms(1) unfolding wf_header_def by simp_all
  show "lh_block_no (header st) ! t \<noteq> 0" using e w(1) by metis
  show "lh_block_no (header st) ! t \<notin> log_nos (sblock st)" using e w(2) by blast
qed

section \<open>One round of each loop\<close>

lemma acquired_clean:
  assumes "cache_inv st" "locked_nos st = {}" "cache_inv st2" "holds st2 i s" "bdata (bheap st2 i) = cview st s"
    "pinned_nos st2 = pinned_nos st" "disk st2 = disk st"
  shows "pinned (bheap st2 i) \<or> bdata (bheap st2 i) = disk st2 s"
  using pinned_nos_iff [OF assms(3,4)] cview_clean [OF assms(1), of s] assms by auto

lemma copy_rounds:
  assumes inv: "cache_inv st" and wf: "wf_header (sblock st) (header st)" and t: "t < unat (lh_num_blocks (header st))"
    and free: "locked_nos st = {}"
  defines "l \<equiv> log_block st t" and "e \<equiv> lh_block_no (header st) ! t"
  shows "\<exists>st'. commit_log_round t st = Some st' \<and> cache_inv st' \<and> locked_nos st' = {} \<and> same_meta st st'
      \<and> pinned_nos st' = pinned_nos st \<and> cview st' = (cview st)(l := cview st e)
      \<and> disk st' = (disk st)(l := cview st e) \<and> wtrace st' = wtrace st @ [(l, cview st e)]"
    "\<exists>st'. recover_round t st = Some st' \<and> cache_inv st' \<and> locked_nos st' = {} \<and> same_meta st st'
      \<and> pinned_nos st' = pinned_nos st \<and> cview st' = (cview st)(e := cview st l)
      \<and> disk st' = (disk st)(e := cview st l) \<and> wtrace st' = wtrace st @ [(e, cview st l)]"
    "\<exists>st'. commit_home_round t st = Some st' \<and> cache_inv st' \<and> locked_nos st' = {} \<and> same_meta st st'
      \<and> pinned_nos st' = pinned_nos st - {e} \<and> cview st' = (cview st)(e := cview st l)
      \<and> disk st' = (disk st)(e := cview st l) \<and> wtrace st' = wtrace st @ [(e, cview st l)]"
proof -
  note wd = wf_headerD [OF wf t]
  note lp = log_block_props [OF wd(6,1)]
  have le: "l \<noteq> e" "l \<noteq> 0" "e \<noteq> 0" using lp wd by (auto simp: l_def e_def)
  have ll: "l \<notin> locked_nos st" "e \<notin> locked_nos st" using free by auto
  have "header_no st \<in> log_nos (sblock st)" unfolding log_nos_def by (rule image_eqI [of _ _ 0]) simp_all
  then have hn: "l \<noteq> header_no st" "e \<noteq> header_no st" using lp(3) wd(5) by (auto simp: l_def e_def)
  from two_acquires [OF inv le(2) ll(1) le(3) ll(2) le(1) hn] obtain i1 st1 i2 st2 where
    a: "cache_acquire l st = Some (i1, st1)" "cache_acquire e st1 = Some (i2, st2)"
    and hd: "header st1 = header st"
    and s2: "cache_inv st2" "holds st2 i1 l" "holds st2 i2 e" "i1 \<noteq> i2" "cview st2 = cview st" "disk st2 = disk st"
      "wtrace st2 = wtrace st" "same_meta st st2" "locked_nos st2 = insert l (insert e (locked_nos st))"
      "pinned_nos st2 = pinned_nos st" "bdata (bheap st2 i1) = cview st l" "bdata (bheap st2 i2) = cview st e" by metis
  have he: "header_entry t st1 = Some e" using wd hd by (simp add: header_entry_def e_def)
  have c1: "pinned (bheap st2 i1) \<or> bdata (bheap st2 i1) = disk st2 l"
    by (rule acquired_clean [OF inv free s2(1,2,11,10,6)])
  have c2: "pinned (bheap st2 i2) \<or> bdata (bheap st2 i2) = disk st2 e"
    by (rule acquired_clean [OF inv free s2(1,3,12,10,6)])
  note lfold = l_def [symmetric]
  have r1: "commit_log_round t st = Some (copy_tail False i1 i2 st2)"
    and r2: "recover_round t st = Some (copy_tail False i2 i1 st2)"
    and r3: "commit_home_round t st = Some (copy_tail True i2 i1 st2)"
    using a he by (simp_all add: commit_log_round_def recover_round_def commit_home_round_def lfold copy_tail_def Let_def)
  note q1 = copy_tail_spec [OF s2(1-4) le(1) c2, of False, unfolded s2]
  note q2 = copy_tail_spec [OF s2(1,3,2) s2(4) [symmetric] le(1) [symmetric] c1, unfolded s2]
  have lk: "insert l (insert e (locked_nos st)) - {e, l} = {}" "insert l (insert e (locked_nos st)) - {l, e} = {}"
    using free by auto
  show "\<exists>st'. commit_log_round t st = Some st' \<and> cache_inv st' \<and> locked_nos st' = {} \<and> same_meta st st'
      \<and> pinned_nos st' = pinned_nos st \<and> cview st' = (cview st)(l := cview st e)
      \<and> disk st' = (disk st)(l := cview st e) \<and> wtrace st' = wtrace st @ [(l, cview st e)]"
    using q1 lk same_meta_trans [OF s2(8)] by (intro exI [of _ "copy_tail False i1 i2 st2"] conjI r1) simp_all
  show "\<exists>st'. recover_round t st = Some st' \<and> cache_inv st' \<and> locked_nos st' = {} \<and> same_meta st st'
      \<and> pinned_nos st' = pinned_nos st \<and> cview st' = (cview st)(e := cview st l)
      \<and> disk st' = (disk st)(e := cview st l) \<and> wtrace st' = wtrace st @ [(e, cview st l)]"
    using q2 [of False] lk same_meta_trans [OF s2(8)] by (intro exI [of _ "copy_tail False i2 i1 st2"] conjI r2) simp_all
  show "\<exists>st'. commit_home_round t st = Some st' \<and> cache_inv st' \<and> locked_nos st' = {} \<and> same_meta st st'
      \<and> pinned_nos st' = pinned_nos st - {e} \<and> cview st' = (cview st)(e := cview st l)
      \<and> disk st' = (disk st)(e := cview st l) \<and> wtrace st' = wtrace st @ [(e, cview st l)]"
    using q2 [of True] lk same_meta_trans [OF s2(8)] by (intro exI [of _ "copy_tail True i2 i1 st2"] conjI r3) simp_all
qed

section \<open>The loops\<close>

definition idle_cache :: "cachest \<Rightarrow> bool" where
  "idle_cache st \<longleftrightarrow> cache_inv st \<and> locked_nos st = {}"

definition copies :: "(nat \<Rightarrow> usize) \<Rightarrow> (nat \<Rightarrow> usize) \<Rightarrow> (usize \<Rightarrow> u8 list) \<Rightarrow> nat \<Rightarrow> (usize \<times> u8 list) list" where
  "copies dst src V k = map (\<lambda>t. (dst t, V (src t))) [0..<k]"

lemma copies_Suc [simp]: "copies dst src V (Suc k) = copies dst src V k @ [(dst k, V (src k))]"
  and copies_0 [simp]: "copies dst src V 0 = []"
  by (simp_all add: copies_def)

lemma copies_dom: "fst ` set (copies dst src V k) = dst ` {..<k}"
  by (simp add: copies_def image_image atLeast0LessThan)

lemma copies_apply:
  assumes "inj_on dst {..<k}" "t < k" shows "apply_writes D (copies dst src V k) (dst t) = V (src t)"
  using apply_writes_map_upt [OF assms le_refl] by (simp add: copies_def)

lemma copy_loop:
  assumes round: "\<And>t s. t < n \<Longrightarrow> idle_cache s \<Longrightarrow> same_meta st s \<Longrightarrow>
      \<exists>s'. f t s = Some s' \<and> idle_cache s' \<and> same_meta s s' \<and> pinned_nos s' = pinned_nos s - Z t
        \<and> cview s' = (cview s)(dst t := cview s (src t)) \<and> disk s' = (disk s)(dst t := cview s (src t))
        \<and> wtrace s' = wtrace s @ [(dst t, cview s (src t))]"
    and disj: "\<And>t t'. t < n \<Longrightarrow> t' < n \<Longrightarrow> src t \<noteq> dst t'"
    and st: "idle_cache st"
  shows "k \<le> n \<Longrightarrow> \<exists>s'. for_each f [0..<k] st = Some s' \<and> idle_cache s' \<and> same_meta st s'
     \<and> pinned_nos s' = pinned_nos st - (\<Union>t<k. Z t)
     \<and> cview s' = apply_writes (cview st) (copies dst src (cview st) k)
     \<and> disk s' = apply_writes (disk st) (copies dst src (cview st) k)
     \<and> wtrace s' = wtrace st @ copies dst src (cview st) k"
proof (induction k)
  case 0
  then show ?case using st by (simp add: same_meta_def)
next
  case (Suc k)
  then obtain s where s: "for_each f [0..<k] st = Some s" "idle_cache s" "same_meta st s"
    "pinned_nos s = pinned_nos st - (\<Union>t<k. Z t)" "cview s = apply_writes (cview st) (copies dst src (cview st) k)"
    "disk s = apply_writes (disk st) (copies dst src (cview st) k)" "wtrace s = wtrace st @ copies dst src (cview st) k"
    by auto
  have "src k \<noteq> dst x" if "x < k" for x using disj [of k x] that Suc.prems by simp
  then have "src k \<notin> dst ` {..<k}" by auto
  then have v: "cview s (src k) = cview st (src k)" using s(5) by (simp add: apply_writes_other copies_dom)
  from round [of k s] Suc.prems s(2,3) obtain s' where
    s': "f k s = Some s'" "idle_cache s'" "same_meta s s'" "pinned_nos s' = pinned_nos s - Z k"
      "cview s' = (cview s)(dst k := cview s (src k))" "disk s' = (disk s)(dst k := cview s (src k))"
      "wtrace s' = wtrace s @ [(dst k, cview s (src k))]" by auto
  have "for_each f [0..<Suc k] st = Some s'" using s(1) s'(1) by (simp add: for_each_append)
  moreover have "pinned_nos s' = pinned_nos st - (\<Union>t<Suc k. Z t)" using s(4) s'(4) by (auto simp: lessThan_Suc)
  moreover have "cview s' = apply_writes (cview st) (copies dst src (cview st) (Suc k))"
    "disk s' = apply_writes (disk st) (copies dst src (cview st) (Suc k))"
    unfolding copies_Suc apply_writes_snoc s'(5,6) v s(5) [symmetric] s(6) [symmetric] by (rule refl)+
  moreover have "wtrace s' = wtrace st @ copies dst src (cview st) (Suc k)" using s(7) s'(7) v by simp
  ultimately show ?case using s'(2) same_meta_trans [OF s(3) s'(3)] by blast
qed

text \<open>The three loops, from a state with an idle cache and a well-formed header.\<close>

lemma log_loops:
  assumes st: "idle_cache st" and wf: "wf_header (sblock st) (header st)" and k: "k \<le> unat (lh_num_blocks (header st))"
  defines "lb \<equiv> log_block st" and "en \<equiv> \<lambda>t. lh_block_no (header st) ! t"
  shows "\<exists>s'. for_each commit_log_round [0..<k] st = Some s' \<and> idle_cache s' \<and> same_meta st s'
     \<and> pinned_nos s' = pinned_nos st - (\<Union>t<k. {}) \<and> cview s' = apply_writes (cview st) (copies lb en (cview st) k)
     \<and> disk s' = apply_writes (disk st) (copies lb en (cview st) k) \<and> wtrace s' = wtrace st @ copies lb en (cview st) k"
    "\<exists>s'. for_each recover_round [0..<k] st = Some s' \<and> idle_cache s' \<and> same_meta st s'
     \<and> pinned_nos s' = pinned_nos st - (\<Union>t<k. {}) \<and> cview s' = apply_writes (cview st) (copies en lb (cview st) k)
     \<and> disk s' = apply_writes (disk st) (copies en lb (cview st) k) \<and> wtrace s' = wtrace st @ copies en lb (cview st) k"
    "\<exists>s'. for_each commit_home_round [0..<k] st = Some s' \<and> idle_cache s' \<and> same_meta st s'
     \<and> pinned_nos s' = pinned_nos st - (\<Union>t<k. {en t}) \<and> cview s' = apply_writes (cview st) (copies en lb (cview st) k)
     \<and> disk s' = apply_writes (disk st) (copies en lb (cview st) k) \<and> wtrace s' = wtrace st @ copies en lb (cview st) k"
proof -
  let ?n = "unat (lh_num_blocks (header st))"
  have ne: "lb t \<noteq> en t'" if "t < ?n" "t' < ?n" for t t'
    using log_block_props(2) [OF wf_headerD(6,1) [OF wf that(1)]] wf_headerD(5) [OF wf that(2)]
    by (auto simp: lb_def en_def)
  have m: "log_block s = lb" "(!) (lh_block_no (header s)) = en" "wf_header (sblock s) (header s)" "unat (lh_num_blocks (header s)) = ?n"
    if "same_meta st s" for s
    using that wf by (auto simp: same_meta_def log_block_def lb_def en_def fun_eq_iff)
  show "\<exists>s'. for_each commit_log_round [0..<k] st = Some s' \<and> idle_cache s' \<and> same_meta st s'
     \<and> pinned_nos s' = pinned_nos st - (\<Union>t<k. {}) \<and> cview s' = apply_writes (cview st) (copies lb en (cview st) k)
     \<and> disk s' = apply_writes (disk st) (copies lb en (cview st) k) \<and> wtrace s' = wtrace st @ copies lb en (cview st) k"
  proof (rule copy_loop [OF _ _ st k])
    fix t s assume t: "t < ?n" and s: "idle_cache s" "same_meta st s"
    note m = m [OF s(2)]
    from copy_rounds(1) [of s t] t s m show "\<exists>s'. commit_log_round t s = Some s' \<and> idle_cache s' \<and> same_meta s s'
        \<and> pinned_nos s' = pinned_nos s - {} \<and> cview s' = (cview s)(lb t := cview s (en t))
        \<and> disk s' = (disk s)(lb t := cview s (en t)) \<and> wtrace s' = wtrace s @ [(lb t, cview s (en t))]"
      by (simp add: idle_cache_def)
  next
    fix t t' assume "t < ?n" "t' < ?n" then show "en t \<noteq> lb t'" using ne by metis
  qed
  show "\<exists>s'. for_each recover_round [0..<k] st = Some s' \<and> idle_cache s' \<and> same_meta st s'
     \<and> pinned_nos s' = pinned_nos st - (\<Union>t<k. {}) \<and> cview s' = apply_writes (cview st) (copies en lb (cview st) k)
     \<and> disk s' = apply_writes (disk st) (copies en lb (cview st) k) \<and> wtrace s' = wtrace st @ copies en lb (cview st) k"
  proof (rule copy_loop [OF _ ne st k])
    fix t s assume t: "t < ?n" and s: "idle_cache s" "same_meta st s"
    note m = m [OF s(2)]
    from copy_rounds(2) [of s t] t s m show "\<exists>s'. recover_round t s = Some s' \<and> idle_cache s' \<and> same_meta s s'
        \<and> pinned_nos s' = pinned_nos s - {} \<and> cview s' = (cview s)(en t := cview s (lb t))
        \<and> disk s' = (disk s)(en t := cview s (lb t)) \<and> wtrace s' = wtrace s @ [(en t, cview s (lb t))]"
      by (simp add: idle_cache_def)
  qed
  show "\<exists>s'. for_each commit_home_round [0..<k] st = Some s' \<and> idle_cache s' \<and> same_meta st s'
     \<and> pinned_nos s' = pinned_nos st - (\<Union>t<k. {en t}) \<and> cview s' = apply_writes (cview st) (copies en lb (cview st) k)
     \<and> disk s' = apply_writes (disk st) (copies en lb (cview st) k) \<and> wtrace s' = wtrace st @ copies en lb (cview st) k"
  proof (rule copy_loop [OF _ ne st k])
    fix t s assume t: "t < ?n" and s: "idle_cache s" "same_meta st s"
    note m = m [OF s(2)]
    from copy_rounds(3) [of s t] t s m show "\<exists>s'. commit_home_round t s = Some s' \<and> idle_cache s' \<and> same_meta s s'
        \<and> pinned_nos s' = pinned_nos s - {en t} \<and> cview s' = (cview s)(en t := cview s (lb t))
        \<and> disk s' = (disk s)(en t := cview s (lb t)) \<and> wtrace s' = wtrace s @ [(en t, cview s (lb t))]"
      by (simp add: idle_cache_def)
  qed
qed

section \<open>Commit and recovery as sequences of writes\<close>

lemma header_no_log: "header_no st \<in> log_nos (sblock st)"
  unfolding log_nos_def by (rule image_eqI [of _ _ 0]) simp_all

lemma write_header_spec:
  assumes inv: "idle_cache st" and len: "length (lh_block_no (header st)) = LOG_MAX_SIZE"
  shows "idle_cache (write_header st)" "cview (write_header st) = (cview st)(header_no st := log_header_bytes (header st))"
    "disk (write_header st) = (disk st)(header_no st := log_header_bytes (header st))"
    "wtrace (write_header st) = wtrace st @ [(header_no st, log_header_bytes (header st))]"
    "same_meta st (write_header st)" "pinned_nos (write_header st) = pinned_nos st"
proof -
  let ?t = "write_header st"
  have c: "cache_inv st" "locked_nos st = {}" using inv by (auto simp: idle_cache_def)
  have f: "bheap ?t = bheap st" "head ?t = head st" "bfresh ?t = bfresh st" "sblock ?t = sblock st"
    by (simp_all add: write_header_def device_put_def)
  show d: "disk ?t = (disk st)(header_no st := log_header_bytes (header st))"
    "wtrace ?t = wtrace st @ [(header_no st, log_header_bytes (header st))]"
    "same_meta st ?t" "pinned_nos ?t = pinned_nos st"
    by (simp_all add: write_header_def device_put_def same_meta_def pinned_nos_def)
  have unc: "block_no (bheap st i) \<noteq> header_no st" if "i \<in> set (head st)" "valid (bheap st i)" for i
    using cache_invD(4,10) [OF c(1) that(1)] that(2) by blast
  have "bdata (bheap st i) = disk ?t (block_no (bheap st i))"
    if "i \<in> set (head st)" "valid (bheap st i)" "\<not> pinned (bheap st i)" "\<not> locked (bheap st i)" for i
    using cache_invD(9) [OF c(1) that] unc [OF that(1,2)] by (simp add: d)
  then have "cache_inv ?t"
    using c(1) log_header_roundtrip(2) [OF len] unfolding cache_inv_def f by (simp add: d)
  then show "idle_cache ?t" using c(2) by (simp add: idle_cache_def locked_nos_def f)
  show "cview ?t = (cview st)(header_no st := log_header_bytes (header st))"
  proof
    fix m
    show "cview ?t m = ((cview st)(header_no st := log_header_bytes (header st))) m"
    proof (cases "m = header_no st")
      case True
      have "cview ?t m = disk ?t m" by (rule cview_uncached) (use unc True in \<open>auto simp: f\<close>)
      then show ?thesis using True by (simp add: d)
    next
      case False
      then show ?thesis by (simp add: cview_def f d split: option.splits)
    qed
  qed
qed

text \<open>The writes of \<open>commit\<close>: the log, the header, the home blocks, the cleared header.\<close>

definition cleared :: "LogHeader \<Rightarrow> LogHeader" where
  "cleared h = h\<lparr>lh_num_blocks := 0\<rparr>"

definition commit_writes :: "cachest \<Rightarrow> (usize \<times> u8 list) list" where
  "commit_writes st =
     (let n = unat (lh_num_blocks (header st)); en = (\<lambda>t. lh_block_no (header st) ! t)
      in copies (log_block st) en (cview st) n @ [(header_no st, log_header_bytes (header st))]
         @ copies en en (cview st) n @ [(header_no st, log_header_bytes (cleared (header st)))])"

definition log_ready :: "cachest \<Rightarrow> bool" where
  "log_ready st \<longleftrightarrow> idle_cache st \<and> wf_header (sblock st) (header st)
     \<and> pinned_nos st = set (log_entries (header st))
     \<and> lh_num_blocks (log_header_of (disk st (header_no st))) = 0"

lemma entries_image:
  assumes "length (lh_block_no h) = LOG_MAX_SIZE" "unat (lh_num_blocks h) \<le> LOG_MAX_SIZE"
  shows "(\<lambda>t. lh_block_no h ! t) ` {..<unat (lh_num_blocks h)} = set (log_entries h)"
  using assms nth_image [of "unat (lh_num_blocks h)" "lh_block_no h"] by (simp add: log_entries_def atLeast0LessThan)

lemma wf_header_inj:
  assumes "wf_header (sblock st) (header st)"
  shows "inj_on (log_block st) {..<unat (lh_num_blocks (header st))}"
    "inj_on (\<lambda>t. lh_block_no (header st) ! t) {..<unat (lh_num_blocks (header st))}"
proof -
  have w: "unat (lh_num_blocks (header st)) \<le> LOG_MAX_SIZE" "log_start (sblock st) \<noteq> 0"
    "length (lh_block_no (header st)) = LOG_MAX_SIZE" "distinct (log_entries (header st))"
    using assms unfolding wf_header_def by simp_all
  show "inj_on (log_block st) {..<unat (lh_num_blocks (header st))}"
    using log_block_props(4) [OF w(2)] w(1) by (simp add: inj_on_def)
  show "inj_on (\<lambda>t. lh_block_no (header st) ! t) {..<unat (lh_num_blocks (header st))}"
  proof (rule inj_onI)
    fix i j assume ij: "i \<in> {..<unat (lh_num_blocks (header st))}" "j \<in> {..<unat (lh_num_blocks (header st))}"
      "lh_block_no (header st) ! i = lh_block_no (header st) ! j"
    have "log_entries (header st) ! i = log_entries (header st) ! j" using ij by (simp add: log_entries_def)
    then show "i = j" using ij w(1,3) nth_eq_iff_index_eq [OF w(4), of i j] by (simp add: log_entries_def)
  qed
qed

lemma copies_cong: "(\<And>t. t < k \<Longrightarrow> V (src t) = V' (src' t)) \<Longrightarrow> copies dst src V k = copies dst src' V' k"
  by (simp add: copies_def)

lemma commit_spec:
  assumes st: "idle_cache st" and wf: "wf_header (sblock st) (header st)"
    and pins: "pinned_nos st = set (log_entries (header st))"
  shows "\<exists>st'. commit st = Some st' \<and> idle_cache st' \<and> pinned_nos st' = {} \<and> header st' = cleared (header st)
     \<and> sblock st' = sblock st \<and> committing st' = committing st \<and> outstanding st' = outstanding st \<and> log_lock st' = log_lock st
     \<and> wtrace st' = wtrace st @ commit_writes st
     \<and> disk st' = apply_writes (disk st) (commit_writes st) \<and> cview st' = apply_writes (cview st) (commit_writes st)"
proof -
  define n where "n = unat (lh_num_blocks (header st))"
  define en where "en = (\<lambda>t. lh_block_no (header st) ! t)"
  define lb where "lb = log_block st"
  have len: "length (lh_block_no (header st)) = LOG_MAX_SIZE" "n \<le> LOG_MAX_SIZE" "log_start (sblock st) \<noteq> 0"
    using wf unfolding wf_header_def n_def by simp_all
  from log_loops(1) [OF st wf order_refl] obtain s1 where
    s1: "for_each commit_log_round [0..<n] st = Some s1" "idle_cache s1" "same_meta st s1" "pinned_nos s1 = pinned_nos st"
      "cview s1 = apply_writes (cview st) (copies lb en (cview st) n)"
      "disk s1 = apply_writes (disk st) (copies lb en (cview st) n)" "wtrace s1 = wtrace st @ copies lb en (cview st) n"
    by (auto simp: n_def en_def lb_def)
  have m1: "header s1 = header st" "sblock s1 = sblock st" using s1(3) by (simp_all add: same_meta_def)
  define s2 where "s2 = write_header s1"
  have len1: "length (lh_block_no (header s1)) = LOG_MAX_SIZE" using len m1 by simp
  note w2 = write_header_spec [OF s1(2) len1, folded s2_def, unfolded m1]
  have m2: "header s2 = header st" "sblock s2 = sblock st" using w2(5) m1 by (simp_all add: same_meta_def)
  have wf2: "wf_header (sblock s2) (header s2)" using wf m2 by simp
  have lb2: "log_block s2 = lb" using m2 by (simp add: fun_eq_iff log_block_def lb_def)
  from log_loops(3) [OF w2(1) wf2 order_refl] obtain s3 where
    s3: "for_each commit_home_round [0..<n] s2 = Some s3" "idle_cache s3" "same_meta s2 s3"
      "pinned_nos s3 = pinned_nos s2 - en ` {..<n}"
      "cview s3 = apply_writes (cview s2) (copies en lb (cview s2) n)"
      "disk s3 = apply_writes (disk s2) (copies en lb (cview s2) n)" "wtrace s3 = wtrace s2 @ copies en lb (cview s2) n"
    by (auto simp: n_def en_def lb2 m2)
  have "cview s2 (lb t) = cview st (en t)" if "t < n" for t
  proof -
    have "lb t \<noteq> header_no st" using log_block_props(3) [OF len(3), of t] that len(2) by (simp add: lb_def)
    moreover have "cview s1 (lb t) = cview st (en t)"
      unfolding s1(5) by (rule copies_apply) (use wf_header_inj(1) [OF wf] that in \<open>auto simp: lb_def n_def\<close>)
    ultimately show ?thesis by (simp add: w2)
  qed
  then have hc: "copies en lb (cview s2) n = copies en en (cview st) n" by (rule copies_cong)
  have c3: "cview s3 = apply_writes (cview s2) (copies en en (cview st) n)" using s3(5) unfolding hc .
  define s4 where "s4 = s3\<lparr>header := (header s3)\<lparr>lh_num_blocks := 0\<rparr>\<rparr>"
  have m3: "header s3 = header st" "sblock s3 = sblock st" "committing s3 = committing st" "outstanding s3 = outstanding st"
    "log_lock s3 = log_lock st"
    using s3(3) s1(3) w2(5) m2 by (simp_all add: same_meta_def)
  have h4: "header s4 = cleared (header st)" "sblock s4 = sblock st" by (simp_all add: s4_def m3 cleared_def)
  have c4: "cview s4 = cview s3" by (simp add: s4_def cview_def fun_eq_iff split: option.splits)
  have i4: "idle_cache s4" using s3(2) by (simp add: s4_def idle_cache_def cache_inv_def locked_nos_def)
  have len4: "length (lh_block_no (header s4)) = LOG_MAX_SIZE" using len h4 by (simp add: cleared_def)
  note w5 = write_header_spec [OF i4 len4, unfolded h4]
  have "commit st = Some (write_header s4)"
    using s1(1) s3(1) by (simp add: commit_def n_def s2_def [symmetric] m2 s4_def)
  moreover have "pinned_nos (write_header s4) = {}"
  proof -
    have "pinned_nos s4 = pinned_nos s3" by (simp add: s4_def pinned_nos_def)
    moreover have "en ` {..<n} = set (log_entries (header st))"
      using entries_image [OF len(1)] len(2) by (simp add: en_def n_def)
    ultimately show ?thesis using w5(6) s3(4) w2(6) s1(4) pins by simp
  qed
  moreover have "wtrace (write_header s4) = wtrace st @ commit_writes st"
    using w5(4) s3(7) w2(4) s1(7) hc
    by (simp add: s4_def commit_writes_def n_def [symmetric] en_def [symmetric] lb_def [symmetric] h4)
  moreover have "disk (write_header s4) = apply_writes (disk st) (commit_writes st)"
    unfolding w5(3) commit_writes_def Let_def
    by (simp only: n_def [symmetric] en_def [symmetric] lb_def [symmetric] append_assoc [symmetric] apply_writes_snoc apply_writes_append)
      (simp add: s4_def s3(6) hc w2(3) s1(6))
  moreover have "cview (write_header s4) = apply_writes (cview st) (commit_writes st)"
    unfolding w5(2) commit_writes_def Let_def
    by (simp only: n_def [symmetric] en_def [symmetric] lb_def [symmetric] append_assoc [symmetric] apply_writes_snoc apply_writes_append)
      (simp add: c4 c3 w2(2) s1(5))
  ultimately show ?thesis
    using w5(1,5) h4 m3 by (simp add: same_meta_def s4_def)
qed

lemma init_bcache_spec:
  assumes len: "\<forall>n. length (D n) = BLOCK_SIZE"
    and h: "h = log_header_of (D (ucast (log_start sb)))" and wf: "wf_header sb h"
  defines "lb \<equiv> \<lambda>t. ucast (log_start sb) + of_nat t + 1" and "en \<equiv> \<lambda>t. lh_block_no h ! t" and "n \<equiv> unat (lh_num_blocks h)"
  shows "\<exists>r. init_bcache sb D = Some r \<and> idle_cache r \<and> pinned_nos r = {} \<and> header r = cleared h \<and> sblock r = sb
     \<and> \<not> committing r \<and> outstanding r = 0
     \<and> wtrace r = copies en lb D n @ [(ucast (log_start sb), log_header_bytes (cleared h))] \<and> disk r = apply_writes D (wtrace r)"
proof -
  define s0 where "s0 = \<lparr>sblock = sb, disk = D, wtrace = [], bheap = (\<lambda>_. init_block),
        head = rev [0..<EVICTION_THRESHOLD], bfresh = EVICTION_THRESHOLD, header = h,
        committing = False, outstanding = 0, log_lock = 1\<rparr>"
  have i0: "idle_cache s0" "pinned_nos s0 = {}"
    by (simp_all add: s0_def idle_cache_def cache_inv_def locked_nos_def pinned_nos_def init_block_def len)
  have v0: "cview s0 = D"
  proof
    fix m have "cview s0 m = disk s0 m" by (rule cview_uncached) (simp add: s0_def init_block_def)
    then show "cview s0 m = D m" by (simp add: s0_def)
  qed
  have lb0: "log_block s0 = lb" by (simp add: fun_eq_iff log_block_def lb_def s0_def)
  have hd: "header s0 = h" "sblock s0 = sb" "disk s0 = D" "wtrace s0 = []" by (simp_all add: s0_def)
  have wf0: "wf_header (sblock s0) (header s0)" using wf hd by simp
  from log_loops(2) [OF i0(1) wf0 order_refl] obtain s1 where
    s1: "for_each recover_round [0..<n] s0 = Some s1" "idle_cache s1" "same_meta s0 s1" "pinned_nos s1 = pinned_nos s0"
      "disk s1 = apply_writes D (copies en lb D n)" "wtrace s1 = copies en lb D n"
    by (auto simp: hd n_def en_def lb0 v0)
  define s2 where "s2 = s1\<lparr>header := (header s1)\<lparr>lh_num_blocks := 0\<rparr>\<rparr>"
  have m: "header s2 = cleared h" "sblock s2 = sb" "\<not> committing s2" "outstanding s2 = 0"
    using s1(3) by (simp_all add: s2_def same_meta_def hd cleared_def s0_def)
  have i2: "idle_cache s2" using s1(2) by (simp add: s2_def idle_cache_def cache_inv_def locked_nos_def)
  have "length (lh_block_no (header s2)) = LOG_MAX_SIZE" using wf by (simp add: m cleared_def wf_header_def)
  note w = write_header_spec [OF i2 this, unfolded m(1,2)]
  have "init_bcache sb D = Some (write_header s2)"
    using s1(1) by (simp add: init_bcache_def recover_from_log_def read_header_def h [symmetric] s0_def [symmetric] hd n_def s2_def)
  moreover have "pinned_nos (write_header s2) = {}" using w(6) s1(4) i0(2) by (simp add: s2_def pinned_nos_def)
  moreover have tr: "wtrace (write_header s2) = copies en lb D n @ [(ucast (log_start sb), log_header_bytes (cleared h))]"
    using w(4) s1(6) by (simp add: s2_def)
  moreover have "disk (write_header s2) = apply_writes D (wtrace (write_header s2))"
    unfolding tr apply_writes_snoc w(3) s1(5) [symmetric] by (simp add: s2_def)
  ultimately show ?thesis using w(1,5) m by (simp add: same_meta_def)
qed

section \<open>Crashes\<close>

lemma apply_writes_length:
  "\<forall>n. length (D n) = BLOCK_SIZE \<Longrightarrow> \<forall>w\<in>set ws. length (snd w) = BLOCK_SIZE \<Longrightarrow>
   length (apply_writes D ws m) = BLOCK_SIZE"
proof (induction ws arbitrary: D)
  case (Cons w ws)
  obtain n d where w: "w = (n, d)" by fastforce
  have "\<forall>m. length ((D(n := d)) m) = BLOCK_SIZE" using Cons.prems w by simp
  from Cons.IH [OF this] Cons.prems show ?case by (simp add: w fun_upd_def)
qed simp

lemma wf_header_empty:
  "log_start sb \<noteq> 0 \<Longrightarrow> length (lh_block_no h) = LOG_MAX_SIZE \<Longrightarrow> lh_num_blocks h = 0 \<Longrightarrow> wf_header sb h"
  by (simp add: wf_header_def log_entries_def)

lemma cleared_simps [simp]: "lh_num_blocks (cleared h) = 0" "lh_block_no (cleared h) = lh_block_no h"
  by (simp_all add: cleared_def)

text \<open>Recovery with an empty header changes nothing outside the log; with a header it replays it.\<close>

lemma recover_empty:
  assumes len: "\<forall>n. length (D n) = BLOCK_SIZE" and ls: "log_start sb \<noteq> 0"
    and z: "lh_num_blocks (log_header_of (D (ucast (log_start sb)))) = 0"
  obtains r where "init_bcache sb D = Some r" "idle_cache r" "pinned_nos r = {}"
    "lh_num_blocks (log_header_of (disk r (ucast (log_start sb)))) = 0"
    "\<And>x. x \<noteq> ucast (log_start sb) \<Longrightarrow> disk r x = D x" 
proof -
  let ?h = "log_header_of (D (ucast (log_start sb)))"
  have wf: "wf_header sb ?h" by (rule wf_header_empty) (use ls z in simp_all)
  from init_bcache_spec [OF len refl wf] z obtain r where
    r: "init_bcache sb D = Some r" "idle_cache r" "pinned_nos r = {}"
      "wtrace r = [(ucast (log_start sb), log_header_bytes (cleared ?h))]" "disk r = apply_writes D (wtrace r)" by auto
  show thesis
    by (rule that [OF r(1-3)]) (simp_all add: r(4,5) log_header_roundtrip)
qed

lemma recover_replay:
  assumes len: "\<forall>n. length (D n) = BLOCK_SIZE" and h: "h = log_header_of (D (ucast (log_start sb)))" and wf: "wf_header sb h"
  obtains r where "init_bcache sb D = Some r" "idle_cache r" "pinned_nos r = {}"
    "lh_num_blocks (log_header_of (disk r (ucast (log_start sb)))) = 0"
    "wtrace r = copies (\<lambda>t. lh_block_no h ! t) (\<lambda>t. ucast (log_start sb) + of_nat t + 1) D (unat (lh_num_blocks h))
       @ [(ucast (log_start sb), log_header_bytes (cleared h))]"
    "\<And>t. t < unat (lh_num_blocks h) \<Longrightarrow> disk r (lh_block_no h ! t) = D (ucast (log_start sb) + of_nat t + 1)"
    "\<And>x. x \<noteq> ucast (log_start sb) \<Longrightarrow> x \<notin> set (log_entries h) \<Longrightarrow> disk r x = D x"
proof -
  let ?en = "\<lambda>t. lh_block_no h ! t" and ?lb = "\<lambda>t. ucast (log_start sb) + of_nat t + 1 :: usize" and ?n = "unat (lh_num_blocks h)"
  from init_bcache_spec [OF len h wf] obtain r where
    r: "init_bcache sb D = Some r" "idle_cache r" "pinned_nos r = {}"
      "wtrace r = copies ?en ?lb D ?n @ [(ucast (log_start sb), log_header_bytes (cleared h))]" "disk r = apply_writes D (wtrace r)"
    by blast
  have d: "disk r = (apply_writes D (copies ?en ?lb D ?n))(ucast (log_start sb) := log_header_bytes (cleared h))"
    unfolding r(5,4) apply_writes_snoc ..
  have lh: "length (lh_block_no h) = LOG_MAX_SIZE" "?n \<le> LOG_MAX_SIZE" using wf by (auto simp: wf_header_def)
  define st where "st = \<lparr>sblock = sb, disk = D, wtrace = [], bheap = (\<lambda>_. init_block), head = [], bfresh = 0, header = h,
        committing = False, outstanding = 0, log_lock = 1\<rparr>"
  have wst: "wf_header (sblock st) (header st)" using wf by (simp add: st_def)
  have inj: "inj_on ?en {..<?n}" using wf_header_inj(2) [OF wst] by (simp add: st_def)
  show thesis
  proof (rule that [OF r(1-3) _ r(4)])
    show "lh_num_blocks (log_header_of (disk r (ucast (log_start sb)))) = 0"
      using lh by (simp add: d log_header_roundtrip)
    show "disk r (?en t) = D (?lb t)" if "t < ?n" for t
    proof -
      have "?en t \<notin> log_nos sb" using wf_headerD(5) [OF wst, of t] that by (simp add: st_def)
      moreover have "(ucast (log_start sb) :: usize) \<in> log_nos sb" using header_no_log [of st] by (simp add: st_def)
      ultimately have "?en t \<noteq> ucast (log_start sb)" by metis
      then show ?thesis using copies_apply [OF inj that, of D ?lb D] by (simp add: d)
    qed
    show "disk r x = D x" if "x \<noteq> ucast (log_start sb)" "x \<notin> set (log_entries h)" for x
      using that entries_image [OF lh] by (simp add: d apply_writes_other copies_dom)
  qed
qed

text \<open>The device after a prefix of the writes of a commit.\<close>

lemma commit_prefix:
  assumes "log_ready st"
  defines "n \<equiv> unat (lh_num_blocks (header st))" and "D \<equiv> \<lambda>k. apply_writes (disk st) (take k (commit_writes st))"
  shows "length (D k x) = BLOCK_SIZE"
    "k \<le> n \<Longrightarrow> D k (header_no st) = disk st (header_no st)"
    "k \<le> n \<Longrightarrow> x \<notin> log_nos (sblock st) \<Longrightarrow> D k x = disk st x"
    "n < k \<Longrightarrow> D k (header_no st) = log_header_bytes (if k \<le> 2 * n + 1 then header st else cleared (header st))"
    "n < k \<Longrightarrow> t < n \<Longrightarrow> D k (log_block st t) = cview st (lh_block_no (header st) ! t)"
    "n < k \<Longrightarrow> x \<notin> log_nos (sblock st) \<Longrightarrow> x \<notin> set (log_entries (header st)) \<Longrightarrow> D k x = disk st x"
    "2 * n + 1 < k \<Longrightarrow> t < n \<Longrightarrow> D k (lh_block_no (header st) ! t) = cview st (lh_block_no (header st) ! t)"
proof -
  define en where "en = (\<lambda>t. lh_block_no (header st) ! t)"
  define L where "L = copies (log_block st) en (cview st) n"
  define M where "M = copies en en (cview st) n"
  define H where "H = (header_no st, log_header_bytes (header st))"
  define H0 where "H0 = (header_no st, log_header_bytes (cleared (header st)))"
  have W: "commit_writes st = L @ [H] @ M @ [H0]"
    by (simp add: commit_writes_def Let_def L_def M_def H_def H0_def en_def n_def)
  have wf: "wf_header (sblock st) (header st)" and inv: "cache_inv st"
    using assms(1) by (auto simp: log_ready_def idle_cache_def)
  have lens: "length L = n" "length M = n" by (simp_all add: L_def M_def copies_def)
  have lh: "length (lh_block_no (header st)) = LOG_MAX_SIZE" "n \<le> LOG_MAX_SIZE" "log_start (sblock st) \<noteq> 0"
    using wf by (auto simp: wf_header_def n_def)
  have ent: "en ` {..<n} = set (log_entries (header st))" using entries_image [OF lh(1)] lh(2) by (simp add: en_def n_def)
  have lbn: "log_block st t \<noteq> header_no st" "log_block st t \<in> log_nos (sblock st)" if "t < n" for t
    using log_block_props [OF lh(3), of t] that lh(2) by auto
  have enl: "en t \<notin> log_nos (sblock st)" if "t < n" for t
    using wf_headerD(5) [OF wf, of t] that by (simp add: en_def n_def)
  have hn: "header_no st \<in> log_nos (sblock st)" by (rule header_no_log)
  have domL: "fst ` set L = log_block st ` {..<n}" and domM: "fst ` set M = en ` {..<n}"
    by (simp_all add: L_def M_def copies_dom)
  have small: "take k (commit_writes st) = take k L" if "k \<le> n" using that lens by (simp add: W)
  have big: "take k (commit_writes st) = L @ [H] @ take (k - Suc n) (M @ [H0])" if "n < k"
  proof -
    have "k - n = Suc (k - Suc n)" using that by simp
    then show ?thesis using lens that by (simp add: W)
  qed
  have sub: "fst ` set (take j ws) \<subseteq> fst ` set ws" for j and ws :: "(usize \<times> u8 list) list"
    by (rule image_mono) (rule set_take_subset)
  have hM: "header_no st \<notin> fst ` set M" using enl hn domM by auto
  have lM: "log_block st t \<notin> fst ` set (M @ [H0])" if "t < n" for t
  proof -
    have "log_block st t \<noteq> en t'" if "t' < n" for t' using lbn(2) [OF \<open>t < n\<close>] enl [OF that] by metis
    then show ?thesis using lbn(1) [OF that] domM by (auto simp: H0_def)
  qed
  show "length (D k x) = BLOCK_SIZE" unfolding D_def
  proof (rule apply_writes_length)
    show "\<forall>n. length (disk st n) = BLOCK_SIZE" using cache_invD(8) [OF inv] by blast
    have "\<forall>w\<in>set (commit_writes st). length (snd w) = BLOCK_SIZE"
      using cview_length [OF inv] lh(1) by (auto simp: W L_def M_def H_def H0_def copies_def log_header_roundtrip)
    then show "\<forall>w\<in>set (take k (commit_writes st)). length (snd w) = BLOCK_SIZE" using set_take_subset by fastforce
  qed
  show "D k (header_no st) = disk st (header_no st)" if "k \<le> n"
  proof -
    have "header_no st \<notin> fst ` set (take k L)"
    proof
      assume "header_no st \<in> fst ` set (take k L)"
      with sub [of k L] domL have "header_no st \<in> log_block st ` {..<n}" by blast
      then show False using lbn(1) by (metis imageE lessThan_iff)
    qed
    then show ?thesis by (simp add: D_def small [OF that] apply_writes_other)
  qed
  show "D k x = disk st x" if "k \<le> n" "x \<notin> log_nos (sblock st)"
  proof -
    have "x \<notin> fst ` set (take k L)"
    proof
      assume "x \<in> fst ` set (take k L)"
      with sub [of k L] domL have "x \<in> log_block st ` {..<n}" by blast
      then show False using lbn(2) that(2) by (metis imageE lessThan_iff)
    qed
    then show ?thesis by (simp add: D_def small [OF that(1)] apply_writes_other)
  qed
  show "D k (header_no st) = log_header_bytes (if k \<le> 2 * n + 1 then header st else cleared (header st))" if k: "n < k"
  proof (cases "k \<le> 2 * n + 1")
    case True
    then have "take (k - Suc n) (M @ [H0]) = take (k - Suc n) M" using lens by simp
    moreover have "header_no st \<notin> fst ` set (take (k - Suc n) M)" using hM sub [of "k - Suc n" M] by blast
    ultimately show ?thesis using True by (simp add: D_def big [OF k] apply_writes_other H_def)
  next
    case False
    then have "take (k - Suc n) (M @ [H0]) = M @ [H0]" using lens by simp
    then show ?thesis using False by (simp add: D_def big [OF k] H_def H0_def)
  qed
  show "D k (log_block st t) = cview st (lh_block_no (header st) ! t)" if k: "n < k" and t: "t < n"
  proof -
    have "log_block st t \<notin> fst ` set (take (k - Suc n) (M @ [H0]))" using lM [OF t] sub [of "k - Suc n" "M @ [H0]"] by blast
    moreover have "apply_writes (disk st) L (log_block st t) = cview st (en t)"
      unfolding L_def by (rule copies_apply) (use wf_header_inj(1) [OF wf] t in \<open>auto simp: n_def\<close>)
    ultimately show ?thesis
      using lbn(1) [OF t] by (simp add: D_def big [OF k] apply_writes_other H_def en_def del: take_append)
  qed
  show "D k x = disk st x" if k: "n < k" and x: "x \<notin> log_nos (sblock st)" "x \<notin> set (log_entries (header st))"
  proof -
    have "x \<noteq> header_no st" using x hn by auto
    moreover have "x \<notin> fst ` set L" using x(1) lbn(2) domL by auto
    moreover have "x \<notin> fst ` set (take (k - Suc n) (M @ [H0]))"
    proof
      assume "x \<in> fst ` set (take (k - Suc n) (M @ [H0]))"
      with sub [of "k - Suc n" "M @ [H0]"] have "x \<in> fst ` set (M @ [H0])" by blast
      then show False using domM ent x hn by (auto simp: H0_def)
    qed
    ultimately show ?thesis by (simp add: D_def big [OF k] apply_writes_other H_def del: take_append)
  qed
  show "D k (lh_block_no (header st) ! t) = cview st (lh_block_no (header st) ! t)" if k: "2 * n + 1 < k" and t: "t < n"
  proof -
    have nk: "n < k" using k by simp
    have "take (k - Suc n) (M @ [H0]) = M @ [H0]" using k lens by simp
    moreover have "apply_writes E M (en t) = cview st (en t)" for E
      unfolding M_def by (rule copies_apply) (use wf_header_inj(2) [OF wf] t in \<open>auto simp: n_def en_def\<close>)
    moreover have "en t \<noteq> header_no st" using enl [OF t] hn by auto
    ultimately show ?thesis by (simp add: D_def big [OF nk] H_def H0_def en_def)
  qed
qed

lemma log_block_sb: "log_block st t = ucast (log_start (sblock st)) + of_nat t + 1"
  by (simp add: log_block_def)

lemma log_ready_view:
  assumes "log_ready st" "x \<notin> set (log_entries (header st))" shows "cview st x = disk st x"
  by (rule cview_clean) (use assms in \<open>auto simp: log_ready_def idle_cache_def\<close>)

lemma crash_recovery:
  assumes lr: "log_ready st"
  shows "\<exists>r. init_bcache (sblock st) (apply_writes (disk st) (take k (commit_writes st))) = Some r
     \<and> idle_cache r \<and> lh_num_blocks (log_header_of (disk r (header_no st))) = 0 \<and> pinned_nos r = {}
     \<and> (\<forall>x. x \<notin> log_nos (sblock st) \<longrightarrow>
           disk r x = (if k \<le> unat (lh_num_blocks (header st)) then disk st x else cview st x))"
proof -
  let ?n = "unat (lh_num_blocks (header st))" and ?D = "apply_writes (disk st) (take k (commit_writes st))"
  note cp = commit_prefix [OF lr]
  have wf: "wf_header (sblock st) (header st)" and z: "lh_num_blocks (log_header_of (disk st (header_no st))) = 0"
    using lr by (auto simp: log_ready_def)
  have lh: "length (lh_block_no (header st)) = LOG_MAX_SIZE" "?n \<le> LOG_MAX_SIZE" "log_start (sblock st) \<noteq> 0"
    using wf by (auto simp: wf_header_def)
  have len: "\<forall>x. length (?D x) = BLOCK_SIZE" using cp(1) by blast
  have hx: "x \<noteq> header_no st" if "x \<notin> log_nos (sblock st)" for x using that header_no_log [of st] by metis
  have ent: "\<exists>t<?n. x = lh_block_no (header st) ! t" if "x \<in> set (log_entries (header st))" for x
    using that entries_image [OF lh(1,2)] by (metis imageE lessThan_iff)
  consider "k \<le> ?n" | "?n < k" "k \<le> 2 * ?n + 1" | "2 * ?n + 1 < k" by linarith
  then show ?thesis
  proof cases
    case 1
    have "lh_num_blocks (log_header_of (?D (header_no st))) = 0" using cp(2) [OF 1] z by simp
    from recover_empty [OF len lh(3) this] obtain r where
      r: "init_bcache (sblock st) ?D = Some r" "idle_cache r" "pinned_nos r = {}"
        "lh_num_blocks (log_header_of (disk r (header_no st))) = 0" "\<And>x. x \<noteq> header_no st \<Longrightarrow> disk r x = ?D x" by metis
    then show ?thesis using 1 cp(3) [OF 1] hx by auto
  next
    case 2
    have h: "header st = log_header_of (?D (header_no st))" using cp(4) [OF 2(1)] 2(2) lh(1) by (simp add: log_header_roundtrip)
    from recover_replay [OF len h wf] obtain r where
      r: "init_bcache (sblock st) ?D = Some r" "idle_cache r" "pinned_nos r = {}"
        "lh_num_blocks (log_header_of (disk r (header_no st))) = 0"
        "\<And>t. t < ?n \<Longrightarrow> disk r (lh_block_no (header st) ! t) = ?D (log_block st t)"
        "\<And>x. x \<noteq> header_no st \<Longrightarrow> x \<notin> set (log_entries (header st)) \<Longrightarrow> disk r x = ?D x"
      unfolding log_block_sb by metis
    have "disk r x = cview st x" if x: "x \<notin> log_nos (sblock st)" for x
    proof (cases "x \<in> set (log_entries (header st))")
      case True
      with ent obtain t where "t < ?n" "x = lh_block_no (header st) ! t" by blast
      then show ?thesis using r(5) cp(5) [OF 2(1)] by simp
    next
      case False
      then show ?thesis using r(6) [OF hx [OF x]] cp(6) [OF 2(1) x] log_ready_view [OF lr] by simp
    qed
    then show ?thesis using r(1-4) 2(1) by auto
  next
    case 3
    then have k: "?n < k" by simp
    have "lh_num_blocks (log_header_of (?D (header_no st))) = 0" using cp(4) [OF k] 3 lh(1) by (simp add: log_header_roundtrip)
    from recover_empty [OF len lh(3) this] obtain r where
      r: "init_bcache (sblock st) ?D = Some r" "idle_cache r" "pinned_nos r = {}"
        "lh_num_blocks (log_header_of (disk r (header_no st))) = 0" "\<And>x. x \<noteq> header_no st \<Longrightarrow> disk r x = ?D x" by metis
    have "disk r x = cview st x" if x: "x \<notin> log_nos (sblock st)" for x
    proof (cases "x \<in> set (log_entries (header st))")
      case True
      with ent obtain t where "t < ?n" "x = lh_block_no (header st) ! t" by blast
      then show ?thesis using r(5) [OF hx [OF x]] cp(7) [OF 3] by simp
    next
      case False
      then show ?thesis using r(5) [OF hx [OF x]] cp(6) [OF k x] log_ready_view [OF lr] by simp
    qed
    then show ?thesis using r(1-4) k by auto
  qed
qed

lemma commit_durable:
  assumes lr: "log_ready st"
  shows "\<exists>st'. commit st = Some st' \<and> idle_cache st' \<and> pinned_nos st' = {} \<and> header st' = cleared (header st)
     \<and> sblock st' = sblock st \<and> committing st' = committing st \<and> outstanding st' = outstanding st \<and> log_lock st' = log_lock st
     \<and> wtrace st' = wtrace st @ commit_writes st \<and> disk st' (header_no st) = log_header_bytes (cleared (header st))
     \<and> (\<forall>x. x \<notin> log_nos (sblock st) \<longrightarrow> disk st' x = cview st x \<and> cview st' x = cview st x)"
proof -
  have "idle_cache st" "wf_header (sblock st) (header st)" "pinned_nos st = set (log_entries (header st))"
    using lr by (auto simp: log_ready_def)
  from commit_spec [OF this] obtain st' where
    st': "commit st = Some st'" "idle_cache st'" "pinned_nos st' = {}" "header st' = cleared (header st)" "sblock st' = sblock st"
      "committing st' = committing st" "outstanding st' = outstanding st" "log_lock st' = log_lock st"
      "wtrace st' = wtrace st @ commit_writes st" "disk st' = apply_writes (disk st) (commit_writes st)" by blast
  let ?k = "2 * unat (lh_num_blocks (header st)) + 2"
  have all: "take ?k (commit_writes st) = commit_writes st" by (simp add: commit_writes_def Let_def copies_def)
  note cp = commit_prefix [OF lr, where k = ?k, unfolded all]
  have "disk st' x = cview st x \<and> cview st' x = cview st x" if x: "x \<notin> log_nos (sblock st)" for x
  proof -
    have "disk st' x = cview st x"
    proof (cases "x \<in> set (log_entries (header st))")
      case True
      have "length (lh_block_no (header st)) = LOG_MAX_SIZE" "unat (lh_num_blocks (header st)) \<le> LOG_MAX_SIZE"
        using lr by (auto simp: log_ready_def wf_header_def)
      from entries_image [OF this] True obtain t where "t < unat (lh_num_blocks (header st))" "x = lh_block_no (header st) ! t"
        by (metis imageE lessThan_iff)
      then show ?thesis using cp(7) by (simp add: st')
    next
      case False
      then show ?thesis using cp(6) [of x] x log_ready_view [OF lr False] by (simp add: st')
    qed
    moreover have "cview st' x = disk st' x"
      by (rule cview_clean) (use st' in \<open>auto simp: idle_cache_def\<close>)
    ultimately show ?thesis by simp
  qed
  then show ?thesis using st' cp(4) by simp
qed

end
