(* ===== verification/Log_Ops.thy ===== *)
theory Log_Ops
  imports Log
begin

text \<open>
  Atomic operations on the block cache: any interleaving of the calls of the file system between
  \<open>begin_op\<close> and \<open>end_op\<close>, and the properties of the log that hold in all of them.
\<close>

section \<open>Runs\<close>

text \<open>
  \<open>op_run sb C st\<close>: the cache is in state \<open>st\<close> and \<open>C\<close> lists the contexts of the running atomic
  operations.  A caller acquires a block outside the log that nobody holds, changes the bytes of a
  block it holds, synchronises it under one of the contexts and releases it; a block it changed it
  synchronises before the release.  The last running operation ends when no block is held.
\<close>

inductive op_run :: "SuperBlock \<Rightarrow> OpContext list \<Rightarrow> cachest \<Rightarrow> bool" for sb where
  r_boot: "\<forall>n. length (D n) = BLOCK_SIZE \<Longrightarrow> wf_header sb (log_header_of (D (ucast (log_start sb)))) \<Longrightarrow>
     init_bcache sb D = Some st \<Longrightarrow> op_run sb [] st"
| r_begin: "op_run sb C st \<Longrightarrow> cache_begin_op st = (Some c, st') \<Longrightarrow> op_run sb (c # C) st'"
| r_sleep: "op_run sb C st \<Longrightarrow> cache_begin_op st = (None, st') \<Longrightarrow> op_run sb C st'"
| r_acquire: "op_run sb C st \<Longrightarrow> n \<noteq> 0 \<Longrightarrow> n \<notin> log_nos sb \<Longrightarrow> n \<notin> locked_nos st \<Longrightarrow>
     cache_acquire n st = Some (i, st') \<Longrightarrow> op_run sb C st'"
| r_write: "op_run sb C st \<Longrightarrow> holds st i n \<Longrightarrow> length d = BLOCK_SIZE \<Longrightarrow>
     op_run sb C (upd_block i (\<lambda>b. b\<lparr>bdata := d\<rparr>) st)"
| r_sync: "op_run sb (xs @ c # ys) st \<Longrightarrow> holds st i n \<Longrightarrow>
     cache_sync (Some c) i st = Some (Some c', st') \<Longrightarrow> op_run sb (xs @ c' # ys) st'"
| r_release: "op_run sb C st \<Longrightarrow> holds st i n \<Longrightarrow> pinned (bheap st i) \<or> bdata (bheap st i) = disk st n \<Longrightarrow>
     op_run sb C (cache_release i st)"
| r_end: "op_run sb (xs @ c # ys) st \<Longrightarrow> (xs @ ys = [] \<longrightarrow> locked_nos st = {}) \<Longrightarrow>
     cache_end_op (Some c) st = Some st' \<Longrightarrow> op_run sb (xs @ ys) st'"

definition budget :: "OpContext list \<Rightarrow> nat" where
  "budget C = sum_list (map (\<lambda>c. unat (rm c)) C)"

definition log_inv :: "SuperBlock \<Rightarrow> OpContext list \<Rightarrow> cachest \<Rightarrow> bool" where
  "log_inv sb C st \<longleftrightarrow>
     cache_inv st \<and> sblock st = sb \<and> wf_header sb (header st) \<and> pinned_nos st = set (log_entries (header st))
     \<and> lh_num_blocks (log_header_of (disk st (ucast (log_start sb)))) = 0 \<and> locked_nos st \<inter> log_nos sb = {}
     \<and> \<not> committing st \<and> outstanding st = int (length C)
     \<and> unat (lh_num_blocks (header st)) + budget C \<le> LOG_MAX_SIZE
     \<and> (\<forall>c\<in>set C. unat (rm c) \<le> OP_MAX_NUM_BLOCKS)"

lemma budget_simps [simp]: "budget [] = 0" "budget (c # C) = unat (rm c) + budget C" "budget (xs @ ys) = budget xs + budget ys"
  by (simp_all add: budget_def)

lemma budget_bound: "\<forall>c\<in>set C. unat (rm c) \<le> m \<Longrightarrow> budget C \<le> length C * m"
  by (induction C) (auto simp: algebra_simps)

section \<open>Every call keeps the invariant\<close>

lemma header_disk_frame:
  assumes "disk st' = (disk st)(n := d)" "n \<notin> log_nos (sblock st)" "sblock st' = sblock st"
  shows "disk st' (header_no st') = disk st (header_no st)"
  using assms header_no_log [of st] by auto

lemma boot_inv:
  assumes "\<forall>n. length (D n) = BLOCK_SIZE" "wf_header sb (log_header_of (D (ucast (log_start sb))))" "init_bcache sb D = Some st"
  shows "log_inv sb [] st"
proof -
  let ?h = "log_header_of (D (ucast (log_start sb)))"
  from init_bcache_spec [OF assms(1) refl assms(2)] assms(3) have
    r: "idle_cache st" "pinned_nos st = {}" "header st = cleared ?h" "sblock st = sb" "\<not> committing st" "outstanding st = 0"
    by auto
  from recover_replay [OF assms(1) refl assms(2)] assms(3)
  have z: "lh_num_blocks (log_header_of (disk st (ucast (log_start sb)))) = 0" by (metis option.inject)
  have "wf_header sb (cleared ?h)" by (rule wf_header_empty) (use assms(2) in \<open>auto simp: wf_header_def\<close>)
  then show ?thesis using r z by (simp add: log_inv_def idle_cache_def log_entries_def)
qed

lemma begin_op_cases:
  "cache_begin_op st = (oc, st') \<Longrightarrow>
     (\<exists>l. oc = None \<and> st' = st\<lparr>log_lock := l\<rparr>)
     \<or> (\<exists>l. oc = Some \<lparr>rm = of_nat OP_MAX_NUM_BLOCKS\<rparr> \<and> st' = st\<lparr>log_lock := l, outstanding := outstanding st + 1\<rparr>
          \<and> \<not> op_must_wait st)"
proof (induction st rule: cache_begin_op.induct)
  case (1 st)
  show ?case
  proof (cases "op_must_wait st")
    case False
    then have e: "oc = Some \<lparr>rm = of_nat OP_MAX_NUM_BLOCKS\<rparr>" "st' = st\<lparr>outstanding := outstanding st + 1\<rparr>"
      using "1.prems" by (simp_all add: cache_begin_op.simps [of st] Let_def)
    have "st' = st\<lparr>log_lock := log_lock st, outstanding := outstanding st + 1\<rparr>" using e(2) by simp
    then show ?thesis using e(1) False by blast
  next
    case True
    show ?thesis
    proof (cases "0 \<le> log_lock st - 1")
      case False
      then have "oc = None" "st' = st\<lparr>log_lock := log_lock st - 1\<rparr>"
        using "1.prems" True by (simp_all add: cache_begin_op.simps [of st] Let_def)
      then show ?thesis by blast
    next
      case ge: True
      have w: "op_must_wait (st\<lparr>log_lock := log_lock st - 1\<rparr>)" using True by (simp add: op_must_wait_def)
      have "cache_begin_op (st\<lparr>log_lock := log_lock st - 1\<rparr>) = (oc, st')"
        using "1.prems" True ge by (simp add: cache_begin_op.simps [of st] Let_def)
      from "1.IH" [OF True refl _ this] ge w obtain l where "oc = None" "st' = st\<lparr>log_lock := l\<rparr>" by auto
      then show ?thesis by blast
    qed
  qed
qed

lemma log_inv_frame:
  assumes "log_inv sb C st"
  shows "log_inv sb C (st\<lparr>log_lock := l\<rparr>)"
proof -
  have "cache_inv (st\<lparr>log_lock := l\<rparr>) = cache_inv st" "pinned_nos (st\<lparr>log_lock := l\<rparr>) = pinned_nos st"
    "locked_nos (st\<lparr>log_lock := l\<rparr>) = locked_nos st"
    by (simp_all add: cache_inv_def pinned_nos_def locked_nos_def)
  then show ?thesis using assms by (simp add: log_inv_def)
qed

lemma cache_inv_outstanding:
  "cache_inv (st\<lparr>outstanding := k\<rparr>) = cache_inv st" "pinned_nos (st\<lparr>outstanding := k\<rparr>) = pinned_nos st"
  "locked_nos (st\<lparr>outstanding := k\<rparr>) = locked_nos st"
  by (simp_all add: cache_inv_def pinned_nos_def locked_nos_def)

lemma begin_op_inv:
  assumes inv: "log_inv sb C st" and b: "cache_begin_op st = (Some c, st')"
  shows "log_inv sb (c # C) st'"
proof -
  from begin_op_cases [OF b] obtain l where
    c: "c = \<lparr>rm = of_nat OP_MAX_NUM_BLOCKS\<rparr>" "st' = st\<lparr>log_lock := l, outstanding := outstanding st + 1\<rparr>" "\<not> op_must_wait st" by auto
  have r: "unat (rm c) = 10" by (simp add: c OP_MAX_NUM_BLOCKS_def)
  have "int (unat (lh_num_blocks (header st)) + (length C + 1) * 10) \<le> int 63"
    using c(3) inv by (simp add: op_must_wait_def log_inv_def OP_MAX_NUM_BLOCKS_def fs_sizes)
  then have "unat (lh_num_blocks (header st)) + (length C + 1) * 10 \<le> 63" by (simp only: of_nat_le_iff)
  moreover have "budget C \<le> length C * 10"
    by (rule budget_bound) (use inv in \<open>simp add: log_inv_def OP_MAX_NUM_BLOCKS_def\<close>)
  ultimately have "unat (lh_num_blocks (header st)) + budget (c # C) \<le> LOG_MAX_SIZE"
    using r by (simp add: fs_sizes)
  then show ?thesis
    using log_inv_frame [OF inv, of l] r by (simp add: c(2) log_inv_def cache_inv_outstanding OP_MAX_NUM_BLOCKS_def)
qed

lemma acquire_inv:
  assumes inv: "log_inv sb C st" and n: "n \<noteq> 0" "n \<notin> log_nos sb" "n \<notin> locked_nos st" and a: "cache_acquire n st = Some (i, st')"
  shows "log_inv sb C st'"
proof -
  have c: "cache_inv st" "sblock st = sb" using inv by (auto simp: log_inv_def)
  have "n \<noteq> header_no st" using n(2) header_no_log [of st] c(2) by auto
  from cache_acquire_spec [OF c(1) n(1,3) this] a have
    "cache_inv st'" "disk st' = disk st" "same_meta st st'" "locked_nos st' = insert n (locked_nos st)" "pinned_nos st' = pinned_nos st"
    by (metis option.inject prod.inject)+
  then show ?thesis using inv n(2) by (simp add: log_inv_def same_meta_def)
qed

lemma write_inv:
  assumes inv: "log_inv sb C st" and h: "holds st i n" and d: "length d = BLOCK_SIZE"
  shows "log_inv sb C (upd_block i (\<lambda>b. b\<lparr>bdata := d\<rparr>) st)"
    "cview (upd_block i (\<lambda>b. b\<lparr>bdata := d\<rparr>) st) = (cview st)(n := d)"
proof -
  have c: "cache_inv st" using inv by (auto simp: log_inv_def)
  let ?b = "(bheap st i)\<lparr>bdata := d\<rparr>"
  have e: "upd_block i (\<lambda>b. b\<lparr>bdata := d\<rparr>) st = upd_block i (\<lambda>_. ?b) st" by (simp add: upd_block_def)
  have i: "i \<in> set (head st)" "block_no (bheap st i) = n" "locked (bheap st i)" "n \<noteq> 0" using h by (auto simp: holds_def)
  have b: "length (bdata ?b) = BLOCK_SIZE" "block_no ?b = n" "acquired ?b" "locked ?b" "valid ?b"
    using d i cache_invD(4,5) [OF c i(1)] by simp_all
  note u = held_update [OF c h b]
  have "pinned_nos (upd_block i (\<lambda>_. ?b) st) = pinned_nos st"
    using upd_pinned_nos [OF c h b(2)] pinned_nos_iff [OF c h] by auto
  then show "log_inv sb C (upd_block i (\<lambda>b. b\<lparr>bdata := d\<rparr>) st)" unfolding e
    using inv u by (simp add: log_inv_def)
  show "cview (upd_block i (\<lambda>b. b\<lparr>bdata := d\<rparr>) st) = (cview st)(n := d)" unfolding e using u(2) by simp
qed

lemma release_inv:
  assumes inv: "log_inv sb C st" and h: "holds st i n" and cl: "pinned (bheap st i) \<or> bdata (bheap st i) = disk st n"
  shows "log_inv sb C (cache_release i st)"
proof -
  have c: "cache_inv st" using inv by (auto simp: log_inv_def)
  note r = held_release [OF c h cl]
  show ?thesis using inv r(1,3,4,5,7) unfolding log_inv_def same_meta_def by auto
qed

text \<open>The header after a synchronisation: the block is an entry, new or old.\<close>

lemma header_index_entries:
  assumes "unat (lh_num_blocks (header st)) \<le> length (lh_block_no (header st))"
  shows "n \<in> set (log_entries (header st)) \<Longrightarrow> header_index n st < unat (lh_num_blocks (header st))
      \<and> lh_block_no (header st) ! header_index n st = n"
    "n \<notin> set (log_entries (header st)) \<Longrightarrow> header_index n st = unat (lh_num_blocks (header st))"
proof -
  let ?e = "log_entries (header st)"
  have k: "header_index n st = length (takeWhile (\<lambda>m. m \<noteq> n) ?e)" by (simp add: header_index_def log_entries_def)
  have l: "length ?e = unat (lh_num_blocks (header st))" using assms by (simp add: log_entries_def)
  { assume "n \<in> set ?e"
    then have lt: "length (takeWhile (\<lambda>m. m \<noteq> n) ?e) < length ?e"
      by (metis (mono_tags, lifting) length_takeWhile_le nat_less_le set_takeWhileD takeWhile_eq_take take_all_iff order_refl)
    from nth_length_takeWhile [OF lt] lt show "header_index n st < unat (lh_num_blocks (header st))
      \<and> lh_block_no (header st) ! header_index n st = n" by (simp add: k l) (simp add: log_entries_def) }
  assume "n \<notin> set ?e"
  then have e: "takeWhile (\<lambda>m. m \<noteq> n) ?e = ?e" by (auto simp: takeWhile_eq_all_conv)
  show "header_index n st = unat (lh_num_blocks (header st))" unfolding k e by (rule l)
qed

lemma pin_held:
  assumes inv: "cache_inv st" and h: "holds st i n"
  defines "t \<equiv> upd_block i (\<lambda>b. b\<lparr>pinned := True\<rparr>) st"
  shows "cache_inv t" "cview t = cview st" "locked_nos t = locked_nos st" "holds t i n" "pinned_nos t = insert n (pinned_nos st)"
proof -
  let ?b = "(bheap st i)\<lparr>pinned := True\<rparr>"
  have e: "t = upd_block i (\<lambda>_. ?b) st" by (simp add: t_def upd_block_def)
  have i: "i \<in> set (head st)" "block_no (bheap st i) = n" "locked (bheap st i)" "n \<noteq> 0" using h by (auto simp: holds_def)
  have b: "length (bdata ?b) = BLOCK_SIZE" "block_no ?b = n" "acquired ?b" "locked ?b" "valid ?b"
    using i cache_invD(4,5,7) [OF inv i(1)] by simp_all
  note u = held_update [OF inv h b, folded e]
  show "cache_inv t" "locked_nos t = locked_nos st" "holds t i n" by (rule u)+
  show "cview t = cview st" using u(2) cview_cached [OF inv i(1)] i by (simp add: fun_upd_idem_iff)
  show "pinned_nos t = insert n (pinned_nos st)" using upd_pinned_nos [OF inv h b(2), folded e] by simp
qed

lemma cache_inv_header:
  "cache_inv (st\<lparr>header := h\<rparr>) = cache_inv st" "pinned_nos (st\<lparr>header := h\<rparr>) = pinned_nos st"
  "locked_nos (st\<lparr>header := h\<rparr>) = locked_nos st" "cview (st\<lparr>header := h\<rparr>) = cview st" "holds (st\<lparr>header := h\<rparr>) i n = holds st i n"
  by (simp_all add: cache_inv_def pinned_nos_def locked_nos_def cview_def fun_eq_iff holds_def split: option.splits)

text \<open>A synchronisation succeeds when the block is logged already or the context has room.\<close>

lemma sync_spec:
  assumes inv: "log_inv sb (xs @ c # ys) st" and h: "holds st i n"
    and room: "n \<in> set (log_entries (header st)) \<or> rm c \<noteq> 0"
  shows "\<exists>c' st'. cache_sync (Some c) i st = Some (Some c', st') \<and> log_inv sb (xs @ c' # ys) st'
     \<and> cview st' = cview st \<and> holds st' i n \<and> pinned (bheap st' i) \<and> disk st' = disk st \<and> wtrace st' = wtrace st
     \<and> set (log_entries (header st')) = insert n (set (log_entries (header st))) \<and> locked_nos st' = locked_nos st
     \<and> unat (lh_num_blocks (header st')) \<le> Suc (unat (lh_num_blocks (header st)))
     \<and> unat (rm c') = (if n \<in> set (log_entries (header st)) then unat (rm c) else unat (rm c) - 1)"
proof -
  let ?t = "upd_block i (\<lambda>b. b\<lparr>pinned := True\<rparr>) st"
  let ?h = "header st" and ?m = "unat (lh_num_blocks (header st))"
  have c: "cache_inv st" and wf: "wf_header sb ?h" and bud: "?m + budget (xs @ c # ys) \<le> LOG_MAX_SIZE"
    and sb: "sblock st = sb" and lk: "locked_nos st \<inter> log_nos sb = {}"
    using inv by (simp_all add: log_inv_def)
  have lh: "length (lh_block_no ?h) = LOG_MAX_SIZE" "?m \<le> LOG_MAX_SIZE" using wf by (auto simp: wf_header_def)
  note p = pin_held [OF c h]
  have bn: "block_no (bheap ?t i) = n" "n \<noteq> 0" "n \<in> locked_nos st" using h by (auto simp: holds_def locked_nos_def)
  have nl: "n \<notin> log_nos sb" using bn(3) lk by auto
  have hi: "header_index n ?t = header_index n st" by (simp add: header_index_def)
  note idx = header_index_entries [of st n]
  show ?thesis
  proof (cases "n \<in> set (log_entries ?h)")
    case True
    then have k: "header_index n st < ?m" "lh_block_no ?h ! header_index n st = n" using idx(1) lh by auto
    have ne: "(of_nat (header_index n st) :: usize) \<noteq> lh_num_blocks ?h"
    proof
      assume "(of_nat (header_index n st) :: usize) = lh_num_blocks ?h"
      then have "unat (of_nat (header_index n st) :: usize) = ?m" by simp
      then show False using k(1) lh(2) by (simp add: unat_of_nat_u64 fs_sizes)
    qed
    have "(lh_block_no ?h)[header_index n st := n] = lh_block_no ?h" using k(2) by (metis list_update_id)
    then have e: "cache_sync (Some c) i st = Some (Some c, ?t)"
      using k lh ne bn by (simp add: cache_sync_def hi)
    have "log_inv sb (xs @ c # ys) ?t"
      using inv p True by (simp add: log_inv_def insert_absorb)
    then show ?thesis using e p True by (auto simp: insert_absorb)
  next
    case False
    then have r: "rm c \<noteq> 0" using room by simp
    then have r1: "0 < unat (rm c)" by (simp add: unat_gt_0)
    have k: "header_index n st = ?m" using idx(2) lh False by auto
    have m: "?m < LOG_MAX_SIZE" using bud r1 by simp
    define h' where "h' = ?h\<lparr>lh_block_no := (lh_block_no ?h)[?m := n], lh_num_blocks := lh_num_blocks ?h + 1\<rparr>"
    have num': "unat (lh_num_blocks h') = Suc ?m"
      using m by (simp add: h'_def unat_add_no_wrap fs_sizes)
    have ent: "log_entries h' = log_entries ?h @ [n]"
      using m lh unfolding log_entries_def num' by (simp add: h'_def take_Suc_update)
    have e: "cache_sync (Some c) i st = Some (Some (c\<lparr>rm := rm c - 1\<rparr>), ?t\<lparr>header := h'\<rparr>)"
      using m r bn by (simp add: cache_sync_def hi k h'_def)
    have rm': "unat (rm c - 1) = unat (rm c) - 1" using r by (simp add: unat_minus_one)
    have wf': "wf_header sb h'"
      using wf False nl bn(2) m lh num' unfolding wf_header_def ent by (auto simp: h'_def)
    have "unat (rm c) \<le> OP_MAX_NUM_BLOCKS" using inv by (simp add: log_inv_def)
    then have "unat (rm c) - 1 \<le> OP_MAX_NUM_BLOCKS" by linarith
    then have "log_inv sb (xs @ (c\<lparr>rm := rm c - 1\<rparr>) # ys) (?t\<lparr>header := h'\<rparr>)"
      using inv p wf' bud num' rm' r1 unfolding log_inv_def cache_inv_header
      by (simp add: ent)
    then show ?thesis using e p num' rm' False by (auto simp: cache_inv_header ent)
  qed
qed

lemma log_ready_of_inv:
  assumes "log_inv sb C st" "locked_nos st = {}" shows "log_ready st"
  using assms by (auto simp: log_inv_def log_ready_def idle_cache_def)

lemma frame_ready:
  "log_ready (st\<lparr>outstanding := k, committing := b\<rparr>) = log_ready st"
  "commit_writes (st\<lparr>outstanding := k, committing := b\<rparr>) = commit_writes st"
  "cview (st\<lparr>outstanding := k, committing := b\<rparr>) = cview st"
proof -
  let ?t = "st\<lparr>outstanding := k, committing := b\<rparr>"
  show v: "cview ?t = cview st" by (simp add: cview_def fun_eq_iff split: option.splits)
  have "log_block ?t = log_block st" by (simp add: fun_eq_iff log_block_def)
  then show "commit_writes ?t = commit_writes st" by (simp add: commit_writes_def v)
  show "log_ready ?t = log_ready st"
    by (simp add: log_ready_def idle_cache_def cache_inv_def locked_nos_def pinned_nos_def)
qed

lemma end_op_last:
  assumes inv: "log_inv sb [c] st" and l: "locked_nos st = {}"
  shows "\<exists>st'. cache_end_op (Some c) st = Some st' \<and> log_inv sb [] st' \<and> wtrace st' = wtrace st @ commit_writes st
     \<and> (\<forall>x. x \<notin> log_nos sb \<longrightarrow> disk st' x = cview st x \<and> cview st' x = cview st x)"
proof -
  let ?s = "st\<lparr>outstanding := 0, committing := True\<rparr>"
  have lr: "log_ready ?s" using log_ready_of_inv [OF inv l] by (simp only: frame_ready)
  have i: "outstanding st = 1" "\<not> committing st" "sblock st = sb" "wf_header sb (header st)" using inv by (auto simp: log_inv_def)
  from commit_durable [OF lr] i(3) obtain s' where
    s': "commit ?s = Some s'" "idle_cache s'" "pinned_nos s' = {}" "header s' = cleared (header st)" "sblock s' = sb"
      "outstanding s' = 0" "wtrace s' = wtrace st @ commit_writes st"
      "disk s' (ucast (log_start sb)) = log_header_bytes (cleared (header st))"
      "\<forall>x. x \<notin> log_nos sb \<longrightarrow> disk s' x = cview st x \<and> cview s' x = cview st x"
    by (auto simp: frame_ready)
  let ?e = "wake_log (s'\<lparr>committing := False\<rparr>)"
  have e: "cache_end_op (Some c) st = Some ?e"
    using i s'(1) by (simp add: cache_end_op_def)
  have f: "cache_inv ?e = cache_inv s'" "pinned_nos ?e = pinned_nos s'" "locked_nos ?e = locked_nos s'" "cview ?e = cview s'"
    by (simp_all add: wake_log_def cache_inv_def pinned_nos_def locked_nos_def cview_def fun_eq_iff split: option.splits)
  have g: "sblock ?e = sb" "header ?e = cleared (header st)" "disk ?e = disk s'" "\<not> committing ?e" "outstanding ?e = 0"
    "wtrace ?e = wtrace st @ commit_writes st"
    using s' by (simp_all add: wake_log_def)
  have len: "length (lh_block_no (header st)) = LOG_MAX_SIZE" using i(4) by (auto simp: wf_header_def)
  have "wf_header sb (cleared (header st))" by (rule wf_header_empty) (use i(4) in \<open>auto simp: wf_header_def\<close>)
  then have "log_inv sb [] ?e"
    unfolding log_inv_def f g using s' len g(4) by (simp add: idle_cache_def log_entries_def log_header_roundtrip)
  then show ?thesis using e f(4) g s'(9) by auto
qed

lemma end_op_other:
  assumes inv: "log_inv sb (xs @ c # ys) st" and ne: "xs @ ys \<noteq> []"
  shows "cache_end_op (Some c) st = Some (wake_log (st\<lparr>outstanding := outstanding st - 1\<rparr>))"
    "log_inv sb (xs @ ys) (wake_log (st\<lparr>outstanding := outstanding st - 1\<rparr>))"
proof -
  let ?e = "wake_log (st\<lparr>outstanding := outstanding st - 1\<rparr>)"
  have o: "outstanding st = int (length xs) + int (length ys) + 1" "\<not> committing st" using inv by (auto simp: log_inv_def)
  have "0 < length xs + length ys" using ne by (cases xs) auto
  then have "outstanding st - 1 \<noteq> 0" using o(1) by linarith
  then show "cache_end_op (Some c) st = Some ?e" using o(2) by (simp add: cache_end_op_def)
  have f: "cache_inv ?e = cache_inv st" "pinned_nos ?e = pinned_nos st" "locked_nos ?e = locked_nos st"
    by (simp_all add: wake_log_def cache_inv_def pinned_nos_def locked_nos_def)
  show "log_inv sb (xs @ ys) ?e"
    using inv unfolding log_inv_def f by (auto simp: wake_log_def)
qed

lemma op_run_inv: "op_run sb C st \<Longrightarrow> log_inv sb C st"
proof (induction rule: op_run.induct)
  case (r_boot D st)
  then show ?case by (rule boot_inv)
next
  case (r_begin C st c st')
  then show ?case by (blast intro: begin_op_inv)
next
  case (r_sleep C st st')
  then show ?case using begin_op_cases [of st None st'] log_inv_frame by auto
next
  case (r_acquire C st n i st')
  then show ?case by (blast intro: acquire_inv)
next
  case (r_write C st i n d)
  then show ?case by (blast intro: write_inv)
next
  case (r_sync xs c ys st i n c' st')
  have "n \<in> set (log_entries (header st)) \<or> rm c \<noteq> 0"
  proof (rule ccontr)
    assume "\<not> ?thesis"
    then have r: "n \<notin> set (log_entries (header st))" "rm c = 0" by auto
    have "length (lh_block_no (header st)) = LOG_MAX_SIZE" "unat (lh_num_blocks (header st)) \<le> LOG_MAX_SIZE"
      using r_sync.IH by (auto simp: log_inv_def wf_header_def)
    then have "header_index n st = unat (lh_num_blocks (header st))" using header_index_entries(2) [of st n] r by simp
    then show False using r_sync.hyps(2,3) r(2)
      by (simp add: cache_sync_def holds_def header_index_def)
  qed
  from sync_spec [OF r_sync.IH r_sync.hyps(2) this] r_sync.hyps(3) show ?case by auto
next
  case (r_release C st i n)
  then show ?case by (blast intro: release_inv)
next
  case (r_end xs c ys st st')
  show ?case
  proof (cases "xs @ ys = []")
    case True
    with r_end end_op_last [of sb c st] show ?thesis by auto
  next
    case False
    from end_op_other [OF r_end.IH False] r_end.hyps(3) show ?thesis by simp
  qed
qed

section \<open>Crashes during recovery\<close>

lemma recover_crash:
  assumes len: "\<forall>n. length (D n) = BLOCK_SIZE" and wf: "wf_header sb (log_header_of (D (ucast (log_start sb))))"
    and r: "init_bcache sb D = Some r"
  shows "\<exists>r'. init_bcache sb (apply_writes D (take j (wtrace r))) = Some r' \<and> (\<forall>x. x \<notin> log_nos sb \<longrightarrow> disk r' x = disk r x)"
proof -
  define h where "h = log_header_of (D (ucast (log_start sb)))"
  define n where "n = unat (lh_num_blocks h)"
  define en where "en = (\<lambda>t. lh_block_no h ! t)"
  define lb where "lb = (\<lambda>t. ucast (log_start sb) + of_nat t + 1 :: usize)"
  define H where "H = (ucast (log_start sb) :: usize, log_header_bytes (cleared h))"
  define E where "E = apply_writes D (take j (wtrace r))"
  have wfh: "wf_header sb h" using wf by (simp add: h_def)
  from recover_replay [OF len h_def wfh] r have
    w: "wtrace r = copies en lb D n @ [H]" and d1: "\<And>t. t < n \<Longrightarrow> disk r (en t) = D (lb t)"
    and d2: "\<And>x. x \<noteq> ucast (log_start sb) \<Longrightarrow> x \<notin> set (log_entries h) \<Longrightarrow> disk r x = D x"
    unfolding n_def en_def lb_def H_def by (metis option.inject)+
  define st where "st = \<lparr>sblock = sb, disk = D, wtrace = [], bheap = (\<lambda>_. init_block), head = [], bfresh = 0, header = h,
        committing = False, outstanding = 0, log_lock = 1\<rparr>"
  have wst: "wf_header (sblock st) (header st)" using wfh by (simp add: st_def)
  have lh: "length (lh_block_no h) = LOG_MAX_SIZE" "n \<le> LOG_MAX_SIZE" "log_start sb \<noteq> 0" using wfh by (auto simp: wf_header_def n_def)
  have hl: "(ucast (log_start sb) :: usize) \<in> log_nos sb" using header_no_log [of st] by (simp add: st_def)
  have enl: "en t \<notin> log_nos sb" if "t < n" for t using wf_headerD(5) [OF wst, of t] that by (simp add: st_def en_def n_def)
  have lbl: "lb t \<in> log_nos sb" "lb t \<noteq> ucast (log_start sb)" if "t < n" for t
    using log_block_props(2,3) [of st t] that lh by (simp_all add: st_def log_block_def lb_def)
  have ents: "en ` {..<n} = set (log_entries h)" using entries_image [OF lh(1)] lh(2) by (simp add: en_def n_def)
  have inj: "inj_on en {..<n}" using wf_header_inj(2) [OF wst] by (simp add: st_def en_def n_def)
  have lenE: "\<forall>x. length (E x) = BLOCK_SIZE"
  proof
    fix x show "length (E x) = BLOCK_SIZE" unfolding E_def
    proof (rule apply_writes_length [OF len])
      have "\<forall>w\<in>set (wtrace r). length (snd w) = BLOCK_SIZE"
        using len lh(1) by (auto simp: w H_def copies_def log_header_roundtrip)
      then show "\<forall>w\<in>set (take j (wtrace r)). length (snd w) = BLOCK_SIZE" using set_take_subset by fastforce
    qed
  qed
  have lenc: "length (copies en lb D n) = n" by (simp add: copies_def)
  show ?thesis
  proof (cases "j \<le> n")
    case True
    have E: "E = apply_writes D (take j (copies en lb D n))" using True lenc by (simp add: E_def w)
    have same: "E x = D x" if "x \<notin> en ` {..<n}" for x
    proof -
      have "fst ` set (take j (copies en lb D n)) \<subseteq> en ` {..<n}"
        using image_mono [OF set_take_subset, of fst j "copies en lb D n"] by (simp add: copies_dom)
      then show ?thesis unfolding E by (intro apply_writes_other) (use that in blast)
    qed
    have "ucast (log_start sb) \<notin> en ` {..<n}" using enl hl by (metis imageE lessThan_iff)
    then have hE: "h = log_header_of (E (ucast (log_start sb)))" using same by (simp add: h_def)
    from recover_replay [OF lenE hE wfh] obtain r' where
      r': "init_bcache sb E = Some r'" "\<And>t. t < n \<Longrightarrow> disk r' (en t) = E (lb t)"
        "\<And>x. x \<noteq> ucast (log_start sb) \<Longrightarrow> x \<notin> set (log_entries h) \<Longrightarrow> disk r' x = E x"
      unfolding n_def en_def lb_def by metis
    have "disk r' x = disk r x" if x: "x \<notin> log_nos sb" for x
    proof (cases "x \<in> set (log_entries h)")
      case True
      with ents obtain t where t: "t < n" "x = en t" by (metis imageE lessThan_iff)
      have "lb t \<notin> en ` {..<n}" using enl lbl(1) [OF t(1)] by (metis imageE lessThan_iff)
      then show ?thesis using r'(2) [OF t(1)] d1 [OF t(1)] same t by simp
    next
      case False
      have "x \<noteq> ucast (log_start sb)" using x hl by auto
      then show ?thesis using r'(3) [of x] d2 [of x] same [of x] False ents by simp
    qed
    then show ?thesis using r'(1) by (auto simp: E_def)
  next
    case False
    have E: "E = disk r"
    proof -
      have "take j (wtrace r) = wtrace r" using False lenc by (simp add: w)
      moreover have "disk r = apply_writes D (wtrace r)" using init_bcache_spec [OF len h_def wfh] r by auto
      ultimately show ?thesis by (simp add: E_def)
    qed
    have z: "lh_num_blocks (log_header_of (E (ucast (log_start sb)))) = 0"
      using recover_replay [OF len h_def wfh] r E by (metis option.inject)
    from recover_empty [OF lenE lh(3) z] obtain r' where
      r': "init_bcache sb E = Some r'" "\<And>x. x \<noteq> ucast (log_start sb) \<Longrightarrow> disk r' x = E x" by metis
    have "disk r' x = disk r x" if "x \<notin> log_nos sb" for x using r'(2) [of x] E that hl by auto
    then show ?thesis using r'(1) by (auto simp: E_def)
  qed
qed

section \<open>Properties\<close>

text \<open>
  C1: crash atomicity of the file system.  In every state of every run, when the last running
  operation ends, \<open>end_op\<close> returns and every block outside the log holds on the device what the cache
  showed.  If the machine stops after any number of the device writes of the commit, the next boot
  succeeds, and afterwards either every block outside the log is as it was before the commit, or
  every block is as the operations left it.
\<close>

theorem end_op_crash_atomic:
  assumes "op_run sb [c] st" "locked_nos st = {}"
  shows "\<exists>st' ws. cache_end_op (Some c) st = Some st' \<and> wtrace st' = wtrace st @ ws
     \<and> (\<forall>x. x \<notin> log_nos sb \<longrightarrow> disk st' x = cview st x)
     \<and> (\<forall>k. \<exists>r. init_bcache sb (apply_writes (disk st) (take k ws)) = Some r
          \<and> ((\<forall>x. x \<notin> log_nos sb \<longrightarrow> disk r x = disk st x) \<or> (\<forall>x. x \<notin> log_nos sb \<longrightarrow> disk r x = cview st x)))"
proof -
  have inv: "log_inv sb [c] st" by (rule op_run_inv [OF assms(1)])
  have lr: "log_ready st" by (rule log_ready_of_inv [OF inv assms(2)])
  have sb: "sblock st = sb" using inv by (simp add: log_inv_def)
  from end_op_last [OF inv assms(2)] obtain st' where
    st': "cache_end_op (Some c) st = Some st'" "wtrace st' = wtrace st @ commit_writes st"
      "\<forall>x. x \<notin> log_nos sb \<longrightarrow> disk st' x = cview st x" by blast
  have "\<exists>r. init_bcache sb (apply_writes (disk st) (take k (commit_writes st))) = Some r
     \<and> ((\<forall>x. x \<notin> log_nos sb \<longrightarrow> disk r x = disk st x) \<or> (\<forall>x. x \<notin> log_nos sb \<longrightarrow> disk r x = cview st x))" for k
    using crash_recovery [OF lr, of k] unfolding sb by (cases "k \<le> unat (lh_num_blocks (header st))") auto
  then show ?thesis using st' by blast
qed

text \<open>A run for the witnesses: an empty device whose log starts at block 2, and one operation.\<close>

definition example_sb :: SuperBlock where
  "example_sb = \<lparr>num_blocks = 1000, num_data_blocks = 900, num_inodes = 200, num_log_blocks = 64, log_start = 2,
                 inode_start = 70, bitmap_start = 98\<rparr>"

lemma example_begin_dev:
  assumes len: "\<forall>n. length (D n) = BLOCK_SIZE" and z: "D 2 = replicate BLOCK_SIZE 0"
  shows "\<exists>c st. op_run example_sb [c] st \<and> locked_nos st = {} \<and> rm c = 10 \<and> lh_num_blocks (header st) = 0
    \<and> (\<forall>x. x \<noteq> 2 \<longrightarrow> cview st x = D x)"
proof -
  have ls: "(ucast (log_start example_sb) :: usize) = 2" by (simp add: example_sb_def)
  have hz: "lh_num_blocks (log_header_of (D (ucast (log_start example_sb)))) = 0"
    by (simp add: ls z log_header_of_def Let_def le_words_zero)
  have wf: "wf_header example_sb (log_header_of (D (ucast (log_start example_sb))))"
    by (rule wf_header_empty [OF _ _ hz]) (simp_all add: example_sb_def)
  have ls0: "log_start example_sb \<noteq> 0" by (simp add: example_sb_def)
  from recover_empty [OF len ls0 hz] obtain s where
    s: "init_bcache example_sb D = Some s" "idle_cache s" "pinned_nos s = {}" "\<And>x. x \<noteq> 2 \<Longrightarrow> disk s x = D x"
    unfolding ls by metis
  have r: "op_run example_sb [] s" by (rule op_run.r_boot [OF len wf s(1)])
  have nz: "lh_num_blocks (header s) = 0" using init_bcache_spec [OF len refl wf] s(1) by auto
  have v: "cview s x = D x" if "x \<noteq> 2" for x
    using cview_clean [of s x] s(2,3,4) that by (simp add: idle_cache_def)
  have "\<not> committing s" "outstanding s = 0" using op_run_inv [OF r] by (auto simp: log_inv_def)
  then have "\<not> op_must_wait s" using nz by (simp add: op_must_wait_def OP_MAX_NUM_BLOCKS_def fs_sizes)
  then have "cache_begin_op s = (Some \<lparr>rm = of_nat OP_MAX_NUM_BLOCKS\<rparr>, s\<lparr>outstanding := outstanding s + 1\<rparr>)"
    by (simp add: cache_begin_op.simps [of s])
  moreover have "cview (s\<lparr>outstanding := outstanding s + 1\<rparr>) = cview s"
    by (simp add: cview_def fun_eq_iff split: option.splits)
  ultimately show ?thesis using op_run.r_begin [OF r] s(2) nz v
    by (intro exI [of _ "\<lparr>rm = of_nat OP_MAX_NUM_BLOCKS\<rparr>"] exI [of _ "s\<lparr>outstanding := outstanding s + 1\<rparr>"])
      (simp add: cache_inv_outstanding OP_MAX_NUM_BLOCKS_def idle_cache_def)
qed

lemma example_begin: "\<exists>c st. op_run example_sb [c] st \<and> locked_nos st = {} \<and> rm c = 10 \<and> lh_num_blocks (header st) = 0"
  using example_begin_dev [of "\<lambda>_. replicate BLOCK_SIZE 0"] by auto

lemma example_free_no: "(600 :: usize) \<notin> log_nos example_sb"
proof
  assume "(600 :: usize) \<in> log_nos example_sb"
  then obtain k where k: "k \<le> LOG_MAX_SIZE" "(2 + of_nat k :: usize) = 2 + of_nat 598"
    by (auto simp: log_nos_def example_sb_def)
  then have "k = 598" by (subst (asm) word_add_offset_eq_iff) (simp_all add: fs_sizes)
  then show False using k(1) by (simp add: fs_sizes)
qed

lemma example_hold: "\<exists>c st i. op_run example_sb [c] st \<and> holds st i 600 \<and> rm c = 10 \<and> locked_nos st = {600}
   \<and> lh_num_blocks (header st) = 0"
proof -
  from example_begin obtain c s where s: "op_run example_sb [c] s" "locked_nos s = {}" "rm c = 10" "lh_num_blocks (header s) = 0" by blast
  have inv: "cache_inv s" "sblock s = example_sb" using op_run_inv [OF s(1)] by (auto simp: log_inv_def)
  have n: "(600 :: usize) \<noteq> 0" "600 \<notin> locked_nos s" using s(2) by simp_all
  have "600 \<noteq> header_no s" using header_no_log [of s] example_free_no inv(2) by metis
  from cache_acquire_spec [OF inv(1) n this] obtain i s' where
    a: "cache_acquire 600 s = Some (i, s')" "holds s' i 600" "locked_nos s' = insert 600 (locked_nos s)"
      "same_meta s s'" by metis
  have "header s' = header s" using a(4) by (simp add: same_meta_def)
  with op_run.r_acquire [OF s(1) n(1) example_free_no n(2) a(1)] s(2) a(2,3) s(3,4) show ?thesis
    by (intro exI [of _ c] exI [of _ s'] exI [of _ i]) simp
qed

lemma example_dirty:
  "\<exists>c st. op_run example_sb [c] st \<and> locked_nos st = {} \<and> cview st 600 = replicate BLOCK_SIZE 7
     \<and> 600 \<in> set (log_entries (header st)) \<and> unat (lh_num_blocks (header st)) \<le> 1"
proof -
  from example_hold obtain c s i where
    s: "op_run example_sb [c] s" "holds s i 600" "rm c = 10" "locked_nos s = {600}" "lh_num_blocks (header s) = 0" by blast
  let ?d = "replicate BLOCK_SIZE 7 :: u8 list" let ?s = "upd_block i (\<lambda>b. b\<lparr>bdata := ?d\<rparr>) s"
  have len: "length ?d = BLOCK_SIZE" by simp
  note w = write_inv [OF op_run_inv [OF s(1)] s(2) len]
  have r1: "op_run example_sb ([] @ c # []) ?s" using op_run.r_write [OF s(1,2) len] by simp
  have h1: "holds ?s i 600" "locked_nos ?s = {600}" using s(2,4) by (auto simp: holds_def locked_nos_def)
  have inv1: "log_inv example_sb ([] @ c # []) ?s" using w(1) by simp
  from sync_spec [OF inv1 h1(1)] s(3) obtain c' s' where
    y: "cache_sync (Some c) i ?s = Some (Some c', s')" "cview s' = cview ?s" "holds s' i 600" "pinned (bheap s' i)"
      "600 \<in> set (log_entries (header s'))" "locked_nos s' = locked_nos ?s" "unat (lh_num_blocks (header s')) \<le> 1"
    using s(5) by auto
  have r2: "op_run example_sb [c'] s'" using op_run.r_sync [OF r1 h1(1) y(1)] by simp
  have lk: "locked_nos s' = {600}" using y(6) h1(2) by simp
  have inv2: "cache_inv s'" using op_run_inv [OF r2] by (simp add: log_inv_def)
  have cl: "pinned (bheap s' i) \<or> bdata (bheap s' i) = disk s' 600" using y(4) by simp
  note rl = held_release [OF inv2 y(3) cl]
  have "op_run example_sb [c'] (cache_release i s')" by (rule op_run.r_release [OF r2 y(3) cl])
  moreover have "header (cache_release i s') = header s'" using rl(7) by (simp add: same_meta_def)
  ultimately show ?thesis using rl(2,3) lk y(2,5,7) w(2)
    by (intro exI [of _ c'] exI [of _ "cache_release i s'"]) simp
qed

theorem end_op_crash_atomic_witness:
  "\<exists>c st st' ws. op_run example_sb [c] st \<and> cache_end_op (Some c) st = Some st'
     \<and> wtrace st' = wtrace st @ ws \<and> disk st' 600 = replicate BLOCK_SIZE 7
     \<and> (\<exists>r. init_bcache example_sb (apply_writes (disk st) (take 1 ws)) = Some r)"
proof -
  from example_dirty obtain c st where s: "op_run example_sb [c] st" "locked_nos st = {}" "cview st 600 = replicate BLOCK_SIZE 7"
    by blast
  from end_op_crash_atomic [OF s(1,2)] obtain st' ws where
    e: "cache_end_op (Some c) st = Some st'" "wtrace st' = wtrace st @ ws" "\<forall>x. x \<notin> log_nos example_sb \<longrightarrow> disk st' x = cview st x"
      "\<forall>k. \<exists>r. init_bcache example_sb (apply_writes (disk st) (take k ws)) = Some r
          \<and> ((\<forall>x. x \<notin> log_nos example_sb \<longrightarrow> disk r x = disk st x) \<or> (\<forall>x. x \<notin> log_nos example_sb \<longrightarrow> disk r x = cview st x))"
    by blast
  have "\<exists>r. init_bcache example_sb (apply_writes (disk st) (take 1 ws)) = Some r" using e(4) by blast
  moreover have "disk st' 600 = replicate BLOCK_SIZE 7" using e(3) example_free_no s(3) by simp
  ultimately show ?thesis using s(1) e(1,2) by blast
qed

text \<open>
  C2: a second crash does not hurt.  If the machine stops after any number of the device writes of a
  recovery and boots again, the blocks outside the log end up as the undisturbed recovery leaves them.
\<close>

theorem recovery_idempotent:
  assumes "\<forall>n. length (D n) = BLOCK_SIZE" "wf_header sb (log_header_of (D (ucast (log_start sb))))"
  shows "\<exists>r. init_bcache sb D = Some r \<and> (\<forall>j. \<exists>r'. init_bcache sb (apply_writes D (take j (wtrace r))) = Some r'
     \<and> (\<forall>x. x \<notin> log_nos sb \<longrightarrow> disk r' x = disk r x))"
proof -
  from init_bcache_spec [OF assms(1) refl assms(2)] obtain r where r: "init_bcache sb D = Some r" by blast
  from recover_crash [OF assms r] r show ?thesis by blast
qed

theorem recovery_idempotent_witness:
  "\<exists>r r'. init_bcache example_sb (\<lambda>_. replicate BLOCK_SIZE 0) = Some r
     \<and> init_bcache example_sb (apply_writes (\<lambda>_. replicate BLOCK_SIZE 0) (take 1 (wtrace r))) = Some r'"
proof -
  let ?D = "\<lambda>_ :: usize. replicate BLOCK_SIZE 0 :: u8 list"
  have wf: "wf_header example_sb (log_header_of (?D (ucast (log_start example_sb))))"
    by (rule wf_header_empty) (simp_all add: example_sb_def log_header_of_def Let_def le_words_zero)
  from recovery_idempotent [of ?D, OF _ wf] obtain r where
    r: "init_bcache example_sb ?D = Some r" "\<forall>j. \<exists>r'. init_bcache example_sb (apply_writes ?D (take j (wtrace r))) = Some r'" by (metis length_replicate)
  then show ?thesis by blast
qed

text \<open>
  C3: the log never overflows.  In every run the entries of the header and what the running
  operations may still add fit into the 63 entries, so synchronising a held block succeeds whenever
  the block is logged already or its operation has not used up its \<open>OP_MAX_NUM_BLOCKS\<close> entries; the
  caller's bytes are unchanged and the block is pinned and logged afterwards.
\<close>

theorem sync_never_overflows:
  assumes "op_run sb (xs @ c # ys) st" "holds st i n" "n \<in> set (log_entries (header st)) \<or> rm c \<noteq> 0"
  shows "unat (lh_num_blocks (header st)) + budget (xs @ c # ys) \<le> LOG_MAX_SIZE
    \<and> (\<exists>c' st'. cache_sync (Some c) i st = Some (Some c', st') \<and> cview st' = cview st \<and> pinned (bheap st' i)
         \<and> n \<in> set (log_entries (header st')) \<and> unat (lh_num_blocks (header st')) \<le> LOG_MAX_SIZE)"
proof -
  have inv: "log_inv sb (xs @ c # ys) st" by (rule op_run_inv [OF assms(1)])
  from sync_spec [OF inv assms(2,3)] obtain c' st' where
    "cache_sync (Some c) i st = Some (Some c', st')" "log_inv sb (xs @ c' # ys) st'" "cview st' = cview st" "pinned (bheap st' i)"
    "n \<in> set (log_entries (header st'))" by auto
  then show ?thesis using inv by (auto simp: log_inv_def wf_header_def)
qed

theorem sync_never_overflows_witness:
  "\<exists>c st i c' st'. op_run example_sb ([] @ c # []) st \<and> holds st i 600 \<and> cache_sync (Some c) i st = Some (Some c', st')
     \<and> 600 \<in> set (log_entries (header st'))"
proof -
  from example_hold obtain c s i where s: "op_run example_sb [c] s" "holds s i 600" "rm c = 10" by blast
  then have r: "op_run example_sb ([] @ c # []) s" by simp
  from sync_never_overflows [OF r s(2)] s(3) obtain c' s' where
    "cache_sync (Some c) i s = Some (Some c', s')" "600 \<in> set (log_entries (header s'))" by auto
  with r s(2) show ?thesis by blast
qed

text \<open>
  \<open>end_op\<close> of an operation that is not the last returns before anything is on the device.  The
  interface says it sleeps until all associated blocks are written; the code writes nothing and
  leaves the entries of the operation in the in-memory log.
\<close>

theorem end_op_returns_early:
  assumes "op_run sb (xs @ c # ys) st" "xs @ ys \<noteq> []"
  shows "\<exists>st'. cache_end_op (Some c) st = Some st' \<and> disk st' = disk st \<and> wtrace st' = wtrace st
     \<and> log_entries (header st') = log_entries (header st) \<and> outstanding st' = int (length (xs @ ys))"
  using end_op_other [OF op_run_inv [OF assms(1)] assms(2)] op_run_inv [OF assms(1)]
  by (auto simp: wake_log_def log_inv_def)

theorem end_op_returns_early_witness:
  "\<exists>c c' st st'. op_run example_sb ([c'] @ c # []) st \<and> cache_end_op (Some c) st = Some st' \<and> wtrace st' = wtrace st
     \<and> 600 \<in> set (log_entries (header st'))"
proof -
  from example_dirty obtain c s where
    s: "op_run example_sb [c] s" "600 \<in> set (log_entries (header s))" "unat (lh_num_blocks (header s)) \<le> 1" by blast
  have inv: "log_inv example_sb [c] s" by (rule op_run_inv [OF s(1)])
  have "int (unat (lh_num_blocks (header s))) \<le> 1" using s(3) by linarith
  then have "\<not> op_must_wait s"
    using inv by (simp add: log_inv_def op_must_wait_def OP_MAX_NUM_BLOCKS_def fs_sizes)
  then have "cache_begin_op s = (Some \<lparr>rm = of_nat OP_MAX_NUM_BLOCKS\<rparr>, s\<lparr>outstanding := outstanding s + 1\<rparr>)"
    by (simp add: cache_begin_op.simps [of s])
  from op_run.r_begin [OF s(1) this] have
    r: "op_run example_sb ([\<lparr>rm = of_nat OP_MAX_NUM_BLOCKS\<rparr>] @ c # []) (s\<lparr>outstanding := outstanding s + 1\<rparr>)" by simp
  from end_op_returns_early [OF r] obtain st' where
    e: "cache_end_op (Some c) (s\<lparr>outstanding := outstanding s + 1\<rparr>) = Some st'" "wtrace st' = wtrace (s\<lparr>outstanding := outstanding s + 1\<rparr>)"
      "log_entries (header st') = log_entries (header s)" by auto
  then have "600 \<in> set (log_entries (header st'))" using s(2) by simp
  with r e(1,2) show ?thesis by blast
qed

end
