(* ===== verification/Block_Store.thy ===== *)
theory Block_Store
  imports Log_Ops
begin

text \<open>
  The contract between the block cache and the file system above it, as a locale: what a caller may
  rely on when it acquires a block, changes its bytes, synchronises it and releases it under a
  running operation.  The laws are discharged for the functions of \<open>fs/cache.c\<close>; the block allocator
  of \<open>fs/cache.c\<close> is then verified as a client.
\<close>

section \<open>The contract\<close>

locale block_store =
  fixes inv :: "'c \<Rightarrow> 's \<Rightarrow> bool" and view :: "'s \<Rightarrow> usize \<Rightarrow> u8 list" and held :: "'s \<Rightarrow> usize set"
    and logged :: "'s \<Rightarrow> usize set" and room :: "'c \<Rightarrow> nat" and usable :: "usize \<Rightarrow> bool"
    and owns :: "'s \<Rightarrow> nat \<Rightarrow> usize \<Rightarrow> bool" and content :: "'s \<Rightarrow> nat \<Rightarrow> u8 list"
    and acquire :: "usize \<Rightarrow> 's \<Rightarrow> (nat \<times> 's) option" and put :: "nat \<Rightarrow> u8 list \<Rightarrow> 's \<Rightarrow> 's"
    and sync :: "'c \<Rightarrow> nat \<Rightarrow> 's \<Rightarrow> ('c \<times> 's) option" and release :: "nat \<Rightarrow> 's \<Rightarrow> 's"
  assumes acquire_law: "inv c s \<Longrightarrow> usable n \<Longrightarrow> n \<notin> held s \<Longrightarrow>
      \<exists>i s'. acquire n s = Some (i, s') \<and> inv c s' \<and> owns s' i n \<and> content s' i = view s n \<and> view s' = view s
        \<and> held s' = insert n (held s) \<and> logged s' = logged s"
    and put_law: "inv c s \<Longrightarrow> owns s i n \<Longrightarrow> length d = BLOCK_SIZE \<Longrightarrow>
      inv c (put i d s) \<and> owns (put i d s) i n \<and> view (put i d s) = (view s)(n := d) \<and> held (put i d s) = held s
        \<and> logged (put i d s) = logged s \<and> content (put i d s) i = d"
    and sync_law: "inv c s \<Longrightarrow> owns s i n \<Longrightarrow> n \<in> logged s \<or> 0 < room c \<Longrightarrow>
      \<exists>c' s'. sync c i s = Some (c', s') \<and> inv c' s' \<and> owns s' i n \<and> view s' = view s \<and> held s' = held s
        \<and> logged s' = insert n (logged s) \<and> room c' = (if n \<in> logged s then room c else room c - 1)"
    and release_synced: "inv c s \<Longrightarrow> owns s i n \<Longrightarrow> n \<in> logged s \<Longrightarrow>
      inv c (release i s) \<and> view (release i s) = view s \<and> held (release i s) = held s - {n} \<and> logged (release i s) = logged s"
    and release_clean: "inv c s \<Longrightarrow> usable n \<Longrightarrow> n \<notin> held s \<Longrightarrow> acquire n s = Some (i, s') \<Longrightarrow>
      inv c (release i s') \<and> view (release i s') = view s \<and> held (release i s') = held s \<and> logged (release i s') = logged s"
begin

text \<open>Reading: acquire and release.\<close>

lemma read_block:
  assumes "inv c s" "usable n" "n \<notin> held s"
  shows "\<exists>i s'. acquire n s = Some (i, s') \<and> content s' i = view s n \<and> inv c (release i s')
     \<and> view (release i s') = view s \<and> held (release i s') = held s \<and> logged (release i s') = logged s"
  using acquire_law [OF assms] release_clean [OF assms] by blast

text \<open>Writing: acquire, change the bytes, synchronise, release.\<close>

lemma update_block:
  assumes inv: "inv c s" and n: "usable n" "n \<notin> held s" and room: "n \<in> logged s \<or> 0 < room c"
  shows "\<exists>i s1. acquire n s = Some (i, s1) \<and> content s1 i = view s n
     \<and> (\<forall>d. length d = BLOCK_SIZE \<longrightarrow> (\<exists>c' s2. sync c i (put i d s1) = Some (c', s2) \<and> inv c' (release i s2)
          \<and> view (release i s2) = (view s)(n := d) \<and> held (release i s2) = held s
          \<and> logged (release i s2) = insert n (logged s) \<and> room c' = (if n \<in> logged s then room c else room c - 1)))"
proof -
  from acquire_law [OF inv n] obtain i s1 where
    a: "acquire n s = Some (i, s1)" "inv c s1" "owns s1 i n" "content s1 i = view s n" "view s1 = view s"
      "held s1 = insert n (held s)" "logged s1 = logged s" by blast
  have "\<exists>c' s2. sync c i (put i d s1) = Some (c', s2) \<and> inv c' (release i s2)
          \<and> view (release i s2) = (view s)(n := d) \<and> held (release i s2) = held s
          \<and> logged (release i s2) = insert n (logged s) \<and> room c' = (if n \<in> logged s then room c else room c - 1)"
    if d: "length d = BLOCK_SIZE" for d
  proof -
    note p = put_law [OF a(2,3) d]
    have "n \<in> logged (put i d s1) \<or> 0 < room c" using p a(7) room by simp
    from sync_law [OF _ _ this] p obtain c' s2 where
      y: "sync c i (put i d s1) = Some (c', s2)" "inv c' s2" "owns s2 i n" "view s2 = view (put i d s1)"
        "held s2 = held (put i d s1)" "logged s2 = insert n (logged (put i d s1))"
        "room c' = (if n \<in> logged (put i d s1) then room c else room c - 1)" by blast
    have "n \<in> logged s2" using y(6) by simp
    note r = release_synced [OF y(2,3) this]
    show ?thesis using y r p a n(2) by (intro exI [of _ c'] exI [of _ s2]) simp
  qed
  then show ?thesis using a(1,4) by blast
qed

end

section \<open>The cache keeps the contract\<close>

definition put_data :: "nat \<Rightarrow> u8 list \<Rightarrow> cachest \<Rightarrow> cachest" where
  "put_data i d st = upd_block i (\<lambda>b. b\<lparr>bdata := d\<rparr>) st"

definition sync_ctx :: "OpContext \<Rightarrow> nat \<Rightarrow> cachest \<Rightarrow> (OpContext \<times> cachest) option" where
  "sync_ctx c i st = (case cache_sync (Some c) i st of Some (Some c', st') \<Rightarrow> Some (c', st') | _ \<Rightarrow> None)"

definition op_inv :: "SuperBlock \<Rightarrow> OpContext list \<Rightarrow> OpContext list \<Rightarrow> OpContext \<Rightarrow> cachest \<Rightarrow> bool" where
  "op_inv sb xs ys c st \<longleftrightarrow> log_inv sb (xs @ c # ys) st"

definition op_usable :: "SuperBlock \<Rightarrow> usize \<Rightarrow> bool" where
  "op_usable sb n \<longleftrightarrow> n \<noteq> 0 \<and> n \<notin> log_nos sb"

definition logged_nos :: "cachest \<Rightarrow> usize set" where
  "logged_nos st = set (log_entries (header st))"

lemma op_acquire:
  assumes inv: "op_inv sb xs ys c st" and u: "op_usable sb n" and n: "n \<notin> locked_nos st"
  obtains i st' where "cache_acquire n st = Some (i, st')" "op_inv sb xs ys c st'" "holds st' i n"
    "bdata (bheap st' i) = cview st n" "cview st' = cview st" "locked_nos st' = insert n (locked_nos st)"
    "logged_nos st' = logged_nos st" "pinned (bheap st' i) \<or> bdata (bheap st' i) = disk st' n"
proof -
  have c: "cache_inv st" "sblock st = sb" using inv by (auto simp: op_inv_def log_inv_def)
  have n0: "n \<noteq> 0" "n \<notin> log_nos sb" using u by (auto simp: op_usable_def)
  have hn: "n \<noteq> header_no st" using n0(2) header_no_log [of st] c(2) by auto
  from cache_acquire_spec [OF c(1) n0(1) n hn] obtain i st' where
    a: "cache_acquire n st = Some (i, st')" "cache_inv st'" "holds st' i n" "bdata (bheap st' i) = cview st n"
      "cview st' = cview st" "disk st' = disk st" "same_meta st st'" "locked_nos st' = insert n (locked_nos st)"
      "pinned_nos st' = pinned_nos st" by metis
  have cl: "pinned (bheap st' i) \<or> bdata (bheap st' i) = disk st' n"
    using pinned_nos_iff [OF a(2,3)] cview_clean [OF c(1) _ n] a(4,6,9) by auto
  show thesis
    by (rule that [OF a(1) _ a(3,4,5,8) _ cl])
      (use acquire_inv [OF _ n0 n a(1)] inv a(7) in \<open>auto simp: op_inv_def logged_nos_def same_meta_def\<close>)
qed

interpretation bs: block_store "op_inv sb xs ys" cview locked_nos logged_nos "\<lambda>c. unat (rm c)" "op_usable sb"
  holds "\<lambda>st i. bdata (bheap st i)" cache_acquire put_data sync_ctx cache_release
proof
  fix c st n assume a: "op_inv sb xs ys c st" "op_usable sb n" "n \<notin> locked_nos st"
  from op_acquire [OF a] show "\<exists>i s'. cache_acquire n st = Some (i, s') \<and> op_inv sb xs ys c s' \<and> holds s' i n
      \<and> bdata (bheap s' i) = cview st n \<and> cview s' = cview st \<and> locked_nos s' = insert n (locked_nos st)
      \<and> logged_nos s' = logged_nos st" by metis
  fix i st' assume e: "cache_acquire n st = Some (i, st')"
  from op_acquire [OF a] e have
    r: "op_inv sb xs ys c st'" "holds st' i n" "cview st' = cview st" "locked_nos st' = insert n (locked_nos st)"
      "logged_nos st' = logged_nos st" "pinned (bheap st' i) \<or> bdata (bheap st' i) = disk st' n"
    by (metis option.inject prod.inject)+
  have c': "cache_inv st'" using r(1) by (simp add: op_inv_def log_inv_def)
  note rl = held_release [OF c' r(2,6)]
  show "op_inv sb xs ys c (cache_release i st') \<and> cview (cache_release i st') = cview st
      \<and> locked_nos (cache_release i st') = locked_nos st \<and> logged_nos (cache_release i st') = logged_nos st"
    using release_inv [OF _ r(2,6)] r rl a(3) by (simp add: op_inv_def logged_nos_def same_meta_def)
next
  fix c st i n and d :: "u8 list" assume a: "op_inv sb xs ys c st" "holds st i n" "length d = BLOCK_SIZE"
  have l: "log_inv sb (xs @ c # ys) st" using a(1) by (simp add: op_inv_def)
  note w = write_inv [OF l a(2,3)]
  have "locked_nos (put_data i d st) = locked_nos st" by (auto simp: put_data_def locked_nos_def)
  then show "op_inv sb xs ys c (put_data i d st) \<and> holds (put_data i d st) i n \<and> cview (put_data i d st) = (cview st)(n := d)
      \<and> locked_nos (put_data i d st) = locked_nos st \<and> logged_nos (put_data i d st) = logged_nos st
      \<and> bdata (bheap (put_data i d st) i) = d"
    using w a(2) by (simp add: put_data_def op_inv_def holds_def logged_nos_def)
next
  fix c st i n assume a: "op_inv sb xs ys c st" "holds st i n" "n \<in> logged_nos st \<or> 0 < unat (rm c)"
  have l: "log_inv sb (xs @ c # ys) st" using a(1) by (simp add: op_inv_def)
  have "n \<in> set (log_entries (header st)) \<or> rm c \<noteq> 0" using a(3) by (auto simp: logged_nos_def unat_gt_0)
  from sync_spec [OF l a(2) this] show "\<exists>c' s'. sync_ctx c i st = Some (c', s') \<and> op_inv sb xs ys c' s' \<and> holds s' i n
      \<and> cview s' = cview st \<and> locked_nos s' = locked_nos st \<and> logged_nos s' = insert n (logged_nos st)
      \<and> unat (rm c') = (if n \<in> logged_nos st then unat (rm c) else unat (rm c) - 1)"
    by (auto simp: sync_ctx_def op_inv_def logged_nos_def)
next
  fix c st i n assume a: "op_inv sb xs ys c st" "holds st i n" "n \<in> logged_nos st"
  have l: "log_inv sb (xs @ c # ys) st" using a(1) by (simp add: op_inv_def)
  have c: "cache_inv st" "pinned_nos st = logged_nos st" using l by (auto simp: log_inv_def logged_nos_def)
  have cl: "pinned (bheap st i) \<or> bdata (bheap st i) = disk st n" using pinned_nos_iff [OF c(1) a(2)] c(2) a(3) by simp
  note rl = held_release [OF c(1) a(2) cl]
  show "op_inv sb xs ys c (cache_release i st) \<and> cview (cache_release i st) = cview st
      \<and> locked_nos (cache_release i st) = locked_nos st - {n} \<and> logged_nos (cache_release i st) = logged_nos st"
    using release_inv [OF l a(2) cl] rl by (simp add: op_inv_def logged_nos_def same_meta_def)
qed

end
