(* ===== verification/Alloc.thy ===== *)
theory Alloc
  imports Block_Store
begin

text \<open>
  The block allocator of \<open>fs/cache.c\<close> (\<open>cache_alloc\<close>, \<open>cache_free\<close>) as a client of the contract of the
  block cache: the bitmap on the device as a set of allocated block numbers.
\<close>

definition bitmap_block :: "SuperBlock \<Rightarrow> nat \<Rightarrow> usize" where
  "bitmap_block sb n = ucast (bitmap_start sb) + of_nat (n div BIT_PER_BLOCK)"

definition bit_set_in :: "u8 list \<Rightarrow> nat \<Rightarrow> bool" where
  "bit_set_in d i \<longleftrightarrow> d ! (i div 8) AND bit_mask i \<noteq> 0"

definition allocated :: "SuperBlock \<Rightarrow> (usize \<Rightarrow> u8 list) \<Rightarrow> nat \<Rightarrow> bool" where
  "allocated sb V n \<longleftrightarrow> bit_set_in (V (bitmap_block sb n)) (n mod BIT_PER_BLOCK)"

definition set_bit_in :: "u8 list \<Rightarrow> nat \<Rightarrow> u8 list" where
  "set_bit_in d i = d[i div 8 := d ! (i div 8) OR bit_mask i]"

definition clear_bit_in :: "u8 list \<Rightarrow> nat \<Rightarrow> u8 list" where
  "clear_bit_in d i = d[i div 8 := d ! (i div 8) AND NOT (bit_mask i)]"

text \<open>
  The layout \<open>mkfs\<close> makes: the bitmap is inside the device, outside the log, and every block of the
  file system's own structures, the boot record, the log and the bitmap, is marked allocated.
\<close>

definition wf_bitmap :: "SuperBlock \<Rightarrow> bool" where
  "wf_bitmap sb \<longleftrightarrow> unat (bitmap_start sb) + unat (num_blocks sb) div BIT_PER_BLOCK + 1 < 2 ^ 32
     \<and> (\<forall>j \<le> unat (num_blocks sb) div BIT_PER_BLOCK. op_usable sb (ucast (bitmap_start sb) + of_nat j))"

definition meta_allocated :: "SuperBlock \<Rightarrow> (usize \<Rightarrow> u8 list) \<Rightarrow> bool" where
  "meta_allocated sb V \<longleftrightarrow>
     (\<forall>n < unat (num_blocks sb). \<not> allocated sb V n \<longrightarrow> op_usable sb (of_nat n)
        \<and> (\<forall>m < unat (num_blocks sb). of_nat n \<noteq> bitmap_block sb m))"

section \<open>Bits\<close>

lemma bit_mask_bit: "bit (bit_mask i) k \<longleftrightarrow> k = i mod 8"
  by (auto simp: bit_mask_def bit_simps)

lemma and_mask_zero: "(x :: u8) AND bit_mask i \<noteq> 0 \<longleftrightarrow> bit x (i mod 8)"
proof
  assume "x AND bit_mask i \<noteq> 0"
  moreover have "x AND bit_mask i = 0" if "\<not> bit x (i mod 8)"
    by (rule bit_eqI) (use that in \<open>auto simp: bit_and_iff bit_mask_bit\<close>)
  ultimately show "bit x (i mod 8)" by blast
next
  assume "bit x (i mod 8)"
  then have "bit (x AND bit_mask i) (i mod 8)" by (simp add: bit_and_iff bit_mask_bit)
  then show "x AND bit_mask i \<noteq> 0" by auto
qed

lemma bit_set_in_iff: "bit_set_in d i \<longleftrightarrow> bit (d ! (i div 8)) (i mod 8)"
  by (simp add: bit_set_in_def and_mask_zero)

lemma length_set_bit_in [simp]: "length (set_bit_in d i) = length d" "length (clear_bit_in d i) = length d"
  by (simp_all add: set_bit_in_def clear_bit_in_def)

lemma bit_set_in_set:
  assumes "i div 8 < length d"
  shows "bit_set_in (set_bit_in d i) j \<longleftrightarrow> j = i \<or> bit_set_in d j"
proof (cases "j div 8 = i div 8")
  case True
  then have "j mod 8 = i mod 8 \<longleftrightarrow> j = i" by (metis div_mult_mod_eq)
  then show ?thesis using True assms by (auto simp: bit_set_in_iff set_bit_in_def bit_or_iff bit_mask_bit)
next
  case False
  then show ?thesis by (auto simp: bit_set_in_iff set_bit_in_def)
qed

lemma bit_set_in_clear:
  assumes "i div 8 < length d"
  shows "bit_set_in (clear_bit_in d i) j \<longleftrightarrow> j \<noteq> i \<and> bit_set_in d j"
proof (cases "j div 8 = i div 8")
  case True
  then have "j mod 8 = i mod 8 \<longleftrightarrow> j = i" by (metis div_mult_mod_eq)
  moreover have "j mod 8 < LENGTH(8)" by simp
  ultimately show ?thesis
    using True assms by (auto simp: bit_set_in_iff clear_bit_in_def bit_and_iff bit_not_iff bit_mask_bit)
next
  case False
  then show ?thesis by (auto simp: bit_set_in_iff clear_bit_in_def)
qed

lemma find_free_bit_cases:
  obtains (free) i where "find_free_bit d lim = Some i" "i < BIT_PER_BLOCK" "i < lim" "\<not> bit_set_in d i"
      "\<And>j. j < i \<Longrightarrow> bit_set_in d j"
    | (full) "find_free_bit d lim = None" "\<And>j. j < BIT_PER_BLOCK \<Longrightarrow> j < lim \<Longrightarrow> bit_set_in d j"
proof (cases "find_free_bit d lim")
  case None
  then show thesis by (intro full) (auto simp: find_free_bit_def bit_set_in_def find_None_iff)
next
  case (Some i)
  then show thesis
    by (intro free) (auto simp: find_free_bit_def bit_set_in_def find_Some_iff)
qed

section \<open>Using the contract\<close>

lemma sync_ctx_Some: "sync_ctx c i st = Some (c', st') \<Longrightarrow> cache_sync (Some c) i st = Some (Some c', st')"
  by (auto simp: sync_ctx_def split: option.splits prod.splits)

lemma upd_data_put: "upd_block i (\<lambda>b. b\<lparr>bdata := f (bdata b)\<rparr>) st = put_data i (f (bdata (bheap st i))) st"
  by (simp add: upd_block_def put_data_def)

lemma bitmap_block_eq_iff:
  assumes "wf_bitmap sb" "n < unat (num_blocks sb)" "m < unat (num_blocks sb)"
  shows "bitmap_block sb n = bitmap_block sb m \<longleftrightarrow> n div BIT_PER_BLOCK = m div BIT_PER_BLOCK"
proof -
  have "k div BIT_PER_BLOCK < 18446744073709551616" if "k < unat (num_blocks sb)" for k
    using that unat_u32_less [of "num_blocks sb"] div_le_dividend [of k BIT_PER_BLOCK] by linarith
  then show ?thesis unfolding bitmap_block_def using assms by (intro word_add_offset_eq_iff) auto
qed

text \<open>Setting or clearing the bit of \<open>n\<close> changes which blocks are allocated in \<open>n\<close> only.\<close>

lemma allocated_update:
  assumes wf: "wf_bitmap sb" and n: "n < unat (num_blocks sb)" and m: "m < unat (num_blocks sb)"
    and len: "length (V (bitmap_block sb n)) = BLOCK_SIZE"
  shows "allocated sb (V(bitmap_block sb n := set_bit_in (V (bitmap_block sb n)) (n mod BIT_PER_BLOCK))) m
      \<longleftrightarrow> m = n \<or> allocated sb V m"
    "allocated sb (V(bitmap_block sb n := clear_bit_in (V (bitmap_block sb n)) (n mod BIT_PER_BLOCK))) m
      \<longleftrightarrow> m \<noteq> n \<and> allocated sb V m"
proof -
  have "n mod BIT_PER_BLOCK < BIT_PER_BLOCK" by (simp add: fs_sizes)
  then have i: "n mod BIT_PER_BLOCK div 8 < length (V (bitmap_block sb n))"
    using len by (simp add: fs_sizes less_mult_imp_div_less)
  have e: "m mod BIT_PER_BLOCK = n mod BIT_PER_BLOCK \<longleftrightarrow> m = n" if "m div BIT_PER_BLOCK = n div BIT_PER_BLOCK"
    using that by (metis div_mult_mod_eq)
  note b = bitmap_block_eq_iff [OF wf m n]
  show "allocated sb (V(bitmap_block sb n := set_bit_in (V (bitmap_block sb n)) (n mod BIT_PER_BLOCK))) m
      \<longleftrightarrow> m = n \<or> allocated sb V m"
    using b e by (auto simp: allocated_def bit_set_in_set [OF i])
  show "allocated sb (V(bitmap_block sb n := clear_bit_in (V (bitmap_block sb n)) (n mod BIT_PER_BLOCK))) m
      \<longleftrightarrow> m \<noteq> n \<and> allocated sb V m"
    using b e by (auto simp: allocated_def bit_set_in_clear [OF i])
qed

section \<open>The search\<close>

lemma bitmap_block_offset:
  assumes "i < BIT_PER_BLOCK"
  shows "bitmap_block sb (j * BIT_PER_BLOCK + i) = ucast (bitmap_start sb) + of_nat j" "(j * BIT_PER_BLOCK + i) mod BIT_PER_BLOCK = i"
  using assms by (simp_all add: bitmap_block_def)

lemma of_nat_bitmap:
  assumes "wf_bitmap sb" "j \<le> unat (num_blocks sb) div BIT_PER_BLOCK"
  shows "(of_nat (unat (bitmap_start sb) + j) :: usize) = ucast (bitmap_start sb) + of_nat j"
  by simp

text \<open>Marking block \<open>n\<close> in its bitmap block and clearing it, as the body of the inner loop does.\<close>

lemma alloc_here:
  assumes wf: "wf_bitmap sb" and meta: "meta_allocated sb (cview st)"
    and inv: "op_inv sb xs ys c st" and lock: "locked_nos st = {}" and room: "2 \<le> unat (rm c)"
    and n: "n < unat (num_blocks sb)" "\<not> allocated sb (cview st) n"
  defines "d \<equiv> set_bit_in (cview st (bitmap_block sb n)) (n mod BIT_PER_BLOCK)"
  shows "\<exists>b st1 c1 st3 nb st4 c2 st6. cache_acquire (bitmap_block sb n) st = Some (b, st1)
     \<and> bdata (bheap st1 b) = cview st (bitmap_block sb n)
     \<and> cache_sync (Some c) b (put_data b d st1) = Some (Some c1, st3)
     \<and> cache_acquire (of_nat n) (cache_release b st3) = Some (nb, st4)
     \<and> cache_sync (Some c1) nb (put_data nb (replicate BLOCK_SIZE 0) st4) = Some (Some c2, st6)
     \<and> op_inv sb xs ys c2 (cache_release nb st6) \<and> locked_nos (cache_release nb st6) = {} \<and> unat (rm c) \<le> unat (rm c2) + 2
     \<and> cview (cache_release nb st6) = (cview st)(bitmap_block sb n := d, of_nat n := replicate BLOCK_SIZE 0)"
proof -
  have dj: "n div BIT_PER_BLOCK \<le> unat (num_blocks sb) div BIT_PER_BLOCK" using n(1) by (simp add: div_le_mono)
  have u1: "op_usable sb (bitmap_block sb n)" using wf dj by (simp add: wf_bitmap_def bitmap_block_def)
  have u2: "op_usable sb (of_nat n)" using meta n by (simp add: meta_allocated_def)
  have c: "cache_inv st" using inv by (simp add: op_inv_def log_inv_def)
  have ld: "length d = BLOCK_SIZE" using cview_length [OF c] by (simp add: d_def)
  from bs.update_block [OF inv u1] lock room obtain b st1 where
    1: "cache_acquire (bitmap_block sb n) st = Some (b, st1)" "bdata (bheap st1 b) = cview st (bitmap_block sb n)"
    and u: "\<forall>d. length d = BLOCK_SIZE \<longrightarrow> (\<exists>c' s2. sync_ctx c b (put_data b d st1) = Some (c', s2) \<and> op_inv sb xs ys c' (cache_release b s2)
          \<and> cview (cache_release b s2) = (cview st)(bitmap_block sb n := d) \<and> locked_nos (cache_release b s2) = locked_nos st
          \<and> logged_nos (cache_release b s2) = insert (bitmap_block sb n) (logged_nos st)
          \<and> unat (rm c') = (if bitmap_block sb n \<in> logged_nos st then unat (rm c) else unat (rm c) - 1))" by auto
  from u ld obtain c1 st3 where
    3: "sync_ctx c b (put_data b d st1) = Some (c1, st3)" "op_inv sb xs ys c1 (cache_release b st3)"
      "cview (cache_release b st3) = (cview st)(bitmap_block sb n := d)" "locked_nos (cache_release b st3) = {}"
      "unat (rm c) \<le> unat (rm c1) + 1" using lock by (auto split: if_splits)
  have r1: "0 < unat (rm c1)" using 3(5) room by linarith
  from bs.update_block [OF 3(2) u2] 3(4) r1 obtain nb st4 where
    4: "cache_acquire (of_nat n) (cache_release b st3) = Some (nb, st4)"
    and v: "\<forall>d. length d = BLOCK_SIZE \<longrightarrow> (\<exists>c' s2. sync_ctx c1 nb (put_data nb d st4) = Some (c', s2) \<and> op_inv sb xs ys c' (cache_release nb s2)
          \<and> cview (cache_release nb s2) = (cview (cache_release b st3))(of_nat n := d)
          \<and> locked_nos (cache_release nb s2) = locked_nos (cache_release b st3)
          \<and> logged_nos (cache_release nb s2) = insert (of_nat n) (logged_nos (cache_release b st3))
          \<and> unat (rm c') = (if of_nat n \<in> logged_nos (cache_release b st3) then unat (rm c1) else unat (rm c1) - 1))" by auto
  from v [rule_format, of "replicate BLOCK_SIZE 0"] obtain c2 st6 where
    6: "sync_ctx c1 nb (put_data nb (replicate BLOCK_SIZE 0) st4) = Some (c2, st6)" "op_inv sb xs ys c2 (cache_release nb st6)"
      "cview (cache_release nb st6) = (cview st)(bitmap_block sb n := d, of_nat n := replicate BLOCK_SIZE 0)"
      "locked_nos (cache_release nb st6) = {}" "unat (rm c1) \<le> unat (rm c2) + 1"
    using 3(3,4) by (auto split: if_splits)
  show ?thesis
    using 1 sync_ctx_Some [OF 3(1)] 4 sync_ctx_Some [OF 6(1)] 6(2-5) 3(5)
    by (intro exI [of _ b] exI [of _ st1] exI [of _ c1] exI [of _ st3] exI [of _ nb] exI [of _ st4] exI [of _ c2] exI [of _ st6]) simp
qed

text \<open>The outer loop from its round \<open>j\<close> on: it finds the first free block \<open>n\<close>.\<close>

lemma cache_alloc_loop_spec:
  assumes wf: "wf_bitmap sb" and room: "2 \<le> unat (rm c)" and n: "n < unat (num_blocks sb)"
    and hi: "hi = Suc (unat (bitmap_start sb) + unat (num_blocks sb) div BIT_PER_BLOCK)"
  shows "op_inv sb xs ys c st \<Longrightarrow> locked_nos st = {} \<Longrightarrow> meta_allocated sb (cview st) \<Longrightarrow>
     \<not> allocated sb (cview st) n \<Longrightarrow> \<forall>m<n. allocated sb (cview st) m \<Longrightarrow> j * BIT_PER_BLOCK \<le> n \<Longrightarrow>
     \<exists>c' st'. cache_alloc_loop (Some c) [unat (bitmap_start sb) + j ..< hi] st = Some (of_nat n, Some c', st')
     \<and> op_inv sb xs ys c' st' \<and> locked_nos st' = {} \<and> unat (rm c) \<le> unat (rm c') + 2
     \<and> cview st' = (cview st)(bitmap_block sb n := set_bit_in (cview st (bitmap_block sb n)) (n mod BIT_PER_BLOCK),
                              of_nat n := replicate BLOCK_SIZE 0)"
proof (induction "n div BIT_PER_BLOCK - j" arbitrary: j st rule: less_induct)
  case less
  have pos: "0 < BIT_PER_BLOCK" by (simp add: fs_sizes)
  have jn: "j \<le> n div BIT_PER_BLOCK" using less.prems(6) pos by (simp add: less_eq_div_iff_mult_less_eq)
  also have "\<dots> \<le> unat (num_blocks sb) div BIT_PER_BLOCK" using n by (simp add: div_le_mono)
  finally have j: "j \<le> unat (num_blocks sb) div BIT_PER_BLOCK" .
  let ?B = "ucast (bitmap_start sb) + of_nat j :: usize"
  have Bj: "(of_nat (unat (bitmap_start sb) + j) :: usize) = ?B" by (rule of_nat_bitmap [OF wf j])
  have lst: "[unat (bitmap_start sb) + j ..< hi] = (unat (bitmap_start sb) + j) # [unat (bitmap_start sb) + Suc j ..< hi]"
    using j hi by (subst upt_conv_Cons) simp_all
  have sb: "sblock st = sb" using less.prems(1) by (simp add: op_inv_def log_inv_def)
  let ?lim = "unat (num_blocks sb) - j * BIT_PER_BLOCK"
  have al: "allocated sb (cview st) (j * BIT_PER_BLOCK + i) \<longleftrightarrow> bit_set_in (cview st ?B) i" if "i < BIT_PER_BLOCK" for i
    using bitmap_block_offset(1) [OF that, of sb j] bitmap_block_offset(2) [OF that, of j] by (simp add: allocated_def)
  show ?case
  proof (cases rule: find_free_bit_cases [of "cview st ?B" ?lim])
    case (free i)
    have "\<not> allocated sb (cview st) (j * BIT_PER_BLOCK + i)" using al free by simp
    then have "\<not> j * BIT_PER_BLOCK + i < n" using less.prems(5) by blast
    moreover have "\<not> n < j * BIT_PER_BLOCK + i"
    proof
      assume "n < j * BIT_PER_BLOCK + i"
      then have k: "n - j * BIT_PER_BLOCK < i" "n = j * BIT_PER_BLOCK + (n - j * BIT_PER_BLOCK)" using less.prems(6) by linarith+
      then have "allocated sb (cview st) n" using al [of "n - j * BIT_PER_BLOCK"] free(2,5) by (metis less_trans)
      then show False using less.prems(4) by blast
    qed
    ultimately have ni: "n = j * BIT_PER_BLOCK + i" by linarith
    have bb: "bitmap_block sb n = ?B" "n mod BIT_PER_BLOCK = i" unfolding ni by (rule bitmap_block_offset [OF free(2)])+
    from alloc_here [OF wf less.prems(3,1,2) room n less.prems(4), unfolded bb] obtain b st1 c1 st3 nb st4 c2 st6 where
      q: "cache_acquire ?B st = Some (b, st1)" "bdata (bheap st1 b) = cview st ?B"
        "cache_sync (Some c) b (put_data b (set_bit_in (cview st ?B) i) st1) = Some (Some c1, st3)"
        "cache_acquire (of_nat n) (cache_release b st3) = Some (nb, st4)"
        "cache_sync (Some c1) nb (put_data nb (replicate BLOCK_SIZE 0) st4) = Some (Some c2, st6)"
      and z: "op_inv sb xs ys c2 (cache_release nb st6)" "locked_nos (cache_release nb st6) = {}" "unat (rm c) \<le> unat (rm c2) + 2"
        "cview (cache_release nb st6) = (cview st)(?B := set_bit_in (cview st ?B) i, of_nat n := replicate BLOCK_SIZE 0)"
      by blast
    have p1: "upd_block b (\<lambda>b. b\<lparr>bdata := (bdata b)[i div 8 := bdata b ! (i div 8) OR bit_mask i]\<rparr>) st1
        = put_data b (set_bit_in (cview st ?B) i) st1"
      unfolding q(2) [symmetric] set_bit_in_def by (rule upd_data_put)
    have p2: "upd_block nb (\<lambda>b. b\<lparr>bdata := replicate BLOCK_SIZE 0\<rparr>) st4 = put_data nb (replicate BLOCK_SIZE 0) st4"
      by (simp add: put_data_def)
    have "cache_alloc_loop (Some c) [unat (bitmap_start sb) + j ..< hi] st = Some (of_nat n, Some c2, cache_release nb st6)"
      using q free(1) by (simp add: lst Bj sb p1 p2 ni [symmetric] del: of_nat_add upt_Suc)
    then show ?thesis unfolding bb using z by blast
  next
    case full
    have ne: "n div BIT_PER_BLOCK \<noteq> j"
    proof
      assume e: "n div BIT_PER_BLOCK = j"
      let ?i = "n mod BIT_PER_BLOCK"
      have ni: "n = j * BIT_PER_BLOCK + ?i" using e div_mult_mod_eq [of n BIT_PER_BLOCK] by simp
      have "?i < BIT_PER_BLOCK" using pos by simp
      moreover have "?i < ?lim" using n ni by linarith
      ultimately have "allocated sb (cview st) n" using al [of ?i] full(2) ni by metis
      then show False using less.prems(4) by blast
    qed
    then have jl: "Suc j \<le> n div BIT_PER_BLOCK" using jn by simp
    then have j2: "Suc j * BIT_PER_BLOCK \<le> n" using pos by (simp only: less_eq_div_iff_mult_less_eq)
    have u: "op_usable sb ?B" using wf j by (simp add: wf_bitmap_def)
    from bs.read_block [OF less.prems(1) u] less.prems(2) obtain b st1 where
      r: "cache_acquire ?B st = Some (b, st1)" "bdata (bheap st1 b) = cview st ?B" "op_inv sb xs ys c (cache_release b st1)"
        "cview (cache_release b st1) = cview st" "locked_nos (cache_release b st1) = {}" by auto
    have "cache_alloc_loop (Some c) [unat (bitmap_start sb) + j ..< hi] st
        = cache_alloc_loop (Some c) [unat (bitmap_start sb) + Suc j ..< hi] (cache_release b st1)"
      using r(1,2) full(1) by (simp add: lst Bj sb del: of_nat_add upt_Suc)
    moreover have "n div BIT_PER_BLOCK - Suc j < n div BIT_PER_BLOCK - j" using jl by linarith
    note less.hyps [OF this r(3,5), unfolded r(4), OF less.prems(3-5) j2]
    ultimately show ?thesis by simp
  qed
qed

lemma alloc_range:
  assumes "wf_bitmap sb"
  shows "unat (bitmap_start sb + 1 + num_blocks sb div of_nat BIT_PER_BLOCK)
      = Suc (unat (bitmap_start sb) + unat (num_blocks sb) div BIT_PER_BLOCK)"
proof -
  have b: "unat (num_blocks sb div of_nat BIT_PER_BLOCK) = unat (num_blocks sb) div BIT_PER_BLOCK"
    by (simp add: unat_div fs_sizes)
  have lt: "unat (bitmap_start sb) + unat (num_blocks sb) div BIT_PER_BLOCK + 1 < 4294967296"
    using assms by (simp add: wf_bitmap_def)
  have "unat (bitmap_start sb + 1) = Suc (unat (bitmap_start sb))"
    using lt by (subst unat_add_lem [THEN iffD1]) simp_all
  then show ?thesis using lt b by (subst unat_add_lem [THEN iffD1]) simp_all
qed

section \<open>Properties\<close>

text \<open>
  C4: \<open>cache_alloc\<close> returns the first block the bitmap shows free, under an operation with room for two
  more log entries: the block was not allocated, it is afterwards, no other block changes its state,
  its content is zero, and no block but it and the one bitmap block changes.
\<close>

theorem cache_alloc_correct:
  assumes "op_run sb (xs @ c # ys) st" "locked_nos st = {}" "2 \<le> unat (rm c)"
    and "wf_bitmap sb" "meta_allocated sb (cview st)"
    and "n < unat (num_blocks sb)" "\<not> allocated sb (cview st) n" "\<forall>m<n. allocated sb (cview st) m"
  shows "\<exists>c' st'. cache_alloc (Some c) st = Some (of_nat n, Some c', st') \<and> log_inv sb (xs @ c' # ys) st'
     \<and> cview st' (of_nat n) = replicate BLOCK_SIZE 0
     \<and> (\<forall>m. m < unat (num_blocks sb) \<longrightarrow> allocated sb (cview st') m = (m = n \<or> allocated sb (cview st) m))
     \<and> (\<forall>x. x \<noteq> of_nat n \<longrightarrow> x \<noteq> bitmap_block sb n \<longrightarrow> cview st' x = cview st x)"
proof -
  have inv: "op_inv sb xs ys c st" using op_run_inv [OF assms(1)] by (simp add: op_inv_def)
  have c: "cache_inv st" "sblock st = sb" using inv by (auto simp: op_inv_def log_inv_def)
  have ne: "of_nat n \<noteq> bitmap_block sb m" if "m < unat (num_blocks sb)" for m
    using assms(5-7) that by (simp add: meta_allocated_def)
  from cache_alloc_loop_spec [OF assms(4,3,6) refl inv assms(2,5,7,8), of 0] obtain c' st' where
    e: "cache_alloc (Some c) st = Some (of_nat n, Some c', st')" "op_inv sb xs ys c' st'"
      "cview st' = (cview st)(bitmap_block sb n := set_bit_in (cview st (bitmap_block sb n)) (n mod BIT_PER_BLOCK),
                              of_nat n := replicate BLOCK_SIZE 0)"
    by (auto simp: cache_alloc_def c(2) alloc_range [OF assms(4)])
  have "allocated sb (cview st') m = (m = n \<or> allocated sb (cview st) m)" if m: "m < unat (num_blocks sb)" for m
  proof -
    let ?V = "(cview st)(bitmap_block sb n := set_bit_in (cview st (bitmap_block sb n)) (n mod BIT_PER_BLOCK))"
    have "cview st' (bitmap_block sb m) = ?V (bitmap_block sb m)" using ne [OF m] by (simp add: e(3))
    then have "allocated sb (cview st') m = allocated sb ?V m" by (simp add: allocated_def)
    then show ?thesis using allocated_update(1) [OF assms(4,6) m, of "cview st"] cview_length [OF c(1)] by simp
  qed
  then show ?thesis using e by (auto simp: op_inv_def)
qed

text \<open>A device whose bitmap marks the blocks 0 to 103, for the witnesses.\<close>

definition example_dev :: "usize \<Rightarrow> u8 list" where
  "example_dev x = (if x = 98 then replicate 13 255 @ replicate 499 0 else replicate BLOCK_SIZE 0)"

lemma example_log_nos: "x \<in> log_nos example_sb \<Longrightarrow> 2 \<le> unat x \<and> unat x \<le> 65"
proof -
  assume "x \<in> log_nos example_sb"
  then obtain k where k: "k \<le> 63" "x = 2 + of_nat k" by (auto simp: log_nos_def example_sb_def fs_sizes)
  have "unat x = 2 + k" using k by (simp add: unat_add_no_wrap unat_of_nat_u64)
  then show ?thesis using k(1) by simp
qed

lemma example_usable: "66 \<le> k \<Longrightarrow> k < 1000 \<Longrightarrow> op_usable example_sb (of_nat k)"
proof -
  assume k: "66 \<le> k" "k < 1000"
  then have "unat (of_nat k :: usize) = k" by (simp add: unat_of_nat_u64)
  with k show ?thesis using example_log_nos [of "of_nat k"] by (auto simp: op_usable_def)
qed

lemma example_wf_bitmap: "wf_bitmap example_sb"
  using example_usable [of 98] by (simp add: wf_bitmap_def example_sb_def fs_sizes)

lemma example_allocated:
  assumes V: "V 98 = example_dev 98" and n: "n < 1000" shows "allocated example_sb V n \<longleftrightarrow> n < 104"
proof -
  have b: "bitmap_block example_sb n = 98" "n mod BIT_PER_BLOCK = n" using n by (simp_all add: bitmap_block_def example_sb_def fs_sizes)
  have d: "example_dev 98 ! (n div 8) = (if n div 8 < 13 then 255 else 0)" using n by (auto simp: example_dev_def nth_append)
  have ff: "bit (255 :: u8) (n mod 8)"
  proof -
    have "(255 :: u8) = mask 8" by (simp add: mask_eq_exp_minus_1)
    then show ?thesis by (simp only: bit_mask_iff) simp
  qed
  have "allocated example_sb V n \<longleftrightarrow> n div 8 < 13"
    unfolding allocated_def b V bit_set_in_iff d using ff by simp
  then show ?thesis by linarith
qed

lemma example_meta:
  assumes "V 98 = example_dev 98" shows "meta_allocated example_sb V"
proof -
  have "op_usable example_sb (of_nat n) \<and> (\<forall>m<1000. (of_nat n :: usize) \<noteq> bitmap_block example_sb m)"
    if n: "n < 1000" "\<not> allocated example_sb V n" for n
  proof -
    have n2: "104 \<le> n" using example_allocated [of V, OF assms n(1)] n(2) by simp
    have "(of_nat n :: usize) \<noteq> 98"
    proof
      assume "(of_nat n :: usize) = 98"
      then have "unat (of_nat n :: usize) = 98" by simp
      then show False using n n2 by (simp add: unat_of_nat_u64)
    qed
    then show ?thesis using example_usable [of n] n n2 by (simp add: bitmap_block_def example_sb_def fs_sizes)
  qed
  then show ?thesis by (simp add: meta_allocated_def example_sb_def)
qed

theorem cache_alloc_correct_witness:
  "\<exists>c st c' st'. op_run example_sb ([] @ c # []) st \<and> \<not> allocated example_sb (cview st) 104
     \<and> cache_alloc (Some c) st = Some (of_nat 104, Some c', st') \<and> allocated example_sb (cview st') 104"
proof -
  have "\<forall>n. length (example_dev n) = BLOCK_SIZE" "example_dev 2 = replicate BLOCK_SIZE 0" by (simp_all add: example_dev_def fs_sizes)
  from example_begin_dev [OF this] obtain c st where
    s: "op_run example_sb [c] st" "locked_nos st = {}" "rm c = 10" "\<forall>x. x \<noteq> 2 \<longrightarrow> cview st x = example_dev x" by blast
  have V: "cview st 98 = example_dev 98" using s(4) by simp
  have r: "op_run example_sb ([] @ c # []) st" using s(1) by simp
  have nb: "unat (num_blocks example_sb) = 1000" by (simp add: example_sb_def)
  have n: "\<not> allocated example_sb (cview st) 104" "\<forall>m<104. allocated example_sb (cview st) m"
    using example_allocated [of "cview st", OF V] by auto
  from cache_alloc_correct [OF r s(2) _ example_wf_bitmap example_meta [of "cview st", OF V] _ n] s(3) nb obtain c' st' where
    "cache_alloc (Some c) st = Some (of_nat 104, Some c', st')"
    "\<forall>m. m < 1000 \<longrightarrow> allocated example_sb (cview st') m = (m = 104 \<or> allocated example_sb (cview st) m)" by auto
  with r n(1) show ?thesis
    by (intro exI [of _ c] exI [of _ st] exI [of _ c'] exI [of _ st']) simp
qed

text \<open>
  \<open>cache_free\<close> marks its block free in the bitmap, whether it was allocated or not, and changes
  nothing else; so a block that was allocated and is freed is allocatable again.
\<close>

theorem cache_free_correct:
  assumes "op_run sb (xs @ c # ys) st" "locked_nos st = {}" "rm c \<noteq> 0" "wf_bitmap sb" "unat n < unat (num_blocks sb)"
  shows "\<exists>c' st'. cache_free (Some c) n st = Some (Some c', st') \<and> log_inv sb (xs @ c' # ys) st'
     \<and> (\<forall>m. m < unat (num_blocks sb) \<longrightarrow> allocated sb (cview st') m = (m \<noteq> unat n \<and> allocated sb (cview st) m))
     \<and> (\<forall>x. x \<noteq> bitmap_block sb (unat n) \<longrightarrow> cview st' x = cview st x)"
proof -
  let ?B = "bitmap_block sb (unat n)" and ?i = "unat n mod BIT_PER_BLOCK"
  have inv: "op_inv sb xs ys c st" using op_run_inv [OF assms(1)] by (simp add: op_inv_def)
  have c: "cache_inv st" "sblock st = sb" using inv by (auto simp: op_inv_def log_inv_def)
  have B: "ucast (bitmap_start sb) + n div of_nat BIT_PER_BLOCK = ?B"
  proof -
    have "unat (n div of_nat BIT_PER_BLOCK) = unat n div BIT_PER_BLOCK" by (simp add: unat_div fs_sizes)
    then have "n div of_nat BIT_PER_BLOCK = of_nat (unat n div BIT_PER_BLOCK)" by (metis of_nat_unat_u64)
    then show ?thesis by (simp add: bitmap_block_def)
  qed
  have "unat n div BIT_PER_BLOCK \<le> unat (num_blocks sb) div BIT_PER_BLOCK" using assms(5) by (simp add: div_le_mono)
  then have u: "op_usable sb ?B" using assms(4) by (simp add: wf_bitmap_def bitmap_block_def)
  have rm: "?B \<in> logged_nos st \<or> 0 < unat (rm c)" using assms(3) by (simp add: unat_gt_0)
  let ?d = "clear_bit_in (cview st ?B) ?i"
  have ld: "length ?d = BLOCK_SIZE" using cview_length [OF c(1)] by simp
  from bs.update_block [OF inv u _ rm] assms(2) obtain b st1 where
    a: "cache_acquire ?B st = Some (b, st1)" "bdata (bheap st1 b) = cview st ?B"
    and up: "\<forall>d. length d = BLOCK_SIZE \<longrightarrow> (\<exists>c' s2. sync_ctx c b (put_data b d st1) = Some (c', s2) \<and> op_inv sb xs ys c' (cache_release b s2)
          \<and> cview (cache_release b s2) = (cview st)(?B := d))" by blast
  from up ld obtain c' s2 where s: "sync_ctx c b (put_data b ?d st1) = Some (c', s2)" "op_inv sb xs ys c' (cache_release b s2)"
      "cview (cache_release b s2) = (cview st)(?B := ?d)" by blast
  have p: "upd_block b (\<lambda>b. b\<lparr>bdata := (bdata b)[?i div 8 := bdata b ! (?i div 8) AND NOT (bit_mask ?i)]\<rparr>) st1 = put_data b ?d st1"
    unfolding a(2) [symmetric] clear_bit_in_def by (rule upd_data_put)
  have "cache_free (Some c) n st = Some (Some c', cache_release b s2)"
    using a(1) sync_ctx_Some [OF s(1)] by (simp add: cache_free_def c(2) B p)
  then show ?thesis
    using s(2,3) allocated_update(2) [OF assms(4,5), of _ "cview st"] cview_length [OF c(1)] by (auto simp: op_inv_def)
qed

theorem cache_free_correct_witness:
  "\<exists>c st c' st'. op_run example_sb ([] @ c # []) st \<and> allocated example_sb (cview st) 103
     \<and> cache_free (Some c) 103 st = Some (Some c', st') \<and> \<not> allocated example_sb (cview st') 103"
proof -
  have "\<forall>n. length (example_dev n) = BLOCK_SIZE" "example_dev 2 = replicate BLOCK_SIZE 0" by (simp_all add: example_dev_def fs_sizes)
  from example_begin_dev [OF this] obtain c st where
    s: "op_run example_sb [c] st" "locked_nos st = {}" "rm c = 10" "\<forall>x. x \<noteq> 2 \<longrightarrow> cview st x = example_dev x" by blast
  have V: "cview st 98 = example_dev 98" using s(4) by simp
  have r: "op_run example_sb ([] @ c # []) st" using s(1) by simp
  have nb: "unat (num_blocks example_sb) = 1000" by (simp add: example_sb_def)
  have a: "allocated example_sb (cview st) 103" using example_allocated [of "cview st" 103, OF V] by simp
  from cache_free_correct [OF r s(2) _ example_wf_bitmap, of 103] s(3) nb obtain c' st' where
    "cache_free (Some c) 103 st = Some (Some c', st')"
    "\<forall>m. m < 1000 \<longrightarrow> allocated example_sb (cview st') m = (m \<noteq> 103 \<and> allocated example_sb (cview st) m)" by auto
  with r a show ?thesis
    by (intro exI [of _ c] exI [of _ st] exI [of _ c'] exI [of _ st']) simp
qed

end
