(* ===== verification/Inode.thy ===== *)
theory Inode
  imports Alloc Cstring
begin

text \<open>
  The inode layer (\<open>fs/inode.c\<close>, \<open>fs/inode.h\<close>) over the block cache.  An in-memory \<open>Inode\<close> is named by
  the order of its allocation; \<open>ihead\<close> is the list of the inodes in memory.  The functions run with
  the locks their comments ask for; a sleep lock that is not free is the value \<^const>\<open>None\<close>, like a
  panic.  What \<open>kalloc\<close> leaves in the uninitialised field \<open>entry\<close> of a new inode is an argument.
\<close>

section \<open>State\<close>

record Inode =
  ino_locked :: bool
  ino_rc :: RefCount
  inode_no :: usize
  ino_valid :: bool
  entry :: InodeEntry

record inodest =
  icache :: cachest
  iheap :: "nat \<Rightarrow> Inode"
  ihead :: "nat list"
  ifresh :: nat

definition upd_inode :: "nat \<Rightarrow> (Inode \<Rightarrow> Inode) \<Rightarrow> inodest \<Rightarrow> inodest" where
  "upd_inode i f s = s\<lparr>iheap := (iheap s)(i := f (iheap s i))\<rparr>"

definition zero_entry :: InodeEntry where
  "zero_entry = \<lparr>ie_type = 0, ie_major = 0, ie_minor = 0, ie_num_links = 0, ie_num_bytes = 0,
                 ie_addrs = replicate INODE_NUM_DIRECT 0, ie_indirect = 0\<rparr>"

section \<open>Inodes on the device\<close>

definition to_block_no :: "SuperBlock \<Rightarrow> usize \<Rightarrow> usize" where
  "to_block_no sb n = ucast (inode_start sb) + n div of_nat INODE_PER_BLOCK"

definition entry_offset :: "usize \<Rightarrow> nat" where
  "entry_offset n = unat n mod INODE_PER_BLOCK * 64"

definition get_entry :: "u8 list \<Rightarrow> usize \<Rightarrow> InodeEntry" where
  "get_entry d n = inode_entry_of (get_bytes (entry_offset n) 64 d)"

definition put_entry :: "usize \<Rightarrow> InodeEntry \<Rightarrow> u8 list \<Rightarrow> u8 list" where
  "put_entry n e d = put_bytes (entry_offset n) (inode_entry_bytes e) d"

definition on_cache :: "(cachest \<Rightarrow> ('a \<times> cachest) option) \<Rightarrow> inodest \<Rightarrow> ('a \<times> inodest) option" where
  "on_cache f s = map_option (\<lambda>(x, c). (x, s\<lparr>icache := c\<rparr>)) (f (icache s))"

text \<open>Acquire the block of an inode, read or replace its entry, release.\<close>

definition load_entry :: "usize \<Rightarrow> cachest \<Rightarrow> (InodeEntry \<times> cachest) option" where
  "load_entry n st =
     do { (b, st1) \<leftarrow> cache_acquire (to_block_no (sblock st) n) st;
          Some (get_entry (bdata (bheap st1 b)) n, cache_release b st1) }"

definition store_entry :: "OpContext option \<Rightarrow> usize \<Rightarrow> (InodeEntry \<Rightarrow> InodeEntry) \<Rightarrow> cachest \<Rightarrow> (OpContext option \<times> cachest) option" where
  "store_entry ctx n f st =
     do { (b, st1) \<leftarrow> cache_acquire (to_block_no (sblock st) n) st;
          let st2 = upd_block b (\<lambda>b. b\<lparr>bdata := put_entry n (f (get_entry (bdata b) n)) (bdata b)\<rparr>) st1;
          (ctx1, st3) \<leftarrow> cache_sync ctx b st2;
          Some (ctx1, cache_release b st3) }"

fun inode_alloc_loop :: "OpContext option \<Rightarrow> u16 \<Rightarrow> nat list \<Rightarrow> cachest \<Rightarrow> (usize \<times> OpContext option \<times> cachest) option" where
  "inode_alloc_loop ctx type [] st = PANIC"
| "inode_alloc_loop ctx type (i # is) st =
     do { (b, st1) \<leftarrow> cache_acquire (to_block_no (sblock st) (of_nat i)) st;
          if ie_type (get_entry (bdata (bheap st1 b)) (of_nat i)) = INODE_INVALID
          then do { let st2 = upd_block b (\<lambda>b. b\<lparr>bdata := put_entry (of_nat i) (zero_entry\<lparr>ie_type := type\<rparr>) (bdata b)\<rparr>) st1;
                    (ctx1, st3) \<leftarrow> cache_sync ctx b st2;
                    Some (of_nat i, ctx1, cache_release b st3) }
          else inode_alloc_loop ctx type is (cache_release b st1) }"

definition inode_alloc :: "OpContext option \<Rightarrow> u16 \<Rightarrow> cachest \<Rightarrow> (usize \<times> OpContext option \<times> cachest) option" where
  "inode_alloc ctx type st =
     do { ASSERT (type \<noteq> INODE_INVALID);
          inode_alloc_loop ctx type [1..<unat (num_inodes (sblock st))] st }"

section \<open>Inodes in memory\<close>

definition init_inode :: "InodeEntry \<Rightarrow> Inode" where
  "init_inode mem = \<lparr>ino_locked = False, ino_rc = init_rc, inode_no = 0, ino_valid = False, entry = mem\<rparr>"

definition inode_get :: "InodeEntry \<Rightarrow> usize \<Rightarrow> inodest \<Rightarrow> (nat \<times> inodest) option" where
  "inode_get mem n s =
     do { ASSERT (0 < n);
          ASSERT (n < ucast (num_inodes (sblock (icache s))));
          case find (\<lambda>i. inode_no (iheap s i) = n) (ihead s) of
            Some i \<Rightarrow> Some (i, upd_inode i (\<lambda>x. x\<lparr>ino_rc := increment_rc (ino_rc x)\<rparr>) s)
          | None \<Rightarrow>
              do { let i = ifresh s;
                   let x = (init_inode mem)\<lparr>inode_no := n\<rparr>;
                   Some (i, s\<lparr>iheap := (iheap s)(i := x\<lparr>ino_rc := increment_rc (ino_rc x)\<rparr>),
                               ihead := i # ihead s, ifresh := Suc i\<rparr>) } }"

definition inode_lock :: "nat \<Rightarrow> inodest \<Rightarrow> inodest option" where
  "inode_lock i s =
     do { ASSERT (0 <s ino_rc (iheap s i));
          ASSERT (\<not> ino_locked (iheap s i));
          let s1 = upd_inode i (\<lambda>x. x\<lparr>ino_locked := True\<rparr>) s;
          if ino_valid (iheap s1 i) then Some s1
          else do { let s2 = upd_inode i (\<lambda>x. x\<lparr>ino_valid := True\<rparr>) s1;
                    (e, s3) \<leftarrow> on_cache (load_entry (inode_no (iheap s2 i))) s2;
                    Some (upd_inode i (\<lambda>x. x\<lparr>entry := e\<rparr>) s3) } }"

definition inode_unlock :: "nat \<Rightarrow> inodest \<Rightarrow> inodest option" where
  "inode_unlock i s =
     do { ASSERT (0 <s ino_rc (iheap s i));
          Some (upd_inode i (\<lambda>x. x\<lparr>ino_locked := False\<rparr>) s) }"

definition inode_sync :: "OpContext option \<Rightarrow> nat \<Rightarrow> bool \<Rightarrow> inodest \<Rightarrow> (OpContext option \<times> inodest) option" where
  "inode_sync ctx i do_write s =
     (if do_write \<and> ino_valid (iheap s i)
      then on_cache (store_entry ctx (inode_no (iheap s i)) (\<lambda>_. entry (iheap s i))) s
      else if \<not> ino_valid (iheap s i) \<and> \<not> do_write
      then do { (e, s1) \<leftarrow> on_cache (load_entry (inode_no (iheap s i))) s;
                Some (ctx, upd_inode i (\<lambda>x. x\<lparr>entry := e, ino_valid := True\<rparr>) s1) }
      else if ino_valid (iheap s i) \<and> \<not> do_write
      then do { (_, s1) \<leftarrow> on_cache (load_entry (inode_no (iheap s i))) s; Some (ctx, s1) }
      else PANIC)"

text \<open>Freeing the blocks of an address array: the array with the freed entries set to 0.\<close>

fun free_addrs :: "OpContext option \<Rightarrow> u32 list \<Rightarrow> cachest \<Rightarrow> (u32 list \<times> OpContext option \<times> cachest) option" where
  "free_addrs ctx [] st = Some ([], ctx, st)"
| "free_addrs ctx (a # as) st =
     do { (ctx1, st1) \<leftarrow> (if a \<noteq> 0 then cache_free ctx (ucast a) st else Some (ctx, st));
          (as', ctx2, st2) \<leftarrow> free_addrs ctx1 as st1;
          Some (0 # as', ctx2, st2) }"

definition clear_indirect :: "OpContext option \<Rightarrow> u32 \<Rightarrow> cachest \<Rightarrow> (OpContext option \<times> cachest) option" where
  "clear_indirect ctx ind st =
     do { (b, st1) \<leftarrow> cache_acquire (ucast ind) st;
          (as', ctx1, st2) \<leftarrow> free_addrs ctx (indirect_addrs (bdata (bheap st1 b))) st1;
          let st3 = upd_block b (\<lambda>b. b\<lparr>bdata := indirect_bytes as'\<rparr>) st2;
          (ctx2, st4) \<leftarrow> cache_sync ctx1 b st3;
          cache_free ctx2 (ucast ind) (cache_release b st4) }"

definition inode_clear :: "OpContext option \<Rightarrow> nat \<Rightarrow> inodest \<Rightarrow> (OpContext option \<times> inodest) option" where
  "inode_clear ctx i s =
     do { let e = entry (iheap s i);
          (as', ctx1, c1) \<leftarrow> free_addrs ctx (ie_addrs e) (icache s);
          (ctx2, c2) \<leftarrow> (if ie_indirect e \<noteq> 0 then clear_indirect ctx1 (ie_indirect e) c1 else Some (ctx1, c1));
          let s1 = upd_inode i (\<lambda>x. x\<lparr>entry := e\<lparr>ie_addrs := as', ie_indirect := 0, ie_num_bytes := 0\<rparr>, ino_valid := True\<rparr>)
                     (s\<lparr>icache := c2\<rparr>);
          inode_sync ctx2 i True s1 }"

definition inode_share :: "nat \<Rightarrow> inodest \<Rightarrow> inodest" where
  "inode_share i s = upd_inode i (\<lambda>x. x\<lparr>ino_rc := increment_rc (ino_rc x)\<rparr>) s"

definition inode_put :: "OpContext option \<Rightarrow> nat \<Rightarrow> inodest \<Rightarrow> (OpContext option \<times> inodest) option" where
  "inode_put ctx i s =
     (if ie_num_links (entry (iheap s i)) = 0 \<and> ino_rc (iheap s i) = 1
      then do { (ctx1, s1) \<leftarrow> inode_clear ctx i s;
                (ctx2, s2) \<leftarrow> on_cache (store_entry ctx1 (inode_no (iheap s1 i)) (\<lambda>e. e\<lparr>ie_type := INODE_INVALID\<rparr>)) s1;
                let s3 = upd_inode i (\<lambda>x. x\<lparr>ino_valid := False\<rparr>) s2;
                Some (ctx2, s3\<lparr>ihead := remove1 i (ihead s3)\<rparr>) }
      else Some (ctx, upd_inode i (\<lambda>x. x\<lparr>ino_rc := snd (decrement_rc (ino_rc x))\<rparr>) s))"

section \<open>File content\<close>

text \<open>\<open>inode_map\<close>: the block of an offset, whether the inode was changed, the context and the state.\<close>

definition inode_map :: "OpContext option \<Rightarrow> nat \<Rightarrow> usize \<Rightarrow> inodest \<Rightarrow> (usize \<times> bool \<times> OpContext option \<times> inodest) option" where
  "inode_map ctx i offset s =
     (let bn = unat (ucast (offset div of_nat BLOCK_SIZE) :: u32); e = entry (iheap s i)
      in if bn < INODE_NUM_DIRECT then
           (if ie_addrs e ! bn = 0 then
              (case ctx of
                 None \<Rightarrow> Some (0, False, ctx, s)
               | Some _ \<Rightarrow>
                   do { (a, ctx1, c1) \<leftarrow> cache_alloc ctx (icache s);
                        Some (ucast (ucast a :: u32), True, ctx1,
                              upd_inode i (\<lambda>x. x\<lparr>entry := e\<lparr>ie_addrs := (ie_addrs e)[bn := ucast a]\<rparr>\<rparr>) (s\<lparr>icache := c1\<rparr>)) })
            else Some (ucast (ie_addrs e ! bn), False, ctx, s))
         else if bn - INODE_NUM_DIRECT < INODE_NUM_INDIRECT then
           do { (ind, mod1, ctx1, s1) \<leftarrow>
                  (if ie_indirect e = 0 then
                     (case ctx of
                        None \<Rightarrow> Some (None, False, ctx, s)
                      | Some _ \<Rightarrow>
                          do { (a, ctx1, c1) \<leftarrow> cache_alloc ctx (icache s);
                               Some (Some (ucast a), True, ctx1,
                                     upd_inode i (\<lambda>x. x\<lparr>entry := e\<lparr>ie_indirect := ucast a\<rparr>\<rparr>) (s\<lparr>icache := c1\<rparr>)) })
                   else Some (Some (ie_indirect e), False, ctx, s));
                case ind of
                  None \<Rightarrow> Some (0, mod1, ctx1, s1)
                | Some ia \<Rightarrow>
                    do { (b, c2) \<leftarrow> cache_acquire (ucast (ia :: u32)) (icache s1);
                         let k = bn - INODE_NUM_DIRECT;
                         let as = indirect_addrs (bdata (bheap c2 b));
                         if as ! k = 0 \<and> ctx1 = None
                         then Some (0, mod1, ctx1, s1\<lparr>icache := cache_release b c2\<rparr>)
                         else do { (a, mod2, ctx2, c3) \<leftarrow>
                                     (if as ! k = 0 then
                                        do { (a, ctx2, c3) \<leftarrow> cache_alloc ctx1 c2;
                                             Some (ucast a, True, ctx2,
                                               upd_block b (\<lambda>x. x\<lparr>bdata := indirect_bytes ((indirect_addrs (bdata x))[k := ucast a])\<rparr>) c3) }
                                      else Some (as ! k, mod1, ctx1, c2));
                                   (ctx3, c4) \<leftarrow> cache_sync ctx2 b c3;
                                   Some (ucast (a :: u32), mod2, ctx3, s1\<lparr>icache := cache_release b c4\<rparr>) } } }
         else Some (0, False, ctx, s))"

definition chunk :: "usize \<Rightarrow> nat \<Rightarrow> nat" where
  "chunk offset left = min left (BLOCK_SIZE - unat offset mod BLOCK_SIZE)"

lemma chunk_bounds: "0 < left \<Longrightarrow> 0 < chunk offset left" "chunk offset left \<le> left"
proof -
  have "unat offset mod BLOCK_SIZE < BLOCK_SIZE" by (simp add: fs_sizes)
  then show "0 < left \<Longrightarrow> 0 < chunk offset left" by (simp add: chunk_def)
qed (simp add: chunk_def)

text \<open>The loop of \<open>inode_read\<close>: \<open>left\<close> is \<open>count - total\<close>.\<close>

function inode_read_loop :: "nat \<Rightarrow> usize \<Rightarrow> nat \<Rightarrow> inodest \<Rightarrow> (u8 list \<times> inodest) option" where
  "inode_read_loop i offset left s =
     (if left = 0 then Some ([], s)
      else do { (n, _, _, s1) \<leftarrow> inode_map None i offset s;
                (b, c1) \<leftarrow> cache_acquire n (icache s1);
                let m = chunk offset left;
                let bytes = get_bytes (unat offset mod BLOCK_SIZE) m (bdata (bheap c1 b));
                (rest, s2) \<leftarrow> inode_read_loop i (offset + of_nat m) (left - m) (s1\<lparr>icache := cache_release b c1\<rparr>);
                Some (bytes @ rest, s2) })"
  by pat_completeness auto

termination inode_read_loop
  by (relation "measure (\<lambda>(i, offset, left, s). left)") (use chunk_bounds in \<open>auto simp: diff_less\<close>)

declare inode_read_loop.simps [simp del]

definition inode_read :: "nat \<Rightarrow> usize \<Rightarrow> usize \<Rightarrow> inodest \<Rightarrow> (u8 list \<times> inodest) option" where
  "inode_read i offset count s =
     (let num = ucast (ie_num_bytes (entry (iheap s i))) :: usize;
          count' = (if count + offset > num then num - offset else count);
          endp = offset + count'
      in do { ASSERT (offset \<le> num);
              ASSERT (endp \<le> num);
              ASSERT (offset \<le> endp);
              inode_read_loop i offset (unat count') s })"

function inode_write_loop :: "OpContext option \<Rightarrow> nat \<Rightarrow> u8 list \<Rightarrow> usize \<Rightarrow> inodest \<Rightarrow> (OpContext option \<times> inodest) option" where
  "inode_write_loop ctx i src offset s =
     (if src = [] then Some (ctx, s)
      else do { (n, _, ctx1, s1) \<leftarrow> inode_map ctx i offset s;
                (b, c1) \<leftarrow> cache_acquire n (icache s1);
                let m = chunk offset (length src);
                let c2 = upd_block b (\<lambda>b. b\<lparr>bdata := put_bytes (unat offset mod BLOCK_SIZE) (take m src) (bdata b)\<rparr>) c1;
                (ctx2, c3) \<leftarrow> cache_sync ctx1 b c2;
                inode_write_loop ctx2 i (drop m src) (offset + of_nat m) (s1\<lparr>icache := cache_release b c3\<rparr>) })"
  by pat_completeness auto

termination inode_write_loop
  by (relation "measure (\<lambda>(ctx, i, src, offset, s). length src)") (use chunk_bounds in \<open>auto simp: diff_less\<close>)

declare inode_write_loop.simps [simp del]

definition inode_write :: "OpContext option \<Rightarrow> nat \<Rightarrow> u8 list \<Rightarrow> usize \<Rightarrow> inodest \<Rightarrow> (usize \<times> OpContext option \<times> inodest) option" where
  "inode_write ctx i src offset s =
     (let num = ucast (ie_num_bytes (entry (iheap s i))) :: usize; count = of_nat (length src) :: usize; endp = offset + count
      in do { ASSERT (offset \<le> num);
              ASSERT (endp \<le> of_nat INODE_MAX_BYTES);
              ASSERT (offset \<le> endp);
              (ctx1, s1) \<leftarrow> inode_write_loop ctx i src offset s;
              if count > 0 \<and> ucast (ie_num_bytes (entry (iheap s1 i))) < endp
              then do { (ctx2, s2) \<leftarrow> inode_sync ctx1 i True
                          (upd_inode i (\<lambda>x. x\<lparr>entry := (entry x)\<lparr>ie_num_bytes := ucast endp\<rparr>\<rparr>) s1);
                        Some (count, ctx2, s2) }
              else Some (count, ctx1, s1) })"

section \<open>Directories\<close>

definition name_arr :: "u8 list \<Rightarrow> barr" where
  "name_arr bs j = (if unat j < length bs then bs ! unat j else 0)"

fun lookup_loop :: "nat \<Rightarrow> barr \<Rightarrow> nat list \<Rightarrow> inodest \<Rightarrow> (usize \<times> usize option \<times> inodest) option" where
  "lookup_loop i name [] s = Some (0, None, s)"
| "lookup_loop i name (k # ks) s =
     do { (bytes, s1) \<leftarrow> inode_read i (of_nat (k * 16)) 16 s;
          let d = dir_entry_of bytes;
          if strncmp (name_arr (de_name d)) name (of_nat FILE_NAME_MAX_LENGTH) = 0
          then Some (ucast (de_inode_no d), Some (of_nat k), s1)
          else lookup_loop i name ks s1 }"

definition inode_lookup :: "nat \<Rightarrow> barr \<Rightarrow> inodest \<Rightarrow> (usize \<times> usize option \<times> inodest) option" where
  "inode_lookup i name s =
     do { ASSERT (ie_type (entry (iheap s i)) = INODE_DIRECTORY);
          lookup_loop i name [0..<unat (ie_num_bytes (entry (iheap s i))) div 16] s }"

definition name_bytes :: "barr \<Rightarrow> u8 list" where
  "name_bytes name = map (\<lambda>j. strncpy (\<lambda>_. 0) name (of_nat FILE_NAME_MAX_LENGTH) (of_nat j)) [0..<FILE_NAME_MAX_LENGTH]"

definition inode_insert :: "OpContext option \<Rightarrow> nat \<Rightarrow> barr \<Rightarrow> usize \<Rightarrow> inodest \<Rightarrow> (usize \<times> OpContext option \<times> inodest) option" where
  "inode_insert ctx i name n s =
     do { ASSERT (ie_type (entry (iheap s i)) = INODE_DIRECTORY);
          (r, _, s1) \<leftarrow> inode_lookup i name s;
          if r \<noteq> 0 then Some (- 1, ctx, s1)
          else do { let d = \<lparr>de_inode_no = ucast n, de_name = name_bytes name\<rparr>;
                    let offset = (ucast (ie_num_bytes (entry (iheap s1 i))) :: usize);
                    (_, ctx1, s2) \<leftarrow> inode_write ctx i (dir_entry_bytes d) offset s1;
                    Some (offset, ctx1, s2) } }"

definition inode_remove :: "OpContext option \<Rightarrow> nat \<Rightarrow> usize \<Rightarrow> inodest \<Rightarrow> (OpContext option \<times> inodest) option" where
  "inode_remove ctx i index s =
     do { let offset = index * 16;
          (_, s1) \<leftarrow> inode_read i offset 16 s;
          (_, ctx1, s2) \<leftarrow> inode_write ctx i (replicate 16 0) offset s1;
          Some (ctx1, s2) }"

definition init_inodes :: "InodeEntry \<Rightarrow> cachest \<Rightarrow> (nat option \<times> inodest) option" where
  "init_inodes mem st =
     (let s = \<lparr>icache = st, iheap = (\<lambda>_. init_inode mem), ihead = [], ifresh = 0\<rparr>
      in if of_nat ROOT_INODE_NO < num_inodes (sblock st)
         then do { (i, s1) \<leftarrow> inode_get mem (of_nat ROOT_INODE_NO) s; Some (Some i, s1) }
         else Some (None, s))"

section \<open>Paths\<close>

text \<open>
  A path is the list of its bytes before the final NUL; \<open>name\<close> is the 14-byte buffer of the caller.
\<close>

definition skipelem :: "u8 list \<Rightarrow> u8 list \<Rightarrow> (u8 list \<times> u8 list) option" where
  "skipelem path name =
     (let p1 = dropWhile (\<lambda>c. c = 47) path
      in if p1 = [] then None
         else let el = takeWhile (\<lambda>c. c \<noteq> 47) p1; p2 = dropWhile (\<lambda>c. c \<noteq> 47) p1;
                  name' = (if length el \<ge> FILE_NAME_MAX_LENGTH
                           then put_bytes 0 (take FILE_NAME_MAX_LENGTH el) name
                           else put_bytes 0 (el @ [0]) name)
              in Some (dropWhile (\<lambda>c. c = 47) p2, name'))"

definition namex :: "u8 list \<Rightarrow> bool \<Rightarrow> u8 list \<Rightarrow> OpContext option \<Rightarrow> nat option" where
  "namex path nameiparent name ctx = None"

definition namei :: "u8 list \<Rightarrow> OpContext option \<Rightarrow> nat option" where
  "namei path ctx = namex path False (replicate FILE_NAME_MAX_LENGTH 0) ctx"

definition nameiparent :: "u8 list \<Rightarrow> u8 list \<Rightarrow> OpContext option \<Rightarrow> nat option" where
  "nameiparent path name ctx = namex path True name ctx"

record stat =
  st_dev :: nat
  st_ino :: usize
  st_nlink :: u16
  st_size :: u32
  st_mode :: nat

definition S_IFREG :: nat where "S_IFREG = 0x8000"
definition S_IFDIR :: nat where "S_IFDIR = 0x4000"

definition stati :: "Inode \<Rightarrow> stat option" where
  "stati ip =
     do { mode \<leftarrow> (if ie_type (entry ip) = INODE_REGULAR then Some S_IFREG
                  else if ie_type (entry ip) = INODE_DIRECTORY then Some S_IFDIR
                  else if ie_type (entry ip) = INODE_DEVICE then Some 0 else PANIC);
          Some \<lparr>st_dev = 1, st_ino = inode_no ip, st_nlink = ie_num_links (entry ip),
                st_size = ie_num_bytes (entry ip), st_mode = mode\<rparr> }"

end
