(* ===== verification/Inode_Props.thy ===== *)
theory Inode_Props
  imports Inode
begin

text \<open>
  Correctness of the inode layer: the table of inodes on the device behaves as an array of entries,
  allocation, and the paths.
\<close>

section \<open>The inode table\<close>

definition dinode :: "SuperBlock \<Rightarrow> (usize \<Rightarrow> u8 list) \<Rightarrow> usize \<Rightarrow> InodeEntry" where
  "dinode sb V n = get_entry (V (to_block_no sb n)) n"

definition wf_inodes :: "SuperBlock \<Rightarrow> bool" where
  "wf_inodes sb \<longleftrightarrow> (\<forall>n < ucast (num_inodes sb). op_usable sb (to_block_no sb n))"

lemma entry_offset_bound: "entry_offset n + 64 \<le> BLOCK_SIZE"
proof -
  have "unat n mod 8 < 8" by simp
  then have "unat n mod 8 * 64 \<le> 448" by linarith
  then show ?thesis by (simp add: entry_offset_def fs_sizes)
qed

lemma length_put_entry [simp]:
  "length d = BLOCK_SIZE \<Longrightarrow> length (ie_addrs e) = INODE_NUM_DIRECT \<Longrightarrow> length (put_entry n e d) = BLOCK_SIZE"
  using entry_offset_bound [of n] by (simp add: put_entry_def inode_entry_roundtrip)

lemma get_put_entry_same:
  assumes "length d = BLOCK_SIZE" "length (ie_addrs e) = INODE_NUM_DIRECT"
  shows "get_entry (put_entry n e d) n = e"
  using assms entry_offset_bound [of n] by (simp add: get_entry_def put_entry_def inode_entry_roundtrip)

lemma get_put_entry_other:
  assumes "length d = BLOCK_SIZE" "length (ie_addrs e) = INODE_NUM_DIRECT" "unat m mod INODE_PER_BLOCK \<noteq> unat n mod INODE_PER_BLOCK"
  shows "get_entry (put_entry n e d) m = get_entry d m"
proof -
  have "entry_offset m + 64 \<le> entry_offset n \<or> entry_offset n + 64 \<le> entry_offset m"
    using assms(3) unfolding entry_offset_def by linarith
  then show ?thesis
    using assms(1,2) entry_offset_bound [of n] entry_offset_bound [of m]
    by (simp add: get_entry_def put_entry_def inode_entry_roundtrip get_put_bytes_other)
qed

lemma to_block_no_eq_iff: "to_block_no sb m = to_block_no sb n \<longleftrightarrow> unat m div INODE_PER_BLOCK = unat n div INODE_PER_BLOCK"
proof -
  have u: "unat (k div of_nat INODE_PER_BLOCK) = unat k div INODE_PER_BLOCK" for k :: usize
    by (simp add: unat_div fs_sizes)
  have "to_block_no sb m = to_block_no sb n \<longleftrightarrow> m div of_nat INODE_PER_BLOCK = n div of_nat INODE_PER_BLOCK"
    by (simp add: to_block_no_def)
  also have "\<dots> \<longleftrightarrow> unat m div INODE_PER_BLOCK = unat n div INODE_PER_BLOCK"
    by (metis u word_unat_eq_iff)
  finally show ?thesis .
qed

text \<open>Storing an entry in its block changes that inode and no other.\<close>

lemma dinode_update:
  assumes len: "length (V (to_block_no sb n)) = BLOCK_SIZE" and e: "length (ie_addrs e) = INODE_NUM_DIRECT"
  shows "dinode sb (V(to_block_no sb n := put_entry n e (V (to_block_no sb n)))) m = (if m = n then e else dinode sb V m)"
proof (cases "m = n")
  case True
  then show ?thesis using get_put_entry_same [OF len e] by (simp add: dinode_def)
next
  case False
  show ?thesis
  proof (cases "to_block_no sb m = to_block_no sb n")
    case True
    then have "unat m div INODE_PER_BLOCK = unat n div INODE_PER_BLOCK" by (simp add: to_block_no_eq_iff)
    then have "unat m mod INODE_PER_BLOCK \<noteq> unat n mod INODE_PER_BLOCK"
      using False by (metis div_mult_mod_eq word_unat_eq_iff)
    from get_put_entry_other [OF len e this] True False show ?thesis by (simp add: dinode_def)
  qed (simp add: dinode_def False)
qed

lemma get_entry_addrs [simp]: "length (ie_addrs (get_entry d n)) = INODE_NUM_DIRECT"
  by (simp add: get_entry_def)

section \<open>Loading and storing\<close>

lemma load_entry_spec:
  assumes inv: "op_inv sb xs ys c st" and u: "op_usable sb (to_block_no sb n)" and h: "to_block_no sb n \<notin> locked_nos st"
  shows "\<exists>st'. load_entry n st = Some (dinode sb (cview st) n, st') \<and> op_inv sb xs ys c st' \<and> cview st' = cview st
     \<and> locked_nos st' = locked_nos st"
proof -
  have sb: "sblock st = sb" using inv by (simp add: op_inv_def log_inv_def)
  from bs.read_block [OF inv u h] obtain i s' where
    "cache_acquire (to_block_no sb n) st = Some (i, s')" "bdata (bheap s' i) = cview st (to_block_no sb n)"
    "op_inv sb xs ys c (cache_release i s')" "cview (cache_release i s') = cview st" "locked_nos (cache_release i s') = locked_nos st"
    by blast
  then show ?thesis by (simp add: load_entry_def sb dinode_def)
qed

lemma store_entry_spec:
  assumes inv: "op_inv sb xs ys c st" and u: "op_usable sb (to_block_no sb n)" and h: "to_block_no sb n \<notin> locked_nos st"
    and rm: "rm c \<noteq> 0" and f: "length (ie_addrs (f (dinode sb (cview st) n))) = INODE_NUM_DIRECT"
  shows "\<exists>c' st'. store_entry (Some c) n f st = Some (Some c', st') \<and> op_inv sb xs ys c' st' \<and> locked_nos st' = locked_nos st
     \<and> unat (rm c) \<le> unat (rm c') + 1
     \<and> (\<forall>m. dinode sb (cview st') m = (if m = n then f (dinode sb (cview st) n) else dinode sb (cview st) m))
     \<and> (\<forall>x. x \<noteq> to_block_no sb n \<longrightarrow> cview st' x = cview st x)"
proof -
  let ?B = "to_block_no sb n"
  let ?d = "put_entry n (f (dinode sb (cview st) n)) (cview st ?B)"
  have sb: "sblock st = sb" and c: "cache_inv st" using inv by (auto simp: op_inv_def log_inv_def)
  have ld: "length ?d = BLOCK_SIZE" using f cview_length [OF c] by simp
  have rm0: "?B \<in> logged_nos st \<or> 0 < unat (rm c)" using rm by (simp add: unat_gt_0)
  from bs.update_block [OF inv u h rm0] obtain b st1 where
    a: "cache_acquire ?B st = Some (b, st1)" "bdata (bheap st1 b) = cview st ?B"
    and up: "\<forall>d. length d = BLOCK_SIZE \<longrightarrow> (\<exists>c' s2. sync_ctx c b (put_data b d st1) = Some (c', s2) \<and> op_inv sb xs ys c' (cache_release b s2)
          \<and> cview (cache_release b s2) = (cview st)(?B := d) \<and> locked_nos (cache_release b s2) = locked_nos st
          \<and> logged_nos (cache_release b s2) = insert ?B (logged_nos st)
          \<and> unat (rm c') = (if ?B \<in> logged_nos st then unat (rm c) else unat (rm c) - 1))" by auto
  from up [rule_format, OF ld] obtain c' s2 where
    s: "sync_ctx c b (put_data b ?d st1) = Some (c', s2)" "op_inv sb xs ys c' (cache_release b s2)"
      "cview (cache_release b s2) = (cview st)(?B := ?d)" "locked_nos (cache_release b s2) = locked_nos st"
      "unat (rm c) \<le> unat (rm c') + 1" by (auto split: if_splits)
  have p: "upd_block b (\<lambda>b. b\<lparr>bdata := put_entry n (f (get_entry (bdata b) n)) (bdata b)\<rparr>) st1 = put_data b ?d st1"
    unfolding dinode_def a(2) [symmetric] by (rule upd_data_put)
  have "store_entry (Some c) n f st = Some (Some c', cache_release b s2)"
    using a(1) sync_ctx_Some [OF s(1)] by (simp add: store_entry_def sb p)
  moreover have "dinode sb (cview (cache_release b s2)) m = (if m = n then f (dinode sb (cview st) n) else dinode sb (cview st) m)" for m
    unfolding s(3) by (rule dinode_update [OF cview_length [OF c] f])
  ultimately show ?thesis using s(2-5) by simp
qed

section \<open>Allocating an inode\<close>

lemma zero_entry_addrs [simp]: "length (ie_addrs zero_entry) = INODE_NUM_DIRECT"
  by (simp add: zero_entry_def)

lemma inode_alloc_loop_spec:
  assumes u: "\<And>i. i \<in> set is \<Longrightarrow> op_usable sb (to_block_no sb (of_nat i))" and rm: "rm c \<noteq> 0"
  shows "op_inv sb xs ys c st \<Longrightarrow> locked_nos st = {} \<Longrightarrow>
     is = as @ n # bs' \<Longrightarrow> ie_type (dinode sb (cview st) (of_nat n)) = INODE_INVALID \<Longrightarrow>
     \<forall>a\<in>set as. ie_type (dinode sb (cview st) (of_nat a)) \<noteq> INODE_INVALID \<Longrightarrow>
     \<exists>c' st'. inode_alloc_loop (Some c) type is st = Some (of_nat n, Some c', st') \<and> op_inv sb xs ys c' st' \<and> locked_nos st' = {}
       \<and> (\<forall>m. dinode sb (cview st') m = (if m = of_nat n then zero_entry\<lparr>ie_type := type\<rparr> else dinode sb (cview st) m))
       \<and> (\<forall>x. x \<noteq> to_block_no sb (of_nat n) \<longrightarrow> cview st' x = cview st x)"
  using u
proof (induction as arbitrary: "is" st)
  case Nil
  let ?f = "\<lambda>_. zero_entry\<lparr>ie_type := type\<rparr>"
  have un: "op_usable sb (to_block_no sb (of_nat n))" using Nil.prems(3,6) by simp
  have sb: "sblock st = sb" using Nil.prems(1) by (simp add: op_inv_def log_inv_def)
  have h: "to_block_no sb (of_nat n) \<notin> locked_nos st" using Nil.prems(2) by simp
  have f: "length (ie_addrs (?f (dinode sb (cview st) (of_nat n)))) = INODE_NUM_DIRECT" by simp
  from store_entry_spec [OF Nil.prems(1) un h rm f] obtain c' st' where
    s: "store_entry (Some c) (of_nat n) ?f st = Some (Some c', st')" "op_inv sb xs ys c' st'" "locked_nos st' = {}"
      "\<forall>m. dinode sb (cview st') m = (if m = of_nat n then zero_entry\<lparr>ie_type := type\<rparr> else dinode sb (cview st) m)"
      "\<forall>x. x \<noteq> to_block_no sb (of_nat n) \<longrightarrow> cview st' x = cview st x" using Nil.prems(2) by auto
  from s(1) obtain b st1 st3 where
    a: "cache_acquire (to_block_no sb (of_nat n)) st = Some (b, st1)"
      "cache_sync (Some c) b (upd_block b (\<lambda>b. b\<lparr>bdata := put_entry (of_nat n) (zero_entry\<lparr>ie_type := type\<rparr>) (bdata b)\<rparr>) st1) = Some (Some c', st3)"
      "st' = cache_release b st3"
    by (auto simp: store_entry_def sb Option_bind_Some_iff split: prod.splits)
  from op_acquire [OF Nil.prems(1) un h] a(1) have "bdata (bheap st1 b) = cview st (to_block_no sb (of_nat n))"
    by (metis option.inject prod.inject)
  then have "ie_type (get_entry (bdata (bheap st1 b)) (of_nat n)) = INODE_INVALID" using Nil.prems(4) by (simp add: dinode_def)
  then have "inode_alloc_loop (Some c) type is st = Some (of_nat n, Some c', st')"
    using a Nil.prems(3) by (simp add: sb)
  then show ?case using s(2-5) by blast
next
  case (Cons a as)
  have ua: "op_usable sb (to_block_no sb (of_nat a))" using Cons.prems(3,6) by simp
  have h: "to_block_no sb (of_nat a) \<notin> locked_nos st" using Cons.prems(2) by simp
  have sb: "sblock st = sb" using Cons.prems(1) by (simp add: op_inv_def log_inv_def)
  from bs.read_block [OF Cons.prems(1) ua h] obtain b s' where
    r: "cache_acquire (to_block_no sb (of_nat a)) st = Some (b, s')" "bdata (bheap s' b) = cview st (to_block_no sb (of_nat a))"
      "op_inv sb xs ys c (cache_release b s')" "cview (cache_release b s') = cview st" "locked_nos (cache_release b s') = locked_nos st" by blast
  have "ie_type (get_entry (bdata (bheap s' b)) (of_nat a)) \<noteq> INODE_INVALID" using Cons.prems(5) r(2) by (simp add: dinode_def)
  then have e: "inode_alloc_loop (Some c) type is st = inode_alloc_loop (Some c) type (as @ n # bs') (cache_release b s')"
    using r(1) Cons.prems(3) by (simp add: sb)
  have l0: "locked_nos (cache_release b s') = {}" using r(5) Cons.prems(2) by simp
  have "\<exists>c' st'. inode_alloc_loop (Some c) type (as @ n # bs') (cache_release b s') = Some (of_nat n, Some c', st') \<and> op_inv sb xs ys c' st' \<and> locked_nos st' = {}
       \<and> (\<forall>m. dinode sb (cview st') m = (if m = of_nat n then zero_entry\<lparr>ie_type := type\<rparr> else dinode sb (cview (cache_release b s')) m))
       \<and> (\<forall>x. x \<noteq> to_block_no sb (of_nat n) \<longrightarrow> cview st' x = cview (cache_release b s') x)"
    by (rule Cons.IH [OF r(3) l0 refl]) (use Cons.prems r(4) in auto)
  then show ?case unfolding e r(4) .
qed

section \<open>Paths\<close>

lemma dropWhile_hd_neq: "dropWhile P xs = y # ys \<Longrightarrow> \<not> P y"
  using hd_dropWhile [of P xs] by simp

lemma skipelem_Some:
  assumes "skipelem path name = Some (rest, name')"
  shows "\<exists>pre el sep. path = pre @ el @ sep @ rest \<and> set pre \<subseteq> {47} \<and> el \<noteq> [] \<and> 47 \<notin> set el \<and> set sep \<subseteq> {47}
     \<and> (rest \<noteq> [] \<longrightarrow> hd rest \<noteq> 47 \<and> sep \<noteq> [])
     \<and> name' = put_bytes 0 (if FILE_NAME_MAX_LENGTH \<le> length el then take FILE_NAME_MAX_LENGTH el else el @ [0]) name"
proof -
  define p1 where "p1 = dropWhile (\<lambda>c. c = 47) path"
  define el where "el = takeWhile (\<lambda>c. c \<noteq> 47) p1"
  define p2 where "p2 = dropWhile (\<lambda>c. c \<noteq> 47) p1"
  have ne: "p1 \<noteq> []" and r: "rest = dropWhile (\<lambda>c. c = 47) p2"
    and n: "name' = put_bytes 0 (if FILE_NAME_MAX_LENGTH \<le> length el then take FILE_NAME_MAX_LENGTH el else el @ [0]) name"
    using assms by (auto simp: skipelem_def Let_def p1_def el_def p2_def split: if_splits)
  have path: "path = takeWhile (\<lambda>c. c = 47) path @ p1" by (simp add: p1_def)
  have p1: "p1 = el @ p2" by (simp add: el_def p2_def)
  have p2: "p2 = takeWhile (\<lambda>c. c = 47) p2 @ rest" by (simp add: r)
  have "hd p1 \<noteq> 47" using ne hd_dropWhile [of "\<lambda>c. c = 47" path] by (simp add: p1_def)
  then have el: "el \<noteq> []" using ne by (cases p1) (auto simp: el_def)
  have noslash: "47 \<notin> set el" unfolding el_def by (auto dest: set_takeWhileD)
  have slashes: "set (takeWhile (\<lambda>c. c = 47) xs) \<subseteq> {47}" for xs :: "u8 list" by (auto dest: set_takeWhileD)
  have "hd rest \<noteq> 47 \<and> takeWhile (\<lambda>c. c = 47) p2 \<noteq> []" if "rest \<noteq> []"
  proof -
    have h: "hd rest \<noteq> 47" using that hd_dropWhile [of "\<lambda>c. c = 47" p2] by (simp add: r)
    have "p2 \<noteq> []" using that r by auto
    then have "hd p2 = 47" using hd_dropWhile [of "\<lambda>c. c \<noteq> 47" p1] by (simp add: p2_def)
    then have "takeWhile (\<lambda>c. c = 47) p2 \<noteq> []" using \<open>p2 \<noteq> []\<close> by (cases p2) auto
    with h show ?thesis by blast
  qed
  moreover have "path = takeWhile (\<lambda>c. c = 47) path @ el @ takeWhile (\<lambda>c. c = 47) p2 @ rest" using path p1 p2 by simp
  ultimately show ?thesis using slashes el noslash n by blast
qed

section \<open>Properties\<close>

text \<open>
  \<open>skipelem\<close> takes the first element of a path.  It fails exactly on paths of slashes only;
  otherwise the path is some slashes, the element, which is not empty and has no slash, some slashes
  and the rest, which does not start with a slash, and \<open>name\<close> gets the element: cut to 14 bytes, or
  with a NUL behind it.  The rest is shorter than the path.
\<close>

theorem skipelem_correct:
  "case skipelem path name of
     None \<Rightarrow> set path \<subseteq> {47}
   | Some (rest, name') \<Rightarrow> length rest < length path
       \<and> (\<exists>pre el sep. path = pre @ el @ sep @ rest \<and> set pre \<subseteq> {47} \<and> el \<noteq> [] \<and> 47 \<notin> set el \<and> set sep \<subseteq> {47}
            \<and> take 1 rest \<noteq> [47]
            \<and> name' = put_bytes 0 (if FILE_NAME_MAX_LENGTH \<le> length el then take FILE_NAME_MAX_LENGTH el else el @ [0]) name)"
proof (cases "skipelem path name")
  case None
  then have "dropWhile (\<lambda>c. c = 47) path = []" by (auto simp: skipelem_def Let_def split: if_splits)
  then have "set path \<subseteq> {47}" by (auto simp: dropWhile_eq_Nil_conv)
  then show ?thesis using None by simp
next
  case (Some r)
  obtain rest name' where r: "r = (rest, name')" by fastforce
  from skipelem_Some [OF Some [unfolded r]] obtain pre el sep where
    e: "path = pre @ el @ sep @ rest" "set pre \<subseteq> {47}" "el \<noteq> []" "47 \<notin> set el" "set sep \<subseteq> {47}" "rest \<noteq> [] \<longrightarrow> hd rest \<noteq> 47"
      "name' = put_bytes 0 (if FILE_NAME_MAX_LENGTH \<le> length el then take FILE_NAME_MAX_LENGTH el else el @ [0]) name" by blast
  have "length rest < length path" using e(1,3) by (cases el) simp_all
  moreover have "take 1 rest \<noteq> [47]" using e(6) by (cases rest) auto
  ultimately show ?thesis using Some r e(1-5,7) by auto
qed

text \<open>
  the inodes on the device are an array.  Storing an entry for one inode under an operation
  succeeds, a later load returns it, and no other inode and no other block changes.
\<close>

theorem inode_store_load:
  assumes "op_run sb (xs @ c # ys) st" "locked_nos st = {}" "rm c \<noteq> 0"
    and "wf_inodes sb" "n < ucast (num_inodes sb)" "m < ucast (num_inodes sb)" "length (ie_addrs e) = INODE_NUM_DIRECT"
  shows "\<exists>c' st'. store_entry (Some c) n (\<lambda>_. e) st = Some (Some c', st')
     \<and> (\<exists>st''. load_entry m st' = Some (if m = n then e else dinode sb (cview st) m, st'') \<and> cview st'' = cview st')
     \<and> (\<forall>x. x \<noteq> to_block_no sb n \<longrightarrow> cview st' x = cview st x)"
proof -
  have inv: "op_inv sb xs ys c st" using op_run_inv [OF assms(1)] by (simp add: op_inv_def)
  have u: "op_usable sb (to_block_no sb n)" "op_usable sb (to_block_no sb m)" using assms(4-6) by (auto simp: wf_inodes_def)
  have h: "to_block_no sb n \<notin> locked_nos st" using assms(2) by simp
  from store_entry_spec [OF inv u(1) h assms(3), of "\<lambda>_. e"] assms(7) obtain c' st' where
    s: "store_entry (Some c) n (\<lambda>_. e) st = Some (Some c', st')" "op_inv sb xs ys c' st'" "locked_nos st' = locked_nos st"
      "\<forall>k. dinode sb (cview st') k = (if k = n then e else dinode sb (cview st) k)"
      "\<forall>x. x \<noteq> to_block_no sb n \<longrightarrow> cview st' x = cview st x" by auto
  have "to_block_no sb m \<notin> locked_nos st'" using s(3) assms(2) by simp
  from load_entry_spec [OF s(2) u(2) this] s(4) have
    "\<exists>st''. load_entry m st' = Some (if m = n then e else dinode sb (cview st) m, st'') \<and> cview st'' = cview st'" by auto
  then show ?thesis using s(1,5) by blast
qed

lemma example_wf_inodes: "wf_inodes example_sb"
proof -
  have "op_usable example_sb (to_block_no example_sb n)" if n: "n < 200" for n
  proof -
    have u: "unat n < 200" using n by (simp add: word_less_nat_alt)
    have "to_block_no example_sb n = of_nat (70 + unat n div 8)"
    proof -
      have "unat (n div 8) = unat n div 8" by (simp add: unat_div)
      then have "n div 8 = of_nat (unat n div 8)" by (metis of_nat_unat_u64)
      then show ?thesis by (simp add: to_block_no_def example_sb_def fs_sizes)
    qed
    then show ?thesis using example_usable [of "70 + unat n div 8"] u by simp
  qed
  then show ?thesis by (simp add: wf_inodes_def example_sb_def)
qed

theorem inode_store_load_witness:
  "\<exists>c st c' st' st''. op_run example_sb ([] @ c # []) st
     \<and> store_entry (Some c) 3 (\<lambda>_. zero_entry\<lparr>ie_type := INODE_REGULAR\<rparr>) st = Some (Some c', st')
     \<and> load_entry 3 st' = Some (zero_entry\<lparr>ie_type := INODE_REGULAR\<rparr>, st'')"
proof -
  from example_begin obtain c st where s: "op_run example_sb [c] st" "locked_nos st = {}" "rm c = 10" by blast
  have r: "op_run example_sb ([] @ c # []) st" using s(1) by simp
  from inode_store_load [OF r s(2) _ example_wf_inodes, of 3 3 "zero_entry\<lparr>ie_type := INODE_REGULAR\<rparr>"] s(3)
  obtain c' st' st'' where
    "store_entry (Some c) 3 (\<lambda>_. zero_entry\<lparr>ie_type := INODE_REGULAR\<rparr>) st = Some (Some c', st')"
    "load_entry 3 st' = Some (zero_entry\<lparr>ie_type := INODE_REGULAR\<rparr>, st'')" by (auto simp: example_sb_def)
  with r show ?thesis by blast
qed

text \<open>
  C32: \<open>inode_alloc\<close> returns the first inode, from 1 on, whose type on the device is invalid; the inode
  is zero except for its type afterwards, and no other inode changes.
\<close>

theorem inode_alloc_correct:
  assumes "op_run sb (xs @ c # ys) st" "locked_nos st = {}" "rm c \<noteq> 0" "wf_inodes sb" "type \<noteq> INODE_INVALID"
    and "0 < n" "n < unat (num_inodes sb)" "ie_type (dinode sb (cview st) (of_nat n)) = INODE_INVALID"
    and "\<forall>k. 0 < k \<and> k < n \<longrightarrow> ie_type (dinode sb (cview st) (of_nat k)) \<noteq> INODE_INVALID"
  shows "\<exists>c' st'. inode_alloc (Some c) type st = Some (of_nat n, Some c', st') \<and> log_inv sb (xs @ c' # ys) st'
     \<and> (\<forall>m. dinode sb (cview st') m = (if m = of_nat n then zero_entry\<lparr>ie_type := type\<rparr> else dinode sb (cview st) m))"
proof -
  have inv: "op_inv sb xs ys c st" using op_run_inv [OF assms(1)] by (simp add: op_inv_def)
  have sb: "sblock st = sb" using inv by (simp add: op_inv_def log_inv_def)
  have lst: "[1..<unat (num_inodes sb)] = [1..<n] @ n # [Suc n..<unat (num_inodes sb)]"
  proof -
    have "[1..<n + (unat (num_inodes sb) - n)] = [1..<n] @ [n..<n + (unat (num_inodes sb) - n)]"
      by (rule upt_add_eq_append) (use assms(6) in simp)
    then show ?thesis using assms(7) by (simp add: upt_conv_Cons)
  qed
  have u: "op_usable sb (to_block_no sb (of_nat i))" if "i \<in> set [1..<unat (num_inodes sb)]" for i
  proof -
    have i: "i < unat (num_inodes sb)" using that by simp
    then have lt: "i < 18446744073709551616" using unat_u32_less [of "num_inodes sb"] by linarith
    have "(of_nat i :: usize) < ucast (num_inodes sb)"
      using i lt by (simp add: word_less_nat_alt unat_of_nat_u64)
    then show ?thesis using assms(4) by (simp add: wf_inodes_def)
  qed
  have first: "\<forall>a\<in>set [1..<n]. ie_type (dinode sb (cview st) (of_nat a)) \<noteq> INODE_INVALID" using assms(9) by simp
  from inode_alloc_loop_spec [OF u assms(3) inv assms(2) lst assms(8) first, of type] obtain c' st' where
    "inode_alloc_loop (Some c) type [1..<unat (num_inodes sb)] st = Some (of_nat n, Some c', st')" "op_inv sb xs ys c' st'"
    "\<forall>m. dinode sb (cview st') m = (if m = of_nat n then zero_entry\<lparr>ie_type := type\<rparr> else dinode sb (cview st) m)" by blast
  then show ?thesis using assms(5) by (simp add: inode_alloc_def sb op_inv_def)
qed

theorem inode_alloc_correct_witness:
  "\<exists>c st c' st'. op_run example_sb ([] @ c # []) st \<and> inode_alloc (Some c) INODE_REGULAR st = Some (of_nat 1, Some c', st')
     \<and> ie_type (dinode example_sb (cview st') 1) = INODE_REGULAR"
proof -
  from example_begin_dev [of "\<lambda>_. replicate BLOCK_SIZE 0"] obtain c st where
    s: "op_run example_sb [c] st" "locked_nos st = {}" "rm c = 10" "\<forall>x. x \<noteq> 2 \<longrightarrow> cview st x = replicate BLOCK_SIZE 0" by auto
  have r: "op_run example_sb ([] @ c # []) st" using s(1) by simp
  have "to_block_no example_sb 1 = 70" by (simp add: to_block_no_def example_sb_def fs_sizes)
  then have "dinode example_sb (cview st) 1 = get_entry (replicate BLOCK_SIZE 0) 1" using s(4) by (simp add: dinode_def)
  then have z: "ie_type (dinode example_sb (cview st) (of_nat 1)) = INODE_INVALID"
    by (simp add: get_entry_def inode_entry_of_def Let_def get_bytes_def le_words_zero inode_types)
  from inode_alloc_correct [OF r s(2) _ example_wf_inodes, of INODE_REGULAR 1] z s(3) obtain c' st' where
    "inode_alloc (Some c) INODE_REGULAR st = Some (of_nat 1, Some c', st')"
    "\<forall>m. dinode example_sb (cview st') m = (if m = of_nat 1 then zero_entry\<lparr>ie_type := INODE_REGULAR\<rparr> else dinode example_sb (cview st) m)"
    by (auto simp: inode_types example_sb_def)
  with r show ?thesis by (intro exI [of _ c] exI [of _ st] exI [of _ c'] exI [of _ st']) simp
qed

end
