(* ===== verification/Inode_File.thy ===== *)
theory Inode_File
  imports Inode_Props
begin

text \<open>
  The content of files: reading returns the bytes of the file, and two behaviours of the code that
  its comments do not announce.
\<close>

section \<open>Files as bytes\<close>

definition fblock :: "InodeEntry \<Rightarrow> (usize \<Rightarrow> u8 list) \<Rightarrow> nat \<Rightarrow> u32" where
  "fblock e V k = (if k < INODE_NUM_DIRECT then ie_addrs e ! k
     else indirect_addrs (V (ucast (ie_indirect e))) ! (k - INODE_NUM_DIRECT))"

definition file_byte :: "InodeEntry \<Rightarrow> (usize \<Rightarrow> u8 list) \<Rightarrow> nat \<Rightarrow> u8" where
  "file_byte e V o' = V (ucast (fblock e V (o' div BLOCK_SIZE))) ! (o' mod BLOCK_SIZE)"

text \<open>The first \<open>n\<close> bytes of the file are on blocks, and so is the address block they need.\<close>

definition file_ok :: "SuperBlock \<Rightarrow> InodeEntry \<Rightarrow> (usize \<Rightarrow> u8 list) \<Rightarrow> nat \<Rightarrow> bool" where
  "file_ok sb e V n \<longleftrightarrow> n \<le> INODE_MAX_BYTES
     \<and> (\<forall>k. k * BLOCK_SIZE < n \<longrightarrow> fblock e V k \<noteq> 0 \<and> op_usable sb (ucast (fblock e V k)))
     \<and> (INODE_NUM_DIRECT * BLOCK_SIZE < n \<longrightarrow> ie_indirect e \<noteq> 0 \<and> op_usable sb (ucast (ie_indirect e)))"

lemma file_ok_block:
  assumes "file_ok sb e V n" "o' < n"
  shows "o' div BLOCK_SIZE < INODE_MAX_BLOCKS" "fblock e V (o' div BLOCK_SIZE) \<noteq> 0" "op_usable sb (ucast (fblock e V (o' div BLOCK_SIZE)))"
    "INODE_NUM_DIRECT \<le> o' div BLOCK_SIZE \<Longrightarrow> ie_indirect e \<noteq> 0 \<and> op_usable sb (ucast (ie_indirect e))"
proof -
  have n: "n \<le> INODE_MAX_BYTES" using assms(1) by (simp add: file_ok_def)
  then have "o' < INODE_MAX_BLOCKS * BLOCK_SIZE" using assms(2) by (simp add: INODE_MAX_BYTES_def)
  then show "o' div BLOCK_SIZE < INODE_MAX_BLOCKS" by (simp add: less_mult_imp_div_less)
  have le: "o' div BLOCK_SIZE * BLOCK_SIZE \<le> o'" by simp
  then have "o' div BLOCK_SIZE * BLOCK_SIZE < n" using assms(2) by linarith
  then show "fblock e V (o' div BLOCK_SIZE) \<noteq> 0" "op_usable sb (ucast (fblock e V (o' div BLOCK_SIZE)))"
    using assms(1) by (simp_all add: file_ok_def)
  assume "INODE_NUM_DIRECT \<le> o' div BLOCK_SIZE"
  then have "INODE_NUM_DIRECT * BLOCK_SIZE \<le> o' div BLOCK_SIZE * BLOCK_SIZE" by (rule mult_le_mono1)
  then have "INODE_NUM_DIRECT * BLOCK_SIZE < n" using assms(2) le by linarith
  then show "ie_indirect e \<noteq> 0 \<and> op_usable sb (ucast (ie_indirect e))"
    using assms(1) by (simp add: file_ok_def)
qed

section \<open>Mapping an offset without allocation\<close>

text \<open>
  \<open>cache->sync(NULL, b)\<close> writes the held block to the device at once; what callers see is unchanged.
\<close>

lemma sync_null:
  assumes inv: "op_inv sb xs ys c st" and h: "holds st i n" and n: "n \<notin> log_nos sb"
  shows "op_inv sb xs ys c (cache_release i (device_write i st))" "cview (cache_release i (device_write i st)) = cview st"
    "locked_nos (cache_release i (device_write i st)) = locked_nos st - {n}"
    "disk (cache_release i (device_write i st)) = (disk st)(n := bdata (bheap st i))"
    "wtrace (cache_release i (device_write i st)) = wtrace st @ [(n, bdata (bheap st i))]"
proof -
  let ?t = "device_write i st"
  have l: "log_inv sb (xs @ c # ys) st" using inv by (simp add: op_inv_def)
  have cinv: "cache_inv st" and sb: "sblock st = sb" using l by (auto simp: log_inv_def)
  note w = held_device_write [OF cinv h]
  have ht: "holds ?t i n" using h by (simp add: holds_def w)
  have m: "same_meta st ?t" by (simp add: same_meta_def device_write_def device_put_def)
  have lt: "log_inv sb (xs @ c # ys) ?t"
  proof -
    have "pinned_nos ?t = pinned_nos st" "locked_nos ?t = locked_nos st" by (simp_all add: pinned_nos_def locked_nos_def w)
    moreover have "disk ?t (ucast (log_start sb)) = disk st (ucast (log_start sb))"
      using header_no_log [of st] n sb by (auto simp: w)
    ultimately show ?thesis using l w(1) m unfolding log_inv_def same_meta_def by simp
  qed
  have cl: "pinned (bheap ?t i) \<or> bdata (bheap ?t i) = disk ?t n" by (simp add: w)
  note r = held_release [OF w(1) ht cl]
  show "op_inv sb xs ys c (cache_release i ?t)" using release_inv [OF lt ht cl] by (simp add: op_inv_def)
  show "cview (cache_release i ?t) = cview st" using r(2) w(2) by simp
  show "locked_nos (cache_release i ?t) = locked_nos st - {n}" using r(3) by (simp add: locked_nos_def w)
  show "disk (cache_release i ?t) = (disk st)(n := bdata (bheap st i))" using r(5) w(3) by simp
  show "wtrace (cache_release i ?t) = wtrace st @ [(n, bdata (bheap st i))]" using r(6) w(4) by simp
qed

lemma offset_block:
  assumes "unat (offset :: usize) div BLOCK_SIZE < INODE_MAX_BLOCKS"
  shows "unat (ucast (offset div of_nat BLOCK_SIZE) :: u32) = unat offset div BLOCK_SIZE"
proof -
  have u: "unat (offset div of_nat BLOCK_SIZE) = unat offset div BLOCK_SIZE" by (simp add: unat_div fs_sizes)
  then have "unat (offset div of_nat BLOCK_SIZE) < 2 ^ 32" using assms by (simp add: fs_sizes)
  then show ?thesis using u by (simp add: unsigned_ucast_eq take_bit_nat_eq_self)
qed

lemma indirect_addrs_length [simp]: "length (indirect_addrs d) = INODE_NUM_INDIRECT"
  by (simp add: indirect_addrs_def)

lemma inode_map_read:
  assumes inv: "op_inv sb xs ys c (icache s)" and lock: "locked_nos (icache s) = {}"
    and ok: "file_ok sb (entry (iheap s i)) (cview (icache s)) n" and o': "unat offset < n"
  defines "e \<equiv> entry (iheap s i)" and "k \<equiv> unat offset div BLOCK_SIZE"
  shows "\<exists>s'. inode_map None i offset s = Some (ucast (fblock e (cview (icache s)) k), False, None, s')
     \<and> iheap s' = iheap s \<and> op_inv sb xs ys c (icache s') \<and> cview (icache s') = cview (icache s) \<and> locked_nos (icache s') = {}"
proof -
  note fb = file_ok_block [OF ok o', folded e_def k_def]
  have bn: "unat (ucast (offset div of_nat BLOCK_SIZE) :: u32) = k" using fb(1) offset_block by (simp add: k_def)
  show ?thesis
  proof (cases "k < INODE_NUM_DIRECT")
    case True
    then have "ie_addrs e ! k \<noteq> 0" using fb(2) by (simp add: fblock_def)
    then show ?thesis using True inv lock by (simp add: inode_map_def bn e_def [symmetric] fblock_def)
  next
    case False
    let ?ia = "ie_indirect e" let ?k = "k - INODE_NUM_DIRECT"
    have ia: "?ia \<noteq> 0" "op_usable sb (ucast ?ia)" using fb(4) False by auto
    have k2: "?k < INODE_NUM_INDIRECT" using fb(1) False by (simp add: INODE_MAX_BLOCKS_def)
    have a0: "indirect_addrs (cview (icache s) (ucast ?ia)) ! ?k \<noteq> 0" using fb(2) False by (simp add: fblock_def)
    have nl: "ucast ?ia \<notin> locked_nos (icache s)" using lock by simp
    from op_acquire [OF inv ia(2) nl] obtain b c2 where
      a: "cache_acquire (ucast ?ia) (icache s) = Some (b, c2)" "op_inv sb xs ys c c2" "holds c2 b (ucast ?ia)"
        "bdata (bheap c2 b) = cview (icache s) (ucast ?ia)" "cview c2 = cview (icache s)" "locked_nos c2 = insert (ucast ?ia) (locked_nos (icache s))"
      by metis
    have "ucast ?ia \<notin> log_nos sb" using ia(2) by (simp add: op_usable_def)
    note sn = sync_null [OF a(2,3) this]
    have "inode_map None i offset s = Some (ucast (indirect_addrs (cview (icache s) (ucast ?ia)) ! ?k), False, None,
        s\<lparr>icache := cache_release b (device_write b c2)\<rparr>)"
      using False k2 ia(1) a(1,4) a0 by (simp add: inode_map_def bn e_def [symmetric] cache_sync_def)
    then show ?thesis using sn(1-3) a(5,6) lock False by (simp add: fblock_def)
  qed
qed

section \<open>Reading\<close>

lemma chunk_bytes:
  assumes "length (V (ucast (fblock e V (o' div BLOCK_SIZE)))) = BLOCK_SIZE" "o' mod BLOCK_SIZE + m \<le> BLOCK_SIZE"
  shows "get_bytes (o' mod BLOCK_SIZE) m (V (ucast (fblock e V (o' div BLOCK_SIZE)))) = map (file_byte e V) [o'..<o' + m]"
proof (rule nth_equalityI)
  show "length (get_bytes (o' mod BLOCK_SIZE) m (V (ucast (fblock e V (o' div BLOCK_SIZE))))) = length (map (file_byte e V) [o'..<o' + m])"
    using assms by simp
  fix t assume "t < length (get_bytes (o' mod BLOCK_SIZE) m (V (ucast (fblock e V (o' div BLOCK_SIZE)))))"
  then have t: "t < m" using assms by simp
  have lt: "o' mod BLOCK_SIZE + t < BLOCK_SIZE" using t assms(2) by linarith
  have "o' + t = o' div BLOCK_SIZE * BLOCK_SIZE + (o' mod BLOCK_SIZE + t)" by simp
  then have "(o' + t) div BLOCK_SIZE = o' div BLOCK_SIZE" "(o' + t) mod BLOCK_SIZE = o' mod BLOCK_SIZE + t"
    using lt by (metis div_mult_self3 div_less add_0_right add.commute less_nat_zero_code not_gr_zero, metis mod_mult_self3 mod_less)
  then show "get_bytes (o' mod BLOCK_SIZE) m (V (ucast (fblock e V (o' div BLOCK_SIZE)))) ! t = map (file_byte e V) [o'..<o' + m] ! t"
    using t lt assms(1) by (simp add: get_bytes_def file_byte_def)
qed

lemma inode_read_loop_spec:
  "op_inv sb xs ys c (icache s) \<Longrightarrow> locked_nos (icache s) = {} \<Longrightarrow>
   file_ok sb (entry (iheap s i)) (cview (icache s)) n \<Longrightarrow> unat offset + left \<le> n \<Longrightarrow>
   \<exists>s'. inode_read_loop i offset left s
          = Some (map (file_byte (entry (iheap s i)) (cview (icache s))) [unat offset..<unat offset + left], s')
      \<and> iheap s' = iheap s \<and> op_inv sb xs ys c (icache s') \<and> cview (icache s') = cview (icache s) \<and> locked_nos (icache s') = {}"
proof (induction left arbitrary: offset s rule: less_induct)
  case (less left)
  show ?case
  proof (cases "left = 0")
    case True
    then show ?thesis using less.prems by (simp add: inode_read_loop.simps)
  next
    case False
    let ?e = "entry (iheap s i)" and ?V = "cview (icache s)" and ?m = "chunk offset left"
    let ?n = "ucast (fblock ?e ?V (unat offset div BLOCK_SIZE)) :: usize"
    have lt: "unat offset < n" using less.prems(4) False by linarith
    from inode_map_read [OF less.prems(1-3) lt] obtain s1 where
      s1: "inode_map None i offset s = Some (?n, False, None, s1)" "iheap s1 = iheap s" "op_inv sb xs ys c (icache s1)"
        "cview (icache s1) = ?V" "locked_nos (icache s1) = {}" by blast
    have u: "op_usable sb ?n" by (rule file_ok_block(3) [OF less.prems(3) lt])
    have nl: "?n \<notin> locked_nos (icache s1)" using s1(5) by simp
    from bs.read_block [OF s1(3) u nl] obtain b c1 where
      r: "cache_acquire ?n (icache s1) = Some (b, c1)" "bdata (bheap c1 b) = ?V ?n" "op_inv sb xs ys c (cache_release b c1)"
        "cview (cache_release b c1) = ?V" "locked_nos (cache_release b c1) = {}" using s1(4,5) by auto
    let ?s2 = "s1\<lparr>icache := cache_release b c1\<rparr>"
    have m: "0 < ?m" "?m \<le> left" "unat offset mod BLOCK_SIZE + ?m \<le> BLOCK_SIZE"
      using chunk_bounds(1) [of left offset] chunk_bounds(2) [of offset left] False mod_less_divisor [of BLOCK_SIZE "unat offset"] by (auto simp: chunk_def fs_sizes)
    have nb: "n \<le> 71680" using less.prems(3) by (simp add: file_ok_def fs_sizes)
    have off: "unat (offset + of_nat ?m) = unat offset + ?m"
      using m(2) less.prems(4) nb by (subst unat_add_no_wrap) (simp_all add: unat_of_nat_u64)
    have "left - ?m < left" using m False by simp
    from less.IH [OF this, of ?s2 "offset + of_nat ?m"] r(3-5) s1(2) less.prems(3,4) m(2) off obtain s3 where
      s3: "inode_read_loop i (offset + of_nat ?m) (left - ?m) ?s2 = Some (map (file_byte ?e ?V) [unat offset + ?m..<unat offset + left], s3)"
        "iheap s3 = iheap s" "op_inv sb xs ys c (icache s3)" "cview (icache s3) = ?V" "locked_nos (icache s3) = {}" by auto
    have ci: "cache_inv (icache s)" using less.prems(1) by (simp add: op_inv_def log_inv_def)
    have by1: "get_bytes (unat offset mod BLOCK_SIZE) ?m (?V ?n) = map (file_byte ?e ?V) [unat offset..<unat offset + ?m]"
      by (rule chunk_bytes [OF cview_length [OF ci] m(3)])
    have "[unat offset..<unat offset + left] = [unat offset..<unat offset + ?m] @ [unat offset + ?m..<unat offset + left]"
      using upt_add_eq_append [of "unat offset" "unat offset + ?m" "left - ?m"] m(2) by simp
    then have "inode_read_loop i offset left s = Some (map (file_byte ?e ?V) [unat offset..<unat offset + left], s3)"
      using False s1(1) r(1,2) s3(1) by1 by (simp add: inode_read_loop.simps [of i offset left s] Let_def)
    then show ?thesis using s3(2-5) by blast
  qed
qed

section \<open>Properties\<close>

text \<open>
  C31: \<open>inode_read\<close> returns the bytes of the file.  For an offset within the file it returns the bytes
  from there on, \<open>count\<close> of them or as many as the file has, whichever blocks, direct or indirect,
  they are on, and what any later reader sees is unchanged.
\<close>

theorem inode_read_correct:
  assumes "op_run sb (xs @ c # ys) (icache s)" "locked_nos (icache s) = {}"
    and "file_ok sb (entry (iheap s i)) (cview (icache s)) (unat (ie_num_bytes (entry (iheap s i))))"
    and "unat offset \<le> unat (ie_num_bytes (entry (iheap s i)))" "unat count < 2 ^ 63"
  shows "\<exists>s'. inode_read i offset count s
       = Some (map (file_byte (entry (iheap s i)) (cview (icache s)))
                 [unat offset..<min (unat offset + unat count) (unat (ie_num_bytes (entry (iheap s i))))], s')
     \<and> iheap s' = iheap s \<and> cview (icache s') = cview (icache s)"
proof -
  let ?num = "ucast (ie_num_bytes (entry (iheap s i))) :: usize" and ?n = "unat (ie_num_bytes (entry (iheap s i)))"
  let ?count = "if count + offset > ?num then ?num - offset else count"
  have inv: "op_inv sb xs ys c (icache s)" using op_run_inv [OF assms(1)] by (simp add: op_inv_def)
  have n: "?n < 4294967296" by simp
  have off: "unat offset \<le> ?n" by (rule assms(4))
  have "unat count < 9223372036854775808" using assms(5) by simp
  then have "unat count + unat offset < 18446744073709551616" using off n by linarith
  then have sum: "unat (count + offset) = unat count + unat offset" by (rule unat_add_no_wrap)
  have cnt: "unat ?count = min (unat offset + unat count) ?n - unat offset"
  proof (cases "count + offset > ?num")
    case True
    then have "?n < unat count + unat offset" by (simp add: word_less_nat_alt sum)
    moreover have "unat (?num - offset) = ?n - unat offset" using off by (subst unat_sub) (simp_all add: word_le_nat_alt)
    ultimately show ?thesis using True by simp
  next
    case False
    then have "unat count + unat offset \<le> ?n" by (simp add: word_less_nat_alt sum)
    then show ?thesis using False by simp
  qed
  have "unat offset + unat ?count < 18446744073709551616" using cnt off n by linarith
  then have e: "unat (offset + ?count) = unat offset + unat ?count" by (rule unat_add_no_wrap)
  have le: "unat offset + unat ?count \<le> ?n" "unat offset + unat ?count = min (unat offset + unat count) ?n" using cnt off by auto
  have as: "offset \<le> ?num" "offset + ?count \<le> ?num" "offset \<le> offset + ?count"
    using off le(1) e by (simp_all add: word_le_nat_alt)
  from inode_read_loop_spec [OF inv assms(2,3) le(1)] obtain s' where
    "inode_read_loop i offset (unat ?count) s = Some (map (file_byte (entry (iheap s i)) (cview (icache s))) [unat offset..<unat offset + unat ?count], s')"
    "iheap s' = iheap s" "cview (icache s') = cview (icache s)" by blast
  then show ?thesis using as le(2) unfolding inode_read_def Let_def by simp
qed

theorem inode_read_correct_witness:
  "\<exists>c s s'. op_run example_sb ([] @ c # []) (icache s) \<and> inode_read 0 1 10 s = Some ([8, 9], s')"
proof -
  let ?D = "\<lambda>x :: usize. if x = 600 then [7, 8, 9] @ replicate 509 0 else replicate BLOCK_SIZE 0 :: u8 list"
  have "\<forall>n. length (?D n) = BLOCK_SIZE" "?D 2 = replicate BLOCK_SIZE 0" by (simp_all add: fs_sizes)
  from example_begin_dev [OF this] obtain c st where
    s: "op_run example_sb [c] st" "locked_nos st = {}" "\<forall>x. x \<noteq> 2 \<longrightarrow> cview st x = ?D x" by blast
  let ?e = "zero_entry\<lparr>ie_num_bytes := 3, ie_addrs := 600 # replicate 11 0\<rparr>"
  let ?s = "\<lparr>icache = st, iheap = (\<lambda>_. init_inode ?e), ihead = [], ifresh = 0\<rparr>"
  have r: "op_run example_sb ([] @ c # []) (icache ?s)" using s(1) by simp
  have fb: "fblock ?e V 0 = 600" for V by (simp add: fblock_def fs_sizes)
  have k0: "k = 0" if "k * BLOCK_SIZE < 3" for k using that by (cases k) (simp_all add: fs_sizes)
  have u: "op_usable example_sb 600" using example_usable [of 600] by simp
  have "file_ok example_sb ?e (cview st) 3"
    unfolding file_ok_def
  proof (intro conjI allI impI)
    fix k assume "k * BLOCK_SIZE < 3"
    then have "k = 0" by (rule k0)
    then show "fblock ?e (cview st) k \<noteq> 0" "op_usable example_sb (ucast (fblock ?e (cview st) k))" using fb u by simp_all
  qed (simp_all add: fs_sizes)
  then have ok: "file_ok example_sb (entry (iheap ?s 0)) (cview (icache ?s)) (unat (ie_num_bytes (entry (iheap ?s 0))))"
    by (simp add: init_inode_def)
  have b: "file_byte ?e (cview st) 1 = 8" "file_byte ?e (cview st) 2 = 9"
    using s(3) by (simp_all add: file_byte_def fs_sizes fb)
  from inode_read_correct [OF r _ ok, of 1 10] s(2) obtain s' where
    "inode_read 0 1 10 ?s = Some (map (file_byte ?e (cview st)) [1..<3], s')" by (auto simp: init_inode_def)
  moreover have "[1..<3] = [1, 2 :: nat]" by (simp add: upt_rec numeral_2_eq_2)
  ultimately have "inode_read 0 1 10 ?s = Some ([8, 9], s')" using b by (simp only: list.map)
  with r show ?thesis by blast
qed

text \<open>
  reading a file writes to the device.  To find a block past the twelfth, \<open>inode_map\<close> without a
  context synchronises the address block it only read, and \<open>sync\<close> without a context writes at once:
  the cached address block goes to the device outside the log, even when it carries changes of an
  operation that has not been committed.
\<close>

theorem inode_map_read_writes_device:
  assumes "op_run sb (xs @ c # ys) (icache s)" "locked_nos (icache s) = {}"
    and "file_ok sb (entry (iheap s i)) (cview (icache s)) n" "unat offset < n" "INODE_NUM_DIRECT * BLOCK_SIZE \<le> unat offset"
  shows "\<exists>a s'. inode_map None i offset s = Some (a, False, None, s')
     \<and> wtrace (icache s') = wtrace (icache s)
         @ [(ucast (ie_indirect (entry (iheap s i))), cview (icache s) (ucast (ie_indirect (entry (iheap s i)))))]"
proof -
  let ?e = "entry (iheap s i)" let ?ia = "ie_indirect ?e" and ?k = "unat offset div BLOCK_SIZE"
  have inv: "op_inv sb xs ys c (icache s)" using op_run_inv [OF assms(1)] by (simp add: op_inv_def)
  note fb = file_ok_block [OF assms(3,4)]
  have bn: "unat (ucast (offset div of_nat BLOCK_SIZE) :: u32) = ?k" using fb(1) offset_block by simp
  have kd: "INODE_NUM_DIRECT \<le> ?k" using div_le_mono [OF assms(5), of BLOCK_SIZE] by (simp add: fs_sizes)
  have ia: "?ia \<noteq> 0" "op_usable sb (ucast ?ia)" using fb(4) [OF kd] by auto
  have k2: "?k - INODE_NUM_DIRECT < INODE_NUM_INDIRECT" using fb(1) kd by (simp add: INODE_MAX_BLOCKS_def)
  have a0: "indirect_addrs (cview (icache s) (ucast ?ia)) ! (?k - INODE_NUM_DIRECT) \<noteq> 0" using fb(2) kd by (simp add: fblock_def)
  have nl: "ucast ?ia \<notin> locked_nos (icache s)" using assms(2) by simp
  have c0: "cache_inv (icache s)" "ucast ?ia \<noteq> (0 :: usize)" "ucast ?ia \<notin> log_nos sb" "sblock (icache s) = sb"
    using inv ia(2) by (auto simp: op_inv_def log_inv_def op_usable_def)
  have hn: "ucast ?ia \<noteq> header_no (icache s)" using c0(3,4) header_no_log [of "icache s"] by auto
  from cache_acquire_spec [OF c0(1,2) nl hn] obtain b c2 where
    a: "cache_acquire (ucast ?ia) (icache s) = Some (b, c2)" "holds c2 b (ucast ?ia)" "bdata (bheap c2 b) = cview (icache s) (ucast ?ia)"
      "wtrace c2 = wtrace (icache s)" by metis
  have opi: "op_inv sb xs ys c c2" using op_acquire [OF inv ia(2) nl] a(1) by (metis option.inject prod.inject)
  note sn = sync_null [OF opi a(2) c0(3)]
  have "inode_map None i offset s = Some (ucast (indirect_addrs (cview (icache s) (ucast ?ia)) ! (?k - INODE_NUM_DIRECT)), False, None,
        s\<lparr>icache := cache_release b (device_write b c2)\<rparr>)"
    using kd k2 ia(1) a(1,3) a0 by (simp add: inode_map_def bn cache_sync_def)
  then show ?thesis using sn(5) a(3,4) by simp
qed

theorem inode_map_read_writes_device_witness:
  "\<exists>c s a s'. op_run example_sb ([] @ c # []) (icache s) \<and> inode_map None 0 6144 s = Some (a, False, None, s')
     \<and> length (wtrace (icache s')) = Suc (length (wtrace (icache s)))"
proof -
  let ?D = "\<lambda>x :: usize. if x = 600 then le_array 4 [700 :: u32] @ replicate 508 0 else replicate BLOCK_SIZE 0 :: u8 list"
  have "\<forall>n. length (?D n) = BLOCK_SIZE" "?D 2 = replicate BLOCK_SIZE 0" by (simp_all add: fs_sizes)
  from example_begin_dev [OF this] obtain c st where
    s: "op_run example_sb [c] st" "locked_nos st = {}" "\<forall>x. x \<noteq> 2 \<longrightarrow> cview st x = ?D x" by blast
  let ?e = "zero_entry\<lparr>ie_num_bytes := 6145, ie_addrs := replicate 12 700, ie_indirect := 600\<rparr>"
  let ?s = "\<lparr>icache = st, iheap = (\<lambda>_. init_inode ?e), ihead = [], ifresh = 0\<rparr>"
  have r: "op_run example_sb ([] @ c # []) (icache ?s)" using s(1) by simp
  have "indirect_addrs (cview st 600) ! 0 = 700"
  proof -
    have N: "INODE_NUM_INDIRECT = Suc 127" by (simp add: fs_sizes)
    have "indirect_addrs (le_bytes 4 (700 :: u32) @ replicate 508 0) ! 0 = 700"
      by (simp only: indirect_addrs_def N le_words.simps nth_Cons_0) (simp add: le_word_le_bytes)
    then show ?thesis using s(3) by simp
  qed
  then have fb: "fblock ?e (cview st) k = 700" if "k \<le> 12" for k using that by (auto simp: fblock_def fs_sizes)
  have k12: "k \<le> 12" if "k * BLOCK_SIZE < 6145" for k using that by (simp add: fs_sizes)
  have u: "op_usable example_sb 600" "op_usable example_sb 700" using example_usable [of 600] example_usable [of 700] by simp_all
  have ok: "file_ok example_sb (entry (iheap ?s 0)) (cview (icache ?s)) 6145"
    using u k12 fb by (auto simp: file_ok_def init_inode_def) (auto simp: fs_sizes)
  from inode_map_read_writes_device [OF r _ ok, of 6144] s(2) obtain a s' where
    "inode_map None 0 6144 ?s = Some (a, False, None, s')" "length (wtrace (icache s')) = Suc (length (wtrace (icache ?s)))"
    by (auto simp: fs_sizes)
  with r show ?thesis by blast
qed

section \<open>Dropping an inode that was never loaded\<close>

lemma free_addrs_zeros: "free_addrs ctx (replicate k 0) st = Some (replicate k 0, ctx, st)"
  by (induction k) simp_all

text \<open>
  \<open>inode_put\<close> on an inode that was never locked destroys the file.  \<open>inode_get\<close> leaves \<open>entry\<close> as
  \<open>kalloc\<close> returned it, and \<open>inode_put\<close> reads the link count there without looking at \<open>valid\<close>.  On
  memory that is zero, the state of a fresh page, getting an inode and putting it back overwrites its
  entry on the device with zeros, whatever file it was.
\<close>

theorem get_put_destroys_inode:
  assumes "op_run sb (xs @ c # ys) (icache s)" "locked_nos (icache s) = {}" "2 \<le> unat (rm c)" "wf_inodes sb"
    and "0 < n" "n < ucast (num_inodes sb)" "ihead s = []"
  shows "\<exists>i s1 c' s2. inode_get zero_entry n s = Some (i, s1) \<and> inode_put (Some c) i s1 = Some (Some c', s2)
     \<and> dinode sb (cview (icache s2)) n = zero_entry \<and> ihead s2 = []"
proof -
  have inv: "op_inv sb xs ys c (icache s)" using op_run_inv [OF assms(1)] by (simp add: op_inv_def)
  have sb: "sblock (icache s) = sb" using inv by (simp add: op_inv_def log_inv_def)
  let ?i = "ifresh s"
  let ?x = "\<lparr>ino_locked = False, ino_rc = 1, inode_no = n, ino_valid = False, entry = zero_entry\<rparr>"
  let ?s1 = "s\<lparr>iheap := (iheap s)(?i := ?x), ihead := [?i], ifresh := Suc ?i\<rparr>"
  have g: "inode_get zero_entry n s = Some (?i, ?s1)"
    using assms(5-7) sb by (simp add: inode_get_def init_inode_def init_rc_def increment_rc_def Let_def)
  have u: "op_usable sb (to_block_no sb n)" using assms(4,6) by (simp add: wf_inodes_def)
  have h: "to_block_no sb n \<notin> locked_nos (icache s)" using assms(2) by simp
  have rm: "rm c \<noteq> 0" using assms(3) by auto
  let ?z = "zero_entry\<lparr>ie_addrs := replicate INODE_NUM_DIRECT 0, ie_indirect := 0, ie_num_bytes := 0\<rparr>"
  have z: "?z = zero_entry" "ie_addrs zero_entry = replicate INODE_NUM_DIRECT 0" "ie_indirect zero_entry = 0" "ie_num_links zero_entry = 0"
    by (simp_all add: zero_entry_def)
  from store_entry_spec [OF inv u h rm, of "\<lambda>_. zero_entry"] obtain c1 st1 where
    t1: "store_entry (Some c) n (\<lambda>_. zero_entry) (icache s) = Some (Some c1, st1)" "op_inv sb xs ys c1 st1"
      "locked_nos st1 = locked_nos (icache s)" "unat (rm c) \<le> unat (rm c1) + 1" "dinode sb (cview st1) n = zero_entry" by auto
  have rm1: "rm c1 \<noteq> 0" using t1(4) assms(3) by auto
  have h1: "to_block_no sb n \<notin> locked_nos st1" using t1(3) assms(2) by simp
  from store_entry_spec [OF t1(2) u h1 rm1, of "\<lambda>e. e\<lparr>ie_type := INODE_INVALID\<rparr>"] t1(5) obtain c2 st2 where
    t2: "store_entry (Some c1) n (\<lambda>e. e\<lparr>ie_type := INODE_INVALID\<rparr>) st1 = Some (Some c2, st2)"
      "dinode sb (cview st2) n = zero_entry\<lparr>ie_type := INODE_INVALID\<rparr>" by auto
  have t3: "dinode sb (cview st2) n = zero_entry" using t2(2) by (simp add: zero_entry_def inode_types)
  have "\<exists>s2. inode_put (Some c) ?i ?s1 = Some (Some c2, s2) \<and> icache s2 = st2 \<and> ihead s2 = []"
    using t1(1) t2(1)
    by (simp add: inode_put_def inode_clear_def inode_sync_def on_cache_def z upd_inode_def free_addrs_zeros Let_def)
  then show ?thesis using g t3 by auto
qed

theorem get_put_destroys_inode_witness:
  "\<exists>c s i s1 c' s2. op_run example_sb ([] @ c # []) (icache s) \<and> ie_num_links (dinode example_sb (cview (icache s)) 1) = 1
     \<and> inode_get zero_entry 1 s = Some (i, s1) \<and> inode_put (Some c) i s1 = Some (Some c', s2)
     \<and> dinode example_sb (cview (icache s2)) 1 = zero_entry"
proof -
  let ?f = "zero_entry\<lparr>ie_num_links := 1\<rparr>"
  let ?D = "\<lambda>x :: usize. if x = 70 then put_bytes 64 (inode_entry_bytes ?f) (replicate BLOCK_SIZE 0) else replicate BLOCK_SIZE 0 :: u8 list"
  have "length (ie_addrs ?f) = INODE_NUM_DIRECT" by (simp add: zero_entry_def)
  note f = inode_entry_roundtrip [OF this]
  have "\<forall>n. length (?D n) = BLOCK_SIZE" "?D 2 = replicate BLOCK_SIZE 0" by (simp_all add: fs_sizes f(2))
  from example_begin_dev [OF this] obtain c st where
    s: "op_run example_sb [c] st" "locked_nos st = {}" "rm c = 10" "\<forall>x. x \<noteq> 2 \<longrightarrow> cview st x = ?D x" by blast
  let ?s = "\<lparr>icache = st, iheap = (\<lambda>_. init_inode zero_entry), ihead = [], ifresh = 0\<rparr>"
  have r: "op_run example_sb ([] @ c # []) (icache ?s)" using s(1) by simp
  have b: "to_block_no example_sb 1 = 70" "entry_offset 1 = 64" by (simp_all add: to_block_no_def example_sb_def entry_offset_def fs_sizes)
  have "ie_num_links (dinode example_sb (cview st) 1) = 1"
    unfolding dinode_def b(1) get_entry_def b(2) using s(4) f get_put_bytes [of 64 "inode_entry_bytes ?f" "replicate BLOCK_SIZE 0"]
    by (simp add: fs_sizes)
  moreover from get_put_destroys_inode [OF r _ _ example_wf_inodes, of 1] s(2,3) obtain i s1 c' s2 where
    "inode_get zero_entry 1 ?s = Some (i, s1)" "inode_put (Some c) i s1 = Some (Some c', s2)"
    "dinode example_sb (cview (icache s2)) 1 = zero_entry" by (auto simp: example_sb_def)
  ultimately show ?thesis using r
    by (intro exI [of _ c] exI [of _ ?s] exI [of _ i] exI [of _ s1] exI [of _ c'] exI [of _ s2]) simp
qed

end
