(* ===== verification/Mkfs.thy ===== *)
theory Mkfs
  imports Inode_File
begin

text \<open>
  The builder of the initial file system (\<open>user/mkfs/main.c\<close>), a program of the host.  The image is a
  file of blocks; what the host does for it is the argument of \<open>mkfs_main\<close>: the path of each input file
  and what the calls of \<open>read\<close> return for it, or nothing when it cannot be opened.  \<^const>\<open>None\<close> is a
  failed assertion or \<open>exit(1)\<close>; the calls that write the image are taken to succeed.  The functions
  \<open>xshort\<close> and \<open>xint\<close> store an integer in little-endian order, on a host that reads it that way.
\<close>

section \<open>Layout\<close>

definition FSSIZE :: nat where "FSSIZE = 1000"
definition NINODES :: nat where "NINODES = 200"
definition nbitmap :: nat where "nbitmap = FSSIZE div (BLOCK_SIZE * 8) + 1"
definition ninodeblocks :: nat where "ninodeblocks = NINODES div INODE_PER_BLOCK + 1"
definition log_blocks :: nat where "log_blocks = LOG_MAX_SIZE"
definition nmeta :: nat where "nmeta = 2 + log_blocks + ninodeblocks + nbitmap"
definition data_blocks :: nat where "data_blocks = FSSIZE - nmeta"

lemmas mkfs_layout = FSSIZE_def NINODES_def nbitmap_def ninodeblocks_def log_blocks_def nmeta_def data_blocks_def

definition xshort :: "u16 \<Rightarrow> u16" where "xshort x = le_word (le_bytes 2 x)"
definition xint :: "u32 \<Rightarrow> u32" where "xint x = le_word (le_bytes 4 x)"

lemma xshort_id [simp]: "xshort x = x"
  by (simp add: xshort_def le_word_le_bytes)

lemma xint_id [simp]: "xint x = x"
  by (simp add: xint_def le_word_le_bytes)

definition mk_sb :: SuperBlock where
  "mk_sb = \<lparr>num_blocks = xint (of_nat FSSIZE), num_data_blocks = xint (of_nat data_blocks),
     num_inodes = xint (of_nat NINODES), num_log_blocks = xint (of_nat log_blocks), log_start = xint 2,
     inode_start = xint (of_nat (2 + log_blocks)), bitmap_start = xint (of_nat (2 + log_blocks + ninodeblocks))\<rparr>"

section \<open>The image\<close>

record mkst =
  img :: "u8 list list"
  freeinode :: u32
  freeblock :: u32

definition zeroes :: "u8 list" where "zeroes = replicate BLOCK_SIZE 0"

text \<open>The block that \<open>lseek(fsfd, sec * BSIZE, 0)\<close> finds: the product is a \<open>uint\<close>.\<close>

definition sector :: "u32 \<Rightarrow> nat" where
  "sector sec = unat (sec * of_nat BLOCK_SIZE) div BLOCK_SIZE"

text \<open>Writing behind the end of the image extends it with zeros.\<close>

definition wsect :: "u32 \<Rightarrow> u8 list \<Rightarrow> mkst \<Rightarrow> mkst" where
  "wsect sec buf s = (let k = sector sec; n = length (img s) in
     s\<lparr>img := if k < n then (img s)[k := buf] else img s @ replicate (k - n) zeroes @ [buf]\<rparr>)"

definition rsect :: "u32 \<Rightarrow> mkst \<Rightarrow> u8 list option" where
  "rsect sec s = (if sector sec < length (img s) then Some (img s ! sector sec) else None)"

section \<open>Inodes\<close>

definition IBLOCK :: "u32 \<Rightarrow> u32" where
  "IBLOCK i = i div of_nat INODE_PER_BLOCK + inode_start mk_sb"

definition winode :: "u32 \<Rightarrow> InodeEntry \<Rightarrow> mkst \<Rightarrow> mkst option" where
  "winode inum ip s =
     do { buf \<leftarrow> rsect (IBLOCK inum) s;
          Some (wsect (IBLOCK inum) (put_entry (ucast inum) ip buf) s) }"

definition rinode :: "u32 \<Rightarrow> mkst \<Rightarrow> InodeEntry option" where
  "rinode inum s = do { buf \<leftarrow> rsect (IBLOCK inum) s; Some (get_entry buf (ucast inum)) }"

definition ialloc :: "u16 \<Rightarrow> mkst \<Rightarrow> (u32 \<times> mkst) option" where
  "ialloc type s =
     do { let inum = freeinode s;
          s1 \<leftarrow> winode inum (zero_entry\<lparr>ie_type := xshort type, ie_num_links := xshort 1, ie_num_bytes := xint 0\<rparr>)
                  (s\<lparr>freeinode := inum + 1\<rparr>);
          Some (inum, s1) }"

section \<open>Appending to a file\<close>

text \<open>The block of the file that \<open>fbn\<close> names, allocated when there is none.\<close>

definition append_block :: "nat \<Rightarrow> InodeEntry \<Rightarrow> mkst \<Rightarrow> (u32 \<times> InodeEntry \<times> mkst) option" where
  "append_block fbn din s =
     (if fbn < INODE_NUM_DIRECT then
        (let (din1, s1) = (if xint (ie_addrs din ! fbn) = 0
               then (din\<lparr>ie_addrs := (ie_addrs din)[fbn := xint (freeblock s)]\<rparr>, s\<lparr>freeblock := freeblock s + 1\<rparr>)
               else (din, s))
         in Some (xint (ie_addrs din1 ! fbn), din1, s1))
      else
        (let (din1, s1) = (if xint (ie_indirect din) = 0
               then (din\<lparr>ie_indirect := xint (freeblock s)\<rparr>, s\<lparr>freeblock := freeblock s + 1\<rparr>)
               else (din, s))
         in do { d \<leftarrow> rsect (xint (ie_indirect din1)) s1;
                 let ind = indirect_addrs d;
                 let k = fbn - INODE_NUM_DIRECT;
                 let (ind2, s2) = (if ind ! k = 0
                    then (let ind' = ind[k := xint (freeblock s1)]
                          in (ind', wsect (xint (ie_indirect din1)) (indirect_bytes ind') (s1\<lparr>freeblock := freeblock s1 + 1\<rparr>)))
                    else (ind, s1));
                 Some (xint (ind2 ! k), din1, s2) }))"

definition append_chunk :: "u32 \<Rightarrow> nat \<Rightarrow> nat" where
  "append_chunk off n = min n (unat ((off div of_nat BLOCK_SIZE + 1) * of_nat BLOCK_SIZE - off))"

lemma block_offset: "off - off div of_nat BLOCK_SIZE * of_nat BLOCK_SIZE = (off :: u32) mod of_nat BLOCK_SIZE"
  by (simp add: minus_div_mult_eq_mod)

lemma append_chunk_eq: "append_chunk off n = min n (BLOCK_SIZE - unat off mod BLOCK_SIZE)"
proof -
  let ?B = "of_nat BLOCK_SIZE :: u32" and ?r = "(off :: u32) mod of_nat BLOCK_SIZE"
  have r: "unat ?r = unat off mod BLOCK_SIZE" by (simp add: unat_mod fs_sizes)
  have l: "unat ?r < 512" unfolding r by (simp add: fs_sizes)
  have "(off div ?B + 1) * ?B - off = ?B - (off - off div ?B * ?B)" by (simp add: algebra_simps)
  also have "\<dots> = ?B - ?r" by (simp only: block_offset)
  finally have e: "(off div ?B + 1) * ?B - off = ?B - ?r" .
  have "?r \<le> 512" using l by (simp add: word_le_nat_alt)
  then have "unat (?B - ?r) = BLOCK_SIZE - unat ?r" by (simp add: unat_sub fs_sizes)
  then show ?thesis by (simp only: append_chunk_def e r)
qed

lemma append_chunk_bounds: "0 < n \<Longrightarrow> 0 < append_chunk off n" "append_chunk off n \<le> n"
proof -
  have "unat off mod BLOCK_SIZE < BLOCK_SIZE" by (simp add: fs_sizes)
  then show "0 < n \<Longrightarrow> 0 < append_chunk off n" by (simp add: append_chunk_eq)
qed (simp add: append_chunk_def)

function iappend_loop :: "u8 list \<Rightarrow> u32 \<Rightarrow> InodeEntry \<Rightarrow> mkst \<Rightarrow> (u32 \<times> InodeEntry \<times> mkst) option" where
  "iappend_loop p off din s =
     (if p = [] then Some (off, din, s)
      else do { let fbn = off div of_nat BLOCK_SIZE;
                ASSERT (unat fbn < INODE_MAX_BLOCKS);
                (x, din1, s1) \<leftarrow> append_block (unat fbn) din s;
                let n1 = append_chunk off (length p);
                buf \<leftarrow> rsect x s1;
                let s2 = wsect x (put_bytes (unat (off - fbn * of_nat BLOCK_SIZE)) (take n1 p) buf) s1;
                iappend_loop (drop n1 p) (off + of_nat n1) din1 s2 })"
  by pat_completeness auto

termination iappend_loop
  by (relation "measure (\<lambda>(p, off, din, s). length p)") (use append_chunk_bounds in \<open>auto simp: diff_less\<close>)

declare iappend_loop.simps [simp del]

definition iappend :: "u32 \<Rightarrow> u8 list \<Rightarrow> mkst \<Rightarrow> mkst option" where
  "iappend inum p s =
     do { din \<leftarrow> rinode inum s;
          (off, din1, s1) \<leftarrow> iappend_loop p (xint (ie_num_bytes din)) din s;
          winode inum (din1\<lparr>ie_num_bytes := xint off\<rparr>) s1 }"

section \<open>The bitmap\<close>

definition balloc :: "int \<Rightarrow> mkst \<Rightarrow> mkst option" where
  "balloc used s =
     do { ASSERT (used < int (BLOCK_SIZE * 8));
          let buf = fold (\<lambda>i d. d[i div 8 := d ! (i div 8) OR bit_mask i]) [0..<nat used] zeroes;
          Some (wsect (bitmap_start mk_sb) buf s) }"

section \<open>The program\<close>

text \<open>The file name of a path: \<open>j\<close> counts the characters behind the last slash.\<close>

fun name_loop :: "u8 list \<Rightarrow> int \<Rightarrow> int" where
  "name_loop [] j = j"
| "name_loop (c # cs) j = name_loop cs ((if c = 47 then - 1 else j) + 1)"

definition base_name :: "u8 list \<Rightarrow> u8 list" where
  "base_name path = drop (length path - nat (name_loop path 0)) path"

definition skip_underscore :: "u8 list \<Rightarrow> u8 list" where
  "skip_underscore name = (if name \<noteq> [] \<and> hd name = 95 then tl name else name)"

text \<open>A cleared entry filled by \<open>strcpy\<close> or \<open>strncpy(de.name, name, DIRSIZ)\<close>.\<close>

definition dirent :: "u32 \<Rightarrow> u8 list \<Rightarrow> DirEntry" where
  "dirent inum name = \<lparr>de_inode_no = xshort (ucast inum),
     de_name = take FILE_NAME_MAX_LENGTH name @ replicate (FILE_NAME_MAX_LENGTH - length name) 0\<rparr>"

fun append_all :: "u32 \<Rightarrow> u8 list list \<Rightarrow> mkst \<Rightarrow> mkst option" where
  "append_all inum [] s = Some s"
| "append_all inum (buf # bufs) s = do { s1 \<leftarrow> iappend inum buf s; append_all inum bufs s1 }"

definition add_file :: "u32 \<Rightarrow> u8 list \<times> u8 list list option \<Rightarrow> mkst \<Rightarrow> mkst option" where
  "add_file rootino = (\<lambda>(path, file) s.
     do { ASSERT (47 \<notin> set (base_name path));
          bufs \<leftarrow> file;
          (inum, s1) \<leftarrow> ialloc INODE_REGULAR s;
          s2 \<leftarrow> iappend rootino (dir_entry_bytes (dirent inum (skip_underscore (base_name path)))) s1;
          append_all inum bufs s2 })"

fun add_files :: "u32 \<Rightarrow> (u8 list \<times> u8 list list option) list \<Rightarrow> mkst \<Rightarrow> mkst option" where
  "add_files rootino [] s = Some s"
| "add_files rootino (f # fs) s = do { s1 \<leftarrow> add_file rootino f s; add_files rootino fs s1 }"

definition format_image :: mkst where
  "format_image = wsect 0 (put_bytes 0 (super_block_bytes mk_sb) zeroes)
     (fold (\<lambda>i. wsect (of_nat i) zeroes) [0..<FSSIZE] \<lparr>img = [], freeinode = 1, freeblock = of_nat nmeta\<rparr>)"

definition make_root :: "mkst \<Rightarrow> (u32 \<times> mkst) option" where
  "make_root s =
     do { (rootino, s1) \<leftarrow> ialloc INODE_DIRECTORY s;
          ASSERT (unat rootino = ROOT_INODE_NO);
          s2 \<leftarrow> iappend rootino (dir_entry_bytes (dirent rootino [46])) s1;
          s3 \<leftarrow> iappend rootino (dir_entry_bytes (dirent rootino [46, 46])) s2;
          Some (rootino, s3) }"

definition fix_root_size :: "u32 \<Rightarrow> mkst \<Rightarrow> mkst option" where
  "fix_root_size rootino s =
     do { din \<leftarrow> rinode rootino s;
          let off = xint (ie_num_bytes din);
          winode rootino (din\<lparr>ie_num_bytes := xint ((off div of_nat BLOCK_SIZE + 1) * of_nat BLOCK_SIZE)\<rparr>) s }"

definition mkfs_main :: "(u8 list \<times> u8 list list option) list \<Rightarrow> mkst option" where
  "mkfs_main files =
     do { (rootino, s1) \<leftarrow> make_root format_image;
          s2 \<leftarrow> add_files rootino files s1;
          s3 \<leftarrow> fix_root_size rootino s2;
          balloc (sint (freeblock s3)) s3 }"

end
