(* ===== verification/Mkfs_Blocks.thy ===== *)
theory Mkfs_Blocks
  imports Mkfs
begin

text \<open>
  The image while it is built: which block belongs to which inode.  A slot of an inode is a place that
  holds a block number: the twelve direct addresses, the address of the indirect block (slot 12) and
  the entries of the indirect block.
\<close>

section \<open>Blocks of the image\<close>

definition view :: "mkst \<Rightarrow> usize \<Rightarrow> u8 list" where
  "view s n = img s ! unat n"

definition img_ok :: "mkst \<Rightarrow> bool" where
  "img_ok s \<longleftrightarrow> length (img s) = FSSIZE \<and> (\<forall>b\<in>set (img s). length b = BLOCK_SIZE)"

lemma sector_small: "unat sec < 2 ^ 23 \<Longrightarrow> sector sec = unat sec"
proof -
  assume s: "unat sec < 2 ^ 23"
  have "unat (sec * 512) = unat sec * 512" using s by (subst unat_mult_lem [THEN iffD1]) simp_all
  then show ?thesis by (simp add: sector_def fs_sizes)
qed

lemma sector_eq: "unat sec < FSSIZE \<Longrightarrow> sector sec = unat sec"
  by (rule sector_small) (simp add: FSSIZE_def)

lemma rsect_eq: "img_ok s \<Longrightarrow> unat x < FSSIZE \<Longrightarrow> rsect x s = Some (view s (ucast x))"
  by (simp add: rsect_def sector_eq img_ok_def view_def)

lemma view_length: "img_ok s \<Longrightarrow> unat n < FSSIZE \<Longrightarrow> length (view s n) = BLOCK_SIZE"
  by (simp add: img_ok_def view_def)

lemma wsect_eq:
  assumes "img_ok s" "unat x < FSSIZE" "length b = BLOCK_SIZE"
  shows "img_ok (wsect x b s)" "view (wsect x b s) = (view s)(ucast x := b)"
    "freeinode (wsect x b s) = freeinode s" "freeblock (wsect x b s) = freeblock s"
proof -
  have e: "wsect x b s = s\<lparr>img := (img s)[unat x := b]\<rparr>"
    using assms(1,2) by (simp add: wsect_def sector_eq img_ok_def Let_def)
  show "img_ok (wsect x b s)"
    using assms set_update_subset_insert [of "img s" "unat x" b] by (auto simp: e img_ok_def)
  show "view (wsect x b s) = (view s)(ucast x := b)"
  proof
    fix n :: usize
    have "n = ucast x \<longleftrightarrow> unat n = unat x" by (metis unat_ucast_u32 word_unat_eq_iff)
    then show "view (wsect x b s) n = ((view s)(ucast x := b)) n"
      using assms(1,2) by (auto simp: e view_def img_ok_def)
  qed
qed (simp_all add: wsect_def Let_def)

lemma unat_nat32: "n \<le> FSSIZE \<Longrightarrow> unat (of_nat n :: u32) = n"
  by (simp add: unat_of_nat FSSIZE_def)

lemma unat_nat64: "n \<le> FSSIZE \<Longrightarrow> unat (of_nat n :: usize) = n"
  by (simp add: unat_of_nat FSSIZE_def)

lemma ucast_nat32: "n \<le> FSSIZE \<Longrightarrow> ucast (of_nat n :: u32) = (of_nat n :: usize)"
  by (metis unat_nat32 unat_nat64 unat_ucast_u32 word_unat_eq_iff)

section \<open>Slots\<close>

definition NSLOTS :: nat where "NSLOTS = 141"

definition islot :: "InodeEntry \<Rightarrow> (usize \<Rightarrow> u8 list) \<Rightarrow> nat \<Rightarrow> u32" where
  "islot e V j = (if j < 12 then ie_addrs e ! j else if j = 12 then ie_indirect e
     else if ie_indirect e = 0 then 0 else indirect_addrs (V (ucast (ie_indirect e))) ! (j - 13))"

definition used :: "(nat \<Rightarrow> InodeEntry) \<Rightarrow> (usize \<Rightarrow> u8 list) \<Rightarrow> nat \<Rightarrow> (nat \<times> nat) set" where
  "used E V m = {(i, j). 1 \<le> i \<and> i < m \<and> j < NSLOTS \<and> islot (E i) V j \<noteq> 0}"

definition slotno :: "(nat \<Rightarrow> InodeEntry) \<Rightarrow> (usize \<Rightarrow> u8 list) \<Rightarrow> nat \<times> nat \<Rightarrow> nat" where
  "slotno E V = (\<lambda>(i, j). unat (islot (E i) V j))"

text \<open>
  The blocks from \<open>nmeta\<close> to \<open>freeblock\<close> are exactly the blocks in the slots of the inodes below
  \<open>freeinode\<close>, each in one slot, and the blocks behind them are empty.
\<close>

definition blocks_inv :: "(nat \<Rightarrow> InodeEntry) \<Rightarrow> (usize \<Rightarrow> u8 list) \<Rightarrow> nat \<Rightarrow> nat \<Rightarrow> bool" where
  "blocks_inv E V m f \<longleftrightarrow> nmeta \<le> f \<and> f \<le> FSSIZE \<and> bij_betw (slotno E V) (used E V m) {nmeta..<f}
     \<and> (\<forall>n. f \<le> n \<and> n < FSSIZE \<longrightarrow> V (of_nat n) = zeroes)
     \<and> (\<forall>i. length (ie_addrs (E i)) = INODE_NUM_DIRECT)"

lemma used_iff: "(i, j) \<in> used E V m \<longleftrightarrow> 1 \<le> i \<and> i < m \<and> j < NSLOTS \<and> islot (E i) V j \<noteq> 0"
  by (simp add: used_def)

lemma slot_range:
  assumes "blocks_inv E V m f" "1 \<le> i" "i < m" "j < NSLOTS" "islot (E i) V j \<noteq> 0"
  shows "nmeta \<le> unat (islot (E i) V j)" "unat (islot (E i) V j) < f" "f \<le> FSSIZE"
proof -
  have "bij_betw (slotno E V) (used E V m) {nmeta..<f}" using assms(1) by (simp add: blocks_inv_def)
  then have "slotno E V (i, j) \<in> {nmeta..<f}" using assms(2-5) by (auto simp: used_iff dest: bij_betwE)
  then show "nmeta \<le> unat (islot (E i) V j)" "unat (islot (E i) V j) < f" by (simp_all add: slotno_def)
  show "f \<le> FSSIZE" using assms(1) by (simp add: blocks_inv_def)
qed

lemma slot_inj:
  assumes "blocks_inv E V m f" "1 \<le> i" "i < m" "j < NSLOTS" "1 \<le> i'" "i' < m" "j' < NSLOTS"
    and "islot (E i) V j \<noteq> 0" "islot (E i) V j = islot (E i') V j'"
  shows "i = i' \<and> j = j'"
proof -
  have "inj_on (slotno E V) (used E V m)" using assms(1) by (auto simp: blocks_inv_def bij_betw_def)
  moreover have "(i, j) \<in> used E V m" "(i', j') \<in> used E V m" using assms by (simp_all add: used_iff)
  moreover have "slotno E V (i, j) = slotno E V (i', j')" using assms(9) by (simp add: slotno_def)
  ultimately have "(i, j) = (i', j')" by (meson inj_onD)
  then show ?thesis by simp
qed

text \<open>Filling one empty slot with the first free block.\<close>

lemma grow_slot:
  assumes inv: "blocks_inv E V m f" and f: "f < FSSIZE" and i0: "1 \<le> i0" "i0 < m" and j0: "j0 < NSLOTS"
    and z: "islot (E i0) V j0 = 0" and len: "\<forall>i. length (ie_addrs (E' i)) = INODE_NUM_DIRECT"
    and new: "\<And>i j. 1 \<le> i \<Longrightarrow> i < m \<Longrightarrow> j < NSLOTS \<Longrightarrow>
        islot (E' i) V' j = (if (i, j) = (i0, j0) then of_nat f else islot (E i) V j)"
    and V': "\<And>n. f < n \<Longrightarrow> n < FSSIZE \<Longrightarrow> V' (of_nat n) = V (of_nat n)"
  shows "blocks_inv E' V' m (Suc f)"
proof -
  have u: "unat (of_nat f :: u32) = f" using f by (simp add: unat_nat32)
  have m: "nmeta \<le> f" and b: "bij_betw (slotno E V) (used E V m) {nmeta..<f}" using inv by (auto simp: blocks_inv_def)
  have f0: "(of_nat f :: u32) \<noteq> 0" using u m by (auto simp: mkfs_layout fs_sizes)
  have us: "used E' V' m = used E V m \<union> {(i0, j0)}"
    using new i0 j0 f0 z by (auto simp: used_def split: if_splits)
  have nin: "(i0, j0) \<notin> used E V m" using z by (simp add: used_iff)
  have same: "slotno E' V' p = slotno E V p" if "p \<in> used E V m" for p
    using that new nin by (cases p) (auto simp: used_def slotno_def)
  have s0: "slotno E' V' (i0, j0) = f" using new [OF i0 j0] u by (simp add: slotno_def)
  have "bij_betw (slotno E' V') (used E V m) {nmeta..<f}" using b same by (simp cong: bij_betw_cong)
  then have "bij_betw (slotno E' V') (used E V m \<union> {(i0, j0)}) ({nmeta..<f} \<union> {slotno E' V' (i0, j0)})"
    by (intro notIn_Un_bij_betw nin) (simp_all add: s0)
  moreover have "{nmeta..<f} \<union> {f} = {nmeta..<Suc f}" using m by auto
  ultimately have "bij_betw (slotno E' V') (used E' V' m) {nmeta..<Suc f}" by (simp only: us s0)
  then show ?thesis using inv f m len V' by (auto simp: blocks_inv_def)
qed

lemma set_direct:
  assumes inv: "blocks_inv E V m f" and f: "f < FSSIZE" and i0: "1 \<le> i0" "i0 < m" and j: "j < 12" "ie_addrs (E i0) ! j = 0"
  defines "e' \<equiv> (E i0)\<lparr>ie_addrs := (ie_addrs (E i0))[j := of_nat f]\<rparr>"
  shows "blocks_inv (E(i0 := e')) V m (Suc f)"
    "j' < NSLOTS \<Longrightarrow> islot e' V j' = (if j' = j then of_nat f else islot (E i0) V j')"
proof -
  have len: "length (ie_addrs (E i)) = 12" for i using inv by (simp add: blocks_inv_def fs_sizes)
  show s: "islot e' V j' = (if j' = j then of_nat f else islot (E i0) V j')" if "j' < NSLOTS" for j'
    using j len [of i0] by (auto simp: islot_def e'_def nth_list_update)
  show "blocks_inv (E(i0 := e')) V m (Suc f)"
    by (rule grow_slot [OF inv f i0, of j])
      (use j s len in \<open>auto simp: NSLOTS_def islot_def e'_def fs_sizes\<close>)
qed

lemma set_indirect:
  assumes inv: "blocks_inv E V m f" and f: "f < FSSIZE" and i0: "1 \<le> i0" "i0 < m" and j: "ie_indirect (E i0) = 0"
  defines "e' \<equiv> (E i0)\<lparr>ie_indirect := of_nat f\<rparr>"
  shows "blocks_inv (E(i0 := e')) V m (Suc f)"
    "j' < NSLOTS \<Longrightarrow> islot e' V j' = (if j' = 12 then of_nat f else islot (E i0) V j')"
proof -
  have len: "length (ie_addrs (E i)) = 12" for i using inv by (simp add: blocks_inv_def fs_sizes)
  have "V (of_nat f) = zeroes" using inv f by (simp add: blocks_inv_def)
  moreover have "ucast (of_nat f :: u32) = (of_nat f :: usize)" using f by (simp add: ucast_nat32)
  ultimately have z: "V (ucast (of_nat f :: u32)) = zeroes" by simp
  show s: "islot e' V j' = (if j' = 12 then of_nat f else islot (E i0) V j')" if "j' < NSLOTS" for j'
    using j that z by (auto simp: islot_def e'_def zeroes_def indirect_addrs_def le_words_zero NSLOTS_def fs_sizes)
  show "blocks_inv (E(i0 := e')) V m (Suc f)"
  proof (rule grow_slot [OF inv f i0])
    show "12 < NSLOTS" "islot (E i0) V 12 = 0" using j by (simp_all add: NSLOTS_def islot_def)
    show "\<forall>i. length (ie_addrs ((E(i0 := e')) i)) = INODE_NUM_DIRECT" using len by (simp add: e'_def fs_sizes)
  qed (use s in auto)
qed

text \<open>A change of one block leaves the slots of the inodes whose address block it is not.\<close>

lemma islot_upd: "ie_indirect e = 0 \<or> ucast (ie_indirect e) \<noteq> n \<Longrightarrow> islot e (V(n := d)) j = islot e V j"
  by (auto simp: islot_def)

lemma ucast_u32_inj: "ucast (a :: u32) = (ucast b :: usize) \<longleftrightarrow> a = b"
  by (metis unat_ucast_u32 word_unat_eq_iff)

lemma islot_other:
  assumes inv: "blocks_inv E V m f" and a: "1 \<le> i" "i < m" and b: "1 \<le> i'" "i' < m" "j' < NSLOTS" "islot (E i') V j' \<noteq> 0"
    and ne: "(i, 12) \<noteq> (i', j')"
  shows "islot (E i) (V(ucast (islot (E i') V j') := d)) j = islot (E i) V j"
proof (rule islot_upd)
  have "islot (E i) V 12 = ie_indirect (E i)" by (simp add: islot_def)
  then show "ie_indirect (E i) = 0 \<or> ucast (ie_indirect (E i)) \<noteq> (ucast (islot (E i') V j') :: usize)"
    using slot_inj [OF inv a _ b(1-3), of 12] ne by (auto simp: ucast_u32_inj NSLOTS_def)
qed

lemma set_entry:
  assumes inv: "blocks_inv E V m f" and f: "f < FSSIZE" and i0: "1 \<le> i0" "i0 < m" and j: "12 < j" "j < NSLOTS"
    and ia: "ie_indirect (E i0) \<noteq> 0" and z: "islot (E i0) V j = 0"
  defines "V' \<equiv> V(ucast (ie_indirect (E i0)) :=
     indirect_bytes ((indirect_addrs (V (ucast (ie_indirect (E i0)))))[j - 13 := of_nat f]))"
  shows "blocks_inv E V' m (Suc f)"
    "1 \<le> i \<Longrightarrow> i < m \<Longrightarrow> j' < NSLOTS \<Longrightarrow> islot (E i) V' j' = (if (i, j') = (i0, j) then of_nat f else islot (E i) V j')"
proof -
  have x: "islot (E i0) V 12 = ie_indirect (E i0)" by (simp add: islot_def)
  have x0: "islot (E i0) V 12 \<noteq> 0" using ia x by simp
  note r = slot_range [OF inv i0, of 12, unfolded x, OF _ ia]
  show s: "islot (E i) V' j' = (if (i, j') = (i0, j) then of_nat f else islot (E i) V j')"
    if i: "1 \<le> i" "i < m" "j' < NSLOTS" for i j'
  proof (cases "i = i0")
    case False
    have "islot (E i) (V(ucast (islot (E i0) V 12) := d)) j' = islot (E i) V j'" for d
      by (rule islot_other [OF inv i(1,2) i0 _ x0]) (use False in \<open>auto simp: NSLOTS_def\<close>)
    then show ?thesis using False by (simp add: V'_def x)
  next
    case True
    let ?a = "indirect_addrs (V (ucast (ie_indirect (E i0))))"
    have "length ?a = 128" by (simp add: fs_sizes)
    then have "indirect_addrs (V' (ucast (ie_indirect (E i0)))) = ?a[j - 13 := of_nat f]"
      by (simp add: V'_def indirect_roundtrip)
    then show ?thesis using True j ia that(3)
      by (auto simp: islot_def nth_list_update NSLOTS_def fs_sizes)
  qed
  show "blocks_inv E V' m (Suc f)"
  proof (rule grow_slot [OF inv f i0 j(2) z])
    show "\<forall>i. length (ie_addrs (E i)) = INODE_NUM_DIRECT" using inv by (simp add: blocks_inv_def)
    show "V' (of_nat n) = V (of_nat n)" if "f < n" "n < FSSIZE" for n
    proof -
      have "unat (of_nat n :: usize) = n" using that by (simp add: unat_nat64)
      then have "of_nat n \<noteq> (ucast (ie_indirect (E i0)) :: usize)" using r(2) that by (auto simp: NSLOTS_def dest: arg_cong [of _ _ unat])
      then show ?thesis by (simp add: V'_def)
    qed
  qed (use s in auto)
qed

text \<open>Writing to a data block, and to a block of the first \<open>nmeta\<close>.\<close>

lemma blocks_inv_cong:
  assumes inv: "blocks_inv E V m f" and s: "\<And>i j. 1 \<le> i \<Longrightarrow> i < m \<Longrightarrow> j < NSLOTS \<Longrightarrow> islot (E i) V' j = islot (E i) V j"
    and V': "\<And>n. f \<le> n \<Longrightarrow> n < FSSIZE \<Longrightarrow> V' (of_nat n) = V (of_nat n)"
  shows "blocks_inv E V' m f"
proof -
  have "used E V' m = used E V m" using s by (auto simp: used_def)
  moreover have "bij_betw (slotno E V') (used E V m) {nmeta..<f} \<longleftrightarrow> bij_betw (slotno E V) (used E V m) {nmeta..<f}"
    by (rule bij_betw_cong) (use s in \<open>auto simp: used_def slotno_def\<close>)
  ultimately have "bij_betw (slotno E V') (used E V' m) {nmeta..<f} \<longleftrightarrow> bij_betw (slotno E V) (used E V m) {nmeta..<f}"
    by simp
  then show ?thesis using inv V' by (simp add: blocks_inv_def)
qed

lemma write_data:
  assumes inv: "blocks_inv E V m f" and i0: "1 \<le> i0" "i0 < m" "j0 < NSLOTS" "j0 \<noteq> 12" "islot (E i0) V j0 \<noteq> 0"
  shows "blocks_inv E (V(ucast (islot (E i0) V j0) := d)) m f"
    "1 \<le> i \<Longrightarrow> i < m \<Longrightarrow> islot (E i) (V(ucast (islot (E i0) V j0) := d)) j = islot (E i) V j"
proof -
  show s: "islot (E i) (V(ucast (islot (E i0) V j0) := d)) j = islot (E i) V j" if "1 \<le> i" "i < m" for i j
    by (rule islot_other [OF inv that i0(1-3,5)]) (use i0(4) in auto)
  show "blocks_inv E (V(ucast (islot (E i0) V j0) := d)) m f"
  proof (rule blocks_inv_cong [OF inv s])
    fix n assume n: "f \<le> n" "n < FSSIZE"
    then have "unat (of_nat n :: usize) = n" by (simp add: unat_nat64)
    then have "of_nat n \<noteq> (ucast (islot (E i0) V j0) :: usize)"
      using slot_range(2) [OF inv i0(1-3,5)] n by (auto dest: arg_cong [of _ _ unat])
    then show "(V(ucast (islot (E i0) V j0) := d)) (of_nat n) = V (of_nat n)" by simp
  qed
qed

lemma write_meta:
  assumes inv: "blocks_inv E V m f" and b: "unat b < nmeta"
  shows "blocks_inv E (V(b := d)) m f" "1 \<le> i \<Longrightarrow> i < m \<Longrightarrow> islot (E i) (V(b := d)) j = islot (E i) V j"
proof -
  show s: "islot (E i) (V(b := d)) j = islot (E i) V j" if "1 \<le> i" "i < m" for i j
  proof (rule islot_upd)
    have x: "islot (E i) V 12 = ie_indirect (E i)" by (simp add: islot_def)
    show "ie_indirect (E i) = 0 \<or> ucast (ie_indirect (E i)) \<noteq> b"
      using slot_range(1) [OF inv that, of 12, unfolded x] b by (auto simp: NSLOTS_def)
  qed
  show "blocks_inv E (V(b := d)) m f"
  proof (rule blocks_inv_cong [OF inv s])
    fix n assume n: "f \<le> n" "n < FSSIZE"
    then have "unat (of_nat n :: usize) = n" by (simp add: unat_nat64)
    then show "(V(b := d)) (of_nat n) = V (of_nat n)" using inv n b by (auto simp: blocks_inv_def)
  qed
qed

end
