(* ===== verification/Mkfs_Files.thy ===== *)
theory Mkfs_Files
  imports Mkfs_Blocks
begin

text \<open>
  Appending to a file of the image: \<open>iappend\<close> adds exactly its bytes to one file, takes exactly the
  blocks the new size needs, and leaves every other file as it was.
\<close>

section \<open>Sizes and slots\<close>

definition fslot :: "nat \<Rightarrow> nat" where "fslot k = (if k < 12 then k else Suc k)"
definition slot_block :: "nat \<Rightarrow> nat" where "slot_block j = (if j \<le> 12 then j else j - 1)"

text \<open>A file of \<open>n\<close> bytes fills exactly the slots it needs.\<close>

definition exact :: "InodeEntry \<Rightarrow> (usize \<Rightarrow> u8 list) \<Rightarrow> nat \<Rightarrow> bool" where
  "exact e V n \<longleftrightarrow> n \<le> INODE_MAX_BYTES \<and> (\<forall>j<NSLOTS. islot e V j \<noteq> 0 \<longleftrightarrow> slot_block j * BLOCK_SIZE < n)"

definition blocks_of :: "nat \<Rightarrow> nat" where
  "blocks_of n = (n + 511) div 512 + (if 6144 < n then 1 else 0)"

definition content :: "InodeEntry \<Rightarrow> (usize \<Rightarrow> u8 list) \<Rightarrow> nat \<Rightarrow> u8 list" where
  "content e V n = map (file_byte e V) [0..<n]"

lemma fslot_simps [simp]: "slot_block (fslot k) = k" "fslot k \<noteq> 12" "k < 140 \<Longrightarrow> fslot k < NSLOTS"
  by (auto simp: fslot_def slot_block_def NSLOTS_def)

lemma fblock_islot: "islot e V (fslot k) \<noteq> 0 \<Longrightarrow> fblock e V k = islot e V (fslot k)"
  by (auto simp: fblock_def islot_def fslot_def fs_sizes split: if_splits)

lemma exact_slot:
  assumes "exact e V n" "o' < n"
  shows "o' div BLOCK_SIZE < 140" "islot e V (fslot (o' div BLOCK_SIZE)) \<noteq> 0"
    "file_byte e V o' = V (ucast (islot e V (fslot (o' div BLOCK_SIZE)))) ! (o' mod BLOCK_SIZE)"
proof -
  have "n \<le> 71680" using assms(1) by (simp add: exact_def fs_sizes)
  then show k: "o' div BLOCK_SIZE < 140" using assms(2) by (simp add: fs_sizes)
  have "o' div BLOCK_SIZE * BLOCK_SIZE \<le> o'" by simp
  then have "o' div BLOCK_SIZE * BLOCK_SIZE < n" using assms(2) by linarith
  then show s: "islot e V (fslot (o' div BLOCK_SIZE)) \<noteq> 0" using assms(1) k by (simp add: exact_def)
  show "file_byte e V o' = V (ucast (islot e V (fslot (o' div BLOCK_SIZE)))) ! (o' mod BLOCK_SIZE)"
    by (simp add: file_byte_def fblock_islot [OF s])
qed

section \<open>The block of an append\<close>

definition same_inode :: "InodeEntry \<Rightarrow> InodeEntry \<Rightarrow> bool" where
  "same_inode e e1 \<longleftrightarrow> e1 = e\<lparr>ie_addrs := ie_addrs e1, ie_indirect := ie_indirect e1\<rparr>"

lemma same_inode_simps [simp]: "same_inode e e" "same_inode e (e\<lparr>ie_addrs := a\<rparr>)" "same_inode e (e\<lparr>ie_indirect := b\<rparr>)"
  by (simp_all add: same_inode_def)

lemma same_inode_trans: "same_inode e e1 \<Longrightarrow> same_inode e1 e2 \<Longrightarrow> same_inode e e2"
  unfolding same_inode_def by (metis InodeEntry.surjective InodeEntry.update_convs(6,7))

lemma same_inode_fields:
  assumes "same_inode e e1"
  shows "ie_type e1 = ie_type e" "ie_major e1 = ie_major e" "ie_minor e1 = ie_minor e" "ie_num_links e1 = ie_num_links e"
    "ie_num_bytes e1 = ie_num_bytes e"
proof -
  show "ie_type e1 = ie_type e" "ie_major e1 = ie_major e" "ie_minor e1 = ie_minor e" "ie_num_links e1 = ie_num_links e"
    "ie_num_bytes e1 = ie_num_bytes e"
    using assms [unfolded same_inode_def, THEN arg_cong [of _ _ ie_type]] assms [unfolded same_inode_def, THEN arg_cong [of _ _ ie_major]]
      assms [unfolded same_inode_def, THEN arg_cong [of _ _ ie_minor]] assms [unfolded same_inode_def, THEN arg_cong [of _ _ ie_num_links]]
      assms [unfolded same_inode_def, THEN arg_cong [of _ _ ie_num_bytes]] by simp_all
qed

text \<open>What allocation for inode \<open>i0\<close> keeps.\<close>

definition allocd :: "nat \<Rightarrow> nat \<Rightarrow> (nat \<Rightarrow> InodeEntry) \<Rightarrow> mkst \<Rightarrow> InodeEntry \<Rightarrow> mkst \<Rightarrow> bool" where
  "allocd i0 m E s e1 s1 \<longleftrightarrow> img_ok s1 \<and> freeinode s1 = freeinode s
     \<and> blocks_inv (E(i0 := e1)) (view s1) m (unat (freeblock s1))
     \<and> (\<forall>j<NSLOTS. islot (E i0) (view s) j \<noteq> 0 \<longrightarrow> islot e1 (view s1) j = islot (E i0) (view s) j)
     \<and> (\<forall>i j. 1 \<le> i \<and> i < m \<and> i \<noteq> i0 \<and> j < NSLOTS \<longrightarrow> islot (E i) (view s1) j = islot (E i) (view s) j)
     \<and> (\<forall>n. ie_indirect e1 = 0 \<or> n \<noteq> ucast (ie_indirect e1) \<longrightarrow> view s1 n = view s n)
     \<and> same_inode (E i0) e1"

lemma freeblock_Suc: "unat (freeblock s) < FSSIZE \<Longrightarrow> unat (freeblock s + 1) = Suc (unat (freeblock s))"
  by (simp add: unat_word_ariths FSSIZE_def)

lemma of_nat_unat_u32 [simp]: "of_nat (unat (x :: u32)) = x"
  by (simp add: word_unat_eq_iff unat_of_nat)

lemma view_freeblock [simp]: "view (s\<lparr>freeblock := x\<rparr>) = view s" "img_ok (s\<lparr>freeblock := x\<rparr>) = img_ok s"
  by (simp_all add: view_def img_ok_def fun_eq_iff)

lemma append_direct:
  assumes inv: "img_ok s" "blocks_inv E (view s) m (unat (freeblock s))" and i0: "1 \<le> i0" "i0 < m"
    and k: "k < 12" and room: "ie_addrs (E i0) ! k = 0 \<longrightarrow> unat (freeblock s) < FSSIZE"
  shows "\<exists>x e1 s1. append_block k (E i0) s = Some (x, e1, s1) \<and> allocd i0 m E s e1 s1
     \<and> unat (freeblock s1) = unat (freeblock s) + (if ie_addrs (E i0) ! k = 0 then 1 else 0)
     \<and> x = islot e1 (view s1) (fslot k)
     \<and> (\<forall>j<NSLOTS. islot e1 (view s1) j \<noteq> 0 \<longleftrightarrow> j = k \<or> islot (E i0) (view s) j \<noteq> 0)"
proof (cases "ie_addrs (E i0) ! k = 0")
  case False
  then show ?thesis using inv k
    by (auto simp: append_block_def fs_sizes Let_def allocd_def islot_def fslot_def)
next
  case True
  let ?f = "unat (freeblock s)" and ?s = "s\<lparr>freeblock := freeblock s + 1\<rparr>"
  let ?e = "(E i0)\<lparr>ie_addrs := (ie_addrs (E i0))[k := of_nat ?f]\<rparr>"
  have f: "?f < FSSIZE" using room True by simp
  note d = set_direct [OF inv(2) f i0 k True]
  have len: "length (ie_addrs (E i0)) = 12" using inv(2) by (simp add: blocks_inv_def fs_sizes)
  have "nmeta \<le> ?f" using inv(2) by (simp add: blocks_inv_def)
  then have f0: "freeblock s \<noteq> 0" by (auto simp: mkfs_layout fs_sizes)
  have z: "islot (E i0) V k = 0" for V using True k by (simp add: islot_def)
  have a: "append_block k (E i0) s = Some (freeblock s, ?e, ?s)"
    using True k len by (simp add: append_block_def fs_sizes)
  have "allocd i0 m E s ?e ?s"
    using inv(1) d z freeblock_Suc [OF f] by (auto simp: allocd_def)
  then show ?thesis
    using a d(2) True k f0 freeblock_Suc [OF f] by (intro exI conjI) (auto simp: fslot_def NSLOTS_def split: if_splits)
qed

lemma append_indirect:
  assumes inv: "img_ok s" "blocks_inv E (view s) m (unat (freeblock s))" and i0: "1 \<le> i0" "i0 < m"
    and k: "12 \<le> k" "k < 140" and ia: "ie_indirect (E i0) \<noteq> 0"
    and room: "islot (E i0) (view s) (Suc k) = 0 \<longrightarrow> unat (freeblock s) < FSSIZE"
  shows "\<exists>x e1 s1. append_block k (E i0) s = Some (x, e1, s1) \<and> allocd i0 m E s e1 s1
     \<and> unat (freeblock s1) = unat (freeblock s) + (if islot (E i0) (view s) (Suc k) = 0 then 1 else 0)
     \<and> x = islot e1 (view s1) (fslot k)
     \<and> (\<forall>j<NSLOTS. islot e1 (view s1) j \<noteq> 0 \<longleftrightarrow> j = Suc k \<or> islot (E i0) (view s) j \<noteq> 0)"
proof -
  let ?f = "unat (freeblock s)" and ?ia = "ie_indirect (E i0)"
  let ?a = "indirect_addrs (view s (ucast ?ia))"
  have ia12: "islot (E i0) (view s) 12 = ?ia" by (simp add: islot_def)
  note r = slot_range [OF inv(2) i0, of 12, unfolded ia12, OF _ ia]
  have x: "unat ?ia < FSSIZE" using r(2,3) by (simp add: NSLOTS_def)
  have sl: "islot (E i0) (view s) (Suc k) = ?a ! (k - 12)" using k ia by (simp add: islot_def)
  show ?thesis
  proof (cases "?a ! (k - 12) = 0")
    case False
    have "append_block k (E i0) s = Some (?a ! (k - 12), E i0, s)"
      using k ia False by (simp add: append_block_def fs_sizes rsect_eq [OF inv(1) x])
    then show ?thesis using False inv k ia sl by (auto simp: allocd_def fslot_def)
  next
    case True
    have f: "?f < FSSIZE" using room True sl by simp
    let ?s1 = "s\<lparr>freeblock := freeblock s + 1\<rparr>" and ?d = "indirect_bytes (?a[k - 12 := freeblock s])"
    let ?s = "wsect ?ia ?d ?s1"
    have len: "length ?a = 128" by (simp add: fs_sizes)
    then have "length ?d = BLOCK_SIZE" by (simp add: indirect_bytes_def fs_sizes)
    note w = wsect_eq [of ?s1 ?ia ?d, OF _ x this]
    have a: "append_block k (E i0) s = Some (freeblock s, E i0, ?s)"
      using k ia True len by (simp add: append_block_def fs_sizes rsect_eq [OF inv(1) x] Let_def)
    have "islot (E i0) (view s) (Suc k) = 0" "12 < Suc k" "Suc k < NSLOTS" using sl True k by (simp_all add: NSLOTS_def)
    from set_entry [OF inv(2) f i0 this(2,3) ia this(1)] k
    have d: "blocks_inv E (view ?s) m (Suc ?f)"
      "\<And>i j. 1 \<le> i \<Longrightarrow> i < m \<Longrightarrow> j < NSLOTS \<Longrightarrow> islot (E i) (view ?s) j = (if (i, j) = (i0, Suc k) then freeblock s else islot (E i) (view s) j)"
      using w(2) inv(1) by simp_all
    have "nmeta \<le> ?f" using inv(2) by (simp add: blocks_inv_def)
    then have f0: "freeblock s \<noteq> 0" by (auto simp: mkfs_layout fs_sizes)
    have "allocd i0 m E s (E i0) ?s"
      unfolding allocd_def
      using w inv(1) d i0 k True sl freeblock_Suc [OF f] ia by auto
    then show ?thesis
      using a d(2) i0 True sl k f0 freeblock_Suc [OF f] w(4) inv(1)
      by (intro exI conjI) (auto simp: fslot_def NSLOTS_def split: if_splits)
  qed
qed

lemma append_new_indirect:
  assumes inv: "img_ok s" "blocks_inv E (view s) m (unat (freeblock s))" and i0: "1 \<le> i0" "i0 < m"
    and k: "12 \<le> k" "k < 140" and ia: "ie_indirect (E i0) = 0"
    and room: "unat (freeblock s) + 2 \<le> FSSIZE"
  shows "\<exists>x e1 s1. append_block k (E i0) s = Some (x, e1, s1) \<and> allocd i0 m E s e1 s1
     \<and> unat (freeblock s1) = unat (freeblock s) + 2
     \<and> x = islot e1 (view s1) (fslot k)
     \<and> (\<forall>j<NSLOTS. islot e1 (view s1) j \<noteq> 0 \<longleftrightarrow> j = 12 \<or> j = Suc k \<or> islot (E i0) (view s) j \<noteq> 0)"
proof -
  let ?f = "unat (freeblock s)" and ?s = "s\<lparr>freeblock := freeblock s + 1\<rparr>"
  let ?e = "(E i0)\<lparr>ie_indirect := freeblock s\<rparr>" let ?E = "E(i0 := ?e)"
  have f: "?f < FSSIZE" using room by simp
  note S = freeblock_Suc [OF f]
  have d: "blocks_inv ?E (view ?s) m (unat (freeblock ?s))"
    "\<And>j. j < NSLOTS \<Longrightarrow> islot ?e (view s) j = (if j = 12 then freeblock s else islot (E i0) (view s) j)"
    using set_indirect [OF inv(2) f i0 ia] S by simp_all
  have "nmeta \<le> ?f" using inv(2) by (simp add: blocks_inv_def)
  then have f0: "freeblock s \<noteq> 0" by (auto simp: mkfs_layout fs_sizes)
  have n: "append_block k (E i0) s = append_block k (?E i0) ?s"
    using ia f0 k by (simp add: append_block_def fs_sizes Let_def)
  have z: "islot (E i0) (view s) (Suc k) = 0" "islot ?e (view s) (Suc k) = 0"
    using ia k d(2) [of "Suc k"] by (simp_all add: islot_def NSLOTS_def)
  have "img_ok ?s" "ie_indirect (?E i0) \<noteq> 0" using inv(1) f0 by simp_all
  note ind = append_indirect [OF this(1) d(1) i0 k this(2)]
  have "islot (?E i0) (view ?s) (Suc k) = 0 \<longrightarrow> unat (freeblock ?s) < FSSIZE" using room S by simp
  from ind [OF this] obtain x e1 s1 where
    t0: "append_block k (?E i0) ?s = Some (x, e1, s1)" "allocd i0 m ?E ?s e1 s1"
      "unat (freeblock s1) = unat (freeblock ?s) + (if islot (?E i0) (view ?s) (Suc k) = 0 then 1 else 0)"
      "x = islot e1 (view s1) (fslot k)" "\<forall>j<NSLOTS. islot e1 (view s1) j \<noteq> 0 \<longleftrightarrow> j = Suc k \<or> islot (?E i0) (view ?s) j \<noteq> 0"
    by blast
  have t: "append_block k (?E i0) ?s = Some (islot e1 (view s1) (fslot k), e1, s1)" "allocd i0 m ?E ?s e1 s1"
      "unat (freeblock s1) = ?f + 2" "\<forall>j<NSLOTS. islot e1 (view s1) j \<noteq> 0 \<longleftrightarrow> j = Suc k \<or> islot ?e (view s) j \<noteq> 0"
    using t0(1) t0(4) t0(2) t0(3,5) S z(2) by (simp_all del: fun_upd_apply add: fun_upd_same)
  have "allocd i0 m E s e1 s1"
    unfolding allocd_def
  proof (intro conjI)
    show "\<forall>j<NSLOTS. islot (E i0) (view s) j \<noteq> 0 \<longrightarrow> islot e1 (view s1) j = islot (E i0) (view s) j"
      using t(2) d(2) f0 ia by (auto simp: allocd_def islot_def split: if_splits)
    show "same_inode (E i0) e1" using t(2) by (simp add: allocd_def same_inode_def)
  qed (use t(2) in \<open>auto simp: allocd_def\<close>)
  then show ?thesis
    using n t(1,3,4) d(2) f0 by (intro exI conjI) (auto split: if_splits)
qed

section \<open>One round of the loop\<close>

definition new_blocks :: "nat \<Rightarrow> nat" where
  "new_blocks n = (if n mod 512 = 0 then 1 else 0) + (if n = 6144 then 1 else 0)"

lemma le_div_iff_lt: "b \<le> n div 512 \<longleftrightarrow> b = n div 512 \<or> b * 512 < (n :: nat)"
proof -
  have "n div 512 * 512 + n mod 512 = n" "n mod 512 < 512" by simp_all
  then show ?thesis by linarith
qed

lemma div_mult_lt_iff: "n div 512 * 512 < n \<longleftrightarrow> n mod 512 \<noteq> (0 :: nat)"
proof -
  have "n div 512 * 512 + n mod 512 = n" by simp
  then show ?thesis by linarith
qed

lemma append_block_spec:
  assumes inv: "img_ok s" "blocks_inv E (view s) m (unat (freeblock s))" and i0: "1 \<le> i0" "i0 < m"
    and ex: "exact (E i0) (view s) n" and n: "n < INODE_MAX_BYTES" and room: "unat (freeblock s) + new_blocks n \<le> FSSIZE"
  shows "\<exists>x e1 s1. append_block (n div 512) (E i0) s = Some (x, e1, s1) \<and> allocd i0 m E s e1 s1
     \<and> unat (freeblock s1) = unat (freeblock s) + new_blocks n
     \<and> x = islot e1 (view s1) (fslot (n div 512))
     \<and> (\<forall>j<NSLOTS. islot e1 (view s1) j \<noteq> 0 \<longleftrightarrow> slot_block j \<le> n div 512)"
proof -
  define k r where "k = n div 512" and r: "r = n mod 512"
  note k_def = \<open>k = n div 512\<close>
  have k: "k < 140" using n by (simp add: fs_sizes k_def)
  have sl: "islot (E i0) (view s) j \<noteq> 0 \<longleftrightarrow> slot_block j * 512 < n" if "j < NSLOTS" for j
    using ex that by (simp add: exact_def fs_sizes)
  have le: "slot_block j \<le> k \<longleftrightarrow> slot_block j = k \<or> slot_block j * 512 < n" for j
    unfolding k_def by (rule le_div_iff_lt)
  have nz: "k * 512 < n \<longleftrightarrow> r \<noteq> 0" unfolding k_def r by (rule div_mult_lt_iff)
  have n12: "12 \<le> k \<longleftrightarrow> 6144 \<le> n" unfolding k_def by (simp add: less_eq_div_iff_mult_less_eq)
  have nbd: "new_blocks n = (if r = 0 then 1 else 0) + (if n = 6144 then 1 else 0)" by (simp add: new_blocks_def r)
  consider "k < 12" | "12 \<le> k" "ie_indirect (E i0) \<noteq> 0" | "12 \<le> k" "ie_indirect (E i0) = 0" by linarith
  then show ?thesis
  proof cases
    case 1
    then have s: "islot (E i0) (view s) k = ie_addrs (E i0) ! k" "slot_block k = k" "k < NSLOTS"
      by (simp_all add: islot_def slot_block_def NSLOTS_def)
    have z: "ie_addrs (E i0) ! k = 0 \<longleftrightarrow> r = 0" using sl [OF s(3)] s nz by auto
    have nb: "new_blocks n = (if ie_addrs (E i0) ! k = 0 then 1 else 0)" using z n12 1 by (simp add: nbd)
    have bj: "j = k \<longleftrightarrow> slot_block j = k" for j using 1 by (auto simp: slot_block_def)
    have "ie_addrs (E i0) ! k = 0 \<longrightarrow> unat (freeblock s) < FSSIZE" using room nb by auto
    from append_direct [OF inv i0 1 this] obtain x e1 s1 where
      t: "append_block k (E i0) s = Some (x, e1, s1)" "allocd i0 m E s e1 s1" "x = islot e1 (view s1) (fslot k)"
        "unat (freeblock s1) = unat (freeblock s) + (if ie_addrs (E i0) ! k = 0 then 1 else 0)"
        "\<forall>j<NSLOTS. islot e1 (view s1) j \<noteq> 0 \<longleftrightarrow> j = k \<or> islot (E i0) (view s) j \<noteq> 0" by blast
    have "\<forall>j<NSLOTS. islot e1 (view s1) j \<noteq> 0 \<longleftrightarrow> slot_block j \<le> k" using t(5) sl bj le by blast
    then show ?thesis using t unfolding nb k_def [symmetric] by blast
  next
    case 2
    then have s: "slot_block (Suc k) = k" "Suc k < NSLOTS" using k by (simp_all add: slot_block_def NSLOTS_def)
    have z: "islot (E i0) (view s) (Suc k) = 0 \<longleftrightarrow> r = 0" using sl [OF s(2)] s nz by auto
    have "6144 < n" using sl [of 12] 2 by (simp add: islot_def slot_block_def NSLOTS_def)
    then have nb: "new_blocks n = (if islot (E i0) (view s) (Suc k) = 0 then 1 else 0)" using z by (simp add: nbd)
    have bj: "slot_block j = k \<Longrightarrow> j = Suc k \<or> slot_block j * 512 < n" for j
      using 2 \<open>6144 < n\<close> by (auto simp: slot_block_def split: if_splits)
    have "islot (E i0) (view s) (Suc k) = 0 \<longrightarrow> unat (freeblock s) < FSSIZE" using room nb by auto
    from append_indirect [OF inv i0 2(1) k 2(2) this] obtain x e1 s1 where
      t: "append_block k (E i0) s = Some (x, e1, s1)" "allocd i0 m E s e1 s1" "x = islot e1 (view s1) (fslot k)"
        "unat (freeblock s1) = unat (freeblock s) + (if islot (E i0) (view s) (Suc k) = 0 then 1 else 0)"
        "\<forall>j<NSLOTS. islot e1 (view s1) j \<noteq> 0 \<longleftrightarrow> j = Suc k \<or> islot (E i0) (view s) j \<noteq> 0" by blast
    have "\<forall>j<NSLOTS. islot e1 (view s1) j \<noteq> 0 \<longleftrightarrow> slot_block j \<le> k" using t(5) sl bj le s(1) by metis
    then show ?thesis using t unfolding nb k_def [symmetric] by blast
  next
    case 3
    have "\<not> 6144 < n" using sl [of 12] 3 by (simp add: islot_def slot_block_def NSLOTS_def)
    moreover have "12 * 512 \<le> n" using 3(1) n12 by simp
    ultimately have n6: "n = 6144" by simp
    then have nb: "new_blocks n = 2" by (simp add: new_blocks_def)
    have k12: "k = 12" using n6 by (simp add: k_def)
    have bj: "j = 12 \<or> j = Suc k \<longleftrightarrow> slot_block j = k" for j using k12 by (auto simp: slot_block_def)
    have "unat (freeblock s) + 2 \<le> FSSIZE" using room nb by simp
    from append_new_indirect [OF inv i0 3(1) k 3(2) this] obtain x e1 s1 where
      t: "append_block k (E i0) s = Some (x, e1, s1)" "allocd i0 m E s e1 s1" "x = islot e1 (view s1) (fslot k)"
        "unat (freeblock s1) = unat (freeblock s) + 2"
        "\<forall>j<NSLOTS. islot e1 (view s1) j \<noteq> 0 \<longleftrightarrow> j = 12 \<or> j = Suc k \<or> islot (E i0) (view s) j \<noteq> 0" by blast
    have "\<forall>j<NSLOTS. islot e1 (view s1) j \<noteq> 0 \<longleftrightarrow> slot_block j \<le> k" using t(5) sl bj le by metis
    then show ?thesis using t unfolding nb k_def [symmetric] by blast
  qed
qed


text \<open>What the rest of the image keeps while one file grows.\<close>

definition keeps_rest :: "nat \<Rightarrow> nat \<Rightarrow> (nat \<Rightarrow> InodeEntry) \<Rightarrow> (usize \<Rightarrow> u8 list) \<Rightarrow> (usize \<Rightarrow> u8 list) \<Rightarrow> bool" where
  "keeps_rest i0 m E V V' \<longleftrightarrow> (\<forall>n. unat n < nmeta \<longrightarrow> V' n = V n)
     \<and> (\<forall>i j. 1 \<le> i \<and> i < m \<and> i \<noteq> i0 \<and> j < NSLOTS \<longrightarrow> islot (E i) V' j = islot (E i) V j
          \<and> (islot (E i) V j \<noteq> 0 \<and> j \<noteq> 12 \<longrightarrow> V' (ucast (islot (E i) V j)) = V (ucast (islot (E i) V j))))"

lemma keeps_rest_refl: "keeps_rest i0 m E V V"
  by (simp add: keeps_rest_def)

lemma keeps_rest_trans: "keeps_rest i0 m E V V1 \<Longrightarrow> keeps_rest i0 m E V1 V2 \<Longrightarrow> keeps_rest i0 m E V V2"
  by (simp add: keeps_rest_def)

lemma keeps_rest_file:
  assumes k: "keeps_rest i0 m E V V'" and i: "1 \<le> i" "i < m" "i \<noteq> i0" and ex: "exact (E i) V n"
  shows "exact (E i) V' n" "content (E i) V' n = content (E i) V n"
proof -
  have s: "islot (E i) V' j = islot (E i) V j" if "j < NSLOTS" for j using k i that by (simp add: keeps_rest_def)
  then show ex': "exact (E i) V' n" using ex by (simp add: exact_def)
  have "file_byte (E i) V' o' = file_byte (E i) V o'" if "o' < n" for o'
    using exact_slot [OF ex that] exact_slot [OF ex' that] k i by (simp add: keeps_rest_def)
  then show "content (E i) V' n = content (E i) V n" by (simp add: content_def)
qed

lemma allocd_block:
  assumes a: "allocd i0 m (E(i0 := e)) s e1 s1" and i: "1 \<le> i0" "i0 < m" "1 \<le> i" "i < m" "j < NSLOTS" "(i, j) \<noteq> (i0, 12)"
    and nz: "islot ((E(i0 := e1)) i) (view s1) j \<noteq> 0"
  shows "view s1 (ucast (islot ((E(i0 := e1)) i) (view s1) j)) = view s (ucast (islot ((E(i0 := e1)) i) (view s1) j))"
proof -
  let ?E = "E(i0 := e1)"
  have inv: "blocks_inv ?E (view s1) m (unat (freeblock s1))" using a by (simp add: allocd_def)
  have x: "islot (?E i0) (view s1) 12 = ie_indirect e1" by (simp add: islot_def)
  have "(12 :: nat) < NSLOTS" by (simp add: NSLOTS_def)
  from slot_inj [OF inv i(3-5) i(1,2) this nz] i(6) have "islot (?E i) (view s1) j \<noteq> ie_indirect e1"
    unfolding x by blast
  then have "ucast (islot (?E i) (view s1) j) \<noteq> (ucast (ie_indirect e1) :: usize)" by (simp only: ucast_u32_inj not_False_eq_True)
  then show ?thesis using a unfolding allocd_def by blast
qed

lemma round_bytes:
  assumes ex: "exact e V n" and ex2: "exact e1 V2 (n + length c)" and kr: "k * 512 + r = n" "r < 512" "r + length c \<le> 512"
    and sl: "\<And>j. islot e1 V2 j = islot e1 V1 j"
    and old: "\<And>j. j < NSLOTS \<Longrightarrow> islot e V j \<noteq> 0 \<Longrightarrow> islot e1 V1 j = islot e V j"
    and dat: "\<And>i. i < 140 \<Longrightarrow> islot e1 V1 (fslot i) \<noteq> 0 \<Longrightarrow> V1 (ucast (islot e1 V1 (fslot i))) = V (ucast (islot e1 V1 (fslot i)))"
    and V2: "V2 = V1(ucast x := put_bytes r c (V1 (ucast x)))" and x: "x = islot e1 V1 (fslot k)" and len: "length (V1 (ucast x)) = 512"
    and ne: "\<And>i. i < 140 \<Longrightarrow> i \<noteq> k \<Longrightarrow> islot e1 V1 (fslot i) \<noteq> x"
  shows "content e1 V2 (n + length c) = content e V n @ c"
proof -
  have "file_byte e1 V2 o' = (if o' < n then file_byte e V o' else c ! (o' - n))" if o': "o' < n + length c" for o'
  proof -
    obtain i q where iq: "i = o' div BLOCK_SIZE" "q = o' mod BLOCK_SIZE" by blast
    then have iq2: "i * 512 + q = o'" "q < 512" by (simp_all add: fs_sizes)
    note e2 = exact_slot [OF ex2 o', folded iq, unfolded sl]
    have V: "file_byte e V o' = V1 (ucast (islot e1 V1 (fslot i))) ! q" if "o' < n"
      using exact_slot [OF ex that, folded iq] old [of "fslot i"] dat [OF e2(1,2)] e2(1) by simp
    show ?thesis
    proof (cases "i = k")
      case True
      have "o' < n \<longleftrightarrow> q < r" "q < r + length c" "q - r = o' - n" using True kr(1) iq2(1) o' by auto
      moreover have "V2 (ucast x) ! q = (if r \<le> q \<and> q < r + length c then c ! (q - r) else V1 (ucast x) ! q)"
        using nth_put_bytes [of r c "V1 (ucast x)" q] kr(3) len iq2(2) by (simp add: V2)
      ultimately show ?thesis using True e2(3) x V by auto
    next
      case False
      have "i * 512 + q < k * 512 + 512" using iq2(1) o' kr(1,3) by linarith
      then have "i < k" using False by linarith
      then have "i * 512 + 512 \<le> k * 512" by linarith
      then have "o' < n" using iq2 kr(1) by linarith
      then show ?thesis using e2(3) V ne [OF e2(1) False] by (simp add: V2 ucast_u32_inj)
    qed
  qed
  then show ?thesis by (intro nth_equalityI) (auto simp: content_def nth_append)
qed

lemma round_keeps:
  assumes a: "allocd i0 m (E(i0 := e)) s e1 s1" and i0: "1 \<le> i0" "i0 < m"
    and j0: "j0 < NSLOTS" "j0 \<noteq> 12" "islot e1 (view s1) j0 \<noteq> 0"
  shows "keeps_rest i0 m E (view s) ((view s1)(ucast (islot e1 (view s1) j0) := d))"
proof -
  let ?E = "E(i0 := e1)" and ?x = "islot e1 (view s1) j0"
  let ?V = "(view s1)(ucast ?x := d)"
  have inv: "blocks_inv ?E (view s1) m (unat (freeblock s1))" using a by (simp add: allocd_def)
  have jx: "islot (?E i0) (view s1) j0 \<noteq> 0" using j0(3) by simp
  show ?thesis
    unfolding keeps_rest_def
  proof (intro conjI allI impI)
    fix b :: usize assume bn: "unat b < nmeta"
    have "islot (?E i0) (view s1) 12 = ie_indirect e1" by (simp add: islot_def)
    then have "ie_indirect e1 = 0 \<or> nmeta \<le> unat (ie_indirect e1)"
      using slot_range(1) [OF inv i0, of 12] by (auto simp: NSLOTS_def)
    then have "b \<noteq> ucast (ie_indirect e1) \<or> ie_indirect e1 = 0" using bn by auto
    then have "view s1 b = view s b" using a unfolding allocd_def by blast
    moreover have "b \<noteq> ucast ?x" using bn slot_range(1) [OF inv i0 j0(1) jx] by auto
    ultimately show "?V b = view s b" by simp
  next
    fix i j assume "1 \<le> i \<and> i < m \<and> i \<noteq> i0 \<and> j < NSLOTS"
    then have i: "1 \<le> i" "i < m" "i \<noteq> i0" "j < NSLOTS" by auto
    have s1: "islot (?E i) (view s1) j = islot (E i) (view s) j" using a i by (simp add: allocd_def)
    have "islot (?E i) ((view s1)(ucast (islot (?E i0) (view s1) j0) := d)) j = islot (?E i) (view s1) j"
      by (rule write_data(2) [OF inv i0 j0(1,2) jx i(1,2)])
    then show "islot (E i) ?V j = islot (E i) (view s) j" using s1 i(3) by simp
    assume "islot (E i) (view s) j \<noteq> 0 \<and> j \<noteq> 12"
    then have nz: "islot (?E i) (view s1) j \<noteq> 0" using s1 by simp
    have "(i, j) \<noteq> (i0, 12)" using i(3) by simp
    from allocd_block [OF a i0 i(1,2,4) this nz]
    have "view s1 (ucast (islot (E i) (view s) j)) = view s (ucast (islot (E i) (view s) j))" unfolding s1 .
    moreover have "islot (E i) (view s) j \<noteq> ?x"
      using slot_inj [OF inv i(1,2,4) i0 j0(1) nz] s1 i(3) by auto
    ultimately show "?V (ucast (islot (E i) (view s) j)) = view s (ucast (islot (E i) (view s) j))"
      by (simp add: ucast_u32_inj)
  qed
qed

definition append_state :: "nat \<Rightarrow> nat \<Rightarrow> (nat \<Rightarrow> InodeEntry) \<Rightarrow> InodeEntry \<Rightarrow> nat \<Rightarrow> mkst \<Rightarrow> bool" where
  "append_state i0 m E e n s \<longleftrightarrow> img_ok s \<and> blocks_inv (E(i0 := e)) (view s) m (unat (freeblock s)) \<and> exact e (view s) n"

lemma append_round:
  assumes st: "append_state i0 m E e n s" and i0: "1 \<le> i0" "i0 < m"
    and n: "n < INODE_MAX_BYTES" and room: "unat (freeblock s) + new_blocks n \<le> FSSIZE"
    and c: "c \<noteq> []" "n mod 512 + length c \<le> 512"
  obtains x e1 s1 buf s2 where "append_block (n div 512) e s = Some (x, e1, s1)" "rsect x s1 = Some buf"
    "s2 = wsect x (put_bytes (n mod 512) c buf) s1" "append_state i0 m E e1 (n + length c) s2" "freeinode s2 = freeinode s"
    "unat (freeblock s2) = unat (freeblock s) + new_blocks n"
    "content e1 (view s2) (n + length c) = content e (view s) n @ c" "keeps_rest i0 m E (view s) (view s2)" "same_inode e e1"
proof -
  have inv: "img_ok s" "blocks_inv (E(i0 := e)) (view s) m (unat (freeblock s))" and ex: "exact e (view s) n"
    using st by (simp_all add: append_state_def)
  obtain k r where kr: "k = n div 512" "r = n mod 512" by blast
  have krn: "k * 512 + r = n" "r < 512" "r + length c \<le> 512" using c(2) by (simp_all add: kr)
  have "exact ((E(i0 := e)) i0) (view s) n" using ex by simp
  from append_block_spec [OF inv i0 this n room, unfolded fun_upd_same] obtain x e1 s1 where
    a: "append_block k e s = Some (x, e1, s1)" "allocd i0 m (E(i0 := e)) s e1 s1"
      "unat (freeblock s1) = unat (freeblock s) + new_blocks n" "x = islot e1 (view s1) (fslot k)"
      "\<forall>j<NSLOTS. islot e1 (view s1) j \<noteq> 0 \<longleftrightarrow> slot_block j \<le> k"
    unfolding kr by blast
  have k: "k < 140" using n by (simp add: kr fs_sizes)
  let ?E = "E(i0 := e1)" let ?buf = "view s1 (ucast x)" let ?d = "put_bytes r c ?buf" let ?s = "wsect x ?d s1"
  have ok: "img_ok s1" and inv1: "blocks_inv ?E (view s1) m (unat (freeblock s1))" and fi: "freeinode s1 = freeinode s"
    using a(2) by (simp_all add: allocd_def)
  have jx: "fslot k < NSLOTS" "fslot k \<noteq> 12" "islot (?E i0) (view s1) (fslot k) \<noteq> 0" using a(5) k by simp_all
  have x: "unat x < FSSIZE" "x = islot (?E i0) (view s1) (fslot k)"
    using slot_range [OF inv1 i0 jx(1,3)] a(4) by simp_all
  have rb: "rsect x s1 = Some ?buf" and lb: "length ?buf = 512"
    using rsect_eq [OF ok x(1)] view_length [OF ok, of "ucast x"] x(1) by (simp_all add: fs_sizes)
  have "length ?d = BLOCK_SIZE" using krn(3) lb by (simp add: fs_sizes)
  note w = wsect_eq [OF ok x(1) this]
  note wd = write_data [OF inv1 i0 jx, where d = ?d, folded x(2), folded w(2)]
  have sl: "islot e1 (view ?s) j = islot e1 (view s1) j" for j using wd(2) [OF i0] by simp
  have ex2: "exact e1 (view ?s) (n + length c)"
  proof -
    have lc: "0 < length c" using c(1) by simp
    have "b \<le> k \<longleftrightarrow> b * 512 < n + length c" for b
    proof
      assume "b \<le> k" then show "b * 512 < n + length c" using krn(1) lc by linarith
    next
      assume "b * 512 < n + length c" then show "b \<le> k" using krn(1,3) by linarith
    qed
    moreover have "n + length c \<le> 71680" using krn(1,3) k by linarith
    ultimately show ?thesis using a(5) sl by (simp add: exact_def fs_sizes)
  qed
  have co: "content e1 (view ?s) (n + length c) = content e (view s) n @ c"
  proof (rule round_bytes [OF ex ex2 krn sl _ _ w(2) a(4) lb])
    show "islot e1 (view s1) j = islot e (view s) j" if "j < NSLOTS" "islot e (view s) j \<noteq> 0" for j
      using a(2) that by (simp add: allocd_def)
    show "view s1 (ucast (islot e1 (view s1) (fslot i))) = view s (ucast (islot e1 (view s1) (fslot i)))"
      if "i < 140" "islot e1 (view s1) (fslot i) \<noteq> 0" for i
      using allocd_block [OF a(2) i0 i0, of "fslot i"] that by simp
    show "islot e1 (view s1) (fslot i) \<noteq> x" if "i < 140" "i \<noteq> k" for i
    proof -
      have "fslot k \<noteq> fslot i" using that(2) by (metis fslot_simps(1))
      then show ?thesis using slot_inj [OF inv1 i0 jx(1) i0 _ jx(3), of "fslot i"] a(4) that by auto
    qed
  qed
  have kp: "keeps_rest i0 m E (view s) (view ?s)"
  proof -
    have "islot e1 (view s1) (fslot k) \<noteq> 0" using jx(3) by simp
    note rk = round_keeps [OF a(2) i0 jx(1,2) this, where d = ?d, folded a(4)]
    show ?thesis unfolding w(2) by (rule rk)
  qed
  have eq: "same_inode e e1"
    using a(2) unfolding allocd_def fun_upd_same by blast
  have "append_state i0 m E e1 (n + length c) ?s"
    unfolding append_state_def w(4) using w(1) wd(1) ex2 by blast
  then show ?thesis
    using that [OF a(1) [unfolded kr(1)] rb refl] w(3,4) fi a(3) co kp eq unfolding kr(2) by simp
qed

section \<open>The loop\<close>

lemma blocks_of_step:
  assumes "c \<noteq> 0" "n mod 512 + c \<le> 512"
  shows "blocks_of (n + c) = blocks_of n + new_blocks n"
proof -
  obtain k r where kr: "n = k * 512 + r" "r < 512" "n mod 512 = r"
    by (metis div_mult_mod_eq mod_less_divisor zero_less_numeral)
  have c: "0 < c" "r + c \<le> 512" using assms kr(3) by auto
  have "(n + c + 511) div 512 = k + 1"
    by (rule div_nat_eqI) (use kr(1) c in auto)
  moreover have "(n + 511) div 512 = k + (if r = 0 then 0 else 1)"
    by (rule div_nat_eqI) (use kr(1,2) in auto)
  moreover have "6144 < n + c \<longleftrightarrow> 6144 < n \<or> n = 6144"
  proof -
    have "6144 < n + c \<longleftrightarrow> 12 \<le> k" using kr(1) c by auto
    moreover have "6144 \<le> n \<longleftrightarrow> 12 \<le> k" using kr(1,2) by auto
    ultimately show ?thesis by auto
  qed
  ultimately show ?thesis by (auto simp: blocks_of_def new_blocks_def kr(3))
qed

lemma blocks_of_mono: "m \<le> n \<Longrightarrow> blocks_of m \<le> blocks_of n"
  using div_le_mono [of "m + 511" "n + 511" 512] by (auto simp: blocks_of_def)

lemma iappend_loop_spec:
  assumes "append_state i0 m E e (unat off) s" "1 \<le> i0" "i0 < m" "unat off + length p \<le> INODE_MAX_BYTES"
    and "unat (freeblock s) + blocks_of (unat off + length p) \<le> FSSIZE + blocks_of (unat off)"
  shows "\<exists>off' e' s'. iappend_loop p off e s = Some (off', e', s') \<and> unat off' = unat off + length p
     \<and> append_state i0 m E e' (unat off') s' \<and> freeinode s' = freeinode s
     \<and> unat (freeblock s') + blocks_of (unat off) = unat (freeblock s) + blocks_of (unat off')
     \<and> content e' (view s') (unat off') = content e (view s) (unat off) @ p
     \<and> keeps_rest i0 m E (view s) (view s') \<and> same_inode e e'"
  using assms
proof (induction p off e s rule: iappend_loop.induct)
  case (1 p off e s)
  show ?case
  proof (cases "p = []")
    case True
    with 1 show ?thesis by (simp add: iappend_loop.simps [of "[]"] keeps_rest_refl)
  next
    case False
    let ?n = "unat off" let ?c = "append_chunk off (length p)" let ?c' = "take ?c p"
    have B: "(of_nat BLOCK_SIZE :: u32) = 512" by (simp add: fs_sizes)
    have dv: "unat (off div of_nat BLOCK_SIZE) = ?n div 512" by (simp add: unat_div fs_sizes)
    have md: "unat (off - off div of_nat BLOCK_SIZE * of_nat BLOCK_SIZE) = ?n mod 512"
      unfolding block_offset by (simp add: unat_mod fs_sizes)
    have c: "0 < ?c" "?c \<le> length p" "?n mod 512 + ?c \<le> 512"
      using append_chunk_bounds [where off = off and n = "length p"] False by (simp_all add: append_chunk_eq fs_sizes)
    have lc: "length ?c' = ?c" "?c' \<noteq> []" using c(1,2) False by auto
    have n: "?n < INODE_MAX_BYTES" using 1(5) c(1,2) by simp
    have st: "blocks_of (?n + ?c) = blocks_of ?n + new_blocks ?n" using c by (intro blocks_of_step) auto
    have mono: "blocks_of (?n + ?c) \<le> blocks_of (?n + length p)" using c(2) by (intro blocks_of_mono) simp
    have room: "unat (freeblock s) + new_blocks ?n \<le> FSSIZE" using 1(6) st mono by linarith
    have c2: "?n mod 512 + length ?c' \<le> 512" using c(3) lc(1) by simp
    obtain x e1 s1 buf s2 where r: "append_block (?n div 512) e s = Some (x, e1, s1)" "rsect x s1 = Some buf"
        "s2 = wsect x (put_bytes (?n mod 512) ?c' buf) s1" "append_state i0 m E e1 (?n + ?c) s2" "freeinode s2 = freeinode s"
        "unat (freeblock s2) = unat (freeblock s) + new_blocks ?n"
        "content e1 (view s2) (?n + ?c) = content e (view s) ?n @ ?c'" "keeps_rest i0 m E (view s) (view s2)" "same_inode e e1"
      using append_round [OF 1(2-4) n room lc(2) c2] unfolding lc(1) by metis
    have off: "unat (off + of_nat ?c) = ?n + ?c"
    proof -
      have "?n + ?c \<le> 71680" using 1(5) c(2) by (simp add: fs_sizes)
      then show ?thesis by (simp add: unat_word_ariths unat_of_nat)
    qed
    have max: "?n div 512 < INODE_MAX_BLOCKS" using n by (simp add: fs_sizes)
    have l: "iappend_loop p off e s = iappend_loop (drop ?c p) (off + of_nat ?c) e1 s2"
      using False max r(1-3) by (simp add: iappend_loop.simps [of p] dv md Let_def)
    have "\<exists>off' e' s'. iappend_loop (drop ?c p) (off + of_nat ?c) e1 s2 = Some (off', e', s')
       \<and> unat off' = unat (off + of_nat ?c) + length (drop ?c p)
       \<and> append_state i0 m E e' (unat off') s' \<and> freeinode s' = freeinode s2
       \<and> unat (freeblock s') + blocks_of (unat (off + of_nat ?c)) = unat (freeblock s2) + blocks_of (unat off')
       \<and> content e' (view s') (unat off') = content e1 (view s2) (unat (off + of_nat ?c)) @ drop ?c p
       \<and> keeps_rest i0 m E (view s2) (view s') \<and> same_inode e1 e'"
    proof (rule 1(1) [OF False refl])
      show "ASSERT (unat (off div of_nat BLOCK_SIZE) < INODE_MAX_BLOCKS) = Some ()" using max by (simp add: dv)
      show "append_block (unat (off div of_nat BLOCK_SIZE)) e s = Some (x, (e1, s1))" using r(1) by (simp add: dv)
      show "rsect x s1 = Some buf" by (rule r(2))
      show "s2 = wsect x (put_bytes (unat (off - off div of_nat BLOCK_SIZE * of_nat BLOCK_SIZE)) (take ?c p) buf) s1"
        using r(3) by (simp add: md)
      show "append_state i0 m E e1 (unat (off + of_nat ?c)) s2" using r(4) by (simp add: off)
      show "unat (off + of_nat ?c) + length (drop ?c p) \<le> INODE_MAX_BYTES" using 1(5) c(2) by (simp add: off)
      show "unat (freeblock s2) + blocks_of (unat (off + of_nat ?c) + length (drop ?c p)) \<le> FSSIZE + blocks_of (unat (off + of_nat ?c))"
        using 1(6) c(2) st r(6) by (simp add: off)
    qed (use 1(3,4) in auto)
    then obtain off' e' s' where t: "iappend_loop (drop ?c p) (off + of_nat ?c) e1 s2 = Some (off', e', s')"
        "unat off' = ?n + ?c + length (drop ?c p)" "append_state i0 m E e' (unat off') s'" "freeinode s' = freeinode s2"
        "unat (freeblock s') + blocks_of (?n + ?c) = unat (freeblock s2) + blocks_of (unat off')"
        "content e' (view s') (unat off') = content e1 (view s2) (?n + ?c) @ drop ?c p"
        "keeps_rest i0 m E (view s2) (view s')" "same_inode e1 e'"
      unfolding off by blast
    show ?thesis
      unfolding l
      by (intro exI conjI, rule t(1))
        (use t(2-6) c(2) r(5-7) st keeps_rest_trans [OF r(8) t(7)] same_inode_trans [OF r(9) t(8)] in simp_all)
  qed
qed

end
