(* ===== verification/Mkfs_Image.thy ===== *)
theory Mkfs_Image
  imports Mkfs_Files
begin

text \<open>
  The image as a file system: inodes and their files under \<open>ialloc\<close> and \<open>iappend\<close>, and what
  \<open>mkfs\<close> leaves for the kernel.
\<close>

section \<open>Inodes of the image\<close>

definition disk_entry :: "mkst \<Rightarrow> nat \<Rightarrow> InodeEntry" where
  "disk_entry s i = dinode mk_sb (view s) (of_nat i)"

definition file_of :: "mkst \<Rightarrow> nat \<Rightarrow> u8 list" where
  "file_of s i = content (disk_entry s i) (view s) (unat (ie_num_bytes (disk_entry s i)))"

definition mk_inv :: "mkst \<Rightarrow> bool" where
  "mk_inv s \<longleftrightarrow> img_ok s \<and> 1 \<le> unat (freeinode s) \<and> unat (freeinode s) \<le> NINODES
     \<and> blocks_inv (disk_entry s) (view s) (unat (freeinode s)) (unat (freeblock s))
     \<and> (\<forall>i. 1 \<le> i \<and> i < unat (freeinode s) \<longrightarrow> exact (disk_entry s i) (view s) (unat (ie_num_bytes (disk_entry s i))))"

text \<open>The blocks that hold neither inodes nor data.\<close>

definition fixed_block :: "usize \<Rightarrow> bool" where
  "fixed_block b \<longleftrightarrow> unat b < 65 \<or> (91 \<le> unat b \<and> unat b < nmeta)"

lemma disk_entry_addrs [simp]: "length (ie_addrs (disk_entry s i)) = INODE_NUM_DIRECT"
  by (simp add: disk_entry_def dinode_def)

lemma length_file_of [simp]: "length (file_of s i) = unat (ie_num_bytes (disk_entry s i))"
  by (simp add: file_of_def content_def)

lemma nmeta_eq: "nmeta = 92"
  by (simp add: mkfs_layout fs_sizes)

lemma ucast_of_nat: "unat inum < NINODES \<Longrightarrow> (ucast inum :: usize) = of_nat (unat inum)"
  by (simp add: word_unat_eq_iff unat_of_nat NINODES_def)

lemma to_block_mk:
  assumes "i < NINODES" shows "unat (to_block_no mk_sb (of_nat i)) = 65 + i div 8"
proof -
  have i: "i < 200" using assms by (simp add: NINODES_def)
  then have "i div 8 < 26" by simp
  moreover have "unat (of_nat i div 8 :: usize) = i div 8" using i by (simp add: unat_div unat_of_nat)
  ultimately have "unat (65 + of_nat i div 8 :: usize) = 65 + i div 8" by (subst unat_word_ariths) simp
  then show ?thesis by (simp add: to_block_no_def mk_sb_def mkfs_layout fs_sizes)
qed

lemma iblock:
  assumes "unat inum < NINODES"
  shows "ucast (IBLOCK inum) = to_block_no mk_sb (of_nat (unat inum))" "unat (IBLOCK inum) = 65 + unat inum div 8"
proof -
  have "unat inum < 200" using assms by (simp add: NINODES_def)
  then have "unat inum div 8 < 26" by simp
  moreover have "unat (inum div 8) = unat inum div 8" by (simp add: unat_div)
  ultimately have "unat (inum div 8 + 65) = unat inum div 8 + 65" by (subst unat_word_ariths) simp
  then show i: "unat (IBLOCK inum) = 65 + unat inum div 8"
    by (simp add: IBLOCK_def mk_sb_def mkfs_layout fs_sizes)
  show "ucast (IBLOCK inum) = to_block_no mk_sb (of_nat (unat inum))"
    using i to_block_mk [OF assms] by (metis unat_ucast_u32 word_unat_eq_iff)
qed

lemma iblock_bounds:
  assumes "unat inum < NINODES"
  shows "unat (IBLOCK inum) < 91" "65 \<le> unat (IBLOCK inum)" "unat (IBLOCK inum) < FSSIZE"
proof -
  have "unat inum < 200" using assms by (simp add: NINODES_def)
  then have "unat inum div 8 < 26" by simp
  then show "unat (IBLOCK inum) < 91" "65 \<le> unat (IBLOCK inum)" "unat (IBLOCK inum) < FSSIZE"
    unfolding iblock(2) [OF assms] FSSIZE_def by linarith+
qed

lemma rinode_eq:
  assumes "img_ok s" "unat inum < NINODES"
  shows "rinode inum s = Some (disk_entry s (unat inum))"
  unfolding rinode_def rsect_eq [OF assms(1) iblock_bounds(3) [OF assms(2)]] disk_entry_def dinode_def
    iblock(1) [OF assms(2)] ucast_of_nat [OF assms(2)] by simp

lemma winode_spec:
  assumes "img_ok s" "unat inum < NINODES" "length (ie_addrs e) = INODE_NUM_DIRECT"
  obtains s' d where "winode inum e s = Some s'" "img_ok s'" "freeinode s' = freeinode s" "freeblock s' = freeblock s"
    "view s' = (view s)(ucast (IBLOCK inum) := d)" "\<And>i. i < NINODES \<Longrightarrow> disk_entry s' i = (if i = unat inum then e else disk_entry s i)"
proof -
  let ?b = "IBLOCK inum"
  have un: "(of_nat (unat inum) :: usize) = ucast inum" using ucast_of_nat [OF assms(2)] by simp
  note ib = iblock [OF assms(2)] and bd = iblock_bounds [OF assms(2)]
  let ?d = "put_entry (ucast inum) e (view s (ucast ?b))"
  let ?s = "wsect ?b ?d s"
  have vl: "length (view s (ucast ?b)) = BLOCK_SIZE" using view_length [OF assms(1), of "ucast ?b"] bd by simp
  have bF: "unat ?b < FSSIZE" using bd by simp
  have ld: "length ?d = BLOCK_SIZE" by (rule length_put_entry [OF vl assms(3)])
  note w = wsect_eq [OF assms(1) bF ld]
  have wi: "winode inum e s = Some ?s" using bd by (simp add: winode_def rsect_eq [OF assms(1)])
  have en: "disk_entry ?s i = (if i = unat inum then e else disk_entry s i)" if "i < NINODES" for i
  proof -
    have "of_nat i = (ucast inum :: usize) \<longleftrightarrow> i = unat inum"
      using that assms(2) by (auto simp: word_unat_eq_iff unat_of_nat NINODES_def)
    moreover have "ucast ?b = to_block_no mk_sb (ucast inum)" using ib(1) un by simp
    ultimately show ?thesis
      using dinode_update [of "view s" mk_sb "ucast inum" e "of_nat i"] vl assms(3)
      unfolding disk_entry_def w(2) by simp
  qed
  show ?thesis by (rule that [OF wi w(1,3,4,2) en])
qed

lemma blocks_inv_entries:
  assumes inv: "blocks_inv E V m f" and s: "\<And>i j. 1 \<le> i \<Longrightarrow> i < m \<Longrightarrow> j < NSLOTS \<Longrightarrow> islot (E' i) V j = islot (E i) V j"
    and l: "\<And>i. length (ie_addrs (E' i)) = INODE_NUM_DIRECT"
  shows "blocks_inv E' V m f"
proof -
  have "used E' V m = used E V m" using s by (auto simp: used_def)
  moreover have "bij_betw (slotno E' V) (used E V m) {nmeta..<f} \<longleftrightarrow> bij_betw (slotno E V) (used E V m) {nmeta..<f}"
    by (rule bij_betw_cong) (use s in \<open>auto simp: used_def slotno_def\<close>)
  ultimately have "bij_betw (slotno E' V) (used E' V m) {nmeta..<f} \<longleftrightarrow> bij_betw (slotno E V) (used E V m) {nmeta..<f}"
    by simp
  then show ?thesis using inv l by (simp add: blocks_inv_def)
qed

lemma blocks_inv_new:
  assumes "blocks_inv E V m f" "\<And>j. j < NSLOTS \<Longrightarrow> islot (E m) V j = 0"
  shows "blocks_inv E V (Suc m) f"
proof -
  have "used E V (Suc m) = used E V m"
  proof
    show "used E V (Suc m) \<subseteq> used E V m"
    proof
      fix p assume "p \<in> used E V (Suc m)"
      then obtain i j where p: "p = (i, j)" "1 \<le> i" "i < Suc m" "j < NSLOTS" "islot (E i) V j \<noteq> 0"
        by (auto simp: used_def)
      then have "i \<noteq> m" using assms(2) by auto
      then show "p \<in> used E V m" using p by (simp add: used_def)
    qed
  qed (auto simp: used_def)
  then show ?thesis using assms(1) by (simp add: blocks_inv_def)
qed

text \<open>A file depends on its entry and on blocks behind the metadata.\<close>

lemma content_meta:
  assumes inv: "blocks_inv E V m f" and i: "1 \<le> i" "i < m" and ex: "exact (E i) V n" and b: "unat b < nmeta"
  shows "exact (E i) (V(b := d)) n" "content (E i) (V(b := d)) n = content (E i) V n"
proof -
  note s = write_meta(2) [OF inv b i]
  show ex': "exact (E i) (V(b := d)) n" using ex by (simp add: exact_def s)
  have "file_byte (E i) (V(b := d)) o' = file_byte (E i) V o'" if o': "o' < n" for o'
  proof -
    have nz: "islot (E i) V (fslot (o' div BLOCK_SIZE)) \<noteq> 0" "fslot (o' div BLOCK_SIZE) < NSLOTS"
      using exact_slot [OF ex o'] by simp_all
    have "b \<noteq> ucast (islot (E i) V (fslot (o' div BLOCK_SIZE)))"
      using slot_range(1) [OF inv i nz(2,1)] b by auto
    then show ?thesis using exact_slot(3) [OF ex o'] exact_slot(3) [OF ex' o'] by (simp add: s)
  qed
  then show "content (E i) (V(b := d)) n = content (E i) V n" by (simp add: content_def)
qed

lemma content_bytes_update: "content (e\<lparr>ie_num_bytes := x\<rparr>) V n = content e V n" "islot (e\<lparr>ie_num_bytes := x\<rparr>) V j = islot e V j"
proof -
  show "islot (e\<lparr>ie_num_bytes := x\<rparr>) V j = islot e V j" by (simp add: islot_def)
  have "file_byte (e\<lparr>ie_num_bytes := x\<rparr>) V = file_byte e V" by (simp add: file_byte_def fblock_def fun_eq_iff)
  then show "content (e\<lparr>ie_num_bytes := x\<rparr>) V n = content e V n" by (simp add: content_def)
qed

section \<open>Appending to a file\<close>

text \<open>The inodes below \<open>m\<close> but those of \<open>I\<close>, and the fixed blocks, are as they were.\<close>

definition mk_frame :: "nat \<Rightarrow> nat set \<Rightarrow> mkst \<Rightarrow> mkst \<Rightarrow> bool" where
  "mk_frame m I s s' \<longleftrightarrow>
     (\<forall>j. 1 \<le> j \<and> j < m \<and> j \<notin> I \<longrightarrow> disk_entry s' j = disk_entry s j \<and> file_of s' j = file_of s j)
     \<and> (\<forall>b. fixed_block b \<longrightarrow> view s' b = view s b)"

lemma mk_frame_trans:
  "mk_frame m I s s1 \<Longrightarrow> mk_frame m' J s1 s2 \<Longrightarrow> m \<le> m' \<Longrightarrow> I \<subseteq> K \<Longrightarrow> J \<inter> {..<m} \<subseteq> K \<Longrightarrow> mk_frame m K s s2"
  unfolding mk_frame_def by (smt (verit) IntI lessThan_iff order_less_le_trans subset_iff)

lemma mk_frame_refl: "mk_frame m I s s"
  by (simp add: mk_frame_def)

lemma iappend_spec:
  assumes inv: "mk_inv s" and i: "1 \<le> unat inum" "unat inum < unat (freeinode s)"
    and max: "length (file_of s (unat inum)) + length p \<le> INODE_MAX_BYTES"
    and room: "unat (freeblock s) + blocks_of (length (file_of s (unat inum)) + length p) \<le> FSSIZE + blocks_of (length (file_of s (unat inum)))"
  obtains s' where "iappend inum p s = Some s'" "mk_inv s'" "freeinode s' = freeinode s"
    "unat (freeblock s') + blocks_of (length (file_of s (unat inum))) = unat (freeblock s) + blocks_of (length (file_of s (unat inum)) + length p)"
    "file_of s' (unat inum) = file_of s (unat inum) @ p"
    "ie_type (disk_entry s' (unat inum)) = ie_type (disk_entry s (unat inum))"
    "mk_frame (unat (freeinode s)) {unat inum} s s'"
proof -
  let ?i = "unat inum" and ?m = "unat (freeinode s)" let ?E = "disk_entry s" let ?e = "?E ?i"
  let ?off = "ie_num_bytes ?e"
  have ok: "img_ok s" and m: "?m \<le> NINODES" and bi: "blocks_inv ?E (view s) ?m (unat (freeblock s))"
    and exs: "\<And>j. 1 \<le> j \<Longrightarrow> j < ?m \<Longrightarrow> exact (?E j) (view s) (unat (ie_num_bytes (?E j)))"
    using inv by (auto simp: mk_inv_def)
  have iN: "?i < NINODES" using i m by simp
  have st: "append_state ?i ?m ?E ?e (unat ?off) s"
    using ok bi exs [OF i] by (simp add: append_state_def)
  have mr: "unat ?off + length p \<le> INODE_MAX_BYTES"
    "unat (freeblock s) + blocks_of (unat ?off + length p) \<le> FSSIZE + blocks_of (unat ?off)"
    using max room by simp_all
  from iappend_loop_spec [OF st i mr] obtain off' e' s1 where
    l: "iappend_loop p ?off ?e s = Some (off', e', s1)" "unat off' = unat ?off + length p"
      "append_state ?i ?m ?E e' (unat off') s1" "freeinode s1 = freeinode s"
      "unat (freeblock s1) + blocks_of (unat ?off) = unat (freeblock s) + blocks_of (unat off')"
      "content e' (view s1) (unat off') = content ?e (view s) (unat ?off) @ p"
      "keeps_rest ?i ?m ?E (view s) (view s1)" "same_inode ?e e'" by blast
  let ?e2 = "e'\<lparr>ie_num_bytes := off'\<rparr>"
  have ok1: "img_ok s1" and bi1: "blocks_inv (?E(?i := e')) (view s1) ?m (unat (freeblock s1))" and ex1: "exact e' (view s1) (unat off')"
    using l(3) by (simp_all add: append_state_def)
  have "length (ie_addrs ((?E(?i := e')) ?i)) = INODE_NUM_DIRECT" using bi1 unfolding blocks_inv_def by blast
  then have le: "length (ie_addrs ?e2) = INODE_NUM_DIRECT" by simp
  obtain s' d where
    w: "winode inum ?e2 s1 = Some s'" "img_ok s'" "freeinode s' = freeinode s1" "freeblock s' = freeblock s1"
      "view s' = (view s1)(ucast (IBLOCK inum) := d)" "\<And>j. j < NINODES \<Longrightarrow> disk_entry s' j = (if j = ?i then ?e2 else disk_entry s1 j)"
    by (rule winode_spec [OF ok1 iN le]) (rule that)
  have bm: "unat (ucast (IBLOCK inum) :: usize) < nmeta" using iblock_bounds [OF iN] by (simp add: nmeta_eq)
  have en: "disk_entry s' j = (if j = ?i then ?e2 else ?E j)" if "j < NINODES" for j
  proof -
    have "unat (to_block_no mk_sb (of_nat j)) < nmeta" using that by (simp add: to_block_mk nmeta_eq NINODES_def)
    then have "disk_entry s1 j = ?E j" using l(7) by (simp add: keeps_rest_def disk_entry_def dinode_def)
    then show ?thesis using w(6) [OF that] by simp
  qed
  have b1: "blocks_inv (?E(?i := e')) (view s') ?m (unat (freeblock s'))"
    unfolding w(4,5) by (rule write_meta(1) [OF bi1 bm])
  have sl: "islot (disk_entry s' j) V k = islot ((?E(?i := e')) j) V k" if "j < ?m" for j k V
    using en [of j] that m by (simp add: content_bytes_update)
  have b2: "blocks_inv (disk_entry s') (view s') ?m (unat (freeblock s'))"
    by (rule blocks_inv_entries [OF b1]) (use sl in simp_all)
  have this1: "exact e' (view s') (unat off')" "content e' (view s') (unat off') = content e' (view s1) (unat off')"
    using content_meta [OF bi1 i _ bm, of "unat off'"] ex1 by (simp_all add: w(5))
  have oth: "exact (?E j) (view s') n" "content (?E j) (view s') n = content (?E j) (view s) n"
    if j: "1 \<le> j" "j < ?m" "j \<noteq> ?i" and ex: "exact (?E j) (view s) n" for j n
  proof -
    note k = keeps_rest_file [OF l(7) j ex]
    have "(?E(?i := e')) j = ?E j" using j(3) by simp
    then show "exact (?E j) (view s') n" "content (?E j) (view s') n = content (?E j) (view s) n"
      using content_meta [OF bi1 j(1,2) _ bm, of n] k by (simp_all add: w(5))
  qed
  have ei: "disk_entry s' ?i = ?e2" using en iN by simp
  have inv': "mk_inv s'"
    unfolding mk_inv_def w(3) l(4)
  proof (intro conjI allI impI)
    fix j assume j: "1 \<le> j \<and> j < ?m"
    show "exact (disk_entry s' j) (view s') (unat (ie_num_bytes (disk_entry s' j)))"
    proof (cases "j = ?i")
      case True
      then show ?thesis using this1(1) by (simp add: ei exact_def content_bytes_update)
    next
      case False
      then show ?thesis using oth(1) [of j] exs [of j] j en [of j] m by simp
    qed
  qed (use w(2) inv b2 in \<open>auto simp: mk_inv_def\<close>)
  have run: "iappend inum p s = Some s'"
    using w(1) l(1) by (simp add: iappend_def rinode_eq [OF ok iN])
  have fi: "file_of s' ?i = file_of s ?i @ p"
    using this1(2) l(6) by (simp add: file_of_def ei content_bytes_update)
  have fj: "disk_entry s' j = ?E j \<and> file_of s' j = file_of s j" if "1 \<le> j" "j < ?m" "j \<noteq> ?i" for j
    using en [of j] oth(2) [OF that exs [OF that(1,2)]] that m by (simp add: file_of_def)
  have fb: "view s' b = view s b" if "fixed_block b" for b
  proof -
    have "unat b < nmeta" using that by (auto simp: fixed_block_def nmeta_eq)
    then have "view s1 b = view s b" using l(7) by (simp add: keeps_rest_def)
    moreover have "b \<noteq> ucast (IBLOCK inum)" using that iblock_bounds [OF iN] by (auto simp: fixed_block_def)
    ultimately show ?thesis by (simp add: w(5))
  qed
  have fr: "mk_frame ?m {?i} s s'" using fj fb by (simp add: mk_frame_def)
  show ?thesis
    by (rule that [OF run inv' _ _ fi _ fr])
      (use w(3,4) l(2,4,5) same_inode_fields [OF l(8)] in \<open>simp_all add: ei\<close>)
qed

section \<open>Allocating an inode\<close>

lemma ialloc_spec:
  assumes inv: "mk_inv s" and m: "unat (freeinode s) < NINODES"
  obtains s' where "ialloc ty s = Some (freeinode s, s')" "mk_inv s'" "unat (freeinode s') = Suc (unat (freeinode s))"
    "freeblock s' = freeblock s" "file_of s' (unat (freeinode s)) = []" "ie_type (disk_entry s' (unat (freeinode s))) = ty"
    "mk_frame (unat (freeinode s)) {} s s'"
proof -
  let ?m = "unat (freeinode s)" let ?s = "s\<lparr>freeinode := freeinode s + 1\<rparr>"
  let ?z = "zero_entry\<lparr>ie_type := ty, ie_num_links := 1, ie_num_bytes := 0\<rparr>"
  have ok: "img_ok s" and m1: "1 \<le> ?m" and bi: "blocks_inv (disk_entry s) (view s) ?m (unat (freeblock s))"
    and exs: "\<And>j. 1 \<le> j \<Longrightarrow> j < ?m \<Longrightarrow> exact (disk_entry s j) (view s) (unat (ie_num_bytes (disk_entry s j)))"
    using inv by (auto simp: mk_inv_def)
  have S: "unat (freeinode s + 1) = Suc ?m" using m by (simp add: unat_word_ariths NINODES_def)
  have v: "img_ok ?s" "view ?s = view s" using ok by (simp_all add: img_ok_def view_def fun_eq_iff)
  have e: "disk_entry ?s = disk_entry s" by (simp add: disk_entry_def v(2) fun_eq_iff)
  have lz: "length (ie_addrs ?z) = INODE_NUM_DIRECT" by (simp add: zero_entry_def)
  obtain s' d where w: "winode (freeinode s) ?z ?s = Some s'" "img_ok s'" "freeinode s' = freeinode ?s" "freeblock s' = freeblock ?s"
      "view s' = (view ?s)(ucast (IBLOCK (freeinode s)) := d)"
      "\<And>j. j < NINODES \<Longrightarrow> disk_entry s' j = (if j = ?m then ?z else disk_entry ?s j)"
    by (rule winode_spec [OF v(1) m lz]) (rule that)
  have bm: "unat (ucast (IBLOCK (freeinode s)) :: usize) < nmeta" using iblock_bounds [OF m] by (simp add: nmeta_eq)
  have vw: "view s' = (view s)(ucast (IBLOCK (freeinode s)) := d)" using w(5) v(2) by simp
  have b1: "blocks_inv (disk_entry s) (view s') ?m (unat (freeblock s))"
    unfolding vw by (rule write_meta(1) [OF bi bm])
  have en: "disk_entry s' j = (if j = ?m then ?z else disk_entry s j)" if "j < NINODES" for j using w(6) [OF that] e by simp
  have "blocks_inv (disk_entry s') (view s') ?m (unat (freeblock s))"
    by (rule blocks_inv_entries [OF b1]) (use en m in simp_all)
  moreover have zs: "islot (disk_entry s' ?m) (view s') j = 0" if "j < NSLOTS" for j
    using en [OF m] by (simp add: islot_def zero_entry_def fs_sizes)
  ultimately have b2: "blocks_inv (disk_entry s') (view s') (Suc ?m) (unat (freeblock s))" by (rule blocks_inv_new)
  have old: "exact (disk_entry s' j) (view s') (unat (ie_num_bytes (disk_entry s' j)))" "disk_entry s' j = disk_entry s j" "file_of s' j = file_of s j"
    if j: "1 \<le> j" "j < ?m" for j
  proof -
    show d: "disk_entry s' j = disk_entry s j" using en [of j] j m by simp
    show "exact (disk_entry s' j) (view s') (unat (ie_num_bytes (disk_entry s' j)))" "file_of s' j = file_of s j"
      using content_meta [OF bi j exs [OF j] bm] unfolding file_of_def d vw by simp_all
  qed
  have new: "exact (disk_entry s' ?m) (view s') (unat (ie_num_bytes (disk_entry s' ?m)))"
    using zs en [OF m] by (simp add: exact_def)
  have inv': "mk_inv s'"
    unfolding mk_inv_def
  proof (intro conjI allI impI)
    fix j assume "1 \<le> j \<and> j < unat (freeinode s')"
    then have "1 \<le> j" "j < ?m \<or> j = ?m" using w(3) S by auto
    then show "exact (disk_entry s' j) (view s') (unat (ie_num_bytes (disk_entry s' j)))" using old(1) new by blast
  qed (use w(2-4) b2 S m in simp_all)
  have fr: "mk_frame ?m {} s s'"
    unfolding mk_frame_def
  proof (intro conjI allI impI)
    fix b assume "fixed_block b"
    then have "b \<noteq> ucast (IBLOCK (freeinode s))" using iblock_bounds [OF m] by (auto simp: fixed_block_def)
    then show "view s' b = view s b" by (simp add: vw)
  qed (use old in auto)
  show ?thesis
  proof (rule that [OF _ inv' _ _ _ _ fr])
    show "ialloc ty s = Some (freeinode s, s')" using w(1) by (simp add: ialloc_def)
  qed (use w(3,4) S en [OF m] in \<open>simp_all add: file_of_def content_def\<close>)
qed

section \<open>Input files\<close>

lemma append_all_spec:
  assumes "mk_inv s" "1 \<le> unat inum" "unat inum < unat (freeinode s)"
    and "length (file_of s (unat inum)) + length (concat bufs) \<le> INODE_MAX_BYTES"
    and "unat (freeblock s) + blocks_of (length (file_of s (unat inum)) + length (concat bufs)) \<le> FSSIZE + blocks_of (length (file_of s (unat inum)))"
  shows "\<exists>s'. append_all inum bufs s = Some s' \<and> mk_inv s' \<and> freeinode s' = freeinode s
    \<and> unat (freeblock s') + blocks_of (length (file_of s (unat inum))) = unat (freeblock s) + blocks_of (length (file_of s (unat inum)) + length (concat bufs))
    \<and> file_of s' (unat inum) = file_of s (unat inum) @ concat bufs
    \<and> ie_type (disk_entry s' (unat inum)) = ie_type (disk_entry s (unat inum))
    \<and> mk_frame (unat (freeinode s)) {unat inum} s s'"
  using assms
proof (induction bufs arbitrary: s)
  case Nil
  then show ?case by (simp add: mk_frame_refl)
next
  case (Cons b bs)
  let ?l = "length (file_of s (unat inum))"
  have mono: "blocks_of (?l + length b) \<le> blocks_of (?l + length (concat (b # bs)))" by (rule blocks_of_mono) simp
  have 1: "?l + length b \<le> INODE_MAX_BYTES" "unat (freeblock s) + blocks_of (?l + length b) \<le> FSSIZE + blocks_of ?l"
    using Cons.prems(4,5) mono by simp_all
  obtain s1 where a: "iappend inum b s = Some s1" "mk_inv s1" "freeinode s1 = freeinode s"
      "unat (freeblock s1) + blocks_of ?l = unat (freeblock s) + blocks_of (?l + length b)"
      "file_of s1 (unat inum) = file_of s (unat inum) @ b"
      "ie_type (disk_entry s1 (unat inum)) = ie_type (disk_entry s (unat inum))" "mk_frame (unat (freeinode s)) {unat inum} s s1"
    by (rule iappend_spec [OF Cons.prems(1-3) 1]) (rule that)
  have l1: "length (file_of s1 (unat inum)) = ?l + length b" unfolding a(5) by simp
  have 2: "length (file_of s1 (unat inum)) + length (concat bs) \<le> INODE_MAX_BYTES"
    "unat (freeblock s1) + blocks_of (length (file_of s1 (unat inum)) + length (concat bs)) \<le> FSSIZE + blocks_of (length (file_of s1 (unat inum)))"
    using Cons.prems(4,5) a(4) unfolding l1 by (simp_all add: add.assoc)
  from Cons.IH [OF a(2) Cons.prems(2) _ 2] Cons.prems(3) a(3) obtain s2 where
    t: "append_all inum bs s1 = Some s2" "mk_inv s2" "freeinode s2 = freeinode s1"
      "unat (freeblock s2) + blocks_of (?l + length b) = unat (freeblock s1) + blocks_of (?l + length b + length (concat bs))"
      "file_of s2 (unat inum) = file_of s1 (unat inum) @ concat bs"
      "ie_type (disk_entry s2 (unat inum)) = ie_type (disk_entry s1 (unat inum))" "mk_frame (unat (freeinode s1)) {unat inum} s1 s2"
    unfolding l1 by auto
  have "mk_frame (unat (freeinode s)) {unat inum} s s2" using mk_frame_trans [OF a(7) t(7)] a(3) by simp
  then show ?case using t a by (intro exI [of _ s2]) (simp add: add.assoc)
qed

end
