(* ===== verification/Mkfs_Props.thy ===== *)
theory Mkfs_Props
  imports Mkfs_Image
begin

text \<open>
  What \<open>mkfs\<close> leaves for the kernel: the files, the root directory, the bitmap and the layout.
\<close>

section \<open>Names\<close>

lemma name_loop_snoc: "name_loop (p @ [c]) j = (if c = 47 then 0 else name_loop p j + 1)"
  by (induction p j rule: name_loop.induct) simp_all

lemma name_loop_eq: "name_loop p 0 = int (length (takeWhile (\<lambda>c. c \<noteq> 47) (rev p)))"
  by (induction p rule: rev_induct) (simp_all add: name_loop_snoc)

text \<open>The name is what follows the last slash.\<close>

lemma base_name_eq: "base_name p = rev (takeWhile (\<lambda>c. c \<noteq> 47) (rev p))"
proof -
  let ?n = "length (takeWhile (\<lambda>c. c \<noteq> 47) (rev p))"
  have "takeWhile (\<lambda>c. c \<noteq> 47) (rev p) = take ?n (rev p)" by (rule takeWhile_eq_take)
  then have "rev (takeWhile (\<lambda>c. c \<noteq> 47) (rev p)) = drop (length p - ?n) p" by (metis length_rev rev_rev_ident rev_take)
  then show ?thesis by (simp add: base_name_def name_loop_eq)
qed

lemma base_name_no_slash: "47 \<notin> set (base_name p)"
  using set_takeWhileD by (fastforce simp: base_name_eq)

section \<open>Adding the input files\<close>

definition file_data :: "u8 list \<times> u8 list list option \<Rightarrow> u8 list" where
  "file_data f = concat (the (snd f))"

definition file_entry :: "nat \<Rightarrow> u8 list \<times> u8 list list option \<Rightarrow> u8 list" where
  "file_entry m f = dir_entry_bytes (dirent (of_nat m) (skip_underscore (base_name (fst f))))"

fun dir_list :: "nat \<Rightarrow> (u8 list \<times> u8 list list option) list \<Rightarrow> u8 list" where
  "dir_list m [] = []"
| "dir_list m (f # fs) = file_entry m f @ dir_list (Suc m) fs"

lemma length_dirent [simp]: "length (dir_entry_bytes (dirent i nm)) = 16"
  by (rule dir_entry_roundtrip(2)) (simp add: dirent_def)

lemma length_dir_list [simp]: "length (dir_list m fs) = 16 * length fs"
  by (induction fs arbitrary: m) (simp_all add: file_entry_def)

definition data_need :: "(u8 list \<times> u8 list list option) list \<Rightarrow> nat" where
  "data_need fs = (\<Sum>f\<leftarrow>fs. blocks_of (length (file_data f)))"

lemma blocks_of_0 [simp]: "blocks_of 0 = 0"
  by (simp add: blocks_of_def)

lemma add_file_spec:
  assumes inv: "mk_inv s" and m: "2 \<le> unat (freeinode s)" "unat (freeinode s) < NINODES"
    and f: "snd f \<noteq> None" "length (file_data f) \<le> INODE_MAX_BYTES"
    and max: "length (file_of s 1) + 16 \<le> INODE_MAX_BYTES"
    and room: "unat (freeblock s) + blocks_of (length (file_of s 1) + 16) + blocks_of (length (file_data f)) \<le> FSSIZE + blocks_of (length (file_of s 1))"
  obtains s' where "add_file 1 f s = Some s'" "mk_inv s'" "unat (freeinode s') = Suc (unat (freeinode s))"
    "unat (freeblock s') + blocks_of (length (file_of s 1)) = unat (freeblock s) + blocks_of (length (file_of s 1) + 16) + blocks_of (length (file_data f))"
    "file_of s' 1 = file_of s 1 @ file_entry (unat (freeinode s)) f" "ie_type (disk_entry s' 1) = ie_type (disk_entry s 1)"
    "file_of s' (unat (freeinode s)) = file_data f" "ie_type (disk_entry s' (unat (freeinode s))) = INODE_REGULAR"
    "mk_frame (unat (freeinode s)) {1} s s'"
proof -
  let ?m = "unat (freeinode s)" let ?l = "length (file_of s 1)"
  obtain path bufs where fp: "f = (path, Some bufs)" using f(1) by (cases f) auto
  obtain s1 where a: "ialloc INODE_REGULAR s = Some (freeinode s, s1)" "mk_inv s1" "unat (freeinode s1) = Suc ?m"
      "freeblock s1 = freeblock s" "file_of s1 ?m = []" "ie_type (disk_entry s1 ?m) = INODE_REGULAR" "mk_frame ?m {} s s1"
    by (rule ialloc_spec [OF inv m(2), of INODE_REGULAR]) (rule that)
  have r1: "file_of s1 1 = file_of s 1" "disk_entry s1 1 = disk_entry s 1" using a(7) m(1) by (simp_all add: mk_frame_def)
  let ?d = "dir_entry_bytes (dirent (freeinode s) (skip_underscore (base_name path)))"
  have i1: "1 \<le> unat (1 :: u32)" "unat (1 :: u32) < unat (freeinode s1)" using a(3) m(1) by simp_all
  have b1: "length (file_of s1 (unat (1 :: u32))) + length ?d \<le> INODE_MAX_BYTES"
      "unat (freeblock s1) + blocks_of (length (file_of s1 (unat (1 :: u32))) + length ?d) \<le> FSSIZE + blocks_of (length (file_of s1 (unat (1 :: u32))))"
    using max room a(4) r1 by simp_all
  obtain s2 where b: "iappend 1 ?d s1 = Some s2" "mk_inv s2" "freeinode s2 = freeinode s1"
      "unat (freeblock s2) + blocks_of (length (file_of s1 (unat (1 :: u32)))) = unat (freeblock s1) + blocks_of (length (file_of s1 (unat (1 :: u32))) + length ?d)"
      "file_of s2 (unat (1 :: u32)) = file_of s1 (unat (1 :: u32)) @ ?d"
      "ie_type (disk_entry s2 (unat (1 :: u32))) = ie_type (disk_entry s1 (unat (1 :: u32)))"
      "mk_frame (unat (freeinode s1)) {unat (1 :: u32)} s1 s2"
    by (rule iappend_spec [OF a(2) i1 b1]) (rule that)
  have m2: "1 \<le> ?m" "?m < unat (freeinode s2)" using m(1) a(3) b(3) by simp_all
  have r2: "file_of s2 ?m = []" "disk_entry s2 ?m = disk_entry s1 ?m"
    using b(7) m(1) a(3,5) by (simp_all add: mk_frame_def)
  have c0: "length (file_of s2 ?m) + length (concat bufs) \<le> INODE_MAX_BYTES"
      "unat (freeblock s2) + blocks_of (length (file_of s2 ?m) + length (concat bufs)) \<le> FSSIZE + blocks_of (length (file_of s2 ?m))"
    using f(2) room b(4) a(4) r1 unfolding r2(1) by (simp_all add: fp file_data_def)
  from append_all_spec [OF b(2) m2 c0] obtain s3 where
    c: "append_all (freeinode s) bufs s2 = Some s3" "mk_inv s3" "freeinode s3 = freeinode s2"
      "unat (freeblock s3) + blocks_of (length (file_of s2 ?m)) = unat (freeblock s2) + blocks_of (length (file_of s2 ?m) + length (concat bufs))"
      "file_of s3 ?m = file_of s2 ?m @ concat bufs" "ie_type (disk_entry s3 ?m) = ie_type (disk_entry s2 ?m)"
      "mk_frame (unat (freeinode s2)) {?m} s2 s3" by blast
  have r3: "file_of s3 1 = file_of s2 1" "disk_entry s3 1 = disk_entry s2 1"
    using c(7) m(1) m2(2) by (simp_all add: mk_frame_def)
  have fr: "mk_frame ?m {1} s s3"
    by (rule mk_frame_trans [OF mk_frame_trans [OF a(7) b(7), of "{1}"] c(7)]) (use a(3) b(3) in auto)
  show ?thesis
  proof (rule that [OF _ c(2) _ _ _ _ _ _ fr])
    show "add_file 1 f s = Some s3"
      using base_name_no_slash [of path] a(1) b(1) c(1) by (simp add: add_file_def fp)
    show "unat (freeblock s3) + blocks_of ?l = unat (freeblock s) + blocks_of (?l + 16) + blocks_of (length (file_data f))"
      using c(4) b(4) a(4) r1 unfolding r2(1) by (simp add: fp file_data_def)
    show "file_of s3 1 = file_of s 1 @ file_entry ?m f" using r3(1) b(5) r1(1) by (simp add: file_entry_def fp)
    show "ie_type (disk_entry s3 1) = ie_type (disk_entry s 1)" using r3(2) b(6) r1(2) by simp
  qed (use a(3,6) b(3) c(3,5,6) r2 in \<open>simp_all add: fp file_data_def\<close>)
qed

lemma add_files_spec:
  assumes "mk_inv s" "2 \<le> unat (freeinode s)" "unat (freeinode s) + length fs \<le> NINODES"
    and "\<forall>f\<in>set fs. snd f \<noteq> None \<and> length (file_data f) \<le> INODE_MAX_BYTES"
    and "length (file_of s 1) + 16 * length fs \<le> INODE_MAX_BYTES"
    and "unat (freeblock s) + blocks_of (length (file_of s 1) + 16 * length fs) + data_need fs \<le> FSSIZE + blocks_of (length (file_of s 1))"
  shows "\<exists>s'. add_files 1 fs s = Some s' \<and> mk_inv s' \<and> unat (freeinode s') = unat (freeinode s) + length fs
    \<and> unat (freeblock s') + blocks_of (length (file_of s 1)) = unat (freeblock s) + blocks_of (length (file_of s 1) + 16 * length fs) + data_need fs
    \<and> file_of s' 1 = file_of s 1 @ dir_list (unat (freeinode s)) fs \<and> ie_type (disk_entry s' 1) = ie_type (disk_entry s 1)
    \<and> (\<forall>k<length fs. file_of s' (unat (freeinode s) + k) = file_data (fs ! k)
         \<and> ie_type (disk_entry s' (unat (freeinode s) + k)) = INODE_REGULAR)
    \<and> mk_frame (unat (freeinode s)) {1} s s'"
  using assms
proof (induction fs arbitrary: s)
  case Nil
  then show ?case by (simp add: mk_frame_refl data_need_def)
next
  case (Cons f fs)
  let ?m = "unat (freeinode s)" let ?l = "length (file_of s 1)"
  have dn: "data_need (f # fs) = blocks_of (length (file_data f)) + data_need fs" by (simp add: data_need_def)
  have mono: "blocks_of (?l + 16) \<le> blocks_of (?l + 16 * length (f # fs))" by (rule blocks_of_mono) simp
  have p: "?m < NINODES" "snd f \<noteq> None" "length (file_data f) \<le> INODE_MAX_BYTES" "?l + 16 \<le> INODE_MAX_BYTES"
      "unat (freeblock s) + blocks_of (?l + 16) + blocks_of (length (file_data f)) \<le> FSSIZE + blocks_of ?l"
    using Cons.prems(3-6) mono unfolding dn by simp_all
  obtain s1 where a: "add_file 1 f s = Some s1" "mk_inv s1" "unat (freeinode s1) = Suc ?m"
      "unat (freeblock s1) + blocks_of ?l = unat (freeblock s) + blocks_of (?l + 16) + blocks_of (length (file_data f))"
      "file_of s1 1 = file_of s 1 @ file_entry ?m f" "ie_type (disk_entry s1 1) = ie_type (disk_entry s 1)"
      "file_of s1 ?m = file_data f" "ie_type (disk_entry s1 ?m) = INODE_REGULAR" "mk_frame ?m {1} s s1"
    by (rule add_file_spec [OF Cons.prems(1,2) p]) (rule that)
  have l1: "length (file_of s1 1) = ?l + 16" unfolding a(5) by (simp add: file_entry_def)
  have l2: "?l + 16 + 16 * length fs = ?l + 16 * length (f # fs)" by simp
  have q: "2 \<le> unat (freeinode s1)" "unat (freeinode s1) + length fs \<le> NINODES"
      "\<forall>f\<in>set fs. snd f \<noteq> None \<and> length (file_data f) \<le> INODE_MAX_BYTES"
      "length (file_of s1 1) + 16 * length fs \<le> INODE_MAX_BYTES"
      "unat (freeblock s1) + blocks_of (length (file_of s1 1) + 16 * length fs) + data_need fs \<le> FSSIZE + blocks_of (length (file_of s1 1))"
    using Cons.prems a(3,4) unfolding l1 l2 dn by simp_all
  from Cons.IH [OF a(2) q] obtain s2 where
    t: "add_files 1 fs s1 = Some s2" "mk_inv s2" "unat (freeinode s2) = Suc ?m + length fs"
      "unat (freeblock s2) + blocks_of (?l + 16) = unat (freeblock s1) + blocks_of (?l + 16 * length (f # fs)) + data_need fs"
      "file_of s2 1 = file_of s1 1 @ dir_list (Suc ?m) fs" "ie_type (disk_entry s2 1) = ie_type (disk_entry s1 1)"
      "\<forall>k<length fs. file_of s2 (Suc ?m + k) = file_data (fs ! k) \<and> ie_type (disk_entry s2 (Suc ?m + k)) = INODE_REGULAR"
      "mk_frame (Suc ?m) {1} s1 s2"
    unfolding l1 l2 a(3) by blast
  have own: "file_of s2 ?m = file_data f" "ie_type (disk_entry s2 ?m) = INODE_REGULAR"
    using t(8) a(7,8) Cons.prems(2) by (simp_all add: mk_frame_def)
  have all: "\<forall>k<length (f # fs). file_of s2 (?m + k) = file_data ((f # fs) ! k) \<and> ie_type (disk_entry s2 (?m + k)) = INODE_REGULAR"
  proof (intro allI impI)
    fix k assume "k < length (f # fs)"
    then show "file_of s2 (?m + k) = file_data ((f # fs) ! k) \<and> ie_type (disk_entry s2 (?m + k)) = INODE_REGULAR"
      using own t(7) by (cases k) auto
  qed
  have fr: "mk_frame ?m {1} s s2" by (rule mk_frame_trans [OF a(9) t(8)]) simp_all
  have run: "add_files 1 (f # fs) s = Some s2" using a(1) t(1) by simp
  have fb: "unat (freeblock s2) + blocks_of ?l = unat (freeblock s) + blocks_of (?l + 16 * length (f # fs)) + data_need (f # fs)"
    using t(4) a(4) unfolding dn by simp
  show ?case
    by (intro exI [of _ s2] conjI run t(2) fb all fr) (use t(3,5,6) a(5,6) in simp_all)
qed

section \<open>The empty image and the root directory\<close>

lemma zero_sectors:
  assumes "n \<le> FSSIZE" "img s = []"
  shows "fold (\<lambda>i. wsect (of_nat i) zeroes) [0..<n] s = s\<lparr>img := replicate n zeroes\<rparr>"
  using assms(1)
proof (induction n)
  case 0
  then show ?case using assms(2) by simp
next
  case (Suc n)
  have "sector (of_nat n) = n" using Suc.prems by (simp add: sector_eq unat_nat32)
  then show ?case using Suc by (simp add: wsect_def replicate_append_same)
qed

lemma format_image_facts:
  shows "img_ok format_image" "freeinode format_image = 1" "unat (freeblock format_image) = nmeta"
    "view format_image 0 = put_bytes 0 (super_block_bytes mk_sb) zeroes"
    "n \<noteq> 0 \<Longrightarrow> unat n < FSSIZE \<Longrightarrow> view format_image n = zeroes"
proof -
  let ?s0 = "\<lparr>img = [], freeinode = 1, freeblock = of_nat nmeta\<rparr> :: mkst"
  let ?s1 = "?s0\<lparr>img := replicate FSSIZE zeroes\<rparr>" let ?d = "put_bytes 0 (super_block_bytes mk_sb) zeroes"
  have f: "format_image = wsect 0 ?d ?s1" unfolding format_image_def by (subst zero_sectors) simp_all
  have lz: "length zeroes = BLOCK_SIZE" by (simp add: zeroes_def)
  have ld: "length ?d = BLOCK_SIZE" using lz by (simp add: super_block_bytes_def fs_sizes)
  have ok: "img_ok ?s1" using lz by (simp add: img_ok_def)
  have "unat (0 :: u32) < FSSIZE" by (simp add: FSSIZE_def)
  note w = wsect_eq [OF ok this ld, folded f]
  show "img_ok format_image" "freeinode format_image = 1" using w by simp_all
  show "unat (freeblock format_image) = nmeta" using w(4) by (simp add: unat_nat32 nmeta_eq FSSIZE_def)
  show "view format_image 0 = ?d" by (simp add: w(2))
  show "view format_image n = zeroes" if "n \<noteq> 0" "unat n < FSSIZE" using that by (simp add: w(2) view_def)
qed

lemma format_image_inv: "mk_inv format_image"
proof -
  note f = format_image_facts
  have "V (of_nat n) = zeroes" if "V = view format_image" "nmeta \<le> n" "n < FSSIZE" for V n
  proof -
    have u: "unat (of_nat n :: usize) = n" using that(3) by (simp add: unat_nat64)
    then have "(of_nat n :: usize) \<noteq> 0" using that(2) nmeta_eq by auto
    then show ?thesis using f(5) u that by simp
  qed
  moreover have "used E V 1 = {}" for E V by (auto simp: used_def)
  ultimately have "blocks_inv (disk_entry format_image) (view format_image) 1 nmeta"
    by (simp add: blocks_inv_def bij_betw_def nmeta_eq FSSIZE_def)
  then show ?thesis using f(1-3) by (simp add: mk_inv_def NINODES_def)
qed

lemma make_root_spec:
  obtains s where "make_root format_image = Some (1, s)" "mk_inv s" "unat (freeinode s) = 2"
    "unat (freeblock s) = nmeta + 1" "file_of s 1 = dir_entry_bytes (dirent 1 [46]) @ dir_entry_bytes (dirent 1 [46, 46])"
    "ie_type (disk_entry s 1) = INODE_DIRECTORY" "\<And>b. fixed_block b \<Longrightarrow> view s b = view format_image b"
proof -
  note f = format_image_facts
  have fi: "unat (freeinode format_image) < NINODES" by (simp add: f(2) NINODES_def)
  have b: "blocks_of 16 = 1" "blocks_of 32 = 1" by (simp_all add: blocks_of_def)
  obtain s1 where a: "ialloc INODE_DIRECTORY format_image = Some (freeinode format_image, s1)" "mk_inv s1"
      "unat (freeinode s1) = Suc (unat (freeinode format_image))" "freeblock s1 = freeblock format_image"
      "file_of s1 (unat (freeinode format_image)) = []" "ie_type (disk_entry s1 (unat (freeinode format_image))) = INODE_DIRECTORY"
      "mk_frame (unat (freeinode format_image)) {} format_image s1"
    by (rule ialloc_spec [OF format_image_inv fi, of INODE_DIRECTORY]) (rule that)
  have one: "unat (freeinode format_image) = 1" "unat (1 :: u32) = 1" by (simp_all add: f(2))
  let ?d1 = "dir_entry_bytes (dirent 1 [46])" and ?d2 = "dir_entry_bytes (dirent 1 [46, 46])"
  have l1: "file_of s1 (unat (1 :: u32)) = []" using a(5) unfolding one .
  have p: "1 \<le> unat (1 :: u32)" "unat (1 :: u32) < unat (freeinode s1)"
      "length (file_of s1 (unat (1 :: u32))) + length ?d1 \<le> INODE_MAX_BYTES"
      "unat (freeblock s1) + blocks_of (length (file_of s1 (unat (1 :: u32))) + length ?d1) \<le> FSSIZE + blocks_of (length (file_of s1 (unat (1 :: u32))))"
    unfolding l1 a(3,4) f(3) by (simp_all add: one b fs_sizes nmeta_eq FSSIZE_def)
  obtain s2 where c: "iappend 1 ?d1 s1 = Some s2" "mk_inv s2" "freeinode s2 = freeinode s1"
      "unat (freeblock s2) + blocks_of (length (file_of s1 (unat (1 :: u32)))) = unat (freeblock s1) + blocks_of (length (file_of s1 (unat (1 :: u32))) + length ?d1)"
      "file_of s2 (unat (1 :: u32)) = file_of s1 (unat (1 :: u32)) @ ?d1"
      "ie_type (disk_entry s2 (unat (1 :: u32))) = ie_type (disk_entry s1 (unat (1 :: u32)))"
      "mk_frame (unat (freeinode s1)) {unat (1 :: u32)} s1 s2"
    by (rule iappend_spec [OF a(2) p]) (rule that)
  have l2: "file_of s2 (unat (1 :: u32)) = ?d1" using c(5) l1 by simp
  have fb2: "unat (freeblock s2) = nmeta + 1" using c(4) unfolding l1 a(4) f(3) by (simp add: b)
  have q: "unat (1 :: u32) < unat (freeinode s2)"
      "length (file_of s2 (unat (1 :: u32))) + length ?d2 \<le> INODE_MAX_BYTES"
      "unat (freeblock s2) + blocks_of (length (file_of s2 (unat (1 :: u32))) + length ?d2) \<le> FSSIZE + blocks_of (length (file_of s2 (unat (1 :: u32))))"
    unfolding l2 fb2 c(3) a(3) by (simp_all add: one b fs_sizes nmeta_eq FSSIZE_def)
  obtain s3 where d: "iappend 1 ?d2 s2 = Some s3" "mk_inv s3" "freeinode s3 = freeinode s2"
      "unat (freeblock s3) + blocks_of (length (file_of s2 (unat (1 :: u32)))) = unat (freeblock s2) + blocks_of (length (file_of s2 (unat (1 :: u32))) + length ?d2)"
      "file_of s3 (unat (1 :: u32)) = file_of s2 (unat (1 :: u32)) @ ?d2"
      "ie_type (disk_entry s3 (unat (1 :: u32))) = ie_type (disk_entry s2 (unat (1 :: u32)))"
      "mk_frame (unat (freeinode s2)) {unat (1 :: u32)} s2 s3"
    by (rule iappend_spec [OF c(2) p(1) q]) (rule that)
  have fb3: "unat (freeblock s3) = nmeta + 1" using d(4) unfolding l2 fb2 by (simp add: b)
  show ?thesis
  proof (rule that [OF _ d(2) _ fb3])
    show "make_root format_image = Some (1, s3)"
      using a(1) c(1) d(1) f(2) by (simp add: make_root_def ROOT_INODE_NO_def)
    show "file_of s3 1 = ?d1 @ ?d2" using d(5) l2 unfolding one by simp
    show "ie_type (disk_entry s3 1) = INODE_DIRECTORY" using d(6) c(6) a(6) unfolding one by simp
    show "view s3 b = view format_image b" if "fixed_block b" for b using d(7) c(7) a(7) that by (simp add: mk_frame_def)
    show "unat (freeinode s3) = 2" using d(3) c(3) a(3) one by simp
  qed
qed

section \<open>The size of the root directory and the bitmap\<close>

lemma fix_root_size_spec:
  assumes inv: "mk_inv s" and m: "2 \<le> unat (freeinode s)"
  obtains s' where "fix_root_size 1 s = Some s'" "img_ok s'" "freeblock s' = freeblock s"
    "blocks_inv (disk_entry s') (view s') (unat (freeinode s)) (unat (freeblock s))"
    "\<And>j V k. j < unat (freeinode s) \<Longrightarrow> islot (disk_entry s' j) V k = islot (disk_entry s j) V k"
    "ie_num_bytes (disk_entry s' 1) = (ie_num_bytes (disk_entry s 1) div of_nat BLOCK_SIZE + 1) * of_nat BLOCK_SIZE"
    "ie_type (disk_entry s' 1) = ie_type (disk_entry s 1)"
    "\<And>j. 1 \<le> j \<Longrightarrow> j < unat (freeinode s) \<Longrightarrow> exact (disk_entry s' j) (view s') (length (file_of s j))"
    "content (disk_entry s' 1) (view s') (length (file_of s 1)) = file_of s 1" "mk_frame (unat (freeinode s)) {1} s s'"
proof -
  let ?m = "unat (freeinode s)" and ?e = "disk_entry s 1"
  let ?e2 = "?e\<lparr>ie_num_bytes := (ie_num_bytes ?e div of_nat BLOCK_SIZE + 1) * of_nat BLOCK_SIZE\<rparr>"
  have ok: "img_ok s" and mN: "?m \<le> NINODES" and bi: "blocks_inv (disk_entry s) (view s) ?m (unat (freeblock s))"
    and exs: "\<And>j. 1 \<le> j \<Longrightarrow> j < ?m \<Longrightarrow> exact (disk_entry s j) (view s) (unat (ie_num_bytes (disk_entry s j)))"
    using inv by (auto simp: mk_inv_def)
  have one: "unat (1 :: u32) = 1" "unat (1 :: u32) < NINODES" by (simp_all add: NINODES_def)
  have l: "length (ie_addrs ?e2) = INODE_NUM_DIRECT" by simp
  obtain s' d where w: "winode 1 ?e2 s = Some s'" "img_ok s'" "freeinode s' = freeinode s" "freeblock s' = freeblock s"
      "view s' = (view s)(ucast (IBLOCK 1) := d)"
      "\<And>j. j < NINODES \<Longrightarrow> disk_entry s' j = (if j = unat (1 :: u32) then ?e2 else disk_entry s j)"
    by (rule winode_spec [OF ok one(2) l]) (rule that)
  have bm: "unat (ucast (IBLOCK 1) :: usize) < nmeta" using iblock_bounds [OF one(2)] by (simp add: nmeta_eq)
  have en: "disk_entry s' j = (if j = 1 then ?e2 else disk_entry s j)" if "j < NINODES" for j using w(6) [OF that] one(1) by simp
  have sl: "islot (disk_entry s' j) V k = islot (disk_entry s j) V k" if "j < ?m" for j V k
    using en [of j] that mN by (simp add: content_bytes_update)
  have b1: "blocks_inv (disk_entry s) (view s') ?m (unat (freeblock s))" unfolding w(5) by (rule write_meta(1) [OF bi bm])
  have b2: "blocks_inv (disk_entry s') (view s') ?m (unat (freeblock s))"
    by (rule blocks_inv_entries [OF b1]) (use sl in simp_all)
  have e1: "disk_entry s' 1 = ?e2" using en [of 1] one(2) by simp
  have j1: "1 < ?m" using m by simp
  note c1 = content_meta [OF bi order_refl j1 exs [OF order_refl j1] bm]
  have fr: "mk_frame ?m {1} s s'"
    unfolding mk_frame_def
  proof (intro conjI allI impI)
    fix j assume "1 \<le> j \<and> j < ?m \<and> j \<notin> {1}"
    then have j: "1 \<le> j" "j < ?m" "j \<noteq> 1" by auto
    show d: "disk_entry s' j = disk_entry s j" using en [of j] j mN by simp
    show "file_of s' j = file_of s j"
      using content_meta(2) [OF bi j(1,2) exs [OF j(1,2)] bm] unfolding file_of_def d w(5) by simp
  next
    fix b assume "fixed_block b"
    then have "b \<noteq> ucast (IBLOCK 1)" using iblock_bounds [OF one(2)] by (auto simp: fixed_block_def)
    then show "view s' b = view s b" by (simp add: w(5))
  qed
  have ex': "exact (disk_entry s' j) (view s') (length (file_of s j))" if j: "1 \<le> j" "j < ?m" for j
    using content_meta(1) [OF bi j exs [OF j] bm, of d] sl [OF j(2)] unfolding w(5) length_file_of by (simp add: exact_def)
  show ?thesis
  proof (rule that [OF _ w(2,4) b2 sl _ _ ex' _ fr])
    show "fix_root_size 1 s = Some s'" using w(1) by (simp add: fix_root_size_def rinode_eq [OF ok one(2)] one(1))
    show "content (disk_entry s' 1) (view s') (length (file_of s 1)) = file_of s 1"
      using c1(2) unfolding e1 w(5) length_file_of by (simp add: content_bytes_update file_of_def)
  qed (simp_all only: e1, simp_all)
qed

lemma bitmap_bits:
  assumes "k \<le> 4096"
  shows "length (fold (\<lambda>i d. d[i div 8 := d ! (i div 8) OR bit_mask i]) [0..<k] zeroes) = 512
    \<and> (\<forall>n<4096. bit_set_in (fold (\<lambda>i d. d[i div 8 := d ! (i div 8) OR bit_mask i]) [0..<k] zeroes) n \<longleftrightarrow> n < k)"
  using assms
proof (induction k)
  case 0
  then show ?case by (simp add: zeroes_def bit_set_in_iff fs_sizes)
next
  case (Suc k)
  let ?d = "fold (\<lambda>i d. d[i div 8 := d ! (i div 8) OR bit_mask i]) [0..<k] zeroes"
  have "k div 8 < length ?d" using Suc by simp
  from bit_set_in_set [OF this] Suc show ?case by (auto simp: set_bit_in_def)
qed

lemma balloc_spec:
  assumes ok: "img_ok s" and u: "unat (freeblock s) \<le> FSSIZE"
  obtains s' d where "balloc (sint (freeblock s)) s = Some s'" "view s' = (view s)(91 := d)" "img_ok s'"
    "\<And>n. n < FSSIZE \<Longrightarrow> allocated mk_sb (view s') n \<longleftrightarrow> n < unat (freeblock s)"
proof -
  let ?k = "unat (freeblock s)"
  let ?d = "fold (\<lambda>i d. d[i div 8 := d ! (i div 8) OR bit_mask i]) [0..<?k] zeroes"
  have k: "?k \<le> 1000" using u by (simp add: FSSIZE_def)
  have "sint (freeblock s) = int ?k"
  proof -
    have "?k < 2 ^ 31" using k by simp
    then have "uint (freeblock s) < 2 ^ 31" by (metis of_nat_less_iff of_nat_numeral of_nat_power uint_nat)
    moreover have "0 \<le> uint (freeblock s)" by simp
    ultimately have "signed_take_bit 31 (uint (freeblock s)) = uint (freeblock s)"
      by (intro signed_take_bit_int_eq_self) linarith+
    then have "sint (freeblock s) = uint (freeblock s)" by (simp add: sint_uint)
    then show ?thesis by simp
  qed
  moreover have "int ?k < 4096" using k by linarith
  ultimately have b: "balloc (sint (freeblock s)) s = Some (wsect (bitmap_start mk_sb) ?d s)" by (simp add: balloc_def fs_sizes)
  have bs: "bitmap_start mk_sb = 91" by (simp add: mk_sb_def mkfs_layout fs_sizes)
  note bits = bitmap_bits [of ?k]
  have ld: "length ?d = BLOCK_SIZE" and bF: "unat (91 :: u32) < FSSIZE" using bits k by (simp_all add: fs_sizes FSSIZE_def)
  note w = wsect_eq [OF ok bF ld]
  have al: "allocated mk_sb (view (wsect 91 ?d s)) n \<longleftrightarrow> n < ?k" if n: "n < FSSIZE" for n
  proof -
    have "bitmap_block mk_sb n = 91" "n mod BIT_PER_BLOCK = n"
      using n by (simp_all add: bitmap_block_def bs fs_sizes FSSIZE_def)
    then show ?thesis using bits k n by (simp add: allocated_def w(2) FSSIZE_def)
  qed
  show ?thesis by (rule that [OF b [unfolded bs] _ w(1) al]) (simp add: w(2))
qed

section \<open>A run of mkfs\<close>

definition mkfs_need :: "(u8 list \<times> u8 list list option) list \<Rightarrow> nat" where
  "mkfs_need files = blocks_of (32 + 16 * length files) + data_need files"

text \<open>What the input needs of the image: inodes, blocks and files of a size that fits.\<close>

definition mkfs_fits :: "(u8 list \<times> u8 list list option) list \<Rightarrow> bool" where
  "mkfs_fits files \<longleftrightarrow> 2 + length files \<le> NINODES \<and> nmeta + mkfs_need files \<le> FSSIZE
     \<and> list_all (\<lambda>f. snd f \<noteq> None \<and> length (file_data f) \<le> INODE_MAX_BYTES) files"

lemma mkfs_run:
  assumes fits: "mkfs_fits files"
  obtains s where "mkfs_main files = Some s" "img_ok s" "unat (freeblock s) = nmeta + mkfs_need files"
    "view s 0 = put_bytes 0 (super_block_bytes mk_sb) zeroes"
    "\<And>k. k < length files \<Longrightarrow> file_of s (2 + k) = file_data (files ! k) \<and> ie_type (disk_entry s (2 + k)) = INODE_REGULAR"
    "ie_type (disk_entry s 1) = INODE_DIRECTORY"
    "unat (ie_num_bytes (disk_entry s 1)) = ((32 + 16 * length files) div 512 + 1) * 512"
    "exact (disk_entry s 1) (view s) (32 + 16 * length files)"
    "content (disk_entry s 1) (view s) (32 + 16 * length files)
       = dir_entry_bytes (dirent 1 [46]) @ dir_entry_bytes (dirent 1 [46, 46]) @ dir_list 2 files"
    "blocks_inv (disk_entry s) (view s) (2 + length files) (unat (freeblock s))"
    "\<And>n. n < FSSIZE \<Longrightarrow> allocated mk_sb (view s) n \<longleftrightarrow> n < unat (freeblock s)"
    "\<And>k. k < length files \<Longrightarrow> exact (disk_entry s (2 + k)) (view s) (unat (ie_num_bytes (disk_entry s (2 + k))))"
proof -
  let ?n = "length files" let ?m = "2 + length files" let ?l = "32 + 16 * length files"
  have n: "?n \<le> 198" and need: "nmeta + mkfs_need files \<le> FSSIZE"
    and all: "\<forall>f\<in>set files. snd f \<noteq> None \<and> length (file_data f) \<le> INODE_MAX_BYTES"
    using fits by (simp_all add: mkfs_fits_def NINODES_def list_all_iff)
  obtain s1 where a: "make_root format_image = Some (1, s1)" "mk_inv s1" "unat (freeinode s1) = 2"
      "unat (freeblock s1) = nmeta + 1" "file_of s1 1 = dir_entry_bytes (dirent 1 [46]) @ dir_entry_bytes (dirent 1 [46, 46])"
      "ie_type (disk_entry s1 1) = INODE_DIRECTORY" "\<And>b. fixed_block b \<Longrightarrow> view s1 b = view format_image b"
    by (rule make_root_spec) (rule that)
  have l1: "length (file_of s1 1) = 32" unfolding a(5) by simp
  have b32: "blocks_of 32 = 1" by (simp add: blocks_of_def)
  have p: "2 \<le> unat (freeinode s1)" "unat (freeinode s1) + ?n \<le> NINODES" "length (file_of s1 1) + 16 * ?n \<le> INODE_MAX_BYTES"
      "unat (freeblock s1) + blocks_of (length (file_of s1 1) + 16 * ?n) + data_need files \<le> FSSIZE + blocks_of (length (file_of s1 1))"
    unfolding l1 a(3,4) using n need by (simp_all add: b32 fs_sizes NINODES_def mkfs_need_def)
  from add_files_spec [OF a(2) p(1,2) all p(3,4)] obtain s2 where
    b: "add_files 1 files s1 = Some s2" "mk_inv s2" "unat (freeinode s2) = ?m"
      "unat (freeblock s2) + blocks_of 32 = unat (freeblock s1) + blocks_of ?l + data_need files"
      "file_of s2 1 = file_of s1 1 @ dir_list 2 files" "ie_type (disk_entry s2 1) = ie_type (disk_entry s1 1)"
      "\<forall>k<?n. file_of s2 (2 + k) = file_data (files ! k) \<and> ie_type (disk_entry s2 (2 + k)) = INODE_REGULAR"
      "mk_frame 2 {1} s1 s2"
    unfolding a(3) l1 by blast
  have l2: "length (file_of s2 1) = ?l" unfolding b(5) a(5) by simp
  have m2: "2 \<le> unat (freeinode s2)" using b(3) by simp
  obtain s3 where c: "fix_root_size 1 s2 = Some s3" "img_ok s3" "freeblock s3 = freeblock s2"
      "blocks_inv (disk_entry s3) (view s3) (unat (freeinode s2)) (unat (freeblock s2))"
      "\<And>j V k. j < unat (freeinode s2) \<Longrightarrow> islot (disk_entry s3 j) V k = islot (disk_entry s2 j) V k"
      "ie_num_bytes (disk_entry s3 1) = (ie_num_bytes (disk_entry s2 1) div of_nat BLOCK_SIZE + 1) * of_nat BLOCK_SIZE"
      "ie_type (disk_entry s3 1) = ie_type (disk_entry s2 1)"
      "\<And>j. 1 \<le> j \<Longrightarrow> j < unat (freeinode s2) \<Longrightarrow> exact (disk_entry s3 j) (view s3) (length (file_of s2 j))"
      "content (disk_entry s3 1) (view s3) (length (file_of s2 1)) = file_of s2 1" "mk_frame (unat (freeinode s2)) {1} s2 s3"
    by (rule fix_root_size_spec [OF b(2) m2]) (rule that)
  have f3: "unat (freeblock s3) = nmeta + mkfs_need files" using b(4) a(4) c(3) by (simp add: b32 mkfs_need_def)
  then have f3F: "unat (freeblock s3) \<le> FSSIZE" using need by simp
  obtain s d where e: "balloc (sint (freeblock s3)) s3 = Some s" "view s = (view s3)(91 := d)" "img_ok s"
      "\<And>n. n < FSSIZE \<Longrightarrow> allocated mk_sb (view s) n \<longleftrightarrow> n < unat (freeblock s3)"
    by (rule balloc_spec [OF c(2) f3F]) (rule that)
  have fs: "freeblock s = freeblock s3" using e(1) by (auto simp: balloc_def wsect_def Let_def split: if_splits)
  have bm: "unat (91 :: usize) < nmeta" by (simp add: nmeta_eq)
  have en: "disk_entry s j = disk_entry s3 j" if "j < NINODES" for j
  proof -
    have "j div 8 < 26" using that by (simp add: NINODES_def)
    then have "to_block_no mk_sb (of_nat j) \<noteq> 91" using to_block_mk [OF that] by auto
    then show ?thesis by (simp add: disk_entry_def dinode_def e(2))
  qed
  have mN: "?m \<le> NINODES" using n by (simp add: NINODES_def)
  have bi: "blocks_inv (disk_entry s3) (view s3) ?m (unat (freeblock s3))" using c(3,4) b(3) by simp
  have b1: "blocks_inv (disk_entry s3) (view s) ?m (unat (freeblock s))" unfolding e(2) fs by (rule write_meta(1) [OF bi bm])
  have b2: "blocks_inv (disk_entry s) (view s) ?m (unat (freeblock s))"
    by (rule blocks_inv_entries [OF b1]) (use en mN in simp_all)
  have ex3: "exact (disk_entry s3 j) (view s3) (length (file_of s2 j))" if "1 \<le> j" "j < ?m" for j
    using c(8) [of j] that b(3) by simp
  have e1: "disk_entry s 1 = disk_entry s3 1" using en [of 1] by (simp add: NINODES_def)
  have j1: "1 < ?m" by simp
  note c1 = content_meta [OF bi order_refl j1 ex3 [OF order_refl j1] bm, of d, folded e(2) e1, unfolded l2]
  have files: "file_of s (2 + k) = file_data (files ! k) \<and> ie_type (disk_entry s (2 + k)) = INODE_REGULAR" if k: "k < ?n" for k
  proof -
    have j: "1 \<le> 2 + k" "2 + k < ?m" "2 + k < NINODES" using k mN by simp_all
    have d3: "disk_entry s3 (2 + k) = disk_entry s2 (2 + k)" "file_of s3 (2 + k) = file_of s2 (2 + k)"
      using c(10) j b(3) by (simp_all add: mk_frame_def)
    have x3: "exact (disk_entry s3 (2 + k)) (view s3) (unat (ie_num_bytes (disk_entry s3 (2 + k))))"
      using ex3 [OF j(1,2)] d3(1) by simp
    have "file_of s (2 + k) = file_of s3 (2 + k)"
      using content_meta(2) [OF bi j(1,2) x3 bm, of d] by (simp only: file_of_def en [OF j(3)] e(2))
    then show ?thesis using d3 b(7) k en [OF j(3)] by simp
  qed
  have exf: "exact (disk_entry s (2 + k)) (view s) (unat (ie_num_bytes (disk_entry s (2 + k))))" if k: "k < ?n" for k
  proof -
    have j: "1 \<le> 2 + k" "2 + k < ?m" "2 + k < NINODES" using k mN by simp_all
    have "disk_entry s3 (2 + k) = disk_entry s2 (2 + k)" using c(10) j b(3) by (simp add: mk_frame_def)
    then have "exact (disk_entry s3 (2 + k)) (view s3) (unat (ie_num_bytes (disk_entry s3 (2 + k))))"
      using ex3 [OF j(1,2)] by simp
    from content_meta(1) [OF bi j(1,2) this bm, of d] show ?thesis by (simp only: en [OF j(3)] e(2))
  qed
  have nb2: "unat (ie_num_bytes (disk_entry s2 1)) = ?l" using l2 by simp
  have nb: "unat (ie_num_bytes (disk_entry s 1)) = (?l div 512 + 1) * 512"
  proof -
    have q: "?l div 512 < 7" using n by simp
    have "unat (ie_num_bytes (disk_entry s2 1) div 512) = ?l div 512" by (simp only: unat_div nb2) simp
    then have "unat (ie_num_bytes (disk_entry s2 1) div 512 + 1) = ?l div 512 + 1" using q by (subst unat_word_ariths) simp
    then have "unat ((ie_num_bytes (disk_entry s2 1) div 512 + 1) * 512) = (?l div 512 + 1) * 512"
      using q by (subst unat_word_ariths) simp
    then show ?thesis using c(6) e1 by (simp add: fs_sizes)
  qed
  have run: "mkfs_main files = Some s" using a(1) b(1) c(1) e(1) by (simp add: mkfs_main_def)
  have v0: "view s 0 = put_bytes 0 (super_block_bytes mk_sb) zeroes"
  proof -
    have z: "fixed_block 0" by (simp add: fixed_block_def)
    have "view s3 0 = view s2 0" "view s2 0 = view s1 0" using c(10) b(8) z by (simp_all add: mk_frame_def)
    then show ?thesis using a(7) [OF z] format_image_facts(4) by (simp add: e(2))
  qed
  have co: "content (disk_entry s 1) (view s) ?l
       = dir_entry_bytes (dirent 1 [46]) @ dir_entry_bytes (dirent 1 [46, 46]) @ dir_list 2 files"
    using c1(2) c(9) b(5) a(5) unfolding l2 e1 by simp
  have fb: "unat (freeblock s) = nmeta + mkfs_need files" using f3 fs by simp
  have ty: "ie_type (disk_entry s 1) = INODE_DIRECTORY" using e1 c(7) b(6) a(6) by simp
  show ?thesis
    by (rule that [OF run e(3) fb v0 files ty nb c1(1) co b2 e(4) [folded fs] exf])
qed

section \<open>What the kernel finds\<close>

lemma mk_log_nos: "x \<in> log_nos mk_sb \<longleftrightarrow> 2 \<le> unat x \<and> unat x \<le> 65"
proof
  assume "x \<in> log_nos mk_sb"
  then obtain k where k: "k \<le> 63" "x = 2 + of_nat k" by (auto simp: log_nos_def mk_sb_def fs_sizes)
  then have "unat x = 2 + k" by (simp add: unat_add_no_wrap unat_of_nat_u64)
  then show "2 \<le> unat x \<and> unat x \<le> 65" using k(1) by simp
next
  assume x: "2 \<le> unat x \<and> unat x \<le> 65"
  have "x = 2 + of_nat (unat x - 2)" using x by (simp add: of_nat_diff)
  moreover have "unat x - 2 \<le> 63" using x by linarith
  ultimately show "x \<in> log_nos mk_sb"
    unfolding log_nos_def by (intro image_eqI [of _ _ "unat x - 2"]) (simp_all add: mk_sb_def fs_sizes)
qed

lemma data_usable: "nmeta \<le> unat x \<Longrightarrow> op_usable mk_sb (ucast (x :: u32))"
proof -
  assume x: "nmeta \<le> unat x"
  then have "92 \<le> unat (ucast x :: usize)" by (simp add: nmeta_eq)
  moreover from this have "ucast x \<noteq> (0 :: usize)" by (metis not_numeral_le_zero unat_0)
  ultimately show ?thesis by (simp add: op_usable_def mk_log_nos)
qed

lemma exact_file_ok:
  assumes inv: "blocks_inv E V m f" and i: "1 \<le> i" "i < m" and ex: "exact (E i) V n"
  shows "file_ok mk_sb (E i) V n"
  unfolding file_ok_def
proof (intro conjI allI impI)
  show n: "n \<le> INODE_MAX_BYTES" using ex by (simp add: exact_def)
  have us: "islot (E i) V j \<noteq> 0 \<and> op_usable mk_sb (ucast (islot (E i) V j))" if "j < NSLOTS" "slot_block j * BLOCK_SIZE < n" for j
  proof -
    have nz: "islot (E i) V j \<noteq> 0" using ex that by (simp add: exact_def)
    then show ?thesis using slot_range(1) [OF inv i that(1) nz] data_usable by blast
  qed
  fix k
  {
    assume k: "k * BLOCK_SIZE < n"
    then have "k < 140" using n by (simp add: fs_sizes)
    with us [of "fslot k"] k have "islot (E i) V (fslot k) \<noteq> 0 \<and> op_usable mk_sb (ucast (islot (E i) V (fslot k)))" by simp
    then show "fblock (E i) V k \<noteq> 0" "op_usable mk_sb (ucast (fblock (E i) V k))" by (simp_all add: fblock_islot)
  }
  assume "INODE_NUM_DIRECT * BLOCK_SIZE < n"
  then have "slot_block 12 * BLOCK_SIZE < n" by (simp add: slot_block_def fs_sizes)
  from us [OF _ this] show "ie_indirect (E i) \<noteq> 0" "op_usable mk_sb (ucast (ie_indirect (E i)))"
    by (simp_all add: islot_def NSLOTS_def)
qed

text \<open>
  C7: \<open>mkfs\<close> builds the file system it was asked for.  When the inodes, the blocks and the sizes of
  the input files fit, it ends, block 0 holds the super block, inode \<open>2 + k\<close> is a regular file whose
  bytes, as the kernel finds them through the addresses, are those of input file \<open>k\<close>, every block of
  it is one the kernel may use, and the root directory lists \<open>.\<close>, \<open>..\<close> and the names of the input
  files with these inodes, in their order.
\<close>

theorem mkfs_files:
  assumes "mkfs_fits files"
  shows "\<exists>s. mkfs_main files = Some s \<and> super_block_of (view s 0) = mk_sb
    \<and> (\<forall>k<length files. file_of s (2 + k) = file_data (files ! k) \<and> ie_type (disk_entry s (2 + k)) = INODE_REGULAR
         \<and> file_ok mk_sb (disk_entry s (2 + k)) (view s) (unat (ie_num_bytes (disk_entry s (2 + k)))))
    \<and> ie_type (disk_entry s 1) = INODE_DIRECTORY \<and> file_ok mk_sb (disk_entry s 1) (view s) (32 + 16 * length files)
    \<and> content (disk_entry s 1) (view s) (32 + 16 * length files)
       = dir_entry_bytes (dirent 1 [46]) @ dir_entry_bytes (dirent 1 [46, 46]) @ dir_list 2 files"
proof -
  obtain s where s: "mkfs_main files = Some s" "img_ok s" "unat (freeblock s) = nmeta + mkfs_need files"
      "view s 0 = put_bytes 0 (super_block_bytes mk_sb) zeroes"
      "\<And>k. k < length files \<Longrightarrow> file_of s (2 + k) = file_data (files ! k) \<and> ie_type (disk_entry s (2 + k)) = INODE_REGULAR"
      "ie_type (disk_entry s 1) = INODE_DIRECTORY"
      "unat (ie_num_bytes (disk_entry s 1)) = ((32 + 16 * length files) div 512 + 1) * 512"
      "exact (disk_entry s 1) (view s) (32 + 16 * length files)"
      "content (disk_entry s 1) (view s) (32 + 16 * length files)
         = dir_entry_bytes (dirent 1 [46]) @ dir_entry_bytes (dirent 1 [46, 46]) @ dir_list 2 files"
      "blocks_inv (disk_entry s) (view s) (2 + length files) (unat (freeblock s))"
      "\<And>n. n < FSSIZE \<Longrightarrow> allocated mk_sb (view s) n \<longleftrightarrow> n < unat (freeblock s)"
      "\<And>k. k < length files \<Longrightarrow> exact (disk_entry s (2 + k)) (view s) (unat (ie_num_bytes (disk_entry s (2 + k))))"
    by (rule mkfs_run [OF assms]) (rule that)
  have "super_block_of (view s 0) = mk_sb" using s(4) super_block_roundtrip by (simp add: put_bytes_def)
  moreover have "file_ok mk_sb (disk_entry s (2 + k)) (view s) (unat (ie_num_bytes (disk_entry s (2 + k))))" if "k < length files" for k
    by (rule exact_file_ok [OF s(10) _ _ s(12) [OF that]]) (use that in simp_all)
  moreover have "file_ok mk_sb (disk_entry s 1) (view s) (32 + 16 * length files)"
    by (rule exact_file_ok [OF s(10) _ _ s(8)]) simp_all
  ultimately show ?thesis using s(1,5,6,9) by blast
qed

theorem mkfs_files_witness:
  "\<exists>s. mkfs_main [([47, 95, 97], Some [[1, 2, 3], [4]])] = Some s \<and> file_of s 2 = [1, 2, 3, 4]"
proof -
  let ?f = "[([47, 95, 97], Some [[1, 2, 3], [4]])] :: (u8 list \<times> u8 list list option) list"
  have "mkfs_fits ?f"
    by (simp add: mkfs_fits_def mkfs_need_def data_need_def file_data_def blocks_of_def nmeta_eq FSSIZE_def NINODES_def fs_sizes)
  from mkfs_files [OF this] show ?thesis by (auto simp: file_data_def)
qed

text \<open>
  C8: the bitmap that \<open>mkfs\<close> writes marks, as the allocator of the kernel reads it, the blocks of
  the metadata and exactly those blocks that an address of some inode names, and no block is named
  twice.
\<close>

theorem mkfs_bitmap_exact:
  assumes "mkfs_fits files"
  shows "\<exists>s. mkfs_main files = Some s
    \<and> (\<forall>b<FSSIZE. allocated mk_sb (view s) b \<longleftrightarrow> b < nmeta \<or>
         (\<exists>i j. 1 \<le> i \<and> i < 2 + length files \<and> j < NSLOTS \<and> unat (islot (disk_entry s i) (view s) j) = b))
    \<and> inj_on (\<lambda>(i, j). islot (disk_entry s i) (view s) j)
         {(i, j). 1 \<le> i \<and> i < 2 + length files \<and> j < NSLOTS \<and> islot (disk_entry s i) (view s) j \<noteq> 0}"
proof -
  obtain s where s: "mkfs_main files = Some s" "blocks_inv (disk_entry s) (view s) (2 + length files) (unat (freeblock s))"
      "\<And>n. n < FSSIZE \<Longrightarrow> allocated mk_sb (view s) n \<longleftrightarrow> n < unat (freeblock s)"
    by (rule mkfs_run [OF assms]) (rule that)
  let ?m = "2 + length files" and ?E = "disk_entry s" and ?V = "view s" and ?f = "unat (freeblock s)"
  have b: "bij_betw (slotno ?E ?V) (used ?E ?V ?m) {nmeta..<?f}" using s(2) by (simp add: blocks_inv_def)
  have "x < ?f \<longleftrightarrow> x < nmeta \<or> (\<exists>i j. 1 \<le> i \<and> i < ?m \<and> j < NSLOTS \<and> unat (islot (?E i) ?V j) = x)" for x
  proof
    assume "x < ?f"
    show "x < nmeta \<or> (\<exists>i j. 1 \<le> i \<and> i < ?m \<and> j < NSLOTS \<and> unat (islot (?E i) ?V j) = x)"
    proof (cases "x < nmeta")
      case False
      then have "x \<in> slotno ?E ?V ` used ?E ?V ?m" using b \<open>x < ?f\<close> by (auto simp: bij_betw_def)
      then show ?thesis by (auto simp: used_def slotno_def)
    qed simp
  next
    assume "x < nmeta \<or> (\<exists>i j. 1 \<le> i \<and> i < ?m \<and> j < NSLOTS \<and> unat (islot (?E i) ?V j) = x)"
    moreover have "nmeta \<le> ?f" using s(2) by (simp add: blocks_inv_def)
    moreover have "x < ?f" if ij: "1 \<le> i" "i < ?m" "j < NSLOTS" "unat (islot (?E i) ?V j) = x" "\<not> x < nmeta" for i j
    proof -
      have "islot (?E i) ?V j \<noteq> 0" using ij(4,5) by (auto simp: nmeta_eq)
      then show ?thesis using slot_range(2) [OF s(2) ij(1-3)] ij(4) by simp
    qed
    ultimately show "x < ?f" by (cases "x < nmeta") auto
  qed
  moreover have "inj_on (\<lambda>(i, j). islot (?E i) ?V j) {(i, j). 1 \<le> i \<and> i < ?m \<and> j < NSLOTS \<and> islot (?E i) ?V j \<noteq> 0}"
  proof (rule inj_onI, clarify)
    fix i j i' j' assume "1 \<le> i" "i < ?m" "j < NSLOTS" "1 \<le> i'" "i' < ?m" "j' < NSLOTS"
      "islot (?E i) ?V j \<noteq> 0" "islot (?E i) ?V j = islot (?E i') ?V j'"
    then show "i = i' \<and> j = j'" by (rule slot_inj [OF s(2)])
  qed
  ultimately show ?thesis using s(1,3) by (intro exI [of _ s] conjI allI impI) simp_all
qed

theorem mkfs_bitmap_exact_witness: "\<exists>s. mkfs_main [] = Some s \<and> allocated mk_sb (view s) 0"
proof -
  have "mkfs_fits []" by (simp add: mkfs_fits_def mkfs_need_def data_need_def blocks_of_def nmeta_eq FSSIZE_def NINODES_def)
  from mkfs_bitmap_exact [OF this] show ?thesis by (auto simp: FSSIZE_def nmeta_eq)
qed

text \<open>
  \<open>mkfs\<close> rounds the size of the root directory up by a whole block when its entries fill their
  blocks exactly, as they do with 30 files.  Then the size goes past the blocks of the directory: its
  last block has address 0, and the directory is not one the kernel can read to its end.
\<close>

theorem root_size_past_end:
  assumes "mkfs_fits files" "(2 + length files) mod 32 = 0"
  shows "\<exists>s. mkfs_main files = Some s
    \<and> fblock (disk_entry s 1) (view s) (unat (ie_num_bytes (disk_entry s 1)) div 512 - 1) = 0
    \<and> \<not> file_ok mk_sb (disk_entry s 1) (view s) (unat (ie_num_bytes (disk_entry s 1)))"
proof -
  obtain s where s: "mkfs_main files = Some s"
      "unat (ie_num_bytes (disk_entry s 1)) = ((32 + 16 * length files) div 512 + 1) * 512"
      "exact (disk_entry s 1) (view s) (32 + 16 * length files)"
    by (rule mkfs_run [OF assms(1)]) (rule that)
  from assms(2) obtain q where q: "2 + length files = 32 * q" by blast
  then have l: "32 + 16 * length files = 512 * q" by simp
  have "2 + length files \<le> 200" using assms(1) by (simp add: mkfs_fits_def NINODES_def)
  then have q12: "q < 12" using q by simp
  have nb: "unat (ie_num_bytes (disk_entry s 1)) = (q + 1) * 512" using s(2) unfolding l by simp
  have "slot_block q = q" "q < NSLOTS" using q12 by (simp_all add: slot_block_def NSLOTS_def)
  then have "islot (disk_entry s 1) (view s) q = 0" using s(3) unfolding l by (auto simp: exact_def fs_sizes)
  then have z: "fblock (disk_entry s 1) (view s) q = 0" using q12 by (simp add: islot_def fblock_def fs_sizes)
  have k: "unat (ie_num_bytes (disk_entry s 1)) div 512 - 1 = q" unfolding nb by simp
  have "q * BLOCK_SIZE < unat (ie_num_bytes (disk_entry s 1))" unfolding nb by (simp add: fs_sizes)
  then have "\<not> file_ok mk_sb (disk_entry s 1) (view s) (unat (ie_num_bytes (disk_entry s 1)))"
    using z unfolding file_ok_def by blast
  then show ?thesis using s(1) z unfolding k [symmetric] by blast
qed

theorem root_size_past_end_witness:
  "\<exists>s. mkfs_main (replicate 30 ([97], Some [[1]])) = Some s
    \<and> \<not> file_ok mk_sb (disk_entry s 1) (view s) (unat (ie_num_bytes (disk_entry s 1)))"
proof -
  let ?f = "replicate 30 ([97], Some [[1]]) :: (u8 list \<times> u8 list list option) list"
  have "data_need ?f = 30" by (simp add: data_need_def file_data_def blocks_of_def sum_list_replicate)
  then have "mkfs_fits ?f"
    by (simp add: mkfs_fits_def mkfs_need_def blocks_of_def nmeta_eq FSSIZE_def NINODES_def file_data_def list_all_iff fs_sizes)
  from root_size_past_end [OF this] show ?thesis by auto
qed

section \<open>The log of the kernel on this layout\<close>

text \<open>
  C12: on the super block that \<open>mkfs\<close> writes, the log of the kernel and the inodes overlap.  The
  kernel keeps its header in the first log block and up to \<open>LOG_MAX_SIZE\<close> = 63 blocks behind it, while
  \<open>mkfs\<close> reserves 63 blocks with the header, so the last one is the block of the inodes 0 to 7.  A
  commit of a full log puts the bytes of its last block in place of these inodes, the root directory
  among them.
\<close>

theorem log_overlaps_inodes:
  assumes "log_ready st" "sblock st = mk_sb" "unat (lh_num_blocks (header st)) = LOG_MAX_SIZE" "n < 8"
  shows "\<exists>st'. commit st = Some st' \<and> dinode mk_sb (disk st') n = get_entry (cview st (lh_block_no (header st) ! 62)) n"
proof -
  have l: "LOG_MAX_SIZE = 63" by (simp add: fs_sizes)
  have u: "unat n < 8" using assms(4) by (simp add: word_less_nat_alt)
  have "to_block_no mk_sb n = 65"
  proof -
    have "n div 8 = 0" using u by (simp add: word_unat_eq_iff unat_div)
    then show ?thesis by (simp add: to_block_no_def mk_sb_def mkfs_layout fs_sizes)
  qed
  then have b: "to_block_no mk_sb n = log_block st 62" by (simp add: log_block_def assms(2) mk_sb_def)
  have "idle_cache st" "wf_header (sblock st) (header st)" "pinned_nos st = set (log_entries (header st))"
    using assms(1) by (auto simp: log_ready_def)
  from commit_spec [OF this] obtain st' where c: "commit st = Some st'" "disk st' = apply_writes (disk st) (commit_writes st)" by blast
  let ?k = "length (commit_writes st)"
  have k: "unat (lh_num_blocks (header st)) < ?k" by (simp add: commit_writes_def Let_def copies_def)
  have "apply_writes (disk st) (take ?k (commit_writes st)) (log_block st 62) = cview st (lh_block_no (header st) ! 62)"
    by (rule commit_prefix(5) [OF assms(1) k]) (simp add: assms(3) l)
  then show ?thesis using c by (simp add: dinode_def b)
qed

definition full_log :: cachest where
  "full_log = \<lparr>sblock = mk_sb, disk = (\<lambda>_. replicate BLOCK_SIZE 0), wtrace = [],
     bheap = (\<lambda>i. \<lparr>block_no = 100 + of_nat i, acquired = False, pinned = True, locked = False, valid = True, bdata = replicate BLOCK_SIZE 7\<rparr>),
     head = [0..<63], bfresh = 63, header = \<lparr>lh_num_blocks = 63, lh_block_no = map (\<lambda>i. 100 + of_nat i) [0..<63]\<rparr>,
     committing = True, outstanding = 0, log_lock = 0\<rparr>"

lemma full_log_no:
  assumes "i < 63" shows "unat (100 + of_nat i :: usize) = 100 + i"
  using assms by (simp add: unat_add_no_wrap unat_of_nat_u64)

lemma full_log_ready: "log_ready full_log"
proof -
  have inj: "(of_nat i :: usize) = of_nat j \<longleftrightarrow> i = j" if "i < 63" "j < 63" for i j
    using word_add_offset_eq_iff [of i j 0] that by simp
  have nz: "(100 + of_nat i :: usize) \<noteq> 0" "(100 + of_nat i :: usize) \<noteq> 2" "(100 + of_nat i :: usize) \<notin> log_nos mk_sb" if "i < 63" for i
  proof -
    have u: "unat (100 + of_nat i :: usize) = 100 + i" by (rule full_log_no [OF that])
    then have "unat (100 + of_nat i :: usize) \<noteq> unat (0 :: usize)" "unat (100 + of_nat i :: usize) \<noteq> unat (2 :: usize)" by simp_all
    then show "(100 + of_nat i :: usize) \<noteq> 0" "(100 + of_nat i :: usize) \<noteq> 2" by metis+
    show "(100 + of_nat i :: usize) \<notin> log_nos mk_sb" using u by (simp add: mk_log_nos)
  qed
  have h: "header_no full_log = 2" "log_start mk_sb \<noteq> 0" by (simp_all add: full_log_def mk_sb_def)
  have e: "log_entries (header full_log) = map (\<lambda>i. 100 + of_nat i) [0..<63]" by (simp add: full_log_def log_entries_def)
  have ci: "cache_inv full_log"
    unfolding cache_inv_def using inj nz h(1) by (auto simp: full_log_def)
  have lk: "locked_nos full_log = {}" by (simp add: locked_nos_def full_log_def)
  have "wf_header mk_sb (header full_log)"
    unfolding wf_header_def e using h(2) nz inj by (auto simp: full_log_def distinct_map inj_on_def fs_sizes)
  moreover have "pinned_nos full_log = set (log_entries (header full_log))"
    unfolding e by (auto simp: pinned_nos_def full_log_def)
  moreover have "lh_num_blocks (log_header_of (disk full_log (header_no full_log))) = 0"
    by (simp add: full_log_def log_header_of_def le_words_zero)
  ultimately show ?thesis using ci lk by (simp add: log_ready_def idle_cache_def) (simp add: full_log_def)
qed

theorem log_overlaps_inodes_witness:
  "\<exists>st st'. log_ready st \<and> commit st = Some st' \<and> ie_type (dinode mk_sb (disk st') 1) = 0x0707"
proof -
  have p: "sblock full_log = mk_sb" "unat (lh_num_blocks (header full_log)) = LOG_MAX_SIZE" "(1 :: usize) < 8"
    by (simp_all add: full_log_def fs_sizes)
  from log_overlaps_inodes [OF full_log_ready p] obtain st' where
    c: "commit full_log = Some st'" "dinode mk_sb (disk st') 1 = get_entry (cview full_log (lh_block_no (header full_log) ! 62)) 1" by blast
  have n: "lh_block_no (header full_log) ! 62 = 162" by (simp add: full_log_def)
  have "find (\<lambda>i. block_no (bheap full_log i) = 162 \<and> valid (bheap full_log i)) (head full_log) \<noteq> None"
    unfolding find_None_iff by (auto simp: full_log_def intro: exI [of _ 62])
  then have "cview full_log 162 = replicate BLOCK_SIZE 7" by (auto simp: cview_def full_log_def)
  moreover have "ie_type (get_entry (replicate BLOCK_SIZE 7) 1) = 0x0707"
  proof -
    have t: "ie_type (inode_entry_of d) = le_word (take 2 d)" for d
    proof -
      have N: "(4 :: nat) = Suc 3" by simp
      have "le_words 2 4 d ! 0 = (le_word (take 2 d) :: u16)" by (simp only: N le_words.simps nth_Cons_0)
      then show ?thesis by (simp add: inode_entry_of_def Let_def)
    qed
    have "take 2 (get_bytes (entry_offset 1) 64 (replicate BLOCK_SIZE 7)) = [7, 7]"
      by (simp add: get_bytes_def entry_offset_def fs_sizes take_replicate) (simp add: numeral_2_eq_2)
    then show ?thesis by (simp add: get_entry_def t)
  qed
  ultimately have "ie_type (dinode mk_sb (disk st') 1) = 0x0707" unfolding c(2) n by simp
  then show ?thesis using full_log_ready c(1) by blast
qed

end
