(* ===== verification/Mmu.thy ===== *)
theory Mmu
  imports Prelude
begin

text \<open>
  The macros of \<open>aarch64/mmu.h\<close> and \<open>driver/memlayout.h\<close>: page geometry, the address spaces, the
  fields of a page table entry and the indices of a virtual address; with the arithmetic of pages
  that the allocator and the page tables rest on.
\<close>

section \<open>Definitions\<close>

definition PAGE_SIZE :: nat where "PAGE_SIZE = 4096"
definition N_PTE_PER_TABLE :: nat where "N_PTE_PER_TABLE = 512"
definition PHYSTOP :: u64 where "PHYSTOP = 0x3f000000"
definition KSPACE_MASK :: u64 where "KSPACE_MASK = 0xffff000000000000"

definition K2P :: "u64 \<Rightarrow> u64" where "K2P addr = addr - KSPACE_MASK"
definition P2K :: "u64 \<Rightarrow> u64" where "P2K addr = addr + KSPACE_MASK"
definition KSPACE :: "u64 \<Rightarrow> u64" where "KSPACE addr = addr OR KSPACE_MASK"
definition PSPACE :: "u64 \<Rightarrow> u64" where "PSPACE addr = addr AND NOT KSPACE_MASK"

definition PTE_VALID :: u64 where "PTE_VALID = 1"
definition PTE_TABLE :: u64 where "PTE_TABLE = 3"
definition PTE_BLOCK :: u64 where "PTE_BLOCK = 1"
definition PTE_PAGE :: u64 where "PTE_PAGE = 3"
definition PTE_KERNEL :: u64 where "PTE_KERNEL = 0"
definition PTE_USER :: u64 where "PTE_USER = 0x40"
definition PTE_RO :: u64 where "PTE_RO = 0x80"
definition PTE_RW :: u64 where "PTE_RW = 0"
definition SH_OUTER :: u64 where "SH_OUTER = push_bit 8 2"
definition AF_USED :: u64 where "AF_USED = push_bit 10 1"
definition MT_NORMAL :: u64 where "MT_NORMAL = 1"
definition PTE_NORMAL :: u64 where "PTE_NORMAL = push_bit 2 MT_NORMAL OR AF_USED OR SH_OUTER"
definition PTE_USER_DATA :: u64 where "PTE_USER_DATA = PTE_USER OR PTE_NORMAL OR PTE_PAGE"
definition PTE_HIGH_NX :: u64 where "PTE_HIGH_NX = push_bit 54 1"

definition VA_OFFSET :: "u64 \<Rightarrow> u64" where "VA_OFFSET va = va AND 0xFFF"
definition PTE_ADDRESS :: "u64 \<Rightarrow> u64" where "PTE_ADDRESS pte = pte AND NOT 0xFFFF000000000FFF"
definition PTE_FLAGS :: "u64 \<Rightarrow> u64" where "PTE_FLAGS pte = pte AND 0xFFFF000000000FFF"
definition P2N :: "u64 \<Rightarrow> u64" where "P2N addr = drop_bit 12 addr"
definition PAGE_BASE :: "u64 \<Rightarrow> u64" where "PAGE_BASE addr = addr AND NOT 0xFFF"

definition VA_PART0 :: "u64 \<Rightarrow> nat" where "VA_PART0 va = unat (drop_bit 39 (va AND 0xFF8000000000))"
definition VA_PART1 :: "u64 \<Rightarrow> nat" where "VA_PART1 va = unat (drop_bit 30 (va AND 0x7FC0000000))"
definition VA_PART2 :: "u64 \<Rightarrow> nat" where "VA_PART2 va = unat (drop_bit 21 (va AND 0x3FE00000))"
definition VA_PART3 :: "u64 \<Rightarrow> nat" where "VA_PART3 va = unat (drop_bit 12 (va AND 0x1FF000))"

section \<open>Pages and offsets\<close>

text \<open>The page of an address and the offset in its page, as numbers.\<close>

definition page_no :: "u64 \<Rightarrow> nat" where "page_no a = unat a div PAGE_SIZE"
definition page_off :: "u64 \<Rightarrow> nat" where "page_off a = unat a mod PAGE_SIZE"

lemma page_off_less [simp]: "page_off a < 4096"
  by (simp add: page_off_def PAGE_SIZE_def)

lemma page_addr_eq_iff: "a = b \<longleftrightarrow> page_no a = page_no b \<and> page_off a = page_off b"
  by (metis div_mult_mod_eq page_no_def page_off_def word_unat_eq_iff)

lemma page_decomp: "unat a = page_no a * 4096 + page_off a" "page_no a < 4503599627370496"
proof -
  show "unat a = page_no a * 4096 + page_off a" by (simp add: page_no_def page_off_def PAGE_SIZE_def)
  have "unat a < 18446744073709551616" by (rule unat_u64_less)
  then show "page_no a < 4503599627370496" by (simp add: page_no_def PAGE_SIZE_def less_mult_imp_div_less)
qed

lemma page_unique:
  assumes "unat b = p * 4096 + r" "r < 4096" shows "page_no b = p" "page_off b = r"
  using assms by (simp_all add: page_no_def page_off_def PAGE_SIZE_def)

lemma page_add:
  assumes "page_off a + n < 4096"
  shows "unat (a + of_nat n) = unat a + n" "page_no (a + of_nat n) = page_no a" "page_off (a + of_nat n) = page_off a + n"
proof -
  have "unat a + n < 18446744073709551616" using page_decomp [of a] assms by linarith
  moreover have "unat (of_nat n :: u64) = n" by (rule unat_of_nat_u64) (use assms in linarith)
  ultimately show u: "unat (a + of_nat n) = unat a + n" using unat_add_no_wrap by metis
  then have "unat (a + of_nat n) = page_no a * 4096 + (page_off a + n)" using page_decomp(1) [of a] by linarith
  from page_unique [OF this assms] show "page_no (a + of_nat n) = page_no a" "page_off (a + of_nat n) = page_off a + n" .
qed

lemma unat_sub_page_off: "unat (a - of_nat (page_off a)) = page_no a * 4096"
proof -
  have "unat (of_nat (page_off a) :: u64) = page_off a"
    by (rule unat_of_nat_u64) (rule less_trans [OF page_off_less], simp)
  then show ?thesis using page_decomp(1) [of a] by (simp add: unat_sub_if')
qed

lemma page_start:
  "page_no (a - of_nat (page_off a)) = page_no a" "page_off (a - of_nat (page_off a)) = 0"
  using page_unique [of "a - of_nat (page_off a)" "page_no a" 0] unat_sub_page_off [of a] by simp_all

end
