(* ===== verification/Mem.thy ===== *)
theory Mem
  imports Mmu Clist Cstring
begin

text \<open>
  The physical page allocator and the kernel heap (\<open>kernel/mem.c\<close>).  Free pages and free heap blocks
  are linked through their own first word, so the state has the memory itself: \<open>mword\<close> is the 8-byte
  word at an address (all accesses of the allocator are to multiples of 8).  \<open>page_lock\<close> and
  \<open>mem_lock\<close> are held for the whole of every operation, so an operation is one step.  The use of a
  NULL pointer as a block or a page is the value \<^const>\<open>None\<close>, like a panic.
\<close>

section \<open>State and operations\<close>

record memst =
  mword :: "ptr \<Rightarrow> u64"
  memory_table :: "ptr list"
  alloc_page_cnt :: RefCount
  pages :: ptr
  page_refs :: "nat \<Rightarrow> RefCount"
  zero_page :: ptr

definition N_PAGE_REFS :: nat where
  "N_PAGE_REFS = unat (PAGE_BASE PHYSTOP + of_nat PAGE_SIZE) div PAGE_SIZE"

definition page_idx :: "ptr \<Rightarrow> nat" where
  "page_idx p = unat (K2P p) div PAGE_SIZE"

definition memset_page :: "ptr \<Rightarrow> (ptr \<Rightarrow> u64) \<Rightarrow> ptr \<Rightarrow> u64" where
  "memset_page p m = (\<lambda>a. if unat p \<le> unat a \<and> unat a < unat p + PAGE_SIZE then 0 else m a)"

definition add_page :: "ptr \<Rightarrow> memst \<Rightarrow> memst" where
  "add_page p s = (let (hd', m') = add_to_queue (pages s) p (mword s) in s\<lparr>pages := hd', mword := m'\<rparr>)"

function add_pages :: "ptr \<Rightarrow> memst \<Rightarrow> memst" where
  "add_pages p s = (if p < P2K PHYSTOP then add_pages (p + of_nat PAGE_SIZE) (add_page p s) else s)"
  by pat_completeness auto

termination add_pages
proof (relation "measure (\<lambda>(p, s). unat (P2K PHYSTOP) - unat p)")
  fix p :: ptr and s :: memst
  assume "p < P2K PHYSTOP"
  then have "unat p < unat (P2K PHYSTOP)" by (simp add: word_less_nat_alt)
  moreover have "unat (P2K PHYSTOP) = 18446462599789805568" by (simp add: P2K_def PHYSTOP_def KSPACE_MASK_def)
  ultimately have "unat p < 18446462599789805568" by simp
  then have "unat (p + of_nat PAGE_SIZE) = unat p + 4096"
    using unat_add_no_wrap [of p "of_nat PAGE_SIZE"] by (simp add: PAGE_SIZE_def)
  with \<open>unat p < unat (P2K PHYSTOP)\<close> show "((p + of_nat PAGE_SIZE, add_page p s), p, s) \<in> measure (\<lambda>(p, s). unat (P2K PHYSTOP) - unat p)"
    by simp
qed simp

declare add_pages.simps [simp del]

definition init_pages :: "ptr \<Rightarrow> memst \<Rightarrow> memst" where
  "init_pages kend s = (add_pages (PAGE_BASE kend + of_nat PAGE_SIZE) s)\<lparr>memory_table := replicate 13 NULL\<rparr>"

definition init_alloc_page_cnt :: "memst \<Rightarrow> memst" where
  "init_alloc_page_cnt s = s\<lparr>alloc_page_cnt := init_rc\<rparr>"

definition kalloc_page :: "memst \<Rightarrow> (ptr \<times> memst) option" where
  "kalloc_page s =
     (let cnt = increment_rc (alloc_page_cnt s);
          (new_page, hd') = fetch_from_queue (pages s) (mword s)
      in do { ASSERT (new_page \<noteq> NULL);
              ASSERT (page_idx new_page < N_PAGE_REFS);
              Some (new_page, s\<lparr>alloc_page_cnt := cnt, pages := hd', mword := memset_page new_page (mword s),
                                 page_refs := (page_refs s)(page_idx new_page := 1)\<rparr>) })"

definition PAGE_COUNT :: "ptr \<Rightarrow> u64" where
  "PAGE_COUNT kend = (P2K PHYSTOP - PAGE_BASE kend) div of_nat PAGE_SIZE - 1"

definition left_page_cnt :: "ptr \<Rightarrow> memst \<Rightarrow> u64" where
  "left_page_cnt kend s = PAGE_COUNT kend - alloc_page_cnt s"

definition init_zero_page :: "memst \<Rightarrow> memst option" where
  "init_zero_page s = do { (p, s1) \<leftarrow> kalloc_page s; Some (s1\<lparr>zero_page := p\<rparr>) }"

definition get_zero_page :: "memst \<Rightarrow> ptr" where
  "get_zero_page s = zero_page s"

definition ref_page :: "ptr \<Rightarrow> memst \<Rightarrow> memst option" where
  "ref_page p s =
     do { ASSERT (page_idx p < N_PAGE_REFS);
          Some (s\<lparr>page_refs := (page_refs s)(page_idx p := increment_rc (page_refs s (page_idx p)))\<rparr>) }"

definition kfree_page :: "ptr \<Rightarrow> memst \<Rightarrow> memst option" where
  "kfree_page p s =
     do { ASSERT (page_idx p < N_PAGE_REFS);
          let s1 = s\<lparr>page_refs := (page_refs s)(page_idx p := snd (decrement_rc (page_refs s (page_idx p))))\<rparr>;
          Some (if page_refs s1 (page_idx p) = 0 \<and> p \<noteq> zero_page s1
                then add_page p (s1\<lparr>alloc_page_cnt := snd (decrement_rc (alloc_page_cnt s1))\<rparr>)
                else s1) }"

subsection \<open>Size classes\<close>

function pow_loop :: "u64 \<Rightarrow> u64 \<Rightarrow> u64 \<Rightarrow> u64" where
  "pow_loop ans a b =
     (if b > 0 then pow_loop (if b mod 2 = 1 then ans * a else ans) (a * a) (b div 2) else ans)"
  by pat_completeness auto

termination pow_loop
proof (relation "measure (\<lambda>(ans, a, b). unat b)")
  fix ans a b :: u64
  assume "b > 0"
  then have "0 < unat b" by (simp add: word_less_nat_alt)
  moreover have "unat (b div 2) = unat b div 2" by (simp add: unat_div)
  ultimately show "((if b mod 2 = 1 then ans * a else ans, a * a, b div 2), ans, a, b) \<in> measure (\<lambda>(ans, a, b). unat b)" by simp
qed simp

declare pow_loop.simps [simp del]

definition kpow :: "u64 \<Rightarrow> u64 \<Rightarrow> u64" where
  "kpow a b = pow_loop 1 a b"

fun lowest_pow_loop :: "nat list \<Rightarrow> u64 \<Rightarrow> nat" where
  "lowest_pow_loop [] sz = 12"
| "lowest_pow_loop (i # is) sz = (if sz = 0 then i else lowest_pow_loop is (sz div 2))"

definition get_lowest_pow :: "u64 \<Rightarrow> nat" where
  "get_lowest_pow sz = (if sz = 0 then 0 else lowest_pow_loop [0..<13] (sz - 1))"

subsection \<open>The heap\<close>

definition get_page_header :: "ptr \<Rightarrow> ptr" where
  "get_page_header p = p - p mod of_nat PAGE_SIZE"

definition add_memory :: "u64 \<Rightarrow> ptr \<Rightarrow> memst \<Rightarrow> memst" where
  "add_memory blocksize p s =
     (let mem_key = get_lowest_pow blocksize
      in s\<lparr>mword := (mword s)(p := memory_table s ! mem_key), memory_table := (memory_table s)[mem_key := p]\<rparr>)"

definition pop_memory :: "u64 \<Rightarrow> memst \<Rightarrow> (ptr \<times> memst) option" where
  "pop_memory blocksize s =
     (let mem_key = get_lowest_pow blocksize; ret = memory_table s ! mem_key
      in do { ASSERT (ret \<noteq> NULL);
              Some (ret, s\<lparr>memory_table := (memory_table s)[mem_key := mword s ret]\<rparr>) })"

text \<open>
  The loop that cuts a new page into blocks; \<open>fuel\<close> bounds its rounds and running out of it is
  \<^const>\<open>None\<close>.  A block has at least 8 bytes, so 512 rounds are enough.
\<close>

fun carve :: "nat \<Rightarrow> u64 \<Rightarrow> ptr \<Rightarrow> ptr \<Rightarrow> memst \<Rightarrow> memst option" where
  "carve 0 blocksize page_end p s = None"
| "carve (Suc fuel) blocksize page_end p s =
     (if p + blocksize \<le> page_end then carve fuel blocksize page_end (p + blocksize) (add_memory blocksize p s) else Some s)"

definition kalloc :: "u64 \<Rightarrow> memst \<Rightarrow> (ptr \<times> memst) option" where
  "kalloc size_input s =
     (let sz = (if size_input < 8 then 8 else size_input);
          mem_key = get_lowest_pow sz;
          blocksize = kpow 2 (of_nat mem_key)
      in do { s1 \<leftarrow> (if memory_table s ! mem_key = NULL
                     then do { (pagestart, s1) \<leftarrow> kalloc_page s;
                               carve 512 blocksize (pagestart + of_nat PAGE_SIZE) (pagestart + 64)
                                 (s1\<lparr>mword := (mword s1)(pagestart := blocksize)\<rparr>) }
                     else Some s);
              pop_memory blocksize s1 })"

definition kfree :: "ptr \<Rightarrow> memst \<Rightarrow> memst" where
  "kfree p s = (let pagestart = get_page_header p; blocksize = mword s pagestart in add_memory blocksize p s)"

end
