(* ===== verification/Mem_Props.thy ===== *)
theory Mem_Props
  imports Mem
begin

text \<open>
  The allocator: powers and size classes, the invariant of pages and heap blocks, and what
  \<open>kalloc\<close>, \<open>kfree\<close> and the page operations keep and give.
\<close>

section \<open>Powers and size classes\<close>

lemma unat_power_two: "k < 64 \<Longrightarrow> unat (2 ^ k :: u64) = 2 ^ k"
proof -
  assume "k < 64"
  then have "(2 :: nat) ^ k < 2 ^ 64" by (intro power_strict_increasing) auto
  then show ?thesis using unat_of_nat_u64 [of "2 ^ k"] by simp
qed

lemma pow_loop_power: "pow_loop ans a b = ans * a ^ unat b"
proof (induction ans a b rule: pow_loop.induct)
  case (1 ans a b)
  show ?case
  proof (cases "b > 0")
    case True
    have d: "unat (b div 2) = unat b div 2" and m: "b mod 2 = 1 \<longleftrightarrow> unat b mod 2 = 1"
      by (simp_all add: unat_div word_unat_eq_iff unat_mod)
    have "a ^ unat b = a ^ (unat b mod 2) * (a * a) ^ (unat b div 2)"
      by (metis mod_mult_div_eq power_add power_mult power2_eq_square)
    then show ?thesis using 1 [OF True] True m d
      by (subst pow_loop.simps) (cases "unat b mod 2 = 1"; simp add: mult.assoc)
  next
    case False
    then have "b = 0" using word_gt_0 by blast
    then show ?thesis by (subst pow_loop.simps) simp
  qed
qed

lemma upt_down: "Suc n \<le> 12 \<Longrightarrow> [12 - Suc n..<13] = (12 - Suc n) # [12 - n..<13]"
proof -
  assume n: "Suc n \<le> 12"
  then have "Suc (12 - Suc n) = 12 - n" by arith
  moreover have "12 - Suc n < 13" by simp
  ultimately show ?thesis using upt_conv_Cons by metis
qed

lemma lowest_pow_loop_spec:
  "n \<le> 12 \<Longrightarrow> unat x < 2 ^ n \<Longrightarrow>
     \<exists>d\<le>n. lowest_pow_loop [12 - n..<13] x = 12 - n + d \<and> unat x < 2 ^ d \<and> (d = 0 \<or> 2 ^ (d - 1) \<le> unat x)"
proof (induction n arbitrary: x)
  case 0
  then show ?case by (simp add: unat_eq_0 upt_rec)
next
  case (Suc n)
  have l: "[12 - Suc n..<13] = (12 - Suc n) # [12 - n..<13]" 
    by (rule upt_down) (rule Suc.prems(1))
  show ?case
  proof (cases "x = 0")
    case True
    then show ?thesis using l by auto
  next
    case False
    have h: "unat (x div 2) = unat x div 2" by (simp add: unat_div)
    then have "unat (x div 2) < 2 ^ n" using Suc.prems(2) by simp
    from Suc.IH [OF _ this] Suc.prems(1) obtain d where
      d: "d \<le> n" "lowest_pow_loop [12 - n..<13] (x div 2) = 12 - n + d" "unat x div 2 < 2 ^ d" "d = 0 \<or> 2 ^ (d - 1) \<le> unat x div 2"
      using h by auto
    have "2 ^ d \<le> unat x" using d(4) False by (cases d) (auto simp: unat_gt_0 Suc_le_eq)
    then show ?thesis using d l False Suc.prems(1) by (intro exI [of _ "Suc d"]) auto
  qed
qed

lemma lowest_pow_loop_large:
  "n \<le> 12 \<Longrightarrow> 2 ^ n \<le> unat x \<Longrightarrow> lowest_pow_loop [12 - n..<13] x = 12"
proof (induction n arbitrary: x)
  case 0
  then show ?case by (auto simp: upt_rec)
next
  case (Suc n)
  have l: "[12 - Suc n..<13] = (12 - Suc n) # [12 - n..<13]" 
    by (rule upt_down) (rule Suc.prems(1))
  have "x \<noteq> 0" using Suc.prems(2) by auto
  moreover have "2 ^ n \<le> unat (x div 2)" using Suc.prems(2) by (simp add: unat_div)
  ultimately show ?case using Suc l by simp
qed

lemma get_lowest_pow_small:
  assumes "0 < sz" "unat sz \<le> 4096"
  shows "unat sz \<le> 2 ^ get_lowest_pow sz" "get_lowest_pow sz \<le> 12"
    "\<And>j. j < get_lowest_pow sz \<Longrightarrow> 2 ^ j < unat sz"
proof -
  have nz: "sz \<noteq> 0" using assms by auto
  have p: "unat (sz - 1) = unat sz - 1" "0 < unat sz" using nz by (simp_all add: unat_minus_one unat_gt_0)
  have "unat (sz - 1) < 2 ^ 12" using p assms(2) by simp
  from lowest_pow_loop_spec [OF _ this] nz obtain d where
    d: "d \<le> 12" "get_lowest_pow sz = d" "unat (sz - 1) < 2 ^ d" "d = 0 \<or> 2 ^ (d - 1) \<le> unat (sz - 1)"
    by (auto simp: get_lowest_pow_def)
  show "unat sz \<le> 2 ^ get_lowest_pow sz" "get_lowest_pow sz \<le> 12" using d p by auto
  fix j assume "j < get_lowest_pow sz"
  then have "j \<le> d - 1" "d \<noteq> 0" using d(2) by auto
  then have "2 ^ j \<le> (2 :: nat) ^ (d - 1)" by simp
  then show "2 ^ j < unat sz" using d(4) p \<open>d \<noteq> 0\<close> by linarith
qed

lemma get_lowest_pow_large:
  assumes "2048 < unat sz" shows "get_lowest_pow sz = 12"
proof -
  have nz: "sz \<noteq> 0" using assms by auto
  have p: "unat (sz - 1) = unat sz - 1" using nz by (simp add: unat_minus_one)
  show ?thesis
  proof (cases "unat sz \<le> 4096")
    case True
    have "get_lowest_pow sz \<le> 12" using get_lowest_pow_small(2) True nz by (simp add: word_neq_0_conv)
    moreover have "\<not> get_lowest_pow sz \<le> 11"
    proof
      assume "get_lowest_pow sz \<le> 11"
      then have "(2 :: nat) ^ get_lowest_pow sz \<le> 2 ^ 11" by (rule power_increasing) simp
      then show False using get_lowest_pow_small(1) [of sz] True nz assms by (simp add: word_neq_0_conv)
    qed
    ultimately show ?thesis by simp
  next
    case False
    then show ?thesis using lowest_pow_loop_large [of 12 "sz - 1"] p nz by (simp add: get_lowest_pow_def)
  qed
qed

lemma get_lowest_pow_power:
  assumes "k \<le> 12" shows "get_lowest_pow (2 ^ k) = k"
proof -
  have le: "(2 :: nat) ^ k \<le> 2 ^ 12" using assms by (intro power_increasing) auto
  have u: "unat (2 ^ k :: u64) = 2 ^ k" by (rule unat_power_two) (use assms in simp)
  then have g: "(0 :: u64) < 2 ^ k" by (simp add: word_less_nat_alt)
  have "2 ^ k \<le> (2 :: nat) ^ get_lowest_pow (2 ^ k)" using get_lowest_pow_small(1) [OF g] u le by simp
  then have "k \<le> get_lowest_pow (2 ^ k)" by simp
  moreover have "\<not> k < get_lowest_pow (2 ^ k)" using get_lowest_pow_small(3) [OF g, of k] u le by auto
  ultimately show ?thesis by simp
qed

end
