(* ===== verification/Mem_Inv.thy ===== *)
theory Mem_Inv
  imports Mem_Props
begin

text \<open>
  The invariant of the allocator and the operations that keep it.  Beside the state it speaks of
  four things the code does not store: the free list of each size class, the list of free pages, the
  class of each page the heap has cut, and who owns what, the pages and the heap blocks in use.
\<close>

section \<open>Chains through memory\<close>

fun chain :: "(ptr \<Rightarrow> ptr) \<Rightarrow> ptr \<Rightarrow> ptr list \<Rightarrow> bool" where
  "chain m p [] \<longleftrightarrow> p = NULL"
| "chain m p (x # xs) \<longleftrightarrow> p = x \<and> x \<noteq> NULL \<and> chain m (m x) xs"

lemma chain_cong: "(\<And>x. x \<in> set xs \<Longrightarrow> m x = m' x) \<Longrightarrow> chain m p xs = chain m' p xs"
  by (induction xs arbitrary: p) auto

lemma chain_upd: "a \<notin> set xs \<Longrightarrow> chain (m(a := v)) p xs = chain m p xs"
  by (rule chain_cong) auto

lemma chain_NULL: "chain m NULL xs \<longleftrightarrow> xs = []"
  by (cases xs) auto

lemma chain_nonNULL: "chain m p xs \<Longrightarrow> p \<noteq> NULL \<Longrightarrow> \<exists>r. xs = p # r \<and> chain m (m p) r"
  by (cases xs) auto

section \<open>The invariant\<close>

definition page_in :: "ptr \<Rightarrow> bool" where
  "page_in p \<longleftrightarrow> page_off p = 0 \<and> KSPACE_MASK \<le> p \<and> p < P2K PHYSTOP"

definition slot :: "nat \<Rightarrow> ptr \<Rightarrow> bool" where
  "slot k a \<longleftrightarrow> 64 \<le> page_off a \<and> 2 ^ k dvd page_off a - 64 \<and> page_off a + 2 ^ k \<le> 4096"

definition mem_inv :: "u64 \<Rightarrow> (nat \<Rightarrow> ptr list) \<Rightarrow> ptr list \<Rightarrow> (nat \<Rightarrow> nat option) \<Rightarrow> ptr set \<Rightarrow> ptr set \<Rightarrow> memst \<Rightarrow> bool" where
  "mem_inv N fl ps cls own live s \<longleftrightarrow>
     (length (memory_table s) = 13 \<and> alloc_page_cnt s + of_nat (length ps) = N)
   \<and> (chain (mword s) (pages s) ps \<and> distinct ps)
   \<and> (\<forall>p\<in>set ps. page_in p \<and> cls (page_no p) = None)
   \<and> (\<forall>k<13. chain (mword s) (memory_table s ! k) (fl k) \<and> distinct (fl k))
   \<and> (\<forall>k<13. \<forall>a\<in>set (fl k). cls (page_no a) = Some k \<and> slot k a)
   \<and> (\<forall>n k. cls n = Some k \<longrightarrow> 3 \<le> k \<and> k \<le> 11 \<and> 0 < n)
   \<and> (\<forall>a k. cls (page_no a) = Some k \<longrightarrow> page_off a = 0 \<longrightarrow> mword s a = 2 ^ k)
   \<and> (\<forall>a\<in>live. \<exists>k. cls (page_no a) = Some k \<and> slot k a \<and> a \<notin> set (fl k))
   \<and> (\<forall>p\<in>own. page_in p \<and> p \<notin> set ps \<and> cls (page_no p) = None \<and> page_refs s (page_idx p) \<noteq> 0)"

lemma mem_invD:
  assumes "mem_inv N fl ps cls own live s"
  shows "length (memory_table s) = 13" "alloc_page_cnt s + of_nat (length ps) = N"
    "chain (mword s) (pages s) ps" "distinct ps"
    "p \<in> set ps \<Longrightarrow> page_in p" "p \<in> set ps \<Longrightarrow> cls (page_no p) = None"
    "k < 13 \<Longrightarrow> chain (mword s) (memory_table s ! k) (fl k)" "k < 13 \<Longrightarrow> distinct (fl k)"
    "k < 13 \<Longrightarrow> a \<in> set (fl k) \<Longrightarrow> cls (page_no a) = Some k" "k < 13 \<Longrightarrow> a \<in> set (fl k) \<Longrightarrow> slot k a"
    "cls n = Some k \<Longrightarrow> 3 \<le> k" "cls n = Some k \<Longrightarrow> k \<le> 11" "cls n = Some k \<Longrightarrow> 0 < n"
    "cls (page_no a) = Some k \<Longrightarrow> page_off a = 0 \<Longrightarrow> mword s a = 2 ^ k"
    "a \<in> live \<Longrightarrow> \<exists>k. cls (page_no a) = Some k \<and> slot k a \<and> a \<notin> set (fl k)"
    "p \<in> own \<Longrightarrow> page_in p" "p \<in> own \<Longrightarrow> p \<notin> set ps" "p \<in> own \<Longrightarrow> cls (page_no p) = None"
    "p \<in> own \<Longrightarrow> page_refs s (page_idx p) \<noteq> 0"
  using assms unfolding mem_inv_def by simp_all

lemma mem_invI:
  assumes "length (memory_table s) = 13" "alloc_page_cnt s + of_nat (length ps) = N"
    "chain (mword s) (pages s) ps" "distinct ps"
    "\<And>p. p \<in> set ps \<Longrightarrow> page_in p" "\<And>p. p \<in> set ps \<Longrightarrow> cls (page_no p) = None"
    "\<And>k. k < 13 \<Longrightarrow> chain (mword s) (memory_table s ! k) (fl k)" "\<And>k. k < 13 \<Longrightarrow> distinct (fl k)"
    "\<And>k a. k < 13 \<Longrightarrow> a \<in> set (fl k) \<Longrightarrow> cls (page_no a) = Some k \<and> slot k a"
    "\<And>n k. cls n = Some k \<Longrightarrow> 3 \<le> k \<and> k \<le> 11 \<and> 0 < n"
    "\<And>a k. cls (page_no a) = Some k \<Longrightarrow> page_off a = 0 \<Longrightarrow> mword s a = 2 ^ k"
    "\<And>a. a \<in> live \<Longrightarrow> \<exists>k. cls (page_no a) = Some k \<and> slot k a \<and> a \<notin> set (fl k)"
    "\<And>p. p \<in> own \<Longrightarrow> page_in p \<and> p \<notin> set ps \<and> cls (page_no p) = None \<and> page_refs s (page_idx p) \<noteq> 0"
  shows "mem_inv N fl ps cls own live s"
  using assms unfolding mem_inv_def by simp

section \<open>Pages\<close>

lemma kspace_consts: "unat KSPACE_MASK = 18446462598732840960" "unat (P2K PHYSTOP) = 18446462599789805568"
  by (simp_all add: KSPACE_MASK_def P2K_def PHYSTOP_def)

lemma page_in_idx:
  assumes "page_in p"
  shows "page_idx p + 4503530907893760 = page_no p" "page_idx p < N_PAGE_REFS" "p \<noteq> NULL" "unat p + 8192 < 18446744073709551616"
proof -
  have u: "18446462598732840960 \<le> unat p" "unat p < 18446462599789805568"
    using assms by (simp_all add: page_in_def word_le_nat_alt word_less_nat_alt kspace_consts)
  have k: "unat (K2P p) = unat p - 18446462598732840960"
    using assms by (simp add: page_in_def K2P_def unat_sub kspace_consts)
  have "unat p = page_no p * 4096" using assms page_decomp(1) [of p] by (simp add: page_in_def)
  then have e: "unat (K2P p) = (page_no p - 4503530907893760) * 4096" "4503530907893760 \<le> page_no p" "page_no p < 4503530908151808"
    using k u by (simp_all add: diff_mult_distrib)
  then show i: "page_idx p + 4503530907893760 = page_no p" by (simp add: page_idx_def PAGE_SIZE_def)
  have "N_PAGE_REFS = 258049" by (simp add: N_PAGE_REFS_def PAGE_BASE_def PHYSTOP_def PAGE_SIZE_def)
  then show "page_idx p < N_PAGE_REFS" using i e(3) by simp
  show "p \<noteq> NULL" using u(1) by auto
  show "unat p + 8192 < 18446744073709551616" using u(2) by simp
qed

lemma page_in_no_inj: "page_in p \<Longrightarrow> page_in q \<Longrightarrow> page_no p = page_no q \<longleftrightarrow> p = q"
  by (auto simp: page_in_def page_addr_eq_iff)

lemma page_in_idx_inj: "page_in p \<Longrightarrow> page_in q \<Longrightarrow> page_idx p = page_idx q \<longleftrightarrow> p = q"
  using page_in_idx(1) [of p] page_in_idx(1) [of q] page_in_no_inj [of p q] by auto

lemma in_page_iff:
  assumes "(r :: nat) < 4096" shows "p * 4096 \<le> n * 4096 + r \<and> n * 4096 + r < p * 4096 + 4096 \<longleftrightarrow> n = p"
proof
  assume "p * 4096 \<le> n * 4096 + r \<and> n * 4096 + r < p * 4096 + 4096"
  then have "p * 4096 < Suc n * 4096" "n * 4096 < Suc p * 4096" using assms by simp_all
  then have "p < Suc n" "n < Suc p" by (simp_all only: mult_less_cancel2)
  then show "n = p" by simp
qed (use assms in simp)

lemma memset_page_at:
  assumes "page_in p"
  shows "memset_page p m a = (if page_no a = page_no p then 0 else m a)"
proof -
  have "unat p = page_no p * 4096" using assms page_decomp(1) [of p] by (simp add: page_in_def)
  moreover have "page_no p * 4096 \<le> unat a \<and> unat a < page_no p * 4096 + 4096 \<longleftrightarrow> page_no a = page_no p"
    using page_decomp(1) [of a] in_page_iff [OF page_off_less, of "page_no p" "page_no a" a] by simp
  ultimately show ?thesis by (simp add: memset_page_def PAGE_SIZE_def)
qed

lemma kalloc_page_spec:
  assumes inv: "mem_inv N fl (p # ps) cls own live s"
  shows "\<exists>s'. kalloc_page s = Some (p, s') \<and> mem_inv N fl ps cls (insert p own) live s' \<and> p \<notin> own
     \<and> memory_table s' = memory_table s \<and> zero_page s' = zero_page s \<and> page_refs s' (page_idx p) = 1
     \<and> (\<forall>a. mword s' a = (if page_no a = page_no p then 0 else mword s a))"
proof -
  note D = mem_invD [OF inv]
  have p: "page_in p" "cls (page_no p) = None" "pages s = p" "chain (mword s) (mword s p) ps" "p \<notin> set ps"
    using D(3,4) D(5) [of p] D(6) [of p] by auto
  let ?m = "memset_page p (mword s)"
  let ?s' = "s\<lparr>alloc_page_cnt := increment_rc (alloc_page_cnt s), pages := mword s p, mword := ?m, page_refs := (page_refs s)(page_idx p := 1)\<rparr>"
  have m: "?m a = (if page_no a = page_no p then 0 else mword s a)" for a using memset_page_at [OF p(1)] .
  have ne: "page_no q \<noteq> page_no p" if "q \<in> set ps" for q
    using that page_in_no_inj [OF D(5) p(1), of q] p(5) by auto
  have po: "p \<notin> own" using D(17) [of p] by auto
  have "mem_inv N fl ps cls (insert p own) live ?s'"
  proof (rule mem_invI)
    show "alloc_page_cnt ?s' + of_nat (length ps) = N" using D(2) by (simp add: increment_rc_def add.assoc)
    show "chain (mword ?s') (pages ?s') ps" using p(4) ne m by (simp add: chain_cong [of ps ?m "mword s"])
    show "chain (mword ?s') (memory_table ?s' ! k) (fl k)" if "k < 13" for k
    proof -
      have "page_no a \<noteq> page_no p" if "a \<in> set (fl k)" for a using D(9) [OF \<open>k < 13\<close> that] p(2) by auto
      then show ?thesis using D(7) [OF that] m by (simp add: chain_cong [of "fl k" ?m "mword s"])
    qed
    show "mword ?s' a = 2 ^ k" if "cls (page_no a) = Some k" "page_off a = 0" for a k
      using D(14) [OF that] that(1) p(2) m by auto
    show "page_in q \<and> q \<notin> set ps \<and> cls (page_no q) = None \<and> page_refs ?s' (page_idx q) \<noteq> 0" if "q \<in> insert p own" for q
      using that p D(16-19) [of q] by auto
  qed (use D p in auto)
  moreover have "kalloc_page s = Some (p, ?s')"
    using p(3) page_in_idx(2,3) [OF p(1)] by (simp add: kalloc_page_def fetch_from_queue_def)
  ultimately show ?thesis using po m by auto
qed

lemma kalloc_page_empty: "mem_inv N fl [] cls own live s \<Longrightarrow> kalloc_page s = None"
  using mem_invD(3) [of N fl "[]"] by (simp add: kalloc_page_def fetch_from_queue_def)

lemma ref_page_spec:
  assumes inv: "mem_inv N fl ps cls own live s" and p: "p \<in> own" "page_refs s (page_idx p) \<noteq> - 1"
  shows "\<exists>s'. ref_page p s = Some s' \<and> mem_inv N fl ps cls own live s'"
proof -
  note D = mem_invD [OF inv]
  have 1: "page_refs s (page_idx p) + 1 \<noteq> 0" using p(2) by (metis add_eq_0_iff2 minus_equation_iff)
  have "mem_inv N fl ps cls own live (s\<lparr>page_refs := (page_refs s)(page_idx p := increment_rc (page_refs s (page_idx p)))\<rparr>)"
    using inv 1 unfolding mem_inv_def by (simp add: increment_rc_def)
  then show ?thesis using page_in_idx(2) [OF D(16) [OF p(1)]] by (simp add: ref_page_def)
qed

lemma kfree_page_spec:
  assumes inv: "mem_inv N fl ps cls own live s" and p: "p \<in> own"
  shows "\<exists>s' ps'. kfree_page p s = Some s'
     \<and> mem_inv N fl ps' cls (if page_refs s (page_idx p) = 1 then own - {p} else own) live s'
     \<and> ps' = (if page_refs s (page_idx p) = 1 \<and> p \<noteq> zero_page s then p # ps else ps)"
proof -
  note D = mem_invD [OF inv]
  note P = D(16) [OF p] D(17) [OF p] D(18) [OF p]
  note i = page_in_idx(2,3) [OF P(1)]
  let ?s1 = "s\<lparr>page_refs := (page_refs s)(page_idx p := snd (decrement_rc (page_refs s (page_idx p))))\<rparr>"
  let ?own = "if page_refs s (page_idx p) = 1 then own - {p} else own"
  have r: "page_refs ?s1 (page_idx p) = 0 \<longleftrightarrow> page_refs s (page_idx p) = 1" by (simp add: decrement_rc_def Let_def)
  have o': "page_refs ?s1 (page_idx q) \<noteq> 0" if "q \<in> ?own" for q
  proof (cases "q = p")
    case True
    then show ?thesis using that r by (auto split: if_splits)
  next
    case False
    have "q \<in> own" using that by (auto split: if_splits)
    then show ?thesis using False page_in_idx_inj [OF D(16) P(1), of q] D(19) [of q] by simp
  qed
  have o2: "page_in q \<and> q \<notin> set ps \<and> cls (page_no q) = None" if "q \<in> ?own" for q
    using that D(16-18) [of q] by (auto split: if_splits)
  have i1: "mem_inv N fl ps cls ?own live ?s1"
    by (rule mem_invI) (use D o' o2 in simp_all)
  show ?thesis
  proof (cases "page_refs s (page_idx p) = 1 \<and> p \<noteq> zero_page s")
    case False
    then show ?thesis using i1 i r by (auto simp: kfree_page_def Let_def)
  next
    case True
    let ?s2 = "?s1\<lparr>alloc_page_cnt := snd (decrement_rc (alloc_page_cnt s)), pages := p, mword := (mword s)(p := pages s)\<rparr>"
    note D1 = mem_invD [OF i1]
    have "mem_inv N fl (p # ps) cls ?own live ?s2"
    proof (rule mem_invI)
      show "chain (mword ?s2) (memory_table ?s2 ! k) (fl k)" if "k < 13" for k
      proof -
        have "p \<notin> set (fl k)" using D(9) [OF that, of p] P(3) by auto
        then show ?thesis using D(7) [OF that] by (simp add: chain_upd)
      qed
      show "mword ?s2 a = 2 ^ k" if "cls (page_no a) = Some k" "page_off a = 0" for a k
        using D(14) [OF that] that P(3) by auto
      show "page_in q \<and> q \<notin> set (p # ps) \<and> cls (page_no q) = None \<and> page_refs ?s2 (page_idx q) \<noteq> 0" if "q \<in> ?own" for q
        using o' [OF that] o2 [OF that] that True by (auto simp del: fun_upd_apply)
    qed (use D P i in \<open>auto simp: chain_upd decrement_rc_def Let_def\<close>)
    then show ?thesis using i r True by (auto simp: kfree_page_def Let_def add_page_def add_to_queue_def)
  qed
qed

section \<open>The heap\<close>

lemma power_class:
  assumes "3 \<le> k" "k \<le> 11"
  shows "8 \<le> (2 :: nat) ^ k" "(2 :: nat) ^ k \<le> 2048" "kpow 2 (of_nat k) = 2 ^ k" "unat (2 ^ k :: u64) = 2 ^ k" "get_lowest_pow (2 ^ k) = k"
proof -
  have "(2 :: nat) ^ 3 \<le> 2 ^ k" "(2 :: nat) ^ k \<le> 2 ^ 11" by (rule power_increasing; use assms in simp)+
  then show "8 \<le> (2 :: nat) ^ k" "(2 :: nat) ^ k \<le> 2048" by simp_all
  show "unat (2 ^ k :: u64) = 2 ^ k" by (rule unat_power_two) (use assms in simp)
  show "get_lowest_pow (2 ^ k) = k" by (rule get_lowest_pow_power) (use assms in simp)
  have "unat (of_nat k :: u64) = k" by (rule unat_of_nat_u64) (use assms in simp)
  then show "kpow 2 (of_nat k) = 2 ^ k" by (simp add: kpow_def pow_loop_power)
qed

lemma slot_nonNULL: "0 < page_no a \<Longrightarrow> a \<noteq> NULL"
  by (auto simp: page_no_def)

lemma add_memory_spec:
  assumes inv: "mem_inv N fl ps cls own live s"
    and a: "cls (page_no a) = Some k" "slot k a" "a \<notin> set (fl k)"
  shows "mem_inv N (fl(k := a # fl k)) ps cls own (live - {a}) (add_memory (2 ^ k) a s)"
proof -
  note D = mem_invD [OF inv]
  note k = D(11) [OF a(1)] D(12) [OF a(1)]
  have k13: "k < 13" using k by simp
  let ?s' = "s\<lparr>mword := (mword s)(a := memory_table s ! k), memory_table := (memory_table s)[k := a]\<rparr>"
  have e: "add_memory (2 ^ k) a s = ?s'" using power_class(5) [OF k] by (simp add: add_memory_def)
  have off: "page_off a \<noteq> 0" using a(2) by (auto simp: slot_def)
  have a0: "a \<noteq> NULL" using slot_nonNULL D(13) [OF a(1)] by blast
  have other: "a \<notin> set (fl j)" if "j < 13" for j
    using D(9) [OF that, of a] a(1,3) by auto
  show ?thesis unfolding e
  proof (rule mem_invI)
    have "a \<notin> set ps" using D(6) [of a] a(1) by auto
    then show "chain (mword ?s') (pages ?s') ps" using D(3) by (simp add: chain_upd)
    show "chain (mword ?s') (memory_table ?s' ! j) ((fl(k := a # fl k)) j)" if "j < 13" for j
      using D(7) [OF that] other [OF that] a0 that D(1) by (cases "j = k") (simp_all add: chain_upd)
    show "distinct ((fl(k := a # fl k)) j)" if "j < 13" for j using D(8) [OF that] a(3) by (cases "j = k") auto
    show "cls (page_no b) = Some j \<and> slot j b" if "j < 13" "b \<in> set ((fl(k := a # fl k)) j)" for j b
      using D(9,10) [of j b] that a by (auto split: if_splits)
    show "mword ?s' b = 2 ^ j" if "cls (page_no b) = Some j" "page_off b = 0" for b j using D(14) [OF that] off that by auto
    show "\<exists>j. cls (page_no b) = Some j \<and> slot j b \<and> b \<notin> set ((fl(k := a # fl k)) j)" if "b \<in> live - {a}" for b
      using that D(15) [of b] by auto
    show "page_in p \<and> p \<notin> set ps \<and> cls (page_no p) = None \<and> page_refs ?s' (page_idx p) \<noteq> 0" if "p \<in> own" for p
      using that D(16-19) [of p] by simp
  qed (use D in auto)
qed

lemma pop_memory_spec:
  assumes inv: "mem_inv N fl ps cls own live s" and k: "k < 13" "3 \<le> k" "k \<le> 11" "fl k = a # r"
  shows "\<exists>s'. pop_memory (2 ^ k) s = Some (a, s') \<and> mem_inv N (fl(k := r)) ps cls own (insert a live) s'
     \<and> a \<notin> live \<and> cls (page_no a) = Some k \<and> slot k a \<and> mword s' = mword s"
proof -
  note D = mem_invD [OF inv]
  have a: "cls (page_no a) = Some k" "slot k a" using D(9,10) [OF k(1), of a] k(4) by simp_all
  have c: "memory_table s ! k = a" "a \<noteq> NULL" "chain (mword s) (mword s a) r" using D(7) [OF k(1)] k(4) by simp_all
  let ?s' = "s\<lparr>memory_table := (memory_table s)[k := mword s a]\<rparr>"
  have nl: "a \<notin> live"
  proof
    assume "a \<in> live"
    from D(15) [OF this] a(1) k(4) show False by auto
  qed
  have "mem_inv N (fl(k := r)) ps cls own (insert a live) ?s'"
  proof (rule mem_invI)
    show "chain (mword ?s') (memory_table ?s' ! j) ((fl(k := r)) j)" if "j < 13" for j
      using D(7) [OF that] c(3) that D(1) by (cases "j = k") simp_all
    show "distinct ((fl(k := r)) j)" if "j < 13" for j using D(8) [OF that] k(4) by (cases "j = k") auto
    show "cls (page_no b) = Some j \<and> slot j b" if "j < 13" "b \<in> set ((fl(k := r)) j)" for j b
      using D(9,10) [of j b] that k(4) by (auto split: if_splits)
    show "\<exists>j. cls (page_no b) = Some j \<and> slot j b \<and> b \<notin> set ((fl(k := r)) j)" if "b \<in> insert a live" for b
    proof (cases "b = a")
      case True
      then show ?thesis using a D(8) [OF k(1)] k(4) by auto
    next
      case False
      then have "b \<in> live" using that by simp
      from D(15) [OF this] obtain j where j: "cls (page_no b) = Some j \<and> slot j b \<and> b \<notin> set (fl j)" by blast
      then show ?thesis using k(4) by (intro exI [of _ j]) auto
    qed
    show "page_in p \<and> p \<notin> set ps \<and> cls (page_no p) = None \<and> page_refs ?s' (page_idx p) \<noteq> 0" if "p \<in> own" for p
      using that D(16-19) [of p] by simp
  qed (use D in auto)
  then show ?thesis using c(1,2) power_class(5) [OF k(2,3)] a nl by (simp add: pop_memory_def)
qed

text \<open>A write anywhere but to a free page, a free block or the header of a cut page.\<close>

lemma mem_inv_write:
  assumes inv: "mem_inv N fl ps cls own live s"
    and b: "b \<notin> set ps" "\<And>k. k < 13 \<Longrightarrow> b \<notin> set (fl k)" "page_off b = 0 \<Longrightarrow> cls (page_no b) = None"
  shows "mem_inv N fl ps cls own live (s\<lparr>mword := (mword s)(b := v)\<rparr>)"
proof -
  note D = mem_invD [OF inv]
  show ?thesis
  proof (rule mem_invI)
    let ?s' = "s\<lparr>mword := (mword s)(b := v)\<rparr>"
    show "chain (mword ?s') (pages ?s') ps" using D(3) b(1) by (simp add: chain_upd)
    show "chain (mword ?s') (memory_table ?s' ! j) (fl j)" if "j < 13" for j using D(7) [OF that] b(2) [OF that] by (simp add: chain_upd)
    show "mword ?s' a = 2 ^ j" if "cls (page_no a) = Some j" "page_off a = 0" for a j using D(14) [OF that] b(3) that by auto
    show "page_in p \<and> p \<notin> set ps \<and> cls (page_no p) = None \<and> page_refs ?s' (page_idx p) \<noteq> 0" if "p \<in> own" for p
      using that D(16-19) [of p] by simp
  qed (use D in auto)
qed

text \<open>Two slots of one class in one page either coincide or do not overlap.\<close>

lemma slot_disjoint:
  assumes "slot k a" "slot k b" "page_no a = page_no b" "page_off b = page_off a + n" "n < 2 ^ k"
  shows "a = b"
proof -
  have "page_off b - 64 = (page_off a - 64) + n" using assms(1,4) by (simp add: slot_def)
  then have "2 ^ k dvd (page_off a - 64) + n" using assms(2) by (simp add: slot_def)
  moreover have "2 ^ k dvd page_off a - 64" using assms(1) by (simp add: slot_def)
  ultimately have "2 ^ k dvd n" using dvd_add_right_iff by blast
  then have "n = 0" using assms(5) by (auto dest: dvd_imp_le)
  then show ?thesis using assms(3,4) by (simp add: page_addr_eq_iff)
qed

text \<open>A client may write anything into a block it holds, and into a page it owns.\<close>

lemma write_live_inv:
  assumes inv: "mem_inv N fl ps cls own live s" and a: "a \<in> live" "cls (page_no a) = Some k" "n < 2 ^ k"
  shows "mem_inv N fl ps cls own live (s\<lparr>mword := (mword s)(a + of_nat n := v)\<rparr>)"
proof (rule mem_inv_write [OF inv])
  note D = mem_invD [OF inv]
  have s: "slot k a" "a \<notin> set (fl k)" using D(15) [OF a(1)] a(2) by auto
  have "page_off a + n < 4096" using s(1) a(3) by (simp add: slot_def)
  note b = page_add [OF this]
  show "a + of_nat n \<notin> set ps" using D(6) [of "a + of_nat n"] a(2) b(2) by auto
  show "a + of_nat n \<notin> set (fl j)" if "j < 13" for j
  proof
    assume m: "a + of_nat n \<in> set (fl j)"
    then have "j = k" using D(9) [OF that m] a(2) b(2) by simp
    then have "a = a + of_nat n" using slot_disjoint [OF s(1) _ _ b(3) a(3)] D(10) [OF that m] b(2) by simp
    then show False using m s(2) \<open>j = k\<close> by simp
  qed
  show "cls (page_no (a + of_nat n)) = None" if "page_off (a + of_nat n) = 0" using that b(3) s(1) by (simp add: slot_def)
qed

lemma write_own_inv:
  assumes inv: "mem_inv N fl ps cls own live s" and p: "p \<in> own" "page_no b = page_no p"
  shows "mem_inv N fl ps cls own live (s\<lparr>mword := (mword s)(b := v)\<rparr>)"
proof (rule mem_inv_write [OF inv])
  note D = mem_invD [OF inv]
  show "b \<notin> set ps"
  proof
    assume b: "b \<in> set ps"
    then have "b = p" using page_in_no_inj [OF D(5) [OF b] D(16) [OF p(1)]] p(2) by simp
    then show False using b D(17) [OF p(1)] by simp
  qed
  show "b \<notin> set (fl j)" if "j < 13" for j using D(9) [OF that, of b] D(18) [OF p(1)] p(2) by auto
  show "cls (page_no b) = None" using D(18) [OF p(1)] p(2) by simp
qed

end
