(* ===== verification/Mem_Run.thy ===== *)
theory Mem_Run
  imports Mem_Inv
begin

text \<open>
  Runs of the allocator from boot, with its clients: \<open>kalloc\<close>, \<open>kfree\<close>, the page operations, and
  arbitrary writes of the clients into the memory they hold.  The properties of the allocator.
\<close>

section \<open>Cutting a page\<close>

lemma carve_spec:
  assumes "mem_inv N fl ps cls own live s" "page_in P" "cls (page_no P) = Some k" "64 \<le> o'" "o' \<le> 4096" "2 ^ k dvd o' - 64"
    and "\<forall>a\<in>set (fl k) \<union> live. page_no a = page_no P \<longrightarrow> page_off a < o'" "4096 - o' < fuel * 8"
  shows "\<exists>s' xs. carve fuel (2 ^ k) (P + of_nat PAGE_SIZE) (P + of_nat o') s = Some s'
     \<and> mem_inv N (fl(k := xs @ fl k)) ps cls own live s' \<and> (o' + 2 ^ k \<le> 4096 \<longrightarrow> xs \<noteq> [])
     \<and> (\<forall>a. page_no a \<noteq> page_no P \<longrightarrow> mword s' a = mword s a)"
  using assms
proof (induction fuel arbitrary: fl o' s)
  case 0
  then show ?case by simp
next
  case (Suc fuel)
  note D = mem_invD [OF Suc.prems(1)]
  note k = D(11) [OF Suc.prems(3)] D(12) [OF Suc.prems(3)]
  note pk = power_class [OF k]
  have P: "page_off P = 0" "unat P + 8192 < 18446744073709551616"
    using Suc.prems(2) page_in_idx(4) by (auto simp: page_in_def)
  have uo: "unat (P + of_nat m) = unat P + m" if "m \<le> 8192" for m
    using unat_add_no_wrap [of P "of_nat m"] unat_of_nat_u64 [of m] that P(2) by simp
  have e: "P + of_nat o' + 2 ^ k = P + of_nat (o' + 2 ^ k)" by simp
  have le: "P + of_nat o' + 2 ^ k \<le> P + of_nat PAGE_SIZE \<longleftrightarrow> o' + 2 ^ k \<le> 4096"
    unfolding e using uo [of "o' + 2 ^ k"] uo [of PAGE_SIZE] pk(2) Suc.prems(5) by (simp add: word_le_nat_alt PAGE_SIZE_def)
  show ?case
  proof (cases "o' + 2 ^ k \<le> 4096")
    case False
    then show ?thesis using le Suc.prems(1) by (intro exI [of _ s] exI [of _ "[]"]) simp
  next
    case True
    let ?a = "P + of_nat o'" and ?s1 = "add_memory (2 ^ k) (P + of_nat o') s"
    have "page_off P + o' < 4096" using P(1) True pk(1) by simp
    note a = page_add(2,3) [OF this]
    have off: "page_off ?a = o'" using a(2) P(1) by simp
    have sl: "slot k ?a" "cls (page_no ?a) = Some k" using off a(1) Suc.prems(3,4,6) True by (simp_all add: slot_def)
    have nf: "?a \<notin> set (fl k)" "?a \<notin> live" using Suc.prems(7) a(1) off by auto
    have i1: "mem_inv N (fl(k := ?a # fl k)) ps cls own live ?s1"
      using add_memory_spec [OF Suc.prems(1) sl(2,1) nf(1)] nf(2) by simp
    have dv: "2 ^ k dvd o' + 2 ^ k - 64"
      using Suc.prems(4,6) dvd_add [of "2 ^ k" "o' - 64" "2 ^ k"] by simp
    have below: "\<forall>b\<in>set ((fl(k := ?a # fl k)) k) \<union> live. page_no b = page_no P \<longrightarrow> page_off b < o' + 2 ^ k"
      using Suc.prems(7) off by (auto simp: trans_less_add1)
    have "4096 - (o' + 2 ^ k) + 8 \<le> 4096 - o'" using True pk(1) by linarith
    then have "4096 - (o' + 2 ^ k) < fuel * 8" using Suc.prems(8) by (simp add: mult_Suc)
    moreover have "64 \<le> o' + 2 ^ k" using Suc.prems(4) by simp
    ultimately obtain s' xs where
      r: "carve fuel (2 ^ k) (P + of_nat PAGE_SIZE) (P + of_nat (o' + 2 ^ k)) ?s1 = Some s'"
        "mem_inv N ((fl(k := ?a # fl k))(k := xs @ (fl(k := ?a # fl k)) k)) ps cls own live s'"
        "\<forall>b. page_no b \<noteq> page_no P \<longrightarrow> mword s' b = mword ?s1 b"
      using Suc.IH [OF i1 Suc.prems(2,3) _ True dv below] by blast
    have "\<forall>b. page_no b \<noteq> page_no P \<longrightarrow> mword s' b = mword s b"
      using r(3) a(1) by (auto simp: add_memory_def Let_def)
    moreover have "mem_inv N (fl(k := (xs @ [?a]) @ fl k)) ps cls own live s'" using r(2) by simp
    moreover have "carve (Suc fuel) (2 ^ k) (P + of_nat PAGE_SIZE) ?a s = Some s'"
      using r(1) True le unfolding e [symmetric] by simp
    moreover have "o' + 2 ^ k \<le> 4096 \<longrightarrow> xs @ [?a] \<noteq> []" by simp
    ultimately show ?thesis by blast
  qed
qed

text \<open>A page that is owned becomes a page of a size class.\<close>

lemma make_slab:
  assumes inv: "mem_inv N fl ps cls (insert P own) live s" "P \<notin> own" and k: "3 \<le> k" "k \<le> 11"
  shows "mem_inv N fl ps (cls(page_no P \<mapsto> k)) own live (s\<lparr>mword := (mword s)(P := 2 ^ k)\<rparr>)"
proof -
  note D = mem_invD [OF inv(1)]
  have P: "page_in P" "P \<notin> set ps" "cls (page_no P) = None" using D(16-18) [of P] by simp_all
  have pos: "0 < page_no P" using page_in_idx(1) [OF P(1)] by simp
  have nps: "page_no q \<noteq> page_no P" if "q \<in> set ps" for q using that P page_in_no_inj [OF D(5) [OF that] P(1)] by auto
  have nfl: "page_no a \<noteq> page_no P" if "j < 13" "a \<in> set (fl j)" for j a using D(9) [OF that] P(3) by auto
  show ?thesis
  proof (rule mem_invI)
    let ?s = "s\<lparr>mword := (mword s)(P := 2 ^ k)\<rparr>"
    show "chain (mword ?s) (pages ?s) ps" using D(3) P(2) by (simp add: chain_upd)
    show "chain (mword ?s) (memory_table ?s ! j) (fl j)" if "j < 13" for j
    proof -
      have "P \<notin> set (fl j)" using nfl [OF that, of P] by auto
      then show ?thesis using D(7) [OF that] by (simp add: chain_upd)
    qed
    show "mword ?s a = 2 ^ j" if "(cls(page_no P \<mapsto> k)) (page_no a) = Some j" "page_off a = 0" for a j
    proof (cases "page_no a = page_no P")
      case True
      then have "a = P" using that(2) P(1) by (simp add: page_addr_eq_iff page_in_def)
      then show ?thesis using that(1) by simp
    next
      case False
      then show ?thesis using that D(14) [of a j] by auto
    qed
    show "\<exists>j. (cls(page_no P \<mapsto> k)) (page_no a) = Some j \<and> slot j a \<and> a \<notin> set (fl j)" if "a \<in> live" for a
      using D(15) [OF that] P(3) by auto
    show "page_in q \<and> q \<notin> set ps \<and> (cls(page_no P \<mapsto> k)) (page_no q) = None \<and> page_refs ?s (page_idx q) \<noteq> 0" if "q \<in> own" for q
      using that D(16-19) [of q] inv(2) page_in_no_inj [OF D(16) P(1), of q] by auto
  qed (use D nps nfl k pos in \<open>auto split: if_splits\<close>)
qed

text \<open>\<open>can_kalloc\<close>: there is a free block of the class or a free page.\<close>

lemma kalloc_spec:
  assumes inv: "mem_inv N fl ps cls own live s" and sz: "sz \<le> 2048"
    and k: "k = get_lowest_pow (if sz < 8 then 8 else sz)" and free: "fl k \<noteq> [] \<or> ps \<noteq> []"
  shows "\<exists>a s' fl' ps' cls'. kalloc sz s = Some (a, s') \<and> mem_inv N fl' ps' cls' own (insert a live) s' \<and> a \<notin> live
     \<and> cls' (page_no a) = Some k \<and> slot k a \<and> unat sz \<le> 2 ^ k \<and> (\<forall>n j. cls n = Some j \<longrightarrow> cls' n = Some j)"
proof -
  note D = mem_invD [OF inv]
  let ?z = "if sz < 8 then 8 else sz"
  have z: "0 < ?z" "unat ?z \<le> 2048" "unat sz \<le> unat ?z" "8 \<le> unat ?z"
    using sz by (auto simp: word_le_nat_alt word_less_nat_alt)
  have k1: "unat ?z \<le> 2 ^ k" "k \<le> 12" using get_lowest_pow_small(1,2) [OF z(1)] z(2) unfolding k by simp_all
  have k3: "3 \<le> k"
  proof (rule ccontr)
    assume "\<not> 3 \<le> k"
    then have "(2 :: nat) ^ k \<le> 2 ^ 2" by (intro power_increasing) auto
    then show False using k1(1) z(4) by simp
  qed
  have k11: "k \<le> 11"
  proof (rule ccontr)
    assume "\<not> k \<le> 11"
    then have "2 ^ 11 < unat ?z" using get_lowest_pow_small(3) [OF z(1), of 11] z(2) unfolding k by simp
    then show False using z(2) by simp
  qed
  have k13: "k < 13" using k11 by simp
  note pk = power_class [OF k3 k11]
  have main: "kalloc sz s = (if memory_table s ! k = NULL
      then kalloc_page s \<bind> (\<lambda>(P, s1). carve 512 (2 ^ k) (P + of_nat PAGE_SIZE) (P + 64) (s1\<lparr>mword := (mword s1)(P := 2 ^ k)\<rparr>))
      else Some s) \<bind> pop_memory (2 ^ k)"
    unfolding kalloc_def Let_def k [symmetric] pk(3) by simp
  show ?thesis
  proof (cases "fl k")
    case (Cons a r)
    then have "memory_table s ! k \<noteq> NULL" using D(7) [OF k13] by auto
    moreover from pop_memory_spec [OF inv k13 k3 k11 Cons] obtain s' where
      "pop_memory (2 ^ k) s = Some (a, s')" "mem_inv N (fl(k := r)) ps cls own (insert a live) s'" "a \<notin> live"
      "cls (page_no a) = Some k" "slot k a" by blast
    ultimately show ?thesis using main k1(1) z(3) by (intro exI [of _ a] exI [of _ s'] exI [of _ "fl(k := r)"] exI [of _ ps] exI [of _ cls]) simp
  next
    case Nil
    then have nul: "memory_table s ! k = NULL" using D(7) [OF k13] by simp
    obtain P ps' where ps: "ps = P # ps'" using free Nil by (cases ps) auto
    from kalloc_page_spec [OF inv [unfolded ps]] obtain s1 where
      s1: "kalloc_page s = Some (P, s1)" "mem_inv N fl ps' cls (insert P own) live s1" "P \<notin> own" by blast
    let ?s2 = "s1\<lparr>mword := (mword s1)(P := 2 ^ k)\<rparr>" and ?cls = "cls(page_no P \<mapsto> k)"
    note i2 = make_slab [OF s1(2,3) k3 k11]
    have cP: "cls (page_no P) = None" and P: "page_in P" using D(5,6) [of P] ps by simp_all
    have nolive: "\<forall>a\<in>set (fl k) \<union> live. page_no a = page_no P \<longrightarrow> page_off a < 64" using Nil D(15) cP by fastforce
    from carve_spec [OF i2 P _ _ _ _ nolive, of 512] pk(2) obtain s3 xs where
      s3: "carve 512 (2 ^ k) (P + of_nat PAGE_SIZE) (P + 64) ?s2 = Some s3"
        "mem_inv N (fl(k := xs @ fl k)) ps' ?cls own live s3" "xs \<noteq> []" by auto
    obtain a r where ar: "(fl(k := xs @ fl k)) k = a # r" using s3(3) by (cases xs) auto
    from pop_memory_spec [OF s3(2) k13 k3 k11 ar] obtain s' where
      s': "pop_memory (2 ^ k) s3 = Some (a, s')" "mem_inv N ((fl(k := xs @ fl k))(k := r)) ps' ?cls own (insert a live) s'" "a \<notin> live"
      "?cls (page_no a) = Some k" "slot k a" by blast
    have "kalloc sz s = Some (a, s')" using main nul s1(1) s3(1) s'(1) by simp
    moreover have "\<forall>n j. cls n = Some j \<longrightarrow> ?cls n = Some j" using cP by auto
    ultimately show ?thesis using s'(2-5) k1(1) z(3)
      by (intro exI [of _ a] exI [of _ s'] exI [of _ "(fl(k := xs @ fl k))(k := r)"] exI [of _ ps'] exI [of _ ?cls]) simp
  qed
qed

lemma get_page_header_page: "get_page_header a = a - of_nat (page_off a)"
proof -
  have "unat (a mod of_nat PAGE_SIZE) = page_off a"
    by (simp add: unat_mod page_off_def PAGE_SIZE_def)
  then have "a mod of_nat PAGE_SIZE = of_nat (page_off a)" by (metis of_nat_unat_u64)
  then show ?thesis by (simp add: get_page_header_def)
qed

lemma kfree_spec:
  assumes inv: "mem_inv N fl ps cls own live s" and a: "a \<in> live"
  shows "\<exists>k. cls (page_no a) = Some k \<and> mem_inv N (fl(k := a # fl k)) ps cls own (live - {a}) (kfree a s)"
proof -
  note D = mem_invD [OF inv]
  from D(15) [OF a] obtain k where k: "cls (page_no a) = Some k" "slot k a" "a \<notin> set (fl k)" by blast
  have "mword s (get_page_header a) = 2 ^ k"
    unfolding get_page_header_page using D(14) [of "a - of_nat (page_off a)"] k(1) page_start [of a] by simp
  then have "kfree a s = add_memory (2 ^ k) a s" by (simp add: kfree_def)
  then show ?thesis using add_memory_spec [OF inv k] k(1) by auto
qed

section \<open>Boot\<close>

lemma add_pages_chain:
  assumes "page_off p = 0" "KSPACE_MASK \<le> p" "p \<le> P2K PHYSTOP" "chain (mword s) (pages s) ps" "distinct ps"
    "\<forall>q\<in>set ps. page_in q \<and> q < p"
  shows "\<exists>ps'. chain (mword (add_pages p s)) (pages (add_pages p s)) ps' \<and> distinct ps' \<and> (\<forall>q\<in>set ps'. page_in q)
     \<and> length ps' = length ps + (page_no (P2K PHYSTOP) - page_no p)
     \<and> alloc_page_cnt (add_pages p s) = alloc_page_cnt s \<and> zero_page (add_pages p s) = zero_page s"
  using assms
proof (induction p s arbitrary: ps rule: add_pages.induct)
  case (1 p s)
  have top: "page_off (P2K PHYSTOP) = 0" by (simp add: page_off_def kspace_consts PAGE_SIZE_def)
  show ?case
  proof (cases "p < P2K PHYSTOP")
    case False
    then have "p = P2K PHYSTOP" using 1 by simp
    then show ?thesis using 1 False by (subst add_pages.simps, subst add_pages.simps) (auto simp: add_pages.simps)
  next
    case True
    have p: "page_in p" using 1 True by (simp add: page_in_def)
    have u: "unat p < unat (P2K PHYSTOP)" using True by (simp add: word_less_nat_alt)
    have d: "unat p = page_no p * 4096" "unat (P2K PHYSTOP) = page_no (P2K PHYSTOP) * 4096"
      using page_decomp(1) 1(2) top by (metis add.right_neutral)+
    have lt: "page_no p < page_no (P2K PHYSTOP)" using u unfolding d by simp
    have up: "unat (p + of_nat PAGE_SIZE) = (page_no p + 1) * 4096"
      using unat_add_no_wrap [of p "of_nat PAGE_SIZE"] page_in_idx(4) [OF p] d(1) by (simp add: PAGE_SIZE_def)
    have pn: "page_no (p + of_nat PAGE_SIZE) = page_no p + 1" "page_off (p + of_nat PAGE_SIZE) = 0"
      using page_unique [of "p + of_nat PAGE_SIZE" "page_no p + 1" 0] up by simp_all
    have less: "p < p + of_nat PAGE_SIZE" using up d(1) by (simp add: word_less_nat_alt)
    have le: "p + of_nat PAGE_SIZE \<le> P2K PHYSTOP" using up d(2) lt by (simp add: word_le_nat_alt)
    have a: "mword (add_page p s) = (mword s)(p := pages s)" "pages (add_page p s) = p"
      "alloc_page_cnt (add_page p s) = alloc_page_cnt s" "zero_page (add_page p s) = zero_page s"
      by (simp_all add: add_page_def add_to_queue_def)
    have np: "p \<notin> set ps" using 1(7) by auto
    have "chain (mword (add_page p s)) (pages (add_page p s)) (p # ps)"
      using 1(5) np page_in_idx(3) [OF p] by (simp add: a chain_upd)
    moreover have "\<forall>q\<in>set (p # ps). page_in q \<and> q < p + of_nat PAGE_SIZE" using 1(7) p less by (auto intro: less_trans)
    moreover have "KSPACE_MASK \<le> p + of_nat PAGE_SIZE" using 1(3) less by (meson order.strict_implies_order order_trans)
    ultimately obtain ps' where
      "chain (mword (add_pages (p + of_nat PAGE_SIZE) (add_page p s))) (pages (add_pages (p + of_nat PAGE_SIZE) (add_page p s))) ps'"
      "distinct ps'" "\<forall>q\<in>set ps'. page_in q"
      "length ps' = length (p # ps) + (page_no (P2K PHYSTOP) - page_no (p + of_nat PAGE_SIZE))"
      "alloc_page_cnt (add_pages (p + of_nat PAGE_SIZE) (add_page p s)) = alloc_page_cnt s"
      "zero_page (add_pages (p + of_nat PAGE_SIZE) (add_page p s)) = zero_page s"
      using 1(1) [OF True pn(2) _ le, of "p # ps"] 1(6) np a(3,4) by auto
    moreover have "add_pages p s = add_pages (p + of_nat PAGE_SIZE) (add_page p s)" using True by (subst add_pages.simps) simp
    ultimately show ?thesis using lt pn(1) by (intro exI [of _ ps']) simp
  qed
qed

text \<open>Memory at boot: no page is queued, the static variables are zero.\<close>

definition boot_mem :: "(ptr \<Rightarrow> u64) \<Rightarrow> memst" where
  "boot_mem m = \<lparr>mword = m, memory_table = replicate 13 NULL, alloc_page_cnt = 0, pages = NULL, page_refs = (\<lambda>_. 0), zero_page = NULL\<rparr>"

definition mem_boot :: "ptr \<Rightarrow> (ptr \<Rightarrow> u64) \<Rightarrow> memst" where
  "mem_boot kend m = init_pages kend (init_alloc_page_cnt (boot_mem m))"

definition kernel_end :: "ptr \<Rightarrow> bool" where
  "kernel_end kend \<longleftrightarrow> KSPACE_MASK \<le> kend \<and> kend < P2K PHYSTOP"

lemma PAGE_BASE_start: "PAGE_BASE a = a - of_nat (page_off a)"
proof -
  have m: "(0xFFF :: u64) = mask 12" by (simp add: mask_eq_exp_minus_1)
  have "NOT a AND (a AND mask 12) = 0" by (rule bit_eqI) (auto simp: bit_and_iff bit_not_iff)
  then have "a - (a AND mask 12) = a AND NOT (a AND mask 12)" by (rule disjunctive_diff_eq_and_not)
  also have "\<dots> = a AND NOT (mask 12)" by (rule bit_eqI) (auto simp: bit_and_iff bit_or_iff bit_not_iff)
  finally have "PAGE_BASE a = a - (a AND mask 12)" unfolding PAGE_BASE_def m by simp
  also have "a AND mask 12 = a mod 4096" by (simp add: take_bit_eq_mask [symmetric] take_bit_eq_mod)
  also have "\<dots> = of_nat (page_off a)" by (metis get_page_header_page get_page_header_def PAGE_SIZE_def diff_left_imp_eq of_nat_numeral)
  finally show ?thesis .
qed

lemma mem_boot_inv:
  assumes "kernel_end kend"
  shows "\<exists>ps. mem_inv (PAGE_COUNT kend) (\<lambda>_. []) ps (\<lambda>_. None) {} {} (mem_boot kend m)"
proof -
  let ?b = "PAGE_BASE kend" let ?p = "?b + of_nat PAGE_SIZE" and ?s = "init_alloc_page_cnt (boot_mem m)"
  have u: "unat KSPACE_MASK \<le> unat kend" "unat kend < unat (P2K PHYSTOP)"
    using assms by (simp_all add: kernel_end_def word_le_nat_alt word_less_nat_alt)
  have b: "unat ?b = page_no kend * 4096" unfolding PAGE_BASE_start by (rule unat_sub_page_off)
  have nt: "page_no kend < 4503530908151808" "4503530907893760 \<le> page_no kend"
    using u by (simp_all add: page_no_def kspace_consts PAGE_SIZE_def less_mult_imp_div_less)
  have p: "unat ?p = (page_no kend + 1) * 4096"
    using unat_add_no_wrap [of ?b "of_nat PAGE_SIZE"] b nt(1) by (simp add: PAGE_SIZE_def)
  have pn: "page_no ?p = page_no kend + 1" "page_off ?p = 0" using page_unique [of ?p "page_no kend + 1" 0] p by simp_all
  have top: "page_no (P2K PHYSTOP) = 4503530908151808" by (simp add: page_no_def kspace_consts PAGE_SIZE_def)
  have ge: "KSPACE_MASK \<le> ?p" using p nt(2) by (simp add: word_le_nat_alt kspace_consts)
  have le: "?p \<le> P2K PHYSTOP" using p nt(1) by (simp add: word_le_nat_alt kspace_consts)
  have c0: "chain (mword ?s) (pages ?s) []" by (simp add: init_alloc_page_cnt_def boot_mem_def)
  from add_pages_chain [OF pn(2) ge le c0] pn(1) top obtain ps where
    ps: "chain (mword (add_pages ?p ?s)) (pages (add_pages ?p ?s)) ps" "distinct ps" "\<forall>q\<in>set ps. page_in q"
      "length ps = 4503530908151808 - (page_no kend + 1)" "alloc_page_cnt (add_pages ?p ?s) = alloc_page_cnt ?s" by auto
  have "PAGE_COUNT kend = of_nat (length ps)"
  proof -
    have "unat (P2K PHYSTOP - ?b) = (4503530908151808 - page_no kend) * 4096"
      using b nt(1) by (simp add: unat_sub word_le_nat_alt kspace_consts diff_mult_distrib)
    then have "unat ((P2K PHYSTOP - ?b) div of_nat PAGE_SIZE) = 4503530908151808 - page_no kend"
      by (simp add: unat_div PAGE_SIZE_def)
    then have "(P2K PHYSTOP - ?b) div of_nat PAGE_SIZE = of_nat (4503530908151808 - page_no kend)" by (metis of_nat_unat_u64)
    moreover have "4503530908151808 - page_no kend = length ps + 1" using ps(4) nt(1) by simp
    ultimately show ?thesis by (simp add: PAGE_COUNT_def)
  qed
  moreover have "alloc_page_cnt ?s = 0" by (simp add: init_alloc_page_cnt_def init_rc_def)
  ultimately have "mem_inv (PAGE_COUNT kend) (\<lambda>_. []) ps (\<lambda>_. None) {} {} (mem_boot kend m)"
    using ps by (intro mem_invI) (simp_all add: mem_boot_def init_pages_def)
  then show ?thesis by blast
qed

section \<open>Runs\<close>

text \<open>
  \<open>mem_run kend own live s\<close>: a state after boot, with the pages and the heap blocks in use.  A client
  frees only what it holds and writes only into what it holds; \<open>ref_page\<close> is not called \<open>2 ^ 64\<close> times.
\<close>

definition block_size :: "memst \<Rightarrow> ptr \<Rightarrow> nat" where
  "block_size s a = unat (mword s (get_page_header a))"

inductive mem_run :: "ptr \<Rightarrow> ptr set \<Rightarrow> ptr set \<Rightarrow> memst \<Rightarrow> bool" for kend :: ptr where
  boot: "mem_run kend {} {} (mem_boot kend m)"
| zero: "mem_run kend own live s \<Longrightarrow> kalloc_page s = Some (p, s') \<Longrightarrow> mem_run kend (insert p own) live (s'\<lparr>zero_page := p\<rparr>)"
| kalloc: "mem_run kend own live s \<Longrightarrow> kalloc sz s = Some (a, s') \<Longrightarrow> mem_run kend own (insert a live) s'"
| kfree: "mem_run kend own live s \<Longrightarrow> a \<in> live \<Longrightarrow> mem_run kend own (live - {a}) (kfree a s)"
| alloc_page: "mem_run kend own live s \<Longrightarrow> kalloc_page s = Some (p, s') \<Longrightarrow> mem_run kend (insert p own) live s'"
| ref: "mem_run kend own live s \<Longrightarrow> p \<in> own \<Longrightarrow> page_refs s (page_idx p) \<noteq> - 1 \<Longrightarrow> ref_page p s = Some s' \<Longrightarrow> mem_run kend own live s'"
| free_page: "mem_run kend own live s \<Longrightarrow> p \<in> own \<Longrightarrow> kfree_page p s = Some s' \<Longrightarrow>
     mem_run kend (if page_refs s (page_idx p) = 1 then own - {p} else own) live s'"
| fill_block: "mem_run kend own live s \<Longrightarrow> a \<in> live \<Longrightarrow> n < block_size s a \<Longrightarrow>
     mem_run kend own live (s\<lparr>mword := (mword s)(a + of_nat n := v)\<rparr>)"
| fill_page: "mem_run kend own live s \<Longrightarrow> p \<in> own \<Longrightarrow> page_no b = page_no p \<Longrightarrow>
     mem_run kend own live (s\<lparr>mword := (mword s)(b := v)\<rparr>)"

lemma kalloc_large:
  assumes inv: "mem_inv N fl ps cls own live s" and sz: "2048 < sz" shows "kalloc sz s = None"
proof -
  note D = mem_invD [OF inv]
  have "2048 < unat sz" using sz by (simp add: word_less_nat_alt)
  then have k: "get_lowest_pow (if sz < 8 then 8 else sz) = 12" using get_lowest_pow_large [of sz] by (auto simp: word_less_nat_alt)
  have "fl 12 = []"
  proof (rule ccontr)
    assume "fl 12 \<noteq> []"
    then have "hd (fl 12) \<in> set (fl 12)" by simp
    then have "cls (page_no (hd (fl 12))) = Some 12" using D(9) [of 12] by simp
    from D(12) [OF this] show False by simp
  qed
  then have t: "memory_table s ! 12 = NULL" using D(7) [of 12] by simp
  have pw: "kpow 2 (of_nat 12) = 4096" by (simp add: kpow_def pow_loop_power)
  have g: "get_lowest_pow 4096 = 12" using get_lowest_pow_power [of 12] by simp
  show ?thesis
  proof (cases "ps")
    case Nil
    then have "kalloc_page s = None" using kalloc_page_empty inv by blast
    then show ?thesis unfolding kalloc_def Let_def k using t by simp
  next
    case (Cons P ps')
    from kalloc_page_spec [OF inv [unfolded Cons]] obtain s1 where
      s1: "kalloc_page s = Some (P, s1)" "memory_table s1 = memory_table s" by blast
    have P: "page_in P" using D(5) [of P] Cons by simp
    have "unat (P + 64 + 4096) = unat P + 4160" "unat (P + of_nat PAGE_SIZE) = unat P + 4096"
      using unat_add_no_wrap [of P 4160] unat_add_no_wrap [of P 4096] page_in_idx(4) [OF P] by (simp_all add: PAGE_SIZE_def add.assoc)
    then have "\<not> P + 64 + 4096 \<le> P + of_nat PAGE_SIZE" by (simp add: word_le_nat_alt)
    moreover have "(512 :: nat) = Suc 511" by simp
    ultimately have "carve 512 4096 (P + of_nat PAGE_SIZE) (P + 64) x = Some x" for x by (metis carve.simps(2))
    then show ?thesis unfolding kalloc_def Let_def k pw using t s1 by (simp add: pop_memory_def g)
  qed
qed

lemma kalloc_empty:
  assumes inv: "mem_inv N fl [] cls own live s" and k: "k = get_lowest_pow (if sz < 8 then 8 else sz)" "k < 13" "fl k = []"
  shows "kalloc sz s = None"
proof -
  have "memory_table s ! k = NULL" using mem_invD(7) [OF inv k(2)] k(3) by simp
  then show ?thesis unfolding kalloc_def Let_def k(1) [symmetric] using kalloc_page_empty [OF inv] by simp
qed

lemma kalloc_inv:
  assumes inv: "mem_inv N fl ps cls own live s" and a: "kalloc sz s = Some (a, s')"
  shows "\<exists>k fl' ps' cls'. mem_inv N fl' ps' cls' own (insert a live) s' \<and> a \<notin> live
     \<and> cls' (page_no a) = Some k \<and> slot k a \<and> unat sz \<le> 2 ^ k \<and> (\<forall>n j. cls n = Some j \<longrightarrow> cls' n = Some j)"
proof -
  let ?k = "get_lowest_pow (if sz < 8 then 8 else sz)"
  have sz: "sz \<le> 2048" using kalloc_large [OF inv, of sz] a by (cases "2048 < sz") auto
  then have "?k \<le> 12" using get_lowest_pow_small(2) [of "if sz < 8 then 8 else sz"]
    by (auto simp: word_le_nat_alt word_less_nat_alt split: if_splits)
  then have "fl ?k \<noteq> [] \<or> ps \<noteq> []" using kalloc_empty [of N fl cls own live s ?k sz] inv a by auto
  from kalloc_spec [OF inv sz refl this] a show ?thesis by fastforce
qed

lemma block_size_class:
  assumes inv: "mem_inv N fl ps cls own live s" and k: "cls (page_no a) = Some k" shows "block_size s a = 2 ^ k"
proof -
  have "mword s (get_page_header a) = 2 ^ k"
    unfolding get_page_header_page using mem_invD(14) [OF inv, of "a - of_nat (page_off a)"] k page_start [of a] by simp
  moreover have "k < 64" using mem_invD(12) [OF inv k] by simp
  ultimately show ?thesis by (simp add: block_size_def unat_power_two)
qed

lemma mem_run_inv: "mem_run kend own live s \<Longrightarrow> kernel_end kend \<Longrightarrow> \<exists>fl ps cls. mem_inv (PAGE_COUNT kend) fl ps cls own live s"
proof (induction rule: mem_run.induct)
  case (boot m)
  then show ?case using mem_boot_inv by blast
next
  case (zero own live s p s')
  then obtain fl ps cls where i: "mem_inv (PAGE_COUNT kend) fl ps cls own live s" by blast
  then obtain ps' where "ps = p # ps'" using zero(2) kalloc_page_empty kalloc_page_spec by (cases ps) fastforce+
  then have "mem_inv (PAGE_COUNT kend) fl ps' cls (insert p own) live s'" using kalloc_page_spec [of _ fl p ps'] i zero(2) by fastforce
  then have "mem_inv (PAGE_COUNT kend) fl ps' cls (insert p own) live (s'\<lparr>zero_page := p\<rparr>)" unfolding mem_inv_def by simp
  then show ?case by blast
next
  case (kalloc own live s sz a s')
  then show ?case using kalloc_inv by meson
next
  case (kfree own live s a)
  then show ?case using kfree_spec by blast
next
  case (alloc_page own live s p s')
  then obtain fl ps cls where i: "mem_inv (PAGE_COUNT kend) fl ps cls own live s" by blast
  then obtain ps' where "ps = p # ps'" using alloc_page(2) kalloc_page_empty kalloc_page_spec by (cases ps) fastforce+
  then show ?case using kalloc_page_spec [of _ fl p ps'] i alloc_page(2) by fastforce
next
  case (ref own live s p s')
  then show ?case using ref_page_spec by fastforce
next
  case (free_page own live s p s')
  then show ?case using kfree_page_spec by fastforce
next
  case (fill_block own live s a n v)
  then obtain fl ps cls where i: "mem_inv (PAGE_COUNT kend) fl ps cls own live s" by blast
  from mem_invD(15) [OF i fill_block(2)] obtain k where k: "cls (page_no a) = Some k" by blast
  then have "n < 2 ^ k" using block_size_class [OF i k] fill_block(3) by simp
  then show ?case using write_live_inv [OF i fill_block(2) k] by blast
next
  case (fill_page own live s p b v)
  then show ?case using write_own_inv by blast
qed

section \<open>Properties\<close>

definition block_bytes :: "memst \<Rightarrow> ptr \<Rightarrow> nat set" where
  "block_bytes s a = {unat a..<unat a + block_size s a}"

lemma slots_disjoint:
  assumes "slot k a" "slot j b" "page_no a = page_no b \<Longrightarrow> k = j" "a \<noteq> b"
  shows "{unat a..<unat a + 2 ^ k} \<inter> {unat b..<unat b + 2 ^ j} = {}"
proof (rule ccontr)
  assume "\<not> ?thesis"
  then have "\<exists>x. x \<in> {unat a..<unat a + 2 ^ k} \<inter> {unat b..<unat b + 2 ^ j}" by blast
  then obtain x where x: "unat a \<le> x" "x < unat a + 2 ^ k" "unat b \<le> x" "x < unat b + 2 ^ j"
    unfolding Int_iff atLeastLessThan_iff by blast
  have A: "unat a = page_no a * 4096 + page_off a" "page_off a + 2 ^ k \<le> 4096"
    and B: "unat b = page_no b * 4096 + page_off b" "page_off b + 2 ^ j \<le> 4096"
    using page_decomp(1) assms(1,2) by (auto simp: slot_def)
  have x2: "page_no a * 4096 < Suc (page_no b) * 4096" "page_no b * 4096 < Suc (page_no a) * 4096"
    using x A B by simp_all
  then have p: "page_no a = page_no b" by (simp only: mult_less_cancel2) simp
  then have "k = j" by (rule assms(3))
  show False
  proof (cases "page_off a \<le> page_off b")
    case True
    have "page_off b - page_off a < 2 ^ k" using x A(1) B(1) p True by simp
    then show False using slot_disjoint [of k a b "page_off b - page_off a"] assms(1,2,4) p \<open>k = j\<close> True by simp
  next
    case False
    have "page_off a - page_off b < 2 ^ j" using x A(1) B(1) p False by simp
    then show False using slot_disjoint [of j b a "page_off a - page_off b"] assms(1,2,4) p \<open>k = j\<close> False by simp
  qed
qed

text \<open>
  C33: the kernel heap.  After any run of the allocator and its clients, including arbitrary writes of
  the clients into the memory they hold, \<open>kalloc\<close> of at most 2048 bytes succeeds while a page is free.
  It returns a block that is not in use, has room for the request, lies in one page, and overlaps no
  block and no page in use; the blocks in use keep their sizes.
\<close>

theorem kalloc_correct:
  assumes "kernel_end kend" "mem_run kend own live s" "sz \<le> 2048" "pages s \<noteq> NULL"
  shows "\<exists>a s'. kalloc sz s = Some (a, s') \<and> a \<notin> live \<and> unat sz \<le> block_size s' a
     \<and> page_off a + block_size s' a \<le> PAGE_SIZE \<and> (\<forall>p\<in>own. page_no p \<noteq> page_no a)
     \<and> (\<forall>b\<in>live. block_bytes s' a \<inter> block_bytes s' b = {} \<and> block_size s' b = block_size s b)"
proof -
  from mem_run_inv [OF assms(2,1)] obtain fl ps cls where i: "mem_inv (PAGE_COUNT kend) fl ps cls own live s" by blast
  have "ps \<noteq> []" using mem_invD(3) [OF i] assms(4) by auto
  from kalloc_spec [OF i assms(3) refl disjI2 [OF this]] obtain k a s' fl' ps' cls' where
    r: "kalloc sz s = Some (a, s')" "mem_inv (PAGE_COUNT kend) fl' ps' cls' own (insert a live) s'" "a \<notin> live"
      "cls' (page_no a) = Some k" "slot k a" "unat sz \<le> 2 ^ k" "\<forall>n j. cls n = Some j \<longrightarrow> cls' n = Some j" by blast
  note D = mem_invD [OF r(2)]
  have bs: "block_size s' a = 2 ^ k" by (rule block_size_class [OF r(2,4)])
  have "block_bytes s' a \<inter> block_bytes s' b = {} \<and> block_size s' b = block_size s b" if b: "b \<in> live" for b
  proof -
    from mem_invD(15) [OF i b] obtain j where j: "cls (page_no b) = Some j" "slot j b" by blast
    then have j': "cls' (page_no b) = Some j" using r(7) by blast
    have e: "block_size s' b = 2 ^ j" "block_size s b = 2 ^ j" using block_size_class [OF r(2) j'] block_size_class [OF i j(1)] .
    have "a \<noteq> b" using b r(3) by auto
    moreover have "k = j" if "page_no a = page_no b" using that r(4) j' by simp
    ultimately show ?thesis using slots_disjoint [OF r(5) j(2)] bs e by (simp add: block_bytes_def)
  qed
  moreover have "\<forall>p\<in>own. page_no p \<noteq> page_no a" using D(18) r(4) by fastforce
  ultimately show ?thesis using r(1,3,5,6) bs by (auto simp: slot_def PAGE_SIZE_def)
qed

text \<open>An example: one free page behind the kernel.\<close>

definition example_kend :: ptr where "example_kend = 0xffff00003effe000"

lemma example_kernel_end: "kernel_end example_kend"
  by (simp add: kernel_end_def example_kend_def KSPACE_MASK_def P2K_def PHYSTOP_def)

lemma example_boot_pages: "pages (mem_boot example_kend m) = 0xffff00003efff000"
proof -
  have b: "PAGE_BASE example_kend + of_nat PAGE_SIZE = 0xffff00003efff000" "P2K PHYSTOP = 0xffff00003f000000"
    by (simp_all add: PAGE_BASE_def example_kend_def PAGE_SIZE_def P2K_def PHYSTOP_def KSPACE_MASK_def)
  have 1: "add_pages 0xffff00003efff000 s = add_pages 0xffff00003f000000 (add_page 0xffff00003efff000 s)" for s
    by (subst add_pages.simps) (simp add: b(2) PAGE_SIZE_def)
  have 2: "add_pages 0xffff00003f000000 s = s" for s by (subst add_pages.simps) (simp add: b(2))
  show ?thesis by (simp add: mem_boot_def init_pages_def b(1) 1 2 add_page_def add_to_queue_def)
qed

theorem kalloc_correct_witness:
  "\<exists>a s'. kalloc 24 (mem_boot example_kend (\<lambda>_. 0)) = Some (a, s') \<and> 24 \<le> block_size s' a"
  using kalloc_correct [OF example_kernel_end boot, of 24 "\<lambda>_. 0"] example_boot_pages by auto

text \<open>
  \<open>kalloc\<close> of more than 2048 bytes never returns a block.  Every such size falls into the class of
  4096 bytes, no block of which fits behind the header of a page, and the code then follows a NULL
  pointer.
\<close>

theorem kalloc_large_faults:
  assumes "kernel_end kend" "mem_run kend own live s" "2048 < sz"
  shows "kalloc sz s = None"
  using mem_run_inv [OF assms(2,1)] kalloc_large assms(3) by blast

theorem kalloc_large_faults_witness: "kalloc 3000 (mem_boot example_kend (\<lambda>_. 0)) = None"
  by (rule kalloc_large_faults [OF example_kernel_end boot]) simp

text \<open>
  the count of free pages.  After any run, the queue of free pages is a chain without repetition
  and \<open>left_page_cnt\<close> is its length.
\<close>

theorem left_page_cnt_exact:
  assumes "kernel_end kend" "mem_run kend own live s"
  shows "\<exists>ps. chain (mword s) (pages s) ps \<and> distinct ps \<and> (\<forall>p\<in>set ps. page_in p \<and> p \<notin> own) \<and> left_page_cnt kend s = of_nat (length ps)"
proof -
  from mem_run_inv [OF assms(2,1)] obtain fl ps cls where i: "mem_inv (PAGE_COUNT kend) fl ps cls own live s" by blast
  note D = mem_invD [OF i]
  have "left_page_cnt kend s = of_nat (length ps)" using D(2) by (simp add: left_page_cnt_def) (metis add_diff_cancel_left')
  then show ?thesis using D(3-5,17) by blast
qed

theorem left_page_cnt_exact_witness:
  "\<exists>ps. chain (mword (mem_boot example_kend (\<lambda>_. 0))) 0xffff00003efff000 ps \<and> left_page_cnt example_kend (mem_boot example_kend (\<lambda>_. 0)) = of_nat (length ps)"
  using left_page_cnt_exact [OF example_kernel_end boot, of "\<lambda>_. 0"] example_boot_pages by auto

text \<open>\<open>pow\<close> by repeated squaring is the power, modulo \<open>2 ^ 64\<close>, for every base and exponent.\<close>

theorem kpow_power: "kpow a b = a ^ unat b"
  by (simp add: kpow_def pow_loop_power)

end
