(* ===== verification/Ipc.thy ===== *)
theory Ipc
  imports Mem_Run Sched "HOL-Library.Signed_Division"
begin

text \<open>
  System V message queues (\<open>common/ipc.c\<close>, \<open>common/ipc.h\<close>) over the allocator and the scheduler.  A
  queue is named by the block \<open>kalloc\<close> gives it, a message by its first page; the three lists of a
  queue are their member sequences, oldest first.  A sender or receiver that sleeps is named by its
  process, whose stack holds the list node.  Each function runs under \<open>msg_ids.lock\<close>; a call that
  goes to sleep is split there.  \<open>kalloc_page\<close> faults rather than return NULL, so the code after a
  failed page allocation is not reached.  A C \<open>int\<close> is an \<open>int\<close>: no computation below overflows.
\<close>

section \<open>Constants\<close>

definition ENOMEM :: int where "ENOMEM = - 1"
definition ENOSEQ :: int where "ENOSEQ = - 2"
definition ENOENT :: int where "ENOENT = - 3"
definition EEXIST :: int where "EEXIST = - 4"
definition EINVAL :: int where "EINVAL = - 5"
definition EAGAIN :: int where "EAGAIN = - 6"
definition EIDRM :: int where "EIDRM = - 7"
definition E2BIG :: int where "E2BIG = - 8"
definition ENOMSG :: int where "ENOMSG = - 9"
definition IPC_RMID :: int where "IPC_RMID = 0"
definition SEQ_MULTIPLIER :: int where "SEQ_MULTIPLIER = 16"
definition IPC_PRIVATE :: int where "IPC_PRIVATE = 0"
definition IPC_CREATE :: int where "IPC_CREATE = 2"
definition IPC_EXCL :: int where "IPC_EXCL = 1"
definition IPC_NOWAIT :: int where "IPC_NOWAIT = 1"
definition MSG_MSGSZ :: int where "MSG_MSGSZ = int PAGE_SIZE - 32"
definition MSG_MSGSEGSZ :: int where "MSG_MSGSEGSZ = int PAGE_SIZE - 8"
definition MAX_MSGNUM :: int where "MAX_MSGNUM = 256"

lemmas ipc_consts = ENOMEM_def ENOSEQ_def ENOENT_def EEXIST_def EINVAL_def EAGAIN_def EIDRM_def E2BIG_def ENOMSG_def
  IPC_RMID_def SEQ_MULTIPLIER_def IPC_PRIVATE_def IPC_CREATE_def IPC_EXCL_def IPC_NOWAIT_def MAX_MSGNUM_def

lemma msg_sizes: "MSG_MSGSZ = 4064" "MSG_MSGSEGSZ = 4088"
  by (simp_all add: MSG_MSGSZ_def MSG_MSGSEGSZ_def PAGE_SIZE_def)

section \<open>State\<close>

record msg_queue =
  q_key :: int
  q_seq :: u16
  max_msg :: int
  sum_msg :: int
  q_message :: "ptr list"
  q_sender :: "ptr list"
  q_receiver :: "ptr list"

type_synonym bytes = "nat \<Rightarrow> u8"

record msg_msg =
  m_mtype :: int
  m_size :: int
  m_data :: bytes
  m_segs :: "(ptr \<times> bytes) list"

record msg_receiver =
  r_mtype :: int
  r_size :: int
  r_msg :: ptr

record ipcst =
  entries :: "ptr list"
  in_use :: int
  ids_seq :: u16
  queues :: "ptr \<Rightarrow> msg_queue"
  msgs :: "ptr \<Rightarrow> msg_msg"
  rcvs :: "ptr \<Rightarrow> msg_receiver"
  imem :: memst
  isched :: schedst

definition init_ipc :: "ipcst \<Rightarrow> ipcst" where
  "init_ipc s = s\<lparr>in_use := 0, ids_seq := 0, entries := replicate 16 NULL\<rparr>"

definition upd_queue :: "ptr \<Rightarrow> (msg_queue \<Rightarrow> msg_queue) \<Rightarrow> ipcst \<Rightarrow> ipcst" where
  "upd_queue q f s = s\<lparr>queues := (queues s)(q := f (queues s q))\<rparr>"

definition wake :: "ptr \<Rightarrow> ipcst \<Rightarrow> ipcst" where
  "wake p s = s\<lparr>isched := snd (activate_proc p False (isched s))\<rparr>"

section \<open>Queues\<close>

definition ipc_addid :: "ptr \<Rightarrow> ipcst \<Rightarrow> int \<times> ipcst" where
  "ipc_addid que s =
     (case find (\<lambda>i. entries s ! i = NULL) [0..<16] of
        None \<Rightarrow> (- 1, s)
      | Some i \<Rightarrow>
          (int i, (upd_queue que (\<lambda>q. q\<lparr>q_seq := ids_seq s\<rparr>) s)
                    \<lparr>in_use := in_use s + 1, ids_seq := ids_seq s + 1, entries := (entries s)[i := que]\<rparr>))"

definition ipc_buildin :: "int \<Rightarrow> u16 \<Rightarrow> int" where
  "ipc_buildin i sq = uint sq * SEQ_MULTIPLIER + i"

definition newque :: "int \<Rightarrow> ipcst \<Rightarrow> (int \<times> ipcst) option" where
  "newque key s =
     do { (que, m) \<leftarrow> kalloc 64 (imem s);
          let s1 = s\<lparr>imem := m\<rparr>;
          if que = NULL then Some (ENOMEM, s1)
          else let (i, s2) = ipc_addid que s1
               in if i < 0 then Some (ENOSEQ, s2\<lparr>imem := kfree que (imem s2)\<rparr>)
                  else let s3 = upd_queue que (\<lambda>q. q\<lparr>q_key := key, max_msg := MAX_MSGNUM, sum_msg := 0,
                                                   q_message := [], q_receiver := [], q_sender := []\<rparr>) s2
                       in Some (ipc_buildin i (q_seq (queues s3 que)), s3) }"

definition ipc_findkey :: "int \<Rightarrow> ipcst \<Rightarrow> int" where
  "ipc_findkey key s =
     (case find (\<lambda>i. entries s ! i \<noteq> NULL \<and> q_key (queues s (entries s ! i)) = key) [0..<16] of
        None \<Rightarrow> - 1 | Some i \<Rightarrow> int i)"

definition sys_msgget :: "int \<Rightarrow> int \<Rightarrow> ipcst \<Rightarrow> (int \<times> ipcst) option" where
  "sys_msgget key msgflg s =
     (if key = IPC_PRIVATE then newque key s
      else let i = ipc_findkey key s
           in if i = - 1 then (if msgflg AND IPC_CREATE \<noteq> 0 then newque key s else Some (ENOENT, s))
              else if msgflg AND IPC_EXCL \<noteq> 0 then Some (EEXIST, s)
              else Some (ipc_buildin i (q_seq (queues s (entries s ! nat i))), s))"

text \<open>The C remainder of a negative identifier is negative: the array is then read out of bounds.\<close>

definition get_msgq :: "int \<Rightarrow> ipcst \<Rightarrow> ptr option" where
  "get_msgq msgid s =
     (let i = msgid smod SEQ_MULTIPLIER
      in if i \<ge> 16 then Some NULL
         else if i < 0 then None
         else if entries s ! nat i = NULL then Some NULL
         else if msgid sdiv SEQ_MULTIPLIER \<noteq> uint (q_seq (queues s (entries s ! nat i))) then Some NULL
         else Some (entries s ! nat i))"

section \<open>Messages\<close>

definition blit :: "bytes \<Rightarrow> nat \<Rightarrow> bytes \<Rightarrow> nat \<Rightarrow> int \<Rightarrow> bytes" where
  "blit dst doff src soff n = (\<lambda>i. if doff \<le> i \<and> int (i - doff) < n then src (soff + (i - doff)) else dst i)"

fun free_pages :: "ptr list \<Rightarrow> memst \<Rightarrow> memst option" where
  "free_pages [] m = Some m"
| "free_pages (p # ps) m = do { m1 \<leftarrow> kfree_page p m; free_pages ps m1 }"

definition free_msg :: "ptr \<Rightarrow> ipcst \<Rightarrow> ipcst option" where
  "free_msg p s =
     do { m1 \<leftarrow> free_pages (map fst (m_segs (msgs s p))) (imem s);
          m2 \<leftarrow> kfree_page p m1;
          Some (s\<lparr>imem := m2\<rparr>) }"

text \<open>
  The loop of \<open>load_msg\<close>: \<open>off\<close> is how far \<open>src\<close> was advanced.  As in the source, the advance is taken
  after \<open>len\<close> was reduced.
\<close>

function load_segs :: "bytes \<Rightarrow> nat \<Rightarrow> int \<Rightarrow> memst \<Rightarrow> ((ptr \<times> bytes) list \<times> memst) option" where
  "load_segs src off len m =
     (if len > 0
      then do { (p, m1) \<leftarrow> kalloc_page m;
                let n = min MSG_MSGSEGSZ len;
                let data = blit (\<lambda>_. 0) 0 src off n;
                let len1 = len - n;
                (segs, m2) \<leftarrow> load_segs src (off + nat (min MSG_MSGSEGSZ len1)) len1 m1;
                Some ((p, data) # segs, m2) }
      else Some ([], m))"
  by pat_completeness auto

termination load_segs
  by (relation "measure (\<lambda>(src, off, len, m). nat len)") (auto simp: msg_sizes)

declare load_segs.simps [simp del]

definition load_msg :: "bytes \<Rightarrow> int \<Rightarrow> ipcst \<Rightarrow> (ptr \<times> ipcst) option" where
  "load_msg src len s =
     do { (p, m1) \<leftarrow> kalloc_page (imem s);
          let n = min MSG_MSGSZ len;
          let data = blit (\<lambda>_. 0) 0 src 0 n;
          let len1 = len - n;
          (segs, m2) \<leftarrow> load_segs src (nat (min MSG_MSGSZ len1)) len1 m1;
          Some (p, s\<lparr>imem := m2, msgs := (msgs s)(p := (msgs s p)\<lparr>m_data := data, m_segs := segs\<rparr>)\<rparr>) }"

function store_segs :: "(ptr \<times> bytes) list \<Rightarrow> nat \<Rightarrow> int \<Rightarrow> bytes \<Rightarrow> bytes option" where
  "store_segs segs off msgsz dst =
     (if msgsz > 0
      then (case segs of
              [] \<Rightarrow> None
            | sg # rest \<Rightarrow>
                let n = min msgsz MSG_MSGSEGSZ; msgsz1 = msgsz - n
                in store_segs rest (off + nat (min msgsz1 MSG_MSGSEGSZ)) msgsz1 (blit dst off (snd sg) 0 n))
      else Some dst)"
  by pat_completeness auto

termination store_segs
  by (relation "measure (\<lambda>(segs, off, msgsz, dst). nat msgsz)") (auto simp: msg_sizes)

declare store_segs.simps [simp del]

definition store_msg :: "bytes \<Rightarrow> msg_msg \<Rightarrow> int \<Rightarrow> (int \<times> bytes) option" where
  "store_msg dst msg msgsz =
     do { let n = min msgsz MSG_MSGSZ;
          let dst1 = blit dst 0 (m_data msg) 0 n;
          let msgsz1 = msgsz - n;
          dst2 \<leftarrow> store_segs (m_segs msg) (nat (min MSG_MSGSZ msgsz1)) msgsz1 dst1;
          Some (m_mtype msg, dst2) }"

definition testmsg :: "int \<Rightarrow> int \<Rightarrow> bool" where
  "testmsg rqtype mtype =
     (if rqtype = 0 then True else if rqtype < 0 then rqtype + mtype \<le> 0 else rqtype = mtype)"

section \<open>Sending\<close>

text \<open>
  The loop of \<open>pipeline_send\<close>; the list is the current node and those behind it.  A receiver whose
  buffer is too small is detached, which makes its node its own successor, so the loop goes on with
  the same node.  \<open>fuel\<close> bounds the rounds; running out of it is \<^const>\<open>None\<close>.
\<close>

fun pipeline_loop :: "nat \<Rightarrow> ptr \<Rightarrow> ptr \<Rightarrow> ptr list \<Rightarrow> ipcst \<Rightarrow> (bool \<times> ipcst) option" where
  "pipeline_loop 0 q msg nodes s = None"
| "pipeline_loop (Suc fuel) q msg [] s = Some (False, s)"
| "pipeline_loop (Suc fuel) q msg (r # rest) s =
     (if testmsg (r_mtype (rcvs s r)) (m_mtype (msgs s msg))
      then let s1 = upd_queue q (\<lambda>x. x\<lparr>q_receiver := remove1 r (q_receiver x)\<rparr>) s
           in if m_size (msgs s1 msg) > r_size (rcvs s1 r)
              then pipeline_loop fuel q msg (r # rest)
                     (wake r (s1\<lparr>rcvs := (rcvs s1)(r := (rcvs s1 r)\<lparr>r_msg := NULL\<rparr>)\<rparr>))
              else Some (True, wake r (s1\<lparr>rcvs := (rcvs s1)(r := (rcvs s1 r)\<lparr>r_msg := msg\<rparr>)\<rparr>))
      else pipeline_loop fuel q msg rest s)"

definition pipeline_send :: "ptr \<Rightarrow> ptr \<Rightarrow> ipcst \<Rightarrow> (bool \<times> ipcst) option" where
  "pipeline_send q msg s = pipeline_loop (Suc (length (q_receiver (queues s q)))) q msg (q_receiver (queues s q)) s"

text \<open>
  From the label \<open>retry\<close> of \<open>sys_msgsnd\<close>, on processor \<open>c\<close> at time \<open>now\<close>: the result, or no result when
  the sender went to sleep; it retries when it runs again.
\<close>

definition msgsnd_try :: "nat \<Rightarrow> u64 \<Rightarrow> int \<Rightarrow> ptr \<Rightarrow> int \<Rightarrow> ipcst \<Rightarrow> (int option \<times> ipcst) option" where
  "msgsnd_try c now msgid msg msgflg s =
     do { q \<leftarrow> get_msgq msgid s;
          if q = NULL then do { s1 \<leftarrow> free_msg msg s; Some (Some EIDRM, s1) }
          else if sum_msg (queues s q) + 1 > max_msg (queues s q) then
            (if msgflg AND IPC_NOWAIT \<noteq> 0 then do { s1 \<leftarrow> free_msg msg s; Some (Some EAGAIN, s1) }
             else do { let s1 = upd_queue q (\<lambda>x. x\<lparr>q_sender := q_sender x @ [thisproc (isched s) c]\<rparr>) s;
                       sc \<leftarrow> simple_sched c now SLEEPING (isched s1);
                       Some (None, s1\<lparr>isched := sc\<rparr>) })
          else do { (sent, s1) \<leftarrow> pipeline_send q msg s;
                    Some (Some 0, if sent then s1
                                  else upd_queue q (\<lambda>x. x\<lparr>q_message := q_message x @ [msg], sum_msg := sum_msg x + 1\<rparr>) s1) } }"

text \<open>\<open>mtype\<close> and \<open>src\<close> are the fields of \<open>*msgp\<close>; \<open>msgp_null\<close> says that \<open>msgp\<close> is NULL.\<close>

definition sys_msgsnd :: "nat \<Rightarrow> u64 \<Rightarrow> int \<Rightarrow> bool \<Rightarrow> int \<Rightarrow> bytes \<Rightarrow> int \<Rightarrow> int \<Rightarrow> ipcst \<Rightarrow> (int option \<times> ipcst) option" where
  "sys_msgsnd c now msgid msgp_null mtype src msgsz msgflg s =
     (if msgsz < 0 \<or> msgp_null \<or> mtype < 1 then Some (Some EINVAL, s)
      else do { (p, s1) \<leftarrow> load_msg src msgsz s;
                let s2 = s1\<lparr>msgs := (msgs s1)(p := (msgs s1 p)\<lparr>m_mtype := mtype, m_size := msgsz\<rparr>)\<rparr>;
                msgsnd_try c now msgid p msgflg s2 })"

section \<open>Receiving\<close>

fun wake_all :: "ptr list \<Rightarrow> ipcst \<Rightarrow> ipcst" where
  "wake_all [] s = s"
| "wake_all (p # ps) s = wake_all ps (wake p s)"

definition ss_wakeup_senders :: "ptr \<Rightarrow> ipcst \<Rightarrow> ipcst" where
  "ss_wakeup_senders q s = wake_all (q_sender (queues s q)) (upd_queue q (\<lambda>x. x\<lparr>q_sender := []\<rparr>) s)"

definition ss_wakeup_receivers :: "ptr \<Rightarrow> ipcst \<Rightarrow> ipcst" where
  "ss_wakeup_receivers q s = wake_all (q_receiver (queues s q)) (upd_queue q (\<lambda>x. x\<lparr>q_receiver := []\<rparr>) s)"

fun search_msg :: "(ptr \<Rightarrow> msg_msg) \<Rightarrow> int \<Rightarrow> ptr \<Rightarrow> ptr list \<Rightarrow> ptr \<times> int" where
  "search_msg ms mtype found [] = (found, mtype)"
| "search_msg ms mtype found (x # xs) =
     (if testmsg mtype (m_mtype (ms x))
      then (if mtype < - 1 then search_msg ms (mtype + 1) x xs else (x, mtype))
      else search_msg ms mtype found xs)"

text \<open>
  \<open>sys_msgrcv\<close> up to the point where the message is known: an error, the message, or none when the
  receiver went to sleep.  What \<open>r_msg\<close> holds on the stack before it is set is the argument \<open>junk\<close>.
\<close>

definition msgrcv_begin :: "nat \<Rightarrow> u64 \<Rightarrow> ptr \<Rightarrow> int \<Rightarrow> bool \<Rightarrow> int \<Rightarrow> int \<Rightarrow> int \<Rightarrow> ipcst \<Rightarrow> ((int + ptr) option \<times> ipcst) option" where
  "msgrcv_begin c now junk msgid msgp_null msgsz mtype msgflg s =
     (if msgsz < 0 \<or> msgp_null then Some (Some (Inl EINVAL), s)
      else do { q \<leftarrow> get_msgq msgid s;
                if q = NULL then Some (Some (Inl EIDRM), s)
                else let (found, mtype') = search_msg (msgs s) mtype NULL (q_message (queues s q))
                     in if found \<noteq> NULL then
                          (if m_size (msgs s found) > msgsz then Some (Some (Inl E2BIG), s)
                           else Some (Some (Inr found), ss_wakeup_senders q
                                  (upd_queue q (\<lambda>x. x\<lparr>q_message := remove1 found (q_message x), sum_msg := sum_msg x - 1\<rparr>) s)))
                        else if msgflg AND IPC_NOWAIT \<noteq> 0 then Some (Some (Inl ENOMSG), s)
                        else do { let r = thisproc (isched s) c;
                                  let s1 = upd_queue q (\<lambda>x. x\<lparr>q_receiver := q_receiver x @ [r]\<rparr>)
                                             (s\<lparr>rcvs := (rcvs s)(r := \<lparr>r_mtype = mtype', r_size = msgsz, r_msg = junk\<rparr>)\<rparr>);
                                  sc \<leftarrow> simple_sched c now SLEEPING (isched s1);
                                  Some (None, s1\<lparr>isched := sc\<rparr>) } })"

definition msgrcv_take :: "ptr \<Rightarrow> int \<Rightarrow> bytes \<Rightarrow> ipcst \<Rightarrow> (int \<times> int \<times> bytes \<times> ipcst) option" where
  "msgrcv_take found msgsz dst s =
     do { let n = min msgsz (m_size (msgs s found));
          (mtype, dst1) \<leftarrow> store_msg dst (msgs s found) n;
          s1 \<leftarrow> free_msg found s;
          Some (n, mtype, dst1, s1) }"

text \<open>A receiver that runs again.\<close>

definition msgrcv_resume :: "ptr \<Rightarrow> int \<Rightarrow> bytes \<Rightarrow> ipcst \<Rightarrow> (int \<times> bytes \<times> ipcst) option" where
  "msgrcv_resume r msgsz dst s =
     (if r_msg (rcvs s r) = NULL then Some (E2BIG, dst, s)
      else do { (n, _, dst1, s1) \<leftarrow> msgrcv_take (r_msg (rcvs s r)) msgsz dst s; Some (n, dst1, s1) })"

section \<open>Removal\<close>

fun expunge_loop :: "ptr list \<Rightarrow> ipcst \<Rightarrow> ipcst" where
  "expunge_loop [] s = s"
| "expunge_loop (r # rs) s = expunge_loop rs (wake r (s\<lparr>rcvs := (rcvs s)(r := (rcvs s r)\<lparr>r_msg := NULL\<rparr>)\<rparr>))"

definition expunge_all :: "ptr \<Rightarrow> ipcst \<Rightarrow> ipcst" where
  "expunge_all q s = expunge_loop (q_receiver (queues s q)) (upd_queue q (\<lambda>x. x\<lparr>q_receiver := []\<rparr>) s)"

fun free_msgs :: "ptr list \<Rightarrow> ipcst \<Rightarrow> ipcst option" where
  "free_msgs [] s = Some s"
| "free_msgs (p # ps) s = do { s1 \<leftarrow> free_msg p s; free_msgs ps s1 }"

definition freeque :: "int \<Rightarrow> ipcst \<Rightarrow> ipcst option" where
  "freeque i s =
     do { q \<leftarrow> get_msgq i s;
          if q = NULL then Some s
          else do { let s1 = s\<lparr>entries := (entries s)[nat (i smod SEQ_MULTIPLIER) := NULL]\<rparr>;
                    let s2 = expunge_all q (ss_wakeup_receivers q s1);
                    s3 \<leftarrow> free_msgs (q_message (queues s2 q)) (upd_queue q (\<lambda>x. x\<lparr>q_message := []\<rparr>) s2);
                    Some (s3\<lparr>in_use := in_use s3 - 1, imem := kfree q (imem s3)\<rparr>) } }"

definition sys_msgctl :: "int \<Rightarrow> int \<Rightarrow> ipcst \<Rightarrow> (int \<times> ipcst) option" where
  "sys_msgctl msgid cmd s = (if cmd = IPC_RMID then do { s1 \<leftarrow> freeque msgid s; Some (0, s1) } else Some (EINVAL, s))"

end
