(* ===== verification/Ipc_Props.thy ===== *)
theory Ipc_Props
  imports Ipc
begin

text \<open>
  Message queues: identifiers, the way of a message through a queue, and three behaviours of the
  code that lose messages or processes.
\<close>

section \<open>Identifiers\<close>

lemma smod_sdiv_build:
  assumes "0 \<le> i" "i < 16" "0 \<le> n"
  shows "(n * 16 + i) smod 16 = i" "(n * 16 + i) sdiv 16 = (n :: int)"
proof -
  have "0 \<le> n * 16 + i" using assms by simp
  then show "(n * 16 + i) smod 16 = i" "(n * 16 + i) sdiv 16 = n"
    using assms by (simp_all add: signed_modulo_int_def signed_divide_int_def sgn_if)
qed

lemma get_msgq_buildin:
  assumes "i < 16" "entries s ! i = q" "q \<noteq> NULL"
  shows "get_msgq (ipc_buildin (int i) (q_seq (queues s q))) s = Some q"
  using assms smod_sdiv_build [of "int i" "uint (q_seq (queues s q))"]
  by (simp add: get_msgq_def ipc_buildin_def SEQ_MULTIPLIER_def)

lemma find_upt_Some: "find P [0..<n] = Some i \<Longrightarrow> i < n \<and> P i"
  by (auto simp: find_Some_iff)

lemma find_upt_SomeI: "i < n \<Longrightarrow> P i \<Longrightarrow> (\<And>j. j < i \<Longrightarrow> \<not> P j) \<Longrightarrow> find P [0..<n] = Some i"
  by (auto simp: find_Some_iff)

lemma ipc_addid_spec:
  assumes "ipc_addid q s = (i, s')" "0 \<le> i" "length (entries s) = 16"
  shows "i < 16" "entries s' ! nat i = q" "queues s' = (queues s)(q := (queues s q)\<lparr>q_seq := ids_seq s\<rparr>)"
    "entries s ! nat i = NULL" "entries s' = (entries s)[nat i := q]" "in_use s' = in_use s + 1"
  using assms by (auto simp: ipc_addid_def upd_queue_def split: option.splits dest: find_upt_Some)

text \<open>
  a queue that \<open>msgget\<close> created can be used.  When \<open>sys_msgget\<close> with a new key and \<open>IPC_CREATE\<close>
  returns a non-negative identifier, the identifier denotes a queue that is empty, has the key and
  is none of the queues in the table; asking for the key again returns the same identifier, and
  \<open>EEXIST\<close> with \<open>IPC_EXCL\<close>.
\<close>

theorem msgget_create:
  assumes "kernel_end kend" "mem_run kend own live (imem s)" "set (entries s) \<subseteq> insert NULL live"
    and "length (entries s) = 16" "key \<noteq> IPC_PRIVATE" "ipc_findkey key s = - 1"
    and "sys_msgget key IPC_CREATE s = Some (r, s')" "0 \<le> r"
  shows "\<exists>q. get_msgq r s' = Some q \<and> q \<notin> set (entries s) \<and> q_key (queues s' q) = key \<and> q_message (queues s' q) = []
     \<and> sum_msg (queues s' q) = 0 \<and> sys_msgget key 0 s' = Some (r, s') \<and> sys_msgget key IPC_EXCL s' = Some (EEXIST, s')"
proof -
  have "newque key s = Some (r, s')" using assms(5-7) by (simp add: sys_msgget_def Let_def IPC_CREATE_def)
  then obtain q m i s2 where q: "kalloc 64 (imem s) = Some (q, m)" "q \<noteq> NULL" "ipc_addid q (s\<lparr>imem := m\<rparr>) = (i, s2)" "0 \<le> i"
    "s' = upd_queue q (\<lambda>q. q\<lparr>q_key := key, max_msg := MAX_MSGNUM, sum_msg := 0, q_message := [], q_receiver := [], q_sender := []\<rparr>) s2"
    "r = ipc_buildin i (q_seq (queues s' q))"
    using assms(8) by (auto simp: newque_def Let_def Option_bind_Some_iff ipc_consts split: if_splits prod.splits)
  have "q \<notin> live"
    using mem_run_inv [OF assms(2,1)] kalloc_inv [OF _ q(1)] by blast
  then have nq: "q \<notin> set (entries s)" using assms(3) q(2) by auto
  note a = ipc_addid_spec [OF q(3,4)]
  have e: "entries s' ! nat i = q" "i < 16" "entries s' = (entries s)[nat i := q]"
    using a q(5) assms(4) by (simp_all add: upd_queue_def)
  have qq: "q_key (queues s' q) = key" "q_message (queues s' q) = []" "sum_msg (queues s' q) = 0"
    "\<And>p. p \<noteq> q \<Longrightarrow> queues s' p = queues s p"
    using q(5) a(3) assms(4) by (auto simp: upd_queue_def)
  have g: "get_msgq r s' = Some q" using get_msgq_buildin [of "nat i" s' q] e q(2,4,6) by simp
  have old: "\<not> (entries s ! j \<noteq> NULL \<and> q_key (queues s (entries s ! j)) = key)" if "j < 16" for j
    using assms(6) that by (auto simp: ipc_findkey_def find_None_iff split: option.splits)
  have "\<not> (entries s' ! j \<noteq> NULL \<and> q_key (queues s' (entries s' ! j)) = key)" if "j < nat i" for j
  proof -
    have "entries s' ! j = entries s ! j" "j < 16" using that e by auto
    moreover have "entries s ! j \<noteq> q" using nq \<open>j < 16\<close> assms(4) by (metis nth_mem)
    ultimately show ?thesis using old [of j] qq(4) by simp
  qed
  then have "find (\<lambda>j. entries s' ! j \<noteq> NULL \<and> q_key (queues s' (entries s' ! j)) = key) [0..<16] = Some (nat i)"
    using e(1,2) q(2,4) qq(1) by (intro find_upt_SomeI) auto
  then have f: "ipc_findkey key s' = i" using q(4) by (simp add: ipc_findkey_def)
  have "sys_msgget key 0 s' = Some (r, s')" "sys_msgget key IPC_EXCL s' = Some (EEXIST, s')"
    using f q(4,6) e(1) assms(5) by (simp_all add: sys_msgget_def IPC_EXCL_def)
  then show ?thesis using g nq qq(1-3) by blast
qed

lemma kalloc_nonNULL:
  assumes "kernel_end kend" "mem_run kend own live m" "kalloc sz m = Some (a, m')" shows "a \<noteq> NULL"
proof -
  from mem_run_inv [OF assms(2,1)] obtain fl ps cls where "mem_inv (PAGE_COUNT kend) fl ps cls own live m" by blast
  from kalloc_inv [OF this assms(3)] obtain k fl' ps' cls' where
    "mem_inv (PAGE_COUNT kend) fl' ps' cls' own (insert a live) m'" "cls' (page_no a) = Some k" by blast
  then show ?thesis using mem_invD(13) slot_nonNULL by blast
qed

text \<open>An example: no queue exists, one page of memory is free.\<close>

definition example_ipc :: ipcst where
  "example_ipc = init_ipc \<lparr>entries = [], in_use = 0, ids_seq = 0,
     queues = (\<lambda>_. \<lparr>q_key = 0, q_seq = 0, max_msg = 256, sum_msg = 0, q_message = [], q_sender = [], q_receiver = []\<rparr>),
     msgs = (\<lambda>_. \<lparr>m_mtype = 0, m_size = 0, m_data = (\<lambda>_. 0), m_segs = []\<rparr>),
     rcvs = (\<lambda>_. \<lparr>r_mtype = 0, r_size = 0, r_msg = NULL\<rparr>),
     imem = mem_boot example_kend (\<lambda>_. 0), isched = sched_init (\<lambda>i. of_nat (i + 1)) (\<lambda>i. of_nat (i + 11))\<rparr>"

lemma example_ipc_simps:
  "entries example_ipc = replicate 16 NULL" "imem example_ipc = mem_boot example_kend (\<lambda>_. 0)"
  "max_msg (queues example_ipc q) = 256" "sum_msg (queues example_ipc q) = 0" "q_message (queues example_ipc q) = []"
  "q_receiver (queues example_ipc q) = []" "q_seq (queues example_ipc q) = 0" "ids_seq example_ipc = 0"
  by (simp_all add: example_ipc_def init_ipc_def)

theorem msgget_create_witness:
  "\<exists>r s' q. sys_msgget 7 IPC_CREATE example_ipc = Some (r, s') \<and> get_msgq r s' = Some q \<and> q_key (queues s' q) = 7"
proof -
  have pg: "pages (imem example_ipc) \<noteq> NULL" using example_boot_pages by (simp add: example_ipc_simps)
  have run: "mem_run example_kend {} {} (imem example_ipc)" using boot by (simp add: example_ipc_simps)
  from kalloc_correct [OF example_kernel_end run _ pg, of 64] obtain q m where k: "kalloc 64 (imem example_ipc) = Some (q, m)" by auto
  note nz = kalloc_nonNULL [OF example_kernel_end run k]
  have "find (\<lambda>i. entries example_ipc ! i \<noteq> NULL \<and> q_key (queues example_ipc (entries example_ipc ! i)) = 7) [0..<16] = None"
    by (simp add: example_ipc_simps find_None_iff)
  then have none: "ipc_findkey 7 example_ipc = - 1" by (simp add: ipc_findkey_def)
  have "find (\<lambda>i. entries (example_ipc\<lparr>imem := m\<rparr>) ! i = NULL) [0..<16] = Some 0" by (rule find_upt_SomeI) (simp_all add: example_ipc_simps)
  then obtain r s' where r: "newque 7 example_ipc = Some (r, s')" "0 \<le> r"
    using k nz by (simp add: newque_def ipc_addid_def upd_queue_def ipc_buildin_def SEQ_MULTIPLIER_def Let_def)
  then have "sys_msgget 7 IPC_CREATE example_ipc = Some (r, s')" using none by (simp add: sys_msgget_def IPC_PRIVATE_def IPC_CREATE_def)
  from this msgget_create [OF example_kernel_end run _ _ _ none this r(2)] show ?thesis
    by (auto simp: example_ipc_simps IPC_PRIVATE_def)
qed

section \<open>The way of a message\<close>

lemma kalloc_page_idx: "kalloc_page m = Some (p, m') \<Longrightarrow> p \<noteq> NULL \<and> page_idx p < N_PAGE_REFS"
  by (auto simp: kalloc_page_def fetch_from_queue_def split: if_splits)

lemma kfree_page_total: "page_idx p < N_PAGE_REFS \<Longrightarrow> \<exists>m'. kfree_page p m = Some m'"
  by (simp add: kfree_page_def Let_def)

lemma load_msg_small:
  assumes "0 \<le> n" "n \<le> MSG_MSGSZ" "kalloc_page (imem s) = Some (p, m)"
  shows "load_msg src n s = Some (p, s\<lparr>imem := m, msgs := (msgs s)(p := (msgs s p)\<lparr>m_data := blit (\<lambda>_. 0) 0 src 0 n, m_segs := []\<rparr>)\<rparr>)"
  using assms by (simp add: load_msg_def load_segs.simps)

lemma store_msg_small:
  assumes "n \<le> MSG_MSGSZ" shows "store_msg dst msg n = Some (m_mtype msg, blit dst 0 (m_data msg) 0 n)"
  using assms by (simp add: store_msg_def store_segs.simps)

lemma search_msg_append:
  assumes "\<forall>x\<in>set xs. \<not> testmsg mtype (m_mtype (ms x))" "testmsg mtype (m_mtype (ms p))" "- 1 \<le> mtype"
  shows "search_msg ms mtype NULL (xs @ p # ys) = (p, mtype)"
  using assms by (induction xs) auto

lemma get_msgq_cong:
  "entries s' = entries s \<Longrightarrow> (\<And>q. q_seq (queues s' q) = q_seq (queues s q)) \<Longrightarrow> get_msgq i s' = get_msgq i s"
  unfolding get_msgq_def Let_def by presburger

lemma wake_all_frame:
  "entries (wake_all ps s) = entries s" "queues (wake_all ps s) = queues s" "msgs (wake_all ps s) = msgs s" "imem (wake_all ps s) = imem s"
  by (induction ps s rule: wake_all.induct) (simp_all add: wake_def)

lemma msg_update_all:
  "(x :: msg_msg)\<lparr>m_data := d, m_segs := g, m_mtype := t, m_size := n\<rparr> = \<lparr>m_mtype = t, m_size = n, m_data = d, m_segs = g\<rparr>"
  by (cases x) simp

text \<open>
  C35: what is sent is received.  A message of at most 4064 bytes goes into a queue that has room and
  no waiting receiver; \<open>msgsnd\<close> succeeds.  A \<open>msgrcv\<close> for its type, of which no older message waits,
  with room in the buffer, then takes exactly this message and returns its size, its type and its
  bytes, leaves the rest of the buffer alone, and the queue is as it was before.
\<close>

theorem message_roundtrip:
  assumes "get_msgq msgid s = Some q" "q \<noteq> NULL" "q_receiver (queues s q) = []" "sum_msg (queues s q) < max_msg (queues s q)"
    and "kalloc_page (imem s) = Some (p, m)" "\<forall>x\<in>set (q_message (queues s q)). x \<noteq> p \<and> m_mtype (msgs s x) \<noteq> mtype"
    and "0 \<le> n" "n \<le> MSG_MSGSZ" "1 \<le> mtype" "n \<le> bufsz"
  shows "\<exists>s1 s2 s3. sys_msgsnd c now msgid False mtype src n flg s = Some (Some 0, s1)
     \<and> msgrcv_begin c' now' junk msgid False bufsz mtype flg' s1 = Some (Some (Inr p), s2)
     \<and> msgrcv_take p bufsz dst s2 = Some (n, mtype, (\<lambda>i. if int i < n then src i else dst i), s3)
     \<and> q_message (queues s3 q) = q_message (queues s q) \<and> sum_msg (queues s3 q) = sum_msg (queues s q)"
proof -
  note p = kalloc_page_idx [OF assms(5)]
  let ?msg = "\<lparr>m_mtype = mtype, m_size = n, m_data = blit (\<lambda>_. 0) 0 src 0 n, m_segs = []\<rparr>"
  let ?s2 = "s\<lparr>imem := m, msgs := (msgs s)(p := ?msg)\<rparr>"
  let ?s1 = "upd_queue q (\<lambda>x. x\<lparr>q_message := q_message x @ [p], sum_msg := sum_msg x + 1\<rparr>) ?s2"
  have g: "get_msgq msgid ?s2 = Some q" "get_msgq msgid ?s1 = Some q"
    using assms(1) get_msgq_cong [of ?s2 s msgid] get_msgq_cong [of ?s1 s msgid] by (simp_all add: upd_queue_def)
  have qs: "queues ?s1 q = (queues s q)\<lparr>q_message := q_message (queues s q) @ [p], sum_msg := sum_msg (queues s q) + 1\<rparr>"
    "msgs ?s1 = (msgs s)(p := ?msg)" by (simp_all add: upd_queue_def)
  have "msgsnd_try c now msgid p flg ?s2 = Some (Some 0, ?s1)"
    using g(1) assms(2-4) by (simp add: msgsnd_try_def pipeline_send_def)
  then have snd: "sys_msgsnd c now msgid False mtype src n flg s = Some (Some 0, ?s1)"
    using load_msg_small [OF assms(7,8,5)] assms(7,9) by (simp add: sys_msgsnd_def msg_update_all)
  let ?t = "ss_wakeup_senders q (upd_queue q (\<lambda>x. x\<lparr>q_message := remove1 p (q_message x), sum_msg := sum_msg x - 1\<rparr>) ?s1)"
  have "search_msg (msgs ?s1) mtype NULL (q_message (queues ?s1 q)) = (p, mtype)"
  proof -
    have "\<forall>x\<in>set (q_message (queues s q)). \<not> testmsg mtype (m_mtype (((msgs s)(p := ?msg)) x))"
      using assms(6,9) by (auto simp: testmsg_def)
    moreover have "testmsg mtype (m_mtype (((msgs s)(p := ?msg)) p))" by (simp add: testmsg_def)
    ultimately show ?thesis unfolding qs
      using search_msg_append [of "q_message (queues s q)" mtype "(msgs s)(p := ?msg)" p "[]"] assms(9) by simp
  qed
  then have rcv: "msgrcv_begin c' now' junk msgid False bufsz mtype flg' ?s1 = Some (Some (Inr p), ?t)"
    using g(2) assms(2,7,10) p qs(2) by (simp add: msgrcv_begin_def)
  have pn: "p \<notin> set (q_message (queues s q))" using assms(6) by auto
  have t: "msgs ?t = (msgs s)(p := ?msg)" "q_message (queues ?t q) = q_message (queues s q)" "sum_msg (queues ?t q) = sum_msg (queues s q)"
    using pn by (simp_all add: ss_wakeup_senders_def wake_all_frame upd_queue_def remove1_append)
  from kfree_page_total p obtain m2 where "kfree_page p (imem ?t) = Some m2" by blast
  then have "msgrcv_take p bufsz dst ?t = Some (n, mtype, blit dst 0 (blit (\<lambda>_. 0) 0 src 0 n) 0 n, ?t\<lparr>imem := m2\<rparr>)"
    using t(1) assms(8,10) by (simp add: msgrcv_take_def free_msg_def store_msg_small min_absorb2)
  moreover have "blit dst 0 (blit (\<lambda>_. 0) 0 src 0 n) 0 n = (\<lambda>i. if int i < n then src i else dst i)"
    by (auto simp: blit_def fun_eq_iff)
  ultimately show ?thesis using snd rcv t(2,3) by (intro exI [of _ ?s1] exI [of _ ?t] exI [of _ "?t\<lparr>imem := m2\<rparr>"]) simp
qed

lemma example_kalloc_page: "\<exists>m. kalloc_page (mem_boot example_kend m0) = Some (0xffff00003efff000, m)"
proof -
  have "page_idx 0xffff00003efff000 < N_PAGE_REFS"
    by (simp add: page_idx_def N_PAGE_REFS_def K2P_def KSPACE_MASK_def PAGE_BASE_def PHYSTOP_def PAGE_SIZE_def)
  then show ?thesis by (simp add: kalloc_page_def fetch_from_queue_def example_boot_pages)
qed

text \<open>The example with one queue, whose identifier is 0.\<close>

definition example_ipc_queue :: ipcst where
  "example_ipc_queue = example_ipc\<lparr>entries := 5 # replicate 15 NULL\<rparr>"

lemma example_ipc_queue_simps:
  "get_msgq 0 example_ipc_queue = Some 5" "imem example_ipc_queue = mem_boot example_kend (\<lambda>_. 0)"
  "max_msg (queues example_ipc_queue 5) = 256" "sum_msg (queues example_ipc_queue 5) = 0"
  "q_message (queues example_ipc_queue 5) = []" "q_receiver (queues example_ipc_queue 5) = []"
  by (simp_all add: example_ipc_queue_def example_ipc_simps get_msgq_def SEQ_MULTIPLIER_def signed_modulo_int_def signed_divide_int_def)

theorem message_roundtrip_witness:
  "\<exists>s1 s2 s3 p. sys_msgsnd 0 0 0 False 1 (\<lambda>_. 7) 3 0 example_ipc_queue = Some (Some 0, s1)
     \<and> msgrcv_begin 0 0 NULL 0 False 10 1 0 s1 = Some (Some (Inr p), s2)
     \<and> msgrcv_take p 10 (\<lambda>_. 0) s2 = Some (3, 1, (\<lambda>i. if int i < 3 then 7 else 0), s3)"
proof -
  from example_kalloc_page obtain m where m: "kalloc_page (imem example_ipc_queue) = Some (0xffff00003efff000, m)"
    unfolding example_ipc_queue_simps by blast
  show ?thesis
    using message_roundtrip [OF example_ipc_queue_simps(1) _ example_ipc_queue_simps(6) _ m, of 1 3 10 0 0 "\<lambda>_. 7" 0 0 0 NULL 0 "\<lambda>_. 0"]
    by (auto simp: example_ipc_queue_simps msg_sizes)
qed

lemma blit_nat: "blit d a sr b (int n) i = (if a \<le> i \<and> i < a + n then sr (b + (i - a)) else d i)"
proof -
  have "i - a < n \<longleftrightarrow> i < a + n" if "a \<le> i" using that by arith
  then show ?thesis unfolding blit_def of_nat_less_iff by presburger
qed

lemma blit_shifted:
  assumes "k < M"
  shows "blit (blit dst 0 (blit z 0 src 0 (int M)) 0 (int M)) k (blit z 0 src k (int k)) 0 (int k)
    = (\<lambda>i. if i < max M (2 * k) then src i else dst i)"
proof
  fix i
  consider "i < k" | "k \<le> i" "i < k + k" "i - k < k" | "k + k \<le> i" "i < M" | "k + k \<le> i" "M \<le> i" by arith
  then show "blit (blit dst 0 (blit z 0 src 0 (int M)) 0 (int M)) k (blit z 0 src k (int k)) 0 (int k) i
    = (if i < max M (2 * k) then src i else dst i)"
    by cases (use assms in \<open>simp_all add: blit_nat less_max_iff_disj\<close>)
qed

text \<open>
  the tail of a longer message is lost.  Both \<open>load_msg\<close> and \<open>store_msg\<close> reduce the length before
  they advance the user pointer by it.  For a message of \<open>n\<close> bytes, \<open>4064 < n < 8128\<close>, exactly the
  first \<open>max 4064 (2 * (n - 4064))\<close> bytes arrive; the buffer behind them is not written, although the
  call reports \<open>n\<close> bytes.
\<close>

theorem long_message_truncated:
  assumes "MSG_MSGSZ < n" "n < 2 * MSG_MSGSZ" "load_msg src n s = Some (p, s1)"
  shows "store_msg dst (msgs s1 p) n
     = Some (m_mtype (msgs s1 p), \<lambda>i. if int i < max MSG_MSGSZ (2 * (n - MSG_MSGSZ)) then src i else dst i)"
proof -
  let ?r = "n - MSG_MSGSZ"
  have r: "0 < ?r" "?r < MSG_MSGSZ" "?r < MSG_MSGSEGSZ" "min MSG_MSGSZ n = MSG_MSGSZ" "min MSG_MSGSZ ?r = ?r" "min MSG_MSGSEGSZ ?r = ?r"
    using assms by (simp_all add: msg_sizes)
  have "load_segs src (nat ?r) ?r m = (do { (p, m1) \<leftarrow> kalloc_page m; Some ([(p, blit (\<lambda>_. 0) 0 src (nat ?r) ?r)], m1) })" for m
    using r by (subst load_segs.simps, subst load_segs.simps) (simp add: Let_def)
  then obtain p2 where s: "m_data (msgs s1 p) = blit (\<lambda>_. 0) 0 src 0 MSG_MSGSZ" "m_segs (msgs s1 p) = [(p2, blit (\<lambda>_. 0) 0 src (nat ?r) ?r)]"
    using assms(3) r by (auto simp: load_msg_def Option_bind_Some_iff Let_def)
  have "store_segs [(p2, blit (\<lambda>_. 0) 0 src (nat ?r) ?r)] (nat ?r) ?r d = Some (blit d (nat ?r) (blit (\<lambda>_. 0) 0 src (nat ?r) ?r) 0 ?r)" for d
    using r by (subst store_segs.simps, subst store_segs.simps) (simp add: min.commute Let_def)
  then have "store_msg dst (msgs s1 p) n = Some (m_mtype (msgs s1 p),
      blit (blit dst 0 (blit (\<lambda>_. 0) 0 src 0 MSG_MSGSZ) 0 MSG_MSGSZ) (nat ?r) (blit (\<lambda>_. 0) 0 src (nat ?r) ?r) 0 ?r)"
  proof -
    assume S: "\<And>d. store_segs [(p2, blit (\<lambda>_. 0) 0 src (nat ?r) ?r)] (nat ?r) ?r d = Some (blit d (nat ?r) (blit (\<lambda>_. 0) 0 src (nat ?r) ?r) 0 ?r)"
    have "min n MSG_MSGSZ = MSG_MSGSZ" using assms(1) by simp
    then show ?thesis unfolding store_msg_def Let_def s by (simp only: r(5) S bind.bind_lunit)
  qed
  moreover have "blit (blit dst 0 (blit (\<lambda>_. 0) 0 src 0 MSG_MSGSZ) 0 MSG_MSGSZ) (nat ?r) (blit (\<lambda>_. 0) 0 src (nat ?r) ?r) 0 ?r
      = (\<lambda>i. if int i < max MSG_MSGSZ (2 * ?r) then src i else dst i)"
  proof -
    obtain k where k: "?r = int k" using r(1) by (metis zero_le_imp_eq_int order.strict_implies_order)
    have M: "MSG_MSGSZ = int 4064" by (simp add: msg_sizes)
    have "int k < 4064" using r(2) unfolding k [symmetric] by (simp add: msg_sizes)
    then have "k < 4064" by simp
    moreover have "i < max 4064 (2 * k) \<longleftrightarrow> int i < max (int 4064) (2 * int k)" for i :: nat
      unfolding less_max_iff_disj by linarith
    ultimately show ?thesis unfolding k nat_int unfolding M using blit_shifted [of k 4064 dst "\<lambda>_. 0" src] by presburger
  qed
  ultimately show ?thesis by simp
qed

theorem long_message_truncated_witness:
  "\<exists>src n s p s1 dst t d. load_msg src n s = Some (p, s1) \<and> store_msg dst (msgs s1 p) n = Some (t, d) \<and> 4064 < n \<and> src 4099 = 7 \<and> d 4099 = 0"
proof -
  let ?A = "0xffff000000100000 :: ptr" and ?B = "0xffff000000200000 :: ptr"
  let ?m = "(mem_boot example_kend (\<lambda>_. 0))\<lparr>pages := ?A, mword := (\<lambda>_. 0)(?A := ?B)\<rparr>"
  let ?s = "example_ipc\<lparr>imem := ?m\<rparr>"
  have i: "page_idx ?A < N_PAGE_REFS" "page_idx ?B < N_PAGE_REFS"
    by (simp_all add: page_idx_def N_PAGE_REFS_def K2P_def KSPACE_MASK_def PAGE_BASE_def PHYSTOP_def PAGE_SIZE_def)
  have k1: "\<exists>m1. kalloc_page ?m = Some (?A, m1) \<and> pages m1 = ?B" using i(1) by (simp add: kalloc_page_def fetch_from_queue_def)
  have k2: "\<exists>m2. kalloc_page m1 = Some (?B, m2)" if "pages m1 = ?B" for m1 using i(2) that by (simp add: kalloc_page_def fetch_from_queue_def)
  have "\<exists>s1. load_msg (\<lambda>_. 7) 4100 ?s = Some (?A, s1)"
    using k1 k2 by (fastforce simp: load_msg_def load_segs.simps [of _ _ 36] load_segs.simps [of _ _ 0] msg_sizes)
  then obtain s1 where l: "load_msg (\<lambda>_. 7) 4100 ?s = Some (?A, s1)" by blast
  note t = long_message_truncated [OF _ _ l, of "\<lambda>_. 0"]
  let ?d = "\<lambda>i. if int i < max MSG_MSGSZ (2 * (4100 - MSG_MSGSZ)) then 7 else 0 :: u8"
  have "?d 4099 = 0" by (simp add: msg_sizes)
  moreover have "store_msg (\<lambda>_. 0) (msgs s1 ?A) 4100 = Some (m_mtype (msgs s1 ?A), ?d)" by (rule t) (simp_all add: msg_sizes)
  ultimately show ?thesis using l
    by (intro exI [of _ "\<lambda>_. 7"] exI [of _ 4100] exI [of _ ?s] exI [of _ ?A] exI [of _ s1] exI [of _ "\<lambda>_. 0"] exI [of _ "m_mtype (msgs s1 ?A)"] exI [of _ ?d]) simp
qed

text \<open>
  \<open>pipeline_send\<close> does not return when the first waiting receiver wants the message but its buffer
  is too small: the node that was detached is its own successor, and the loop stays there, with
  the lock held.
\<close>

theorem pipeline_send_stuck:
  assumes "testmsg (r_mtype (rcvs s r)) (m_mtype (msgs s msg))" "r_size (rcvs s r) < m_size (msgs s msg)"
  shows "pipeline_loop fuel q msg (r # rest) s = None"
  using assms
proof (induction fuel arbitrary: s)
  case 0
  then show ?case by simp
next
  case (Suc fuel)
  then show ?case by (simp add: upd_queue_def wake_def)
qed

theorem pipeline_send_stuck_witness:
  "pipeline_send 5 9 (example_ipc\<lparr>queues := (\<lambda>_. (queues example_ipc 5)\<lparr>q_receiver := [3]\<rparr>),
     rcvs := (\<lambda>_. \<lparr>r_mtype = 0, r_size = 1, r_msg = NULL\<rparr>),
     msgs := (\<lambda>_. \<lparr>m_mtype = 1, m_size = 2, m_data = (\<lambda>_. 0), m_segs = []\<rparr>)\<rparr>) = None"
  unfolding pipeline_send_def
  using pipeline_send_stuck [of "example_ipc\<lparr>queues := (\<lambda>_. (queues example_ipc 5)\<lparr>q_receiver := [3]\<rparr>),
     rcvs := (\<lambda>_. \<lparr>r_mtype = 0, r_size = 1, r_msg = NULL\<rparr>),
     msgs := (\<lambda>_. \<lparr>m_mtype = 1, m_size = 2, m_data = (\<lambda>_. 0), m_segs = []\<rparr>)\<rparr>" 3 9 "Suc 1" 5 "[]"]
  by (simp add: testmsg_def)

section \<open>Removing a queue\<close>

lemma wake_all_pstate: "p \<notin> set ps \<Longrightarrow> pstate (isched (wake_all ps s)) p = pstate (isched s) p"
  by (induction ps s rule: wake_all.induct) (auto simp: wake_def activate_proc_def make_runnable_def)

lemma free_msgs_sched: "free_msgs ps s = Some s' \<Longrightarrow> isched s' = isched s \<and> entries s' = entries s"
proof (induction ps s rule: free_msgs.induct)
  case (2 p ps s)
  then show ?case by (auto simp: free_msg_def Option_bind_Some_iff)
qed simp

text \<open>
  removing a queue strands its senders.  \<open>freeque\<close> wakes the receivers twice and never the senders:
  a process that sleeps until the queue has room is in the same state after the queue was removed,
  and the queue is gone from the table.
\<close>

theorem freeque_strands_senders:
  assumes "freeque i s = Some s'" "get_msgq i s = Some q" "q \<noteq> NULL" "length (entries s) = 16"
    and "p \<in> set (q_sender (queues s q))" "pstate (isched s) p = SLEEPING" "p \<notin> set (q_receiver (queues s q))"
  shows "pstate (isched s') p = SLEEPING \<and> get_msgq i s' = Some NULL"
proof -
  let ?k = "nat (i smod SEQ_MULTIPLIER)"
  let ?s1 = "s\<lparr>entries := (entries s)[?k := NULL]\<rparr>"
  let ?s2 = "expunge_all q (ss_wakeup_receivers q ?s1)"
  have e: "?s2 = upd_queue q (\<lambda>x. x\<lparr>q_receiver := []\<rparr>) (ss_wakeup_receivers q ?s1)"
    by (simp add: expunge_all_def ss_wakeup_receivers_def wake_all_frame upd_queue_def)
  from assms(1-3) obtain s3 where
    s3: "free_msgs (q_message (queues ?s2 q)) (upd_queue q (\<lambda>x. x\<lparr>q_message := []\<rparr>) ?s2) = Some s3" "isched s' = isched s3" "entries s' = entries s3"
    by (auto simp: freeque_def Option_bind_Some_iff Let_def)
  note f = free_msgs_sched [OF s3(1)]
  have "pstate (isched s3) p = pstate (isched s) p"
    using f assms(7) unfolding e by (simp add: ss_wakeup_receivers_def upd_queue_def wake_all_pstate)
  moreover have "entries s' = (entries s)[?k := NULL]"
    using f s3(3) unfolding e by (simp add: ss_wakeup_receivers_def upd_queue_def wake_all_frame)
  moreover have "0 \<le> i smod SEQ_MULTIPLIER" "i smod SEQ_MULTIPLIER < 16" using assms(2,3) by (auto simp: get_msgq_def Let_def split: if_splits)
  ultimately show ?thesis using assms(4,6) s3(2) by (simp add: get_msgq_def nat_less_iff)
qed

theorem freeque_strands_senders_witness:
  "\<exists>s s'. freeque 0 s = Some s' \<and> 3 \<in> set (q_sender (queues s 5)) \<and> pstate (isched s') 3 = SLEEPING \<and> get_msgq 0 s' = Some NULL"
proof -
  let ?s = "example_ipc_queue\<lparr>queues := (\<lambda>_. (queues example_ipc 5)\<lparr>q_sender := [3]\<rparr>), isched := (isched example_ipc)\<lparr>pstate := (\<lambda>_. SLEEPING)\<rparr>\<rparr>"
  have g: "get_msgq 0 ?s = Some 5" and l: "length (entries ?s) = 16"
    by (simp_all add: example_ipc_queue_def example_ipc_simps get_msgq_def SEQ_MULTIPLIER_def signed_modulo_int_def signed_divide_int_def)
  obtain s' where f: "freeque 0 ?s = Some s'" unfolding freeque_def g
    by (simp add: expunge_all_def ss_wakeup_receivers_def upd_queue_def example_ipc_simps)
  from freeque_strands_senders [OF f g _ l, of 3] f show ?thesis by (intro exI [of _ ?s] exI [of _ s']) (simp add: example_ipc_simps)
qed

end
