(* ===== verification/Rbtree.thy ===== *)
theory Rbtree
  imports Prelude
begin

text \<open>
  The intrusive red-black tree (\<open>common/rbtree.c\<close>, \<open>common/rbtree.h\<close>) on an explicit heap of nodes.
  \<open>rb_pc\<close> is the word \<open>__rb_parent_color\<close>: the address of the parent, a multiple of 8, with the
  colour in bit 0.  The code treats left and right in two copies of each case; here a case is one
  definition with the side as an argument.  The use of a NULL pointer is \<^const>\<open>None\<close>.  The loops
  run on fuel, and running out of it is \<^const>\<open>None\<close>; the number of nodes is enough for each.
\<close>

section \<open>Nodes\<close>

record rb_node =
  rb_pc :: u64
  rb_right :: ptr
  rb_left :: ptr

record rbst =
  rbheap :: "ptr \<Rightarrow> rb_node"
  rb_root :: ptr

datatype side = Lft | Rgt

primrec flip :: "side \<Rightarrow> side" where
  "flip Lft = Rgt"
| "flip Rgt = Lft"

definition RB_RED :: u64 where "RB_RED = 0"
definition RB_BLACK :: u64 where "RB_BLACK = 1"

definition rb_get :: "ptr \<Rightarrow> rbst \<Rightarrow> rb_node option" where
  "rb_get p st = (if p = NULL then None else Some (rbheap st p))"

definition rb_upd :: "ptr \<Rightarrow> (rb_node \<Rightarrow> rb_node) \<Rightarrow> rbst \<Rightarrow> rbst option" where
  "rb_upd p f st = (if p = NULL then None else Some (st\<lparr>rbheap := (rbheap st)(p := f (rbheap st p))\<rparr>))"

primrec rb_child :: "side \<Rightarrow> rb_node \<Rightarrow> ptr" where
  "rb_child Lft n = rb_left n"
| "rb_child Rgt n = rb_right n"

primrec rb_child_update :: "side \<Rightarrow> ptr \<Rightarrow> rb_node \<Rightarrow> rb_node" where
  "rb_child_update Lft p n = n\<lparr>rb_left := p\<rparr>"
| "rb_child_update Rgt p n = n\<lparr>rb_right := p\<rparr>"

definition get_child :: "side \<Rightarrow> ptr \<Rightarrow> rbst \<Rightarrow> ptr option" where
  "get_child d p st = do { n \<leftarrow> rb_get p st; Some (rb_child d n) }"

definition set_child :: "side \<Rightarrow> ptr \<Rightarrow> ptr \<Rightarrow> rbst \<Rightarrow> rbst option" where
  "set_child d p c st = rb_upd p (rb_child_update d c) st"

definition pc_parent :: "u64 \<Rightarrow> ptr" where "pc_parent pc = pc AND NOT 3"
definition pc_color :: "u64 \<Rightarrow> u64" where "pc_color pc = pc AND 1"

definition rb_parent :: "ptr \<Rightarrow> rbst \<Rightarrow> ptr option" where
  "rb_parent p st = do { n \<leftarrow> rb_get p st; Some (pc_parent (rb_pc n)) }"

definition rb_is_red :: "ptr \<Rightarrow> rbst \<Rightarrow> bool option" where
  "rb_is_red p st = do { n \<leftarrow> rb_get p st; Some (pc_color (rb_pc n) = 0) }"

definition rb_is_black :: "ptr \<Rightarrow> rbst \<Rightarrow> bool option" where
  "rb_is_black p st = do { n \<leftarrow> rb_get p st; Some (pc_color (rb_pc n) \<noteq> 0) }"

definition rb_set_black :: "ptr \<Rightarrow> rbst \<Rightarrow> rbst option" where
  "rb_set_black p st = rb_upd p (\<lambda>n. n\<lparr>rb_pc := rb_pc n OR RB_BLACK\<rparr>) st"

definition rb_red_parent :: "ptr \<Rightarrow> rbst \<Rightarrow> ptr option" where
  "rb_red_parent p st = do { n \<leftarrow> rb_get p st; Some (rb_pc n) }"

definition rb_set_parent :: "ptr \<Rightarrow> ptr \<Rightarrow> rbst \<Rightarrow> rbst option" where
  "rb_set_parent p q st = rb_upd p (\<lambda>n. n\<lparr>rb_pc := pc_color (rb_pc n) OR q\<rparr>) st"

definition rb_set_parent_color :: "ptr \<Rightarrow> ptr \<Rightarrow> u64 \<Rightarrow> rbst \<Rightarrow> rbst option" where
  "rb_set_parent_color p q color st = rb_upd p (\<lambda>n. n\<lparr>rb_pc := q OR color\<rparr>) st"

text \<open>\<open>if (tmp) ...\<close>.\<close>

definition when_node :: "ptr \<Rightarrow> (rbst \<Rightarrow> rbst option) \<Rightarrow> rbst \<Rightarrow> rbst option" where
  "when_node p f st = (if p \<noteq> NULL then f st else Some st)"

definition rb_change_child :: "ptr \<Rightarrow> ptr \<Rightarrow> ptr \<Rightarrow> rbst \<Rightarrow> rbst option" where
  "rb_change_child old new parent st =
     (if parent \<noteq> NULL
      then do { l \<leftarrow> get_child Lft parent st;
                if l = old then set_child Lft parent new st else set_child Rgt parent new st }
      else Some (st\<lparr>rb_root := new\<rparr>))"

definition rb_rotate_set_parents :: "ptr \<Rightarrow> ptr \<Rightarrow> u64 \<Rightarrow> rbst \<Rightarrow> rbst option" where
  "rb_rotate_set_parents old new color st =
     do { parent \<leftarrow> rb_parent old st;
          o' \<leftarrow> rb_get old st;
          st1 \<leftarrow> rb_upd new (\<lambda>n. n\<lparr>rb_pc := rb_pc o'\<rparr>) st;
          st2 \<leftarrow> rb_set_parent_color old new color st1;
          rb_change_child old new parent st2 }"

section \<open>Insertion\<close>

text \<open>
  The cases of \<open>__rb_insert_fix\<close> with a black uncle: \<open>parent\<close> is the child of \<open>gparent\<close> on side \<open>d\<close>.
\<close>

definition insert_rotate :: "side \<Rightarrow> ptr \<Rightarrow> ptr \<Rightarrow> ptr \<Rightarrow> rbst \<Rightarrow> rbst option" where
  "insert_rotate d node parent gparent st =
     do { tmp \<leftarrow> get_child (flip d) parent st;
          (parent, tmp, st) \<leftarrow>
            (if node = tmp
             then do { tmp \<leftarrow> get_child d node st;
                       st \<leftarrow> set_child (flip d) parent tmp st;
                       st \<leftarrow> when_node tmp (rb_set_parent_color tmp parent RB_BLACK) st;
                       st \<leftarrow> set_child d node parent st;
                       st \<leftarrow> rb_set_parent_color parent node RB_RED st;
                       tmp \<leftarrow> get_child (flip d) node st;
                       Some (node, tmp, st) }
             else Some (parent, tmp, st));
          st \<leftarrow> set_child d gparent tmp st;
          st \<leftarrow> when_node tmp (rb_set_parent_color tmp gparent RB_BLACK) st;
          st \<leftarrow> set_child (flip d) parent gparent st;
          rb_rotate_set_parents gparent parent RB_RED st }"

fun insert_fix_loop :: "nat \<Rightarrow> ptr \<Rightarrow> ptr \<Rightarrow> rbst \<Rightarrow> rbst option" where
  "insert_fix_loop 0 node parent st = None"
| "insert_fix_loop (Suc fuel) node parent st =
     (if parent = NULL
      then do { st1 \<leftarrow> rb_set_parent_color node NULL RB_BLACK st; Some (st1\<lparr>rb_root := node\<rparr>) }
      else do { black \<leftarrow> rb_is_black parent st;
                if black then Some st
                else do { gparent \<leftarrow> rb_red_parent parent st;
                          tmp \<leftarrow> get_child Rgt gparent st;
                          let d = (if parent \<noteq> tmp then Lft else Rgt);
                          uncle \<leftarrow> get_child (flip d) gparent st;
                          red \<leftarrow> (if uncle \<noteq> NULL then rb_is_red uncle st else Some False);
                          if red
                          then do { st1 \<leftarrow> rb_set_parent_color uncle gparent RB_BLACK st;
                                    st2 \<leftarrow> rb_set_parent_color parent gparent RB_BLACK st1;
                                    up \<leftarrow> rb_parent gparent st2;
                                    st3 \<leftarrow> rb_set_parent_color gparent up RB_RED st2;
                                    insert_fix_loop fuel gparent up st3 }
                          else insert_rotate d node parent gparent st } })"

definition rb_insert_fix :: "nat \<Rightarrow> ptr \<Rightarrow> rbst \<Rightarrow> rbst option" where
  "rb_insert_fix fuel node st = do { parent \<leftarrow> rb_red_parent node st; insert_fix_loop fuel node parent st }"

text \<open>The descent of \<open>_rb_insert\<close>: \<open>False\<close> when an equal node is found.\<close>

fun insert_descend :: "nat \<Rightarrow> ptr \<Rightarrow> (ptr \<Rightarrow> ptr \<Rightarrow> bool) \<Rightarrow> ptr \<Rightarrow> rbst \<Rightarrow> (bool \<times> rbst) option" where
  "insert_descend 0 node cmp nw st = None"
| "insert_descend (Suc fuel) node cmp nw st =
     (if nw = NULL then Some (True, st)
      else if cmp node nw \<or> cmp nw node
      then do { let d = (if cmp node nw then Lft else Rgt);
                nxt \<leftarrow> get_child d nw st;
                if nxt = NULL
                then do { st1 \<leftarrow> set_child d nw node st;
                          st2 \<leftarrow> rb_upd node (\<lambda>n. n\<lparr>rb_pc := nw\<rparr>) st1;
                          insert_descend fuel node cmp nxt st2 }
                else insert_descend fuel node cmp nxt st }
      else Some (False, st))"

definition rb_insert :: "nat \<Rightarrow> ptr \<Rightarrow> (ptr \<Rightarrow> ptr \<Rightarrow> bool) \<Rightarrow> rbst \<Rightarrow> (int \<times> rbst) option" where
  "rb_insert fuel node cmp st =
     do { st1 \<leftarrow> rb_upd node (\<lambda>n. \<lparr>rb_pc = 0, rb_right = NULL, rb_left = NULL\<rparr>) st;
          (ok, st2) \<leftarrow> insert_descend fuel node cmp (rb_root st) st1;
          if ok then do { st3 \<leftarrow> rb_insert_fix fuel node st2; Some (0, st3) } else Some (- 1, st2) }"

section \<open>Erasure\<close>

text \<open>The walk to the successor: \<open>(parent, successor)\<close> when \<open>tmp\<close> is NULL.\<close>

fun successor_loop :: "nat \<Rightarrow> ptr \<Rightarrow> ptr \<Rightarrow> rbst \<Rightarrow> (ptr \<times> ptr) option" where
  "successor_loop 0 successor tmp st = None"
| "successor_loop (Suc fuel) successor tmp st =
     do { tmp' \<leftarrow> get_child Lft tmp st;
          if tmp' = NULL then Some (successor, tmp) else successor_loop fuel tmp tmp' st }"

definition erase_two_children :: "nat \<Rightarrow> ptr \<Rightarrow> ptr \<Rightarrow> rbst \<Rightarrow> (ptr \<times> rbst) option" where
  "erase_two_children fuel node child st =
     do { tmp \<leftarrow> get_child Lft child st;
          (parent, successor, child2, st) \<leftarrow>
            (if tmp = NULL
             then do { child2 \<leftarrow> get_child Rgt child st; Some (child, child, child2, st) }
             else do { (parent, successor) \<leftarrow> successor_loop fuel child tmp st;
                       child2 \<leftarrow> get_child Rgt successor st;
                       st \<leftarrow> set_child Lft parent child2 st;
                       st \<leftarrow> set_child Rgt successor child st;
                       st \<leftarrow> rb_set_parent child successor st;
                       Some (parent, successor, child2, st) });
          tmp \<leftarrow> get_child Lft node st;
          st \<leftarrow> set_child Lft successor tmp st;
          st \<leftarrow> rb_set_parent tmp successor st;
          n \<leftarrow> rb_get node st;
          st \<leftarrow> rb_change_child node successor (pc_parent (rb_pc n)) st;
          if child2 \<noteq> NULL
          then do { st \<leftarrow> rb_upd successor (\<lambda>x. x\<lparr>rb_pc := rb_pc n\<rparr>) st;
                    st \<leftarrow> rb_set_parent_color child2 parent RB_BLACK st;
                    Some (NULL, st) }
          else do { sn \<leftarrow> rb_get successor st;
                    st \<leftarrow> rb_upd successor (\<lambda>x. x\<lparr>rb_pc := rb_pc n\<rparr>) st;
                    Some (if pc_color (rb_pc sn) \<noteq> 0 then parent else NULL, st) } }"

definition rb_erase_node :: "nat \<Rightarrow> ptr \<Rightarrow> rbst \<Rightarrow> (ptr \<times> rbst) option" where
  "rb_erase_node fuel node st =
     do { child \<leftarrow> get_child Rgt node st;
          tmp \<leftarrow> get_child Lft node st;
          n \<leftarrow> rb_get node st;
          let parent = pc_parent (rb_pc n);
          if tmp = NULL
          then do { st \<leftarrow> rb_change_child node child parent st;
                    if child \<noteq> NULL
                    then do { st \<leftarrow> rb_upd child (\<lambda>x. x\<lparr>rb_pc := rb_pc n\<rparr>) st; Some (NULL, st) }
                    else Some (if pc_color (rb_pc n) \<noteq> 0 then parent else NULL, st) }
          else if child = NULL
          then do { st \<leftarrow> rb_upd tmp (\<lambda>x. x\<lparr>rb_pc := rb_pc n\<rparr>) st;
                    st \<leftarrow> rb_change_child node tmp parent st;
                    Some (NULL, st) }
          else erase_two_children fuel node child st }"

definition black_or_null :: "ptr \<Rightarrow> rbst \<Rightarrow> bool option" where
  "black_or_null p st = (if p = NULL then Some True else rb_is_black p st)"

text \<open>The final rotation of \<open>__rb_erase_fix\<close>; the node that lacks a black one is on side \<open>d\<close> of \<open>parent\<close>.\<close>

definition erase_rotate :: "side \<Rightarrow> ptr \<Rightarrow> ptr \<Rightarrow> ptr \<Rightarrow> rbst \<Rightarrow> rbst option" where
  "erase_rotate d parent sibling tmp1 st =
     do { tmp2 \<leftarrow> get_child d sibling st;
          st \<leftarrow> set_child (flip d) parent tmp2 st;
          st \<leftarrow> when_node tmp2 (rb_set_parent tmp2 parent) st;
          st \<leftarrow> set_child d sibling parent st;
          st \<leftarrow> rb_set_parent_color tmp1 sibling RB_BLACK st;
          rb_rotate_set_parents parent sibling RB_BLACK st }"

fun erase_fix_loop :: "nat \<Rightarrow> ptr \<Rightarrow> ptr \<Rightarrow> rbst \<Rightarrow> rbst option" where
  "erase_fix_loop 0 node parent st = None"
| "erase_fix_loop (Suc fuel) node parent st =
     do { right \<leftarrow> get_child Rgt parent st;
          let d = (if node \<noteq> right then Lft else Rgt);
          sibling \<leftarrow> get_child (flip d) parent st;
          red \<leftarrow> rb_is_red sibling st;
          (sibling, st) \<leftarrow>
            (if red
             then do { tmp1 \<leftarrow> get_child d sibling st;
                       st \<leftarrow> set_child (flip d) parent tmp1 st;
                       st \<leftarrow> rb_set_parent_color tmp1 parent RB_BLACK st;
                       st \<leftarrow> set_child d sibling parent st;
                       st \<leftarrow> rb_rotate_set_parents parent sibling RB_RED st;
                       Some (tmp1, st) }
             else Some (sibling, st));
          tmp1 \<leftarrow> get_child (flip d) sibling st;
          b1 \<leftarrow> black_or_null tmp1 st;
          if b1
          then do { tmp2 \<leftarrow> get_child d sibling st;
                    b2 \<leftarrow> black_or_null tmp2 st;
                    if b2
                    then do { st \<leftarrow> rb_set_parent_color sibling parent RB_RED st;
                              pred \<leftarrow> rb_is_red parent st;
                              if pred then rb_set_black parent st
                              else do { up \<leftarrow> rb_parent parent st;
                                        if up \<noteq> NULL then erase_fix_loop fuel parent up st else Some st } }
                    else do { tmp1 \<leftarrow> get_child (flip d) tmp2 st;
                              st \<leftarrow> set_child d sibling tmp1 st;
                              st \<leftarrow> when_node tmp1 (rb_set_parent_color tmp1 sibling RB_BLACK) st;
                              st \<leftarrow> set_child (flip d) tmp2 sibling st;
                              st \<leftarrow> set_child (flip d) parent tmp2 st;
                              erase_rotate d parent tmp2 sibling st } }
          else erase_rotate d parent sibling tmp1 st }"

definition rb_erase :: "nat \<Rightarrow> ptr \<Rightarrow> rbst \<Rightarrow> rbst option" where
  "rb_erase fuel node st =
     do { (rebalance, st1) \<leftarrow> rb_erase_node fuel node st;
          if rebalance \<noteq> NULL then erase_fix_loop fuel NULL rebalance st1 else Some st1 }"

section \<open>Search\<close>

fun rb_lookup_loop :: "nat \<Rightarrow> ptr \<Rightarrow> (ptr \<Rightarrow> ptr \<Rightarrow> bool) \<Rightarrow> ptr \<Rightarrow> rbst \<Rightarrow> ptr option" where
  "rb_lookup_loop 0 node cmp nw st = None"
| "rb_lookup_loop (Suc fuel) node cmp nw st =
     (if nw = NULL then Some NULL
      else if cmp node nw then do { nw' \<leftarrow> get_child Lft nw st; rb_lookup_loop fuel node cmp nw' st }
      else if cmp nw node then do { nw' \<leftarrow> get_child Rgt nw st; rb_lookup_loop fuel node cmp nw' st }
      else Some nw)"

definition rb_lookup :: "nat \<Rightarrow> ptr \<Rightarrow> (ptr \<Rightarrow> ptr \<Rightarrow> bool) \<Rightarrow> rbst \<Rightarrow> ptr option" where
  "rb_lookup fuel node cmp st = rb_lookup_loop fuel node cmp (rb_root st) st"

fun first_loop :: "nat \<Rightarrow> ptr \<Rightarrow> rbst \<Rightarrow> ptr option" where
  "first_loop 0 n st = None"
| "first_loop (Suc fuel) n st = do { l \<leftarrow> get_child Lft n st; if l \<noteq> NULL then first_loop fuel l st else Some n }"

definition rb_first :: "nat \<Rightarrow> rbst \<Rightarrow> ptr option" where
  "rb_first fuel st = (if rb_root st = NULL then Some NULL else first_loop fuel (rb_root st) st)"

end
