(* ===== verification/Rbtree_Rep.thy ===== *)
theory Rbtree_Rep
  imports Rbtree "HOL-Library.Multiset"
begin

text \<open>
  What a heap of nodes means: the functional tree it represents, the path from a node to the root
  as a context around a hole, and the red-black invariants of trees and of contexts.
\<close>

section \<open>Words of parent and colour, and nodes by side\<close>

definition aligned :: "ptr \<Rightarrow> bool" where "aligned p \<longleftrightarrow> p AND 3 = 0"

definition mkpc :: "ptr \<Rightarrow> bool \<Rightarrow> u64" where
  "mkpc p black = p OR (if black then RB_BLACK else RB_RED)"

definition mkn :: "side \<Rightarrow> u64 \<Rightarrow> ptr \<Rightarrow> ptr \<Rightarrow> rb_node" where
  "mkn d pc a c = (case d of Lft \<Rightarrow> \<lparr>rb_pc = pc, rb_right = c, rb_left = a\<rparr> | Rgt \<Rightarrow> \<lparr>rb_pc = pc, rb_right = a, rb_left = c\<rparr>)"

lemma aligned_NULL [simp]: "aligned NULL"
  by (simp add: aligned_def)

lemma mkpc_red [simp]: "mkpc p False = p"
  by (simp add: mkpc_def RB_RED_def)

lemma OR_color [simp]: "p OR RB_BLACK = mkpc p True" "p OR RB_RED = p"
  by (simp_all add: mkpc_def RB_RED_def)

lemma OR_black [simp]: "mkpc p b OR RB_BLACK = mkpc p True"
  by (cases b) (simp_all add: mkpc_def or.assoc RB_RED_def del: OR_color)

lemma pc_parent_mkpc [simp]: "aligned p \<Longrightarrow> pc_parent (mkpc p b) = p"
proof -
  assume a: "aligned p"
  have "p AND NOT 3 = p XOR (p AND 3)"
    by (rule bit_word_eqI) (auto simp: bit_simps)
  then have "p AND NOT 3 = p" using a by (simp add: aligned_def)
  moreover have "(1 :: u64) AND NOT 3 = 0" by simp
  ultimately show ?thesis by (simp add: mkpc_def pc_parent_def RB_RED_def RB_BLACK_def bit.conj_disj_distrib2)
qed

lemma pc_parent_self [simp]: "aligned p \<Longrightarrow> pc_parent p = p"
  using pc_parent_mkpc [of p False] by simp

lemma aligned_even: "aligned p \<Longrightarrow> p AND 1 = 0"
proof -
  assume a: "aligned p"
  have "p AND 1 = (p AND 3) AND 1" by (simp add: and.assoc)
  then show ?thesis using a by (simp add: aligned_def)
qed

lemma pc_color_mkpc [simp]: "aligned p \<Longrightarrow> pc_color (mkpc p b) = (if b then 1 else 0)"
  by (simp add: mkpc_def pc_color_def RB_RED_def RB_BLACK_def bit.conj_disj_distrib2 aligned_even)

lemma pc_color_self [simp]: "aligned p \<Longrightarrow> pc_color p = 0"
  using pc_color_mkpc [of p False] by simp

lemma pc_color_OR: "aligned p \<Longrightarrow> aligned q \<Longrightarrow> pc_color (mkpc p b) OR q = mkpc q b"
  by (cases b) (simp_all add: mkpc_def [of q] RB_RED_def RB_BLACK_def or.commute)

lemma flip_flip [simp]: "flip (flip d) = d" "flip d \<noteq> d" "d \<noteq> flip d"
  by (cases d; simp)+

lemma mkn_simps [simp]:
  "rb_pc (mkn d pc a c) = pc" "rb_child d (mkn d pc a c) = a" "rb_child (flip d) (mkn d pc a c) = c"
  "rb_child_update d x (mkn d pc a c) = mkn d pc x c" "rb_child_update (flip d) x (mkn d pc a c) = mkn d pc a x"
  "rb_pc_update f (mkn d pc a c) = mkn d (f pc) a c"
  by (cases d; simp add: mkn_def)+

lemma mkn_flip: "mkn (flip d) pc a c = mkn d pc c a"
  by (cases d; simp add: mkn_def)

lemma mkn_side [simp]: "mkn Rgt pc a c = mkn Lft pc c a"
  by (simp add: mkn_def)

lemma mkn_Lft [simp]:
  "rb_right (mkn Lft pc a c) = c" "rb_left (mkn Lft pc a c) = a"
  "rb_left_update f (mkn Lft pc a c) = mkn Lft pc (f a) c" "rb_right_update f (mkn Lft pc a c) = mkn Lft pc a (f c)"
  by (simp_all add: mkn_def)

section \<open>Trees and contexts\<close>

datatype rtree = E | T bool rtree ptr rtree

definition TT :: "side \<Rightarrow> bool \<Rightarrow> rtree \<Rightarrow> ptr \<Rightarrow> rtree \<Rightarrow> rtree" where
  "TT d b a x c = (case d of Lft \<Rightarrow> T b a x c | Rgt \<Rightarrow> T b c x a)"

type_synonym frame = "side \<times> bool \<times> ptr \<times> rtree"

fun rp :: "rtree \<Rightarrow> ptr" where
  "rp E = NULL"
| "rp (T b l x r) = x"

fun inorder :: "rtree \<Rightarrow> ptr list" where
  "inorder E = []"
| "inorder (T b l x r) = inorder l @ x # inorder r"

abbreviation nodes :: "rtree \<Rightarrow> ptr set" where "nodes t \<equiv> set (inorder t)"

fun blk :: "rtree \<Rightarrow> bool" where
  "blk E = True"
| "blk (T b l x r) = b"

fun paint :: "bool \<Rightarrow> rtree \<Rightarrow> rtree" where
  "paint b E = E"
| "paint b (T _ l x r) = T b l x r"

fun rep :: "(ptr \<Rightarrow> rb_node) \<Rightarrow> ptr \<Rightarrow> rtree \<Rightarrow> bool" where
  "rep h par E = True"
| "rep h par (T b l x r) \<longleftrightarrow> x \<noteq> NULL \<and> aligned x \<and> h x = mkn Lft (mkpc par b) (rp l) (rp r) \<and> rep h x l \<and> rep h x r"

fun plug :: "frame list \<Rightarrow> rtree \<Rightarrow> rtree" where
  "plug [] t = t"
| "plug ((d, b, x, s) # c) t = plug c (TT d b t x s)"

fun cpar :: "frame list \<Rightarrow> ptr" where
  "cpar [] = NULL"
| "cpar ((d, b, x, s) # c) = x"

fun repc :: "(ptr \<Rightarrow> rb_node) \<Rightarrow> ptr \<Rightarrow> ptr \<Rightarrow> frame list \<Rightarrow> bool" where
  "repc h root p [] \<longleftrightarrow> root = p"
| "repc h root p ((d, b, x, s) # c) \<longleftrightarrow>
     x \<noteq> NULL \<and> aligned x \<and> h x = mkn d (mkpc (cpar c) b) p (rp s) \<and> rep h x s \<and> repc h root x c"

fun cnodes :: "frame list \<Rightarrow> ptr list" where
  "cnodes [] = []"
| "cnodes ((d, b, x, s) # c) = x # inorder s @ cnodes c"

definition zrep :: "rbst \<Rightarrow> frame list \<Rightarrow> rtree \<Rightarrow> bool" where
  "zrep st c t \<longleftrightarrow> rep (rbheap st) (cpar c) t \<and> repc (rbheap st) (rb_root st) (rp t) c \<and> distinct (inorder t @ cnodes c)"

definition rb_rep :: "rbst \<Rightarrow> rtree \<Rightarrow> bool" where
  "rb_rep st t \<longleftrightarrow> rep (rbheap st) NULL t \<and> rb_root st = rp t \<and> distinct (inorder t)"

lemma TT_simps [simp]:
  "rp (TT d b a x c) = x" "blk (TT d b a x c) = b" "paint b' (TT d b a x c) = TT d b' a x c"
  "TT d b a x c \<noteq> E" "E \<noteq> TT d b a x c" "TT Lft b a x c = T b a x c" "TT Rgt b a x c = T b c x a"
  by (cases d; simp add: TT_def)+

lemma TT_flip: "TT (flip d) b a x c = TT d b c x a"
  by (cases d; simp)

lemma nodes_TT [simp]: "nodes (TT d b a x c) = insert x (nodes a \<union> nodes c)"
  by (cases d; auto)

lemma distinct_TT [simp]:
  "distinct (inorder (TT d b a x c)) \<longleftrightarrow> distinct (inorder a) \<and> distinct (inorder c) \<and> x \<notin> nodes a \<and> x \<notin> nodes c \<and> nodes a \<inter> nodes c = {}"
  by (cases d; auto)

lemma rep_TT [simp]:
  "rep h par (TT d b a x c) \<longleftrightarrow> x \<noteq> NULL \<and> aligned x \<and> h x = mkn d (mkpc par b) (rp a) (rp c) \<and> rep h x a \<and> rep h x c"
  by (cases d; auto)

lemma TT_ex: "t \<noteq> E \<Longrightarrow> \<exists>b a x c. t = TT d b a x c"
  by (cases d; cases t) auto

lemma rp_eq_NULL [simp]: "rep h par t \<Longrightarrow> rp t = NULL \<longleftrightarrow> t = E"
  by (cases t; simp)

lemma rp_in_nodes: "t \<noteq> E \<Longrightarrow> rp t \<in> nodes t"
  by (cases t; simp)

lemma paint_simps [simp]: "inorder (paint b t) = inorder t" "rp (paint b t) = rp t" "paint b (paint c t) = paint b t"
  "paint b t = E \<longleftrightarrow> t = E" "blk (paint True t)"
  by (cases t; simp)+

lemma rep_frame [simp]: "a \<notin> nodes t \<Longrightarrow> rep (h(a := v)) par t = rep h par t"
  by (induction t arbitrary: par) auto

lemma repc_frame [simp]: "a \<notin> set (cnodes c) \<Longrightarrow> repc (h(a := v)) root p c = repc h root p c"
  by (induction c arbitrary: p rule: cnodes.induct) auto

lemma rep_aligned: "rep h par t \<Longrightarrow> aligned (rp t)"
  by (cases t) auto

lemma repc_aligned: "repc h root p c \<Longrightarrow> aligned (cpar c)"
  by (cases c rule: cpar.cases) auto

lemma cpar_NULL: "repc h root p c \<Longrightarrow> cpar c = NULL \<longleftrightarrow> c = []"
  by (cases c rule: cpar.cases) auto

lemma cpar_in_cnodes: "c \<noteq> [] \<Longrightarrow> cpar c \<in> set (cnodes c)"
  by (cases c rule: cpar.cases) auto

text \<open>The word of the parent of a node is the only part of a subtree that says where it hangs.\<close>

definition reparent :: "rtree \<Rightarrow> ptr \<Rightarrow> bool \<Rightarrow> (ptr \<Rightarrow> rb_node) \<Rightarrow> ptr \<Rightarrow> rb_node" where
  "reparent t q b h = (if t = E then h else h(rp t := (h (rp t))\<lparr>rb_pc := mkpc q b\<rparr>))"

lemma reparent_other [simp]: "a \<notin> nodes t \<Longrightarrow> reparent t q b h a = h a"
  by (cases t) (auto simp: reparent_def)

lemma rep_reparent [simp]: "rep h par t \<Longrightarrow> distinct (inorder t) \<Longrightarrow> rep (reparent t q b h) q (paint b t)"
  by (cases t) (auto simp: reparent_def)

lemma rep_reparent_same: "rep h par t \<Longrightarrow> distinct (inorder t) \<Longrightarrow> b = blk t \<Longrightarrow> rep (reparent t q b h) q t"
  by (cases t) (auto simp: reparent_def)

lemma rep_reparent_frame [simp]: "nodes t \<inter> nodes t' = {} \<Longrightarrow> rep (reparent t q b h) par t' = rep h par t'"
  using rp_in_nodes [of t] by (cases "t = E") (simp_all add: reparent_def disjoint_iff)

lemma repc_reparent_frame [simp]: "nodes t \<inter> set (cnodes c) = {} \<Longrightarrow> repc (reparent t q b h) root p c = repc h root p c"
  using rp_in_nodes [of t] by (cases "t = E") (simp_all add: reparent_def disjoint_iff)

section \<open>Plugging\<close>

lemma mset_inorder_TT: "mset (inorder (TT d b a x c)) = add_mset x (mset (inorder a) + mset (inorder c))"
  by (cases d) auto

lemma mset_plug: "mset (inorder (plug c t)) = mset (inorder t @ cnodes c)"
  by (induction c t rule: plug.induct) (auto simp: mset_inorder_TT)

lemma distinct_plug: "distinct (inorder (plug c t)) \<longleftrightarrow> distinct (inorder t @ cnodes c)"
  using mset_plug [of c t] by (rule mset_eq_imp_distinct_iff)

lemma rep_plug: "rep h NULL (plug c t) \<and> root = rp (plug c t) \<longleftrightarrow> rep h (cpar c) t \<and> repc h root (rp t) c"
  by (induction c t rule: plug.induct) (simp, simp, blast)

lemma zrep_plug: "zrep st c t \<longleftrightarrow> rb_rep st (plug c t)"
  using rep_plug [of "rbheap st" c t "rb_root st"] distinct_plug [of c t] by (auto simp: zrep_def rb_rep_def)

lemma plug_append: "plug (c @ c') t = plug c' (plug c t)"
  by (induction c t rule: plug.induct) auto

lemma nodes_plug: "nodes (plug c t) = nodes t \<union> set (cnodes c)"
  using mset_plug [of c t] by (metis set_append set_mset_mset)

text \<open>What stands left and right of the hole in the order of the tree.\<close>

fun lefts :: "frame list \<Rightarrow> ptr list" where
  "lefts [] = []"
| "lefts ((d, b, x, s) # c) = lefts c @ (case d of Lft \<Rightarrow> [] | Rgt \<Rightarrow> inorder s @ [x])"

fun rights :: "frame list \<Rightarrow> ptr list" where
  "rights [] = []"
| "rights ((d, b, x, s) # c) = (case d of Lft \<Rightarrow> x # inorder s | Rgt \<Rightarrow> []) @ rights c"

lemma lefts_append [simp]: "lefts (c @ c') = lefts c' @ lefts c"
  by (induction c rule: lefts.induct) auto

lemma rights_append [simp]: "rights (c @ c') = rights c @ rights c'"
  by (induction c rule: rights.induct) auto

lemma inorder_plug: "inorder (plug c t) = lefts c @ inorder t @ rights c"
proof (induction c t rule: plug.induct)
  case (2 d b x s c t)
  then show ?case by (cases d) auto
qed simp

section \<open>The red-black invariants\<close>

fun bal :: "nat \<Rightarrow> rtree \<Rightarrow> bool" where
  "bal n E \<longleftrightarrow> n = 0"
| "bal n (T b l x r) \<longleftrightarrow> (if b then n > 0 \<and> bal (n - 1) l \<and> bal (n - 1) r else bal n l \<and> bal n r)"

fun norr :: "rtree \<Rightarrow> bool" where
  "norr E = True"
| "norr (T b l x r) \<longleftrightarrow> (b \<or> blk l \<and> blk r) \<and> norr l \<and> norr r"

fun balc :: "nat \<Rightarrow> frame list \<Rightarrow> bool" where
  "balc n [] = True"
| "balc n ((d, b, x, s) # c) \<longleftrightarrow> bal n s \<and> balc (if b then Suc n else n) c"

text \<open>\<open>norrc b c\<close>: the context has no two red nodes in a row when the tree in the hole is black (\<open>b\<close>) or red.\<close>

fun norrc :: "bool \<Rightarrow> frame list \<Rightarrow> bool" where
  "norrc b [] = b"
| "norrc b ((d, b', x, s) # c) \<longleftrightarrow> (b' \<or> b \<and> blk s) \<and> norr s \<and> norrc b' c"

definition rbt :: "rtree \<Rightarrow> bool" where
  "rbt t \<longleftrightarrow> (\<exists>n. bal n t) \<and> norr t \<and> blk t"

lemma bal_TT [simp]: "bal n (TT d b l x r) \<longleftrightarrow> (if b then n > 0 \<and> bal (n - 1) l \<and> bal (n - 1) r else bal n l \<and> bal n r)"
  by (cases d) auto

lemma norr_TT [simp]: "norr (TT d b l x r) \<longleftrightarrow> (b \<or> blk l \<and> blk r) \<and> norr l \<and> norr r"
  by (cases d) auto

lemma bal_plug: "(\<exists>m. bal m (plug c t)) \<longleftrightarrow> (\<exists>n. bal n t \<and> balc n c)"
proof (induction c t rule: plug.induct)
  case (2 d b x s c t)
  have "(\<exists>n. bal n (TT d b t x s) \<and> balc n c) \<longleftrightarrow> (\<exists>n. bal n t \<and> bal n s \<and> balc (if b then Suc n else n) c)"
    by (cases b) (auto simp: gr0_conv_Suc intro: exI [of _ "Suc _"])
  with 2 show ?case by simp
qed simp

lemma norr_plug: "norr (plug c t) \<and> blk (plug c t) \<longleftrightarrow> norr t \<and> norrc (blk t) c"
  by (induction c t rule: plug.induct) auto

lemma rbt_plug: "rbt (plug c t) \<longleftrightarrow> (\<exists>n. bal n t \<and> balc n c) \<and> norr t \<and> norrc (blk t) c"
  using bal_plug [of c t] norr_plug [of c t] by (auto simp: rbt_def)

lemma norrc_mono: "norrc b c \<Longrightarrow> norrc True c"
  by (cases c rule: cpar.cases) auto

lemma norr_paint [simp]: "norr t \<Longrightarrow> norr (paint True t)"
  by (cases t) auto

lemma paint_blk [simp]: "blk t \<Longrightarrow> paint True t = t"
  by (cases t) auto

lemma bal_unique: "bal n t \<Longrightarrow> bal m t \<Longrightarrow> n = m"
proof (induction t arbitrary: n m)
  case (T b l x r)
  then show ?case by (cases b) (auto, metis Suc_pred)
qed simp

section \<open>Height\<close>

fun ht :: "rtree \<Rightarrow> nat" where
  "ht E = 0"
| "ht (T b l x r) = Suc (max (ht l) (ht r))"

lemma ht_TT [simp]: "ht (TT d b l x r) = Suc (max (ht l) (ht r))"
  by (cases d) auto

lemma ht_plug: "length c + ht t \<le> ht (plug c t)"
  by (induction c t rule: plug.induct) auto

lemma bal_size: "bal n t \<Longrightarrow> 2 ^ n \<le> length (inorder t) + 1"
proof (induction n t rule: bal.induct)
  case (2 n b l x r)
  then show ?case by (cases n; cases b) auto
qed simp

lemma bal_ht: "bal n t \<Longrightarrow> norr t \<Longrightarrow> ht t \<le> 2 * n + (if blk t then 0 else 1)"
proof (induction n t rule: bal.induct)
  case (2 n b l x r)
  then show ?case by (cases n; cases b) (auto split: if_splits)
qed simp

text \<open>A red-black tree of fewer than \<open>2 ^ k - 1\<close> nodes has no path of \<open>2 * k\<close> nodes.\<close>

lemma rbt_ht: assumes "rbt t" "length (inorder t) + 1 < 2 ^ k" shows "ht t + 2 \<le> 2 * k"
proof -
  obtain n where n: "bal n t" "norr t" "blk t" using assms(1) by (auto simp: rbt_def)
  have "(2 :: nat) ^ n < 2 ^ k" using bal_size [OF n(1)] assms(2) by linarith
  then have "n < k" by simp
  then show ?thesis using bal_ht [OF n(1,2)] n(3) by simp
qed

section \<open>A tree in the order of its keys\<close>

definition rb_tree :: "(ptr \<Rightarrow> 'k::linorder) \<Rightarrow> rbst \<Rightarrow> ptr list \<Rightarrow> bool" where
  "rb_tree key st xs \<longleftrightarrow> (\<exists>t. rb_rep st t \<and> rbt t \<and> inorder t = xs) \<and> sorted_wrt (\<lambda>a b. key a < key b) xs"

end
