(* ===== verification/Rbtree_Insert.thy ===== *)
theory Rbtree_Insert
  imports Rbtree_Rep
begin

text \<open>
  Insertion into the red-black tree: the loop that repairs the colours is the functional repair of
  a path, which keeps the order and restores the invariants.
\<close>

section \<open>The heap after the primitive updates\<close>

definition ch_heap :: "ptr \<Rightarrow> frame list \<Rightarrow> (ptr \<Rightarrow> rb_node) \<Rightarrow> ptr \<Rightarrow> rb_node" where
  "ch_heap nw c h = (case c of [] \<Rightarrow> h | (d, b, x, s) # _ \<Rightarrow> h(x := rb_child_update d nw (h x)))"

definition ch_root :: "ptr \<Rightarrow> frame list \<Rightarrow> ptr \<Rightarrow> ptr" where
  "ch_root nw c root = (if c = [] then nw else root)"

lemma ch_heap_other [simp]: "a \<notin> set (cnodes c) \<Longrightarrow> ch_heap nw c h a = h a"
  by (cases c rule: cpar.cases) (auto simp: ch_heap_def)

lemma rep_ch_heap [simp]: "nodes t \<inter> set (cnodes c) = {} \<Longrightarrow> rep (ch_heap nw c h) par t = rep h par t"
  by (cases c rule: cpar.cases) (auto simp: ch_heap_def disjoint_iff intro!: rep_frame)

lemma repc_ch_heap: "repc h root old c \<Longrightarrow> distinct (cnodes c) \<Longrightarrow> repc (ch_heap nw c h) (ch_root nw c root) nw c"
  by (cases c rule: cpar.cases) (simp_all add: ch_heap_def ch_root_def)

lemma rb_change_child_eq:
  assumes "repc (rbheap st) (rb_root st) old c" "old \<noteq> NULL" "old \<notin> set (cnodes c)"
  shows "rb_change_child old nw (cpar c) st = Some (st\<lparr>rbheap := ch_heap nw c (rbheap st), rb_root := ch_root nw c (rb_root st)\<rparr>)"
proof (cases c rule: cpar.cases)
  case (2 d b x s c')
  have "rp s \<noteq> old" using assms 2 rp_in_nodes [of s] by (cases "s = E") auto
  with assms 2 show ?thesis
    by (cases d) (auto simp: rb_change_child_def get_child_def rb_get_def set_child_def rb_upd_def ch_heap_def ch_root_def mkn_def)
qed (use assms in \<open>simp add: rb_change_child_def ch_heap_def ch_root_def\<close>)

lemma rb_rotate_set_parents_eq:
  assumes "repc (rbheap st) (rb_root st) old c" "old \<noteq> NULL" "old \<notin> set (cnodes c)" "nw \<noteq> NULL" "nw \<notin> set (cnodes c)" "nw \<noteq> old"
    and "rb_pc (rbheap st old) = mkpc (cpar c) b"
  shows "rb_rotate_set_parents old nw color st =
           Some (st\<lparr>rbheap := ch_heap nw c ((rbheap st)(nw := (rbheap st nw)\<lparr>rb_pc := mkpc (cpar c) b\<rparr>,
                                                         old := (rbheap st old)\<lparr>rb_pc := nw OR color\<rparr>)),
                    rb_root := ch_root nw c (rb_root st)\<rparr>)"
proof -
  define st2 where "st2 = st\<lparr>rbheap := (rbheap st)(nw := (rbheap st nw)\<lparr>rb_pc := mkpc (cpar c) b\<rparr>, old := (rbheap st old)\<lparr>rb_pc := nw OR color\<rparr>)\<rparr>"
  have "repc (rbheap st2) (rb_root st2) old c" using assms by (simp add: st2_def)
  from rb_change_child_eq [OF this, of nw] assms
  have "rb_change_child old nw (cpar c) st2 = Some (st2\<lparr>rbheap := ch_heap nw c (rbheap st2), rb_root := ch_root nw c (rb_root st2)\<rparr>)" by simp
  with assms repc_aligned [OF assms(1)] show ?thesis
    by (simp add: rb_rotate_set_parents_def rb_parent_def rb_get_def rb_upd_def rb_set_parent_color_def st2_def)
qed

lemma when_node_eq:
  assumes "rep (rbheap st) par t"
  shows "when_node (rp t) (rb_set_parent_color (rp t) q RB_BLACK) st = Some (st\<lparr>rbheap := reparent t q True (rbheap st)\<rparr>)"
  using assms by (simp add: when_node_def rb_set_parent_color_def rb_upd_def reparent_def)

lemmas rb_prims = get_child_def set_child_def rb_get_def rb_upd_def rb_parent_def rb_is_red_def rb_is_black_def
  rb_red_parent_def rb_set_parent_color_def rb_set_parent_def rb_set_black_def

section \<open>The functional repair\<close>

definition sub :: "side \<Rightarrow> rtree \<Rightarrow> rtree" where
  "sub d t = (case t of E \<Rightarrow> E | T b l x r \<Rightarrow> (case d of Lft \<Rightarrow> l | Rgt \<Rightarrow> r))"

lemma sub_TT [simp]: "sub d (TT d b a x c) = a" "sub (flip d) (TT d b a x c) = c"
  by (cases d; simp add: sub_def)+

definition rot :: "side \<Rightarrow> side \<Rightarrow> rtree \<Rightarrow> ptr \<Rightarrow> rtree \<Rightarrow> ptr \<Rightarrow> rtree \<Rightarrow> rtree" where
  "rot e d t p s g u =
     (if d = e then TT e True t p (TT e False s g u)
      else TT e True (TT e False s p (sub e t)) (rp t) (TT e False (sub (flip e) t) g u))"

fun fixup :: "frame list \<Rightarrow> rtree \<Rightarrow> rtree" where
  "fixup [] t = paint True t"
| "fixup [(d, b, p, s)] t = plug [(d, b, p, s)] t"
| "fixup ((d, b, p, s) # (e, b', g, u) # c) t =
     (if b then plug ((d, b, p, s) # (e, b', g, u) # c) t
      else if blk u then plug c (rot e d t p s g u)
      else fixup c (TT e False (TT d True t p s) g (paint True u)))"

lemma set_child_eq [simp]:
  "p \<noteq> NULL \<Longrightarrow> set_child d p x st = Some (st\<lparr>rbheap := (rbheap st)(p := rb_child_update d x (rbheap st p))\<rparr>)"
  by (simp add: set_child_def rb_upd_def)

lemma get_child_eq [simp]: "p \<noteq> NULL \<Longrightarrow> get_child d p st = Some (rb_child d (rbheap st p))"
  by (simp add: get_child_def rb_get_def)

lemma insert_rotate_outer:
  assumes z: "zrep st ((d, False, p, s) # (d, True, g, u) # c) t" and "t \<noteq> E" "blk s"
  shows "\<exists>st'. insert_rotate d (rp t) p g st = Some st' \<and> zrep st' c (rot d d t p s g u)
           \<and> (\<forall>a. a \<notin> nodes (plug ((d, False, p, s) # (d, True, g, u) # c) t) \<longrightarrow> rbheap st' a = rbheap st a)"
proof -
  let ?h = "rbheap st"
  note Z = z [unfolded zrep_def, simplified, unfolded Int_Un_distrib Un_empty]
  have D: "nodes s \<inter> nodes t = {}" "g \<noteq> p" using Z by auto
  have ne: "rp t \<noteq> rp s" using Z assms(2) rp_in_nodes [of t] rp_in_nodes [of s] by (cases "s = E") auto
  define h1 where "h1 = ?h(g := mkn d (mkpc (cpar c) True) (rp s) (rp u))"
  define h2 where "h2 = (reparent s g True h1)(p := mkn d g (rp t) g)"
  have rs: "rep h1 p s" by (simp add: h1_def Z)
  then have rs2: "rep h2 g s" using assms(3) rep_reparent [of h1 p s g True] by (simp add: Z h2_def)
  have rc: "repc h2 (rb_root st) g c" by (simp add: h2_def h1_def Z)
  have "insert_rotate d (rp t) p g st = rb_rotate_set_parents g p RB_RED (st\<lparr>rbheap := h2\<rparr>)"
    using ne when_node_eq [of "st\<lparr>rbheap := h1\<rparr>" p s g] rs
    by (simp add: insert_rotate_def h1_def h2_def Z D)
  also have "\<dots> = Some (st\<lparr>rbheap := ch_heap p c (h2(p := mkn d (mkpc (cpar c) True) (rp t) g, g := mkn d p (rp s) (rp u))),
                    rb_root := ch_root p c (rb_root st)\<rparr>)"
    using rb_rotate_set_parents_eq [of "st\<lparr>rbheap := h2\<rparr>" g c p True RB_RED] rc
    by (simp add: h2_def h1_def Z D)
  finally have "insert_rotate d (rp t) p g st = \<dots>" .
  moreover have "zrep (st\<lparr>rbheap := ch_heap p c (h2(p := mkn d (mkpc (cpar c) True) (rp t) g, g := mkn d p (rp s) (rp u))),
                    rb_root := ch_root p c (rb_root st)\<rparr>) c (rot d d t p s g u)"
    using repc_ch_heap [of "h2(p := mkn d (mkpc (cpar c) True) (rp t) g, g := mkn d p (rp s) (rp u))" "rb_root st" g c p] rs2
    by (simp add: zrep_def rot_def Z D rc, simp add: h2_def h1_def Z D Int_Un_distrib Int_Un_distrib2)
  ultimately show ?thesis by (simp add: nodes_plug h2_def h1_def)
qed

lemma insert_rotate_inner:
  assumes z: "zrep st ((flip d, False, p, s) # (d, True, g, u) # c) (TT d False x n y)" and "blk x" "blk y"
  shows "\<exists>st'. insert_rotate d n p g st = Some st' \<and> zrep st' c (rot d (flip d) (TT d False x n y) p s g u)
           \<and> (\<forall>a. a \<notin> nodes (plug ((flip d, False, p, s) # (d, True, g, u) # c) (TT d False x n y)) \<longrightarrow> rbheap st' a = rbheap st a)"
proof -
  let ?h = "rbheap st"
  note Z = z [unfolded zrep_def, simplified, unfolded Int_Un_distrib Int_Un_distrib2 Un_empty]
  have D: "nodes s \<inter> nodes x = {}" "nodes s \<inter> nodes y = {}" "nodes y \<inter> nodes x = {}" "g \<noteq> p" "n \<noteq> p" "g \<noteq> n" "p \<noteq> n" "n \<noteq> g"
    using Z by auto
  define h1 where "h1 = ?h(p := mkn d g (rp s) (rp x))"
  define h2 where "h2 = (reparent x p True h1)(n := mkn d p p (rp y), p := mkn d n (rp s) (rp x), g := mkn d (mkpc (cpar c) True) (rp y) (rp u))"
  define h3 where "h3 = (reparent y g True h2)(n := mkn d p p g)"
  have rx: "rep h1 n x" by (simp add: h1_def Z)
  then have rx3: "rep h3 p x" using assms(2) rep_reparent [of h1 n x p True] by (simp add: Z D h3_def h2_def)
  have ry: "rep h2 n y" by (simp add: h2_def h1_def Z)
  then have ry3: "rep h3 g y" using assms(3) rep_reparent [of h2 n y g True] by (simp add: Z D h3_def)
  have rc: "repc h3 (rb_root st) g c" by (simp add: h3_def h2_def h1_def Z)
  have "insert_rotate d n p g st = rb_rotate_set_parents g n RB_RED (st\<lparr>rbheap := h3\<rparr>)"
    using when_node_eq [of "st\<lparr>rbheap := h1\<rparr>" n x p] rx when_node_eq [of "st\<lparr>rbheap := h2\<rparr>" n y g] ry
    by (simp add: insert_rotate_def h1_def h2_def h3_def Z D mkn_flip rb_set_parent_color_def rb_upd_def fun_upd_twist)
  also have "\<dots> = Some (st\<lparr>rbheap := ch_heap n c (h3(n := mkn d (mkpc (cpar c) True) p g, g := mkn d n (rp y) (rp u))),
                    rb_root := ch_root n c (rb_root st)\<rparr>)"
    using rb_rotate_set_parents_eq [of "st\<lparr>rbheap := h3\<rparr>" g c n True RB_RED] rc
    by (simp add: h3_def h2_def h1_def Z D)
  finally have "insert_rotate d n p g st = \<dots>" .
  moreover have "zrep (st\<lparr>rbheap := ch_heap n c (h3(n := mkn d (mkpc (cpar c) True) p g, g := mkn d n (rp y) (rp u))),
                    rb_root := ch_root n c (rb_root st)\<rparr>) c (rot d (flip d) (TT d False x n y) p s g u)"
    using repc_ch_heap [of "h3(n := mkn d (mkpc (cpar c) True) p g, g := mkn d n (rp y) (rp u))" "rb_root st" g c n] rx3 ry3
    by (simp add: zrep_def rot_def Z D rc, simp add: h3_def h2_def h1_def Z D Int_Un_distrib Int_Un_distrib2)
  ultimately show ?thesis by (simp add: nodes_plug h3_def h2_def h1_def)
qed

lemma zrep_blacken_root:
  assumes "zrep st [] t" "t \<noteq> E"
  shows "\<exists>st'. rb_set_parent_color (rp t) NULL RB_BLACK st = Some st' \<and> zrep (st'\<lparr>rb_root := rp t\<rparr>) [] (paint True t)
           \<and> (\<forall>a. a \<notin> nodes t \<longrightarrow> rbheap st' a = rbheap st a)"
proof -
  obtain b l x r where t: "t = T b l x r" using assms(2) by (cases t) auto
  from assms(1) show ?thesis by (auto simp: t zrep_def rb_set_parent_color_def rb_upd_def)
qed

text \<open>The step with a red uncle: parent and uncle turn black, the grandparent red.\<close>

lemma recolour_step:
  assumes z: "zrep st ((d, False, p, s) # (e, True, g, u) # c) t" and u: "\<not> blk u"
  obtains st1 st2 st3 where "rb_set_parent_color (rp u) g RB_BLACK st = Some st1" "rb_set_parent_color p g RB_BLACK st1 = Some st2"
    "rb_parent g st2 = Some (cpar c)" "rb_set_parent_color g (cpar c) RB_RED st2 = Some st3"
    "zrep st3 c (TT e False (TT d True t p s) g (paint True u))"
    "\<And>a. a \<notin> nodes u \<Longrightarrow> a \<noteq> p \<Longrightarrow> a \<noteq> g \<Longrightarrow> rbheap st3 a = rbheap st a"
proof -
  obtain b x q y where ut: "u = TT e b x q y" using u TT_ex [of u e] by (metis blk.simps(1))
  note Z = z [unfolded zrep_def ut, simplified, unfolded Int_Un_distrib Int_Un_distrib2 Un_empty]
  have D: "g \<noteq> p" "p \<noteq> g" "q \<noteq> p" "p \<noteq> q" "g \<noteq> q" "q \<noteq> g" "q \<notin> nodes s" "q \<notin> nodes t" "q \<notin> nodes y" "q \<notin> nodes x" "aligned (cpar c)"
    using Z repc_aligned [of "rbheap st"] by auto
  define h1 where "h1 = (rbheap st)(q := mkn e (mkpc g True) (rp x) (rp y))"
  define h2 where "h2 = h1(p := mkn d (mkpc g True) (rp t) (rp s))"
  define h3 where "h3 = h2(g := mkn e (cpar c) p q)"
  show ?thesis
  proof (rule that)
    show "rb_set_parent_color (rp u) g RB_BLACK st = Some (st\<lparr>rbheap := h1\<rparr>)"
      by (simp add: ut rb_set_parent_color_def rb_upd_def Z h1_def)
    show "rb_set_parent_color p g RB_BLACK (st\<lparr>rbheap := h1\<rparr>) = Some (st\<lparr>rbheap := h2\<rparr>)"
      by (simp add: rb_set_parent_color_def rb_upd_def Z D h1_def h2_def)
    show "rb_parent g (st\<lparr>rbheap := h2\<rparr>) = Some (cpar c)"
      by (simp add: rb_parent_def rb_get_def Z D h1_def h2_def)
    show "rb_set_parent_color g (cpar c) RB_RED (st\<lparr>rbheap := h2\<rparr>) = Some (st\<lparr>rbheap := h3\<rparr>)"
      by (simp add: rb_set_parent_color_def rb_upd_def Z D h1_def h2_def h3_def)
    show "zrep (st\<lparr>rbheap := h3\<rparr>) c (TT e False (TT d True t p s) g (paint True u))"
      by (simp add: zrep_def ut h1_def h2_def h3_def Z D Int_Un_distrib Int_Un_distrib2)
    show "rbheap (st\<lparr>rbheap := h3\<rparr>) a = rbheap st a" if "a \<notin> nodes u" "a \<noteq> p" "a \<noteq> g" for a
      using that by (simp add: ut h1_def h2_def h3_def)
  qed
qed

lemma insert_fix_loop_correct:
  assumes "zrep st c t" "\<not> blk t" "norr t" "norrc True c" "length c < fuel"
  shows "\<exists>st'. insert_fix_loop fuel (rp t) (cpar c) st = Some st' \<and> rb_rep st' (fixup c t)
           \<and> (\<forall>a. a \<notin> nodes (plug c t) \<longrightarrow> rbheap st' a = rbheap st a)"
  using assms
proof (induction c t arbitrary: fuel st rule: fixup.induct)
  case (1 t)
  then obtain f where f: "fuel = Suc f" by (cases fuel) auto
  have "t \<noteq> E" using 1 by auto
  from zrep_blacken_root [OF 1(1) this] obtain st' where
    "rb_set_parent_color (rp t) NULL RB_BLACK st = Some st'" "zrep (st'\<lparr>rb_root := rp t\<rparr>) [] (paint True t)"
    "\<forall>a. a \<notin> nodes t \<longrightarrow> rbheap st' a = rbheap st a" by blast
  then show ?case by (simp add: f zrep_plug)
next
  case (2 d b p s t)
  then obtain f where f: "fuel = Suc f" by (cases fuel) auto
  have b: "b" using 2 by simp
  have "rb_is_black p st = Some True" "p \<noteq> NULL" using 2(1) b by (auto simp: zrep_def rb_is_black_def rb_get_def)
  then show ?case using 2(1) by (simp add: f zrep_plug)
next
  case (3 d b p s e b' g u c t)
  then obtain f where f: "fuel = Suc f" by (cases fuel) auto
  note Z = 3(2) [unfolded zrep_def, simplified]
  have p: "rb_is_black p st = Some b" "p \<noteq> NULL" using Z by (auto simp: rb_is_black_def rb_get_def)
  show ?case
  proof (cases b)
    case True
    then show ?thesis using 3(2) p by (simp add: f zrep_plug)
  next
    case False
    have b': "b'" and bs: "blk s" and bu: "norr u" "norrc True c" "norr s" using 3(5) False by auto
    have ne: "rp u \<noteq> p" using Z rp_in_nodes [of u] by (cases "u = E") auto
    have g: "rb_red_parent p st = Some g" "g \<noteq> NULL" "rb_child Rgt (rbheap st g) = (case e of Lft \<Rightarrow> rp u | Rgt \<Rightarrow> p)"
      "rb_child (flip e) (rbheap st g) = rp u"
      using Z False p by (auto simp: rb_red_parent_def rb_get_def mkn_def split: side.splits)
    have red: "(if rp u \<noteq> NULL then rb_is_red (rp u) st else Some False) = Some (\<not> blk u)"
      using Z by (cases u) (auto simp: rb_is_red_def rb_get_def)
    have step: "insert_fix_loop fuel (rp t) p st =
        (if blk u then insert_rotate e (rp t) p g st
         else do { st1 \<leftarrow> rb_set_parent_color (rp u) g RB_BLACK st; st2 \<leftarrow> rb_set_parent_color p g RB_BLACK st1;
                   up \<leftarrow> rb_parent g st2; st3 \<leftarrow> rb_set_parent_color g up RB_RED st2; insert_fix_loop f g up st3 })"
      using p False g red ne by (cases e) (auto simp: f split: if_splits)
    show ?thesis
    proof (cases "blk u")
      case True
      have "t \<noteq> E" using 3(3) by auto
      then obtain x n y where t: "t = TT e False x n y" using TT_ex [of t e] 3(3) by auto
      have xy: "blk x" "blk y" using 3(4) t by auto
      show ?thesis
      proof (cases "d = e")
        case d: True
        with insert_rotate_outer [of st e p s g u c t] 3(2) False b' \<open>t \<noteq> E\<close> bs show ?thesis
          using step True False by (simp add: zrep_plug)
      next
        case d: False
        then have "d = flip e" by (cases d; cases e) auto
        with insert_rotate_inner [of st e p s g u c x n y] 3(2) False b' xy t show ?thesis
          using step True False by (simp add: zrep_plug)
      qed
    next
      case nb: False
      from 3(2) False b' have z: "zrep st ((d, False, p, s) # (e, True, g, u) # c) t" by simp
      obtain st1 st2 st3 where st: "rb_set_parent_color (rp u) g RB_BLACK st = Some st1" "rb_set_parent_color p g RB_BLACK st1 = Some st2"
        "rb_parent g st2 = Some (cpar c)" "rb_set_parent_color g (cpar c) RB_RED st2 = Some st3"
        "zrep st3 c (TT e False (TT d True t p s) g (paint True u))"
        and fr: "\<And>a. a \<notin> nodes u \<Longrightarrow> a \<noteq> p \<Longrightarrow> a \<noteq> g \<Longrightarrow> rbheap st3 a = rbheap st a"
        using recolour_step [OF z nb] by blast
      have "\<exists>st'. insert_fix_loop f (rp (TT e False (TT d True t p s) g (paint True u))) (cpar c) st3 = Some st' \<and>
          rb_rep st' (fixup c (TT e False (TT d True t p s) g (paint True u))) \<and>
          (\<forall>a. a \<notin> nodes (plug c (TT e False (TT d True t p s) g (paint True u))) \<longrightarrow> rbheap st' a = rbheap st3 a)"
        by (rule 3(1)) (use False nb st(5) bu 3(4,6) f in \<open>simp_all\<close>)
      with st step nb False show ?thesis by (auto simp: nodes_plug fr)
    qed
  qed
qed

section \<open>The repair restores the invariants\<close>

lemma inorder_rot: "t \<noteq> E \<Longrightarrow> inorder (rot e d t p s g u) = inorder (TT e True (TT d False t p s) g u)"
  using TT_ex [of t e] by (cases d; cases e) (auto simp: rot_def sub_def)

lemma inorder_TT_cong: "inorder a = inorder a' \<Longrightarrow> inorder c = inorder c' \<Longrightarrow> inorder (TT d b a x c) = inorder (TT d b' a' x c')"
  by (cases d) auto

lemma inorder_fixup: "t \<noteq> E \<Longrightarrow> inorder (fixup c t) = inorder (plug c t)"
proof (induction c t rule: fixup.induct)
  case (3 d b p s e b' g u c t)
  then show ?case
    using inorder_rot [of t e d p s g u] inorder_TT_cong [of "TT d b t p s" "TT d True t p s" u "paint True u" e b' g False]
      inorder_TT_cong [of t t s s d b p True] inorder_TT_cong [of "TT d b t p s" "TT d False t p s" u u e b' g True]
    by (auto simp: inorder_plug)
qed simp_all

lemma bal_paint: "bal n t \<Longrightarrow> \<not> blk t \<Longrightarrow> bal (Suc n) (paint True t)"
  by (cases t) auto

lemma rbt_fixup:
  assumes "\<not> blk t" "norr t" "norrc True c" "bal n t" "balc n c"
  shows "rbt (fixup c t)"
  using assms
proof (induction c t arbitrary: n rule: fixup.induct)
  case (1 t)
  then show ?case by (auto simp: rbt_def dest: bal_paint)
next
  case (2 d b p s t)
  then have b: b by simp
  show ?case unfolding fixup.simps rbt_plug by (rule conjI, rule exI [of _ n]) (use 2 b in auto)
next
  case (3 d b p s e b' g u c t)
  show ?case
  proof (cases b)
    case True
    have "rbt (plug ((d, b, p, s) # (e, b', g, u) # c) t)" unfolding rbt_plug
      by (rule conjI, rule exI [of _ n]) (use 3(2-6) True in auto)
    then show ?thesis using True by simp
  next
    case False
    have b': b' using 3(4) False by simp
    obtain x y z where t: "t = TT e False x y z" using TT_ex [of t e] 3(2) by (metis TT_simps(2) blk.simps(1))
    show ?thesis
    proof (cases "blk u")
      case True
      have "rbt (plug c (rot e d t p s g u))" unfolding rbt_plug rot_def
        by (rule conjI, rule exI [of _ "Suc n"]) (use 3(2-6) True False b' in \<open>auto simp: t\<close>)
      then show ?thesis using True False by simp
    next
      case nb: False
      have "rbt (fixup c (TT e False (TT d True t p s) g (paint True u)))"
        by (rule 3(1) [of "Suc n"]) (use 3(2-6) nb False b' bal_paint [of n u] in auto)
      then show ?thesis using nb False by simp
    qed
  qed
qed

section \<open>The descent\<close>

abbreviation less_key :: "(ptr \<Rightarrow> 'k::linorder) \<Rightarrow> ptr \<Rightarrow> ptr \<Rightarrow> bool" where
  "less_key key a b \<equiv> key a < key b"

lemma zrep_hang:
  assumes "zrep st ((d, b, x, s) # c) E" "n \<noteq> NULL" "aligned n" "n \<notin> set (cnodes ((d, b, x, s) # c))" "rbheap st n = mkn Lft 0 NULL NULL"
  shows "zrep (st\<lparr>rbheap := (rbheap st)(x := rb_child_update d n (rbheap st x), n := mkn Lft x NULL NULL)\<rparr>) ((d, b, x, s) # c) (T False E n E)"
  using assms by (auto simp: zrep_def)

lemma insert_descend_found:
  assumes "zrep st c t" "sorted_wrt (less_key key) (inorder t)" "key n \<in> key ` nodes t" "ht t < fuel"
  shows "insert_descend fuel n (less_key key) (rp t) st = Some (False, st)"
  using assms
proof (induction t arbitrary: c fuel)
  case (T b l x r)
  then obtain f where f: "fuel = Suc f" by (cases fuel) auto
  note Z = T.prems(1) [unfolded zrep_def, simplified]
  have zl: "zrep st ((Lft, b, x, r) # c) l" and zr: "zrep st ((Rgt, b, x, l) # c) r"
    using T.prems(1) by (simp_all add: zrep_plug)
  have S: "sorted_wrt (less_key key) (inorder l)" "sorted_wrt (less_key key) (inorder r)"
    "\<forall>a\<in>nodes l. key a < key x" "\<forall>a\<in>nodes r. key x < key a" using T.prems(2) by (auto simp: sorted_wrt_append)
  consider "key n < key x" | "key x < key n" | "key n = key x" by fastforce
  then show ?case
  proof cases
    case 1
    then have m: "key n \<in> key ` nodes l" using T.prems(3) S(4) by (auto dest: less_trans)
    then have "l \<noteq> E" by auto
    then have "rp l \<noteq> NULL" using Z rp_eq_NULL by blast
    with 1 T.IH(1) [OF zl S(1) m, of f] T.prems(4) Z show ?thesis by (simp add: f)
  next
    case 2
    then have m: "key n \<in> key ` nodes r" using T.prems(3) S(3) by (auto dest: less_trans)
    then have "r \<noteq> E" by auto
    then have "rp r \<noteq> NULL" using Z rp_eq_NULL by blast
    with 2 T.IH(2) [OF zr S(2) m, of f] T.prems(4) Z show ?thesis by (simp add: f less_not_sym [OF 2])
  next
    case 3
    then show ?thesis using Z by (simp add: f)
  qed
qed simp

lemma insert_descend_new:
  assumes "zrep st c t" "sorted_wrt (less_key key) (inorder t)" "key n \<notin> key ` nodes t" "ht t < fuel" "t \<noteq> E"
    and n: "n \<noteq> NULL" "aligned n" "n \<notin> nodes (plug c t)" "rbheap st n = mkn Lft 0 NULL NULL"
  shows "\<exists>c' st'. insert_descend fuel n (less_key key) (rp t) st = Some (True, st') \<and> zrep st' (c' @ c) (T False E n E)
           \<and> plug c' E = t \<and> (\<forall>a\<in>set (lefts c'). key a < key n) \<and> (\<forall>a\<in>set (rights c'). key n < key a)
           \<and> (\<forall>a. a \<noteq> n \<longrightarrow> a \<notin> nodes (plug c t) \<longrightarrow> rbheap st' a = rbheap st a)"
  using assms
proof (induction t arbitrary: c fuel)
  case (T b l x r)
  then obtain f where f: "fuel = Suc f" by (cases fuel) auto
  note Z = T.prems(1) [unfolded zrep_def, simplified]
  define d where "d = (if key n < key x then Lft else Rgt)"
  define s where "s = (if key n < key x then r else l)"
  define t where "t = (if key n < key x then l else r)"
  have tt: "T b l x r = TT d b t x s" by (simp add: d_def s_def t_def)
  have z: "zrep st ((d, b, x, s) # c) t" using T.prems(1) by (simp add: zrep_plug tt)
  have S: "sorted_wrt (less_key key) (inorder t)" "\<forall>a\<in>nodes l. key a < key x" "\<forall>a\<in>nodes r. key x < key a"
    using T.prems(2) by (auto simp: sorted_wrt_append t_def)
  have k: "key n \<noteq> key x" "key n \<notin> key ` nodes t" using T.prems(3) by (auto simp: t_def)
  have sep: "\<forall>a\<in>set (lefts [(d, b, x, s)]). key a < key n" "\<forall>a\<in>set (rights [(d, b, x, s)]). key n < key a"
    using S(2,3) k(1) by (auto simp: d_def s_def dest: less_trans)
  have nn: "n \<noteq> x" "n \<notin> set (cnodes ((d, b, x, s) # c))" using T.prems(8) by (auto simp: nodes_plug s_def)
  have nl: "rp l = NULL \<longleftrightarrow> l = E" "rp r = NULL \<longleftrightarrow> r = E" using Z rp_eq_NULL by blast+
  have step: "insert_descend fuel n (less_key key) x st =
      (if t = E then insert_descend f n (less_key key) NULL (st\<lparr>rbheap := (rbheap st)(x := rb_child_update d n (rbheap st x), n := mkn Lft x NULL NULL)\<rparr>)
       else insert_descend f n (less_key key) (rp t) st)"
  proof (cases "key n < key x")
    case True
    with Z nl nn(1) n T.prems(9) show ?thesis by (simp add: f d_def t_def rb_upd_def)
  next
    case False
    with k(1) Z nl nn(1) n T.prems(9) show ?thesis by (simp add: f d_def t_def rb_upd_def)
  qed
  show ?case
  proof (cases "t = E")
    case True
    then obtain f' where "f = Suc f'" using T.prems(4) f tt by (cases f) auto
    moreover have "zrep st ((d, b, x, s) # c) E" using z True by simp
    note zrep_hang [OF this n(1,2) nn(2) n(4)]
    ultimately show ?thesis using step True sep nn
      by (intro exI [of _ "[(d, b, x, s)]"]) (simp add: tt nodes_plug)
  next
    case False
    have "\<exists>c' st'. insert_descend f n (less_key key) (rp t) st = Some (True, st') \<and> zrep st' (c' @ (d, b, x, s) # c) (T False E n E)
           \<and> plug c' E = t \<and> (\<forall>a\<in>set (lefts c'). key a < key n) \<and> (\<forall>a\<in>set (rights c'). key n < key a)
           \<and> (\<forall>a. a \<noteq> n \<longrightarrow> a \<notin> nodes (plug ((d, b, x, s) # c) t) \<longrightarrow> rbheap st' a = rbheap st a)"
    proof (cases "key n < key x")
      case True
      then show ?thesis using T.IH(1) [of "(d, b, x, s) # c" f] z S(1) k(2) T.prems(4,8) False f n tt
        by (simp add: t_def)
    next
      case c: False
      then show ?thesis using T.IH(2) [of "(d, b, x, s) # c" f] z S(1) k(2) T.prems(4,8) False f n tt
        by (simp add: t_def)
    qed
    then obtain c' st' where "insert_descend f n (less_key key) (rp t) st = Some (True, st')"
      "zrep st' ((c' @ [(d, b, x, s)]) @ c) (T False E n E)" "plug c' E = t"
      "\<forall>a\<in>set (lefts c'). key a < key n" "\<forall>a\<in>set (rights c'). key n < key a"
      "\<forall>a. a \<noteq> n \<longrightarrow> a \<notin> nodes (plug ((d, b, x, s) # c) t) \<longrightarrow> rbheap st' a = rbheap st a" by auto
    then show ?thesis using step False sep
      by (intro exI [of _ "c' @ [(d, b, x, s)]"] exI [of _ st']) (auto simp: plug_append tt)
  qed
qed simp

section \<open>Insertion\<close>

lemma insort_key_between:
  assumes "\<forall>a\<in>set xs. key a < key n" "\<forall>a\<in>set ys. key n < key a"
  shows "insort_key key n (xs @ ys) = xs @ n # ys"
proof -
  have "insort_key key n ys = n # ys" using assms(2) by (cases ys) (auto intro: less_imp_le)
  with assms(1) show ?thesis by (induction xs) (auto simp: not_le [symmetric])
qed

lemma sorted_between:
  assumes "sorted_wrt (less_key key) (xs @ ys)" "\<forall>a\<in>set xs. key a < key n" "\<forall>a\<in>set ys. key n < key a"
  shows "sorted_wrt (less_key key) (xs @ n # ys)"
  using assms by (auto simp: sorted_wrt_append)

text \<open>Writing a fresh node does not touch the tree.\<close>

lemma rb_rep_fresh: "rb_rep st t \<Longrightarrow> n \<notin> nodes t \<Longrightarrow> rb_rep (st\<lparr>rbheap := (rbheap st)(n := v)\<rparr>) t"
  by (simp add: rb_rep_def)

lemma rb_insert_found:
  assumes "rb_rep st t" "sorted_wrt (less_key key) (inorder t)" "n \<noteq> NULL" "n \<notin> nodes t" "ht t < fuel" "key n \<in> key ` nodes t"
  shows "rb_insert fuel n (less_key key) st = Some (- 1, st\<lparr>rbheap := (rbheap st)(n := mkn Lft 0 NULL NULL)\<rparr>)"
proof -
  let ?st = "st\<lparr>rbheap := (rbheap st)(n := mkn Lft 0 NULL NULL)\<rparr>"
  have "zrep ?st [] t" using rb_rep_fresh [OF assms(1,4)] by (simp add: zrep_plug)
  from insert_descend_found [OF this assms(2,6,5)]
  show ?thesis using assms(1,3) by (simp add: rb_insert_def rb_upd_def rb_rep_def mkn_def)
qed

lemma rb_insert_empty:
  assumes "rb_root st = NULL" "n \<noteq> NULL" "0 < fuel"
  shows "rb_insert fuel n cmp st = Some (0, st\<lparr>rbheap := (rbheap st)(n := mkn Lft (mkpc NULL True) NULL NULL), rb_root := n\<rparr>)"
proof -
  obtain f where "fuel = Suc f" using assms(3) by (cases fuel) auto
  with assms show ?thesis
    by (simp add: rb_insert_def rb_upd_def rb_insert_fix_def rb_red_parent_def rb_get_def rb_set_parent_color_def mkn_def)
qed

lemma rb_insert_new:
  assumes "rb_rep st t" "rbt t" "sorted_wrt (less_key key) (inorder t)" "n \<noteq> NULL" "aligned n" "n \<notin> nodes t" "ht t + 1 < fuel"
    "key n \<notin> key ` nodes t" "t \<noteq> E"
  shows "\<exists>st' t'. rb_insert fuel n (less_key key) st = Some (0, st') \<and> rb_rep st' t' \<and> rbt t'
           \<and> inorder t' = insort_key key n (inorder t) \<and> sorted_wrt (less_key key) (inorder t')
           \<and> (\<forall>a. a \<noteq> n \<longrightarrow> a \<notin> nodes t \<longrightarrow> rbheap st' a = rbheap st a)"
proof -
  let ?st = "st\<lparr>rbheap := (rbheap st)(n := mkn Lft 0 NULL NULL)\<rparr>"
  have z: "zrep ?st [] t" using rb_rep_fresh [OF assms(1,6)] by (simp add: zrep_plug)
  obtain c st2 where d: "insert_descend fuel n (less_key key) (rp t) ?st = Some (True, st2)" "zrep st2 c (T False E n E)"
    "plug c E = t" and sep: "\<forall>a\<in>set (lefts c). key a < key n" "\<forall>a\<in>set (rights c). key n < key a"
    and fr: "\<forall>a. a \<noteq> n \<longrightarrow> a \<notin> nodes t \<longrightarrow> rbheap st2 a = rbheap ?st a"
    using insert_descend_new [OF z assms(3,8) _ assms(9,4,5), of fuel] assms(6,7) by auto
  have rb: "norrc True c" "\<exists>m. bal m E \<and> balc m c" using assms(2) unfolding d(3) [symmetric] rbt_plug by auto
  have len: "length c < fuel" using ht_plug [of c E] d(3) assms(7) by simp
  from insert_fix_loop_correct [OF d(2) _ _ rb(1) len] obtain st' where
    f: "insert_fix_loop fuel n (cpar c) st2 = Some st'" "rb_rep st' (fixup c (T False E n E))"
    "\<forall>a. a \<notin> nodes (plug c (T False E n E)) \<longrightarrow> rbheap st' a = rbheap st2 a" by auto
  have io: "inorder (fixup c (T False E n E)) = lefts c @ n # rights c" by (simp add: inorder_fixup inorder_plug)
  have it: "inorder t = lefts c @ rights c" by (simp add: d(3) [symmetric] inorder_plug)
  have "rbt (fixup c (T False E n E))" using rbt_fixup [of "T False E n E" c 0] rb by auto
  moreover have "rb_insert fuel n (less_key key) st = Some (0, st')"
    using assms(1,4) d(1,2) f(1)
    by (simp add: rb_insert_def rb_upd_def rb_rep_def mkn_def zrep_def rb_insert_fix_def rb_red_parent_def rb_get_def)
  moreover have "\<forall>a. a \<noteq> n \<longrightarrow> a \<notin> nodes t \<longrightarrow> rbheap st' a = rbheap st a" using f(3) fr by (auto simp: nodes_plug d(3) [symmetric])
  ultimately show ?thesis using f(2) sep
    by (intro exI [of _ st'] exI [of _ "fixup c (T False E n E)"])
      (simp add: io it insort_key_between sorted_between [OF assms(3) [unfolded it]])
qed

text \<open>
  C15: In a red-black tree ordered by a key and with fuel for twice the logarithm of its size,
  insertion of a node that is not in the tree either finds its key taken, returns -1 and leaves the
  tree as it was, or returns 0 and leaves a red-black tree with the node at the place of its key.
  No node outside the tree is written.
\<close>

theorem rb_insert_correct:
  assumes "rb_tree key st xs" "n \<noteq> NULL" "aligned n" "n \<notin> set xs" "length xs + 1 < 2 ^ k" "2 * k \<le> fuel"
  shows "\<exists>st'. rb_insert fuel n (\<lambda>a b. key a < key b) st = Some (if key n \<in> key ` set xs then - 1 else 0, st')
           \<and> rb_tree key st' (if key n \<in> key ` set xs then xs else insort_key key n xs)
           \<and> (\<forall>a. a \<noteq> n \<longrightarrow> a \<notin> set xs \<longrightarrow> rbheap st' a = rbheap st a)"
proof -
  obtain t where t: "rb_rep st t" "rbt t" "inorder t = xs" "sorted_wrt (less_key key) xs" using assms(1) by (auto simp: rb_tree_def)
  have ht: "ht t + 1 < fuel" using rbt_ht [OF t(2)] assms(5,6) t(3) by fastforce
  consider "key n \<in> key ` set xs" | "t = E" | "key n \<notin> key ` set xs" "t \<noteq> E" by blast
  then show ?thesis
  proof cases
    case 1
    with rb_insert_found [OF t(1) _ assms(2), of key fuel] t ht assms(4) rb_rep_fresh [OF t(1), of n] show ?thesis
      by (auto simp: rb_tree_def)
  next
    case 2
    then have "xs = []" using t(3) by auto
    moreover have "rb_rep (st\<lparr>rbheap := (rbheap st)(n := mkn Lft (mkpc NULL True) NULL NULL), rb_root := n\<rparr>) (T True E n E)"
      using assms(2,3) by (simp add: rb_rep_def)
    moreover have "rbt (T True E n E)" by (auto simp: rbt_def intro: exI [of _ 1])
    ultimately show ?thesis using 2 t(1) ht assms(2) rb_insert_empty [of st n fuel "less_key key"]
      by (auto simp: rb_rep_def [of st] rb_tree_def intro!: exI [of _ "T True E n E"])
  next
    case 3
    with rb_insert_new [OF t(1,2) _ assms(2,3), of key fuel] t ht assms(4) show ?thesis
      by (fastforce simp: rb_tree_def)
  qed
qed

definition example_tree :: rbst where
  "example_tree = \<lparr>rbheap = (\<lambda>_. mkn Lft 0 NULL NULL)(16 := mkn Lft 1 8 NULL, 8 := mkn Lft 16 NULL NULL), rb_root = 16\<rparr>"

lemma example_tree_ok: "rb_tree (\<lambda>p. p) example_tree [8, 16]"
proof -
  have "rb_rep example_tree (T True (T False E 8 E) 16 E)"
    by (simp add: rb_rep_def example_tree_def aligned_def mkpc_def RB_BLACK_def)
  moreover have "rbt (T True (T False E 8 E) 16 E)" by (auto simp: rbt_def intro: exI [of _ 1])
  ultimately show ?thesis by (auto simp: rb_tree_def intro!: exI [of _ "T True (T False E 8 E) 16 E"])
qed

theorem rb_insert_correct_witness:
  "\<exists>st'. rb_insert 6 24 (\<lambda>a b. a < b) example_tree = Some (0, st') \<and> rb_tree (\<lambda>p. p) st' [8, 16, 24]"
  using rb_insert_correct [OF example_tree_ok, of 24 3 6] by (auto simp: aligned_def)

end
