(* ===== verification/Rbtree_Search.thy ===== *)
theory Rbtree_Search
  imports Rbtree_Insert
begin

text \<open>Lookup and the first node of a red-black tree.\<close>

lemma find_app: "find P (xs @ ys) = (case find P xs of None \<Rightarrow> find P ys | Some a \<Rightarrow> Some a)"
  by (induction xs) auto

lemma lookup_loop_correct:
  assumes "rep (rbheap st) par t" "sorted_wrt (less_key key) (inorder t)" "ht t < fuel"
  shows "rb_lookup_loop fuel n (less_key key) (rp t) st =
           Some (case find (\<lambda>a. key a = key n) (inorder t) of None \<Rightarrow> NULL | Some a \<Rightarrow> a)"
  using assms
proof (induction t arbitrary: par fuel)
  case E
  then show ?case by (cases fuel) auto
next
  case (T b l x r)
  then obtain f where f: "fuel = Suc f" by (cases fuel) auto
  have S: "\<forall>a\<in>nodes l. key a < key x" "\<forall>a\<in>nodes r. key x < key a" using T.prems(2) by (auto simp: sorted_wrt_append)
  have none: "key n \<notin> key ` set ys \<Longrightarrow> find (\<lambda>a. key a = key n) ys = None" for ys
    unfolding find_None_iff by (metis image_eqI)
  consider "key n < key x" | "key x < key n" | "key n = key x" by fastforce
  then show ?case
  proof cases
    case 1
    then have "key n \<notin> key ` nodes r" using S(2) by auto
    then have "find (\<lambda>a. key a = key n) (inorder (T b l x r)) = find (\<lambda>a. key a = key n) (inorder l)"
      using 1 none [of "inorder r"] by (auto simp: find_app split: option.splits)
    then show ?thesis using 1 T.IH(1) [of x f] T.prems f by (simp add: sorted_wrt_append)
  next
    case 2
    then have "key n \<notin> key ` nodes l" using S(1) by auto
    then have "find (\<lambda>a. key a = key n) (inorder (T b l x r)) = find (\<lambda>a. key a = key n) (inorder r)"
      using less_imp_neq [OF 2] none [of "inorder l"] by (simp add: find_app)
    then show ?thesis using 2 T.IH(2) [of x f] T.prems f less_not_sym [OF 2] by (simp add: sorted_wrt_append)
  next
    case 3
    then have "key n \<notin> key ` nodes l" using S(1) by auto
    then show ?thesis using 3 T.prems f none [of "inorder l"] by (simp add: find_app)
  qed
qed

lemma first_loop_correct:
  "rep (rbheap st) par t \<Longrightarrow> t \<noteq> E \<Longrightarrow> ht t \<le> fuel \<Longrightarrow> first_loop fuel (rp t) st = Some (hd (inorder t))"
proof (induction t arbitrary: par fuel)
  case (T b l x r)
  then obtain f where f: "fuel = Suc f" by (cases fuel) auto
  have "rp l = NULL \<longleftrightarrow> l = E" using T.prems(1) rp_eq_NULL by (metis rep.simps(2))
  then show ?case using T.IH(1) [of x f] T.prems f by (cases l) (auto simp: hd_append)
qed simp

text \<open>
  C17: With fuel for twice the logarithm of the number of nodes, a lookup ends with the node of the
  tree that has the key sought, or with NULL when there is none, and the first node is the one with
  the least key.
\<close>

theorem rb_search_correct:
  assumes "rb_tree key st xs" "length xs + 1 < 2 ^ k" "2 * k \<le> fuel"
  shows "rb_lookup fuel n (\<lambda>a b. key a < key b) st = Some (case find (\<lambda>a. key a = key n) xs of None \<Rightarrow> NULL | Some a \<Rightarrow> a)
         \<and> rb_first fuel st = Some (if xs = [] then NULL else hd xs)"
proof -
  obtain t where t: "rb_rep st t" "rbt t" "inorder t = xs" "sorted_wrt (less_key key) xs" using assms(1) by (auto simp: rb_tree_def)
  have ht: "ht t + 1 < fuel" using rbt_ht [OF t(2)] assms(2,3) t(3) by fastforce
  have "rb_lookup fuel n (less_key key) st = Some (case find (\<lambda>a. key a = key n) xs of None \<Rightarrow> NULL | Some a \<Rightarrow> a)"
    using lookup_loop_correct [of st NULL t key fuel n] t ht by (simp add: rb_lookup_def rb_rep_def)
  moreover have "rb_first fuel st = Some (if xs = [] then NULL else hd xs)"
    using first_loop_correct [of st NULL t fuel] t ht by (cases t) (auto simp: rb_first_def rb_rep_def)
  ultimately show ?thesis by simp
qed

theorem rb_search_correct_witness:
  "rb_lookup 4 16 (\<lambda>a b. a < b) example_tree = Some 16 \<and> rb_first 4 example_tree = Some 8"
  using rb_search_correct [OF example_tree_ok, of 2 4 16] by simp

end
