(* ===== verification/Rbtree_Erase.thy ===== *)
theory Rbtree_Erase
  imports Rbtree_Insert
begin

text \<open>
  Erasure from the red-black tree: the loop that moves the missing black node up is the functional
  repair of a path, which keeps the order and restores the invariants.
\<close>

section \<open>The functional repair\<close>

text \<open>
  \<open>esib k d bp p s c t\<close>: the tree \<open>t\<close> on side \<open>d\<close> of \<open>p\<close> lacks a black node and its sibling \<open>s\<close> is black;
  \<open>k\<close> is what the repair further up gives.
\<close>

definition esib :: "rtree \<Rightarrow> side \<Rightarrow> bool \<Rightarrow> ptr \<Rightarrow> rtree \<Rightarrow> frame list \<Rightarrow> rtree \<Rightarrow> rtree" where
  "esib k d bp p s c t =
     (let a = sub d s; z = sub (flip d) s
      in if \<not> blk z then plug c (TT d bp (TT d True t p a) (rp s) (paint True z))
         else if \<not> blk a then plug c (TT d bp (TT d True t p (sub d a)) (rp a) (TT d True (sub (flip d) a) (rp s) z))
         else if bp then k
         else plug c (TT d True t p (paint False s)))"

fun efix :: "frame list \<Rightarrow> rtree \<Rightarrow> rtree" where
  "efix [] t = t"
| "efix ((d, bp, p, s) # c) t =
     (if blk s then esib (efix c (TT d True t p (paint False s))) d bp p s c t
      else esib E d False p (sub d s) ((d, True, rp s, sub (flip d) s) # c) t)"

section \<open>The cases on the heap\<close>

lemma one_OR: "1 OR q = mkpc q True"
  by (simp add: mkpc_def RB_BLACK_def or.commute)

lemma when_parent_eq:
  assumes "rep (rbheap st) par t" "aligned par" "aligned q"
  shows "when_node (rp t) (rb_set_parent (rp t) q) st = Some (st\<lparr>rbheap := reparent t q (blk t) (rbheap st)\<rparr>)"
  using assms by (cases t) (auto simp: when_node_def rb_set_parent_def rb_upd_def reparent_def one_OR)

lemma black_or_null_eq:
  "rep (rbheap st) par t \<Longrightarrow> aligned par \<Longrightarrow> black_or_null (rp t) st = Some (blk t)"
  by (cases t) (auto simp: black_or_null_def rb_is_black_def rb_get_def)

lemma erase_rotate_eq:
  fixes st defines "h \<equiv> rbheap st"
  assumes p: "p \<noteq> NULL" "h p = mkn d (mkpc (cpar c) bp) x0 x1" "aligned p"
    and s: "q \<noteq> NULL" "h q = mkn d pcq (rp a) x2"
    and t: "z \<noteq> NULL" "h z = mkn d pcz z0 z1"
    and a: "rep h par a" "aligned par" and c: "repc h (rb_root st) p c"
    and D: "p \<noteq> q" "p \<noteq> z" "q \<noteq> z" "p \<notin> nodes a" "q \<notin> nodes a" "z \<notin> nodes a" "p \<notin> set (cnodes c)" "q \<notin> set (cnodes c)" "z \<notin> set (cnodes c)"
      "nodes a \<inter> set (cnodes c) = {}"
  shows "erase_rotate d p q z st =
           Some (st\<lparr>rbheap := ch_heap q c ((reparent a p (blk a) h)(z := mkn d (mkpc q True) z0 z1, q := mkn d (mkpc (cpar c) bp) p x2,
                                            p := mkn d (mkpc q True) x0 (rp a))),
                    rb_root := ch_root q c (rb_root st)\<rparr>)"
proof -
  note D = D D(1-3) [symmetric]
  define h1 where "h1 = h(p := mkn d (mkpc (cpar c) bp) x0 (rp a))"
  define h2 where "h2 = (reparent a p (blk a) h1)(q := mkn d pcq p x2, z := mkn d (mkpc q True) z0 z1)"
  have ra: "rep h1 par a" using a D by (simp add: h1_def)
  have rc: "repc h2 (rb_root st) p c" using c D by (simp add: h2_def h1_def)
  have eqs: "reparent a p (blk a) h1 = (reparent a p (blk a) h)(p := mkn d (mkpc (cpar c) bp) x0 (rp a))"
    using D rp_in_nodes [of a] by (auto simp: reparent_def h1_def fun_upd_twist)
  have "erase_rotate d p q z st = rb_rotate_set_parents p q RB_BLACK (st\<lparr>rbheap := h2\<rparr>)"
    using p s t D when_parent_eq [of "st\<lparr>rbheap := h1\<rparr>" par a p] ra a
    by (simp add: erase_rotate_def h_def [symmetric] h1_def h2_def rb_set_parent_color_def rb_upd_def)
  also have "\<dots> = Some (st\<lparr>rbheap := ch_heap q c (h2(q := mkn d (mkpc (cpar c) bp) p x2, p := mkn d (mkpc q True) x0 (rp a))),
                    rb_root := ch_root q c (rb_root st)\<rparr>)"
    using rb_rotate_set_parents_eq [of "st\<lparr>rbheap := h2\<rparr>" p c q bp RB_BLACK] rc p s D
    by (simp add: h2_def eqs)
  also have eqh: "h2(q := mkn d (mkpc (cpar c) bp) p x2, p := mkn d (mkpc q True) x0 (rp a)) =
    (reparent a p (blk a) h)(z := mkn d (mkpc q True) z0 z1, q := mkn d (mkpc (cpar c) bp) p x2, p := mkn d (mkpc q True) x0 (rp a))"
    using D by (auto simp: h2_def eqs fun_upd_twist)
  finally show ?thesis unfolding h_def .
qed

lemma erase_far_red:
  assumes z: "zrep st ((d, bp, p, TT d True a q y) # c) t" and y: "\<not> blk y"
  shows "\<exists>st'. erase_rotate d p q (rp y) st = Some st' \<and> zrep st' c (TT d bp (TT d True t p a) q (paint True y))
           \<and> (\<forall>v. v \<notin> nodes (plug ((d, bp, p, TT d True a q y) # c) t) \<longrightarrow> rbheap st' v = rbheap st v)"
proof -
  let ?h = "rbheap st"
  obtain b y0 w y1 where yt: "y = TT d b y0 w y1" using y TT_ex [of y d] by (metis blk.simps(1))
  note Z = z [unfolded zrep_def yt, simplified, unfolded Int_Un_distrib Int_Un_distrib2 Un_empty]
  have D: "nodes a \<inter> nodes t = {}" "nodes a \<inter> nodes y0 = {}" "nodes a \<inter> nodes y1 = {}" "q \<noteq> p" "p \<noteq> w" "w \<noteq> p" "q \<noteq> w" "w \<noteq> q" "w \<notin> nodes a" "w \<notin> nodes t"
    using Z by auto
  let ?h' = "(reparent a p (blk a) ?h)(w := mkn d (mkpc q True) (rp y0) (rp y1), q := mkn d (mkpc (cpar c) bp) p w,
                                            p := mkn d (mkpc q True) (rp t) (rp a))"
  have e: "erase_rotate d p q w st = Some (st\<lparr>rbheap := ch_heap q c ?h', rb_root := ch_root q c (rb_root st)\<rparr>)"
    by (rule erase_rotate_eq [where par = q and pcq = "mkpc p True" and pcz = "mkpc q b" and ?x1.0 = q]) (simp_all add: Z D)
  have rc: "repc ?h' (rb_root st) p c" by (simp add: Z)
  have ra: "rep (reparent a p (blk a) ?h) p a" by (rule rep_reparent_same [of _ q]) (simp_all add: Z)
  have "zrep (st\<lparr>rbheap := ch_heap q c ?h', rb_root := ch_root q c (rb_root st)\<rparr>) c (TT d bp (TT d True t p a) q (paint True y))"
    using repc_ch_heap [OF rc, of q] ra by (simp add: zrep_def yt Z D Int_Un_distrib Int_Un_distrib2)
  with e show ?thesis by (simp add: yt nodes_plug)
qed

text \<open>The part of a round of \<open>__rb_erase_fix\<close> after its sibling is black.\<close>

definition erase_near :: "side \<Rightarrow> ptr \<Rightarrow> ptr \<Rightarrow> ptr \<Rightarrow> rbst \<Rightarrow> rbst option" where
  "erase_near d parent sibling tmp2 st =
     do { tmp1 \<leftarrow> get_child (flip d) tmp2 st;
          st \<leftarrow> set_child d sibling tmp1 st;
          st \<leftarrow> when_node tmp1 (rb_set_parent_color tmp1 sibling RB_BLACK) st;
          st \<leftarrow> set_child (flip d) tmp2 sibling st;
          st \<leftarrow> set_child (flip d) parent tmp2 st;
          erase_rotate d parent tmp2 sibling st }"

lemma erase_near_red:
  assumes z: "zrep st ((d, bp, p, TT d True (TT d False a1 w a2) q y) # c) t" and b: "blk a2"
  shows "\<exists>st'. erase_near d p q w st = Some st' \<and> zrep st' c (TT d bp (TT d True t p a1) w (TT d True a2 q y))
           \<and> (\<forall>v. v \<notin> nodes (plug ((d, bp, p, TT d True (TT d False a1 w a2) q y) # c) t) \<longrightarrow> rbheap st' v = rbheap st v)"
proof -
  let ?h = "rbheap st"
  note Z = z [unfolded zrep_def, simplified, unfolded Int_Un_distrib Int_Un_distrib2 Un_empty]
  have D: "nodes a2 \<inter> nodes t = {}" "nodes a1 \<inter> nodes t = {}" "nodes a2 \<inter> nodes a1 = {}" "q \<noteq> p" "p \<noteq> w" "w \<noteq> p" "q \<noteq> w" "w \<noteq> q" "w \<notin> nodes t" "w \<notin> nodes y"
    using Z by auto
  define h1 where "h1 = ?h(q := mkn d (mkpc p True) (rp a2) (rp y))"
  define h2 where "h2 = (reparent a2 q True h1)(w := mkn d q (rp a1) q, p := mkn d (mkpc (cpar c) bp) (rp t) w)"
  have r2: "rep h1 w a2" by (simp add: h1_def Z D)
  have s1: "erase_near d p q w st = erase_rotate d p w q (st\<lparr>rbheap := h2\<rparr>)"
    using when_node_eq [of "st\<lparr>rbheap := h1\<rparr>" w a2 q] r2
    by (simp add: erase_near_def h1_def h2_def Z D)
  let ?h' = "(reparent a1 p (blk a1) h2)(q := mkn d (mkpc w True) (rp a2) (rp y), w := mkn d (mkpc (cpar c) bp) p q,
                                            p := mkn d (mkpc w True) (rp t) (rp a1))"
  have rc: "repc h2 (rb_root st) p c" by (simp add: h2_def h1_def Z D)
  have e: "erase_rotate d p w q (st\<lparr>rbheap := h2\<rparr>) = Some (st\<lparr>rbheap := ch_heap w c ?h', rb_root := ch_root w c (rb_root st)\<rparr>)"
    using erase_rotate_eq [where par = w and pcq = q and pcz = "mkpc p True" and ?x1.0 = w and c = c and bp = bp and a = a1 and p = p
        and d = d and q = w and z = q and st = "st\<lparr>rbheap := h2\<rparr>" and ?x0.0 = "rp t" and ?x2.0 = q and ?z0.0 = "rp a2" and ?z1.0 = "rp y"] rc
    by (simp add: h2_def h1_def Z D)
  have rc': "repc ?h' (rb_root st) p c" using rc by (simp add: Z D)
  have r2': "rep h2 q a2" using rep_reparent [OF r2, of q True] b by (simp add: h2_def Z D)
  have r1': "rep (reparent a1 p (blk a1) h2) p a1" by (rule rep_reparent_same [of _ w]) (simp_all add: h2_def h1_def Z D)
  have "zrep (st\<lparr>rbheap := ch_heap w c ?h', rb_root := ch_root w c (rb_root st)\<rparr>) c (TT d bp (TT d True t p a1) w (TT d True a2 q y))"
    using repc_ch_heap [OF rc', of w] r1' r2' by (simp add: zrep_def Z D Int_Un_distrib Int_Un_distrib2, simp add: h2_def h1_def Z D)
  with e s1 show ?thesis by (simp add: nodes_plug h2_def h1_def)
qed

lemma erase_recolour:
  assumes z: "zrep st ((d, bp, p, TT d True a q y) # c) t"
  obtains st1 where "rb_set_parent_color q p RB_RED st = Some st1" "zrep st1 ((d, bp, p, TT d False a q y) # c) t"
    "\<And>v. v \<noteq> q \<Longrightarrow> rbheap st1 v = rbheap st v"
proof
  note Z = z [unfolded zrep_def, simplified, unfolded Int_Un_distrib Int_Un_distrib2 Un_empty]
  let ?h = "(rbheap st)(q := mkn d p (rp a) (rp y))"
  have D: "q \<noteq> p" "q \<notin> nodes t" using Z by auto
  show "rb_set_parent_color q p RB_RED st = Some (st\<lparr>rbheap := ?h\<rparr>)" by (simp add: rb_set_parent_color_def rb_upd_def Z)
  show "zrep (st\<lparr>rbheap := ?h\<rparr>) ((d, bp, p, TT d False a q y) # c) t" by (simp add: zrep_def Z D Int_Un_distrib Int_Un_distrib2)
qed simp

lemma erase_blacken:
  assumes z: "zrep st ((d, False, p, s) # c) t"
  obtains st1 where "rb_set_black p st = Some st1" "zrep st1 ((d, True, p, s) # c) t" "\<And>v. v \<noteq> p \<Longrightarrow> rbheap st1 v = rbheap st v"
proof
  note Z = z [unfolded zrep_def, simplified, unfolded Int_Un_distrib Int_Un_distrib2 Un_empty]
  let ?h = "(rbheap st)(p := mkn d (mkpc (cpar c) True) (rp t) (rp s))"
  show "rb_set_black p st = Some (st\<lparr>rbheap := ?h\<rparr>)" by (simp add: rb_set_black_def rb_upd_def Z)
  show "zrep (st\<lparr>rbheap := ?h\<rparr>) ((d, True, p, s) # c) t" by (simp add: zrep_def Z Int_Un_distrib Int_Un_distrib2)
qed simp

lemma erase_red_sibling:
  assumes z: "zrep st ((d, True, p, TT d False a q y) # c) t" and a: "a \<noteq> E" "blk a"
  shows "\<exists>st'. do { st \<leftarrow> set_child (flip d) p (rp a) st;
                   st \<leftarrow> rb_set_parent_color (rp a) p RB_BLACK st;
                   st \<leftarrow> set_child d q p st;
                   rb_rotate_set_parents p q RB_RED st } = Some st'
           \<and> zrep st' ((d, False, p, a) # (d, True, q, y) # c) t
           \<and> (\<forall>v. v \<notin> nodes (plug ((d, True, p, TT d False a q y) # c) t) \<longrightarrow> rbheap st' v = rbheap st v)"
proof -
  obtain b a1 w a2 where at: "a = TT d b a1 w a2" and b: b using a TT_ex [of a d] by (metis TT_simps(2))
  note Z = z [unfolded zrep_def at, simplified, unfolded Int_Un_distrib Int_Un_distrib2 Un_empty]
  have D: "q \<noteq> p" "p \<noteq> w" "w \<noteq> p" "q \<noteq> w" "w \<noteq> q" "w \<notin> nodes t" "w \<notin> nodes y" "w \<notin> nodes a1" "w \<notin> nodes a2"
    "nodes a1 \<inter> nodes t = {}" "nodes a2 \<inter> nodes t = {}" "nodes y \<inter> nodes t = {}" using Z by auto
  define h1 where "h1 = (rbheap st)(p := mkn d (mkpc (cpar c) True) (rp t) w, w := mkn d (mkpc p True) (rp a1) (rp a2), q := mkn d p p (rp y))"
  let ?h' = "h1(q := mkn d (mkpc (cpar c) True) p (rp y), p := mkn d q (rp t) w)"
  have rc: "repc h1 (rb_root st) p c" by (simp add: h1_def Z)
  have rc': "repc ?h' (rb_root st) p c" by (simp add: h1_def Z)
  have "do { st \<leftarrow> set_child (flip d) p (rp a) st;
                   st \<leftarrow> rb_set_parent_color (rp a) p RB_BLACK st;
                   st \<leftarrow> set_child d q p st;
                   rb_rotate_set_parents p q RB_RED st } = rb_rotate_set_parents p q RB_RED (st\<lparr>rbheap := h1\<rparr>)"
    by (simp add: at rb_set_parent_color_def rb_upd_def Z D h1_def)
  also have "\<dots> = Some (st\<lparr>rbheap := ch_heap q c ?h', rb_root := ch_root q c (rb_root st)\<rparr>)"
    using rb_rotate_set_parents_eq [of "st\<lparr>rbheap := h1\<rparr>" p c q True RB_RED] rc by (simp add: h1_def Z D)
  finally have "do { st \<leftarrow> set_child (flip d) p (rp a) st;
                   st \<leftarrow> rb_set_parent_color (rp a) p RB_BLACK st;
                   st \<leftarrow> set_child d q p st;
                   rb_rotate_set_parents p q RB_RED st } = \<dots>" .
  moreover have "zrep (st\<lparr>rbheap := ch_heap q c ?h', rb_root := ch_root q c (rb_root st)\<rparr>) ((d, False, p, a) # (d, True, q, y) # c) t"
    using repc_ch_heap [OF rc', of q] b by (simp add: zrep_def at Z D Int_Un_distrib Int_Un_distrib2, simp add: h1_def Z D)
  ultimately show ?thesis by (simp add: nodes_plug at h1_def)
qed

section \<open>The loop\<close>

definition erase_first :: "side \<Rightarrow> ptr \<Rightarrow> ptr \<Rightarrow> ptr \<Rightarrow> rbst \<Rightarrow> rbst option" where
  "erase_first d p q tmp1 st =
     do { st \<leftarrow> set_child (flip d) p tmp1 st;
          st \<leftarrow> rb_set_parent_color tmp1 p RB_BLACK st;
          st \<leftarrow> set_child d q p st;
          rb_rotate_set_parents p q RB_RED st }"

definition erase_tail :: "nat \<Rightarrow> side \<Rightarrow> ptr \<Rightarrow> ptr \<Rightarrow> rbst \<Rightarrow> rbst option" where
  "erase_tail fuel d parent sibling st =
     do { tmp1 \<leftarrow> get_child (flip d) sibling st;
          b1 \<leftarrow> black_or_null tmp1 st;
          if b1
          then do { tmp2 \<leftarrow> get_child d sibling st;
                    b2 \<leftarrow> black_or_null tmp2 st;
                    if b2
                    then do { st \<leftarrow> rb_set_parent_color sibling parent RB_RED st;
                              pred \<leftarrow> rb_is_red parent st;
                              if pred then rb_set_black parent st
                              else do { up \<leftarrow> rb_parent parent st;
                                        if up \<noteq> NULL then erase_fix_loop fuel parent up st else Some st } }
                    else erase_near d parent sibling tmp2 st }
          else erase_rotate d parent sibling tmp1 st }"

lemma erase_fix_loop_Suc:
  "erase_fix_loop (Suc fuel) node parent st =
     do { right \<leftarrow> get_child Rgt parent st;
          let d = (if node \<noteq> right then Lft else Rgt);
          sibling \<leftarrow> get_child (flip d) parent st;
          red \<leftarrow> rb_is_red sibling st;
          if red then do { tmp1 \<leftarrow> get_child d sibling st;
                           st \<leftarrow> erase_first d parent sibling tmp1 st;
                           erase_tail fuel d parent tmp1 st }
          else erase_tail fuel d parent sibling st }"
  unfolding erase_fix_loop.simps erase_tail_def erase_near_def erase_first_def Let_def
  by (auto simp: Option.bind_assoc intro!: Option.bind_cong)

lemma frame_of: "norrc b ((d, bp, p, s) # c) \<Longrightarrow> norr s" "balc n ((d, bp, p, s) # c) \<Longrightarrow> bal n s"
  by auto

text \<open>The round with a black sibling, given what the rounds above it do.\<close>

lemma erase_tail_correct:
  assumes z: "zrep st ((d, bp, p, s) # c) t" and s: "s \<noteq> E" "blk s" "norr s"
    and up: "\<And>st1. bp \<Longrightarrow> zrep st1 c (TT d True t p (paint False s)) \<Longrightarrow> c \<noteq> [] \<Longrightarrow>
       \<exists>st'. erase_fix_loop fuel p (cpar c) st1 = Some st' \<and> rb_rep st' k \<and> (\<forall>v. v \<notin> nodes (plug ((d, bp, p, s) # c) t) \<longrightarrow> rbheap st' v = rbheap st1 v)"
    and top: "bp \<Longrightarrow> c = [] \<Longrightarrow> k = TT d True t p (paint False s)"
  shows "\<exists>st'. erase_tail fuel d p (rp s) st = Some st' \<and> rb_rep st' (esib k d bp p s c t)
           \<and> (\<forall>v. v \<notin> nodes (plug ((d, bp, p, s) # c) t) \<longrightarrow> rbheap st' v = rbheap st v)"
proof -
  obtain a q y where st: "s = TT d True a q y" using s(1,2) TT_ex [of s d] by (metis (full_types) TT_simps(2))
  note Z = z [unfolded zrep_def st, simplified]
  have bn: "black_or_null (rp y) st = Some (blk y)" "black_or_null (rp a) st = Some (blk a)"
    by (rule black_or_null_eq [of _ q]; simp add: Z)+
  have ch: "get_child (flip d) q st = Some (rp y)" "get_child d q st = Some (rp a)" using Z by simp_all
  consider "\<not> blk y" | "blk y" "\<not> blk a" | "blk y" "blk a" "\<not> bp" | "blk y" "blk a" bp by blast
  then show ?thesis
  proof cases
    case 1
    with erase_far_red [OF z [unfolded st]] bn ch show ?thesis by (auto simp: erase_tail_def st esib_def Let_def zrep_plug)
  next
    case 2
    then obtain a1 w a2 where at: "a = TT d False a1 w a2" using TT_ex [of a d] by (metis (full_types) TT_simps(2) blk.simps(1))
    have "blk a2" using s(3) by (simp add: st at)
    from erase_near_red [OF z [unfolded st at] this] 2 bn ch show ?thesis
      by (auto simp: erase_tail_def st at esib_def Let_def zrep_plug)
  next
    case 3
    obtain st1 where 1: "rb_set_parent_color q p RB_RED st = Some st1" "zrep st1 ((d, bp, p, TT d False a q y) # c) t"
      "\<And>v. v \<noteq> q \<Longrightarrow> rbheap st1 v = rbheap st v" using erase_recolour [OF z [unfolded st]] by metis
    have red: "rb_is_red p st1 = Some True" using 1(2) 3 repc_aligned [of "rbheap st1"] by (auto simp: zrep_def rb_is_red_def rb_get_def)
    obtain st2 where 2: "rb_set_black p st1 = Some st2" "zrep st2 ((d, True, p, TT d False a q y) # c) t"
      "\<And>v. v \<noteq> p \<Longrightarrow> rbheap st2 v = rbheap st1 v" using erase_blacken [of st1 d p "TT d False a q y" c t] 1(2) 3 by auto
    from 2(2) have "rb_rep st2 (plug c (TT d True t p (TT d False a q y)))" by (simp add: zrep_plug)
    with 1 2 3 bn ch red show ?thesis by (auto simp: erase_tail_def st esib_def Let_def nodes_plug)
  next
    case 4
    obtain st1 where 1: "rb_set_parent_color q p RB_RED st = Some st1" "zrep st1 ((d, bp, p, TT d False a q y) # c) t"
      "\<And>v. v \<noteq> q \<Longrightarrow> rbheap st1 v = rbheap st v" using erase_recolour [OF z [unfolded st]] by metis
    note Z1 = 1(2) [unfolded zrep_def, simplified]
    have red: "rb_is_red p st1 = Some False" "rb_parent p st1 = Some (cpar c)"
      using Z1 4 repc_aligned [of "rbheap st1" "rb_root st1" p c] by (auto simp: rb_parent_def rb_is_red_def rb_get_def)
    have c: "cpar c = NULL \<longleftrightarrow> c = []" using Z1 cpar_NULL [of "rbheap st1" "rb_root st1" p c] by simp
    have z1: "zrep st1 c (TT d True t p (paint False s))" using 1(2) 4 by (simp add: zrep_plug st)
    show ?thesis
    proof (cases "c = []")
      case True
      then show ?thesis using 1 4 bn ch red z1 top by (auto simp: erase_tail_def st esib_def Let_def nodes_plug zrep_plug)
    next
      case False
      with up [OF 4(3) z1] 1 4 bn ch red c show ?thesis by (auto simp: erase_tail_def st esib_def Let_def nodes_plug)
    qed
  qed
qed

lemma erase_fix_loop_correct:
  assumes "zrep st c t" "c \<noteq> []" "norrc True c" "balc (Suc n) c" "length c < fuel"
  shows "\<exists>st'. erase_fix_loop fuel (rp t) (cpar c) st = Some st' \<and> rb_rep st' (efix c t)
           \<and> (\<forall>v. v \<notin> nodes (plug c t) \<longrightarrow> rbheap st' v = rbheap st v)"
  using assms
proof (induction c t arbitrary: fuel st n rule: efix.induct)
  case (2 d bp p s c t)
  then obtain f where f: "fuel = Suc f" by (cases fuel) auto
  note Z = 2(2) [unfolded zrep_def, simplified]
  have ns: "norr s" "s \<noteq> E" using 2(4,5) by auto
  have ne: "rp t \<noteq> rp s" "rp s \<noteq> NULL" using Z ns(2) rp_in_nodes [of t] rp_in_nodes [of s] rp_eq_NULL [of "rbheap st" p s] by (cases "t = E"; fastforce)+
  have red: "rb_is_red (rp s) st = Some (\<not> blk s)" using Z ns(2) by (cases s) (auto simp: rb_is_red_def rb_get_def)
  have step: "erase_fix_loop fuel (rp t) p st =
      (if \<not> blk s then do { tmp1 \<leftarrow> get_child d (rp s) st; st \<leftarrow> erase_first d p (rp s) tmp1 st; erase_tail f d p tmp1 st }
       else erase_tail f d p (rp s) st)"
    using Z red ne by (cases d) (simp_all add: f erase_fix_loop_Suc del: erase_fix_loop.simps)
  show ?case
  proof (cases "blk s")
    case True
    have "\<exists>st'. erase_tail f d p (rp s) st = Some st' \<and> rb_rep st' (esib (efix c (TT d True t p (paint False s))) d bp p s c t)
           \<and> (\<forall>v. v \<notin> nodes (plug ((d, bp, p, s) # c) t) \<longrightarrow> rbheap st' v = rbheap st v)"
    proof (rule erase_tail_correct [OF 2(2) ns(2) True ns(1)])
      fix st1 assume bp "zrep st1 c (TT d True t p (paint False s))" "c \<noteq> []"
      with 2(1) [OF True, of st1 "Suc n" f] 2(4-6) f
      show "\<exists>st'. erase_fix_loop f p (cpar c) st1 = Some st' \<and> rb_rep st' (efix c (TT d True t p (paint False s)))
              \<and> (\<forall>v. v \<notin> nodes (plug ((d, bp, p, s) # c) t) \<longrightarrow> rbheap st' v = rbheap st1 v)"
        by (auto simp: nodes_plug)
    qed simp
    with step True show ?thesis by simp
  next
    case False
    then obtain a q y where s: "s = TT d False a q y" using TT_ex [of s d] ns(2) by (metis (full_types) TT_simps(2))
    have bp: bp using 2(4) False by simp
    have a: "a \<noteq> E" "blk a" "norr a" using 2(4,5) s bp by auto
    obtain st1 where 1: "erase_first d p q (rp a) st = Some st1" "zrep st1 ((d, False, p, a) # (d, True, q, y) # c) t"
      "\<forall>v. v \<notin> nodes (plug ((d, True, p, TT d False a q y) # c) t) \<longrightarrow> rbheap st1 v = rbheap st v"
      using erase_red_sibling [of st d p a q y c t] 2(2) a(1,2) s bp by (auto simp: erase_first_def)
    from erase_tail_correct [OF 1(2) a, of f E] obtain st' where
      "erase_tail f d p (rp a) st1 = Some st'" "rb_rep st' (esib E d False p a ((d, True, q, y) # c) t)"
      "\<forall>v. v \<notin> nodes (plug ((d, False, p, a) # (d, True, q, y) # c) t) \<longrightarrow> rbheap st' v = rbheap st1 v" by auto
    moreover have "get_child d (rp s) st = Some (rp a)" using Z s by simp
    ultimately show ?thesis using step False 1 s bp by (auto simp: nodes_plug)
  qed
qed simp

end
