(* ===== verification/Rbtree_Splice.thy ===== *)
theory Rbtree_Splice
  imports Rbtree_Erase
begin

text \<open>
  Erasure from the red-black tree, continued: taking the node out, putting its successor in its
  place, and the theorem on \<open>_rb_erase\<close>.
\<close>

section \<open>The repair restores the invariants\<close>

lemma bal_paint_red: "bal (Suc n) t \<Longrightarrow> blk t \<Longrightarrow> bal n (paint False t)"
  by (cases t) auto

lemma norr_paint_red: "norr t \<Longrightarrow> blk (sub Lft t) \<Longrightarrow> blk (sub Rgt t) \<Longrightarrow> norr (paint False t)"
  by (cases t) (auto simp: sub_def)

lemma sibling_cases:
  assumes "bal (Suc n) s" "blk s" "norr s"
  obtains a q y where "s = TT d True a q y" "bal n a" "bal n y" "norr a" "norr y"
proof -
  have "s \<noteq> E" using assms(1) by auto
  then obtain b a q y where "s = TT d b a q y" using TT_ex by blast
  with assms that show ?thesis by simp
qed

lemma rbt_esib:
  assumes s: "bal (Suc n) s" "blk s" "norr s" and t: "bal n t" "blk t" "norr t"
    and c: "balc (if bp then Suc (Suc n) else Suc n) c" "norrc bp c"
    and k: "bp \<Longrightarrow> norr (paint False s) \<Longrightarrow> rbt k"
  shows "rbt (esib k d bp p s c t)"
proof -
  obtain a q y where st: "s = TT d True a q y" "bal n a" "bal n y" "norr a" "norr y" using sibling_cases [OF s] by metis
  consider "\<not> blk y" | "blk y" "\<not> blk a" | "blk y" "blk a" bp | "blk y" "blk a" "\<not> bp" by blast
  then show ?thesis
  proof cases
    case 1
    then have "bal (Suc n) (paint True y)" using st bal_paint by blast
    then have "rbt (plug c (TT d bp (TT d True t p a) q (paint True y)))" unfolding rbt_plug
      using t st c by (cases bp) (auto intro!: exI [of _ "if bp then Suc (Suc n) else Suc n"])
    with 1 show ?thesis by (simp add: esib_def st)
  next
    case 2
    then obtain a1 w a2 where at: "a = TT d False a1 w a2" using TT_ex [of a d] by (metis (full_types) TT_simps(2) blk.simps(1))
    have "rbt (plug c (TT d bp (TT d True t p a1) w (TT d True a2 q y)))" unfolding rbt_plug
      using t st at c by (cases bp) (auto intro!: exI [of _ "if bp then Suc (Suc n) else Suc n"])
    with 2 show ?thesis by (simp add: esib_def st at)
  next
    case 3
    with k st show ?thesis by (simp add: esib_def)
  next
    case 4
    have "rbt (plug c (TT d True t p (TT d False a q y)))" unfolding rbt_plug
      using t st 4 c norrc_mono [of bp c] by (auto intro!: exI [of _ "Suc n"])
    with 4 show ?thesis by (simp add: esib_def st)
  qed
qed

lemma rbt_efix:
  assumes "bal n t" "blk t" "norr t" "balc (Suc n) c" "norrc True c"
  shows "rbt (efix c t)"
  using assms
proof (induction c t arbitrary: n rule: efix.induct)
  case (1 t)
  then show ?case by (auto simp: rbt_def)
next
  case (2 d bp p s c t)
  show ?case
  proof (cases "blk s")
    case True
    have "rbt (esib (efix c (TT d True t p (paint False s))) d bp p s c t)"
    proof (rule rbt_esib [of n])
      assume "bp" "norr (paint False s)"
      then show "rbt (efix c (TT d True t p (paint False s)))"
        using 2(1) [OF True, of "Suc n"] 2(2-6) bal_paint_red [of n s] True by auto
    qed (use 2 True in auto)
    then show ?thesis using True by simp
  next
    case False
    then obtain a q y where s: "s = TT d False a q y" using TT_ex [of s d] by (metis (full_types) TT_simps(2) blk.simps(1))
    have "rbt (esib E d False p a ((d, True, q, y) # c) t)"
      by (rule rbt_esib [of n]) (use 2 s in auto)
    then show ?thesis using False s by simp
  qed
qed

lemma inorder_esib:
  assumes s: "bal (Suc n) s" "blk s" "norr s" and k: "bp \<Longrightarrow> inorder k = inorder (plug ((d, bp, p, s) # c) t)"
  shows "inorder (esib k d bp p s c t) = inorder (plug ((d, bp, p, s) # c) t)"
proof -
  obtain a q y where st: "s = TT d True a q y" using sibling_cases [OF s] by metis
  have "\<exists>a1 w a2. a = TT d False a1 w a2" if "\<not> blk a" using that TT_ex [of a d] by (metis (full_types) TT_simps(2) blk.simps(1))
  with k st show ?thesis by (cases d) (auto simp: esib_def Let_def inorder_plug sub_def)
qed

lemma inorder_efix:
  assumes "balc (Suc n) c" "norrc True c" shows "inorder (efix c t) = inorder (plug c t)"
  using assms
proof (induction c t arbitrary: n rule: efix.induct)
  case (2 d bp p s c t)
  show ?case
  proof (cases "blk s")
    case True
    have "inorder (esib (efix c (TT d True t p (paint False s))) d bp p s c t) = inorder (plug ((d, bp, p, s) # c) t)"
      by (rule inorder_esib [of n]) (use 2 True in \<open>auto simp: inorder_plug inorder_TT_cong [of t t "paint False s" s d True p bp]\<close>)
    then show ?thesis using True by simp
  next
    case False
    then obtain a q y where s: "s = TT d False a q y" using TT_ex [of s d] by (metis (full_types) TT_simps(2) blk.simps(1))
    have "inorder (esib E d False p a ((d, True, q, y) # c) t) = inorder (plug ((d, False, p, a) # (d, True, q, y) # c) t)"
      by (rule inorder_esib [of n]) (use 2 s in auto)
    then show ?thesis using False s by (cases d) (auto simp: inorder_plug sub_def)
  qed
qed simp

section \<open>A segment of a path\<close>

fun repp :: "(ptr \<Rightarrow> rb_node) \<Rightarrow> ptr \<Rightarrow> ptr \<Rightarrow> ptr \<Rightarrow> frame list \<Rightarrow> bool" where
  "repp h par q p [] \<longleftrightarrow> q = p"
| "repp h par q p ((d, b, x, s) # c) \<longleftrightarrow>
     x \<noteq> NULL \<and> aligned x \<and> h x = mkn d (mkpc (if c = [] then par else cpar c) b) p (rp s) \<and> rep h x s \<and> repp h par q x c"

lemma cpar_append: "cpar (c @ c') = (if c = [] then cpar c' else cpar c)"
  by (cases c rule: cpar.cases) auto

lemma cnodes_append [simp]: "cnodes (c @ c') = cnodes c @ cnodes c'"
  by (induction c rule: cnodes.induct) auto

lemma repc_append: "repc h root p (c @ c') \<longleftrightarrow> (\<exists>q. repp h (cpar c') q p c \<and> repc h root q c')"
  by (induction c arbitrary: p rule: cnodes.induct) (auto simp: cpar_append)

lemma repp_frame [simp]: "a \<notin> set (cnodes c) \<Longrightarrow> repp (h(a := v)) par q p c = repp h par q p c"
  by (induction c arbitrary: p rule: cnodes.induct) auto

lemma repp_top: "repp h par q p c \<Longrightarrow> c \<noteq> [] \<Longrightarrow> q \<in> set (cnodes c) \<and> q \<noteq> NULL \<and> aligned q"
  by (induction c arbitrary: p rule: cnodes.induct) (fastforce split: if_splits)+

lemma repp_reparent_frame [simp]: "nodes t \<inter> set (cnodes c) = {} \<Longrightarrow> repp (reparent t x b h) par q p c = repp h par q p c"
  using rp_in_nodes [of t] by (cases "t = E") (simp_all add: reparent_def disjoint_iff)

lemma repp_ch_heap [simp]: "set (cnodes c) \<inter> set (cnodes c') = {} \<Longrightarrow> repp (ch_heap x c' h) par q p c = repp h par q p c"
  by (cases c' rule: cpar.cases) (auto simp: ch_heap_def disjoint_iff intro!: repp_frame)

lemma repp_set_child:
  assumes "repp h par q p ((d, b, x, s) # c)" "distinct (cnodes ((d, b, x, s) # c))"
  shows "repp (h(x := rb_child_update d p' (h x))) par q p' ((d, b, x, s) # c)"
  using assms by simp

lemma repp_set_parent:
  assumes "repp h par q p c" "c \<noteq> []" "distinct (cnodes c)" "aligned par"
  shows "repp (h(q := (h q)\<lparr>rb_pc := pc_color (rb_pc (h q)) OR par'\<rparr>)) par' q p c"
  using assms
proof (induction c arbitrary: p rule: cnodes.induct)
  case (2 d b x s c)
  show ?case
  proof (cases "c = []")
    case True
    then have "q = x" "h x = mkn d (mkpc par b) p (rp s)" using 2(2) by simp_all
    moreover have "(h x)\<lparr>rb_pc := pc_color (rb_pc (h x)) OR par'\<rparr> = mkn d (mkpc par' b) p (rp s)"
      using calculation(2) 2(5) by (simp add: one_OR)
    ultimately show ?thesis using True 2(2-4) unfolding \<open>q = x\<close> repp.simps by simp
  next
    case False
    then have "q \<in> set (cnodes c)" using 2(2) repp_top [of h par q x c] by simp
    then have "q \<noteq> x" "q \<notin> nodes s" using 2(4) by auto
    then have "(h(q := v)) x = h x" "rep (h(q := v)) x s = rep h x s" for v by simp_all
    with False 2 show ?thesis by (simp del: fun_upd_apply)
  qed
qed simp

section \<open>Taking a node out\<close>

lemma all_Lft_leftmost:
  assumes "rep (rbheap st) par t" "t \<noteq> E" "ht t \<le> fuel"
  shows "\<exists>c b s r. t = plug c (T b E s r) \<and> (\<forall>f\<in>set c. fst f = Lft)
           \<and> successor_loop fuel par0 (rp t) st = Some (if c = [] then par0 else cpar c, s)"
  using assms
proof (induction t arbitrary: par par0 fuel)
  case (T b l x r)
  then obtain f where f: "fuel = Suc f" by (cases fuel) auto
  have nl: "rp l = NULL \<longleftrightarrow> l = E" using T.prems(1) rp_eq_NULL by (metis rep.simps(2))
  show ?case
  proof (cases "l = E")
    case True
    then show ?thesis using T.prems f by (intro exI [of _ "[]"]) simp
  next
    case False
    have "rep (rbheap st) x l" "ht l \<le> f" using T.prems f by auto
    from T.IH(1) [OF this(1) False this(2), of x] obtain c b' s r' where
      "l = plug c (T b' E s r')" "\<forall>f\<in>set c. fst f = Lft" "successor_loop f x (rp l) st = Some (if c = [] then x else cpar c, s)" by blast
    then show ?thesis using False T.prems f nl
      by (intro exI [of _ "c @ [(Lft, b, x, r)]"] exI [of _ b'] exI [of _ s] exI [of _ r']) (auto simp: plug_append cpar_append)
  qed
qed simp

definition erase_splice :: "ptr \<Rightarrow> ptr \<Rightarrow> ptr \<Rightarrow> ptr \<Rightarrow> rbst \<Rightarrow> (ptr \<times> rbst) option" where
  "erase_splice node parent successor child2 st =
     do { tmp \<leftarrow> get_child Lft node st;
          st \<leftarrow> set_child Lft successor tmp st;
          st \<leftarrow> rb_set_parent tmp successor st;
          n \<leftarrow> rb_get node st;
          st \<leftarrow> rb_change_child node successor (pc_parent (rb_pc n)) st;
          if child2 \<noteq> NULL
          then do { st \<leftarrow> rb_upd successor (\<lambda>x. x\<lparr>rb_pc := rb_pc n\<rparr>) st;
                    st \<leftarrow> rb_set_parent_color child2 parent RB_BLACK st;
                    Some (NULL, st) }
          else do { sn \<leftarrow> rb_get successor st;
                    st \<leftarrow> rb_upd successor (\<lambda>x. x\<lparr>rb_pc := rb_pc n\<rparr>) st;
                    Some (if pc_color (rb_pc sn) \<noteq> 0 then parent else NULL, st) } }"

text \<open>
  The successor \<open>s\<close> has been cut out of the path below the right child of the node and has taken that
  child over; it now takes the place of the node.
\<close>

lemma erase_splice_correct:
  fixes st defines "h \<equiv> rbheap st"
  assumes n: "n \<noteq> NULL" "aligned n" "h n = mkn Lft (mkpc (cpar c) b) (rp l) x0"
    and l: "rep h n l" "l \<noteq> E" and c: "repc h (rb_root st) n c"
    and s: "s \<noteq> NULL" "aligned s" "h s = mkn Lft (mkpc x1 bs) x2 q" "aligned x1"
    and r: "rep h s r" "repp h s q (rp r) path"
    and D: "distinct (n # s # inorder l @ inorder r @ cnodes path @ cnodes c)"
    and par: "parent = (if path = [] then s else cpar path)"
  shows "\<exists>st'. erase_splice n parent s (rp r) st = Some (if r = E \<and> bs then parent else NULL, st')
           \<and> zrep st' (path @ (Rgt, b, s, l) # c) (paint True r)
           \<and> (\<forall>v. v \<noteq> s \<longrightarrow> v \<notin> nodes l \<union> nodes r \<union> set (cnodes c) \<longrightarrow> rbheap st' v = rbheap st v)"
proof -
  note D = D [simplified, unfolded Int_Un_distrib Int_Un_distrib2 Un_empty]
  have D': "n \<noteq> s" "s \<noteq> n" "nodes r \<inter> nodes l = {}" using D by auto
  define h1 where "h1 = h(s := mkn Lft (mkpc x1 bs) (rp l) q)"
  define h2 where "h2 = reparent l s (blk l) h1"
  define h3 where "h3 = ch_heap s c h2"
  define h4 where "h4 = h3(s := mkn Lft (mkpc (cpar c) b) (rp l) q)"
  define h5 where "h5 = reparent r parent True h4"
  let ?root = "ch_root s c (rb_root st)"
  have rl: "rep h1 n l" using l D by (simp add: h1_def)
  have c2: "repc h2 (rb_root st) n c" using c D by (simp add: h2_def h1_def)
  have al: "aligned (cpar c)" using repc_aligned [OF c] .
  have s3: "h3 s = mkn Lft (mkpc x1 bs) (rp l) q" using D by (simp add: h3_def h2_def h1_def)
  have e1: "rb_set_parent (rp l) s (st\<lparr>rbheap := h1\<rparr>) = Some (st\<lparr>rbheap := h2\<rparr>)"
    using when_parent_eq [of "st\<lparr>rbheap := h1\<rparr>" n l s] rl n s(2) l by (simp add: when_node_def h2_def)
  have e2: "rb_change_child n s (cpar c) (st\<lparr>rbheap := h2\<rparr>) = Some (st\<lparr>rbheap := h3, rb_root := ?root\<rparr>)"
    using rb_change_child_eq [of "st\<lparr>rbheap := h2\<rparr>" n c s] c2 n D by (simp add: h3_def)
  have n2: "h2 n = h n" using D by (simp add: h2_def h1_def)
  have r4: "rep h4 s r" using r D D' by (simp add: h4_def h3_def h2_def h1_def)
  have rn: "rp r = NULL \<longleftrightarrow> r = E" using r(1) by simp
  have e3: "erase_splice n parent s (rp r) st = Some (if r = E \<and> bs then parent else NULL, st\<lparr>rbheap := h5, rb_root := ?root\<rparr>)"
  proof (cases "r = E")
    case True
    then show ?thesis using n s e1 e2 al n2 s3
      by (simp add: erase_splice_def h_def [symmetric] h1_def [symmetric] rb_get_def rb_upd_def h5_def h4_def reparent_def)
  next
    case False
    then show ?thesis using n s e1 e2 al n2 s3 rn
      by (simp add: erase_splice_def h_def [symmetric] h1_def [symmetric] rb_get_def rb_upd_def h5_def h4_def reparent_def rb_set_parent_color_def)
  qed
  have p5: "repp h5 s q (rp r) path" using r D D' by (simp add: h5_def h4_def h3_def h2_def h1_def)
  have c5: "repc h5 ?root s c" using repc_ch_heap [OF c2, of s] D by (simp add: h5_def h4_def h3_def)
  have l5: "rep h5 s l" using rep_reparent_same [OF rl, of "blk l" s] D D' by (simp add: h5_def h4_def h3_def h2_def)
  have r5: "rep h5 parent (paint True r)" using rep_reparent [OF r4, of parent True] D by (simp add: h5_def)
  have s5: "h5 s = mkn Lft (mkpc (cpar c) b) (rp l) q" using D by (simp add: h5_def h4_def)
  have "zrep (st\<lparr>rbheap := h5, rb_root := ?root\<rparr>) (path @ (Rgt, b, s, l) # c) (paint True r)"
    using p5 c5 l5 r5 s5 s D D' par by (auto simp: zrep_def repc_append cpar_append)
  with e3 show ?thesis using D by (auto simp: h5_def h4_def h3_def h2_def h1_def h_def)
qed

lemma erase_two_children_eq:
  "erase_two_children fuel node child st =
     do { tmp \<leftarrow> get_child Lft child st;
          (parent, successor, child2, st) \<leftarrow>
            (if tmp = NULL
             then do { child2 \<leftarrow> get_child Rgt child st; Some (child, child, child2, st) }
             else do { (parent, successor) \<leftarrow> successor_loop fuel child tmp st;
                       child2 \<leftarrow> get_child Rgt successor st;
                       st \<leftarrow> set_child Lft parent child2 st;
                       st \<leftarrow> set_child Rgt successor child st;
                       st \<leftarrow> rb_set_parent child successor st;
                       Some (parent, successor, child2, st) });
          erase_splice node parent successor child2 st }"
  by (simp add: erase_two_children_def erase_splice_def)

lemma erase_near_successor:
  assumes z: "zrep st c (T b l n (T bs E s r))" and l: "l \<noteq> E"
  shows "\<exists>st'. erase_two_children fuel n s st = Some (if r = E \<and> bs then s else NULL, st')
           \<and> zrep st' ((Rgt, b, s, l) # c) (paint True r)
           \<and> (\<forall>v. v \<notin> nodes (plug c (T b l n (T bs E s r))) \<longrightarrow> rbheap st' v = rbheap st v)"
proof -
  note Z = z [unfolded zrep_def, simplified]
  have "\<exists>st'. erase_splice n s s (rp r) st = Some (if r = E \<and> bs then s else NULL, st')
           \<and> zrep st' ([] @ (Rgt, b, s, l) # c) (paint True r)
           \<and> (\<forall>v. v \<noteq> s \<longrightarrow> v \<notin> nodes l \<union> nodes r \<union> set (cnodes c) \<longrightarrow> rbheap st' v = rbheap st v)"
    by (rule erase_splice_correct [where ?x0.0 = s and ?x1.0 = n and ?x2.0 = NULL and q = "rp r"]) (use Z l in auto)
  then show ?thesis using Z by (auto simp: erase_two_children_eq nodes_plug)
qed

lemma erase_far_successor:
  assumes z: "zrep st (path @ (Rgt, b, n, l) # c) (T bs E s r)" and l: "l \<noteq> E"
    and path: "path \<noteq> []" "\<forall>f\<in>set path. fst f = Lft" and p: "parent = cpar path" "child = rb_right (rbheap st n)"
  shows "\<exists>st'. do { child2 \<leftarrow> get_child Rgt s st;
                   st \<leftarrow> set_child Lft parent child2 st;
                   st \<leftarrow> set_child Rgt s child st;
                   st \<leftarrow> rb_set_parent child s st;
                   erase_splice n parent s child2 st } = Some (if r = E \<and> bs then parent else NULL, st')
           \<and> zrep st' (path @ (Rgt, b, s, l) # c) (paint True r)
           \<and> (\<forall>v. v \<notin> nodes (plug (path @ (Rgt, b, n, l) # c) (T bs E s r)) \<longrightarrow> rbheap st' v = rbheap st v)"
proof -
  let ?h = "rbheap st"
  obtain b1 x s1 path2 where pt: "path = (Lft, b1, x, s1) # path2" using path by (cases path) auto
  obtain q where q: "repp ?h n q s path" "repc ?h (rb_root st) q ((Rgt, b, n, l) # c)"
    using z by (auto simp: zrep_def repc_append)
  note Z = z [unfolded zrep_def, simplified cnodes_append cpar_append, simplified]
  have qt: "q \<in> set (cnodes path)" "q \<noteq> NULL" "aligned q" using repp_top [OF q(1) path(1)] by auto
  have ch: "child = q" using q(2) p(2) by simp
  have x: "parent = x" "x \<in> set (cnodes path)" "x \<noteq> NULL" "aligned x" using p pt q(1) by auto
  have D: "n \<noteq> s" "s \<noteq> n" "s \<noteq> x" "s \<noteq> q" "q \<noteq> s" "n \<noteq> x" "n \<noteq> q" "x \<notin> nodes l" "q \<notin> nodes l" "x \<notin> nodes r" "q \<notin> nodes r" "x \<notin> set (cnodes c)" "q \<notin> set (cnodes c)"
    "s \<notin> nodes l" "s \<notin> nodes r" "s \<notin> set (cnodes c)" "s \<notin> set (cnodes path)" "distinct (cnodes path)"
    using Z path(1) qt x by auto
  have hs: "?h s = mkn Lft (mkpc x bs) NULL (rp r)" "s \<noteq> NULL" "aligned s" "rep ?h s r" using Z path(1) x p by auto
  define h1 where "h1 = ?h(x := rb_child_update Lft (rp r) (?h x))"
  define h2 where "h2 = h1(s := mkn Lft (mkpc x bs) NULL q)"
  define h3 where "h3 = h2(q := (h2 q)\<lparr>rb_pc := pc_color (rb_pc (h2 q)) OR s\<rparr>)"
  have n: "n \<noteq> NULL" "aligned n" "?h n = mkn Lft (mkpc (cpar c) b) (rp l) q" "rep ?h n l" "repc ?h (rb_root st) n c" using q(2) by auto
  have "repp h1 n q (rp r) path" using repp_set_child [OF q(1) [unfolded pt]] D(18) by (simp add: pt h1_def)
  then have "repp h2 n q (rp r) path" using D by (simp add: h2_def)
  then have pp: "repp h3 s q (rp r) path" unfolding h3_def by (rule repp_set_parent) (use path D n in auto)
  have "\<exists>st'. erase_splice n parent s (rp r) (st\<lparr>rbheap := h3\<rparr>) = Some (if r = E \<and> bs then parent else NULL, st')
           \<and> zrep st' (path @ (Rgt, b, s, l) # c) (paint True r)
           \<and> (\<forall>v. v \<noteq> s \<longrightarrow> v \<notin> nodes l \<union> nodes r \<union> set (cnodes c) \<longrightarrow> rbheap st' v = rbheap (st\<lparr>rbheap := h3\<rparr>) v)"
  proof (rule erase_splice_correct [where ?x0.0 = q and ?x1.0 = x and ?x2.0 = NULL and q = q])
    show "distinct (n # s # inorder l @ inorder r @ cnodes path @ cnodes c)" using Z path(1) by auto
    show "repp (rbheap (st\<lparr>rbheap := h3\<rparr>)) s q (rp r) path" using pp by simp
  qed (use n hs D x path p l in \<open>auto simp: h3_def h2_def h1_def\<close>)
  moreover have "do { child2 \<leftarrow> get_child Rgt s st; st \<leftarrow> set_child Lft parent child2 st; st \<leftarrow> set_child Rgt s child st;
                   st \<leftarrow> rb_set_parent child s st; erase_splice n parent s child2 st } = erase_splice n parent s (rp r) (st\<lparr>rbheap := h3\<rparr>)"
    using hs x qt D(3) by (simp add: ch rb_set_parent_def rb_upd_def h3_def h2_def h1_def)
  moreover have "h3 v = ?h v" if "v \<noteq> s" "v \<notin> set (cnodes path)" for v using that x qt by (auto simp: h3_def h2_def h1_def)
  ultimately show ?thesis by (auto simp: nodes_plug)
qed

lemma erase_two_children_correct:
  assumes z: "zrep st c (T b l n r)" and l: "l \<noteq> E" and r: "r \<noteq> E" "ht r \<le> fuel"
  shows "\<exists>path bs s r' st'. r = plug path (T bs E s r') \<and> (\<forall>f\<in>set path. fst f = Lft)
           \<and> erase_two_children fuel n (rp r) st = Some (if r' = E \<and> bs then cpar (path @ (Rgt, b, s, l) # c) else NULL, st')
           \<and> zrep st' (path @ (Rgt, b, s, l) # c) (paint True r')
           \<and> (\<forall>v. v \<notin> nodes (plug c (T b l n r)) \<longrightarrow> rbheap st' v = rbheap st v)"
proof -
  obtain br rl x rr where rt: "r = T br rl x rr" using r(1) by (cases r) auto
  note Z = z [unfolded zrep_def rt, simplified]
  show ?thesis
  proof (cases "rl = E")
    case True
    from erase_near_successor [OF z [unfolded rt True] l, of fuel] show ?thesis
      using rt True by (intro exI [of _ "[]"] exI [of _ br] exI [of _ x] exI [of _ rr]) (auto simp: cpar_append)
  next
    case False
    have "rep (rbheap st) x rl" "ht rl \<le> fuel" using Z r(2) rt by auto
    from all_Lft_leftmost [OF this(1) False this(2), of x] obtain c0 bs s r' where
      lm: "rl = plug c0 (T bs E s r')" "\<forall>f\<in>set c0. fst f = Lft" "successor_loop fuel x (rp rl) st = Some (if c0 = [] then x else cpar c0, s)"
      by blast
    define path where "path = c0 @ [(Lft, br, x, rr)]"
    have pl: "r = plug path (T bs E s r')" by (simp add: path_def plug_append rt lm(1))
    have ps: "path \<noteq> []" "\<forall>f\<in>set path. fst f = Lft" "(if c0 = [] then x else cpar c0) = cpar path"
      using lm(2) by (auto simp: path_def cpar_append)
    have zz: "zrep st (path @ (Rgt, b, n, l) # c) (T bs E s r')" using z by (simp add: zrep_plug plug_append pl)
    have tmp: "get_child Lft x st = Some (rp rl)" "rp rl \<noteq> NULL" using Z False rp_eq_NULL [of "rbheap st" x rl] by auto
    have child: "rb_right (rbheap st n) = x" using Z by simp
    have cp: "cpar (path @ (Rgt, b, s, l) # c) = cpar path" using ps(1) by (simp add: cpar_append)
    from erase_far_successor [OF zz l ps(1,2) refl refl] show ?thesis
      using lm(3) ps tmp child rt pl
      by (intro exI [of _ path] exI [of _ bs] exI [of _ s] exI [of _ r'], unfold cp)
        (auto simp: erase_two_children_eq cp plug_append Option.bind_assoc split del: if_split)
  qed
qed

lemma rb_erase_node_leaf:
  assumes "zrep st c (T b l n r)" "l = E \<or> r = E"
  shows "\<exists>st'. rb_erase_node fuel n st = Some (if l = E \<and> r = E \<and> b then cpar c else NULL, st')
           \<and> zrep st' c (paint b (if l = E then r else l))
           \<and> (\<forall>v. v \<notin> nodes (plug c (T b l n r)) \<longrightarrow> rbheap st' v = rbheap st v)"
proof -
  let ?u = "if l = E then r else l"
  note Z = assms(1) [unfolded zrep_def, simplified]
  let ?h = "rbheap st"
  have al: "aligned (cpar c)" using Z repc_aligned [of ?h "rb_root st" n c] by simp
  have u: "rep ?h n ?u" "distinct (inorder ?u)" "nodes ?u \<inter> set (cnodes c) = {}" "n \<notin> nodes ?u" "n \<notin> set (cnodes c)" using Z by auto
  have nl: "rp l = NULL \<longleftrightarrow> l = E" "rp r = NULL \<longleftrightarrow> r = E" using Z rp_eq_NULL by blast+
  define h1 where "h1 = reparent ?u (cpar c) b ?h"
  have c1: "repc h1 (rb_root st) n c" using Z u by (simp add: h1_def)
  let ?st' = "st\<lparr>rbheap := ch_heap (rp ?u) c h1, rb_root := ch_root (rp ?u) c (rb_root st)\<rparr>"
  have e1: "rb_change_child n (rp ?u) (cpar c) (st\<lparr>rbheap := h1\<rparr>) = Some ?st'"
    using rb_change_child_eq [of "st\<lparr>rbheap := h1\<rparr>" n c "rp ?u"] c1 u Z by simp
  have e2: "rb_change_child n (rp ?u) (cpar c) st = Some (st\<lparr>rbheap := ch_heap (rp ?u) c ?h, rb_root := ch_root (rp ?u) c (rb_root st)\<rparr>)"
    using rb_change_child_eq [of st n c "rp ?u"] u Z by simp
  have sw: "reparent ?u (cpar c) b (ch_heap (rp ?u) c ?h) = ch_heap (rp ?u) c h1"
    using u rp_in_nodes [of ?u] by (cases c rule: cpar.cases) (auto simp: h1_def reparent_def ch_heap_def fun_upd_twist)
  have "rb_erase_node fuel n st = Some (if l = E \<and> r = E \<and> b then cpar c else NULL, ?st')"
  proof (cases "l = E")
    case True
    then show ?thesis using Z nl e2 sw al
      by (cases "r = E") (auto simp: rb_erase_node_def rb_get_def rb_upd_def reparent_def)
  next
    case False
    then have "r = E" using assms(2) by simp
    with False show ?thesis using Z nl e1 al by (simp add: rb_erase_node_def rb_get_def rb_upd_def reparent_def h1_def)
  qed
  moreover have "zrep ?st' c (paint b ?u)"
    using repc_ch_heap [OF c1, of "rp ?u"] rep_reparent [OF u(1,2), of "cpar c" b] u Z by (simp add: zrep_def h1_def)
  ultimately show ?thesis using u by (auto simp: h1_def nodes_plug)
qed

section \<open>Erasure\<close>

lemma plug_path_cong [simp]:
  "balc m (c @ (d, b, x, s) # c') = balc m (c @ (d, b, y, s) # c')" "norrc z (c @ (d, b, x, s) # c') = norrc z (c @ (d, b, y, s) # c')"
  by (induction c arbitrary: m z rule: cnodes.induct) auto

lemma split_at: "n \<in> nodes t \<Longrightarrow> \<exists>c b l r. t = plug c (T b l n r)"
proof (induction t)
  case (T b l x r)
  then consider "n = x" | "n \<in> nodes l" | "n \<in> nodes r" by auto
  then show ?case
  proof cases
    case 1
    then show ?thesis by (intro exI [of _ "[]"]) auto
  next
    case 2
    with T.IH(1) obtain c b' l' r' where "l = plug c (T b' l' n r')" by blast
    then show ?thesis by (intro exI [of _ "c @ [(Lft, b, x, r)]"]) (auto simp: plug_append)
  next
    case 3
    with T.IH(2) obtain c b' l' r' where "r = plug c (T b' l' n r')" by blast
    then show ?thesis by (intro exI [of _ "c @ [(Rgt, b, x, l)]"]) (auto simp: plug_append)
  qed
qed simp

lemma bal_0_red: "bal 0 t \<Longrightarrow> t \<noteq> E \<Longrightarrow> \<not> blk t"
  by (cases t) auto

text \<open>What is left to do once the node is out: nothing, or the repair from its parent upwards.\<close>

lemma erase_finish:
  assumes z: "zrep st c (paint True u)" and u: "u = E \<or> \<not> blk u" "bal 0 u" "norr u"
    and b: "balc (if bs then 1 else 0) c" "norrc True c" "u \<noteq> E \<Longrightarrow> bs" and f: "length c < fuel"
  shows "\<exists>st' t'. (if (if u = E \<and> bs then cpar c else NULL) \<noteq> NULL then erase_fix_loop fuel NULL (if u = E \<and> bs then cpar c else NULL) st else Some st) = Some st'
           \<and> rb_rep st' t' \<and> rbt t' \<and> inorder t' = inorder (plug c u)
           \<and> (\<forall>v. v \<notin> nodes (plug c u) \<longrightarrow> rbheap st' v = rbheap st v)"
proof (cases "u = E \<and> bs \<and> c \<noteq> []")
  case True
  then have ne: "cpar c \<noteq> NULL" using z cpar_NULL by (auto simp: zrep_def)
  have z0: "zrep st c E" using z True by simp
  from erase_fix_loop_correct [OF z0 _ b(2) _ f, of 0] True b(1) obtain st' where
    "erase_fix_loop fuel NULL (cpar c) st = Some st'" "rb_rep st' (efix c E)" "\<forall>v. v \<notin> nodes (plug c E) \<longrightarrow> rbheap st' v = rbheap st v" by auto
  moreover have "rbt (efix c E)" by (rule rbt_efix [of 0]) (use True b in auto)
  moreover have "inorder (efix c E) = inorder (plug c E)" by (rule inorder_efix [of 0]) (use True b in auto)
  ultimately show ?thesis using True ne by auto
next
  case False
  have "(if u = E \<and> bs then cpar c else NULL) = NULL" using False by auto
  moreover have "rbt (plug c (paint True u))" unfolding rbt_plug
    by (rule conjI, rule exI [of _ "if u = E then 0 else 1"]) (use False u b bal_paint [of 0 u] in auto)
  ultimately show ?thesis using z by (auto simp: zrep_plug inorder_plug nodes_plug intro!: exI [of _ "plug c (paint True u)"])
qed

lemma remove1_middle: "n \<notin> set xs \<Longrightarrow> remove1 n (xs @ n # ys) = xs @ ys"
  by (induction xs) auto

lemma rb_erase_eq:
  assumes "rb_erase_node fuel n st = Some (x, st1)"
  shows "rb_erase fuel n st = (if x \<noteq> NULL then erase_fix_loop fuel NULL x st1 else Some st1)"
  using assms by (simp add: rb_erase_def)

lemma rb_erase_leaf:
  assumes z: "zrep st c (T b l n r)" and t: "rbt (plug c (T b l n r))" and lr: "l = E \<or> r = E" and f: "ht (plug c (T b l n r)) < fuel"
  shows "\<exists>st' t'. rb_erase fuel n st = Some st' \<and> rb_rep st' t' \<and> rbt t' \<and> inorder t' = remove1 n (inorder (plug c (T b l n r)))
           \<and> (\<forall>v. v \<notin> nodes (plug c (T b l n r)) \<longrightarrow> rbheap st' v = rbheap st v)"
proof -
  define u where "u = (if l = E then r else l)"
  obtain m where m: "bal m (T b l n r)" "balc m c" "norr (T b l n r)" "norrc b c" using t by (auto simp: rbt_plug)
  have u0: "bal 0 u" "norr u" using m(1,3) lr by (cases m; auto simp: u_def split: if_splits)+
  have ur: "u = E \<or> \<not> blk u" using bal_0_red u0(1) by blast
  have ub: "u \<noteq> E \<Longrightarrow> b" using m(3) ur lr by (auto simp: u_def split: if_splits)
  have m1: "m = (if b then 1 else 0)" using m(1) lr by (cases m; cases b) (auto dest: bal_unique simp: u_def)
  have both: "l = E \<and> r = E \<and> b \<longleftrightarrow> u = E \<and> b" using lr by (auto simp: u_def)
  from rb_erase_node_leaf [OF z lr, of fuel, folded u_def, unfolded both] obtain st1 where
    1: "rb_erase_node fuel n st = Some (if u = E \<and> b then cpar c else NULL, st1)" "zrep st1 c (paint b u)"
    "\<forall>v. v \<notin> nodes (plug c (T b l n r)) \<longrightarrow> rbheap st1 v = rbheap st v" by blast
  have z1: "zrep st1 c (paint True u)" using 1(2) ub by (cases "u = E") auto
  have len: "length c < fuel" using ht_plug [of c "T b l n r"] f by simp
  have nn: "norrc True c" using norrc_mono m(4) .
  from erase_finish [OF z1 ur u0 m(2) [unfolded m1] nn ub len] obtain st' t' where
    2: "rb_erase fuel n st = Some st'" "rb_rep st' t'" "rbt t'" "inorder t' = inorder (plug c u)"
    "\<forall>v. v \<notin> nodes (plug c u) \<longrightarrow> rbheap st' v = rbheap st1 v" unfolding rb_erase_eq [OF 1(1)] by blast
  have "distinct (inorder (plug c (T b l n r)))" using z by (simp add: zrep_plug rb_rep_def)
  then have "inorder (plug c u) = remove1 n (inorder (plug c (T b l n r)))"
    using lr remove1_middle [of n "lefts c @ inorder l" "inorder r @ rights c"] by (auto simp: inorder_plug u_def)
  with 1(3) 2 show ?thesis by (auto simp: nodes_plug u_def)
qed

lemma rb_erase_inner:
  assumes z: "zrep st c (T b l n r)" and t: "rbt (plug c (T b l n r))" and lr: "l \<noteq> E" "r \<noteq> E" and f: "ht (plug c (T b l n r)) < fuel"
  shows "\<exists>st' t'. rb_erase fuel n st = Some st' \<and> rb_rep st' t' \<and> rbt t' \<and> inorder t' = remove1 n (inorder (plug c (T b l n r)))
           \<and> (\<forall>v. v \<notin> nodes (plug c (T b l n r)) \<longrightarrow> rbheap st' v = rbheap st v)"
proof -
  have hr: "ht r \<le> fuel" using ht_plug [of c "T b l n r"] f by simp
  from erase_two_children_correct [OF z lr hr] obtain path bs s u st1 where
    r: "r = plug path (T bs E s u)" "\<forall>f\<in>set path. fst f = Lft"
    and 1: "erase_two_children fuel n (rp r) st = Some (if u = E \<and> bs then cpar (path @ (Rgt, b, s, l) # c) else NULL, st1)"
      "zrep st1 (path @ (Rgt, b, s, l) # c) (paint True u)"
      "\<forall>v. v \<notin> nodes (plug c (T b l n r)) \<longrightarrow> rbheap st1 v = rbheap st v" by blast
  let ?c = "path @ (Rgt, b, s, l) # c"
  have pl: "plug c (T b l n r) = plug (path @ (Rgt, b, n, l) # c) (T bs E s u)" by (simp add: plug_append r)
  obtain m where m: "bal m (T bs E s u)" "balc m ?c" "norr (T bs E s u)" "norrc bs ?c"
    using t unfolding pl rbt_plug by (auto simp: plug_path_cong [where x = n and y = s])
  have u0: "bal 0 u" "norr u" using m(1,3) by (cases m; auto split: if_splits)+
  have ur: "u = E \<or> \<not> blk u" using bal_0_red u0(1) by blast
  have ub: "u \<noteq> E \<Longrightarrow> bs" using m(3) ur by auto
  have m1: "m = (if bs then 1 else 0)" using m(1) by (cases m; cases bs) auto
  have z': "zrep st (path @ (Rgt, b, n, l) # c) (T bs E s u)" using z by (simp add: zrep_plug pl)
  have len: "length ?c < fuel" using ht_plug [of "path @ (Rgt, b, n, l) # c" "T bs E s u"] f unfolding pl by simp
  have "rb_erase_node fuel n st = Some (if u = E \<and> bs then cpar ?c else NULL, st1)"
    using 1(1) z lr rp_eq_NULL [of "rbheap st" n l] rp_eq_NULL [of "rbheap st" n r]
    by (simp add: zrep_def rb_erase_node_def rb_get_def split del: if_split)
  note e = rb_erase_eq [OF this]
  from erase_finish [OF 1(2) ur u0 m(2) [unfolded m1] norrc_mono [OF m(4)] ub len] obtain st' t' where
    2: "rb_erase fuel n st = Some st'" "rb_rep st' t'" "rbt t'" "inorder t' = inorder (plug ?c u)"
    "\<forall>v. v \<notin> nodes (plug ?c u) \<longrightarrow> rbheap st' v = rbheap st1 v" unfolding e by blast
  have d: "distinct (inorder (plug c (T b l n r)))" using z by (simp add: zrep_plug rb_rep_def)
  have lp: "lefts path = []" using r(2) by (induction path rule: lefts.induct) auto
  have ir: "inorder r = s # inorder u @ rights path" by (simp add: r(1) inorder_plug lp)
  have "inorder (plug ?c u) = (lefts c @ inorder l) @ inorder r @ rights c" by (simp add: inorder_plug lp ir)
  moreover have "inorder (plug c (T b l n r)) = (lefts c @ inorder l) @ n # inorder r @ rights c" by (simp add: inorder_plug)
  ultimately have "inorder (plug ?c u) = remove1 n (inorder (plug c (T b l n r)))"
    using d remove1_middle [of n "lefts c @ inorder l" "inorder r @ rights c"] by auto
  moreover have "nodes (plug ?c u) \<subseteq> nodes (plug c (T b l n r))" unfolding pl by (auto simp: nodes_plug)
  ultimately show ?thesis using 1(3) 2 by auto
qed

text \<open>
  C14: With fuel for twice the logarithm of the number of nodes, erasing a node of a red-black tree
  takes exactly that node out of the order and leaves a red-black tree.  No node outside the tree is
  written.
\<close>

theorem rb_erase_correct:
  assumes "rb_tree key st xs" "n \<in> set xs" "length xs + 1 < 2 ^ k" "2 * k \<le> fuel"
  shows "\<exists>st'. rb_erase fuel n st = Some st' \<and> rb_tree key st' (remove1 n xs)
           \<and> (\<forall>a. a \<notin> set xs \<longrightarrow> rbheap st' a = rbheap st a)"
proof -
  obtain t where t: "rb_rep st t" "rbt t" "inorder t = xs" "sorted_wrt (less_key key) xs" using assms(1) by (auto simp: rb_tree_def)
  have ht: "ht t < fuel" using rbt_ht [OF t(2)] assms(3,4) t(3) by fastforce
  obtain c b l r where s: "t = plug c (T b l n r)" using split_at [of n t] assms(2) t(3) by auto
  have z: "zrep st c (T b l n r)" using t(1) s by (simp add: zrep_plug)
  have "\<exists>st' t'. rb_erase fuel n st = Some st' \<and> rb_rep st' t' \<and> rbt t' \<and> inorder t' = remove1 n (inorder t)
           \<and> (\<forall>v. v \<notin> nodes t \<longrightarrow> rbheap st' v = rbheap st v)"
    using rb_erase_leaf [OF z _ _ ht [unfolded s]] rb_erase_inner [OF z _ _ _ ht [unfolded s]] t(2) unfolding s by blast
  moreover have "sorted_wrt (less_key key) (remove1 n ys)" if "sorted_wrt (less_key key) ys" for ys
    using that by (induction ys) (auto dest: in_set_remove1 [THEN iffD1, rotated] set_remove1_subset [THEN subsetD])
  ultimately show ?thesis using t by (auto simp: rb_tree_def)
qed

theorem rb_erase_correct_witness:
  "\<exists>st'. rb_erase 4 16 example_tree = Some st' \<and> rb_tree (\<lambda>p. p) st' [8]"
  using rb_erase_correct [OF example_tree_ok, of 16 2 4] by auto

end
