(* ===== verification/Timer_Tree.thy ===== *)
theory Timer_Tree
  imports Sched Rbtree_Splice Rbtree_Search "HOL-Library.Product_Lexorder"
begin

text \<open>
  The timers of a processor (\<open>kernel/cpu.c\<close>) on the red-black tree (\<open>common/rbtree.c\<close>).  The contract
  between the two is a locale; the tree keeps it, with 128 rounds of fuel for any number of nodes
  that have addresses, and the list of timers of the scheduler is what the tree holds.
\<close>

section \<open>The contract of an ordered tree\<close>

locale ordered_tree =
  fixes holds :: "(ptr \<Rightarrow> 'k::linorder) \<Rightarrow> 's \<Rightarrow> ptr list \<Rightarrow> bool"
    and ins :: "(ptr \<Rightarrow> 'k) \<Rightarrow> ptr \<Rightarrow> 's \<Rightarrow> (int \<times> 's) option"
    and del :: "ptr \<Rightarrow> 's \<Rightarrow> 's option"
    and fst_node :: "'s \<Rightarrow> ptr option"
    and ok :: "ptr \<Rightarrow> bool"
  assumes ins_law: "\<lbrakk>holds dl s xs; ok n; n \<notin> set xs\<rbrakk> \<Longrightarrow> \<exists>s'. ins dl n s = Some (0, s') \<and> holds dl s' (insort_key (\<lambda>p. (dl p, p)) n xs)"
    and del_law: "\<lbrakk>holds dl s xs; n \<in> set xs\<rbrakk> \<Longrightarrow> \<exists>s'. del n s = Some s' \<and> holds dl s' (remove1 n xs)"
    and first_law: "holds dl s xs \<Longrightarrow> fst_node s = Some (if xs = [] then NULL else hd xs)"
    and sorted_law: "holds dl s xs \<Longrightarrow> sorted_wrt (\<lambda>a b. (dl a, a) < (dl b, b)) xs"
    and key_law: "\<lbrakk>holds dl s xs; \<forall>a\<in>set xs. dl' a = dl a\<rbrakk> \<Longrightarrow> holds dl' s xs"

text \<open>Requests to the tree: a node with a deadline enters, or a node leaves.\<close>

datatype 'k request = Arm ptr 'k | Cancel ptr

fun pending :: "'k request list \<Rightarrow> ptr \<Rightarrow> 'k option" where
  "pending [] = Map.empty"
| "pending (Arm n k # rs) = (pending rs)(n \<mapsto> k)"
| "pending (Cancel n # rs) = (pending rs)(n := None)"

text \<open>The newest request comes first in the list.  Only a node that is not in the tree is armed.\<close>

fun proper :: "(ptr \<Rightarrow> bool) \<Rightarrow> 'k request list \<Rightarrow> bool" where
  "proper ok [] = True"
| "proper ok (Arm n k # rs) \<longleftrightarrow> ok n \<and> pending rs n = None \<and> proper ok rs"
| "proper ok (Cancel n # rs) \<longleftrightarrow> pending rs n \<noteq> None \<and> proper ok rs"

fun serve :: "((ptr \<Rightarrow> 'k) \<Rightarrow> ptr \<Rightarrow> 's \<Rightarrow> (int \<times> 's) option) \<Rightarrow> (ptr \<Rightarrow> 's \<Rightarrow> 's option) \<Rightarrow> 'k request list
    \<Rightarrow> (ptr \<Rightarrow> 'k) \<times> 's \<Rightarrow> ((ptr \<Rightarrow> 'k) \<times> 's) option" where
  "serve ins del [] x = Some x"
| "serve ins del (Arm n k # rs) x =
     do { (dl, s) \<leftarrow> serve ins del rs x; (r, s') \<leftarrow> ins (dl(n := k)) n s; ASSERT (r = 0); Some (dl(n := k), s') }"
| "serve ins del (Cancel n # rs) x = do { (dl, s) \<leftarrow> serve ins del rs x; s' \<leftarrow> del n s; Some (dl, s') }"

context ordered_tree
begin

lemma serve_holds:
  assumes "holds dl0 s0 []" "proper ok rs"
  shows "\<exists>dl s xs. serve ins del rs (dl0, s0) = Some (dl, s) \<and> holds dl s xs
           \<and> pending rs = (\<lambda>a. if a \<in> set xs then Some (dl a) else None)"
  using assms(2)
proof (induction rs)
  case Nil
  then show ?case using assms(1) by (intro exI [of _ dl0] exI [of _ s0] exI [of _ "[]"]) auto
next
  case (Cons r rs)
  then have "proper ok rs" by (cases r) auto
  with Cons.IH obtain dl s xs where
    1: "serve ins del rs (dl0, s0) = Some (dl, s)" "holds dl s xs" "pending rs = (\<lambda>a. if a \<in> set xs then Some (dl a) else None)" by blast
  show ?case
  proof (cases r)
    case (Arm n k)
    define dl' where "dl' = dl(n := k)"
    let ?ys = "insort_key (\<lambda>p. (dl' p, p)) n xs"
    have n: "n \<notin> set xs" "ok n" using 1(3) Cons.prems Arm by (auto split: if_splits)
    have "holds dl' s xs" by (rule key_law [OF 1(2)]) (use n in \<open>auto simp: dl'_def\<close>)
    from ins_law [OF this n(2,1)] obtain s' where s': "ins dl' n s = Some (0, s')" "holds dl' s' ?ys" by blast
    have "pending (r # rs) = (\<lambda>a. if a \<in> set ?ys then Some (dl' a) else None)"
      using 1(3) Arm by (auto simp: set_insort_key dl'_def)
    moreover have "serve ins del (r # rs) (dl0, s0) = Some (dl', s')" using 1(1) s'(1) Arm by (simp add: dl'_def)
    ultimately show ?thesis using s'(2) by blast
  next
    case (Cancel n)
    have n: "n \<in> set xs" using 1(3) Cons.prems Cancel by (auto split: if_splits)
    have d: "distinct xs" using sorted_law [OF 1(2)] by (induction xs) auto
    from del_law [OF 1(2) n] obtain s' where "del n s = Some s'" "holds dl s' (remove1 n xs)" by blast
    with 1 d Cancel show ?thesis
      by (intro exI [of _ dl] exI [of _ s'] exI [of _ "remove1 n xs"]) (auto simp: fun_eq_iff)
  qed
qed

lemma serve_first:
  assumes "holds dl0 s0 []" "proper ok rs"
  shows "\<exists>dl s x. serve ins del rs (dl0, s0) = Some (dl, s) \<and> fst_node s = Some x
           \<and> (if pending rs = Map.empty then x = NULL
              else pending rs x \<noteq> None \<and> (\<forall>a k. pending rs a = Some k \<longrightarrow> the (pending rs x) \<le> k))"
proof -
  obtain dl s xs where
    1: "serve ins del rs (dl0, s0) = Some (dl, s)" "holds dl s xs" "pending rs = (\<lambda>a. if a \<in> set xs then Some (dl a) else None)"
    using serve_holds [OF assms] by blast
  show ?thesis
  proof (cases xs)
    case Nil
    then show ?thesis using 1 first_law [OF 1(2)] by auto
  next
    case (Cons x ys)
    have le: "\<forall>a\<in>set xs. dl x \<le> dl a" using sorted_law [OF 1(2)] Cons by (auto simp: less_prod_def intro: less_imp_le)
    have px: "pending rs x = Some (dl x)" using Cons 1(3) by simp
    then have "pending rs \<noteq> Map.empty" by auto
    moreover have "the (pending rs x) \<le> k" if "pending rs a = Some k" for a k
      using that le px unfolding 1(3) by (auto split: if_splits)
    moreover have "fst_node s = Some x" using first_law [OF 1(2)] Cons by simp
    ultimately show ?thesis using 1(1) px by (intro exI [of _ dl] exI [of _ s] exI [of _ x]) simp
  qed
qed

end

section \<open>The red-black tree keeps the contract\<close>

lemma rb_tree_length: assumes "rb_tree key st xs" shows "length xs + 1 < 2 ^ 64"
proof -
  obtain t where t: "rb_rep st t" "inorder t = xs" using assms by (auto simp: rb_tree_def)
  have a: "\<forall>x\<in>nodes t. x \<noteq> NULL \<and> aligned x" if "rep h par t" for h par using that by (induction t arbitrary: par) auto
  have "set xs \<subseteq> UNIV - {0, 1}" using a [of "rbheap st" NULL] t by (auto simp: rb_rep_def aligned_def)
  then have "card (set xs) \<le> card (UNIV - {0, 1 :: ptr})" by (rule card_mono [rotated]) simp
  moreover have "card (set xs) = length xs" using t by (auto simp: rb_rep_def distinct_card)
  moreover have "card (UNIV - {0, 1 :: ptr}) = 2 ^ 64 - 2" by (simp add: card_Diff_subset card_word)
  ultimately show ?thesis by simp
qed

definition deadline_tree :: "(ptr \<Rightarrow> 'k::linorder) \<Rightarrow> rbst \<Rightarrow> ptr list \<Rightarrow> bool" where
  "deadline_tree dl st xs = rb_tree (\<lambda>p. (dl p, p)) st xs"

definition before :: "(ptr \<Rightarrow> 'k::linorder) \<Rightarrow> ptr \<Rightarrow> ptr \<Rightarrow> bool" where
  "before dl a b \<longleftrightarrow> (dl a, a) < (dl b, b)"

interpretation rbts: ordered_tree "deadline_tree :: (ptr \<Rightarrow> 'k::linorder) \<Rightarrow> rbst \<Rightarrow> ptr list \<Rightarrow> bool"
  "\<lambda>dl n st. rb_insert 128 n (before dl) st" "rb_erase 128" "rb_first 128" "\<lambda>n. n \<noteq> NULL \<and> aligned n"
proof (unfold_locales, unfold deadline_tree_def before_def)
  fix dl :: "ptr \<Rightarrow> 'k" and s xs and n :: ptr
  let ?key = "\<lambda>p. (dl p, p)"
  assume h: "rb_tree ?key s xs"
  note len = rb_tree_length [OF h]
  show "rb_first 128 s = Some (if xs = [] then NULL else hd xs)"
    using rb_search_correct [OF h len, of 128] by simp
  show "sorted_wrt (\<lambda>a b. ?key a < ?key b) xs" using h by (simp add: rb_tree_def)
  show "\<exists>s'. rb_erase 128 n s = Some s' \<and> rb_tree ?key s' (remove1 n xs)" if "n \<in> set xs"
    using rb_erase_correct [OF h that len, of 128] by auto
  show "\<exists>s'. rb_insert 128 n (\<lambda>a b. ?key a < ?key b) s = Some (0, s') \<and> rb_tree ?key s' (insort_key ?key n xs)"
    if "n \<noteq> NULL \<and> aligned n" "n \<notin> set xs"
    using rb_insert_correct [OF h, of n 64 128] that len by (auto simp: image_iff)
  show "rb_tree (\<lambda>p. (dl' p, p)) s xs" if "\<forall>a\<in>set xs. dl' a = dl a" for dl' :: "ptr \<Rightarrow> 'k"
  proof -
    have "sorted_wrt (\<lambda>a b. ?key a < ?key b) xs" using h by (simp add: rb_tree_def)
    then have "sorted_wrt (\<lambda>a b. (dl' a, a) < (dl' b, b)) xs" by (rule sorted_wrt_mono_rel [rotated]) (use that in auto)
    with h show ?thesis by (simp add: rb_tree_def)
  qed
qed

text \<open>
  However timers are armed and cancelled on an empty red-black tree, no call of the tree fails,
  and the first node is an armed timer with the least deadline, or NULL when none is armed.
\<close>

theorem earliest_timer_first:
  assumes "proper (\<lambda>n. n \<noteq> NULL \<and> aligned n) rs" "rb_root st = NULL"
  shows "\<exists>dl s x. serve (\<lambda>dl n. rb_insert 128 n (before dl)) (rb_erase 128) rs (dl0 :: ptr \<Rightarrow> int, st) = Some (dl, s)
           \<and> rb_first 128 s = Some x
           \<and> (if pending rs = Map.empty then x = NULL
              else pending rs x \<noteq> None \<and> (\<forall>a k. pending rs a = Some k \<longrightarrow> the (pending rs x) \<le> k))"
proof -
  have "rbt E" by (auto simp: rbt_def)
  then have "deadline_tree dl0 st []" using assms(2) by (auto simp: deadline_tree_def rb_tree_def rb_rep_def intro!: exI [of _ E])
  from rbts.serve_first [OF this assms(1)] show ?thesis by simp
qed

definition example_requests :: "int request list" where
  "example_requests = [Arm 32 7, Cancel 16, Arm 16 5, Arm 8 9]"

definition empty_tree :: rbst where
  "empty_tree = \<lparr>rbheap = \<lambda>_. mkn Lft 0 0 0, rb_root = 0\<rparr>"

theorem earliest_timer_first_witness:
  "\<exists>dl s. serve (\<lambda>dl n. rb_insert 128 n (before dl)) (rb_erase 128) example_requests (\<lambda>_. 0, empty_tree) = Some (dl, s)
      \<and> rb_first 128 s = Some 32"
proof -
  define m :: "ptr \<Rightarrow> int option" where "m = [8 \<mapsto> 9, 32 \<mapsto> 7]"
  have p: "pending example_requests = m" by (auto simp: fun_eq_iff example_requests_def m_def)
  have ne: "m \<noteq> Map.empty" by (simp add: m_def)
  have "proper (\<lambda>n. n \<noteq> NULL \<and> aligned n) example_requests" by (simp add: example_requests_def aligned_def)
  from earliest_timer_first [OF this, of empty_tree "\<lambda>_. 0", unfolded p] ne obtain dl s x where
    1: "serve (\<lambda>dl n. rb_insert 128 n (before dl)) (rb_erase 128) example_requests (\<lambda>_. 0, empty_tree) = Some (dl, s)" "rb_first 128 s = Some x"
    and x: "m x \<noteq> None" "\<forall>a k. m a = Some k \<longrightarrow> the (m x) \<le> k"
    by (auto simp: empty_tree_def)
  have "x = 32" using x(1) x(2) [rule_format, of 32 7] by (auto simp: m_def split: if_splits)
  with 1 show ?thesis by auto
qed

section \<open>The timers of the scheduler are what the tree holds\<close>

definition deadline :: "schedst \<Rightarrow> ptr \<Rightarrow> int" where
  "deadline s p = uint (tkey (ptimer s p))"

lemma sless_diff:
  assumes "uint a < 2 ^ 62" "uint b < 2 ^ 62" shows "(a - b :: u64) <s 0 \<longleftrightarrow> uint a < uint b"
proof -
  have small: "signed_take_bit 63 k = k" if "- (2 ^ 62) < k" "k < 2 ^ 62" for k :: int
    by (rule signed_take_bit_int_eq_self) (use that in simp_all)
  have s: "sint x = uint x" if "uint x < 2 ^ 62" for x :: u64
    using small [of "uint x"] that by (simp add: sint_uint order_less_le_trans [OF _ uint_ge_0])
  have "sint (a - b) = uint a - uint b"
  proof -
    have "- (2 ^ 62) < uint a - uint b" "uint a - uint b < 2 ^ 62"
      using assms uint_ge_0 [of a] uint_ge_0 [of b] by linarith+
    from small [OF this] show ?thesis using assms by (simp add: sint_word_ariths s)
  qed
  then show ?thesis by (simp add: word_sless_alt)
qed

lemma timer_cmp_before:
  assumes "\<forall>p. deadline s p < 2 ^ 62" shows "timer_cmp s = before (deadline s)"
proof (intro ext)
  fix a b
  have "(tkey (ptimer s a) - tkey (ptimer s b) <s 0) = (deadline s a < deadline s b)"
    using sless_diff assms unfolding deadline_def by blast
  moreover have "tkey (ptimer s a) - tkey (ptimer s b) = 0 \<longleftrightarrow> deadline s a = deadline s b"
    by (simp add: deadline_def word_uint_eq_iff [symmetric])
  ultimately show "timer_cmp s a b = before (deadline s) a b"
    by (simp add: timer_cmp_def before_def Let_def less_prod_def)
qed

lemma timer_insort_insort_key:
  "t \<notin> set ts \<Longrightarrow> timer_insort (before dl) t ts = insort_key (\<lambda>p. (dl p, p)) t ts"
  by (induction ts) (auto simp: before_def less_le)

text \<open>\<open>_rb_erase\<close> of a zero-initialised node empties the tree.\<close>

lemma rb_erase_zero_node:
  assumes "t \<noteq> NULL" "rbheap st t = mkn Lft 0 NULL NULL"
  shows "rb_erase fuel t st = Some (st\<lparr>rb_root := NULL\<rparr>)"
  using assms by (simp add: rb_erase_def rb_erase_node_def rb_get_def rb_change_child_def pc_parent_def pc_color_def)

lemma timer_cmp_cputimer [simp]: "timer_cmp (s\<lparr>cputimer := x\<rparr>) = timer_cmp s"
  by (simp add: fun_eq_iff timer_cmp_def)

lemma set_on_tree:
  assumes h: "deadline_tree (deadline s) st (cputimer s c)" and t: "t \<noteq> NULL" "aligned t"
    and small: "\<forall>p. deadline s' p < 2 ^ 62" and c: "set_cpu_timer c now t s = Some s'"
  shows "\<exists>st'. rb_insert 128 t (timer_cmp s') st = Some (0, st') \<and> deadline_tree (deadline s') st' (cputimer s' c)"
proof -
  from c have t0: "t \<notin> set (cputimer s c)" and p: "\<forall>p. p \<noteq> t \<longrightarrow> ptimer s' p = ptimer s p"
    and l: "cputimer s' c = timer_insort (timer_cmp s') t (cputimer s c)"
    by (auto simp: set_cpu_timer_def Let_def)
  have "deadline_tree (deadline s') st (cputimer s c)"
    by (rule rbts.key_law [OF h]) (use p t0 in \<open>auto simp: deadline_def\<close>)
  from rbts.ins_law [OF this conjI [OF t] t0] show ?thesis
    by (simp add: l timer_cmp_before [OF small] timer_insort_insort_key [OF t0])
qed

lemma cancel_on_tree:
  assumes h: "deadline_tree (deadline s) st (cputimer s c)" and t: "t \<noteq> NULL"
    and c: "cancel_cpu_timer c t s = Some s'" and z: "t \<in> set (cputimer s c) \<or> rbheap st t = mkn Lft 0 NULL NULL"
  shows "\<exists>st'. rb_erase 128 t st = Some st' \<and> deadline_tree (deadline s') st' (cputimer s' c)"
proof -
  from c have p: "deadline s' = deadline s" and l: "cputimer s' c = (if t \<in> set (cputimer s c) then remove1 t (cputimer s c) else [])"
    by (auto simp: cancel_cpu_timer_def deadline_def [abs_def])
  show ?thesis
  proof (cases "t \<in> set (cputimer s c)")
    case True
    with rbts.del_law [OF h True] show ?thesis by (simp add: p l)
  next
    case False
    have "rbt E" by (auto simp: rbt_def)
    then show ?thesis using False z rb_erase_zero_node [OF t, of st 128]
      by (auto simp: p l deadline_tree_def rb_tree_def rb_rep_def intro!: exI [of _ E])
  qed
qed

text \<open>
  C16: While the clock is below \<open>2 ^ 62\<close> milliseconds, arming and cancelling a timer on the red-black
  tree of a processor, compared as \<open>__timer_cmp\<close> does, is arming and cancelling it in the scheduler's
  list of timers; a zero-initialised timer that was never armed empties both when it is cancelled.
\<close>

theorem cpu_timers_on_tree:
  assumes h: "deadline_tree (deadline s) st (cputimer s c)" and t: "t \<noteq> NULL" "aligned t"
    and small: "\<forall>p. deadline s' p < 2 ^ 62"
  shows "(set_cpu_timer c now t s = Some s' \<longrightarrow>
            (\<exists>st'. rb_insert 128 t (timer_cmp s') st = Some (0, st') \<and> deadline_tree (deadline s') st' (cputimer s' c)))
       \<and> (cancel_cpu_timer c t s = Some s' \<and> (t \<in> set (cputimer s c) \<or> rbheap st t = mkn Lft 0 NULL NULL) \<longrightarrow>
            (\<exists>st'. rb_erase 128 t st = Some st' \<and> deadline_tree (deadline s') st' (cputimer s' c)))"
  using set_on_tree [OF assms] cancel_on_tree [OF h t(1)] by blast

text \<open>The clock at 100 ms: process 16 arms its timer of 7 ms next to that of process 8.\<close>

definition example_timers :: "ptr list \<Rightarrow> schedst" where
  "example_timers ts = \<lparr>pstate = \<lambda>_. RUNNABLE, pidle = \<lambda>_. False, pcnt = \<lambda>_. 0,
     ptimer = (\<lambda>_. \<lparr>triggered = False, elapse = 7, tkey = 0\<rparr>)(8 := \<lparr>triggered = False, elapse = 7, tkey = 105\<rparr>),
     runnable_queue = [], thisproc = \<lambda>_. 8, idleproc = \<lambda>_. 24, cputimer = \<lambda>_. ts, hello_timer = \<lambda>_. 32\<rparr>"

theorem cpu_timers_on_tree_witness:
  "\<exists>s' st'. set_cpu_timer 0 100 16 (example_timers [8]) = Some s' \<and> cputimer s' 0 = [8, 16]
     \<and> rb_insert 128 16 (timer_cmp s') \<lparr>rbheap = \<lambda>_. mkn Lft 1 0 0, rb_root = 8\<rparr> = Some (0, st')"
proof -
  let ?s = "example_timers [8]"
  let ?p = "(ptimer ?s)(16 := \<lparr>triggered = False, elapse = 7, tkey = 107\<rparr>)"
  let ?s' = "?s\<lparr>ptimer := ?p, cputimer := (cputimer ?s)(0 := [8, 16])\<rparr>"
  have eq: "set_cpu_timer 0 100 16 ?s = Some ?s'"
    by (simp add: set_cpu_timer_def example_timers_def timer_cmp_def word_sless_alt)
  have small: "\<forall>p. deadline ?s' p < 2 ^ 62" by (simp add: deadline_def example_timers_def)
  have r: "rb_rep \<lparr>rbheap = \<lambda>_. mkn Lft 1 0 0, rb_root = 8\<rparr> (T True E 8 E)"
    by (simp add: rb_rep_def aligned_def mkpc_def RB_BLACK_def)
  have "rbt (T True E 8 E)" by (auto simp: rbt_def intro: exI [of _ 1])
  then have h: "deadline_tree (deadline ?s) \<lparr>rbheap = \<lambda>_. mkn Lft 1 0 0, rb_root = 8\<rparr> (cputimer ?s 0)"
    using r by (auto simp: deadline_tree_def rb_tree_def example_timers_def intro!: exI [of _ "T True E 8 E"])
  have t: "(16 :: ptr) \<noteq> NULL" "aligned 16" by (simp_all add: aligned_def)
  from cpu_timers_on_tree [OF h t small, of 100] eq obtain st' where
    "rb_insert 128 16 (timer_cmp ?s') \<lparr>rbheap = \<lambda>_. mkn Lft 1 0 0, rb_root = 8\<rparr> = Some (0, st')" by blast
  with eq show ?thesis by (intro exI [of _ ?s'] exI [of _ st']) simp
qed

end
