(* ===== verification/Pipe.thy ===== *)
theory Pipe
  imports Sem
begin

text \<open>
  Pipes (\<open>fs/pipe.c\<close>, \<open>fs/pipe.h\<close>) with the semaphores they wait on.  \<open>p_locked\<close> is the spin lock of the
  pipe: a caller that would spin on it is the value \<^const>\<open>None\<close>, since nobody else gives it back
  while the caller waits.  A call that goes to sleep in \<open>wait_sem\<close> is split there; it keeps the lock.
\<close>

section \<open>State\<close>

definition PIPESIZE :: nat where "PIPESIZE = 512"

record Pipe =
  p_locked :: bool
  p_wlock :: Semaphore
  p_rlock :: Semaphore
  p_data :: "u8 list"
  nread :: u32
  nwrite :: u32
  readopen :: bool
  writeopen :: bool

record pipest =
  pipe :: Pipe
  pwaits :: "ptr \<Rightarrow> WaitData"
  psched :: schedst

definition init_pipe :: "u8 list \<Rightarrow> Pipe" where
  "init_pipe mem = \<lparr>p_locked = False, p_wlock = init_sem 0, p_rlock = init_sem 0, p_data = mem,
                    nread = 0, nwrite = 0, readopen = True, writeopen = True\<rparr>"

definition upd_pipe :: "(Pipe \<Rightarrow> Pipe) \<Rightarrow> pipest \<Rightarrow> pipest" where
  "upd_pipe f st = st\<lparr>pipe := f (pipe st)\<rparr>"

definition pipe_acquire :: "pipest \<Rightarrow> pipest option" where
  "pipe_acquire st = (if p_locked (pipe st) then None else Some (upd_pipe (\<lambda>p. p\<lparr>p_locked := True\<rparr>) st))"

definition pipe_release :: "pipest \<Rightarrow> pipest" where
  "pipe_release st = upd_pipe (\<lambda>p. p\<lparr>p_locked := False\<rparr>) st"

definition wlock_of :: "pipest \<Rightarrow> semst" where
  "wlock_of st = \<lparr>sem = p_wlock (pipe st), waits = pwaits st, ssched = psched st\<rparr>"

definition put_wlock :: "semst \<Rightarrow> pipest \<Rightarrow> pipest" where
  "put_wlock x st = st\<lparr>pipe := (pipe st)\<lparr>p_wlock := sem x\<rparr>, pwaits := waits x, psched := ssched x\<rparr>"

definition rlock_of :: "pipest \<Rightarrow> semst" where
  "rlock_of st = \<lparr>sem = p_rlock (pipe st), waits = pwaits st, ssched = psched st\<rparr>"

definition put_rlock :: "semst \<Rightarrow> pipest \<Rightarrow> pipest" where
  "put_rlock x st = st\<lparr>pipe := (pipe st)\<lparr>p_rlock := sem x\<rparr>, pwaits := waits x, psched := ssched x\<rparr>"

section \<open>Operations\<close>

definition put_byte :: "u8 \<Rightarrow> Pipe \<Rightarrow> Pipe" where
  "put_byte b p = p\<lparr>p_data := (p_data p)[unat (nwrite p) mod PIPESIZE := b], nwrite := nwrite p + 1\<rparr>"

definition take_byte :: "Pipe \<Rightarrow> u8 \<times> Pipe" where
  "take_byte p = (p_data p ! (unat (nread p) mod PIPESIZE), p\<lparr>nread := nread p + 1\<rparr>)"

text \<open>
  The result of a call: it returned, or it sleeps with so many bytes done.  \<open>c\<close>, \<open>now\<close> and \<open>w\<close> are the
  processor, the time and the address of the \<open>WaitData\<close> of a sleep.
\<close>

datatype 'a pcall = PRet 'a | PSleep nat

lemma wait_sem_begin_True:
  "wait_sem_begin c now w a x = Some (True, x') \<Longrightarrow> 0 < sval (sem x) \<and> sval (sem x') = sval (sem x) - 1"
  by (auto simp: wait_sem_begin_def Let_def Option_bind_Some_iff int_dec_Some split: if_splits)

function pipe_write_loop :: "nat \<Rightarrow> u64 \<Rightarrow> ptr \<Rightarrow> u8 list \<Rightarrow> nat \<Rightarrow> pipest \<Rightarrow> (int pcall \<times> pipest) option" where
  "pipe_write_loop c now w bs i st =
     (case bs of
        [] \<Rightarrow> Some (PRet (int i), pipe_release st)
      | b # rest \<Rightarrow>
          if nwrite (pipe st) = nread (pipe st) + of_nat PIPESIZE \<and> readopen (pipe st)
          then (case wait_sem_begin c now w True (wlock_of st) of
                  None \<Rightarrow> None
                | Some (True, x) \<Rightarrow> pipe_write_loop c now w bs i (put_wlock x st)
                | Some (False, x) \<Rightarrow> Some (PSleep i, put_wlock x st))
          else if \<not> readopen (pipe st) then Some (PRet (- 1), pipe_release st)
          else (case post_all_sem (rlock_of (upd_pipe (put_byte b) st)) of
                  None \<Rightarrow> None
                | Some (_, x) \<Rightarrow> pipe_write_loop c now w rest (Suc i) (put_rlock x (upd_pipe (put_byte b) st))))"
  by pat_completeness auto

termination pipe_write_loop
  by (relation "measures [\<lambda>(c, now, w, bs, i, st). length bs, \<lambda>(c, now, w, bs, i, st). nat (sval (p_wlock (pipe st)))]")
    (auto simp: put_wlock_def wlock_of_def dest: wait_sem_begin_True)

declare pipe_write_loop.simps [simp del]

definition pipeWrite :: "nat \<Rightarrow> u64 \<Rightarrow> ptr \<Rightarrow> u8 list \<Rightarrow> pipest \<Rightarrow> (int pcall \<times> pipest) option" where
  "pipeWrite c now w bs st = do { st1 \<leftarrow> pipe_acquire st; pipe_write_loop c now w bs 0 st1 }"

text \<open>A writer that runs again, with \<open>i\<close> bytes done and \<open>bs\<close> to come.\<close>

definition pipe_write_resume :: "nat \<Rightarrow> u64 \<Rightarrow> ptr \<Rightarrow> u8 list \<Rightarrow> nat \<Rightarrow> pipest \<Rightarrow> (int pcall \<times> pipest) option" where
  "pipe_write_resume c now w bs i st =
     do { (_, x) \<leftarrow> wait_sem_end w (wlock_of st); pipe_write_loop c now w bs i (put_wlock x st) }"

text \<open>The bytes read so far, in order, are the result of the read loop.\<close>

function pipe_read_loop :: "nat \<Rightarrow> u64 \<Rightarrow> ptr \<Rightarrow> nat \<Rightarrow> u8 list \<Rightarrow> pipest \<Rightarrow> (int pcall \<times> u8 list \<times> pipest) option" where
  "pipe_read_loop c now w n acc st =
     (case n of
        0 \<Rightarrow> Some (PRet (int (length acc)), acc, pipe_release st)
      | Suc m \<Rightarrow>
          if nread (pipe st) = nwrite (pipe st) \<and> writeopen (pipe st)
          then (case wait_sem_begin c now w True (rlock_of st) of
                  None \<Rightarrow> None
                | Some (True, x) \<Rightarrow> pipe_read_loop c now w n acc (put_rlock x st)
                | Some (False, x) \<Rightarrow> Some (PSleep (length acc), acc, put_rlock x st))
          else if nread (pipe st) = nwrite (pipe st) then Some (PRet (int (length acc)), acc, pipe_release st)
          else (let st1 = upd_pipe (snd \<circ> take_byte) st
                in case post_all_sem (wlock_of st1) of
                     None \<Rightarrow> None
                   | Some (_, x) \<Rightarrow> pipe_read_loop c now w m (acc @ [fst (take_byte (pipe st))]) (put_wlock x st1)))"
  by pat_completeness auto

termination pipe_read_loop
  by (relation "measures [\<lambda>(c, now, w, n, acc, st). n, \<lambda>(c, now, w, n, acc, st). nat (sval (p_rlock (pipe st)))]")
    (auto simp: put_rlock_def rlock_of_def dest: wait_sem_begin_True)

declare pipe_read_loop.simps [simp del]

definition pipeRead :: "nat \<Rightarrow> u64 \<Rightarrow> ptr \<Rightarrow> nat \<Rightarrow> pipest \<Rightarrow> (int pcall \<times> u8 list \<times> pipest) option" where
  "pipeRead c now w n st = do { st1 \<leftarrow> pipe_acquire st; pipe_read_loop c now w n [] st1 }"

text \<open>\<open>pipeClose\<close>: whether the pipe was freed.\<close>

definition pipeClose :: "bool \<Rightarrow> pipest \<Rightarrow> (bool \<times> pipest) option" where
  "pipeClose writable st =
     do { st1 \<leftarrow> pipe_acquire st;
          st2 \<leftarrow> (if writable
                 then do { let st2 = upd_pipe (\<lambda>p. p\<lparr>writeopen := False\<rparr>) st1;
                           (_, x) \<leftarrow> post_all_sem (rlock_of st2);
                           Some (put_rlock x st2) }
                 else do { let st2 = upd_pipe (\<lambda>p. p\<lparr>readopen := False\<rparr>) st1;
                           (_, x) \<leftarrow> post_all_sem (wlock_of st2);
                           Some (put_wlock x st2) });
          Some (\<not> readopen (pipe st2) \<and> \<not> writeopen (pipe st2), pipe_release st2) }"

section \<open>The content of a pipe\<close>

definition wf_pipe :: "Pipe \<Rightarrow> bool" where
  "wf_pipe p \<longleftrightarrow> length (p_data p) = PIPESIZE \<and> unat (nwrite p - nread p) \<le> PIPESIZE"

definition pipe_content :: "Pipe \<Rightarrow> u8 list" where
  "pipe_content p = map (\<lambda>k. p_data p ! ((unat (nread p) + k) mod PIPESIZE)) [0..<unat (nwrite p - nread p)]"

lemma length_pipe_content [simp]: "length (pipe_content p) = unat (nwrite p - nread p)"
  by (simp add: pipe_content_def)

lemma pipe_full_iff: "wf_pipe p \<Longrightarrow> nwrite p = nread p + of_nat PIPESIZE \<longleftrightarrow> length (pipe_content p) = PIPESIZE"
proof -
  have "nwrite p = nread p + of_nat PIPESIZE \<longleftrightarrow> nwrite p - nread p = of_nat PIPESIZE" by (auto simp: algebra_simps)
  also have "\<dots> \<longleftrightarrow> unat (nwrite p - nread p) = unat (of_nat PIPESIZE :: u32)" by (simp add: word_unat_eq_iff)
  finally show ?thesis by (simp add: PIPESIZE_def)
qed

lemma pipe_empty_iff: "nread p = nwrite p \<longleftrightarrow> pipe_content p = []"
  by (auto simp: pipe_content_def unat_eq_0)

lemma unat_Suc_mod: "unat (a + 1 :: u32) mod 512 = (unat a + 1) mod 512"
  by (simp add: unat_word_ariths mod_mod_cancel)

lemma unat_diff_Suc:
  assumes "unat (a - b :: u32) < 512" shows "unat (a + 1 - b) = Suc (unat (a - b))"
proof -
  have "a + 1 - b = (a - b) + 1" by (simp add: algebra_simps)
  moreover have "unat ((a - b) + 1) = unat (a - b) + 1" using assms by (simp add: unat_word_ariths)
  ultimately show ?thesis by (simp only: Suc_eq_plus1)
qed

lemma write_index:
  "unat (nwrite p) mod 512 = (unat (nread p) + unat (nwrite p - nread p)) mod 512"
proof -
  have "unat (nread p + (nwrite p - nread p)) = (unat (nread p) + unat (nwrite p - nread p)) mod 2 ^ LENGTH(32)"
    by (rule unat_word_ariths(1))
  then show ?thesis by (simp add: mod_mod_cancel)
qed

text \<open>Adding a byte to a pipe that is not full, taking a byte from one that is not empty.\<close>

lemma mod_offset_neq: "k < n \<Longrightarrow> n < 512 \<Longrightarrow> (r + k) mod 512 \<noteq> (r + n :: nat) mod 512"
proof
  assume k: "k < n" "n < 512" and "(r + k) mod 512 = (r + n) mod 512"
  then have "512 dvd (r + n) - (r + k)" using mod_eq_dvd_iff_nat [of "r + k" "r + n" 512] by simp
  then have "512 dvd n - k" by simp
  then show False using k dvd_imp_le [of 512 "n - k"] by simp
qed

lemma put_byte_content:
  assumes "wf_pipe p" "length (pipe_content p) < PIPESIZE"
  shows "wf_pipe (put_byte b p)" "pipe_content (put_byte b p) = pipe_content p @ [b]"
proof -
  let ?n = "unat (nwrite p - nread p)"
  have n: "?n < 512" using assms(2) by (simp add: PIPESIZE_def)
  have s: "unat (nwrite p + 1 - nread p) = Suc ?n" by (rule unat_diff_Suc [OF n])
  have d: "length (p_data p) = 512" using assms(1) by (simp add: wf_pipe_def PIPESIZE_def)
  show "wf_pipe (put_byte b p)" using d s n by (simp add: wf_pipe_def put_byte_def PIPESIZE_def)
  have "(p_data p)[unat (nwrite p) mod 512 := b] ! ((unat (nread p) + k) mod 512)
      = (if k = ?n then b else p_data p ! ((unat (nread p) + k) mod 512))" if "k \<le> ?n" for k
  proof (cases "k = ?n")
    case True
    then show ?thesis using d write_index [of p] by simp
  next
    case False
    have "(unat (nread p) + k) mod 512 \<noteq> (unat (nread p) + ?n) mod 512"
      by (rule mod_offset_neq) (use that False n in simp_all)
    then show ?thesis using False write_index [of p] by simp
  qed
  then show "pipe_content (put_byte b p) = pipe_content p @ [b]"
    by (simp add: pipe_content_def put_byte_def PIPESIZE_def s)
qed

lemma take_byte_content:
  assumes "wf_pipe p" "pipe_content p = x # xs"
  shows "wf_pipe (snd (take_byte p))" "fst (take_byte p) = x" "pipe_content (snd (take_byte p)) = xs"
proof -
  let ?n = "unat (nwrite p - nread p)"
  have n: "?n = Suc (length xs)" using arg_cong [OF assms(2), of length] by simp
  have "nwrite p - (nread p + 1) = (nwrite p - nread p) - 1" by (simp add: algebra_simps)
  moreover have "nwrite p - nread p \<noteq> 0" using n by auto
  ultimately have s: "unat (nwrite p - (nread p + 1)) = length xs" using n unat_minus_one by (metis diff_Suc_1)
  have e: "map (\<lambda>k. p_data p ! ((unat (nread p) + k) mod 512)) [0..<Suc (length xs)] = x # xs"
    using assms(2) n by (simp add: pipe_content_def PIPESIZE_def)
  then have e2: "p_data p ! (unat (nread p) mod 512) = x" "map (\<lambda>k. p_data p ! ((unat (nread p) + k) mod 512)) [Suc 0..<Suc (length xs)] = xs"
    by (simp_all add: upt_conv_Cons del: upt_Suc)
  show "wf_pipe (snd (take_byte p))" using assms(1) s n by (simp add: wf_pipe_def take_byte_def PIPESIZE_def)
  show "fst (take_byte p) = x" using e2(1) by (simp add: take_byte_def PIPESIZE_def)
  have "(unat (nread p + 1) + k) mod 512 = (unat (nread p) + Suc k) mod 512" for k
    using unat_Suc_mod [of "nread p"] by (metis add.commute add_Suc_right mod_add_left_eq plus_1_eq_Suc)
  then have "pipe_content (snd (take_byte p)) = map (\<lambda>k. p_data p ! ((unat (nread p) + Suc k) mod 512)) [0..<length xs]"
    by (simp add: pipe_content_def take_byte_def PIPESIZE_def s)
  also have "\<dots> = map (\<lambda>k. p_data p ! ((unat (nread p) + k) mod 512)) [Suc 0..<Suc (length xs)]"
    by (simp add: map_Suc_upt [symmetric] comp_def del: upt_Suc)
  finally show "pipe_content (snd (take_byte p)) = xs" using e2(2) by simp
qed

section \<open>Reading and writing\<close>

text \<open>Nobody waits on the pipe.\<close>

definition quiet :: "Pipe \<Rightarrow> bool" where
  "quiet p \<longleftrightarrow> p_wlock p = init_sem 0 \<and> p_rlock p = init_sem 0"

lemma post_all_quiet: "sem x = init_sem 0 \<Longrightarrow> post_all_sem x = Some (0, x)"
  by (subst post_all_sem_def, subst post_all_loop.simps) (cases x; simp add: post_sem_def get_sem_def init_sem_def int_inc_def INT_MAX_def)

lemma quiet_posts:
  assumes "quiet (pipe st)"
  shows "post_all_sem (rlock_of st) = Some (0, rlock_of st)" "put_rlock (rlock_of st) st = st"
    "post_all_sem (wlock_of st) = Some (0, wlock_of st)" "put_wlock (wlock_of st) st = st"
  using assms by (simp_all add: quiet_def rlock_of_def wlock_of_def put_rlock_def put_wlock_def post_all_quiet)

lemma pipe_bytes_frame [simp]:
  "quiet (put_byte b p) = quiet p" "readopen (put_byte b p) = readopen p" "writeopen (put_byte b p) = writeopen p"
  "p_locked (put_byte b p) = p_locked p" "quiet (snd (take_byte p)) = quiet p" "readopen (snd (take_byte p)) = readopen p"
  "writeopen (snd (take_byte p)) = writeopen p" "p_locked (snd (take_byte p)) = p_locked p"
  by (simp_all add: put_byte_def take_byte_def quiet_def)

lemma pipe_write_loop_fits:
  assumes "wf_pipe (pipe st)" "quiet (pipe st)" "readopen (pipe st)" "length (pipe_content (pipe st)) + length bs \<le> PIPESIZE"
  shows "\<exists>st'. pipe_write_loop c now w bs i st = Some (PRet (int (i + length bs)), pipe_release st')
     \<and> wf_pipe (pipe st') \<and> quiet (pipe st') \<and> pipe_content (pipe st') = pipe_content (pipe st) @ bs
     \<and> readopen (pipe st') \<and> writeopen (pipe st') = writeopen (pipe st)"
  using assms
proof (induction bs arbitrary: i st)
  case Nil
  then show ?case by (subst pipe_write_loop.simps) auto
next
  case (Cons b bs)
  let ?st = "upd_pipe (put_byte b) st"
  have lt: "length (pipe_content (pipe st)) < PIPESIZE" using Cons.prems(4) by simp
  have nf: "nwrite (pipe st) \<noteq> nread (pipe st) + of_nat PIPESIZE" using pipe_full_iff [OF Cons.prems(1)] lt by auto
  note p = put_byte_content [OF Cons.prems(1) lt, of b]
  have q: "quiet (pipe ?st)" "pipe ?st = put_byte b (pipe st)" using Cons.prems(2) by (simp_all add: upd_pipe_def)
  have "pipe_write_loop c now w (b # bs) i st = pipe_write_loop c now w bs (Suc i) ?st"
    by (subst pipe_write_loop.simps) (use nf Cons.prems(3) quiet_posts [OF q(1)] in simp)
  moreover have "wf_pipe (pipe ?st)" "readopen (pipe ?st)" "length (pipe_content (pipe ?st)) + length bs \<le> PIPESIZE"
    using p q(2) Cons.prems(3,4) by simp_all
  ultimately show ?case using Cons.IH [of ?st "Suc i"] q p by auto
qed

lemma pipe_read_loop_has:
  assumes "wf_pipe (pipe st)" "quiet (pipe st)" "pipe_content (pipe st) = xs @ ys" "n = length xs"
  shows "\<exists>st'. pipe_read_loop c now w n acc st = Some (PRet (int (length (acc @ xs))), acc @ xs, pipe_release st')
     \<and> wf_pipe (pipe st') \<and> quiet (pipe st') \<and> pipe_content (pipe st') = ys"
  using assms
proof (induction xs arbitrary: acc st n)
  case Nil
  then show ?case by (subst pipe_read_loop.simps) auto
next
  case (Cons x xs)
  let ?st = "upd_pipe (snd \<circ> take_byte) st"
  have c: "pipe_content (pipe st) = x # (xs @ ys)" using Cons.prems(3) by simp
  have ne: "nread (pipe st) \<noteq> nwrite (pipe st)" using c pipe_empty_iff by auto
  note t = take_byte_content [OF Cons.prems(1) c]
  have q: "quiet (pipe ?st)" "pipe ?st = snd (take_byte (pipe st))" using Cons.prems(2) by (simp_all add: upd_pipe_def)
  have "pipe_read_loop c now w n acc st = pipe_read_loop c now w (length xs) (acc @ [x]) ?st"
    by (subst pipe_read_loop.simps) (use ne t(2) Cons.prems(4) quiet_posts [OF q(1)] in simp)
  then show ?case using Cons.IH [of ?st "length xs" "acc @ [x]"] t q by auto
qed

lemma pipe_read_loop_eof:
  assumes "wf_pipe (pipe st)" "quiet (pipe st)" "\<not> writeopen (pipe st)" "length (pipe_content (pipe st)) < n"
  shows "\<exists>st'. pipe_read_loop c now w n acc st
     = Some (PRet (int (length (acc @ pipe_content (pipe st)))), acc @ pipe_content (pipe st), st')"
  using assms
proof (induction "pipe_content (pipe st)" arbitrary: acc st n)
  case Nil
  then have "nread (pipe st) = nwrite (pipe st)" using pipe_empty_iff by metis
  then show ?case using Nil by (subst pipe_read_loop.simps) (auto split: nat.split)
next
  case (Cons x xs)
  let ?st = "upd_pipe (snd \<circ> take_byte) st"
  obtain m where m: "n = Suc m" using Cons.prems(4) by (cases n) auto
  have ne: "nread (pipe st) \<noteq> nwrite (pipe st)" using Cons.hyps(2) pipe_empty_iff by (metis list.distinct(1))
  note t = take_byte_content [OF Cons.prems(1) Cons.hyps(2) [symmetric]]
  have q: "quiet (pipe ?st)" "pipe ?st = snd (take_byte (pipe st))" using Cons.prems(2) by (simp_all add: upd_pipe_def)
  have "pipe_read_loop c now w n acc st = pipe_read_loop c now w m (acc @ [x]) ?st"
    by (subst pipe_read_loop.simps) (use ne t(2) m quiet_posts [OF q(1)] in simp)
  moreover have "length (pipe_content (pipe st)) = Suc (length xs)" using Cons.hyps(2) by (metis length_Cons)
  ultimately show ?case using Cons.hyps(1) [of ?st m "acc @ [x]"] t q Cons.prems(3,4) Cons.hyps(2) [symmetric] m by auto
qed

lemma pipe_release_frame [simp]:
  "wf_pipe (pipe (pipe_release st)) = wf_pipe (pipe st)" "quiet (pipe (pipe_release st)) = quiet (pipe st)"
  "pipe_content (pipe (pipe_release st)) = pipe_content (pipe st)" "\<not> p_locked (pipe (pipe_release st))"
  "readopen (pipe (pipe_release st)) = readopen (pipe st)" "writeopen (pipe (pipe_release st)) = writeopen (pipe st)"
  by (simp_all add: pipe_release_def upd_pipe_def wf_pipe_def quiet_def pipe_content_def)

lemma pipe_acquire_frame:
  assumes "\<not> p_locked (pipe st)"
  obtains st1 where "pipe_acquire st = Some st1" "wf_pipe (pipe st1) = wf_pipe (pipe st)" "quiet (pipe st1) = quiet (pipe st)"
    "pipe_content (pipe st1) = pipe_content (pipe st)" "readopen (pipe st1) = readopen (pipe st)" "writeopen (pipe st1) = writeopen (pipe st)"
  using assms that by (simp add: pipe_acquire_def upd_pipe_def wf_pipe_def quiet_def pipe_content_def)

section \<open>Properties\<close>

text \<open>
  C36: a pipe is a bounded queue of bytes.  On a pipe nobody waits on, with its read end open: a write
  of bytes that fit returns their number and appends them; a read of at most the bytes there returns
  them from the front, in order, and removes them; a read for more, after the write end was closed,
  returns what is left.  The counters may wrap around.
\<close>

theorem pipe_refines_queue:
  assumes "wf_pipe (pipe st)" "quiet (pipe st)" "\<not> p_locked (pipe st)" "readopen (pipe st)"
  shows "(length (pipe_content (pipe st)) + length bs \<le> PIPESIZE \<longrightarrow>
           (\<exists>st'. pipeWrite c now w bs st = Some (PRet (int (length bs)), st') \<and> wf_pipe (pipe st') \<and> quiet (pipe st')
                 \<and> \<not> p_locked (pipe st') \<and> pipe_content (pipe st') = pipe_content (pipe st) @ bs))
    \<and> (n \<le> length (pipe_content (pipe st)) \<longrightarrow>
           (\<exists>st'. pipeRead c now w n st = Some (PRet (int n), take n (pipe_content (pipe st)), st') \<and> wf_pipe (pipe st')
                 \<and> quiet (pipe st') \<and> \<not> p_locked (pipe st') \<and> pipe_content (pipe st') = drop n (pipe_content (pipe st))))
    \<and> (\<not> writeopen (pipe st) \<and> length (pipe_content (pipe st)) < n \<longrightarrow>
           (\<exists>st'. pipeRead c now w n st = Some (PRet (int (length (pipe_content (pipe st)))), pipe_content (pipe st), st')))"
    (is "?W \<and> ?R \<and> ?E")
proof (intro conjI)
  obtain st1 where a: "pipe_acquire st = Some st1" "wf_pipe (pipe st1)" "quiet (pipe st1)"
    "pipe_content (pipe st1) = pipe_content (pipe st)" "readopen (pipe st1)" "writeopen (pipe st1) = writeopen (pipe st)"
    using assms by (auto elim: pipe_acquire_frame)
  show ?W
  proof
    assume "length (pipe_content (pipe st)) + length bs \<le> PIPESIZE"
    then obtain st' where "pipe_write_loop c now w bs 0 st1 = Some (PRet (int (0 + length bs)), pipe_release st')"
      "wf_pipe (pipe st')" "quiet (pipe st')" "pipe_content (pipe st') = pipe_content (pipe st) @ bs"
      using pipe_write_loop_fits [OF a(2,3,5), of bs c now w 0] a(4) by auto
    then show "\<exists>st'. pipeWrite c now w bs st = Some (PRet (int (length bs)), st') \<and> wf_pipe (pipe st') \<and> quiet (pipe st')
         \<and> \<not> p_locked (pipe st') \<and> pipe_content (pipe st') = pipe_content (pipe st) @ bs"
      using a(1) by (intro exI [of _ "pipe_release st'"]) (simp add: pipeWrite_def)
  qed
  show ?R
  proof
    assume n: "n \<le> length (pipe_content (pipe st))"
    let ?xs = "take n (pipe_content (pipe st))" and ?ys = "drop n (pipe_content (pipe st))"
    have "pipe_content (pipe st1) = ?xs @ ?ys" "n = length ?xs" using a(4) n by simp_all
    from pipe_read_loop_has [OF a(2,3) this, of c now w "[]"] n obtain st' where
      "pipe_read_loop c now w n [] st1 = Some (PRet (int n), ?xs, pipe_release st')"
      "wf_pipe (pipe st')" "quiet (pipe st')" "pipe_content (pipe st') = ?ys" by (auto simp: min_absorb2)
    then show "\<exists>st'. pipeRead c now w n st = Some (PRet (int n), ?xs, st') \<and> wf_pipe (pipe st')
         \<and> quiet (pipe st') \<and> \<not> p_locked (pipe st') \<and> pipe_content (pipe st') = ?ys"
      using a(1) by (intro exI [of _ "pipe_release st'"]) (simp add: pipeRead_def)
  qed
  show ?E
  proof
    assume "\<not> writeopen (pipe st) \<and> length (pipe_content (pipe st)) < n"
    then show "\<exists>st'. pipeRead c now w n st = Some (PRet (int (length (pipe_content (pipe st)))), pipe_content (pipe st), st')"
      using pipe_read_loop_eof [OF a(2,3), of n c now w "[]"] a(1,4,6) by (auto simp: pipeRead_def)
  qed
qed

definition example_pipe :: "schedst \<Rightarrow> pipest" where
  "example_pipe s = \<lparr>pipe = init_pipe (replicate 512 0), pwaits = (\<lambda>_. \<lparr>w_up = False, w_proc = 0\<rparr>), psched = s\<rparr>"

lemma example_pipe_simps:
  "wf_pipe (pipe (example_pipe s))" "quiet (pipe (example_pipe s))" "\<not> p_locked (pipe (example_pipe s))"
  "readopen (pipe (example_pipe s))" "writeopen (pipe (example_pipe s))" "pipe_content (pipe (example_pipe s)) = []"
  by (simp_all add: example_pipe_def init_pipe_def wf_pipe_def quiet_def pipe_content_def PIPESIZE_def)

theorem pipe_refines_queue_witness:
  "\<exists>s st. pipeWrite 0 0 128 [1, 2, 3] (example_pipe s) = Some (PRet 3, st) \<and> pipe_content (pipe st) = [1, 2, 3]"
proof -
  let ?s = "sched_init (\<lambda>i. of_nat i) (\<lambda>i. of_nat i)"
  from pipe_refines_queue [OF example_pipe_simps(1-4) [of ?s], of "[1, 2, 3]" 0 0 128 0] obtain st where
    "pipeWrite 0 0 128 [1, 2, 3] (example_pipe ?s) = Some (PRet 3, st)" "pipe_content (pipe st) = [1, 2, 3]"
    by (auto simp: example_pipe_simps PIPESIZE_def)
  then show ?thesis by blast
qed

lemma put_wlock_locked [simp]: "p_locked (pipe (put_wlock x st)) = p_locked (pipe st)" "p_locked (pipe (put_rlock x st)) = p_locked (pipe st)"
  by (simp_all add: put_wlock_def put_rlock_def)

lemma pipe_write_loop_sleep:
  "p_locked (pipe st) \<Longrightarrow> pipe_write_loop c now w bs i st = Some (PSleep k, st') \<Longrightarrow> p_locked (pipe st')"
proof (induction c now w bs i st rule: pipe_write_loop.induct)
  case (1 c now w bs i st)
  note U = 1(4) [unfolded pipe_write_loop.simps [of c now w bs i st]]
  show ?case
  proof (cases bs)
    case Nil
    then show ?thesis using U by simp
  next
    case (Cons b rest)
    show ?thesis
    proof (cases "nwrite (pipe st) = nread (pipe st) + of_nat PIPESIZE \<and> readopen (pipe st)")
      case full: True
      then obtain r x where x: "wait_sem_begin c now w True (wlock_of st) = Some (r, x)"
        using U Cons by (auto split: option.splits)
      show ?thesis
      proof (cases r)
        case True
        then have "pipe_write_loop c now w bs i (put_wlock x st) = Some (PSleep k, st')"
          using U Cons full x by simp
        then show ?thesis using 1(1) [OF Cons full x refl] True 1(3) by simp
      next
        case False
        then show ?thesis using U 1(3) Cons full x by auto
      qed
    next
      case room: False
      then have ro: "readopen (pipe st)" using U Cons by (auto split: if_splits)
      then obtain r x where x: "post_all_sem (rlock_of (upd_pipe (put_byte b) st)) = Some (r, x)"
        using U Cons room by (auto split: option.splits)
      then have "pipe_write_loop c now w rest (Suc i) (put_rlock x (upd_pipe (put_byte b) st)) = Some (PSleep k, st')"
        using U Cons room ro by auto
      then show ?thesis using 1(2) [OF Cons room _ x refl] 1(3) ro by (auto simp: upd_pipe_def)
    qed
  qed
qed

text \<open>
  C37: a writer that finds the pipe full goes to sleep with the lock of the pipe in its hands.  From then
  on every read, write and close of the pipe spins on the lock: nobody can make room or wake it.
\<close>

theorem pipe_sleep_deadlock:
  assumes "pipeWrite c now w bs st = Some (PSleep k, st')"
  shows "pipeRead c' now' w' n st' = None \<and> pipeWrite c' now' w' bs' st' = None \<and> pipeClose wr st' = None"
proof -
  from assms obtain st1 where "pipe_acquire st = Some st1" "pipe_write_loop c now w bs 0 st1 = Some (PSleep k, st')"
    by (auto simp: pipeWrite_def Option_bind_Some_iff)
  moreover from this(1) have "p_locked (pipe st1)" by (auto simp: pipe_acquire_def upd_pipe_def split: if_splits)
  ultimately have "p_locked (pipe st')" by (auto dest: pipe_write_loop_sleep)
  then show ?thesis by (simp add: pipeRead_def pipeWrite_def pipeClose_def pipe_acquire_def)
qed

lemma pipe_write_full_sleeps:
  assumes "nwrite (pipe st) = nread (pipe st) + of_nat PIPESIZE" "readopen (pipe st)" "wait_sem_begin c now w True (wlock_of st) = Some (False, x)"
  shows "pipe_write_loop c now w (b # bs) i st = Some (PSleep i, put_wlock x st)"
  using assms by (subst pipe_write_loop.simps) simp

theorem pipe_sleep_deadlock_witness:
  "\<exists>st st'. pipeWrite 0 9 128 [7] st = Some (PSleep 0, st') \<and> pipeRead 1 10 192 1 st' = None"
proof -
  obtain idles hellos s where s: "sched_reach idles hellos s" "\<not> pidle s (thisproc s 0)" using sem_run_example by blast
  let ?st = "(example_pipe s)\<lparr>pipe := (init_pipe (replicate 512 0))\<lparr>nwrite := 512\<rparr>\<rparr>"
  obtain st1 where a: "pipe_acquire ?st = Some st1" "st1 = upd_pipe (\<lambda>p. p\<lparr>p_locked := True\<rparr>) ?st"
    by (simp add: pipe_acquire_def init_pipe_def)
  have w: "wlock_of st1 = \<lparr>sem = init_sem 0, waits = (\<lambda>_. \<lparr>w_up = False, w_proc = 0\<rparr>), ssched = s\<rparr>"
    unfolding a(2) by (simp add: wlock_of_def example_pipe_def init_pipe_def upd_pipe_def)
  have "sem_run 0 0 0 {} (wlock_of st1)" unfolding w by (rule sem_run.init [OF _ s(1)]) simp
  then have inv: "sem_inv {} (wlock_of st1)" using sem_run_inv by blast
  obtain x where x: "wait_sem_begin 0 9 128 True (wlock_of st1) = Some (False, x)"
    using wait_sem_begin_inv [OF inv, of 0 128 9 True] s(2) w by (auto simp: NCPU_def init_sem_def INT_MIN_def)
  have "pipe_write_loop 0 9 128 [7] 0 st1 = Some (PSleep 0, put_wlock x st1)"
    by (rule pipe_write_full_sleeps [OF _ _ x]) (simp_all add: a(2) upd_pipe_def init_pipe_def PIPESIZE_def)
  then have "pipeWrite 0 9 128 [7] ?st = Some (PSleep 0, put_wlock x st1)" using a(1) by (simp add: pipeWrite_def)
  from this pipe_sleep_deadlock [OF this, of 1 10 192 1 "[]" True] show ?thesis by blast
qed

end
