(* ===== verification/File.thy ===== *)
theory File
  imports Inode_File Pipe Mem_Run
begin

text \<open>
  Open files (\<open>fs/file.c\<close>, \<open>fs/file.h\<close>) and the allocation of pipes (\<open>fs/pipe.c\<close>) over inodes, pipes, the
  heap and the scheduler.  A file is named by its index in \<open>ftable.files\<close>; the union of its pipe and
  its inode is a datatype.  The lock of the table is held for a whole operation.  A call that has to
  wait in \<open>begin_op\<close> is the value \<^const>\<open>None\<close>.
\<close>

section \<open>State\<close>

definition NFILE :: nat where "NFILE = 65536"

datatype ftype = FD_NONE | FD_PIPE | FD_INODE
datatype fobj = NoObj | PipeObj ptr | IpObj nat

record File =
  f_type :: ftype
  f_ref :: int
  f_readable :: bool
  f_writable :: bool
  f_obj :: fobj
  f_off :: usize

record filest =
  files :: "nat \<Rightarrow> File"
  ino :: inodest
  pipes :: "ptr \<Rightarrow> Pipe"
  fwaits :: "ptr \<Rightarrow> WaitData"
  fsched :: schedst
  fmem :: memst
  ofiles :: "nat \<Rightarrow> nat option"
  cwd :: nat

definition upd_file :: "nat \<Rightarrow> (File \<Rightarrow> File) \<Rightarrow> filest \<Rightarrow> filest" where
  "upd_file f g s = s\<lparr>files := (files s)(f := g (files s f))\<rparr>"

definition init_ftable :: "filest \<Rightarrow> filest" where
  "init_ftable s = s\<lparr>files := (\<lambda>i. if i < NFILE then (files s i)\<lparr>f_type := FD_NONE\<rparr> else files s i)\<rparr>"

definition init_oftable :: "filest \<Rightarrow> filest" where
  "init_oftable s = s\<lparr>ofiles := (\<lambda>i. if i < NFILE then None else ofiles s i)\<rparr>"

text \<open>The operation of a caller on the log: \<open>bcache.begin_op(&ctx)\<close> and \<open>bcache.end_op(&ctx)\<close>.\<close>

definition fs_begin :: "filest \<Rightarrow> (OpContext option \<times> filest) option" where
  "fs_begin s = (case cache_begin_op (icache (ino s)) of
     (Some c, st) \<Rightarrow> Some (Some c, s\<lparr>ino := (ino s)\<lparr>icache := st\<rparr>\<rparr>) | (None, _) \<Rightarrow> None)"

definition fs_end :: "OpContext option \<Rightarrow> filest \<Rightarrow> filest option" where
  "fs_end ctx s = do { st \<leftarrow> cache_end_op ctx (icache (ino s)); Some (s\<lparr>ino := (ino s)\<lparr>icache := st\<rparr>\<rparr>) }"

definition ilock :: "nat \<Rightarrow> filest \<Rightarrow> filest option" where
  "ilock i s = do { n \<leftarrow> inode_lock i (ino s); Some (s\<lparr>ino := n\<rparr>) }"

definition iunlock :: "nat \<Rightarrow> filest \<Rightarrow> filest option" where
  "iunlock i s = do { n \<leftarrow> inode_unlock i (ino s); Some (s\<lparr>ino := n\<rparr>) }"

definition iput :: "OpContext option \<Rightarrow> nat \<Rightarrow> filest \<Rightarrow> (OpContext option \<times> filest) option" where
  "iput ctx i s = do { (ctx1, n) \<leftarrow> inode_put ctx i (ino s); Some (ctx1, s\<lparr>ino := n\<rparr>) }"

definition pipe_view :: "ptr \<Rightarrow> filest \<Rightarrow> pipest" where
  "pipe_view p s = \<lparr>pipe = pipes s p, pwaits = fwaits s, psched = fsched s\<rparr>"

definition put_pipe :: "ptr \<Rightarrow> pipest \<Rightarrow> filest \<Rightarrow> filest" where
  "put_pipe p st s = s\<lparr>pipes := (pipes s)(p := pipe st), fwaits := pwaits st, fsched := psched st\<rparr>"

section \<open>Operations\<close>

definition file_alloc :: "filest \<Rightarrow> nat option \<times> filest" where
  "file_alloc s = (case find (\<lambda>i. f_ref (files s i) = 0) [0..<NFILE] of
     Some i \<Rightarrow> (Some i, upd_file i (\<lambda>f. f\<lparr>f_ref := 1\<rparr>) s) | None \<Rightarrow> (None, s))"

definition file_dup :: "nat \<Rightarrow> filest \<Rightarrow> filest" where
  "file_dup f s = (if f_ref (files s f) < int NFILE then upd_file f (\<lambda>x. x\<lparr>f_ref := f_ref x + 1\<rparr>) s else s)"

definition close_pipe_end :: "ptr \<Rightarrow> bool \<Rightarrow> filest \<Rightarrow> filest option" where
  "close_pipe_end p writable s =
     do { (freed, st) \<leftarrow> pipeClose writable (pipe_view p s);
          let s1 = put_pipe p st s;
          Some (if freed then s1\<lparr>fmem := kfree p (fmem s1)\<rparr> else s1) }"

definition file_close :: "nat \<Rightarrow> filest \<Rightarrow> filest option" where
  "file_close f s =
     (let s1 = upd_file f (\<lambda>x. x\<lparr>f_ref := f_ref x - 1\<rparr>) s
      in if f_ref (files s1 f) = 0
         then do { s2 \<leftarrow> (case (f_type (files s1 f), f_obj (files s1 f)) of
                           (FD_INODE, IpObj ip) \<Rightarrow>
                             do { (ctx, t) \<leftarrow> fs_begin s1; (ctx1, t1) \<leftarrow> iput ctx ip t; fs_end ctx1 t1 }
                         | (FD_PIPE, PipeObj p) \<Rightarrow> close_pipe_end p (f_writable (files s1 f)) s1
                         | (FD_NONE, _) \<Rightarrow> Some s1
                         | _ \<Rightarrow> None);
                   Some (upd_file f (\<lambda>x. x\<lparr>f_type := FD_NONE\<rparr>) s2) }
         else Some s1)"

definition file_stat :: "nat \<Rightarrow> filest \<Rightarrow> (int \<times> stat option \<times> filest) option" where
  "file_stat f s =
     (case (f_type (files s f), f_obj (files s f)) of
        (FD_INODE, IpObj ip) \<Rightarrow>
          do { s1 \<leftarrow> ilock ip s;
               st \<leftarrow> stati (iheap (ino s1) ip);
               s2 \<leftarrow> iunlock ip s1;
               Some (0, Some st, s2) }
      | _ \<Rightarrow> Some (- 1, None, s))"

text \<open>\<open>c\<close>, \<open>now\<close> and \<open>w\<close> are those of a sleep in a pipe.  The result of a read comes with its bytes.\<close>

definition file_read :: "nat \<Rightarrow> u64 \<Rightarrow> ptr \<Rightarrow> nat \<Rightarrow> usize \<Rightarrow> filest \<Rightarrow> (int pcall \<times> u8 list \<times> filest) option" where
  "file_read c now w f n s =
     (let x = files s f
      in case (f_type x, f_obj x) of
           (FD_INODE, IpObj ip) \<Rightarrow>
             (if f_readable x
              then do { s1 \<leftarrow> ilock ip s;
                        (bs, m) \<leftarrow> inode_read ip (f_off x) n (ino s1);
                        s2 \<leftarrow> iunlock ip (s1\<lparr>ino := m\<rparr>);
                        Some (PRet (int (length bs)), bs,
                              if bs \<noteq> [] then upd_file f (\<lambda>y. y\<lparr>f_off := f_off y + of_nat (length bs)\<rparr>) s2 else s2) }
              else Some (PRet (- 1), [], s))
         | (FD_PIPE, PipeObj p) \<Rightarrow>
             (if f_readable x
              then do { (r, bs, st) \<leftarrow> pipeRead c now w (unat n) (pipe_view p s); Some (r, bs, put_pipe p st s) }
              else Some (PRet (- 1), [], s))
         | _ \<Rightarrow> Some (PRet (- 1), [], s))"

definition file_write :: "nat \<Rightarrow> u64 \<Rightarrow> ptr \<Rightarrow> nat \<Rightarrow> u8 list \<Rightarrow> filest \<Rightarrow> (int pcall \<times> filest) option" where
  "file_write c now w f bs s =
     (let x = files s f
      in case (f_type x, f_obj x) of
           (FD_INODE, IpObj ip) \<Rightarrow>
             (if f_writable x
              then do { (ctx, s1) \<leftarrow> fs_begin s;
                        s2 \<leftarrow> ilock ip s1;
                        (r, ctx1, m) \<leftarrow> inode_write ctx ip bs (f_off x) (ino s2);
                        s3 \<leftarrow> iunlock ip (s2\<lparr>ino := m\<rparr>);
                        s4 \<leftarrow> fs_end ctx1 s3;
                        Some (PRet (uint r), if r > 0 then upd_file f (\<lambda>y. y\<lparr>f_off := f_off y + r\<rparr>) s4 else s4) }
              else Some (PRet (- 1), s))
         | (FD_PIPE, PipeObj p) \<Rightarrow>
             (if f_writable x
              then do { (r, st) \<leftarrow> pipeWrite c now w bs (pipe_view p s); Some (r, put_pipe p st s) }
              else Some (PRet (- 1), s))
         | _ \<Rightarrow> Some (PRet (- 1), s))"

text \<open>
  \<open>pipeAlloc\<close>.  The call \<open>kalloc()\<close> names no size; the size it gets is the argument \<open>sz\<close>, and \<open>mem\<close> is
  what the block holds.
\<close>

definition pipeAlloc :: "usize \<Rightarrow> u8 list \<Rightarrow> filest \<Rightarrow> (int \<times> (nat \<times> nat) option \<times> filest) option" where
  "pipeAlloc sz mem s =
     do { (p, m) \<leftarrow> kalloc sz (fmem s);
          if p = NULL then Some (- 1, None, s\<lparr>fmem := m\<rparr>)
          else do { let s1 = s\<lparr>fmem := m, pipes := (pipes s)(p := init_pipe mem)\<rparr>;
                    let (f0, s2) = file_alloc s1;
                    let (f1, s3) = file_alloc s2;
                    case (f0, f1) of
                      (Some a, Some b) \<Rightarrow>
                        Some (0, Some (a, b),
                          upd_file b (\<lambda>x. x\<lparr>f_type := FD_PIPE, f_readable := False, f_writable := True, f_obj := PipeObj p\<rparr>)
                            (upd_file a (\<lambda>x. x\<lparr>f_type := FD_PIPE, f_readable := True, f_writable := False, f_obj := PipeObj p\<rparr>) s3))
                    | _ \<Rightarrow>
                        do { s4 \<leftarrow> (case f0 of Some a \<Rightarrow> file_close a s3 | None \<Rightarrow> Some s3);
                             s5 \<leftarrow> (case f1 of Some b \<Rightarrow> file_close b s4 | None \<Rightarrow> Some s4);
                             Some (- 1, None, s5\<lparr>fmem := kfree p (fmem s5)\<rparr>) } } }"

end
