(* ===== verification/Sysfile.thy ===== *)
theory Sysfile
  imports File
begin

text \<open>
  The file system calls (\<open>kernel/sysfile.c\<close>) and the checks of user memory (\<open>kernel/syscall.c\<close>).
  \<open>user_readable\<close> and \<open>user_writeable\<close> have no body in the source; they are the arguments \<open>ur\<close> and \<open>uw\<close>.
  \<open>um\<close> is the memory of the user.  A file descriptor is an \<open>int\<close>.  The calls on a path go through
  \<open>namei\<close> and \<open>nameiparent\<close> of the inode layer as they are in the source.
\<close>

section \<open>Checking user memory\<close>

type_synonym access = "u64 \<Rightarrow> usize \<Rightarrow> bool"

fun user_strlen_loop :: "access \<Rightarrow> (u64 \<Rightarrow> u8) \<Rightarrow> u64 \<Rightarrow> nat \<Rightarrow> nat \<Rightarrow> nat" where
  "user_strlen_loop ur um str i 0 = 0"
| "user_strlen_loop ur um str i (Suc left) =
     (if ur (str + of_nat i) 1
      then (if um (str + of_nat i) = 0 then i + 1 else user_strlen_loop ur um str (Suc i) left)
      else 0)"

definition user_strlen :: "access \<Rightarrow> (u64 \<Rightarrow> u8) \<Rightarrow> u64 \<Rightarrow> nat \<Rightarrow> nat" where
  "user_strlen ur um str maxlen = user_strlen_loop ur um str 0 maxlen"

definition user_bytes :: "(u64 \<Rightarrow> u8) \<Rightarrow> u64 \<Rightarrow> nat \<Rightarrow> u8 list" where
  "user_bytes um a n = map (\<lambda>i. um (a + of_nat i)) [0..<n]"

definition user_path :: "access \<Rightarrow> (u64 \<Rightarrow> u8) \<Rightarrow> u64 \<Rightarrow> u8 list" where
  "user_path ur um path = user_bytes um path (user_strlen ur um path 256 - 1)"

section \<open>Descriptors\<close>

definition NOFILE :: nat where "NOFILE = 1024"

definition fd2file :: "int \<Rightarrow> filest \<Rightarrow> nat option" where
  "fd2file fd s = (if fd < 0 \<or> fd \<ge> int NOFILE then None else ofiles s (nat fd))"

definition fdalloc :: "nat \<Rightarrow> filest \<Rightarrow> int \<times> filest" where
  "fdalloc f s = (case find (\<lambda>fd. ofiles s fd = None) [0..<NOFILE] of
     Some fd \<Rightarrow> (int fd, s\<lparr>ofiles := (ofiles s)(fd := Some f)\<rparr>) | None \<Rightarrow> (- 1, s))"

section \<open>Calls on descriptors\<close>

definition sys_ioctl :: "int \<Rightarrow> u64 \<Rightarrow> int option" where
  "sys_ioctl fd request = do { ASSERT (request = 0x5413); Some 0 }"

definition sys_mmap :: "u64 \<Rightarrow> int \<Rightarrow> int \<Rightarrow> int \<Rightarrow> int \<Rightarrow> int \<Rightarrow> int" where
  "sys_mmap addr len prot flags fd offset = 0"

definition sys_munmap :: "u64 \<Rightarrow> usize \<Rightarrow> int" where
  "sys_munmap addr len = 0"

definition sys_dup :: "int \<Rightarrow> filest \<Rightarrow> int \<times> filest" where
  "sys_dup fd s =
     (case fd2file fd s of
        None \<Rightarrow> (- 1, s)
      | Some f \<Rightarrow> (let (fd', s1) = fdalloc f s in if fd' < 0 then (- 1, s1) else (fd', file_dup f s1)))"

definition sys_read :: "access \<Rightarrow> nat \<Rightarrow> u64 \<Rightarrow> ptr \<Rightarrow> int \<Rightarrow> u64 \<Rightarrow> int \<Rightarrow> filest \<Rightarrow> (int pcall \<times> u8 list \<times> filest) option" where
  "sys_read uw c now w fd buffer n s =
     (case fd2file fd s of
        None \<Rightarrow> Some (PRet (- 1), [], s)
      | Some f \<Rightarrow> if n \<le> 0 \<or> \<not> uw buffer (of_int n) then Some (PRet (- 1), [], s)
                  else file_read c now w f (of_int n) s)"

definition sys_write :: "access \<Rightarrow> (u64 \<Rightarrow> u8) \<Rightarrow> nat \<Rightarrow> u64 \<Rightarrow> ptr \<Rightarrow> int \<Rightarrow> u64 \<Rightarrow> int \<Rightarrow> filest \<Rightarrow> (int pcall \<times> filest) option" where
  "sys_write ur um c now w fd buffer n s =
     (case fd2file fd s of
        None \<Rightarrow> Some (PRet (- 1), s)
      | Some f \<Rightarrow> if n \<le> 0 \<or> \<not> ur buffer (of_int n) then Some (PRet (- 1), s)
                  else file_write c now w f (user_bytes um buffer (nat n)) s)"

text \<open>The loop of \<open>writev\<close> over the vector of buffers; a sleep in a pipe ends the step.\<close>

fun writev_loop :: "access \<Rightarrow> (u64 \<Rightarrow> u8) \<Rightarrow> nat \<Rightarrow> u64 \<Rightarrow> ptr \<Rightarrow> nat \<Rightarrow> (u64 \<times> usize) list \<Rightarrow> usize \<Rightarrow> filest \<Rightarrow> (int pcall \<times> filest) option" where
  "writev_loop ur um c now w f [] tot s = Some (PRet (uint tot), s)"
| "writev_loop ur um c now w f ((base, len) # iov) tot s =
     (if \<not> ur base len then Some (PRet (- 1), s)
      else case file_write c now w f (user_bytes um base (unat len)) s of
             None \<Rightarrow> None
           | Some (PSleep k, s1) \<Rightarrow> Some (PSleep k, s1)
           | Some (PRet r, s1) \<Rightarrow> writev_loop ur um c now w f iov (tot + of_int r) s1)"

definition sys_writev :: "access \<Rightarrow> (u64 \<Rightarrow> u8) \<Rightarrow> nat \<Rightarrow> u64 \<Rightarrow> ptr \<Rightarrow> int \<Rightarrow> u64 \<Rightarrow> (u64 \<times> usize) list \<Rightarrow> int \<Rightarrow> filest \<Rightarrow> (int pcall \<times> filest) option" where
  "sys_writev ur um c now w fd iov vec iovcnt s =
     (case fd2file fd s of
        None \<Rightarrow> Some (PRet (- 1), s)
      | Some f \<Rightarrow> if iovcnt \<le> 0 \<or> \<not> ur iov (16 * of_int iovcnt) then Some (PRet (- 1), s)
                  else writev_loop ur um c now w f (take (nat iovcnt) vec) 0 s)"

definition sys_close :: "int \<Rightarrow> filest \<Rightarrow> (int \<times> filest) option" where
  "sys_close fd s =
     (case fd2file fd s of
        None \<Rightarrow> Some (- 1, s)
      | Some f \<Rightarrow> do { s1 \<leftarrow> file_close f s; Some (0, s1\<lparr>ofiles := (ofiles s1)(nat fd := None)\<rparr>) })"

definition sys_fstat :: "access \<Rightarrow> int \<Rightarrow> u64 \<Rightarrow> usize \<Rightarrow> filest \<Rightarrow> (int \<times> stat option \<times> filest) option" where
  "sys_fstat uw fd st stsz s =
     (case fd2file fd s of
        None \<Rightarrow> Some (- 1, None, s)
      | Some f \<Rightarrow> if \<not> uw st stsz then Some (- 1, None, s) else file_stat f s)"

section \<open>Calls on paths\<close>

definition AT_FDCWD :: int where "AT_FDCWD = - 100"

definition sys_newfstatat :: "access \<Rightarrow> access \<Rightarrow> (u64 \<Rightarrow> u8) \<Rightarrow> int \<Rightarrow> u64 \<Rightarrow> u64 \<Rightarrow> usize \<Rightarrow> int \<Rightarrow> filest \<Rightarrow> (int \<times> stat option \<times> filest) option" where
  "sys_newfstatat ur uw um dirfd path st stsz flags s =
     (if user_strlen ur um path 256 = 0 \<or> \<not> uw st stsz then Some (- 1, None, s)
      else if dirfd \<noteq> AT_FDCWD then Some (- 1, None, s)
      else if flags \<noteq> 0 then Some (- 1, None, s)
      else do { (ctx, s1) \<leftarrow> fs_begin s;
                case namei (user_path ur um path) ctx of
                  None \<Rightarrow> do { s2 \<leftarrow> fs_end ctx s1; Some (- 1, None, s2) }
                | Some ip \<Rightarrow>
                    do { s2 \<leftarrow> ilock ip s1;
                         r \<leftarrow> stati (iheap (ino s2) ip);
                         s3 \<leftarrow> iunlock ip s2;
                         (ctx1, s4) \<leftarrow> iput ctx ip s3;
                         s5 \<leftarrow> fs_end ctx1 s4;
                         Some (0, Some r, s5) } })"

text \<open>\<open>isdirempty\<close>: the offsets it visits are 32, 48 and so on.\<close>

fun isdirempty_loop :: "nat \<Rightarrow> nat list \<Rightarrow> inodest \<Rightarrow> (bool \<times> inodest) option" where
  "isdirempty_loop dp [] n = Some (True, n)"
| "isdirempty_loop dp (off # offs) n =
     do { (bs, n1) \<leftarrow> inode_read dp (of_nat off) 16 n;
          if length bs \<noteq> 16 then PANIC
          else if de_inode_no (dir_entry_of bs) \<noteq> 0 then Some (False, n1)
          else isdirempty_loop dp offs n1 }"

definition isdirempty :: "nat \<Rightarrow> inodest \<Rightarrow> (bool \<times> inodest) option" where
  "isdirempty dp n =
     (let k = unat (ie_num_bytes (entry (iheap n dp)))
      in isdirempty_loop dp (map (\<lambda>j. 32 + 16 * j) [0..<(k - 32 + 15) div 16]) n)"

definition iwrite :: "OpContext option \<Rightarrow> nat \<Rightarrow> u8 list \<Rightarrow> usize \<Rightarrow> filest \<Rightarrow> (usize \<times> OpContext option \<times> filest) option" where
  "iwrite ctx i bs off s = do { (r, ctx1, n) \<leftarrow> inode_write ctx i bs off (ino s); Some (r, ctx1, s\<lparr>ino := n\<rparr>) }"

definition isync :: "OpContext option \<Rightarrow> nat \<Rightarrow> filest \<Rightarrow> (OpContext option \<times> filest) option" where
  "isync ctx i s = do { (ctx1, n) \<leftarrow> inode_sync ctx i True (ino s); Some (ctx1, s\<lparr>ino := n\<rparr>) }"

definition upd_entry :: "nat \<Rightarrow> (InodeEntry \<Rightarrow> InodeEntry) \<Rightarrow> filest \<Rightarrow> filest" where
  "upd_entry i f s = s\<lparr>ino := upd_inode i (\<lambda>x. x\<lparr>entry := f (entry x)\<rparr>) (ino s)\<rparr>"

definition ientry :: "nat \<Rightarrow> filest \<Rightarrow> InodeEntry" where
  "ientry i s = entry (iheap (ino s) i)"

text \<open>The label \<open>bad\<close> of \<open>unlinkat\<close>.\<close>

definition unlink_bad :: "OpContext option \<Rightarrow> nat \<Rightarrow> filest \<Rightarrow> (int \<times> filest) option" where
  "unlink_bad ctx dp s =
     do { s1 \<leftarrow> iunlock dp s; (ctx1, s2) \<leftarrow> iput ctx dp s1; s3 \<leftarrow> fs_end ctx1 s2; Some (- 1, s3) }"

definition DOT :: barr where "DOT = name_arr [46]"
definition DOTDOT :: barr where "DOTDOT = name_arr [46, 46]"

text \<open>
  \<open>unlinkat\<close> once the parent \<open>dp\<close> and the last element \<open>name\<close> of the path are known.  \<open>off\<close> is the index
  that \<open>lookup\<close> returns, used as the offset of the write, as in the source; without an index it is what
  the stack holds, \<open>junk\<close>.
\<close>

definition unlink_in :: "InodeEntry \<Rightarrow> usize \<Rightarrow> OpContext option \<Rightarrow> nat \<Rightarrow> barr \<Rightarrow> filest \<Rightarrow> (int \<times> filest) option" where
  "unlink_in mem junk ctx dp name s =
     do { s1 \<leftarrow> ilock dp s;
          if strncmp name DOT (of_nat FILE_NAME_MAX_LENGTH) = 0 \<or> strncmp name DOTDOT (of_nat FILE_NAME_MAX_LENGTH) = 0
          then unlink_bad ctx dp s1
          else do { (inumber, idx, n) \<leftarrow> inode_lookup dp name (ino s1);
                    let s2 = s1\<lparr>ino := n\<rparr>;
                    let off = (case idx of Some k \<Rightarrow> k | None \<Rightarrow> junk);
                    if inumber = 0 then unlink_bad ctx dp s2
                    else do { (ip, n2) \<leftarrow> inode_get mem inumber (ino s2);
                              s3 \<leftarrow> ilock ip (s2\<lparr>ino := n2\<rparr>);
                              ASSERT (\<not> ie_num_links (ientry ip s3) < 1);
                              (empty, s4) \<leftarrow> (if ie_type (ientry ip s3) = INODE_DIRECTORY
                                              then do { (e, n3) \<leftarrow> isdirempty ip (ino s3); Some (e, s3\<lparr>ino := n3\<rparr>) }
                                              else Some (True, s3));
                              if \<not> empty
                              then do { s5 \<leftarrow> iunlock ip s4; (ctx1, s6) \<leftarrow> iput ctx ip s5; unlink_bad ctx1 dp s6 }
                              else do { (r, ctx1, s5) \<leftarrow> iwrite ctx dp (replicate 16 0) off s4;
                                        ASSERT (r = 16);
                                        (ctx2, s6) \<leftarrow> (if ie_type (ientry ip s5) = INODE_DIRECTORY
                                                       then isync ctx1 dp (upd_entry dp (\<lambda>e. e\<lparr>ie_num_links := ie_num_links e - 1\<rparr>) s5)
                                                       else Some (ctx1, s5));
                                        s7 \<leftarrow> iunlock dp s6;
                                        (ctx3, s8) \<leftarrow> iput ctx2 dp s7;
                                        (ctx4, s9) \<leftarrow> isync ctx3 ip (upd_entry ip (\<lambda>e. e\<lparr>ie_num_links := ie_num_links e - 1\<rparr>) s8);
                                        s10 \<leftarrow> iunlock ip s9;
                                        (ctx5, s11) \<leftarrow> iput ctx4 ip s10;
                                        s12 \<leftarrow> fs_end ctx5 s11;
                                        Some (0, s12) } } } }"

definition sys_unlinkat :: "access \<Rightarrow> (u64 \<Rightarrow> u8) \<Rightarrow> InodeEntry \<Rightarrow> usize \<Rightarrow> u8 list \<Rightarrow> int \<Rightarrow> u64 \<Rightarrow> int \<Rightarrow> filest \<Rightarrow> (int \<times> filest) option" where
  "sys_unlinkat ur um mem junk name fd path flag s =
     do { ASSERT (fd = AT_FDCWD \<and> flag = 0);
          if user_strlen ur um path 256 = 0 then Some (- 1, s)
          else do { (ctx, s1) \<leftarrow> fs_begin s;
                    case nameiparent (user_path ur um path) name ctx of
                      None \<Rightarrow> do { s2 \<leftarrow> fs_end ctx s1; Some (- 1, s2) }
                    | Some dp \<Rightarrow> unlink_in mem junk ctx dp (name_arr name) s1 } }"

text \<open>\<open>create\<close>: the two cases after the parent is known.\<close>

definition create_existing :: "OpContext option \<Rightarrow> u16 \<Rightarrow> nat \<Rightarrow> nat \<Rightarrow> filest \<Rightarrow> (nat option \<times> OpContext option \<times> filest) option" where
  "create_existing ctx type dp ip s =
     do { s1 \<leftarrow> ilock ip s;
          if (type = INODE_DIRECTORY) \<noteq> (ie_type (ientry ip s1) = INODE_DIRECTORY)
          then do { s2 \<leftarrow> iunlock dp s1; s3 \<leftarrow> iunlock ip s2;
                    (ctx1, s4) \<leftarrow> iput ctx dp s3; (ctx2, s5) \<leftarrow> iput ctx1 ip s4;
                    Some (None, ctx2, s5) }
          else do { s2 \<leftarrow> iunlock dp s1; s3 \<leftarrow> iunlock ip s2; (ctx1, s4) \<leftarrow> iput ctx dp s3; Some (Some ip, ctx1, s4) } }"

definition iinsert :: "OpContext option \<Rightarrow> nat \<Rightarrow> barr \<Rightarrow> usize \<Rightarrow> filest \<Rightarrow> (OpContext option \<times> filest) option" where
  "iinsert ctx i name n s = do { (_, ctx1, m) \<leftarrow> inode_insert ctx i name n (ino s); Some (ctx1, s\<lparr>ino := m\<rparr>) }"

definition create_new :: "InodeEntry \<Rightarrow> OpContext option \<Rightarrow> barr \<Rightarrow> u16 \<Rightarrow> u16 \<Rightarrow> u16 \<Rightarrow> nat \<Rightarrow> filest \<Rightarrow> (nat option \<times> OpContext option \<times> filest) option" where
  "create_new mem ctx name type major minor dp s =
     do { ((k, ctx1), n1) \<leftarrow> (case inode_alloc ctx type (icache (ino s)) of
                               None \<Rightarrow> None | Some (k, ctx1, st) \<Rightarrow> Some ((k, ctx1), (ino s)\<lparr>icache := st\<rparr>));
          (ip, n2) \<leftarrow> inode_get mem k n1;
          s1 \<leftarrow> ilock ip (s\<lparr>ino := n2\<rparr>);
          let s2 = upd_entry ip (\<lambda>e. e\<lparr>ie_major := major, ie_minor := minor, ie_num_links := 1\<rparr>) s1;
          (ctx2, s3) \<leftarrow> isync ctx1 ip s2;
          (ctx3, s4) \<leftarrow> (if type = INODE_DIRECTORY
                         then do { (c1, t1) \<leftarrow> iinsert ctx2 ip DOT (inode_no (iheap (ino s3) ip)) s3;
                                   (c2, t2) \<leftarrow> iinsert c1 ip DOTDOT (inode_no (iheap (ino t1) ip)) t1;
                                   isync c2 dp (upd_entry dp (\<lambda>e. e\<lparr>ie_num_links := ie_num_links e + 1\<rparr>) t2) }
                         else Some (ctx2, s3));
          (ctx4, s5) \<leftarrow> iinsert ctx3 dp name (inode_no (iheap (ino s4) ip)) s4;
          s6 \<leftarrow> iunlock dp s5;
          (ctx5, s7) \<leftarrow> iput ctx4 dp s6;
          Some (Some ip, ctx5, s7) }"

definition create :: "InodeEntry \<Rightarrow> u8 list \<Rightarrow> u8 list \<Rightarrow> u16 \<Rightarrow> u16 \<Rightarrow> u16 \<Rightarrow> OpContext option \<Rightarrow> filest \<Rightarrow> (nat option \<times> OpContext option \<times> filest) option" where
  "create mem name path type major minor ctx s =
     (case nameiparent path name ctx of
        None \<Rightarrow> Some (None, ctx, s)
      | Some dp \<Rightarrow>
          do { s1 \<leftarrow> ilock dp s;
               case namei path ctx of
                 Some ip \<Rightarrow> create_existing ctx type dp ip s1
               | None \<Rightarrow> create_new mem ctx (name_arr name) type major minor dp s1 })"

definition O_WRONLY :: int where "O_WRONLY = 1"
definition O_RDWR :: int where "O_RDWR = 2"
definition O_CREAT :: int where "O_CREAT = 64"

text \<open>\<open>openat\<close> once the inode is known and locked.\<close>

definition open_inode :: "OpContext option \<Rightarrow> nat \<Rightarrow> int \<Rightarrow> filest \<Rightarrow> (int \<times> filest) option" where
  "open_inode ctx ip omode s =
     (let (f, s1) = file_alloc s;
          (fd, s2) = (case f of Some x \<Rightarrow> fdalloc x s1 | None \<Rightarrow> (- 1, s1))
      in case f of
           Some x \<Rightarrow>
             if fd < 0
             then do { s3 \<leftarrow> file_close x s2; s4 \<leftarrow> iunlock ip s3; (ctx1, s5) \<leftarrow> iput ctx ip s4; s6 \<leftarrow> fs_end ctx1 s5; Some (- 1, s6) }
             else do { s3 \<leftarrow> iunlock ip s2; s4 \<leftarrow> fs_end ctx s3;
                       Some (fd, upd_file x (\<lambda>y. y\<lparr>f_type := FD_INODE, f_obj := IpObj ip, f_off := 0,
                                                   f_readable := (omode AND O_WRONLY = 0),
                                                   f_writable := (omode AND O_WRONLY \<noteq> 0 \<or> omode AND O_RDWR \<noteq> 0)\<rparr>) s4) }
         | None \<Rightarrow> do { s4 \<leftarrow> iunlock ip s2; (ctx1, s5) \<leftarrow> iput ctx ip s4; s6 \<leftarrow> fs_end ctx1 s5; Some (- 1, s6) })"

definition sys_openat :: "access \<Rightarrow> (u64 \<Rightarrow> u8) \<Rightarrow> InodeEntry \<Rightarrow> u8 list \<Rightarrow> int \<Rightarrow> u64 \<Rightarrow> int \<Rightarrow> filest \<Rightarrow> (int \<times> filest) option" where
  "sys_openat ur um mem name dirfd path omode s =
     (if user_strlen ur um path 256 = 0 then Some (- 1, s)
      else if dirfd \<noteq> AT_FDCWD then Some (- 1, s)
      else do { (ctx, s1) \<leftarrow> fs_begin s;
                if omode AND O_CREAT \<noteq> 0
                then do { (ip, ctx1, s2) \<leftarrow> create mem name (user_path ur um path) INODE_REGULAR 0 0 ctx s1;
                          case ip of
                            None \<Rightarrow> do { s3 \<leftarrow> fs_end ctx1 s2; Some (- 1, s3) }
                          | Some i \<Rightarrow> open_inode ctx1 i omode s2 }
                else (case namei (user_path ur um path) ctx of
                        None \<Rightarrow> do { s2 \<leftarrow> fs_end ctx s1; Some (- 1, s2) }
                      | Some i \<Rightarrow> do { s2 \<leftarrow> ilock i s1; open_inode ctx i omode s2 }) })"

definition make_inode :: "InodeEntry \<Rightarrow> u8 list \<Rightarrow> u8 list \<Rightarrow> u16 \<Rightarrow> u16 \<Rightarrow> u16 \<Rightarrow> filest \<Rightarrow> (int \<times> filest) option" where
  "make_inode mem name path type major minor s =
     do { (ctx, s1) \<leftarrow> fs_begin s;
          (ip, ctx1, s2) \<leftarrow> create mem name path type major minor ctx s1;
          case ip of
            None \<Rightarrow> do { s3 \<leftarrow> fs_end ctx1 s2; Some (- 1, s3) }
          | Some i \<Rightarrow> do { s3 \<leftarrow> iunlock i s2; (ctx2, s4) \<leftarrow> iput ctx1 i s3; s5 \<leftarrow> fs_end ctx2 s4; Some (0, s5) } }"

definition sys_mkdirat :: "access \<Rightarrow> (u64 \<Rightarrow> u8) \<Rightarrow> InodeEntry \<Rightarrow> u8 list \<Rightarrow> int \<Rightarrow> u64 \<Rightarrow> int \<Rightarrow> filest \<Rightarrow> (int \<times> filest) option" where
  "sys_mkdirat ur um mem name dirfd path mode s =
     (if user_strlen ur um path 256 = 0 then Some (- 1, s)
      else if dirfd \<noteq> AT_FDCWD then Some (- 1, s)
      else if mode \<noteq> 0 then Some (- 1, s)
      else make_inode mem name (user_path ur um path) INODE_DIRECTORY 0 0 s)"

text \<open>\<open>ma\<close> and \<open>mi\<close> are \<open>major(dev)\<close> and \<open>minor(dev)\<close> of the C library.\<close>

definition sys_mknodat :: "access \<Rightarrow> (u64 \<Rightarrow> u8) \<Rightarrow> InodeEntry \<Rightarrow> u8 list \<Rightarrow> int \<Rightarrow> u64 \<Rightarrow> u32 \<Rightarrow> u32 \<Rightarrow> filest \<Rightarrow> (int \<times> filest) option" where
  "sys_mknodat ur um mem name dirfd path ma mi s =
     (if user_strlen ur um path 256 = 0 then Some (- 1, s)
      else if dirfd \<noteq> AT_FDCWD then Some (- 1, s)
      else make_inode mem name (user_path ur um path) INODE_DEVICE (ucast ma) (ucast mi) s)"

definition sys_chdir :: "u8 list \<Rightarrow> filest \<Rightarrow> (int \<times> filest) option" where
  "sys_chdir path s =
     do { (ctx, s1) \<leftarrow> fs_begin s;
          case namei path ctx of
            None \<Rightarrow> do { s2 \<leftarrow> fs_end ctx s1; Some (- 1, s2) }
          | Some ip \<Rightarrow>
              do { s2 \<leftarrow> ilock ip s1;
                   if ie_type (ientry ip s2) \<noteq> INODE_DIRECTORY
                   then do { s3 \<leftarrow> iunlock ip s2; (ctx1, s4) \<leftarrow> iput ctx ip s3; s5 \<leftarrow> fs_end ctx1 s4; Some (- 1, s5) }
                   else do { s3 \<leftarrow> iunlock ip s2; (ctx1, s4) \<leftarrow> iput ctx (cwd s3) s3; s5 \<leftarrow> fs_end ctx1 (s4\<lparr>cwd := ip\<rparr>); Some (0, s5) } } }"

definition sys_pipe2 :: "usize \<Rightarrow> u8 list \<Rightarrow> filest \<Rightarrow> (int \<times> (int \<times> int) option \<times> filest) option" where
  "sys_pipe2 sz mem s =
     do { (r, fs, s1) \<leftarrow> pipeAlloc sz mem s;
          case fs of
            None \<Rightarrow> Some (- 1, None, s1)
          | Some (rf, wfl) \<Rightarrow>
              (let (fd0, s2) = fdalloc rf s1
               in if fd0 < 0 then do { s3 \<leftarrow> file_close rf s2; s4 \<leftarrow> file_close wfl s3; Some (- 1, None, s4) }
                  else let (fd1, s3) = fdalloc wfl s2
                       in if fd1 < 0 then do { s4 \<leftarrow> file_close rf s3; s5 \<leftarrow> file_close wfl s4; Some (- 1, None, s5) }
                          else Some (0, Some (fd0, fd1), s3)) }"

end
