(* ===== verification/Ptable.thy ===== *)
theory Ptable
  imports Mem_Run
begin

text \<open>
  Page tables (\<open>kernel/pt.c\<close>) and the sections of an address space (\<open>kernel/paging.c\<close>).  The tables are
  pages of the memory of the allocator: an entry is the word at its address.  The sections of a page
  directory are the members of its list with the addresses \<open>kalloc\<close> gave them.  The TLB is not
  modelled.  \<open>kalloc_page\<close> faults rather than return NULL, so the checks for NULL after it are not
  reached.
\<close>

section \<open>Tables\<close>

definition entry_addr :: "ptr \<Rightarrow> nat \<Rightarrow> ptr" where
  "entry_addr p i = p + of_nat (8 * i)"

definition next_table :: "bool \<Rightarrow> ptr \<Rightarrow> nat \<Rightarrow> memst \<Rightarrow> (ptr \<times> memst) option" where
  "next_table alloc p i m =
     (if mword m (entry_addr p i) = 0
      then (if \<not> alloc then Some (NULL, m)
            else do { (q, m1) \<leftarrow> kalloc_page m;
                      let m2 = m1\<lparr>mword := (mword m1)(entry_addr p i := K2P q OR PTE_TABLE)\<rparr>;
                      Some (P2K (PTE_ADDRESS (mword m2 (entry_addr p i))), m2) })
      else Some (P2K (PTE_ADDRESS (mword m (entry_addr p i))), m))"

definition va_index :: "nat \<Rightarrow> u64 \<Rightarrow> nat" where
  "va_index sh va = unat (drop_bit sh va AND 0x1FF)"

text \<open>\<open>get_pte\<close>: the root table, which may be new, the address of the entry or NULL, and the memory.\<close>

definition get_pte :: "ptr \<Rightarrow> u64 \<Rightarrow> bool \<Rightarrow> memst \<Rightarrow> (ptr \<times> ptr \<times> memst) option" where
  "get_pte pt va alloc m =
     (if pt = NULL \<and> \<not> alloc then Some (pt, NULL, m)
      else do { (pt, m) \<leftarrow> (if pt = NULL then kalloc_page m else Some (pt, m));
                (pde1, m) \<leftarrow> next_table alloc pt (va_index 39 va) m;
                if pde1 = NULL then Some (pt, NULL, m)
                else do { (pde2, m) \<leftarrow> next_table alloc pde1 (va_index 30 va) m;
                          if pde2 = NULL then Some (pt, NULL, m)
                          else do { (pde3, m) \<leftarrow> next_table alloc pde2 (va_index 21 va) m;
                                    if pde3 = NULL then Some (pt, NULL, m)
                                    else Some (pt, entry_addr pde3 (va_index 12 va), m) } } })"

definition vmmap :: "ptr \<Rightarrow> u64 \<Rightarrow> ptr \<Rightarrow> u64 \<Rightarrow> memst \<Rightarrow> (ptr \<times> memst) option" where
  "vmmap pt va ka flags m =
     do { (pt1, pte, m1) \<leftarrow> get_pte pt va True m;
          ASSERT (pte \<noteq> NULL);
          m2 \<leftarrow> ref_page ka (m1\<lparr>mword := (mword m1)(pte := K2P ka OR flags OR PTE_TABLE)\<rparr>);
          Some (pt1, m2) }"

text \<open>The three nested loops of \<open>free_pgdir\<close>: a table of the given depth below it, then the table.\<close>

fun free_entries :: "(ptr \<Rightarrow> memst \<Rightarrow> memst option) \<Rightarrow> ptr \<Rightarrow> nat list \<Rightarrow> memst \<Rightarrow> memst option" where
  "free_entries f p [] m = Some m"
| "free_entries f p (i # is) m =
     do { m1 \<leftarrow> (if mword m (entry_addr p i) = 0 then Some m else f (P2K (PTE_ADDRESS (mword m (entry_addr p i)))) m);
          free_entries f p is m1 }"

primrec free_table :: "nat \<Rightarrow> ptr \<Rightarrow> memst \<Rightarrow> memst option" where
  "free_table 0 p m = kfree_page p m"
| "free_table (Suc d) p m = do { m1 \<leftarrow> free_entries (free_table d) p [0..<N_PTE_PER_TABLE] m; kfree_page p m1 }"

section \<open>Sections\<close>

definition ST_FILE :: u64 where "ST_FILE = 1"
definition ST_SWAP :: u64 where "ST_SWAP = push_bit 1 1"
definition ST_RO :: u64 where "ST_RO = push_bit 2 1"
definition ST_HEAP :: u64 where "ST_HEAP = push_bit 3 1"
definition ST_TEXT :: u64 where "ST_TEXT = ST_FILE OR ST_RO"

record sect =
  sec_flags :: u64
  sec_begin :: u64
  sec_end :: u64

record pgdir =
  pt :: ptr
  sections :: "(ptr \<times> sect) list"

definition init_sections :: "memst \<Rightarrow> ((ptr \<times> sect) list \<times> memst) option" where
  "init_sections m =
     do { (h, m1) \<leftarrow> kalloc 64 m;
          ASSERT (h \<noteq> NULL);
          Some ([(h, \<lparr>sec_flags = ST_HEAP, sec_begin = 0, sec_end = 0\<rparr>)], m1) }"

definition init_pgdir :: "memst \<Rightarrow> (pgdir \<times> memst) option" where
  "init_pgdir m =
     do { (p, m1) \<leftarrow> kalloc_page m;
          (secs, m2) \<leftarrow> init_sections m1;
          Some (\<lparr>pt = p, sections = secs\<rparr>, m2) }"

text \<open>Unmapping the page at \<open>va\<close> from the tables under \<open>root\<close>.\<close>

definition unmap_page :: "ptr \<Rightarrow> u64 \<Rightarrow> memst \<Rightarrow> memst option" where
  "unmap_page root va m =
     do { (_, pte, m1) \<leftarrow> get_pte root va False m;
          if pte \<noteq> NULL \<and> mword m1 pte AND PTE_VALID \<noteq> 0
          then do { m2 \<leftarrow> kfree_page (P2K (PTE_ADDRESS (mword m1 pte))) m1;
                    Some (m2\<lparr>mword := (mword m2)(pte := 0)\<rparr>) }
          else Some m1 }"

text \<open>
  \<open>for (start = ...; start < end; start += PAGE_SIZE)\<close>.  The number of pages up to \<open>end\<close>, and one, is
  fuel enough unless \<open>start\<close> wraps around, when the loop does not end; that is \<^const>\<open>None\<close>.
\<close>

fun unmap_range :: "nat \<Rightarrow> ptr \<Rightarrow> u64 \<Rightarrow> u64 \<Rightarrow> memst \<Rightarrow> memst option" where
  "unmap_range 0 root start endp m = None"
| "unmap_range (Suc fuel) root start endp m =
     (if start < endp then do { m1 \<leftarrow> unmap_page root start m; unmap_range fuel root (start + of_nat PAGE_SIZE) endp m1 }
      else Some m)"

definition range_fuel :: "u64 \<Rightarrow> nat" where
  "range_fuel endp = unat endp div PAGE_SIZE + 2"

fun unmap_sections :: "ptr \<Rightarrow> (ptr \<times> sect) list \<Rightarrow> memst \<Rightarrow> memst option" where
  "unmap_sections root [] m = Some m"
| "unmap_sections root ((a, sc) # scs) m =
     do { m1 \<leftarrow> unmap_range (range_fuel (sec_end sc)) root (PAGE_BASE (sec_begin sc)) (sec_end sc) m;
          unmap_sections root scs m1 }"

definition free_sections :: "ptr \<Rightarrow> pgdir \<Rightarrow> memst \<Rightarrow> memst option" where
  "free_sections this_pt pd m =
     do { m1 \<leftarrow> unmap_sections this_pt (sections pd) m;
          Some (foldl (\<lambda>m (a, sc). kfree a m) m1 (sections pd)) }"

definition free_pgdir :: "ptr \<Rightarrow> pgdir \<Rightarrow> memst \<Rightarrow> memst option" where
  "free_pgdir this_pt pd m =
     do { m1 \<leftarrow> free_sections this_pt pd m;
          if pt pd = NULL then Some m1 else free_table 3 (pt pd) m1 }"

text \<open>\<open>attach_pgdir\<close>: the value for \<open>ttbr0\<close>; \<open>invalid_pt\<close> is the address of the empty table.\<close>

definition attach_pgdir :: "ptr \<Rightarrow> pgdir \<Rightarrow> u64" where
  "attach_pgdir invalid_pt pd = (if pt pd \<noteq> NULL then K2P (pt pd) else K2P invalid_pt)"

section \<open>The heap of a process\<close>

definition sbrk :: "u64 \<Rightarrow> pgdir \<Rightarrow> memst \<Rightarrow> (u64 \<times> pgdir \<times> memst) option" where
  "sbrk sz pd m =
     (if sz mod of_nat PAGE_SIZE \<noteq> 0 then Some (- 1, pd, m)
      else case find (\<lambda>i. sec_flags (snd (sections pd ! i)) AND ST_HEAP \<noteq> 0) [0..<length (sections pd)] of
             None \<Rightarrow> Some (- 1, pd, m)
           | Some i \<Rightarrow>
               do { let (a, sc) = sections pd ! i;
                    let ret = sec_end sc;
                    let sc1 = sc\<lparr>sec_end := ret + sz\<rparr>;
                    let pd1 = pd\<lparr>sections := (sections pd)[i := (a, sc1)]\<rparr>;
                    m1 \<leftarrow> (if sz <s 0
                          then do { ASSERT (sec_end sc1 \<ge> sec_begin sc1);
                                    unmap_range (range_fuel (PAGE_BASE ret)) (pt pd1) (PAGE_BASE (sec_end sc1)) (PAGE_BASE ret) m }
                          else Some m);
                    Some (ret, pd1, m1) })"

definition copy_page :: "ptr \<Rightarrow> ptr \<Rightarrow> memst \<Rightarrow> memst" where
  "copy_page dst src m =
     m\<lparr>mword := (\<lambda>a. if unat dst \<le> unat a \<and> unat a < unat dst + PAGE_SIZE then mword m (a - dst + src) else mword m a)\<rparr>"

definition pgfault_handler :: "u64 \<Rightarrow> u64 \<Rightarrow> pgdir \<Rightarrow> memst \<Rightarrow> (int \<times> pgdir \<times> memst) option" where
  "pgfault_handler iss addr pd m =
     (case find (\<lambda>(a, sc). addr \<ge> sec_begin sc \<and> addr < sec_end sc) (sections pd) of
        None \<Rightarrow> PANIC
      | Some (a, sc) \<Rightarrow>
          if sec_flags sc AND ST_HEAP \<noteq> 0
          then do { (mem, m1) \<leftarrow> kalloc_page m;
                    ASSERT (mem \<noteq> NULL);
                    (pt1, pte, m2) \<leftarrow> get_pte (pt pd) addr True m1;
                    ASSERT (pte \<noteq> NULL);
                    m3 \<leftarrow> (if PTE_FLAGS (mword m2 pte) AND PTE_RO \<noteq> 0 \<and> iss AND 2 \<noteq> 0
                          then do { (_, pte', m3) \<leftarrow> get_pte pt1 addr True m2;
                                    ASSERT (pte' \<noteq> NULL);
                                    let orig = P2K (PTE_ADDRESS (mword m3 pte'));
                                    kfree_page orig (copy_page mem orig m3) }
                          else Some m2);
                    (pt2, m4) \<leftarrow> vmmap pt1 (PAGE_BASE addr) mem PTE_USER_DATA m3;
                    m5 \<leftarrow> kfree_page mem m4;
                    Some (0, pd\<lparr>pt := pt2\<rparr>, m5) }
          else PANIC)"

end
