(* ===== verification/Ptable_Props.thy ===== *)
theory Ptable_Props
  imports Ptable
begin

text \<open>
  The page tables as a map: the tables that hang from a page directory form a tree named by the
  indices that lead to them, and mapping a page changes the entry of that page and no other.
\<close>

section \<open>Entries and their addresses\<close>

lemma K2P_entry:
  assumes "page_in q"
  shows "P2K (PTE_ADDRESS (K2P q OR 3)) = q" "K2P q OR 3 \<noteq> 0"
proof -
  let ?x = "K2P q"
  have x: "unat ?x < 2 ^ 30" "unat ?x mod 4096 = 0"
  proof -
    have k: "unat ?x = unat q - 18446462598732840960" "18446462598732840960 \<le> unat q" "unat q < 18446462599789805568"
      using assms by (simp_all add: page_in_def K2P_def unat_sub word_le_nat_alt word_less_nat_alt kspace_consts)
    then show "unat ?x < 2 ^ 30" by simp
    have "unat q = page_no q * 4096" using assms page_decomp(1) [of q] by (simp add: page_in_def)
    then have "unat ?x = (page_no q - 4503530907893760) * 4096" using k by (simp add: diff_mult_distrib)
    then show "unat ?x mod 4096 = 0" by simp
  qed
  have u: "unat (take_bit n ?x) = unat ?x mod 2 ^ n" for n
    unfolding unsigned_take_bit_eq by (simp add: take_bit_eq_mod)
  have lo: "take_bit 12 ?x = 0" using u [of 12] x(2) by (simp only: word_unat_eq_iff) simp
  have hi: "take_bit 30 ?x = ?x" using u [of 30] x(1) by (simp only: word_unat_eq_iff) simp
  have b: "\<not> bit ?x n" if "n < 12 \<or> 30 \<le> n" for n
    using that lo hi by (metis bit_take_bit_iff bit_0_eq bot_apply bot_bool_def not_le)
  have m: "(0xFFFF000000000FFF :: u64) = NOT (mask 48) OR mask 12" "(3 :: u64) = mask 2"
    by (simp_all add: mask_eq_exp_minus_1)
  show "P2K (PTE_ADDRESS (?x OR 3)) = q"
  proof -
    have "PTE_ADDRESS (?x OR 3) = ?x"
    proof (rule bit_word_eqI)
      fix n assume "n < LENGTH(64)"
      then show "bit (PTE_ADDRESS (?x OR 3)) n = bit ?x n" using b [of n]
        unfolding PTE_ADDRESS_def m by (cases "n < 12 \<or> 30 \<le> n") (auto simp: bit_simps simp del: mask_numeral)
    qed
    then show ?thesis by (simp add: P2K_def K2P_def)
  qed
  have "bit (?x OR 3) 0" by (simp add: bit_simps)
  then show "?x OR 3 \<noteq> 0" by auto
qed

lemma entry_addr_page:
  assumes "page_in p" "i < 512"
  shows "page_no (entry_addr p i) = page_no p" "page_off (entry_addr p i) = 8 * i"
proof -
  have "page_off p + 8 * i < 4096" using assms by (simp add: page_in_def)
  from page_add [OF this] assms show "page_no (entry_addr p i) = page_no p" "page_off (entry_addr p i) = 8 * i"
    by (simp_all add: entry_addr_def page_in_def)
qed

lemma entry_addr_eq_iff:
  assumes "page_in p" "page_in q" "i < 512" "j < 512"
  shows "entry_addr p i = entry_addr q j \<longleftrightarrow> p = q \<and> i = j"
  using entry_addr_page [OF assms(1,3)] entry_addr_page [OF assms(2,4)] page_in_no_inj [OF assms(1,2)] by (metis mult_left_cancel zero_neq_numeral)

lemma va_index_less: "va_index sh va < 512"
proof -
  have "drop_bit sh va AND 0x1FF \<le> 0x1FF" by (rule word_and_le1)
  then show ?thesis by (simp add: va_index_def word_le_nat_alt)
qed

text \<open>The four indices of a virtual address: those of the tables on the way, and that of the entry.\<close>

definition vpath :: "u64 \<Rightarrow> nat list" where
  "vpath va = [va_index 39 va, va_index 30 va, va_index 21 va]"

definition vpn :: "u64 \<Rightarrow> nat list" where
  "vpn va = vpath va @ [va_index 12 va]"

section \<open>The tree of tables\<close>

definition tables :: "(nat list \<Rightarrow> ptr option) \<Rightarrow> ptr \<Rightarrow> memst \<Rightarrow> bool" where
  "tables T root s \<longleftrightarrow>
     T [] = (if root = NULL then None else Some root)
   \<and> (\<forall>w i p. T w = Some p \<longrightarrow> length w < 3 \<longrightarrow> i < 512 \<longrightarrow>
        mword s (entry_addr p i) = (case T (w @ [i]) of None \<Rightarrow> 0 | Some q \<Rightarrow> K2P q OR 3))
   \<and> (\<forall>w p. T w = Some p \<longrightarrow> length w \<le> 3 \<and> page_in p)
   \<and> (\<forall>w i. T (w @ [i]) \<noteq> None \<longrightarrow> T w \<noteq> None)
   \<and> (\<forall>w w' p. T w = Some p \<longrightarrow> T w' = Some p \<longrightarrow> w = w')"

text \<open>What an address translates to: the last-level entry, or 0 when the walk ends earlier.\<close>

definition leaf :: "(nat list \<Rightarrow> ptr option) \<Rightarrow> memst \<Rightarrow> nat list \<Rightarrow> u64" where
  "leaf T s v = (case T (butlast v) of None \<Rightarrow> 0 | Some p \<Rightarrow> mword s (entry_addr p (last v)))"

text \<open>The client owns the pages \<open>own\<close>; the tables are other pages.\<close>

definition pt_inv :: "u64 \<Rightarrow> nat \<Rightarrow> ptr set \<Rightarrow> (nat list \<Rightarrow> ptr option) \<Rightarrow> ptr \<Rightarrow> memst \<Rightarrow> bool" where
  "pt_inv N free own T root s \<longleftrightarrow>
     (\<exists>fl ps cls live. mem_inv N fl ps cls (own \<union> ran T) live s \<and> length ps = free) \<and> tables T root s \<and> own \<inter> ran T = {}"

text \<open>The pages of the client are not touched.\<close>

definition same_pages :: "ptr set \<Rightarrow> memst \<Rightarrow> memst \<Rightarrow> bool" where
  "same_pages own s s' \<longleftrightarrow> (\<forall>p\<in>own. page_refs s' (page_idx p) = page_refs s (page_idx p))
     \<and> (\<forall>p\<in>own. \<forall>a. page_no a = page_no p \<longrightarrow> mword s' a = mword s a)"

lemma tablesD:
  assumes "tables T root s"
  shows "T [] = (if root = NULL then None else Some root)"
    "\<lbrakk>T w = Some p; length w < 3; i < 512\<rbrakk> \<Longrightarrow> mword s (entry_addr p i) = (case T (w @ [i]) of None \<Rightarrow> 0 | Some q \<Rightarrow> K2P q OR 3)"
    "T w = Some p \<Longrightarrow> length w \<le> 3" "T w = Some p \<Longrightarrow> page_in p" "T (w @ [i]) \<noteq> None \<Longrightarrow> T w \<noteq> None"
    "\<lbrakk>T w = Some p; T w' = Some p\<rbrakk> \<Longrightarrow> w = w'"
  using assms unfolding tables_def by blast+

lemma tablesI:
  assumes "T [] = (if root = NULL then None else Some root)"
    "\<And>w i p. \<lbrakk>T w = Some p; length w < 3; i < 512\<rbrakk> \<Longrightarrow> mword s (entry_addr p i) = (case T (w @ [i]) of None \<Rightarrow> 0 | Some q \<Rightarrow> K2P q OR 3)"
    "\<And>w p. T w = Some p \<Longrightarrow> length w \<le> 3" "\<And>w p. T w = Some p \<Longrightarrow> page_in p" "\<And>w i. T (w @ [i]) \<noteq> None \<Longrightarrow> T w \<noteq> None"
    "\<And>w w' p. \<lbrakk>T w = Some p; T w' = Some p\<rbrakk> \<Longrightarrow> w = w'"
  shows "tables T root s"
  using assms unfolding tables_def by blast

lemma tables_none: "tables T root s \<Longrightarrow> T [] = None \<Longrightarrow> T w = None"
proof (induction w rule: rev_induct)
  case (snoc i w)
  then show ?case using tablesD(5) [OF snoc(2), of w i] by blast
qed simp

text \<open>The first table of an address space.\<close>

lemma tables_root:
  assumes t: "tables T NULL s" and q: "page_in q" and z: "\<And>a. page_no a = page_no q \<Longrightarrow> mword s1 a = 0"
  shows "tables (T([] \<mapsto> q)) q s1" "length v = 4 \<Longrightarrow> leaf (T([] \<mapsto> q)) s1 v = leaf T s v"
proof -
  have n: "T w = None" for w using tables_none [OF t] tablesD(1) [OF t] by simp
  show "tables (T([] \<mapsto> q)) q s1"
    by (rule tablesI) (use n q page_in_idx(3) [OF q] z entry_addr_page [OF q] in \<open>auto split: if_splits\<close>)
  assume "length v = 4"
  then have "butlast v \<noteq> []" using length_butlast [of v] by (metis diff_Suc_1 list.size(3) numeral_eq_Suc pred_numeral_simps(2) zero_neq_numeral)
  then show "leaf (T([] \<mapsto> q)) s1 v = leaf T s v" by (simp add: leaf_def n)
qed

text \<open>A new, empty table below the table at \<open>w\<close>; \<open>s1\<close> is the memory with its page zeroed and its entry written.\<close>

lemma tables_extend:
  assumes t: "tables T root s" and q: "page_in q" "q \<notin> ran T" and w: "T w = Some p" "length w < 3" "i < 512" "T (w @ [i]) = None"
    and z: "\<And>a. page_no a = page_no q \<Longrightarrow> mword s1 a = 0"
    and o: "\<And>a. page_no a \<noteq> page_no q \<Longrightarrow> mword s1 a = (if a = entry_addr p i then K2P q OR 3 else mword s a)"
  shows "tables (T(w @ [i] \<mapsto> q)) root s1"
    and "length v = 4 \<Longrightarrow> last v < 512 \<Longrightarrow> leaf (T(w @ [i] \<mapsto> q)) s1 v = leaf T s v"
proof -
  note D = tablesD [OF t]
  have pin: "page_in x" "page_no x \<noteq> page_no q" if "T u = Some x" for u x
    using D(4) [OF that] page_in_no_inj [OF D(4) [OF that] q(1)] q(2) that by (auto simp: ran_def)
  have below: "T (w @ [i] @ [j]) = None" for j using D(5) [of "w @ [i]" j] w(4) by (cases "T (w @ [i, j])") auto
  have word: "mword s1 (entry_addr x j) = (if x = p \<and> j = i then K2P q OR 3 else mword s (entry_addr x j))" if "T u = Some x" "j < 512" for u x j
    using o [of "entry_addr x j"] pin [OF that(1)] entry_addr_page(1) [OF pin(1) [OF that(1)] that(2)]
      entry_addr_eq_iff [OF pin(1) [OF that(1)] D(4) [OF w(1)] that(2) w(3)] by simp
  show "tables (T(w @ [i] \<mapsto> q)) root s1"
  proof (rule tablesI)
    show "(T(w @ [i] \<mapsto> q)) [] = (if root = NULL then None else Some root)" using D(1) by simp
    fix u x and j :: nat assume u: "(T(w @ [i] \<mapsto> q)) u = Some x" "length u < 3" "j < 512"
    show "mword s1 (entry_addr x j) = (case (T(w @ [i] \<mapsto> q)) (u @ [j]) of None \<Rightarrow> 0 | Some q \<Rightarrow> K2P q OR 3)"
    proof (cases "u = w @ [i]")
      case True
      then show ?thesis using u z entry_addr_page(1) [OF q(1) u(3)] below by simp
    next
      case False
      then have x: "T u = Some x" using u by simp
      have "x = p \<longleftrightarrow> u = w" using D(6) [OF x, of w] w(1) x by auto
      then show ?thesis using word [OF x u(3)] D(2) [OF x u(2,3)] by auto
    qed
  next
    fix u x assume "(T(w @ [i] \<mapsto> q)) u = Some x"
    then show "length u \<le> 3" "page_in x" using D(3,4) w(2) q(1) by (auto split: if_splits)
  next
    fix u j assume "(T(w @ [i] \<mapsto> q)) (u @ [j]) \<noteq> None"
    then show "(T(w @ [i] \<mapsto> q)) u \<noteq> None" using D(5) w(1) by (auto split: if_splits)
  next
    fix u u' x assume "(T(w @ [i] \<mapsto> q)) u = Some x" "(T(w @ [i] \<mapsto> q)) u' = Some x"
    then show "u = u'" using D(6) q(2) by (auto simp: ran_def split: if_splits)
  qed
  assume v: "length v = 4" "last v < 512"
  show "leaf (T(w @ [i] \<mapsto> q)) s1 v = leaf T s v"
  proof (cases "butlast v = w @ [i]")
    case True
    then show ?thesis using w(4) z entry_addr_page(1) [OF q(1) v(2)] by (simp add: leaf_def)
  next
    case False
    have "T (butlast v) = Some x \<Longrightarrow> x \<noteq> p" for x using D(6) [of "butlast v" x w] w v by auto
    then show ?thesis using False word [of "butlast v" _ "last v"] v(2) by (auto simp: leaf_def split: option.splits)
  qed
qed

section \<open>Walking and extending the tree\<close>

text \<open>What a walk may do to the memory: no page of the client and no translation changes.\<close>

definition quiet :: "ptr set \<Rightarrow> (nat list \<Rightarrow> ptr option) \<Rightarrow> memst \<Rightarrow> (nat list \<Rightarrow> ptr option) \<Rightarrow> memst \<Rightarrow> bool" where
  "quiet own T s T' s' \<longleftrightarrow> same_pages own s s' \<and> (\<forall>v. length v = 4 \<longrightarrow> last v < 512 \<longrightarrow> leaf T' s' v = leaf T s v)"

lemma quiet_refl [simp]: "quiet own T s T s"
  by (simp add: quiet_def same_pages_def)

lemma quiet_trans: "quiet own T s T1 s1 \<Longrightarrow> quiet own T1 s1 T2 s2 \<Longrightarrow> quiet own T s T2 s2"
  by (simp add: quiet_def same_pages_def)

lemma next_table_found:
  assumes "tables T root s" "T w = Some p" "length w < 3" "i < 512" "T (w @ [i]) = Some q"
  shows "next_table alloc p i s = Some (q, s)"
  using tablesD(2) [OF assms(1-4)] assms(5) K2P_entry [OF tablesD(4) [OF assms(1,5)]] by (simp add: next_table_def)

lemma next_table_missing:
  assumes "tables T root s" "T w = Some p" "length w < 3" "i < 512" "T (w @ [i]) = None"
  shows "next_table False p i s = Some (NULL, s)"
  using tablesD(2) [OF assms(1-4)] assms(5) by (simp add: next_table_def)

lemma pt_inv_kalloc:
  assumes inv: "pt_inv N (Suc free) own T root s"
  obtains q s1 fl ps cls live where "kalloc_page s = Some (q, s1)" "page_in q" "q \<notin> own" "q \<notin> ran T"
    "mem_inv N fl ps cls (insert q (own \<union> ran T)) live s1" "length ps = free"
    "\<And>a. mword s1 a = (if page_no a = page_no q then 0 else mword s a)" "same_pages own s s1"
proof -
  obtain fl ps cls live where i: "mem_inv N fl ps cls (own \<union> ran T) live s" "length ps = Suc free" using inv by (auto simp: pt_inv_def)
  then obtain q ps' where ps: "ps = q # ps'" by (cases ps) auto
  from kalloc_page_spec [OF i(1) [unfolded ps]] obtain s1 where
    k: "kalloc_page s = Some (q, s1)" "mem_inv N fl ps' cls (insert q (own \<union> ran T)) live s1" "q \<notin> own \<union> ran T"
    "\<forall>a. mword s1 a = (if page_no a = page_no q then 0 else mword s a)" by blast
  have q: "page_in q" using mem_invD(16) [OF k(2), of q] by simp
  have ne: "page_no p \<noteq> page_no q" "page_idx p \<noteq> page_idx q" if "p \<in> own" for p
    using that k(3) page_in_no_inj [OF _ q, of p] page_in_idx_inj [OF _ q, of p] mem_invD(16) [OF i(1), of p] by auto
  have "page_refs s1 (page_idx p) = page_refs s (page_idx p)" if "p \<in> own" for p
    using k(1) ne(2) [OF that] by (auto simp: kalloc_page_def Let_def split: prod.splits)
  then have "same_pages own s s1" using k(4) ne(1) by (auto simp: same_pages_def)
  with that k q i(2) ps show ?thesis by auto
qed

lemma next_table_ext:
  assumes inv: "pt_inv N (Suc free) own T root s" and w: "T w = Some p" "length w < 3" "i < 512"
  shows "\<exists>q s' T' free'. next_table True p i s = Some (q, s') \<and> pt_inv N free' own T' root s' \<and> free \<le> free'
           \<and> T' (w @ [i]) = Some q \<and> q \<noteq> NULL \<and> quiet own T s T' s'"
proof -
  have t: "tables T root s" using inv by (simp add: pt_inv_def)
  show ?thesis
  proof (cases "T (w @ [i])")
    case (Some q)
    then show ?thesis using next_table_found [OF t w Some, of True] inv page_in_idx(3) [OF tablesD(4) [OF t Some]]
      by (intro exI [of _ q] exI [of _ s] exI [of _ T] exI [of _ "Suc free"]) simp
  next
    case None
    from pt_inv_kalloc [OF inv] obtain q s1 fl ps cls live where
      k: "kalloc_page s = Some (q, s1)" "page_in q" "q \<notin> own" "q \<notin> ran T" "mem_inv N fl ps cls (insert q (own \<union> ran T)) live s1" "length ps = free"
      "\<And>a. mword s1 a = (if page_no a = page_no q then 0 else mword s a)" "same_pages own s s1" by blast
    let ?e = "entry_addr p i"
    let ?s' = "s1\<lparr>mword := (mword s1)(?e := K2P q OR 3)\<rparr>"
    let ?T = "T(w @ [i] \<mapsto> q)"
    have p: "page_in p" "p \<in> ran T" using tablesD(4) [OF t w(1)] w(1) by (auto simp: ran_def)
    have e: "page_no ?e = page_no p" using entry_addr_page(1) [OF p(1) w(3)] .
    have pq: "page_no p \<noteq> page_no q" using page_in_no_inj [OF p(1) k(2)] k(4) p(2) by auto
    have z: "mword ?s' a = 0" if "page_no a = page_no q" for a using that e pq k(7) [of a] by auto
    have o: "mword ?s' a = (if a = ?e then K2P q OR 3 else mword s a)" if "page_no a \<noteq> page_no q" for a using that k(7) [of a] by simp
    note ext = tables_extend [OF t k(2,4) w None z o]
    have rT: "ran ?T = insert q (ran T)" using None by simp
    have "mem_inv N fl ps cls (own \<union> ran ?T) live ?s'"
      using write_own_inv [OF k(5), of p ?e] p(2) e by (simp add: rT)
    moreover have "own \<inter> ran ?T = {}" using inv k(3) by (auto simp: rT pt_inv_def)
    ultimately have i': "pt_inv N free own ?T root ?s'" using ext(1) k(6) by (auto simp: pt_inv_def)
    have ne: "page_no x \<noteq> page_no p" if "x \<in> own" for x
      using that page_in_no_inj [OF mem_invD(16) [OF k(5)] p(1), of x] inv p(2) by (auto simp: pt_inv_def)
    have "a \<noteq> ?e" if "x \<in> own" "page_no a = page_no x" for a x using ne [OF that(1)] that(2) e by auto
    then have "same_pages own s ?s'" using k(8) by (simp add: same_pages_def)
    then have q': "quiet own T s ?T ?s'" using ext(2) by (simp add: quiet_def)
    have "next_table True p i s = Some (q, ?s')"
      using tablesD(2) [OF t w] None k(1) K2P_entry(1) [OF k(2)] by (simp add: next_table_def PTE_TABLE_def)
    with i' q' page_in_idx(3) [OF k(2)] show ?thesis by (intro exI [of _ q] exI [of _ ?s'] exI [of _ ?T] exI [of _ free]) simp
  qed
qed

lemma root_ext:
  assumes inv: "pt_inv N (Suc free) own T root s"
  shows "\<exists>root' s' T' free'. (if root = NULL then kalloc_page s else Some (root, s)) = Some (root', s') \<and> pt_inv N free' own T' root' s' \<and> free \<le> free'
           \<and> T' [] = Some root' \<and> root' \<noteq> NULL \<and> quiet own T s T' s'"
proof (cases "root = NULL")
  case False
  then show ?thesis using inv tablesD(1) [of T root s]
    by (intro exI [of _ root] exI [of _ s] exI [of _ T] exI [of _ "Suc free"]) (simp add: pt_inv_def)
next
  case True
  have t: "tables T NULL s" using inv True by (simp add: pt_inv_def)
  from pt_inv_kalloc [OF inv] obtain q s1 fl ps cls live where
    k: "kalloc_page s = Some (q, s1)" "page_in q" "q \<notin> own" "q \<notin> ran T" "mem_inv N fl ps cls (insert q (own \<union> ran T)) live s1" "length ps = free"
    "\<And>a. mword s1 a = (if page_no a = page_no q then 0 else mword s a)" "same_pages own s s1" by blast
  have z: "mword s1 a = 0" if "page_no a = page_no q" for a using that k(7) by simp
  note r = tables_root [OF t k(2) z]
  have "T [] = None" using tablesD(1) [OF t] by simp
  then have "ran (T([] \<mapsto> q)) = insert q (ran T)" by simp
  then have "pt_inv N free own (T([] \<mapsto> q)) q s1" using k inv r(1) by (auto simp: pt_inv_def)
  moreover have "quiet own T s (T([] \<mapsto> q)) s1" using k(8) r(2) by (simp add: quiet_def)
  ultimately show ?thesis using True k(1) page_in_idx(3) [OF k(2)]
    by (intro exI [of _ q] exI [of _ s1] exI [of _ "T([] \<mapsto> q)"] exI [of _ free]) simp
qed

section \<open>get_pte and vmmap\<close>

lemma get_pte_alloc:
  assumes inv: "pt_inv N (free + 4) own T root s"
  shows "\<exists>root' p s' T' free'. get_pte root va True s = Some (root', entry_addr p (va_index 12 va), s') \<and> pt_inv N free' own T' root' s'
           \<and> free \<le> free' \<and> T' (vpath va) = Some p \<and> quiet own T s T' s'"
proof -
  have i0: "pt_inv N (Suc (free + 3)) own T root s" using inv by (simp add: numeral_eq_Suc)
  obtain r0 s0 T0 f0 where 0: "(if root = NULL then kalloc_page s else Some (root, s)) = Some (r0, s0)" "pt_inv N f0 own T0 r0 s0"
    "free + 3 \<le> f0" "T0 [] = Some r0" "r0 \<noteq> NULL" "quiet own T s T0 s0" using root_ext [OF i0] by blast
  obtain f0' where f0: "f0 = Suc f0'" using 0(3) by (cases f0) auto
  obtain p1 s1 T1 f1 where 1: "next_table True r0 (va_index 39 va) s0 = Some (p1, s1)" "pt_inv N f1 own T1 r0 s1" "f0' \<le> f1"
    "T1 ([] @ [va_index 39 va]) = Some p1" "p1 \<noteq> NULL" "quiet own T0 s0 T1 s1"
    using next_table_ext [OF 0(2) [unfolded f0] 0(4) _ va_index_less [of 39 va]] by auto
  obtain f1' where f1: "f1 = Suc f1'" using 0(3) 1(3) f0 by (cases f1) auto
  obtain p2 s2 T2 f2 where 2: "next_table True p1 (va_index 30 va) s1 = Some (p2, s2)" "pt_inv N f2 own T2 r0 s2" "f1' \<le> f2"
    "T2 (([] @ [va_index 39 va]) @ [va_index 30 va]) = Some p2" "p2 \<noteq> NULL" "quiet own T1 s1 T2 s2"
    using next_table_ext [OF 1(2) [unfolded f1] 1(4) _ va_index_less [of 30 va]] by auto
  obtain f2' where f2: "f2 = Suc f2'" using 0(3) 1(3) 2(3) f0 f1 by (cases f2) auto
  obtain p3 s3 T3 f3 where 3: "next_table True p2 (va_index 21 va) s2 = Some (p3, s3)" "pt_inv N f3 own T3 r0 s3" "f2' \<le> f3"
    "T3 ((([] @ [va_index 39 va]) @ [va_index 30 va]) @ [va_index 21 va]) = Some p3" "p3 \<noteq> NULL" "quiet own T2 s2 T3 s3"
    using next_table_ext [OF 2(2) [unfolded f2] 2(4) _ va_index_less [of 21 va]] by auto
  have "get_pte root va True s = Some (r0, entry_addr p3 (va_index 12 va), s3)"
    using 0(1) 1(1,5) 2(1,5) 3(1,5) by (simp add: get_pte_def)
  moreover have "free \<le> f3" using 0(3) 1(3) 2(3) 3(3) f0 f1 f2 by simp
  moreover have "quiet own T s T3 s3" using 0(6) 1(6) 2(6) 3(6) quiet_trans by blast
  ultimately show ?thesis using 3(2,4) by (intro exI [of _ r0] exI [of _ p3] exI [of _ s3] exI [of _ T3] exI [of _ f3]) (simp add: vpath_def)
qed

lemma get_pte_lookup:
  assumes t: "tables T root s"
  shows "\<exists>pte. get_pte root va False s = Some (root, pte, s) \<and> leaf T s (vpn va) = (if pte = NULL then 0 else mword s pte)"
proof -
  let ?i = "va_index 39 va" let ?j = "va_index 30 va" let ?k = "va_index 21 va"
  have lf: "leaf T s (vpn va) = (case T [?i, ?j, ?k] of None \<Rightarrow> 0 | Some p \<Rightarrow> mword s (entry_addr p (va_index 12 va)))"
    by (simp add: leaf_def vpn_def vpath_def split: option.split)
  have up: "T [?i] = None \<Longrightarrow> T [?i, ?j] = None" "T [?i, ?j] = None \<Longrightarrow> T [?i, ?j, ?k] = None"
    using tablesD(5) [OF t, of "[?i]" ?j] tablesD(5) [OF t, of "[?i, ?j]" ?k] by (auto simp del: not_None_eq)
  have nn: "q \<noteq> NULL" if "T w = Some q" for w q using page_in_idx(3) [OF tablesD(4) [OF t that]] .
  note F = next_table_found [OF t _ _ va_index_less, where alloc = False] and M = next_table_missing [OF t _ _ va_index_less]
  consider "root = NULL" | "root \<noteq> NULL" "T [?i] = None" | p1 where "root \<noteq> NULL" "T [?i] = Some p1" "T [?i, ?j] = None"
    | p1 p2 where "root \<noteq> NULL" "T [?i] = Some p1" "T [?i, ?j] = Some p2" "T [?i, ?j, ?k] = None"
    | p1 p2 p3 where "root \<noteq> NULL" "T [?i] = Some p1" "T [?i, ?j] = Some p2" "T [?i, ?j, ?k] = Some p3" by (cases "T [?i]"; cases "T [?i, ?j]"; cases "T [?i, ?j, ?k]") auto
  then show ?thesis
  proof cases
    case 1
    then show ?thesis using tables_none [OF t] tablesD(1) [OF t] lf by (simp add: get_pte_def)
  next
    case 2
    then show ?thesis using tablesD(1) [OF t] M [of "[]" root 39 va] up lf by (simp add: get_pte_def)
  next
    case 3
    then show ?thesis using tablesD(1) [OF t] F [of "[]" root 39 va p1] M [of "[?i]" p1 30 va] up lf nn [of "[?i]" p1] by (simp add: get_pte_def)
  next
    case 4
    then show ?thesis using tablesD(1) [OF t] F [of "[]" root 39 va p1] F [of "[?i]" p1 30 va p2] M [of "[?i, ?j]" p2 21 va] lf nn [of "[?i]" p1] nn [of "[?i, ?j]" p2]
      by (simp add: get_pte_def)
  next
    case 5
    have "entry_addr p3 (va_index 12 va) \<noteq> NULL"
      using entry_addr_page(1) [OF tablesD(4) [OF t 5(4)] va_index_less, of 12 va] page_in_idx(1) [OF tablesD(4) [OF t 5(4)]] by (auto simp: page_no_def)
    with 5 show ?thesis using tablesD(1) [OF t] F [of "[]" root 39 va p1] F [of "[?i]" p1 30 va p2] F [of "[?i, ?j]" p2 21 va p3] lf
        nn [of "[?i]" p1] nn [of "[?i, ?j]" p2] nn [of "[?i, ?j, ?k]" p3] by (simp add: get_pte_def)
  qed
qed

lemma vpn_eq_iff: "vpn va = vpn va' \<longleftrightarrow> vpath va = vpath va' \<and> va_index 12 va = va_index 12 va'"
  by (simp add: vpn_def)

lemma vmmap_entry:
  assumes inv: "pt_inv N f' own T' r s1" and g: "T' (vpath va) = Some p" and ka: "ka \<in> own" "page_refs s1 (page_idx ka) \<noteq> - 1"
  shows "\<exists>s3. entry_addr p (va_index 12 va) \<noteq> NULL
           \<and> ref_page ka (s1\<lparr>mword := (mword s1)(entry_addr p (va_index 12 va) := K2P ka OR flags OR PTE_TABLE)\<rparr>) = Some s3
           \<and> pt_inv N f' own T' r s3
           \<and> (\<forall>v. leaf T' s3 (vpn v) = (if vpn v = vpn va then K2P ka OR flags OR PTE_TABLE else leaf T' s1 (vpn v)))
           \<and> page_refs s3 (page_idx ka) = page_refs s1 (page_idx ka) + 1
           \<and> (\<forall>p\<in>own. \<forall>a. page_no a = page_no p \<longrightarrow> mword s3 a = mword s1 a)"
proof -
  let ?e = "entry_addr p (va_index 12 va)" and ?v = "K2P ka OR flags OR PTE_TABLE"
  let ?s2 = "s1\<lparr>mword := (mword s1)(?e := ?v)\<rparr>"
  have t: "tables T' r s1" "own \<inter> ran T' = {}" using inv by (simp_all add: pt_inv_def)
  note D = tablesD [OF t(1)]
  have p: "page_in p" "p \<in> ran T'" using D(4) [OF g] g by (auto simp: ran_def)
  have e: "page_no ?e = page_no p" "?e \<noteq> NULL"
    using entry_addr_page(1) [OF p(1) va_index_less [of 12 va]] page_in_idx(1) [OF p(1)] by (auto simp: page_no_def)
  obtain fl ps cls live where m: "mem_inv N fl ps cls (own \<union> ran T') live s1" "length ps = f'" using inv by (auto simp: pt_inv_def)
  have m2: "mem_inv N fl ps cls (own \<union> ran T') live ?s2" using write_own_inv [OF m(1), of p ?e] p(2) e(1) by simp
  obtain s3 where s3: "ref_page ka ?s2 = Some s3" "mem_inv N fl ps cls (own \<union> ran T') live s3"
    using ref_page_spec [OF m2, of ka] ka by auto
  have s3w: "mword s3 = mword ?s2" "page_refs s3 (page_idx ka) = page_refs s1 (page_idx ka) + 1"
    using s3(1) by (auto simp: ref_page_def increment_rc_def)
  have other: "entry_addr q i \<noteq> ?e" if "T' w = Some q" "i < 512" "w \<noteq> vpath va \<or> i \<noteq> va_index 12 va" for w q i
    using that entry_addr_eq_iff [OF D(4) [OF that(1)] p(1) that(2) va_index_less [of 12 va]] D(6) [OF that(1), of "vpath va"] g by auto
  have "tables T' r s3"
  proof (rule tablesI)
    fix w q and i :: nat assume w: "T' w = Some q" "length w < 3" "i < 512"
    then have "w \<noteq> vpath va" by (auto simp: vpath_def)
    then show "mword s3 (entry_addr q i) = (case T' (w @ [i]) of None \<Rightarrow> 0 | Some q \<Rightarrow> K2P q OR 3)"
      using D(2) [OF w] other [OF w(1,3)] by (simp add: s3w)
  qed (use D in blast)+
  then have i3: "pt_inv N f' own T' r s3" using s3(2) m(2) t(2) by (auto simp: pt_inv_def)
  have "leaf T' s3 (vpn v) = (if vpn v = vpn va then ?v else leaf T' s1 (vpn v))" for v
  proof (cases "vpn v = vpn va")
    case True
    then show ?thesis using g by (simp add: leaf_def vpn_def s3w(1))
  next
    case False
    then show ?thesis
      using other [of "vpath v" _ "va_index 12 v"] va_index_less by (auto simp: leaf_def vpn_def s3w(1) split: option.split)
  qed
  moreover have "mword s3 a = mword s1 a" if "x \<in> own" "page_no a = page_no x" for x a
  proof -
    have "page_no x \<noteq> page_no p" using page_in_no_inj [OF mem_invD(16) [OF m(1)] p(1), of x] that(1) p(2) t(2) by auto
    then have "a \<noteq> ?e" using e(1) that(2) by auto
    then show ?thesis by (simp add: s3w(1))
  qed
  ultimately show ?thesis using s3(1) i3 s3w(2) e(2) by (intro exI [of _ s3]) simp
qed

text \<open>What a mapping does, in terms of the tables before and after.\<close>

definition mapped :: "ptr set \<Rightarrow> u64 \<Rightarrow> ptr \<Rightarrow> u64 \<Rightarrow> (nat list \<Rightarrow> ptr option) \<Rightarrow> memst \<Rightarrow> (nat list \<Rightarrow> ptr option) \<Rightarrow> memst \<Rightarrow> bool" where
  "mapped own va ka flags T s T' s' \<longleftrightarrow>
     (\<forall>v. leaf T' s' (vpn v) = (if vpn v = vpn va then K2P ka OR flags OR PTE_TABLE else leaf T s (vpn v)))
   \<and> page_refs s' (page_idx ka) = page_refs s (page_idx ka) + 1
   \<and> (\<forall>p\<in>own. \<forall>a. page_no a = page_no p \<longrightarrow> mword s' a = mword s a)"

lemma quiet_leaf: "quiet own T s T' s' \<Longrightarrow> leaf T' s' (vpn v) = leaf T s (vpn v)"
  using va_index_less by (simp add: quiet_def vpn_def vpath_def)

lemma vmmap_after_walk:
  assumes g: "get_pte root va True s = Some (r, entry_addr p (va_index 12 va), s1)" "pt_inv N f' own T' r s1" "T' (vpath va) = Some p" "quiet own T s T' s1"
    and ka: "ka \<in> own" "page_refs s (page_idx ka) \<noteq> - 1"
  shows "\<exists>s'. vmmap root va ka flags s = Some (r, s') \<and> pt_inv N f' own T' r s' \<and> mapped own va ka flags T s T' s'"
proof -
  have rc: "page_refs s1 (page_idx ka) = page_refs s (page_idx ka)" using g(4) ka(1) by (simp add: quiet_def same_pages_def)
  have same: "mword s1 a = mword s a" if "x \<in> own" "page_no a = page_no x" for x a using g(4) that by (simp add: quiet_def same_pages_def)
  have "page_refs s1 (page_idx ka) \<noteq> - 1" using ka(2) rc by simp
  from vmmap_entry [OF g(2,3) ka(1) this, of flags] obtain s' where
    "entry_addr p (va_index 12 va) \<noteq> NULL"
    "ref_page ka (s1\<lparr>mword := (mword s1)(entry_addr p (va_index 12 va) := K2P ka OR flags OR PTE_TABLE)\<rparr>) = Some s'"
    "pt_inv N f' own T' r s'"
    "\<forall>v. leaf T' s' (vpn v) = (if vpn v = vpn va then K2P ka OR flags OR PTE_TABLE else leaf T' s1 (vpn v))"
    "page_refs s' (page_idx ka) = page_refs s1 (page_idx ka) + 1"
    "\<forall>p\<in>own. \<forall>a. page_no a = page_no p \<longrightarrow> mword s' a = mword s1 a" by blast
  with g(1) rc same show ?thesis by (intro exI [of _ s']) (simp add: vmmap_def mapped_def quiet_leaf [OF g(4)])
qed

lemma vmmap_spec:
  assumes inv: "pt_inv N (free + 4) own T root s" and ka: "ka \<in> own" "page_refs s (page_idx ka) \<noteq> - 1"
  shows "\<exists>root' s' T' free'. vmmap root va ka flags s = Some (root', s') \<and> pt_inv N free' own T' root' s' \<and> free \<le> free'
           \<and> mapped own va ka flags T s T' s'"
  using get_pte_alloc [OF inv, of va] vmmap_after_walk [OF _ _ _ _ ka] by meson

section \<open>An address space is a map\<close>

text \<open>
  Runs of an address space and its client.  \<open>own\<close> are the pages the client holds, \<open>m\<close> is the map
  from page numbers to entries that the calls so far ask for; 0 is no entry.  The client may write to its pages.
\<close>

inductive pt_run :: "ptr \<Rightarrow> ptr set \<Rightarrow> (nat list \<Rightarrow> u64) \<Rightarrow> ptr \<Rightarrow> memst \<Rightarrow> bool" for kend :: ptr where
  empty: "mem_run kend own live s \<Longrightarrow> pt_run kend own (\<lambda>_. 0) NULL s"
| alloc: "pt_run kend own m root s \<Longrightarrow> kalloc_page s = Some (p, s') \<Longrightarrow> pt_run kend (insert p own) m root s'"
| store: "pt_run kend own m root s \<Longrightarrow> p \<in> own \<Longrightarrow> page_no b = page_no p \<Longrightarrow> pt_run kend own m root (s\<lparr>mword := (mword s)(b := v)\<rparr>)"
| walk: "pt_run kend own m root s \<Longrightarrow> get_pte root va True s = Some (root', pte, s') \<Longrightarrow> pt_run kend own m root' s'"
| map: "pt_run kend own m root s \<Longrightarrow> ka \<in> own \<Longrightarrow> page_refs s (page_idx ka) \<noteq> - 1 \<Longrightarrow> vmmap root va ka flags s = Some (root', s') \<Longrightarrow>
     pt_run kend own (m(vpn va := K2P ka OR flags OR PTE_TABLE)) root' s'"

text \<open>Short of free pages a call may fail half way, but then it does not return.\<close>

lemma next_table_Some:
  assumes inv: "pt_inv N free own T root s" and w: "T w = Some p" "length w < 3" "i < 512" and n: "next_table True p i s = Some (q, s')"
  shows "\<exists>T' free'. pt_inv N free' own T' root s' \<and> T' (w @ [i]) = Some q \<and> q \<noteq> NULL \<and> quiet own T s T' s'"
proof (cases free)
  case 0
  have t: "tables T root s" using inv by (simp add: pt_inv_def)
  obtain fl cls live where "mem_inv N fl [] cls (own \<union> ran T) live s" using inv 0 by (auto simp: pt_inv_def)
  then have k: "kalloc_page s = None" by (rule kalloc_page_empty)
  obtain q' where q': "T (w @ [i]) = Some q'"
    using n k tablesD(2) [OF t w] by (cases "T (w @ [i])") (auto simp: next_table_def)
  then have "q = q'" "s' = s" using n next_table_found [OF t w q', of True] by auto
  then show ?thesis using inv q' page_in_idx(3) [OF tablesD(4) [OF t q']] by (intro exI [of _ T] exI [of _ free]) simp
next
  case (Suc f)
  with next_table_ext [OF inv [unfolded Suc] w] n show ?thesis by auto
qed

lemma root_Some:
  assumes inv: "pt_inv N free own T root s" and n: "(if root = NULL then kalloc_page s else Some (root, s)) = Some (root', s')"
  shows "\<exists>T' free'. pt_inv N free' own T' root' s' \<and> T' [] = Some root' \<and> root' \<noteq> NULL \<and> quiet own T s T' s'"
proof (cases free)
  case 0
  obtain fl cls live where "mem_inv N fl [] cls (own \<union> ran T) live s" using inv 0 by (auto simp: pt_inv_def)
  then have "kalloc_page s = None" by (rule kalloc_page_empty)
  then have "root \<noteq> NULL" "root' = root" "s' = s" using n by (auto split: if_splits)
  then show ?thesis using inv tablesD(1) [of T root s] by (intro exI [of _ T] exI [of _ free]) (simp add: pt_inv_def)
next
  case (Suc f)
  with root_ext [OF inv [unfolded Suc]] n show ?thesis by auto
qed

lemma get_pte_Some:
  assumes inv: "pt_inv N free own T root s" and g: "get_pte root va True s = Some (root', pte, s')"
  shows "\<exists>p T' free'. pte = entry_addr p (va_index 12 va) \<and> pt_inv N free' own T' root' s' \<and> T' (vpath va) = Some p \<and> quiet own T s T' s'"
proof -
  obtain r0 s0 where 0: "(if root = NULL then kalloc_page s else Some (root, s)) = Some (r0, s0)"
    using g by (auto simp: get_pte_def split: if_splits option.splits simp: Option_bind_Some_iff)
  obtain T0 f0 where i0: "pt_inv N f0 own T0 r0 s0" "T0 [] = Some r0" "r0 \<noteq> NULL" "quiet own T s T0 s0" using root_Some [OF inv 0] by blast
  obtain p1 s1 where 1: "next_table True r0 (va_index 39 va) s0 = Some (p1, s1)"
    using g 0 by (auto simp: get_pte_def Option_bind_Some_iff)
  obtain T1 f1 where i1: "pt_inv N f1 own T1 r0 s1" "T1 ([] @ [va_index 39 va]) = Some p1" "p1 \<noteq> NULL" "quiet own T0 s0 T1 s1"
    using next_table_Some [OF i0(1,2) _ va_index_less 1] by auto
  obtain p2 s2 where 2: "next_table True p1 (va_index 30 va) s1 = Some (p2, s2)"
    using g 0 1 i1(3) by (auto simp: get_pte_def Option_bind_Some_iff)
  obtain T2 f2 where i2: "pt_inv N f2 own T2 r0 s2" "T2 (([] @ [va_index 39 va]) @ [va_index 30 va]) = Some p2" "p2 \<noteq> NULL" "quiet own T1 s1 T2 s2"
    using next_table_Some [OF i1(1,2) _ va_index_less 2] by auto
  obtain p3 s3 where 3: "next_table True p2 (va_index 21 va) s2 = Some (p3, s3)"
    using g 0 1 2 i1(3) i2(3) by (auto simp: get_pte_def Option_bind_Some_iff)
  obtain T3 f3 where i3: "pt_inv N f3 own T3 r0 s3" "T3 ((([] @ [va_index 39 va]) @ [va_index 30 va]) @ [va_index 21 va]) = Some p3" "p3 \<noteq> NULL"
    "quiet own T2 s2 T3 s3" using next_table_Some [OF i2(1,2) _ va_index_less 3] by auto
  have "root' = r0" "pte = entry_addr p3 (va_index 12 va)" "s' = s3" using g 0 1 2 3 i1(3) i2(3) i3(3) by (auto simp: get_pte_def)
  moreover have "quiet own T s T3 s3" using i0(4) i1(4) i2(4) i3(4) quiet_trans by blast
  ultimately show ?thesis using i3(1,2) by (intro exI [of _ p3] exI [of _ T3] exI [of _ f3]) (simp add: vpath_def)
qed

lemma vmmap_Some:
  assumes inv: "pt_inv N free own T root s" and ka: "ka \<in> own" "page_refs s (page_idx ka) \<noteq> - 1" and v: "vmmap root va ka flags s = Some (root', s')"
  shows "\<exists>T' free'. pt_inv N free' own T' root' s' \<and> mapped own va ka flags T s T' s'"
proof -
  obtain r pte s1 where g: "get_pte root va True s = Some (r, pte, s1)" using v by (auto simp: vmmap_def Option_bind_Some_iff)
  from get_pte_Some [OF inv g] obtain p T' free' where
    "pte = entry_addr p (va_index 12 va)" "pt_inv N free' own T' r s1" "T' (vpath va) = Some p" "quiet own T s T' s1" by blast
  with vmmap_after_walk [of root va s r p s1 N free' own T' T ka flags] g ka v show ?thesis by auto
qed

lemma pt_run_inv:
  assumes "pt_run kend own m root s" "kernel_end kend"
  shows "\<exists>T free. pt_inv (PAGE_COUNT kend) free own T root s \<and> (\<forall>v. leaf T s (vpn v) = m (vpn v))"
  using assms(1)
proof (induction rule: pt_run.induct)
  case (empty own live s)
  from mem_run_inv [OF empty assms(2)] obtain fl ps cls where "mem_inv (PAGE_COUNT kend) fl ps cls own live s" by blast
  then have "pt_inv (PAGE_COUNT kend) (length ps) own (\<lambda>_. None) NULL s" by (auto simp: pt_inv_def tables_def)
  then show ?case by (intro exI [of _ "\<lambda>_. None"] exI [of _ "length ps"]) (simp add: leaf_def)
next
  case (alloc own m root s p s')
  then obtain T free where i: "pt_inv (PAGE_COUNT kend) free own T root s" "\<forall>v. leaf T s (vpn v) = m (vpn v)" by blast
  obtain f where f: "free = Suc f"
  proof (cases free)
    case 0
    then obtain fl cls live where "mem_inv (PAGE_COUNT kend) fl [] cls (own \<union> ran T) live s" using i(1) by (auto simp: pt_inv_def)
    with kalloc_page_empty alloc(2) show ?thesis by fastforce
  qed
  from pt_inv_kalloc [OF i(1) [unfolded f]] obtain q s1 fl ps cls live where
    k: "kalloc_page s = Some (q, s1)" "page_in q" "q \<notin> own" "q \<notin> ran T" "mem_inv (PAGE_COUNT kend) fl ps cls (insert q (own \<union> ran T)) live s1" "length ps = f"
    "\<And>a. mword s1 a = (if page_no a = page_no q then 0 else mword s a)" "same_pages own s s1" by blast
  have q: "q = p" "s1 = s'" using k(1) alloc(2) by simp_all
  have t: "tables T root s" using i(1) by (simp add: pt_inv_def)
  have w: "mword s' (entry_addr x j) = mword s (entry_addr x j)" if "T u = Some x" "j < 512" for u x j
    using k(7) [of "entry_addr x j"] q entry_addr_page(1) [OF tablesD(4) [OF t that(1)] that(2)]
      page_in_no_inj [OF tablesD(4) [OF t that(1)] k(2)] k(4) that(1) by (auto simp: ran_def)
  have "tables T root s'" by (rule tablesI) (use tablesD [OF t] w in auto)
  moreover have "leaf T s' (vpn v) = leaf T s (vpn v)" for v
    using w [of "vpath v" _ "va_index 12 v"] va_index_less by (auto simp: leaf_def vpn_def split: option.split)
  ultimately show ?case using k(4-6) i q by (intro exI [of _ T] exI [of _ f]) (auto simp: pt_inv_def)
next
  case (store own m root s p b v)
  then obtain T free where i: "pt_inv (PAGE_COUNT kend) free own T root s" "\<forall>v. leaf T s (vpn v) = m (vpn v)" by blast
  let ?s = "s\<lparr>mword := (mword s)(b := v)\<rparr>"
  obtain fl ps cls live where mi: "mem_inv (PAGE_COUNT kend) fl ps cls (own \<union> ran T) live s" "length ps = free" and t: "tables T root s" "own \<inter> ran T = {}"
    using i(1) by (auto simp: pt_inv_def)
  have w: "entry_addr x j \<noteq> b" if "T u = Some x" "j < 512" for u x j
    using entry_addr_page(1) [OF tablesD(4) [OF t(1) that(1)] that(2)] page_in_no_inj [OF tablesD(4) [OF t(1) that(1)], of p]
      mem_invD(16) [OF mi(1), of p] store(2,3) t(2) that(1) by (auto simp: ran_def)
  have "tables T root ?s" by (rule tablesI) (use tablesD [OF t(1)] w in auto)
  moreover have "leaf T ?s (vpn v) = leaf T s (vpn v)" for v
    using w [of "vpath v" _ "va_index 12 v"] va_index_less by (auto simp: leaf_def vpn_def split: option.split)
  moreover have "mem_inv (PAGE_COUNT kend) fl ps cls (own \<union> ran T) live ?s" using write_own_inv [OF mi(1), of p b] store(2,3) by simp
  ultimately show ?case using mi(2) t(2) i(2) by (intro exI [of _ T] exI [of _ free]) (auto simp: pt_inv_def)
next
  case (walk own m root s va root' pte s')
  then obtain T free where i: "pt_inv (PAGE_COUNT kend) free own T root s" "\<forall>v. leaf T s (vpn v) = m (vpn v)" by blast
  from get_pte_Some [OF i(1) walk(2)] i(2) show ?case using quiet_leaf by metis
next
  case (map own m root s ka va flags root' s')
  then obtain T free where i: "pt_inv (PAGE_COUNT kend) free own T root s" "\<forall>v. leaf T s (vpn v) = m (vpn v)" by blast
  from vmmap_Some [OF i(1) map(2-4)] obtain T' free' where
    "pt_inv (PAGE_COUNT kend) free' own T' root' s'" "mapped own va ka flags T s T' s'" by blast
  with i(2) show ?case by (intro exI [of _ T'] exI [of _ free']) (simp add: mapped_def)
qed

text \<open>
  C5: In every run of an address space, walking the tables to a virtual address without allocating
  ends at the entry the last mapping of its page wrote, or at no entry when the page was never
  mapped, and leaves the memory as it is.
\<close>

theorem page_table_is_map:
  assumes "kernel_end kend" "pt_run kend own m root s"
  shows "\<exists>pte. get_pte root va False s = Some (root, pte, s) \<and> (if pte = NULL then 0 else mword s pte) = m (vpn va)"
proof -
  obtain T free where i: "pt_inv (PAGE_COUNT kend) free own T root s" "\<forall>v. leaf T s (vpn v) = m (vpn v)"
    using pt_run_inv [OF assms(2,1)] by blast
  have "tables T root s" using i(1) by (simp add: pt_inv_def)
  from get_pte_lookup [OF this, of va] i(2) show ?thesis by auto
qed

lemma pt_inv_left:
  assumes "pt_inv (PAGE_COUNT kend) free own T root s" shows "left_page_cnt kend s = of_nat free"
proof -
  obtain fl ps cls live where i: "mem_inv (PAGE_COUNT kend) fl ps cls (own \<union> ran T) live s" "length ps = free" using assms by (auto simp: pt_inv_def)
  from mem_invD(2) [OF i(1)] i(2) show ?thesis by (simp add: left_page_cnt_def) (metis add_diff_cancel_left')
qed

lemma pt_run_free:
  assumes "kernel_end kend" "pt_run kend own m root s" "of_nat n \<le> left_page_cnt kend s" "n < 2 ^ 64"
  shows "\<exists>T free. pt_inv (PAGE_COUNT kend) (free + n) own T root s"
proof -
  obtain T f where i: "pt_inv (PAGE_COUNT kend) f own T root s" using pt_run_inv [OF assms(2,1)] by blast
  have "n \<le> unat (of_nat f :: u64)" using assms(3,4) pt_inv_left [OF i] by (simp add: word_le_nat_alt unat_of_nat_u64)
  also have "\<dots> \<le> f" by (simp add: unat_of_nat)
  finally have "f = (f - n) + n" by simp
  with i show ?thesis by metis
qed

text \<open>
  C6: With four free pages \<open>vmmap\<close> returns; the walk to the address it mapped then ends at an entry with the
  page and the flags asked for, the page has one reference more, and no page of the client is written.
\<close>

theorem vmmap_maps:
  assumes "kernel_end kend" "pt_run kend own m root s" "4 \<le> left_page_cnt kend s" "ka \<in> own" "page_refs s (page_idx ka) \<noteq> - 1"
  shows "\<exists>root' s' pte. vmmap root va ka flags s = Some (root', s') \<and> get_pte root' va False s' = Some (root', pte, s') \<and> pte \<noteq> NULL
           \<and> mword s' pte = K2P ka OR flags OR PTE_TABLE \<and> page_refs s' (page_idx ka) = page_refs s (page_idx ka) + 1
           \<and> (\<forall>p\<in>own. \<forall>a. page_no a = page_no p \<longrightarrow> mword s' a = mword s a)"
proof -
  obtain T free where i: "pt_inv (PAGE_COUNT kend) (free + 4) own T root s" using pt_run_free [OF assms(1,2), of 4] assms(3) by auto
  from vmmap_spec [OF i assms(4,5), of va flags] obtain root' s' T' f' where
    v: "vmmap root va ka flags s = Some (root', s')" "pt_inv (PAGE_COUNT kend) f' own T' root' s'" "mapped own va ka flags T s T' s'" by blast
  have "tables T' root' s'" using v(2) by (simp add: pt_inv_def)
  from get_pte_lookup [OF this, of va] obtain pte where
    g: "get_pte root' va False s' = Some (root', pte, s')" "leaf T' s' (vpn va) = (if pte = NULL then 0 else mword s' pte)" by blast
  have l: "leaf T' s' (vpn va) = K2P ka OR flags OR PTE_TABLE" using v(3) by (simp add: mapped_def)
  have "bit (K2P ka OR flags OR PTE_TABLE) 0" by (simp add: PTE_TABLE_def bit_simps)
  then have "pte \<noteq> NULL" using g(2) l by auto
  with v g l show ?thesis by (auto simp: mapped_def)
qed

text \<open>An example: seven free pages behind the kernel, one of them given to the client.\<close>

definition example_kend7 :: ptr where "example_kend7 = 0xffff00003eff8000"

lemma example_space:
  "\<exists>p s. kernel_end example_kend7 \<and> pt_run example_kend7 {p} (\<lambda>_. 0) NULL s \<and> page_refs s (page_idx p) = 1 \<and> 4 \<le> left_page_cnt example_kend7 s"
proof -
  have k: "kernel_end example_kend7" by (simp add: kernel_end_def example_kend7_def KSPACE_MASK_def P2K_def PHYSTOP_def)
  have c: "PAGE_COUNT example_kend7 = 7" by (simp add: PAGE_COUNT_def example_kend7_def PAGE_BASE_def P2K_def PHYSTOP_def KSPACE_MASK_def PAGE_SIZE_def)
  have r: "pt_run example_kend7 {} (\<lambda>_. 0) NULL (mem_boot example_kend7 (\<lambda>_. 0))" by (rule pt_run.empty [OF mem_run.boot])
  obtain ps where i: "mem_inv 7 (\<lambda>_. []) ps (\<lambda>_. None) {} {} (mem_boot example_kend7 (\<lambda>_. 0))" using mem_boot_inv [OF k] c by auto
  have ne: "alloc_page_cnt (add_pages p s) = alloc_page_cnt s" for p s
    by (induction p s rule: add_pages.induct) (subst add_pages.simps, simp add: add_page_def Let_def split: prod.splits)
  have a0: "alloc_page_cnt (mem_boot example_kend7 (\<lambda>_. 0)) = 0" by (simp add: mem_boot_def init_pages_def ne init_alloc_page_cnt_def init_rc_def)
  then have n: "(of_nat (length ps) :: u64) = 7" using mem_invD(2) [OF i] by simp
  then obtain p ps' where ps: "ps = p # ps'" by (cases ps) auto
  from kalloc_page_spec [OF i [unfolded ps]] obtain s where
    s: "kalloc_page (mem_boot example_kend7 (\<lambda>_. 0)) = Some (p, s)" "mem_inv 7 (\<lambda>_. []) ps' (\<lambda>_. None) {p} {} s" "page_refs s (page_idx p) = 1" by auto
  have "alloc_page_cnt s = 1" using s(1) a0 by (auto simp: kalloc_page_def Let_def increment_rc_def split: prod.splits)
  then have "left_page_cnt example_kend7 s = 6" by (simp add: left_page_cnt_def c)
  with k pt_run.alloc [OF r s(1)] s(3) show ?thesis by (intro exI [of _ p] exI [of _ s]) simp
qed

theorem vmmap_maps_witness:
  "\<exists>root s pte ka. get_pte root 0x400000 False s = Some (root, pte, s) \<and> mword s pte = K2P ka OR PTE_USER_DATA OR PTE_TABLE \<and> page_refs s (page_idx ka) = 2"
proof -
  obtain p s where e: "kernel_end example_kend7" "pt_run example_kend7 {p} (\<lambda>_. 0) NULL s" "page_refs s (page_idx p) = 1" "4 \<le> left_page_cnt example_kend7 s"
    using example_space by blast
  from vmmap_maps [OF e(1,2,4), of p "0x400000" PTE_USER_DATA] e(3) show ?thesis by auto
qed

theorem page_table_is_map_witness:
  "\<exists>root s pte v. get_pte root 0x400abc False s = Some (root, pte, s) \<and> pte \<noteq> NULL \<and> mword s pte = v OR PTE_TABLE"
proof -
  obtain p s where e: "kernel_end example_kend7" "pt_run example_kend7 {p} (\<lambda>_. 0) NULL s" "page_refs s (page_idx p) = 1" "4 \<le> left_page_cnt example_kend7 s"
    using example_space by blast
  obtain T free where i: "pt_inv (PAGE_COUNT example_kend7) (free + 4) {p} T NULL s" using pt_run_free [OF e(1,2), of 4] e(4) by auto
  from vmmap_spec [OF i, of p "0x400000" PTE_USER_DATA] e(3) obtain root' s' where v: "vmmap NULL 0x400000 p PTE_USER_DATA s = Some (root', s')" by auto
  have "pt_run example_kend7 {p} ((\<lambda>_. 0)(vpn 0x400000 := K2P p OR PTE_USER_DATA OR PTE_TABLE)) root' s'"
    by (rule pt_run.map [OF e(2) _ _ v]) (use e(3) in auto)
  from page_table_is_map [OF e(1) this, of "0x400abc"] obtain pte where
    g: "get_pte root' 0x400abc False s' = Some (root', pte, s')"
    "(if pte = NULL then 0 else mword s' pte) = ((\<lambda>_. 0)(vpn 0x400000 := K2P p OR PTE_USER_DATA OR PTE_TABLE)) (vpn 0x400abc)" by blast
  have "vpn 0x400abc = vpn 0x400000" by (simp add: vpn_def vpath_def va_index_def)
  moreover have "bit (K2P p OR PTE_USER_DATA OR PTE_TABLE) 0" by (simp add: PTE_TABLE_def bit_simps)
  ultimately have "pte \<noteq> NULL" "mword s' pte = (K2P p OR PTE_USER_DATA) OR PTE_TABLE" using g(2) by (auto split: if_splits simp: or.assoc)
  with g(1) show ?thesis by blast
qed

end
