(* ===== verification/Proc.thy ===== *)
theory Proc
  imports Sem Ptable
begin

text \<open>
  Processes (\<open>kernel/proc.c\<close>, \<open>kernel/proc.h\<close>): process numbers, the process tree, exit, wait and
  kill.  The fields of a \<open>struct proc\<close> that the scheduler uses are in its state; the others are
  \<open>procrec\<close>.  The list of children is the member sequence of the circular list whose head is the
  field \<open>children\<close>.  The process tree is changed only under \<open>treelock\<close>; a stretch of code between its
  acquisition and release is one step, and \<open>exit\<close> and \<open>wait\<close> are split where they give it up.
\<close>

section \<open>State\<close>

record procrec =
  pkilled :: bool
  ppid :: int
  exitcode :: int
  childexit :: Semaphore
  children :: "ptr list"
  parent :: ptr
  ppgdir :: pgdir
  kstack :: ptr
  kctx_lr :: u64
  kctx_x0 :: u64
  kctx_x1 :: u64

record procst =
  procs :: "ptr \<Rightarrow> procrec"
  root_proc :: ptr
  pid_map :: "u32 list"
  last_pid :: int
  pmem :: memst
  twaits :: "ptr \<Rightarrow> WaitData"
  tsched :: schedst

definition MAX_PID :: nat where "MAX_PID = 2048"

definition BITMAP_SIZE :: nat where
  "BITMAP_SIZE = MAX_PID div 32 + (if MAX_PID mod 32 \<noteq> 0 then 1 else 0)"

text \<open>\<open>sizeof(struct proc)\<close>: the table of open files alone has 65536 pointers.\<close>

definition sizeof_proc :: nat where "sizeof_proc = 176 + 65536 * 8 + 8"

definition sizeof_timer :: nat where "sizeof_timer = 56"

definition upd_proc :: "ptr \<Rightarrow> (procrec \<Rightarrow> procrec) \<Rightarrow> procst \<Rightarrow> procst" where
  "upd_proc p f st = st\<lparr>procs := (procs st)(p := f (procs st p))\<rparr>"

definition this_proc :: "nat \<Rightarrow> procst \<Rightarrow> ptr" where
  "this_proc c st = thisproc (tsched st) c"

text \<open>The semaphore \<open>childexit\<close> of a process, as the state the semaphore operations work on.\<close>

definition childexit_of :: "ptr \<Rightarrow> procst \<Rightarrow> semst" where
  "childexit_of p st = \<lparr>sem = childexit (procs st p), waits = twaits st, ssched = tsched st\<rparr>"

definition put_childexit :: "ptr \<Rightarrow> semst \<Rightarrow> procst \<Rightarrow> procst" where
  "put_childexit p x st = (upd_proc p (\<lambda>r. r\<lparr>childexit := sem x\<rparr>) st)\<lparr>twaits := waits x, tsched := ssched x\<rparr>"

definition post_childexit :: "ptr \<Rightarrow> procst \<Rightarrow> procst option" where
  "post_childexit p st = do { x \<leftarrow> post_sem (childexit_of p st); Some (put_childexit p x st) }"

section \<open>Process numbers\<close>

definition pid_used :: "u32 list \<Rightarrow> nat \<Rightarrow> bool" where
  "pid_used m pid \<longleftrightarrow> m ! (pid div 32) AND push_bit (pid mod 32) 1 \<noteq> 0"

definition init_pidalloc :: "procst \<Rightarrow> procst" where
  "init_pidalloc st = st\<lparr>last_pid := - 1, pid_map := replicate BITMAP_SIZE 0\<rparr>"

fun pid_loop :: "nat list \<Rightarrow> procst \<Rightarrow> (int \<times> procst) option" where
  "pid_loop [] st = None"
| "pid_loop (pid # ps) st =
     (if \<not> pid_used (pid_map st) pid
      then Some (int pid, st\<lparr>pid_map := (pid_map st)[pid div 32 := pid_map st ! (pid div 32) OR push_bit (pid mod 32) 1],
                             last_pid := int pid\<rparr>)
      else pid_loop ps st)"

definition get_pid :: "procst \<Rightarrow> int \<times> procst" where
  "get_pid st =
     (let offset = nat ((last_pid st + 1) mod int MAX_PID)
      in case pid_loop [offset..<MAX_PID] st of
           Some r \<Rightarrow> r
         | None \<Rightarrow> (case pid_loop [0..<offset] st of Some r \<Rightarrow> r | None \<Rightarrow> (- 1, st)))"

definition check_pid :: "int \<Rightarrow> bool" where
  "check_pid pid \<longleftrightarrow> 0 \<le> pid \<and> pid < int MAX_PID"

definition release_pid :: "int \<Rightarrow> procst \<Rightarrow> procst option" where
  "release_pid pid st =
     do { ASSERT (0 \<le> pid \<and> pid < int MAX_PID);
          let i = nat pid;
          Some (st\<lparr>pid_map := (pid_map st)[i div 32 := pid_map st ! (i div 32) AND NOT (push_bit (i mod 32) 1)]\<rparr>) }"

section \<open>Creation\<close>

definition set_parent_to_this :: "nat \<Rightarrow> ptr \<Rightarrow> procst \<Rightarrow> procst" where
  "set_parent_to_this c p st =
     (let this = this_proc c st
      in upd_proc this (\<lambda>r. r\<lparr>children := p # children r\<rparr>) (upd_proc p (\<lambda>r. r\<lparr>parent := this\<rparr>) st))"

text \<open>\<open>start_proc\<close>: \<open>proc_entry\<close> is the address of the assembly routine of that name.\<close>

definition start_proc :: "u64 \<Rightarrow> ptr \<Rightarrow> u64 \<Rightarrow> u64 \<Rightarrow> procst \<Rightarrow> int \<times> procst" where
  "start_proc proc_entry p entry arg st =
     (let st1 = (if parent (procs st p) = NULL
                 then upd_proc (root_proc st) (\<lambda>r. r\<lparr>children := p # children r\<rparr>) (upd_proc p (\<lambda>r. r\<lparr>parent := root_proc st\<rparr>) st)
                 else st);
          st2 = upd_proc p (\<lambda>r. r\<lparr>kctx_lr := proc_entry, kctx_x0 := entry, kctx_x1 := arg\<rparr>) st1
      in (ppid (procs st2 p), st2\<lparr>tsched := snd (activate_proc p False (tsched st2))\<rparr>))"

definition zero_proc :: procrec where
  "zero_proc = \<lparr>pkilled = False, ppid = 0, exitcode = 0, childexit = init_sem 0, children = [], parent = NULL,
                ppgdir = \<lparr>pt = NULL, sections = []\<rparr>, kstack = NULL, kctx_lr = 0, kctx_x0 = 0, kctx_x1 = 0\<rparr>"

definition init_proc :: "ptr \<Rightarrow> procst \<Rightarrow> procst option" where
  "init_proc p st =
     do { let st1 = (upd_proc p (\<lambda>_. zero_proc) st)\<lparr>tsched := (tsched st)\<lparr>pidle := (pidle (tsched st))(p := False),
                                                                            pstate := (pstate (tsched st))(p := UNUSED)\<rparr>\<rparr>;
          let (pid, st2) = get_pid st1;
          (pd, m1) \<leftarrow> init_pgdir (pmem st2);
          (ks, m2) \<leftarrow> kalloc_page m1;
          (t, m3) \<leftarrow> kalloc (of_nat sizeof_timer) m2;
          ASSERT (t \<noteq> NULL);
          Some ((upd_proc p (\<lambda>r. r\<lparr>ppid := pid, ppgdir := pd, kstack := ks\<rparr>) st2)
                  \<lparr>pmem := m3, tsched := init_schinfo p (tsched st2)\<rparr>) }"

definition create_proc :: "procst \<Rightarrow> (ptr \<times> procst) option" where
  "create_proc st =
     do { (p, m) \<leftarrow> kalloc (of_nat sizeof_proc) (pmem st);
          ASSERT (p \<noteq> NULL);
          st1 \<leftarrow> init_proc p (st\<lparr>pmem := m\<rparr>);
          Some (p, st1) }"

definition init_root_proc :: "u64 \<Rightarrow> u64 \<Rightarrow> procst \<Rightarrow> procst option" where
  "init_root_proc proc_entry kernel_entry st =
     do { st1 \<leftarrow> init_proc (root_proc st) st;
          Some (snd (start_proc proc_entry (root_proc st) kernel_entry 123456 (upd_proc (root_proc st) (\<lambda>r. r\<lparr>parent := root_proc st\<rparr>) st1))) }"

section \<open>Exit\<close>

fun adopt :: "ptr list \<Rightarrow> procst \<Rightarrow> procst option" where
  "adopt [] st = Some st"
| "adopt (p # ps) st =
     do { let st1 = upd_proc p (\<lambda>r. r\<lparr>parent := root_proc st\<rparr>) st;
          st2 \<leftarrow> (if is_zombie p (tsched st1) then post_childexit (root_proc st) st1 else Some st1);
          adopt ps st2 }"

text \<open>
  \<open>_detach_from_list\<close> of the head gives the last child, and \<open>_merge_list\<close> puts the list that starts
  there behind the head of the root's children.
\<close>

definition give_children :: "ptr \<Rightarrow> procst \<Rightarrow> procst" where
  "give_children this st =
     (let cs = children (procs st this);
          st1 = upd_proc this (\<lambda>r. r\<lparr>children := []\<rparr>) st
      in if cs = [] then st1 else upd_proc (root_proc st) (\<lambda>r. r\<lparr>children := last cs # butlast cs @ children r\<rparr>) st1)"

text \<open>\<open>exit\<close> up to the release of \<open>treelock\<close>, and its last step.\<close>

definition exit_begin :: "nat \<Rightarrow> int \<Rightarrow> procst \<Rightarrow> procst option" where
  "exit_begin c code st =
     do { let this = this_proc c st;
          let st1 = upd_proc this (\<lambda>r. r\<lparr>exitcode := code\<rparr>) st;
          m1 \<leftarrow> kfree_page (kstack (procs st1 this)) (pmem st1);
          m2 \<leftarrow> free_pgdir (pt (ppgdir (procs st1 this))) (ppgdir (procs st1 this)) m1;
          let st2 = st1\<lparr>pmem := m2\<rparr>;
          st3 \<leftarrow> (if children (procs st2 this) \<noteq> []
                 then do { st3 \<leftarrow> adopt (children (procs st2 this)) st2; Some (give_children this st3) }
                 else Some st2);
          post_childexit (parent (procs st3 this)) st3 }"

definition exit_end :: "nat \<Rightarrow> u64 \<Rightarrow> procst \<Rightarrow> procst option" where
  "exit_end c now st = do { s \<leftarrow> simple_sched c now ZOMBIE (tsched st); Some (st\<lparr>tsched := s\<rparr>) }"

section \<open>Wait\<close>

datatype wait_step = NoChild | Got | Asleep

text \<open>\<open>wait\<close> up to \<open>wait_sem\<close>; \<open>w\<close> is the address of the \<open>WaitData\<close>.\<close>

definition wait_begin :: "nat \<Rightarrow> u64 \<Rightarrow> ptr \<Rightarrow> procst \<Rightarrow> (wait_step \<times> procst) option" where
  "wait_begin c now w st =
     (let this = this_proc c st
      in if children (procs st this) = [] then Some (NoChild, st)
         else do { (got, x) \<leftarrow> wait_sem_begin c now w True (childexit_of this st);
                   Some (if got then Got else Asleep, put_childexit this x st) })"

text \<open>A sleeper runs again on processor \<open>c\<close>.\<close>

definition wait_wake :: "nat \<Rightarrow> ptr \<Rightarrow> procst \<Rightarrow> procst option" where
  "wait_wake c w st =
     do { let this = this_proc c st;
          (_, x) \<leftarrow> wait_sem_end w (childexit_of this st);
          Some (put_childexit this x st) }"

text \<open>The rest of \<open>wait\<close>: the number and the exit code of the first zombie child, or a panic.\<close>

definition wait_reap :: "nat \<Rightarrow> procst \<Rightarrow> (int \<times> int \<times> procst) option" where
  "wait_reap c st =
     (let this = this_proc c st
      in case find (\<lambda>p. is_zombie p (tsched st)) (children (procs st this)) of
           None \<Rightarrow> PANIC
         | Some p \<Rightarrow>
             do { let st1 = upd_proc this (\<lambda>r. r\<lparr>children := remove1 p (children r)\<rparr>) st;
                  st2 \<leftarrow> release_pid (ppid (procs st p)) st1;
                  Some (ppid (procs st p), exitcode (procs st p), st2\<lparr>pmem := kfree p (pmem st2)\<rparr>) })"

section \<open>Kill\<close>

text \<open>
  \<open>dfs_tree\<close> over a list of children: the process found, marked and alerted, or NULL.  The fuel is
  the depth of the tree.
\<close>

function dfs_list :: "nat \<Rightarrow> int \<Rightarrow> ptr list \<Rightarrow> procst \<Rightarrow> (ptr \<times> procst) option" where
  "dfs_list fuel pid [] st = Some (NULL, st)"
| "dfs_list fuel pid (p # ps) st =
     (if ppid (procs st p) = pid \<and> pstate (tsched st) p \<noteq> UNUSED
      then (let st1 = upd_proc p (\<lambda>r. r\<lparr>pkilled := True\<rparr>) st
            in Some (p, st1\<lparr>tsched := snd (activate_proc p True (tsched st1))\<rparr>))
      else case fuel of
             0 \<Rightarrow> None
           | Suc f \<Rightarrow> (case dfs_list f pid (children (procs st p)) st of
                         None \<Rightarrow> None
                       | Some (r, st1) \<Rightarrow> if r \<noteq> NULL then Some (r, st1) else dfs_list fuel pid ps st1))"
  by pat_completeness auto

termination dfs_list
  by (relation "measures [\<lambda>(fuel, pid, ps, st). fuel, \<lambda>(fuel, pid, ps, st). length ps]") auto

definition dfs_tree :: "nat \<Rightarrow> ptr \<Rightarrow> int \<Rightarrow> procst \<Rightarrow> (ptr \<times> procst) option" where
  "dfs_tree fuel fa pid st = dfs_list fuel pid (children (procs st fa)) st"

definition kill :: "nat \<Rightarrow> int \<Rightarrow> procst \<Rightarrow> (int \<times> procst) option" where
  "kill fuel pid st =
     (if \<not> check_pid pid then Some (- 1, st)
      else do { (r, st1) \<leftarrow> dfs_tree fuel (root_proc st) pid st;
                Some (if r = NULL then - 1 else 0, st1) })"

end
