(* ===== verification/Proc_Props.thy ===== *)
theory Proc_Props
  imports Proc Ptable_Props
begin

text \<open>
  Processes: the pool of process numbers, the invariant of the process tree under every operation,
  and how an exit code gets to the parent.
\<close>

section \<open>Process numbers\<close>

lemma pid_used_bit: "pid_used m pid \<longleftrightarrow> bit (m ! (pid div 32)) (pid mod 32)"
  by (simp add: pid_used_def bit_iff_and_push_bit_not_eq_0)

lemma pid_split: "q div 32 = p div 32 \<Longrightarrow> q mod 32 = p mod 32 \<Longrightarrow> q = (p :: nat)"
  by (metis div_mult_mod_eq)

lemma pid_used_take:
  assumes "length m = 64" "pid < 2048"
  shows "pid_used (m[pid div 32 := m ! (pid div 32) OR push_bit (pid mod 32) 1]) q \<longleftrightarrow> q = pid \<or> pid_used m q"
proof -
  have "pid div 32 < length m" using assms by auto
  then show ?thesis using pid_split [of q pid] by (auto simp: pid_used_bit nth_list_update bit_simps)
qed

lemma pid_used_release:
  assumes "length m = 64" "pid < 2048"
  shows "pid_used (m[pid div 32 := m ! (pid div 32) AND NOT (push_bit (pid mod 32) 1)]) q \<longleftrightarrow> q \<noteq> pid \<and> pid_used m q"
proof -
  have "pid div 32 < length m" using assms by auto
  moreover have "q mod 32 < LENGTH(32)" by simp
  ultimately show ?thesis using pid_split [of q pid] by (auto simp: pid_used_bit nth_list_update bit_simps)
qed

text \<open>The map of the numbers in use.\<close>

definition used_pids :: "procst \<Rightarrow> int set" where
  "used_pids st = int ` {p. p < 2048 \<and> pid_used (pid_map st) p}"

lemma int_image_mem: "int p \<in> int ` {q. P q} \<longleftrightarrow> P p"
  by auto

definition take_pid :: "nat \<Rightarrow> procst \<Rightarrow> procst" where
  "take_pid pid st = st\<lparr>pid_map := (pid_map st)[pid div 32 := pid_map st ! (pid div 32) OR push_bit (pid mod 32) 1], last_pid := int pid\<rparr>"

lemma used_take:
  assumes "length (pid_map st) = 64" "pid < 2048" shows "used_pids (take_pid pid st) = insert (int pid) (used_pids st)"
proof -
  have "{p. p < 2048 \<and> (p = pid \<or> pid_used (pid_map st) p)} = insert pid {p. p < 2048 \<and> pid_used (pid_map st) p}"
    using assms(2) by auto
  moreover have "pid_map (take_pid pid st) = (pid_map st)[pid div 32 := pid_map st ! (pid div 32) OR push_bit (pid mod 32) 1]"
    by (simp add: take_pid_def)
  ultimately show ?thesis unfolding used_pids_def by (simp only: pid_used_take [OF assms] image_insert)
qed

lemma used_release:
  assumes "length (pid_map st) = 64" "pid < 2048" "release_pid (int pid) st = Some st'"
  shows "used_pids st' = used_pids st - {int pid}"
proof -
  have st': "pid_map st' = (pid_map st)[pid div 32 := pid_map st ! (pid div 32) AND NOT (push_bit (pid mod 32) 1)]"
    using assms(2,3) by (auto simp: release_pid_def MAX_PID_def Let_def)
  have "{p. p < 2048 \<and> (p \<noteq> pid \<and> pid_used (pid_map st) p)} = {p. p < 2048 \<and> pid_used (pid_map st) p} - {pid}" by auto
  then show ?thesis unfolding used_pids_def st'
    by (simp only: pid_used_release [OF assms(1,2)] image_set_diff [OF inj_of_nat] image_insert image_empty)
qed

lemma pid_loop_find:
  "pid_loop ps st = (case find (\<lambda>p. \<not> pid_used (pid_map st) p) ps of None \<Rightarrow> None | Some p \<Rightarrow> Some (int p, take_pid p st))"
  by (induction ps) (auto simp: take_pid_def)

text \<open>The order in which numbers are tried: from the one after the last, once around.\<close>

definition pid_order :: "int \<Rightarrow> nat list" where
  "pid_order lp = (let off = nat ((lp + 1) mod 2048) in [off..<2048] @ [0..<off])"

lemma set_pid_order [simp]: "set (pid_order lp) = {..<2048}"
proof -
  have "nat ((lp + 1) mod 2048) \<le> 2048" by (simp add: nat_le_iff less_imp_le)
  then show ?thesis by (auto simp: pid_order_def Let_def)
qed

lemma find_append: "find P (xs @ ys) = (case find P xs of None \<Rightarrow> find P ys | Some x \<Rightarrow> Some x)"
  by (induction xs) auto

lemma get_pid_find:
  "get_pid st = (case find (\<lambda>p. \<not> pid_used (pid_map st) p) (pid_order (last_pid st)) of None \<Rightarrow> (- 1, st) | Some p \<Rightarrow> (int p, take_pid p st))"
  by (auto simp: get_pid_def pid_order_def Let_def MAX_PID_def pid_loop_find find_append split: option.splits)

text \<open>Runs of the pool: \<open>live\<close> are the numbers given out and not yet released.\<close>

inductive pid_run :: "int set \<Rightarrow> procst \<Rightarrow> bool" where
  boot: "pid_run {} (init_pidalloc st)"
| get: "pid_run live st \<Longrightarrow> get_pid st = (pid, st') \<Longrightarrow> pid_run (if pid = - 1 then live else insert pid live) st'"
| release: "pid_run live st \<Longrightarrow> pid \<in> live \<Longrightarrow> release_pid pid st = Some st' \<Longrightarrow> pid_run (live - {pid}) st'"
| other: "pid_run live st \<Longrightarrow> pid_map st' = pid_map st \<Longrightarrow> last_pid st' = last_pid st \<Longrightarrow> pid_run live st'"

lemma get_pid_used:
  assumes "length (pid_map st) = 64" "get_pid st = (pid, st')"
  shows "length (pid_map st') = 64" "used_pids st' = (if pid = - 1 then used_pids st else insert pid (used_pids st))"
proof -
  have "length (pid_map st') = 64 \<and> used_pids st' = (if pid = - 1 then used_pids st else insert pid (used_pids st))"
  proof (cases "find (\<lambda>p. \<not> pid_used (pid_map st) p) (pid_order (last_pid st))")
    case None
    then show ?thesis using assms by (simp add: get_pid_find)
  next
    case (Some p)
    then have "p < 2048" using set_pid_order [of "last_pid st"] by (metis find_Some_iff lessThan_iff nth_mem)
    moreover have "pid = int p" "st' = take_pid p st" using assms(2) Some by (simp_all add: get_pid_find)
    ultimately show ?thesis using used_take [OF assms(1)] assms(1) by (simp add: take_pid_def)
  qed
  then show "length (pid_map st') = 64" "used_pids st' = (if pid = - 1 then used_pids st else insert pid (used_pids st))" by auto
qed

lemma release_pid_length: "release_pid pid st = Some st' \<Longrightarrow> length (pid_map st') = length (pid_map st)"
  by (auto simp: release_pid_def Let_def split: if_splits)

lemma pid_run_inv: "pid_run live st \<Longrightarrow> length (pid_map st) = 64 \<and> live = used_pids st"
proof (induction rule: pid_run.induct)
  case (boot st)
  have "\<not> pid_used (replicate 64 0) p" if "p < 2048" for p
  proof -
    have "p div 32 < 64" using that by auto
    then show ?thesis by (simp add: pid_used_bit)
  qed
  then show ?case by (auto simp: init_pidalloc_def BITMAP_SIZE_def MAX_PID_def used_pids_def)
next
  case (get live st pid st')
  then show ?case using get_pid_used [of st pid st'] by simp
next
  case (release live st pid st')
  then obtain p where p: "pid = int p" "p < 2048" by (auto simp: used_pids_def)
  then show ?case using release used_release [of st p st'] release_pid_length [OF release(3)] by simp
qed (simp add: used_pids_def)

text \<open>
  C27: In every run \<open>get_pid\<close> gives a number in 0..2047 that no live process has, the first such number
  after the one it gave last, or -1 exactly when all 2048 are taken; releasing a live number succeeds.
\<close>

theorem pid_fresh:
  assumes "pid_run live st"
  shows "case get_pid st of (pid, st') \<Rightarrow>
           (if pid = - 1 then live = {0..<2048} \<and> st' = st
            else pid \<in> {0..<2048} - live \<and> last_pid st' = pid
              \<and> (\<exists>before after. pid_order (last_pid st) = before @ nat pid # after \<and> int ` set before \<subseteq> live))
         \<and> (\<forall>p\<in>live. release_pid p st \<noteq> None)"
proof -
  have inv: "live = used_pids st" using pid_run_inv [OF assms] by simp
  then have rel: "\<forall>p\<in>live. release_pid p st \<noteq> None" by (auto simp: release_pid_def MAX_PID_def Let_def used_pids_def)
  show ?thesis
  proof (cases "find (\<lambda>p. \<not> pid_used (pid_map st) p) (pid_order (last_pid st))")
    case None
    then have "\<forall>p<2048. pid_used (pid_map st) p" by (auto simp: find_None_iff)
    then have "{p. p < 2048 \<and> pid_used (pid_map st) p} = {0..<2048}" by auto
    then have "live = {0..<2048}" by (simp add: inv used_pids_def image_int_atLeastLessThan)
    then show ?thesis using None rel by (simp add: get_pid_find)
  next
    case (Some p)
    from find_Some_split [OF Some] obtain b a where
      o: "pid_order (last_pid st) = b @ p # a" "\<not> pid_used (pid_map st) p" "\<forall>y\<in>set b. pid_used (pid_map st) y" by auto
    have s: "set b \<union> {p} \<subseteq> {..<2048}" using set_pid_order [of "last_pid st"] unfolding o(1) by auto
    have "int p \<notin> live" using o(2) inv by (auto simp: used_pids_def)
    moreover have "int ` set b \<subseteq> live" using s o(3) inv by (auto simp: used_pids_def)
    ultimately show ?thesis using Some rel o(1) s by (auto simp: get_pid_find take_pid_def)
  qed
qed

text \<open>An example: a machine with seven free pages.\<close>

definition example_procst :: procst where
  "example_procst =
     \<lparr>procs = (\<lambda>_. zero_proc), root_proc = 8, pid_map = [], last_pid = 0,
      pmem = mem_boot example_kend7 (\<lambda>_. 0), twaits = (\<lambda>_. \<lparr>w_up = False, w_proc = NULL\<rparr>),
      tsched = sched_init (\<lambda>c. of_nat (4096 + 64 * c)) (\<lambda>c. of_nat (8192 + 64 * c))\<rparr>"

theorem pid_fresh_witness:
  "fst (get_pid (init_pidalloc example_procst)) \<in> {- 1} \<union> {0..<2048}"
  using pid_fresh [OF pid_run.boot [of example_procst]] by (auto split: prod.splits if_splits)

section \<open>The process tree\<close>

text \<open>
  \<open>A\<close> are the processes of the tree: each has as children exactly the processes whose parent it is,
  once each, and from each the parents lead to the root.
\<close>

definition tree_ok :: "ptr set \<Rightarrow> ptr \<Rightarrow> (ptr \<Rightarrow> ptr) \<Rightarrow> (ptr \<Rightarrow> ptr list) \<Rightarrow> bool" where
  "tree_ok A r par ch \<longleftrightarrow>
     r \<in> A \<and> NULL \<notin> A \<and> finite A \<and> par r = r
     \<and> (\<forall>p\<in>A. distinct (ch p) \<and> set (ch p) = {q \<in> A. q \<noteq> r \<and> par q = p}
            \<and> par p \<in> A \<and> (\<exists>n. (par ^^ n) p = r))"

definition tree_inv :: "ptr set \<Rightarrow> procst \<Rightarrow> bool" where
  "tree_inv A st \<longleftrightarrow> tree_ok A (root_proc st) (\<lambda>p. parent (procs st p)) (\<lambda>p. children (procs st p))"

lemma tree_okD:
  assumes "tree_ok A r par ch"
  shows "r \<in> A" "NULL \<notin> A" "finite A" "par r = r" "p \<in> A \<Longrightarrow> distinct (ch p)"
    "p \<in> A \<Longrightarrow> set (ch p) = {q \<in> A. q \<noteq> r \<and> par q = p}" "p \<in> A \<Longrightarrow> par p \<in> A" "p \<in> A \<Longrightarrow> \<exists>n. (par ^^ n) p = r"
  using assms by (simp_all add: tree_ok_def)

text \<open>The three changes: a new leaf, children handed to the root, a leaf taken away.\<close>

lemma iterate_in:
  assumes "\<And>q. q \<in> A \<Longrightarrow> par q \<in> A" "p \<in> A" shows "(par ^^ n) p \<in> A"
  using assms by (induction n) auto

lemma iterate_cong:
  assumes "\<And>q. q \<in> A \<Longrightarrow> par q \<in> A" "p \<in> A" "\<And>q. q \<in> A \<Longrightarrow> par' q = par q"
  shows "(par' ^^ n) p = (par ^^ n) p"
proof (induction n)
  case (Suc n)
  have "(par ^^ n) p \<in> A" using iterate_in [of A par, OF assms(1,2)] .
  then show ?case using Suc assms(3) by simp
qed simp

lemma tree_insert:
  assumes t: "tree_ok A r par ch" and p: "p \<notin> A" "p \<noteq> NULL" "ch p = []" and q: "q \<in> A"
  shows "tree_ok (insert p A) r (par(p := q)) (ch(q := p # ch q))"
proof -
  note D = tree_okD [OF t]
  have r: "r \<noteq> p" "q \<noteq> p" using D(1) p(1) q by auto
  have e: "((par(p := q)) ^^ n) x = (par ^^ n) x" if "x \<in> A" for x n
    by (rule iterate_cong [where A = A]) (use D(7) that p(1) in auto)
  have path: "\<exists>n. ((par(p := q)) ^^ n) x = r" if "x \<in> insert p A" for x
  proof (cases "x = p")
    case True
    obtain n where "(par ^^ n) q = r" using D(8) [OF q] by blast
    then have "((par(p := q)) ^^ (Suc n)) x = r" using e [OF q] True by (simp only: funpow_Suc_right o_apply fun_upd_same)
    then show ?thesis by blast
  next
    case False
    then show ?thesis using e [of x] D(8) [of x] that by auto
  qed
  have no: "par x \<noteq> p" if "x \<in> A" for x using D(7) [OF that] p(1) by auto
  have kids: "distinct ((ch(q := p # ch q)) x) \<and> set ((ch(q := p # ch q)) x) = {y \<in> insert p A. y \<noteq> r \<and> (par(p := q)) y = x}"
    if "x \<in> insert p A" for x
  proof (cases "x = p")
    case True
    then show ?thesis using r p(3) no by auto
  next
    case False
    then have "x \<in> A" using that by simp
    then show ?thesis using D(5,6) [of x] D(5,6) [OF q] p(1) r by auto
  qed
  show ?thesis unfolding tree_ok_def using D(1-4) p(2) r kids path D(7) q by auto
qed

lemma tree_remove:
  assumes t: "tree_ok A r par ch" and q: "q \<in> A" "q \<noteq> r" "ch q = []" and f: "f = par q"
  shows "tree_ok (A - {q}) r par (ch(f := remove1 q (ch f)))"
proof -
  note D = tree_okD [OF t]
  have no: "x \<in> A \<Longrightarrow> par x \<noteq> q" for x using D(4) D(6) [OF q(1)] q by (cases "x = r") auto
  have f': "f \<in> A" "f \<noteq> q" using D(7) [OF q(1)] no [OF q(1)] f by auto
  have kids: "distinct ((ch(f := remove1 q (ch f))) x) \<and> set ((ch(f := remove1 q (ch f))) x) = {y \<in> A - {q}. y \<noteq> r \<and> par y = x}"
    if "x \<in> A - {q}" for x
  proof (cases "x = f")
    case True
    then show ?thesis using D(5,6) [OF f'(1)] by (auto simp: set_remove1_eq)
  next
    case False
    then show ?thesis using D(5,6) [of x] that f by auto
  qed
  have "par x \<in> A - {q} \<and> (\<exists>n. (par ^^ n) x = r)" if "x \<in> A - {q}" for x using D(7,8) [of x] no that by auto
  then show ?thesis unfolding tree_ok_def using D(1-4) q(2) kids by auto
qed

lemma tree_adopt:
  assumes t: "tree_ok A r par ch" and q: "q \<in> A" "q \<noteq> r" "ch q \<noteq> []"
  shows "tree_ok A r (\<lambda>x. if x \<in> set (ch q) then r else par x) (ch(q := [], r := last (ch q) # butlast (ch q) @ ch r))"
    (is "tree_ok A r ?par ?ch")
proof -
  note D = tree_okD [OF t]
  have l: "butlast (ch q) @ [last (ch q)] = ch q" using q(3) by simp
  have s1: "insert (last (ch q)) (set (butlast (ch q))) = set (ch q)" using arg_cong [OF l, of set] by simp
  then have s: "set (last (ch q) # butlast (ch q) @ ch r) = set (ch q) \<union> set (ch r)" by auto
  have "distinct (butlast (ch q) @ [last (ch q)])" using D(5) [OF q(1)] l by simp
  then have d1: "distinct (last (ch q) # butlast (ch q))" by simp
  have "set (ch q) \<inter> set (ch r) = {}" using D(6) [OF q(1)] D(6) [OF D(1)] q(2) by auto
  then have d: "distinct (last (ch q) # butlast (ch q) @ ch r)" using d1 s1 D(5) [OF D(1)] by auto
  have path: "\<exists>n. (?par ^^ n) x = r" if "x \<in> A" "(par ^^ n) x = r" for x n
    using that
  proof (induction n arbitrary: x)
    case 0
    then show ?case by (intro exI [of _ 0]) simp
  next
    case (Suc n)
    show ?case
    proof (cases "x \<in> set (ch q)")
      case True
      then show ?thesis by (intro exI [of _ 1]) simp
    next
      case False
      have "(par ^^ n) (par x) = r" using Suc.prems(2) by (simp only: funpow_Suc_right o_apply)
      from Suc.IH [OF D(7) [OF Suc.prems(1)] this] obtain m where "(?par ^^ m) (par x) = r" by blast
      then have "(?par ^^ Suc m) x = r" using False by (simp only: funpow_Suc_right o_apply if_False)
      then show ?thesis by blast
    qed
  qed
  have kids: "distinct (?ch x) \<and> set (?ch x) = {y \<in> A. y \<noteq> r \<and> ?par y = x}" if "x \<in> A" for x
  proof (cases "x = r")
    case True
    then show ?thesis using d s D(6) [OF q(1)] D(6) [OF D(1)] by auto
  next
    case False
    then show ?thesis using D(5,6) [OF that] D(6) [OF q(1)] by auto
  qed
  have path': "\<exists>n. (?par ^^ n) x = r" if "x \<in> A" for x using D(8) [OF that] path [OF that] by blast
  show ?thesis unfolding tree_ok_def using D(1-4) kids path' D(7) by auto
qed

text \<open>
  Runs of the kernel as the tree sees them.  \<open>N\<close> are the processes that \<open>init_proc\<close> has set up and
  that are not in the tree yet, \<open>X\<close> those that have called \<open>exit\<close>.  The root does not exit.  Code
  outside \<open>proc.c\<close> changes other fields and makes no process a zombie.
\<close>

inductive proc_run :: "ptr set \<Rightarrow> ptr set \<Rightarrow> ptr set \<Rightarrow> procst \<Rightarrow> bool" where
  boot: "root_proc st \<noteq> NULL \<Longrightarrow> init_root_proc pe ke st = Some st' \<Longrightarrow>
     proc_run {root_proc st} {} {} st'"
| create: "proc_run A N X st \<Longrightarrow> p \<notin> A \<union> N \<Longrightarrow> p \<noteq> NULL \<Longrightarrow> init_proc p st = Some st' \<Longrightarrow>
     proc_run A (insert p N) X st'"
| set_parent: "proc_run A N X st \<Longrightarrow> p \<in> N \<Longrightarrow> this_proc c st \<in> A - X \<Longrightarrow>
     proc_run (insert p A) (N - {p}) X (set_parent_to_this c p st)"
| start: "proc_run A N X st \<Longrightarrow> p \<in> A \<union> N \<Longrightarrow> start_proc pe p entry arg st = (i, st') \<Longrightarrow>
     proc_run (insert p A) (N - {p}) X st'"
| exit_b: "proc_run A N X st \<Longrightarrow> this_proc c st \<in> A - X \<Longrightarrow> this_proc c st \<noteq> root_proc st \<Longrightarrow>
     exit_begin c code st = Some st' \<Longrightarrow> proc_run A N (insert (this_proc c st) X) st'"
| exit_e: "proc_run A N X st \<Longrightarrow> this_proc c st \<in> X \<Longrightarrow> exit_end c now st = Some st' \<Longrightarrow>
     proc_run A N X st'"
| wait_b: "proc_run A N X st \<Longrightarrow> wait_begin c now w st = Some (r, st') \<Longrightarrow> proc_run A N X st'"
| wait_w: "proc_run A N X st \<Longrightarrow> wait_wake c w st = Some st' \<Longrightarrow> proc_run A N X st'"
| reap: "proc_run A N X st \<Longrightarrow> this_proc c st \<in> A \<Longrightarrow> wait_reap c st = Some (i, code, st') \<Longrightarrow>
     find (\<lambda>p. is_zombie p (tsched st)) (children (procs st (this_proc c st))) = Some q \<Longrightarrow>
     proc_run (A - {q}) N (X - {q}) st'"
| kill_p: "proc_run A N X st \<Longrightarrow> kill fuel pid st = Some (r, st') \<Longrightarrow> proc_run A N X st'"
| other: "proc_run A N X st \<Longrightarrow> root_proc st' = root_proc st \<Longrightarrow>
     (\<And>p. parent (procs st' p) = parent (procs st p) \<and> children (procs st' p) = children (procs st p)) \<Longrightarrow>
     (\<And>p. is_zombie p (tsched st') \<Longrightarrow> is_zombie p (tsched st)) \<Longrightarrow> proc_run A N X st'"

subsection \<open>What the operations change\<close>

definition same_tree :: "procst \<Rightarrow> procst \<Rightarrow> bool" where
  "same_tree st st' \<longleftrightarrow>
     root_proc st' = root_proc st
     \<and> (\<forall>p. parent (procs st' p) = parent (procs st p) \<and> children (procs st' p) = children (procs st p))"

definition no_new_zombie :: "procst \<Rightarrow> procst \<Rightarrow> bool" where
  "no_new_zombie st st' \<longleftrightarrow> (\<forall>p. is_zombie p (tsched st') \<longrightarrow> is_zombie p (tsched st))"

definition tree_quiet :: "procst \<Rightarrow> procst \<Rightarrow> bool" where
  "tree_quiet st st' \<longleftrightarrow> same_tree st st' \<and> no_new_zombie st st'"

lemma tree_quietI:
  "root_proc st' = root_proc st \<Longrightarrow> (\<And>p. parent (procs st' p) = parent (procs st p)) \<Longrightarrow>
   (\<And>p. children (procs st' p) = children (procs st p)) \<Longrightarrow> (\<And>p. is_zombie p (tsched st') \<Longrightarrow> is_zombie p (tsched st)) \<Longrightarrow> tree_quiet st st'"
  by (auto simp: tree_quiet_def same_tree_def no_new_zombie_def)

lemma tree_quietD:
  assumes "tree_quiet st st'"
  shows "root_proc st' = root_proc st" "parent (procs st' p) = parent (procs st p)"
    "children (procs st' p) = children (procs st p)" "is_zombie p (tsched st') \<Longrightarrow> is_zombie p (tsched st)"
  using assms by (auto simp: tree_quiet_def same_tree_def no_new_zombie_def)

lemma tree_quiet_refl [simp]: "tree_quiet st st"
  by (simp add: tree_quietI)

lemma tree_quiet_trans: "tree_quiet a b \<Longrightarrow> tree_quiet b c \<Longrightarrow> tree_quiet a c"
  by (auto simp: tree_quiet_def same_tree_def no_new_zombie_def)

lemma activate_proc_zombie: "is_zombie q (snd (activate_proc p a s)) \<longleftrightarrow> is_zombie q s"
  by (auto simp: activate_proc_def make_runnable_def is_zombie_def)

lemma simple_sched_zombie:
  assumes "simple_sched c now ns s = Some t" "is_zombie q t"
  shows "is_zombie q s \<or> ns = ZOMBIE \<and> q = thisproc s c"
  using assms by (auto simp: simple_sched_def update_this_state_def pick_next_def update_this_proc_def is_zombie_def
      set_cpu_timer_def cancel_cpu_timer_def Let_def split: if_splits option.splits)

lemma post_childexit_quiet: "post_childexit p st = Some st' \<Longrightarrow> tree_quiet st st'"
  by (auto simp: post_childexit_def post_sem_def childexit_of_def put_childexit_def upd_proc_def Let_def bind_eq_Some_conv
      activate_proc_zombie intro!: tree_quietI split: if_splits)

lemma wait_begin_quiet: "wait_begin c now w st = Some (r, st') \<Longrightarrow> tree_quiet st st'"
  by (auto simp: wait_begin_def wait_sem_begin_def bind_eq_Some_conv childexit_of_def put_childexit_def upd_proc_def Let_def
      intro!: tree_quietI dest: simple_sched_zombie split: if_splits)

lemma wait_wake_quiet: "wait_wake c w st = Some st' \<Longrightarrow> tree_quiet st st'"
  by (auto simp: wait_wake_def wait_sem_end_def childexit_of_def put_childexit_def upd_proc_def Let_def bind_eq_Some_conv
      intro!: tree_quietI split: if_splits)

lemma dfs_list_quiet: "dfs_list fuel pid ps st = Some (r, st') \<Longrightarrow> tree_quiet st st'"
proof (induction fuel pid ps st arbitrary: r st' rule: dfs_list.induct)
  case (2 fuel pid p ps st)
  show ?case
  proof (cases "ppid (procs st p) = pid \<and> pstate (tsched st) p \<noteq> UNUSED")
    case True
    then show ?thesis using "2.prems" by (auto simp: Let_def upd_proc_def activate_proc_zombie intro!: tree_quietI)
  next
    case False
    then show ?thesis using "2.prems" "2.IH" [OF False] tree_quiet_trans
      by (fastforce split: nat.splits option.splits if_splits)
  qed
qed simp

lemma kill_quiet: "kill fuel pid st = Some (r, st') \<Longrightarrow> tree_quiet st st'"
  by (auto simp: kill_def dfs_tree_def bind_eq_Some_conv dest: dfs_list_quiet split: if_splits)

lemma release_pid_quiet: "release_pid pid st = Some st' \<Longrightarrow> tree_quiet st st'"
  by (auto simp: release_pid_def Let_def intro!: tree_quietI split: if_splits)

lemma get_pid_quiet: "get_pid st = (pid, st') \<Longrightarrow> tree_quiet st st'"
  by (auto simp: get_pid_find take_pid_def intro!: tree_quietI split: option.splits)

lemma get_pid_procs: "get_pid st = (pid, st') \<Longrightarrow> procs st' = procs st \<and> tsched st' = tsched st \<and> root_proc st' = root_proc st"
  by (auto simp: get_pid_find take_pid_def split: option.splits)

lemma init_proc_frame:
  assumes "init_proc p st = Some st'"
  shows "root_proc st' = root_proc st" "parent (procs st' q) = (if q = p then NULL else parent (procs st q))"
    "children (procs st' q) = (if q = p then [] else children (procs st q))"
    "is_zombie q (tsched st') \<Longrightarrow> is_zombie q (tsched st) \<and> q \<noteq> p"
  using assms unfolding init_proc_def
  by (auto simp: Let_def bind_eq_Some_conv upd_proc_def zero_proc_def init_schinfo_def is_zombie_def
      dest!: get_pid_procs split: prod.splits if_splits)

lemma adopt_frame:
  "adopt ps st = Some st' \<Longrightarrow>
     root_proc st' = root_proc st \<and> children (procs st' q) = children (procs st q)
     \<and> parent (procs st' q) = (if q \<in> set ps then root_proc st else parent (procs st q))
     \<and> (is_zombie q (tsched st') \<longrightarrow> is_zombie q (tsched st))"
proof (induction ps arbitrary: st)
  case (Cons p ps)
  define st1 where "st1 = upd_proc p (\<lambda>r. r\<lparr>parent := root_proc st\<rparr>) st"
  obtain st2 where st2: "(if is_zombie p (tsched st1) then post_childexit (root_proc st) st1 else Some st1) = Some st2"
    "adopt ps st2 = Some st'"
    using Cons.prems by (auto simp: st1_def [symmetric] Let_def bind_eq_Some_conv)
  have "tree_quiet st1 st2" using st2(1) by (auto dest: post_childexit_quiet split: if_splits)
  then have "root_proc st2 = root_proc st" "children (procs st2 q) = children (procs st q)"
    "parent (procs st2 q) = (if q = p then root_proc st else parent (procs st q))"
    "is_zombie q (tsched st2) \<longrightarrow> is_zombie q (tsched st)"
    using tree_quietD [of st1 st2] by (auto simp: st1_def upd_proc_def)
  then show ?case using Cons.IH [OF st2(2)] by auto
qed simp

text \<open>\<open>exit\<close> hands the children to the root and changes no other edge.\<close>

lemma exit_begin_frame:
  assumes "exit_begin c code st = Some st'" and th: "this = this_proc c st" and nr: "this \<noteq> root_proc st"
  shows "root_proc st' = root_proc st"
    "parent (procs st' q) = (if q \<in> set (children (procs st this)) then root_proc st else parent (procs st q))"
    "children (procs st' q) =
       ((\<lambda>p. children (procs st p))
          (this := [], root_proc st := (let cs = children (procs st this); r = children (procs st (root_proc st))
                                        in if cs = [] then r else last cs # butlast cs @ r))) q"
    "is_zombie q (tsched st') \<Longrightarrow> is_zombie q (tsched st)"
proof -
  define st1 where "st1 = upd_proc this (\<lambda>r. r\<lparr>exitcode := code\<rparr>) st"
  obtain m where m: "(if children (procs (st1\<lparr>pmem := m\<rparr>) this) \<noteq> []
                 then do { st3 \<leftarrow> adopt (children (procs (st1\<lparr>pmem := m\<rparr>) this)) (st1\<lparr>pmem := m\<rparr>); Some (give_children this st3) }
                 else Some (st1\<lparr>pmem := m\<rparr>)) \<bind> (\<lambda>st3. post_childexit (parent (procs st3 this)) st3) = Some st'"
    using assms(1) unfolding exit_begin_def Let_def th [symmetric] st1_def [symmetric] by (auto simp: bind_eq_Some_conv)
  define st2 where "st2 = st1\<lparr>pmem := m\<rparr>"
  have q2: "root_proc st2 = root_proc st" "parent (procs st2 p) = parent (procs st p)" "children (procs st2 p) = children (procs st p)"
    "tsched st2 = tsched st" for p by (auto simp: st2_def st1_def upd_proc_def)
  obtain st3 where st3: "(if children (procs st2 this) \<noteq> [] then do { st3 \<leftarrow> adopt (children (procs st2 this)) st2; Some (give_children this st3) }
                 else Some st2) = Some st3" "tree_quiet st3 st'"
    using m unfolding st2_def [symmetric] by (auto simp: bind_eq_Some_conv simp del: not_None_eq dest: post_childexit_quiet)
  note Q = tree_quietD [OF st3(2)]
  have "root_proc st' = root_proc st
    \<and> parent (procs st' q) = (if q \<in> set (children (procs st this)) then root_proc st else parent (procs st q))
    \<and> children (procs st' q) =
       ((\<lambda>p. children (procs st p))
          (this := [], root_proc st := (let cs = children (procs st this); r = children (procs st (root_proc st))
                                        in if cs = [] then r else last cs # butlast cs @ r))) q
    \<and> (is_zombie q (tsched st') \<longrightarrow> is_zombie q (tsched st))"
  proof (cases "children (procs st this) = []")
    case True
    then have "st3 = st2" using st3(1) q2 by simp
    then show ?thesis using Q q2 True by auto
  next
    case False
    then obtain st3' where a: "adopt (children (procs st this)) st2 = Some st3'" "st3 = give_children this st3'"
      using st3(1) q2 by (auto simp: bind_eq_Some_conv)
    note F = adopt_frame [OF a(1)]
    have F': "root_proc st3' = root_proc st" "\<And>q. children (procs st3' q) = children (procs st q)"
      "\<And>q. parent (procs st3' q) = (if q \<in> set (children (procs st this)) then root_proc st else parent (procs st q))"
      "\<And>q. is_zombie q (tsched st3') \<Longrightarrow> is_zombie q (tsched st)" using F q2 by auto
    have "children (procs st3 q) = ((\<lambda>p. children (procs st p)) (this := [], root_proc st := last (children (procs st this)) #
            butlast (children (procs st this)) @ children (procs st (root_proc st)))) q"
      "root_proc st3 = root_proc st" "parent (procs st3 q) = parent (procs st3' q)" "tsched st3 = tsched st3'"
      using False nr F'(1,2) by (auto simp: a(2) give_children_def Let_def upd_proc_def)
    then show ?thesis using Q F' False by (auto simp: Let_def)
  qed
  then show "root_proc st' = root_proc st"
    "parent (procs st' q) = (if q \<in> set (children (procs st this)) then root_proc st else parent (procs st q))"
    "children (procs st' q) =
       ((\<lambda>p. children (procs st p))
          (this := [], root_proc st := (let cs = children (procs st this); r = children (procs st (root_proc st))
                                        in if cs = [] then r else last cs # butlast cs @ r))) q"
    "is_zombie q (tsched st') \<Longrightarrow> is_zombie q (tsched st)" by blast+
qed

lemma exit_end_frame:
  assumes "exit_end c now st = Some st'"
  shows "same_tree st st'" "is_zombie q (tsched st') \<Longrightarrow> is_zombie q (tsched st) \<or> q = this_proc c st"
  using assms by (auto simp: exit_end_def this_proc_def same_tree_def bind_eq_Some_conv dest: simple_sched_zombie)

lemma start_proc_frame:
  assumes "start_proc pe p entry arg st = (i, st')"
  shows "root_proc st' = root_proc st" "is_zombie q (tsched st') \<longleftrightarrow> is_zombie q (tsched st)"
    "parent (procs st p) \<noteq> NULL \<Longrightarrow> parent (procs st' q) = parent (procs st q) \<and> children (procs st' q) = children (procs st q)"
    "parent (procs st p) = NULL \<Longrightarrow> parent (procs st' q) = ((\<lambda>q. parent (procs st q))(p := root_proc st)) q
       \<and> children (procs st' q) = ((\<lambda>q. children (procs st q))(root_proc st := p # children (procs st (root_proc st)))) q"
  using assms by (auto simp: start_proc_def Let_def upd_proc_def activate_proc_zombie split: if_split_asm)

lemma set_parent_frame:
  "root_proc (set_parent_to_this c p st) = root_proc st" "tsched (set_parent_to_this c p st) = tsched st"
  "parent (procs (set_parent_to_this c p st) q) = ((\<lambda>q. parent (procs st q))(p := this_proc c st)) q"
  "children (procs (set_parent_to_this c p st) q) =
     ((\<lambda>q. children (procs st q))(this_proc c st := p # children (procs st (this_proc c st)))) q"
  by (auto simp: set_parent_to_this_def Let_def upd_proc_def)

lemma wait_reap_frame:
  assumes "wait_reap c st = Some (i, code, st')"
    and "find (\<lambda>p. is_zombie p (tsched st)) (children (procs st (this_proc c st))) = Some q"
  shows "root_proc st' = root_proc st" "tsched st' = tsched st" "parent (procs st' p) = parent (procs st p)"
    "children (procs st' p) =
       ((\<lambda>p. children (procs st p))(this_proc c st := remove1 q (children (procs st (this_proc c st))))) p"
    "i = ppid (procs st q)" "code = exitcode (procs st q)"
  using assms by (auto simp: wait_reap_def Let_def bind_eq_Some_conv release_pid_def upd_proc_def split: if_splits)

subsection \<open>The invariant\<close>

definition proc_inv :: "ptr set \<Rightarrow> ptr set \<Rightarrow> ptr set \<Rightarrow> procst \<Rightarrow> bool" where
  "proc_inv A N X st \<longleftrightarrow>
     tree_inv A st \<and> A \<inter> N = {} \<and> NULL \<notin> N
     \<and> (\<forall>p\<in>N. parent (procs st p) = NULL \<and> children (procs st p) = [])
     \<and> X \<subseteq> A - {root_proc st} \<and> (\<forall>p\<in>X. children (procs st p) = [])
     \<and> (\<forall>p\<in>A \<union> N. is_zombie p (tsched st) \<longrightarrow> p \<in> X)"

lemma proc_invD:
  assumes "proc_inv A N X st"
  shows "tree_ok A (root_proc st) (\<lambda>p. parent (procs st p)) (\<lambda>p. children (procs st p))" "A \<inter> N = {}" "NULL \<notin> N"
    "p \<in> N \<Longrightarrow> parent (procs st p) = NULL" "p \<in> N \<Longrightarrow> children (procs st p) = []" "X \<subseteq> A - {root_proc st}"
    "p \<in> X \<Longrightarrow> children (procs st p) = []" "p \<in> A \<Longrightarrow> is_zombie p (tsched st) \<Longrightarrow> p \<in> X"
    "p \<in> N \<Longrightarrow> \<not> is_zombie p (tsched st)"
  using assms by (auto simp: proc_inv_def tree_inv_def)

lemma proc_inv_quiet:
  assumes "proc_inv A N X st" "tree_quiet st st'" shows "proc_inv A N X st'"
  using assms unfolding proc_inv_def tree_inv_def tree_quiet_def same_tree_def no_new_zombie_def by (auto simp: subset_iff)

lemma tree_inv_eq:
  "(\<And>p. parent (procs st' p) = par p) \<Longrightarrow> (\<And>p. children (procs st' p) = ch p) \<Longrightarrow>
   tree_inv A st' \<longleftrightarrow> tree_ok A (root_proc st') par ch"
proof -
  assume "\<And>p. parent (procs st' p) = par p" "\<And>p. children (procs st' p) = ch p"
  then have "(\<lambda>p. parent (procs st' p)) = par" "(\<lambda>p. children (procs st' p)) = ch" by auto
  then show ?thesis by (simp add: tree_inv_def)
qed

text \<open>A process that is new joins the tree under \<open>q\<close>.\<close>

lemma proc_inv_join:
  assumes inv: "proc_inv A N X st" and p: "p \<in> N" and q: "q \<in> A - X" and r: "root_proc st' = root_proc st"
    and f: "\<And>x. parent (procs st' x) = ((\<lambda>x. parent (procs st x))(p := q)) x"
      "\<And>x. children (procs st' x) = ((\<lambda>x. children (procs st x))(q := p # children (procs st q))) x"
    and z: "\<And>x. is_zombie x (tsched st') \<Longrightarrow> is_zombie x (tsched st)"
  shows "proc_inv (insert p A) (N - {p}) X st'"
proof -
  note I = proc_invD [OF inv]
  have pA: "p \<notin> A" "p \<noteq> NULL" using I(2,3) p by auto
  have "tree_inv (insert p A) st'"
    unfolding tree_inv_eq [OF f] r by (rule tree_insert [OF I(1) pA]) (use I(5) p q in auto)
  moreover have "\<forall>y\<in>N - {p}. parent (procs st' y) = NULL \<and> children (procs st' y) = []"
    using f I(2,4,5) q by auto
  moreover have "\<forall>y\<in>X. children (procs st' y) = []" using f I(7) q by auto
  moreover have "\<forall>y\<in>insert p A \<union> (N - {p}). is_zombie y (tsched st') \<longrightarrow> y \<in> X" using z I(8,9) p by blast
  ultimately show ?thesis using I(2,3,6) pA r unfolding proc_inv_def by auto
qed

text \<open>The invariant holds in every run.\<close>

lemma init_root_inv:
  assumes "root_proc st \<noteq> NULL" "init_root_proc pe ke st = Some st'"
  shows "proc_inv {root_proc st} {} {} st'"
proof -
  obtain st1 where st1: "init_proc (root_proc st) st = Some st1"
    "st' = snd (start_proc pe (root_proc st) ke 123456 (upd_proc (root_proc st) (\<lambda>r. r\<lparr>parent := root_proc st\<rparr>) st1))"
    using assms(2) by (auto simp: init_root_proc_def bind_eq_Some_conv)
  note F = init_proc_frame [OF st1(1)]
  let ?s = "upd_proc (root_proc st) (\<lambda>r. r\<lparr>parent := root_proc st\<rparr>) st1"
  obtain i where "start_proc pe (root_proc st) ke 123456 ?s = (i, st')" using st1(2) by (metis prod.collapse)
  note G = start_proc_frame [OF this]
  have p: "parent (procs ?s (root_proc st)) \<noteq> NULL" using assms(1) by (simp add: upd_proc_def)
  have "\<exists>n. ((\<lambda>q. parent (procs st' q)) ^^ n) (root_proc st) = root_proc st" by (rule exI [of _ 0]) simp
  then show ?thesis using F G(1,2) G(3) [OF p] assms(1)
    unfolding proc_inv_def tree_inv_def tree_ok_def by (auto simp: upd_proc_def)
qed

lemma exit_begin_inv:
  assumes inv: "proc_inv A N X st" and t: "this_proc c st \<in> A - X" "this_proc c st \<noteq> root_proc st"
    and e: "exit_begin c code st = Some st'"
  shows "proc_inv A N (insert (this_proc c st) X) st'"
proof -
  define this where "this = this_proc c st"
  note F = exit_begin_frame [OF e this_def t(2) [folded this_def]]
  note I = proc_invD [OF inv]
  let ?par = "\<lambda>p. parent (procs st p)" and ?ch = "\<lambda>p. children (procs st p)"
  let ?par' = "\<lambda>x. if x \<in> set (?ch this) then root_proc st else ?par x"
  let ?ch' = "?ch(this := [], root_proc st := (let cs = ?ch this; r = ?ch (root_proc st) in if cs = [] then r else last cs # butlast cs @ r))"
  have f: "parent (procs st' x) = ?par' x" "children (procs st' x) = ?ch' x" for x using F(2,3) by auto
  have tree: "tree_ok A (root_proc st) ?par' ?ch'"
  proof (cases "?ch this = []")
    case True
    then have "?par' = ?par" "?ch' = ?ch" by (auto simp: Let_def)
    then show ?thesis using I(1) by metis
  next
    case False
    then show ?thesis using tree_adopt [OF I(1) _ t(2) [folded this_def] False] t(1) by (simp add: this_def Let_def)
  qed
  have "\<forall>p\<in>N. parent (procs st' p) = NULL \<and> children (procs st' p) = []"
    using f I(2,4,5) t(1) tree_okD(1,6) [OF I(1)] by (auto simp: this_def)
  moreover have "\<forall>p\<in>insert this X. children (procs st' p) = []" using f I(6,7) t(2) by (auto simp: this_def)
  moreover have "\<forall>p\<in>A \<union> N. is_zombie p (tsched st') \<longrightarrow> p \<in> insert this X" using F(4) I(8,9) by blast
  ultimately show ?thesis
    using tree tree_inv_eq [of st' ?par' ?ch' A, OF f] F(1) I(2,3,6) t unfolding proc_inv_def this_def [symmetric] by auto
qed

lemma wait_reap_inv:
  assumes inv: "proc_inv A N X st" and t: "this_proc c st \<in> A" and e: "wait_reap c st = Some (i, code, st')"
    and q: "find (\<lambda>p. is_zombie p (tsched st)) (children (procs st (this_proc c st))) = Some q"
  shows "proc_inv (A - {q}) N (X - {q}) st'"
proof -
  note F = wait_reap_frame [OF e q]
  note I = proc_invD [OF inv]
  have z: "q \<in> set (children (procs st (this_proc c st)))" "is_zombie q (tsched st)" using q by (auto simp: find_Some_iff)
  then have qA: "q \<in> A" "q \<noteq> root_proc st" "this_proc c st = parent (procs st q)" using tree_okD(6) [OF I(1) t] by auto
  then have X: "q \<in> X" "children (procs st q) = []" using z I(7,8) by auto
  have tr: "tree_inv (A - {q}) st'"
    unfolding tree_inv_eq [OF F(3,4)] F(1) by (rule tree_remove [OF I(1) qA(1,2) X(2) qA(3)])
  have "this_proc c st \<notin> X" using z(1) I(7) by fastforce
  then have ch: "children (procs st' p) = []" if "p \<in> X" for p using that F(4) I(7) by auto
  have "this_proc c st \<notin> N" using I(2) t by auto
  then have "children (procs st' p) = []" if "p \<in> N" for p using that F(4) I(5) by auto
  then show ?thesis using tr ch F(1-3) I(2-6,8,9) unfolding proc_inv_def by auto
qed

lemma start_proc_inv:
  assumes inv: "proc_inv A N X st" and p: "p \<in> A \<union> N" and s: "start_proc pe p entry arg st = (i, st')"
  shows "proc_inv (insert p A) (N - {p}) X st'"
proof -
  note F = start_proc_frame [OF s]
  note I = proc_invD [OF inv]
  show ?thesis
  proof (cases "p \<in> N")
    case True
    then have par: "parent (procs st p) = NULL" by (rule I(4))
    show ?thesis
      by (rule proc_inv_join [OF inv True, of "root_proc st"]) (use F(1,2) F(4) [OF par] tree_okD(1) [OF I(1)] I(6) in auto)
  next
    case False
    then have "p \<in> A" using p by simp
    then have "parent (procs st p) \<noteq> NULL" using tree_okD(2,7) [OF I(1)] by metis
    from F(3) [OF this] have "tree_quiet st st'" using F(1,2) by (auto intro: tree_quietI)
    then show ?thesis using proc_inv_quiet [OF inv] False \<open>p \<in> A\<close> by (simp add: insert_absorb)
  qed
qed

lemma proc_run_inv: "proc_run A N X st \<Longrightarrow> proc_inv A N X st"
proof (induction rule: proc_run.induct)
  case (boot st pe ke st')
  then show ?case by (rule init_root_inv)
next
  case (create A N X st p st')
  note F = init_proc_frame [OF create.hyps(4)]
  note I = proc_invD [OF create.IH]
  have "tree_inv A st'"
  proof -
    have "tree_inv A st" using create.IH by (simp add: proc_inv_def)
    moreover have "(parent (procs st' q) = parent (procs st q) \<and> children (procs st' q) = children (procs st q))" if "q \<in> A" for q
      using F(2,3) create.hyps(2) that by auto
    moreover have "((\<lambda>q. parent (procs st' q)) ^^ n) q = ((\<lambda>q. parent (procs st q)) ^^ n) q" if "q \<in> A" for q n
      by (rule iterate_cong [where A = A]) (use tree_okD(7) [OF I(1)] F(2) create.hyps(2) that in auto)
    ultimately show ?thesis using F(1) unfolding tree_inv_def tree_ok_def by auto
  qed
  moreover have "\<forall>q\<in>X. children (procs st' q) = []" using F(3) I(7) by auto
  moreover have "\<forall>q\<in>insert p N. parent (procs st' q) = NULL \<and> children (procs st' q) = []" using F(2,3) I(4,5) by auto
  moreover have "\<forall>q\<in>A \<union> insert p N. is_zombie q (tsched st') \<longrightarrow> q \<in> X" using F(4) I(8,9) by blast
  ultimately show ?case using F(1) I(2,3,6) create.hyps(2,3) unfolding proc_inv_def by auto
next
  case (set_parent A N X st p c)
  then show ?case by (intro proc_inv_join [of A N X st p "this_proc c st"]) (simp_all add: set_parent_frame)
next
  case (start A N X st p pe entry arg i st')
  then show ?case using start_proc_inv by blast
next
  case (exit_b A N X st c code st')
  then show ?case using exit_begin_inv by blast
next
  case (exit_e A N X st c now st')
  note F = exit_end_frame [OF exit_e.hyps(3)]
  have "\<forall>p\<in>A \<union> N. is_zombie p (tsched st') \<longrightarrow> p \<in> X"
    using F(2) proc_invD(8,9) [OF exit_e.IH] exit_e.hyps(2) by blast
  then show ?case using exit_e.IH F(1) by (auto simp: proc_inv_def tree_inv_def same_tree_def)
next
  case (wait_b A N X st c now w r st')
  then show ?case using proc_inv_quiet wait_begin_quiet by blast
next
  case (wait_w A N X st c w st')
  then show ?case using proc_inv_quiet wait_wake_quiet by blast
next
  case (reap A N X st c i code st' q)
  then show ?case using wait_reap_inv by blast
next
  case (kill_p A N X st fuel pid r st')
  then show ?case using proc_inv_quiet kill_quiet by blast
next
  case (other A N X st st')
  then show ?case using proc_inv_quiet [of A N X st st'] by (simp add: tree_quietI)
qed

subsection \<open>Memory for a process\<close>

text \<open>\<open>room k\<close>: at least \<open>k\<close> pages are free.\<close>

definition room :: "nat \<Rightarrow> u64 \<Rightarrow> memst \<Rightarrow> bool" where
  "room k N s \<longleftrightarrow> (\<exists>fl ps cls own live. mem_inv N fl ps cls own live s) \<and> k \<le> unat (N - alloc_page_cnt s)"

lemma roomI: "mem_inv N fl ps cls own live s \<Longrightarrow> k \<le> unat (N - alloc_page_cnt s) \<Longrightarrow> room k N s"
  unfolding room_def by blast

lemma unat_less_one: "Suc k \<le> unat (x :: u64) \<Longrightarrow> k \<le> unat (x - 1)"
  by (cases "x = 0") (simp_all add: unat_minus_one)

lemma kalloc_page_room:
  assumes "room (Suc k) N s" shows "\<exists>p s'. kalloc_page s = Some (p, s') \<and> room k N s'"
proof -
  obtain fl ps cls own live where i: "mem_inv N fl ps cls own live s" "Suc k \<le> unat (N - alloc_page_cnt s)"
    using assms by (auto simp: room_def)
  have "N - alloc_page_cnt s = of_nat (length ps)" using mem_invD(2) [OF i(1)] by (auto simp: algebra_simps)
  then have "ps \<noteq> []" using i(2) by auto
  then obtain p ps' where ps: "ps = p # ps'" by (cases ps) auto
  from kalloc_page_spec [OF i(1) [unfolded ps]] obtain s' where
    s': "kalloc_page s = Some (p, s')" "mem_inv N fl ps' cls (insert p own) live s'" by blast
  have "alloc_page_cnt s' = alloc_page_cnt s + 1"
    using s'(1) by (auto simp: kalloc_page_def Let_def increment_rc_def split: prod.splits if_splits)
  then have "N - alloc_page_cnt s' = (N - alloc_page_cnt s) - 1" by (simp only: diff_diff_add)
  then have "k \<le> unat (N - alloc_page_cnt s')" using unat_less_one [OF i(2)] by (simp only:)
  with s' roomI show ?thesis by blast
qed

lemma carve_cnt: "carve f b e p s = Some s' \<Longrightarrow> alloc_page_cnt s' = alloc_page_cnt s"
  by (induction f b e p s rule: carve.induct) (auto simp: add_memory_def Let_def split: if_splits)

lemma kalloc_cnt:
  assumes "kalloc sz s = Some (a, s')"
  shows "a \<noteq> NULL" "alloc_page_cnt s' = alloc_page_cnt s \<or> alloc_page_cnt s' = alloc_page_cnt s + 1"
  using assms by (auto simp: kalloc_def pop_memory_def kalloc_page_def Let_def bind_eq_Some_conv increment_rc_def
      dest!: carve_cnt split: prod.splits if_splits)

lemma kalloc_room:
  assumes "room (Suc k) N s" "sz \<le> 2048" shows "\<exists>a s'. kalloc sz s = Some (a, s') \<and> a \<noteq> NULL \<and> room k N s'"
proof -
  obtain fl ps cls own live where i: "mem_inv N fl ps cls own live s" "Suc k \<le> unat (N - alloc_page_cnt s)"
    using assms(1) by (auto simp: room_def)
  have "N - alloc_page_cnt s = of_nat (length ps)" using mem_invD(2) [OF i(1)] by (auto simp: algebra_simps)
  then have "ps \<noteq> []" using i(2) by auto
  with kalloc_spec [OF i(1) assms(2) refl] obtain a s' fl' ps' cls' where
    s': "kalloc sz s = Some (a, s')" "mem_inv N fl' ps' cls' own (insert a live) s'" by blast
  have "k \<le> unat (N - alloc_page_cnt s')"
    using kalloc_cnt(2) [OF s'(1)] i(2) unat_less_one [OF i(2)] by (auto simp: algebra_simps)
  with s' kalloc_cnt(1) [OF s'(1)] roomI show ?thesis by blast
qed

text \<open>Four free pages are enough for the tables, the first section, the stack and the timer.\<close>

lemma init_proc_total:
  assumes "room (k + 4) N (pmem st)" shows "\<exists>st'. init_proc p st = Some st' \<and> room k N (pmem st')"
proof -
  let ?st1 = "(upd_proc p (\<lambda>_. zero_proc) st)\<lparr>tsched := (tsched st)\<lparr>pidle := (pidle (tsched st))(p := False),
                                                                            pstate := (pstate (tsched st))(p := UNUSED)\<rparr>\<rparr>"
  obtain pid st2 where g: "get_pid ?st1 = (pid, st2)" by fastforce
  have m: "pmem st2 = pmem st" using g by (auto simp: get_pid_find take_pid_def upd_proc_def split: option.splits)
  have "room (Suc (Suc (Suc (Suc k)))) N (pmem st)" using assms by (simp add: eval_nat_numeral)
  from kalloc_page_room [OF this] obtain p1 m1 where m1: "kalloc_page (pmem st) = Some (p1, m1)" "room (Suc (Suc (Suc k))) N m1" by blast
  from kalloc_room [OF m1(2), of 64] obtain h m2 where m2: "kalloc 64 m1 = Some (h, m2)" "h \<noteq> NULL" "room (Suc (Suc k)) N m2" by auto
  from kalloc_page_room [OF m2(3)] obtain ks m3 where m3: "kalloc_page m2 = Some (ks, m3)" "room (Suc k) N m3" by blast
  from kalloc_room [OF m3(2), of "of_nat sizeof_timer"] obtain t m4 where
    m4: "kalloc (of_nat sizeof_timer) m3 = Some (t, m4)" "t \<noteq> NULL" "room k N m4" by (auto simp: sizeof_timer_def)
  show ?thesis unfolding init_proc_def Let_def
    using g m m1(1) m2(1,2) m3(1) m4 by (auto simp: init_pgdir_def init_sections_def)
qed

lemma example_room: "room 7 7 (pmem (init_pidalloc example_procst))"
proof -
  have k: "kernel_end example_kend7" by (simp add: kernel_end_def example_kend7_def KSPACE_MASK_def P2K_def PHYSTOP_def)
  have c: "PAGE_COUNT example_kend7 = 7" by (simp add: PAGE_COUNT_def example_kend7_def PAGE_BASE_def P2K_def PHYSTOP_def KSPACE_MASK_def PAGE_SIZE_def)
  have ne: "alloc_page_cnt (add_pages p s) = alloc_page_cnt s" for p s
    by (induction p s rule: add_pages.induct) (subst add_pages.simps, simp add: add_page_def Let_def split: prod.splits)
  have "alloc_page_cnt (mem_boot example_kend7 (\<lambda>_. 0)) = 0" by (simp add: mem_boot_def init_pages_def ne init_alloc_page_cnt_def init_rc_def)
  then show ?thesis using mem_boot_inv [OF k, of "\<lambda>_. 0"] c roomI [of 7 _ _ _ _ _ "mem_boot example_kend7 (\<lambda>_. 0)" 7]
    by (auto simp: init_pidalloc_def example_procst_def)
qed

lemma example_root_run:
  "\<exists>st. proc_run {8} {} {} st \<and> root_proc st = 8"
proof -
  let ?st = "init_pidalloc example_procst"
  have r: "root_proc ?st = 8" by (simp add: init_pidalloc_def example_procst_def)
  obtain st1 where st1: "init_proc 8 ?st = Some st1" using init_proc_total [of 3 7 ?st 8] example_room by auto
  then obtain st' where "init_root_proc 0 0 ?st = Some st'" by (auto simp: init_root_proc_def r)
  from proc_run.boot [OF _ this] proc_run_inv [OF proc_run.boot [OF _ this]] init_root_inv [OF _ this] r
  show ?thesis
    by (intro exI [of _ st']) (auto simp: proc_inv_def tree_inv_def tree_ok_def)
qed

subsection \<open>The tree in every run\<close>

text \<open>
  C24: The process tree.  However processes are created, started, exit, wait, are reaped and killed,
  the children of every process of the tree are, once each, exactly the processes whose parent it
  is, every process reaches the root over its parents, and a process that exits or is a zombie has
  no children.
\<close>

theorem process_tree:
  assumes "proc_run A N X st" "p \<in> A"
  shows "distinct (children (procs st p)) \<and> set (children (procs st p)) = {q \<in> A. q \<noteq> root_proc st \<and> parent (procs st q) = p}
     \<and> (\<exists>n. ((\<lambda>q. parent (procs st q)) ^^ n) p = root_proc st)
     \<and> (p \<in> X \<or> is_zombie p (tsched st) \<longrightarrow> children (procs st p) = [] \<and> p \<noteq> root_proc st)"
  using proc_invD [OF proc_run_inv [OF assms(1)]] tree_okD(5,6,8) [OF _ assms(2)] assms(2) by blast

theorem process_tree_witness:
  "\<exists>st. proc_run {8} {} {} st \<and> children (procs st 8) = []"
proof -
  obtain st where st: "proc_run {8} {} {} st" "root_proc st = 8" using example_root_run by blast
  with process_tree [OF st(1), of 8] have "set (children (procs st 8)) = {}" by auto
  with st show ?thesis by auto
qed

end
