(* ===== verification/Proc_Exit.thy ===== *)
theory Proc_Exit
  imports Proc_Props
begin

text \<open>
  Processes: what \<open>kill\<close> finds, how the exit code of a process reaches its parent, the race between
  the two steps of \<open>exit\<close>, and the fault of \<open>create_proc\<close>.
\<close>

section \<open>The depth of a process\<close>

definition depth :: "ptr \<Rightarrow> (ptr \<Rightarrow> ptr) \<Rightarrow> ptr \<Rightarrow> nat" where
  "depth r par p = (LEAST n. (par ^^ n) p = r)"

lemma depth_reach: "\<exists>n. (par ^^ n) p = r \<Longrightarrow> (par ^^ depth r par p) p = r"
  unfolding depth_def by (rule LeastI_ex)

lemma depth_step:
  assumes "\<exists>n. (par ^^ n) p = r" "p \<noteq> r" shows "depth r par p = Suc (depth r par (par p))"
proof -
  obtain n where n: "(par ^^ n) p = r" using assms(1) by blast
  then have n0: "n \<noteq> 0" using assms(2) by (cases n) auto
  have "depth r par p = Suc (LEAST m. (par ^^ Suc m) p = r)"
    unfolding depth_def using n assms(2) by (intro Least_Suc [where P = "\<lambda>n. (par ^^ n) p = r"]) simp_all
  then show ?thesis by (simp only: depth_def funpow_Suc_right o_apply)
qed

lemma depth_bound:
  assumes t: "tree_ok A r par ch" and p: "p \<in> A" shows "depth r par p < card A"
proof -
  note D = tree_okD [OF t]
  have im: "k \<in> depth r par ` A" if "p \<in> A" "k \<le> depth r par p" for p k
    using that
  proof (induction "depth r par p" arbitrary: p)
    case 0
    then show ?case by auto
  next
    case (Suc d)
    then have "p \<noteq> r" by (auto simp: depth_def)
    then have "depth r par (par p) = d" using depth_step [OF D(8) [OF Suc.prems(1)]] Suc.hyps(2) by simp
    then show ?case using Suc.hyps(1) [of "par p"] D(7) [OF Suc.prems(1)] Suc.prems Suc.hyps(2)
      by (cases "k = Suc d") auto
  qed
  then have "{..depth r par p} \<subseteq> depth r par ` A" using p by auto
  then have "card {..depth r par p} \<le> card (depth r par ` A)" using D(3) by (intro card_mono) auto
  also have "\<dots> \<le> card A" using D(3) by (rule card_image_le)
  finally show ?thesis by simp
qed

section \<open>kill\<close>

definition killable :: "int \<Rightarrow> procst \<Rightarrow> ptr \<Rightarrow> bool" where
  "killable pid st p \<longleftrightarrow> ppid (procs st p) = pid \<and> pstate (tsched st) p \<noteq> UNUSED"

definition kill_effect :: "ptr \<Rightarrow> procst \<Rightarrow> procst" where
  "kill_effect p st =
     (upd_proc p (\<lambda>r. r\<lparr>pkilled := True\<rparr>) st)\<lparr>tsched := snd (activate_proc p True (tsched st))\<rparr>"

lemma dfs_list_spec:
  assumes t: "tree_inv A st"
  shows "(\<And>p. p \<in> set ps \<Longrightarrow> p \<in> A \<and> p \<noteq> root_proc st \<and> card A \<le> fuel + depth (root_proc st) (\<lambda>p. parent (procs st p)) p) \<Longrightarrow>
     (\<exists>h\<in>A. h \<noteq> root_proc st \<and> killable pid st h \<and> dfs_list fuel pid ps st = Some (h, kill_effect h st))
     \<or> dfs_list fuel pid ps st = Some (NULL, st)
       \<and> (\<forall>p\<in>set ps. \<forall>x\<in>A. \<forall>n. ((\<lambda>p. parent (procs st p)) ^^ n) x = p \<longrightarrow> \<not> killable pid st x)"
proof (induction fuel arbitrary: ps)
  case 0
  let ?par = "\<lambda>p. parent (procs st p)"
  have "ps = []"
  proof (cases ps)
    case (Cons p ps')
    then have "p \<in> A" "card A \<le> depth (root_proc st) ?par p" using "0.prems" [of p] by simp_all
    then show ?thesis using depth_bound [OF t [unfolded tree_inv_def]] by (metis leD)
  qed simp
  then show ?case by simp
next
  case (Suc f)
  let ?par = "\<lambda>p. parent (procs st p)" and ?r = "root_proc st"
  note D = tree_okD [OF t [unfolded tree_inv_def]]
  note IHf = Suc.IH
  show ?case using Suc.prems
  proof (induction ps)
    case Nil
    then show ?case by simp
  next
    case (Cons p ps)
    have p: "p \<in> A" "p \<noteq> ?r" "card A \<le> Suc f + depth ?r ?par p" using Cons.prems [of p] by simp_all
    show ?case
    proof (cases "killable pid st p")
      case True
      then have "dfs_list (Suc f) pid (p # ps) st = Some (p, kill_effect p st)"
        by (simp add: killable_def kill_effect_def upd_proc_def Let_def)
      with True p show ?thesis by blast
    next
      case False
      then have d: "dfs_list (Suc f) pid (p # ps) st =
          (case dfs_list f pid (children (procs st p)) st of None \<Rightarrow> None
           | Some (r, st1) \<Rightarrow> if r \<noteq> NULL then Some (r, st1) else dfs_list (Suc f) pid ps st1)"
        by (auto simp: killable_def)
      have ch: "q \<in> A \<and> q \<noteq> ?r \<and> card A \<le> f + depth ?r ?par q" if "q \<in> set (children (procs st p))" for q
        using that D(6) [OF p(1)] depth_step [OF D(8), of q] p(3) by auto
      from IHf [OF ch] consider
        h where "h \<in> A" "h \<noteq> ?r" "killable pid st h" "dfs_list f pid (children (procs st p)) st = Some (h, kill_effect h st)"
        | "dfs_list f pid (children (procs st p)) st = Some (NULL, st)"
          "\<forall>q\<in>set (children (procs st p)). \<forall>x\<in>A. \<forall>n. (?par ^^ n) x = q \<longrightarrow> \<not> killable pid st x"
        by blast
      then show ?thesis
      proof cases
        case (1 h)
        then have "h \<noteq> NULL" using D(2) by auto
        then have "dfs_list (Suc f) pid (p # ps) st = Some (h, kill_effect h st)" using d 1(4) by simp
        with 1 show ?thesis by blast
      next
        case 2
        have d2: "dfs_list (Suc f) pid (p # ps) st = dfs_list (Suc f) pid ps st" using d 2(1) by simp
        have below: "\<not> killable pid st x" if x: "x \<in> A" "(?par ^^ n) x = p" for x n
        proof (cases n)
          case 0
          then show ?thesis using that False by simp
        next
          case (Suc m)
          have y: "(?par ^^ m) x \<in> A" by (rule iterate_in) (use D(7) x in auto)
          have e: "?par ((?par ^^ m) x) = p" using x(2) Suc by simp
          then have "(?par ^^ m) x \<noteq> ?r" using D(4) p(2) by metis
          then have "(?par ^^ m) x \<in> set (children (procs st p))" using y e D(6) [OF p(1)] by simp
          then show ?thesis using 2(2) x(1) by blast
        qed
        have "\<And>q. q \<in> set ps \<Longrightarrow> q \<in> A \<and> q \<noteq> ?r \<and> card A \<le> Suc f + depth ?r ?par q" using Cons.prems by simp
        from Cons.IH [OF this] show ?thesis unfolding d2 using below by auto
      qed
    qed
  qed
qed

text \<open>
  C26: \<open>kill\<close> of a valid number ends, with as much depth as there are processes: it marks one process with
  that number that is in use and is not the root, alerts it, changes nothing else and returns 0; or
  there is none, and it returns -1 and changes nothing.
\<close>

theorem kill_correct:
  assumes "proc_run A N X st" "card A \<le> fuel" "check_pid pid"
  shows "(\<exists>p\<in>A. p \<noteq> root_proc st \<and> killable pid st p \<and> kill fuel pid st = Some (0, kill_effect p st))
     \<or> (\<forall>p\<in>A. p \<noteq> root_proc st \<longrightarrow> \<not> killable pid st p) \<and> kill fuel pid st = Some (- 1, st)"
proof -
  let ?par = "\<lambda>p. parent (procs st p)" and ?r = "root_proc st"
  have t: "tree_inv A st" using proc_run_inv [OF assms(1)] by (simp add: proc_inv_def)
  note D = tree_okD [OF t [unfolded tree_inv_def]]
  have ch: "q \<in> A \<and> q \<noteq> ?r \<and> card A \<le> fuel + depth ?r ?par q" if "q \<in> set (children (procs st ?r))" for q
    using that D(6) [OF D(1)] assms(2) by auto
  from dfs_list_spec [OF t ch, where pid = pid] consider
    h where "h \<in> A" "h \<noteq> ?r" "killable pid st h" "dfs_list fuel pid (children (procs st ?r)) st = Some (h, kill_effect h st)"
    | "dfs_list fuel pid (children (procs st ?r)) st = Some (NULL, st)"
      "\<forall>q\<in>set (children (procs st ?r)). \<forall>x\<in>A. \<forall>n. (?par ^^ n) x = q \<longrightarrow> \<not> killable pid st x" by blast
  then show ?thesis
  proof cases
    case (1 h)
    then have "h \<noteq> NULL" using D(2) by auto
    with 1 have "kill fuel pid st = Some (0, kill_effect h st)" using assms(3) by (simp add: kill_def dfs_tree_def)
    with 1 show ?thesis by blast
  next
    case 2
    have "\<not> killable pid st x" if x: "x \<in> A" "x \<noteq> ?r" for x
    proof -
      obtain m where m: "depth ?r ?par x = Suc m" using depth_step [OF D(8) [OF x(1)] x(2)] by simp
      have y: "(?par ^^ m) x \<in> A" by (rule iterate_in) (use D(7) x in auto)
      have e: "?par ((?par ^^ m) x) = ?r" using depth_reach [OF D(8) [OF x(1)]] m by simp
      have "(?par ^^ m) x \<noteq> ?r" using m not_less_Least [of m "\<lambda>n. (?par ^^ n) x = ?r"] by (auto simp: depth_def)
      then have "(?par ^^ m) x \<in> set (children (procs st ?r))" using y e D(6) [OF D(1)] by simp
      then show ?thesis using 2(2) x(1) by blast
    qed
    moreover have "kill fuel pid st = Some (- 1, st)" using 2(1) assms(3) by (simp add: kill_def dfs_tree_def)
    ultimately show ?thesis by blast
  qed
qed

theorem kill_correct_witness:
  "\<exists>st. proc_run {8} {} {} st \<and> kill 1 7 st = Some (- 1, st)"
proof -
  obtain st where st: "proc_run {8} {} {} st" "root_proc st = 8" using example_root_run by blast
  with kill_correct [OF st(1), of 1 7] show ?thesis by (auto simp: check_pid_def MAX_PID_def)
qed

section \<open>Exit and wait\<close>

text \<open>A parent whose semaphore has no waiter.\<close>

lemma post_no_waiter:
  assumes "0 \<le> sval (childexit (procs st p))" "sval (childexit (procs st p)) < INT_MAX"
  shows "post_childexit p st = Some (upd_proc p (\<lambda>r. r\<lparr>childexit := (childexit r)\<lparr>sval := sval (childexit r) + 1\<rparr>\<rparr>) st)"
  using assms by (simp add: post_childexit_def post_sem_def childexit_of_def put_childexit_def upd_proc_def Let_def int_inc_def)

lemma post_childexit_range: "post_childexit p st = Some st' \<Longrightarrow> sval (childexit (procs st p)) < INT_MAX"
  by (auto simp: post_childexit_def childexit_of_def bind_eq_Some_conv dest: post_sem_range)

text \<open>The first step of \<open>exit\<close> of a process without children ends with the post to its parent.\<close>

lemma exit_begin_post:
  assumes e: "exit_begin c code st = Some st'" and q: "this_proc c st = q" "children (procs st q) = []"
    and f: "parent (procs st q) = f"
  shows "\<exists>m. post_childexit f ((upd_proc q (\<lambda>r. r\<lparr>exitcode := code\<rparr>) st)\<lparr>pmem := m\<rparr>) = Some st'"
proof -
  define st1 where "st1 = upd_proc q (\<lambda>r. r\<lparr>exitcode := code\<rparr>) st"
  obtain m where "post_childexit (parent (procs (st1\<lparr>pmem := m\<rparr>) q)) (st1\<lparr>pmem := m\<rparr>) = Some st'"
    using e q unfolding exit_begin_def Let_def q(1) st1_def [symmetric]
    by (auto simp: bind_eq_Some_conv st1_def upd_proc_def)
  then show ?thesis using f by (auto simp: st1_def upd_proc_def)
qed

lemma exit_begin_childless:
  assumes e: "exit_begin c code st = Some st'" and q: "this_proc c st = q" "children (procs st q) = []"
    and f: "parent (procs st q) = f" "f \<noteq> q" "0 \<le> sval (childexit (procs st f))"
  shows "tsched st' = tsched st" "procs st' f = (procs st f)\<lparr>childexit := (childexit (procs st f))\<lparr>sval := sval (childexit (procs st f)) + 1\<rparr>\<rparr>"
    "procs st' q = (procs st q)\<lparr>exitcode := code\<rparr>" "pid_map st' = pid_map st"
proof -
  obtain m where m: "post_childexit f ((upd_proc q (\<lambda>r. r\<lparr>exitcode := code\<rparr>) st)\<lparr>pmem := m\<rparr>) = Some st'"
    using exit_begin_post [OF e q f(1)] by blast
  have "st' = upd_proc f (\<lambda>r. r\<lparr>childexit := (childexit r)\<lparr>sval := sval (childexit r) + 1\<rparr>\<rparr>)
      ((upd_proc q (\<lambda>r. r\<lparr>exitcode := code\<rparr>) st)\<lparr>pmem := m\<rparr>)"
    using m post_no_waiter [OF _ post_childexit_range [OF m]] f(2,3) by (simp add: upd_proc_def)
  then show "tsched st' = tsched st" "procs st' f = (procs st f)\<lparr>childexit := (childexit (procs st f))\<lparr>sval := sval (childexit (procs st f)) + 1\<rparr>\<rparr>"
    "procs st' q = (procs st q)\<lparr>exitcode := code\<rparr>" "pid_map st' = pid_map st"
    using f(2) by (auto simp: upd_proc_def)
qed

text \<open>A parent that sleeps in \<open>wait\<close>: it alone waits for its semaphore.\<close>

definition waits_for_child :: "ptr \<Rightarrow> ptr \<Rightarrow> procst \<Rightarrow> bool" where
  "waits_for_child f w st \<longleftrightarrow> childexit (procs st f) = \<lparr>sval = - 1, sleeplist = [w]\<rparr>
     \<and> twaits st w = \<lparr>w_up = False, w_proc = f\<rparr> \<and> pstate (tsched st) f = SLEEPING"

lemma exit_begin_wakes:
  assumes e: "exit_begin c code st = Some st'" and q: "this_proc c st = q" "children (procs st q) = []"
    and f: "parent (procs st q) = f" "f \<noteq> q" and w: "waits_for_child f w st"
  shows "tsched st' = make_runnable f (tsched st)" "procs st' f = (procs st f)\<lparr>childexit := init_sem 0\<rparr>"
    "procs st' q = (procs st q)\<lparr>exitcode := code\<rparr>" "twaits st' w = \<lparr>w_up = True, w_proc = f\<rparr>"
proof -
  obtain m where m: "post_childexit f ((upd_proc q (\<lambda>r. r\<lparr>exitcode := code\<rparr>) st)\<lparr>pmem := m\<rparr>) = Some st'"
    using exit_begin_post [OF e q f(1)] by blast
  then show "tsched st' = make_runnable f (tsched st)" "procs st' f = (procs st f)\<lparr>childexit := init_sem 0\<rparr>"
    "procs st' q = (procs st q)\<lparr>exitcode := code\<rparr>" "twaits st' w = \<lparr>w_up = True, w_proc = f\<rparr>"
    using f(2) w by (auto simp: post_childexit_def post_sem_def childexit_of_def put_childexit_def upd_proc_def
        waits_for_child_def activate_proc_def int_inc_def INT_MAX_def init_sem_def)
qed

text \<open>\<open>wait\<close> of a parent whose semaphore has a unit does not sleep.\<close>

lemma wait_begin_unit:
  assumes "this_proc c st = f" "children (procs st f) \<noteq> []" "0 < sval (childexit (procs st f))"
  shows "wait_begin c now w st = Some (Got, upd_proc f (\<lambda>r. r\<lparr>childexit := (childexit r)\<lparr>sval := sval (childexit r) - 1\<rparr>\<rparr>) st)"
  using assms by (simp add: wait_begin_def wait_sem_begin_def childexit_of_def put_childexit_def upd_proc_def Let_def int_dec_def INT_MIN_def)

lemma simple_sched_other_cpu: "simple_sched c now ns s = Some t \<Longrightarrow> c' \<noteq> c \<Longrightarrow> thisproc t c' = thisproc s c'"
  by (auto simp: simple_sched_def update_this_state_def pick_next_def update_this_proc_def
      set_cpu_timer_def cancel_cpu_timer_def Let_def split: if_splits option.splits)

lemma find_Some_unique: "q \<in> set xs \<Longrightarrow> (\<And>x. x \<in> set xs \<Longrightarrow> P x \<longleftrightarrow> x = q) \<Longrightarrow> find P xs = Some q"
  by (induction xs) auto

text \<open>
  C25: The race in \<open>exit\<close>.  \<open>exit\<close> posts to its parent and gives up \<open>treelock\<close> before the process is a
  zombie.  A parent on another processor without zombie children that calls \<open>wait\<close> in between gets the
  unit at once, finds no zombie and panics.
\<close>

theorem exit_wait_race:
  assumes "exit_begin c code st = Some st1" "this_proc c st = q" "children (procs st q) = []"
    and "parent (procs st q) = f" "f \<noteq> q" "0 \<le> sval (childexit (procs st f))"
    and "q \<in> set (children (procs st f))" "this_proc c' st = f"
    and "\<forall>p\<in>set (children (procs st f)). \<not> is_zombie p (tsched st)"
  shows "\<exists>st2. wait_begin c' now w st1 = Some (Got, st2) \<and> wait_reap c' st2 = None"
proof -
  note E = exit_begin_childless [OF assms(1-6)]
  have t: "this_proc c' st1 = f" using assms(8) E(1) by (simp add: this_proc_def)
  have k: "children (procs st1 f) \<noteq> []" "0 < sval (childexit (procs st1 f))" using E(2) assms(6,7) by auto
  have "find (\<lambda>p. is_zombie p (tsched st)) (children (procs st f)) = None" using assms(9) by (simp add: find_None_iff)
  then have "wait_reap c' (upd_proc f (\<lambda>r. r\<lparr>childexit := (childexit r)\<lparr>sval := sval (childexit r) - 1\<rparr>\<rparr>) st1) = None"
    using t E(1,2) by (simp add: wait_reap_def upd_proc_def this_proc_def PANIC_def)
  then show ?thesis using wait_begin_unit [OF t k] by blast
qed

section \<open>The exit code reaches the parent\<close>

text \<open>A process that has become a zombie stays one.\<close>

lemma sched_step_zombie:
  assumes "sched_step s t" "pstate s p = ZOMBIE" "\<not> pidle s p" "sched_inv s"
  shows "pstate t p = ZOMBIE"
  using assms
proof (induction rule: sched_step.induct)
  case (resched c ns s now t)
  then show ?case using simple_sched_keeps [OF resched.hyps(4) resched.prems(1)] not_this [OF _ _ resched.prems(1)] by simp
next
  case (online c now s t)
  then show ?case using set_cpu_on_pstate by simp
next
  case (clock c now s t)
  then show ?case using clock_keeps [OF clock.hyps(2) clock.prems(1)] by simp
next
  case (activate s p' onalert b t)
  then show ?case by (auto simp: activate_proc_def make_runnable_def split: if_splits)
qed

lemma sched_steps_zombie:
  assumes "rtranclp sched_step s t" "pstate s p = ZOMBIE" "\<not> pidle s p" "sched_inv s" "timer_inv s"
  shows "pstate t p = ZOMBIE"
proof -
  have "pstate t p = ZOMBIE \<and> \<not> pidle t p \<and> sched_inv t \<and> timer_inv t"
    using assms
  proof (induction rule: rtranclp_induct)
    case (step t u)
    then show ?case using sched_step_zombie [of t u p] sched_step_inv [of t u] sched_step_frame [of t u] by simp
  qed simp
  then show ?thesis by simp
qed

lemma exit_end_zombie:
  assumes "this_proc c st = q" "sched_inv (tsched st)" "timer_inv (tsched st)" "\<not> pidle (tsched st) q" "c < NCPU"
  obtains s where "exit_end c now st = Some (st\<lparr>tsched := s\<rparr>)" "simple_sched c now ZOMBIE (tsched st) = Some s"
    "pstate s q = ZOMBIE" "\<not> pidle s q" "sched_inv s" "timer_inv s"
proof -
  obtain s where s: "simple_sched c now ZOMBIE (tsched st) = Some s" "sched_inv s" "timer_inv s"
    using simple_sched_total [OF assms(2,3,5), of ZOMBIE now] assms(1,4) by (auto simp: this_proc_def)
  then show ?thesis
    using that [of s] simple_sched_this_state [OF s(1) assms(2,5)] simple_sched_frame [OF s(1)] assms(1,4)
    by (simp add: exit_end_def this_proc_def)
qed

text \<open>
  Between two steps of a process the others go on: the scheduler takes any number of steps, and what
  they do leaves \<open>f\<close> and \<open>q\<close> and the \<open>WaitData\<close> \<open>w\<close> alone.
\<close>

definition others_go_on :: "ptr \<Rightarrow> ptr \<Rightarrow> ptr \<Rightarrow> procst \<Rightarrow> procst \<Rightarrow> bool" where
  "others_go_on f q w st st' \<longleftrightarrow> rtranclp sched_step (tsched st) (tsched st')
     \<and> procs st' f = procs st f \<and> procs st' q = procs st q \<and> twaits st' w = twaits st w"

text \<open>\<open>wait\<close> behind its semaphore, when \<open>q\<close> is the only zombie child.\<close>

lemma wait_reap_zombie:
  assumes "this_proc c st = f" "q \<in> set (children (procs st f))" "is_zombie q (tsched st)"
    and "\<forall>p\<in>set (children (procs st f)). is_zombie p (tsched st) \<longrightarrow> p = q" "check_pid (ppid (procs st q))" "f \<noteq> q"
  shows "\<exists>st'. wait_reap c st = Some (ppid (procs st q), exitcode (procs st q), st')
     \<and> procs st' f = (procs st f)\<lparr>children := remove1 q (children (procs st f))\<rparr>"
proof -
  have "find (\<lambda>p. is_zombie p (tsched st)) (children (procs st f)) = Some q"
    by (rule find_Some_unique [OF assms(2)]) (use assms(3,4) in blast)
  moreover obtain i where i: "ppid (procs st q) = int i" "i < 2048"
    using assms(5) by (auto simp: check_pid_def MAX_PID_def dest: nonneg_int_cases)
  define st1 where "st1 = upd_proc f (\<lambda>r. r\<lparr>children := remove1 q (children r)\<rparr>) st"
  moreover obtain st2 where st2: "release_pid (int i) st1 = Some st2" "procs st2 = procs st1"
    using i(2) by (simp add: release_pid_def MAX_PID_def Let_def)
  ultimately have "wait_reap c st = Some (ppid (procs st q), exitcode (procs st q), st2\<lparr>pmem := kfree q (pmem st2)\<rparr>)"
    using assms(1) i(1) by (simp add: wait_reap_def Let_def)
  moreover have "procs st2 f = (procs st f)\<lparr>children := remove1 q (children (procs st f))\<rparr>"
    by (simp add: st2(2) st1_def upd_proc_def)
  ultimately show ?thesis by (intro exI [of _ "st2\<lparr>pmem := kfree q (pmem st2)\<rparr>"]) simp
qed

text \<open>A parent that calls \<open>wait\<close>, and one that slept there, when the zombie is there and when it is not.\<close>

lemma wait_of_zombie:
  assumes "this_proc c st = f" "q \<in> set (children (procs st f))" "0 < sval (childexit (procs st f))" "is_zombie q (tsched st)"
    and "\<forall>p\<in>set (children (procs st f)). is_zombie p (tsched st) \<longrightarrow> p = q" "check_pid (ppid (procs st q))" "f \<noteq> q"
  shows "\<exists>st1 st2. wait_begin c now w st = Some (Got, st1) \<and> wait_reap c st1 = Some (ppid (procs st q), exitcode (procs st q), st2)
     \<and> children (procs st2 f) = remove1 q (children (procs st f))"
proof -
  have "children (procs st f) \<noteq> []" using assms(2) by auto
  note b = wait_begin_unit [OF assms(1) this assms(3), of now w]
  let ?st1 = "upd_proc f (\<lambda>r. r\<lparr>childexit := (childexit r)\<lparr>sval := sval (childexit r) - 1\<rparr>\<rparr>) st"
  have "\<exists>st2. wait_reap c ?st1 = Some (ppid (procs ?st1 q), exitcode (procs ?st1 q), st2)
     \<and> procs st2 f = (procs ?st1 f)\<lparr>children := remove1 q (children (procs ?st1 f))\<rparr>"
  proof (rule wait_reap_zombie)
    show "\<forall>p\<in>set (children (procs ?st1 f)). is_zombie p (tsched ?st1) \<longrightarrow> p = q" using assms(5) unfolding upd_proc_def by auto
  qed (use assms(1,2,4,6,7) in \<open>simp_all add: upd_proc_def this_proc_def\<close>)
  then obtain st2 where "wait_reap c ?st1 = Some (ppid (procs ?st1 q), exitcode (procs ?st1 q), st2)"
    "procs st2 f = (procs ?st1 f)\<lparr>children := remove1 q (children (procs ?st1 f))\<rparr>" by blast
  moreover have "procs ?st1 q = procs st q" "children (procs ?st1 f) = children (procs st f)" using assms(7) by (simp_all add: upd_proc_def)
  ultimately show ?thesis using b by (intro exI [of _ ?st1] exI [of _ st2]) simp
qed

lemma wait_wake_marked:
  assumes "this_proc c st = f" "w_up (twaits st w)" shows "wait_wake c w st = Some st"
proof -
  have e: "wait_sem_end w (childexit_of f st) = Some (True, childexit_of f st)"
    using assms(2) by (simp add: wait_sem_end_def childexit_of_def)
  have "put_childexit f (childexit_of f st) st = st"
    by (simp add: put_childexit_def childexit_of_def upd_proc_def)
  with e show ?thesis using assms(1) by (simp add: wait_wake_def)
qed

lemma wait_reap_none:
  assumes "this_proc c st = f" "\<forall>p\<in>set (children (procs st f)). \<not> is_zombie p (tsched st)"
  shows "wait_reap c st = None"
proof -
  have "find (\<lambda>p. is_zombie p (tsched st)) (children (procs st f)) = None" using assms(2) by (simp add: find_None_iff)
  then show ?thesis using assms(1) by (simp add: wait_reap_def PANIC_def)
qed

section \<open>An example\<close>

text \<open>Process 72 runs on processor 0, its parent 64 on processor 1.\<close>

definition example_sched :: schedst where
  "example_sched =
     (let i = (\<lambda>c. of_nat (4096 + 64 * c)); h = (\<lambda>c. of_nat (8192 + 64 * c));
          s = sched_init i h;
          s1 = snd (activate_proc 72 False (snd (activate_proc 64 False s)))
      in the (simple_sched 1 5 RUNNABLE (the (simple_sched 0 5 RUNNABLE s1))))"

definition example_family :: procst where
  "example_family =
     example_procst\<lparr>procs := (\<lambda>_. zero_proc)(64 := zero_proc\<lparr>parent := 8, children := [72]\<rparr>,
                                            72 := zero_proc\<lparr>parent := 64, ppid := 5, kstack := 0xffff00003eff9000\<rparr>),
                    pid_map := replicate 64 0, tsched := example_sched\<rparr>"

lemma example_sched_facts:
  "sched_inv example_sched" "timer_inv example_sched" "thisproc example_sched 0 = 72" "thisproc example_sched 1 = 64"
  "\<not> pidle example_sched 72" "\<not> is_zombie 72 example_sched" "\<not> pidle example_sched 64"
proof -
  let ?i = "\<lambda>c :: nat. of_nat (4096 + 64 * c) :: ptr" and ?h = "\<lambda>c :: nat. of_nat (8192 + 64 * c) :: ptr"
  have n: "{..<NCPU} = {0, 1, 2, 3}" by (auto simp: NCPU_def)
  let ?s = "sched_init ?i ?h"
  let ?s1 = "snd (activate_proc 64 False ?s)"
  let ?s2 = "snd (activate_proc 72 False ?s1)"
  have r: "sched_reach ?i ?h ?s" by (rule sched_reach.start) (simp_all add: n)
  have "sched_step ?s ?s1"
    by (rule sched_step.activate [of _ 64 False "fst (activate_proc 64 False ?s)"]) (simp_all add: sched_init_def n)
  with r have r1: "sched_reach ?i ?h ?s1" by (rule sched_reach.step)
  have "sched_step ?s1 ?s2"
    by (rule sched_step.activate [of _ 72 False "fst (activate_proc 72 False ?s1)"])
      (simp_all add: activate_proc_def make_runnable_def sched_init_def n)
  with r1 have r2: "sched_reach ?i ?h ?s2" by (rule sched_reach.step)
  have "\<exists>t. simple_sched 0 5 RUNNABLE ?s2 = Some t \<and> thisproc t 0 = 72 \<and> thisproc t 1 = 4160 \<and> runnable_queue t = [72, 64] \<and>
      cputimer t 1 = [] \<and> \<not> triggered (ptimer t 4160) \<and> pstate t 4160 = RUNNING \<and> pstate t 64 = RUNNABLE \<and> pstate t 72 = RUNNING"
    by (simp add: activate_proc_def make_runnable_def sched_init_def n simple_sched_def update_this_state_def Let_def
        cancel_cpu_timer_def pick_next_def update_this_proc_def set_cpu_timer_def)
  then obtain t where t: "simple_sched 0 5 RUNNABLE ?s2 = Some t" "thisproc t 0 = 72" "thisproc t 1 = 4160" "runnable_queue t = [72, 64]"
      "cputimer t 1 = []" "\<not> triggered (ptimer t 4160)" "pstate t 4160 = RUNNING" "pstate t 64 = RUNNABLE" "pstate t 72 = RUNNING" by blast
  have "sched_step ?s2 t" by (rule sched_step.resched [OF _ _ _ t(1)]) (simp_all add: NCPU_def)
  with r2 have r3: "sched_reach ?i ?h t" by (rule sched_reach.step)
  have "\<exists>u. simple_sched 1 5 RUNNABLE t = Some u \<and> thisproc u 0 = 72 \<and> thisproc u 1 = 64 \<and> pstate u 72 = RUNNING"
    using t by (simp add: simple_sched_def update_this_state_def Let_def
        cancel_cpu_timer_def pick_next_def update_this_proc_def set_cpu_timer_def)
  then obtain u where u: "simple_sched 1 5 RUNNABLE t = Some u" "thisproc u 0 = 72" "thisproc u 1 = 64" "pstate u 72 = RUNNING" by blast
  have "sched_step t u" by (rule sched_step.resched [OF _ _ _ u(1)]) (simp_all add: NCPU_def)
  with r3 have "sched_reach ?i ?h u" by (rule sched_reach.step)
  then have i: "sched_inv u \<and> timer_inv u" by (rule sched_reach_inv)
  have "pidle u = pidle t" "pidle t = pidle ?s2" using simple_sched_frame [OF u(1)] simple_sched_frame [OF t(1)] by auto
  then have "\<not> pidle u 72" "\<not> pidle u 64" by (simp_all add: activate_proc_def make_runnable_def sched_init_def n)
  moreover have "example_sched = u" unfolding example_sched_def Let_def using t(1) u(1) by simp
  ultimately show "sched_inv example_sched" "timer_inv example_sched" "thisproc example_sched 0 = 72" "thisproc example_sched 1 = 64"
    "\<not> pidle example_sched 72" "\<not> is_zombie 72 example_sched" "\<not> pidle example_sched 64"
    using i u(2-4) by (auto simp: is_zombie_def)
qed

lemma example_exit: "\<exists>st1. exit_begin 0 17 example_family = Some st1"
proof -
  have "\<exists>m. kfree_page 0xffff00003eff9000 (pmem example_family) = Some m"
    by (simp add: kfree_page_def page_idx_def N_PAGE_REFS_def K2P_def PAGE_SIZE_def KSPACE_MASK_def PHYSTOP_def PAGE_BASE_def Let_def)
  then show ?thesis
    by (auto simp: exit_begin_def example_family_def this_proc_def example_sched_facts upd_proc_def zero_proc_def free_pgdir_def
        free_sections_def Let_def post_childexit_def post_sem_def childexit_of_def init_sem_def int_inc_def INT_MAX_def)
qed

theorem exit_wait_race_witness:
  "\<exists>st1 st2. exit_begin 0 17 example_family = Some st1 \<and> wait_begin 1 9 0 st1 = Some (Got, st2) \<and> wait_reap 1 st2 = None"
proof -
  obtain st1 where "exit_begin 0 17 example_family = Some st1" using example_exit by blast
  with exit_wait_race [OF this, of 72 64 1 9 0] show ?thesis
    by (simp add: example_family_def this_proc_def example_sched_facts example_sched_facts(4) [simplified] zero_proc_def init_sem_def)
qed

section \<open>create_proc\<close>

text \<open>
  \<open>create_proc\<close> never returns.  A \<open>struct proc\<close> holds 65536 pointers to open files and is larger than a
  page, and in every run of the allocator a request of more than 2048 bytes faults.
\<close>

theorem create_proc_faults:
  assumes "kernel_end kend" "mem_run kend own live (pmem st)"
  shows "create_proc st = None"
proof -
  obtain fl ps cls where i: "mem_inv (PAGE_COUNT kend) fl ps cls own live (pmem st)"
    using mem_run_inv [OF assms(2,1)] by blast
  have "kalloc (of_nat sizeof_proc) (pmem st) = None" by (rule kalloc_large [OF i]) (simp add: sizeof_proc_def)
  then show ?thesis by (simp add: create_proc_def)
qed

theorem create_proc_faults_witness: "create_proc (init_pidalloc example_procst) = None"
proof -
  have "kernel_end example_kend7" by (simp add: kernel_end_def example_kend7_def KSPACE_MASK_def P2K_def PHYSTOP_def)
  moreover have "mem_run example_kend7 {} {} (pmem (init_pidalloc example_procst))"
    using mem_run.boot [of example_kend7 "\<lambda>_. 0"] by (simp add: init_pidalloc_def example_procst_def)
  ultimately show ?thesis by (rule create_proc_faults)
qed

end
