(* ===== verification/Shell.thy ===== *)
theory Shell
  imports Prelude
begin

text \<open>
  The parser of the shell (\<open>user/sh/main.c\<close>).  The line is a C string: \<open>b\<close> are its characters before
  the NUL, a pointer into it is an index, and \<open>es\<close> is \<open>length b\<close>.  A word is a pair of indices, as the
  pairs \<open>q\<close>, \<open>eq\<close> of the code.  The state of the parser is the position \<open>*ps\<close> and the number of bytes
  that \<open>malloc1\<close> has given out.  Every \<open>PANIC\<close>, and the end of the memory, is an error.  The functions
  that call each other have a fuel, which counts nested calls and rounds; running out of it is
  \<open>NoFuel\<close>, and \<open>parsecmd\<close> gives enough.
\<close>

section \<open>Commands\<close>

datatype 'w cmd =
    EXEC "'w list"
  | REDIR "'w cmd" 'w int int
  | PIPE "'w cmd" "'w cmd"
  | LIST "'w cmd" "'w cmd"
  | BACK "'w cmd"

type_synonym span = "nat \<times> nat"

datatype perr = NoFuel | MemoryOut | Leftovers | MissingFile | Parseblock | MissingParen | BadToken | TooManyArgs

type_synonym pst = "nat \<times> nat"

definition MAXARGS :: nat where "MAXARGS = 10"

definition MAXN :: nat where "MAXN = 10000"

text \<open>\<open>O_RDONLY\<close>, and \<open>O_WRONLY | O_CREAT\<close>.\<close>

definition O_RDONLY :: int where "O_RDONLY = 0"

definition O_WRONLY_CREAT :: int where "O_WRONLY_CREAT = 0x41"

text \<open>The sizes of the structures.\<close>

definition sizeof_execcmd :: nat where "sizeof_execcmd = 8 + 2 * 8 * MAXARGS"

definition sizeof_redircmd :: nat where "sizeof_redircmd = 40"

definition sizeof_pipecmd :: nat where "sizeof_pipecmd = 24"

definition sizeof_listcmd :: nat where "sizeof_listcmd = 24"

definition sizeof_backcmd :: nat where "sizeof_backcmd = 16"

text \<open>\<open>malloc1\<close>: the static index grows, and the program exits when the memory is used up.\<close>

definition malloc1 :: "nat \<Rightarrow> pst \<Rightarrow> perr + pst" where
  "malloc1 sz st = (case st of (s, i) \<Rightarrow> if i + sz > MAXN then Inl MemoryOut else Inr (s, i + sz))"

definition bindE :: "('e + 'a) \<Rightarrow> ('a \<Rightarrow> 'e + 'b) \<Rightarrow> 'e + 'b" where
  "bindE x f = (case x of Inl e \<Rightarrow> Inl e | Inr a \<Rightarrow> f a)"

section \<open>Tokens\<close>

definition whitespace :: string where
  "whitespace = [CHR '' '', CHR 0x09, CHR 0x0D, CHR 0x0A, CHR 0x0B]"

definition symbols :: string where "symbols = ''<|>&;()''"

text \<open>\<open>*s\<close>: the character at a position, NUL at the end.\<close>

definition char_at :: "string \<Rightarrow> nat \<Rightarrow> char" where
  "char_at b s = (if s < length b then b ! s else CHR 0x00)"

text \<open>The two scanning loops: white space, and the characters of a word.\<close>

definition skip_while :: "(char \<Rightarrow> bool) \<Rightarrow> string \<Rightarrow> nat \<Rightarrow> nat" where
  "skip_while P b s = s + length (takeWhile P (drop s b))"

definition skip_space :: "string \<Rightarrow> nat \<Rightarrow> nat" where
  "skip_space b s = skip_while (\<lambda>c. c \<in> set whitespace) b s"

definition skip_word :: "string \<Rightarrow> nat \<Rightarrow> nat" where
  "skip_word b s = skip_while (\<lambda>c. c \<notin> set whitespace \<and> c \<notin> set symbols) b s"

text \<open>\<open>gettoken\<close>: the token, the word \<open>q\<close>, \<open>eq\<close> and the new position.\<close>

definition gettoken :: "string \<Rightarrow> nat \<Rightarrow> char \<times> span \<times> nat" where
  "gettoken b ps =
     (let s = skip_space b ps;
          c = char_at b s;
          (ret, s1) = (if c = CHR 0x00 then (c, s)
                       else if c \<in> set ''|();&<'' then (c, s + 1)
                       else if c = CHR ''>'' then (if char_at b (s + 1) = CHR ''>'' then (CHR ''+'', s + 2) else (c, s + 1))
                       else (CHR ''a'', skip_word b s))
      in (ret, (s, s1), skip_space b s1))"

definition peek :: "string \<Rightarrow> string \<Rightarrow> nat \<Rightarrow> bool \<times> nat" where
  "peek b toks ps = (let s = skip_space b ps in (char_at b s \<noteq> CHR 0x00 \<and> char_at b s \<in> set toks, s))"

section \<open>The parser\<close>

fun parseredirs :: "string \<Rightarrow> nat \<Rightarrow> span cmd \<Rightarrow> pst \<Rightarrow> perr + (span cmd \<times> pst)" where
  "parseredirs b 0 c st = Inl NoFuel"
| "parseredirs b (Suc f) c (s, i) =
     (let (p, s) = peek b ''<>'' s
      in if \<not> p then Inr (c, s, i)
         else let (tok, _, s) = gettoken b s;
                  (tok2, w, s) = gettoken b s
              in if tok2 \<noteq> CHR ''a'' then Inl MissingFile
                 else if tok = CHR ''<''
                   then bindE (malloc1 sizeof_redircmd (s, i)) (parseredirs b f (REDIR c w O_RDONLY 0))
                 else if tok = CHR ''>'' \<or> tok = CHR ''+''
                   then bindE (malloc1 sizeof_redircmd (s, i)) (parseredirs b f (REDIR c w O_WRONLY_CREAT 1))
                 else parseredirs b f c (s, i))"

text \<open>
  \<open>cmd->argv[argc] = q\<close>: the \<open>execcmd\<close> may by now be inside redirections, which point to it.
\<close>

fun add_arg :: "'w \<Rightarrow> 'w cmd \<Rightarrow> 'w cmd" where
  "add_arg w (EXEC ws) = EXEC (ws @ [w])"
| "add_arg w (REDIR c f m fd) = REDIR (add_arg w c) f m fd"
| "add_arg w c = c"

text \<open>The loop of \<open>parseexec\<close>.\<close>

fun parseargs :: "string \<Rightarrow> nat \<Rightarrow> nat \<Rightarrow> span cmd \<Rightarrow> pst \<Rightarrow> perr + (span cmd \<times> pst)" where
  "parseargs b 0 argc ret st = Inl NoFuel"
| "parseargs b (Suc f) argc ret (s, i) =
     (let (p, s) = peek b ''|)&;'' s
      in if p then Inr (ret, s, i)
         else let (tok, w, s) = gettoken b s
              in if tok = CHR 0x00 then Inr (ret, s, i)
                 else if tok \<noteq> CHR ''a'' then Inl BadToken
                 else if argc + 1 \<ge> MAXARGS then Inl TooManyArgs
                 else bindE (parseredirs b f (add_arg w ret) (s, i)) (\<lambda>(ret, st). parseargs b f (argc + 1) ret st))"

text \<open>\<open>while (peek(ps, es, "&"))\<close> of \<open>parseline\<close>.\<close>

fun parseback :: "string \<Rightarrow> nat \<Rightarrow> span cmd \<Rightarrow> pst \<Rightarrow> perr + (span cmd \<times> pst)" where
  "parseback b 0 c st = Inl NoFuel"
| "parseback b (Suc f) c (s, i) =
     (let (p, s) = peek b ''&'' s
      in if \<not> p then Inr (c, s, i)
         else let (_, _, s) = gettoken b s
              in bindE (malloc1 sizeof_backcmd (s, i)) (parseback b f (BACK c)))"

fun parseline :: "string \<Rightarrow> nat \<Rightarrow> pst \<Rightarrow> perr + (span cmd \<times> pst)"
and parsepipe :: "string \<Rightarrow> nat \<Rightarrow> pst \<Rightarrow> perr + (span cmd \<times> pst)"
and parseexec :: "string \<Rightarrow> nat \<Rightarrow> pst \<Rightarrow> perr + (span cmd \<times> pst)"
and parseblock :: "string \<Rightarrow> nat \<Rightarrow> pst \<Rightarrow> perr + (span cmd \<times> pst)" where
  "parseline b 0 st = Inl NoFuel"
| "parseline b (Suc f) st =
     bindE (parsepipe b f st) (\<lambda>(c, st).
     bindE (parseback b f c st) (\<lambda>(c, s, i).
       let (p, s) = peek b '';'' s
       in if \<not> p then Inr (c, s, i)
          else let (_, _, s) = gettoken b s
               in bindE (parseline b f (s, i)) (\<lambda>(r, st). bindE (malloc1 sizeof_listcmd st) (\<lambda>st. Inr (LIST c r, st)))))"
| "parsepipe b 0 st = Inl NoFuel"
| "parsepipe b (Suc f) st =
     bindE (parseexec b f st) (\<lambda>(c, s, i).
       let (p, s) = peek b ''|'' s
       in if \<not> p then Inr (c, s, i)
          else let (_, _, s) = gettoken b s
               in bindE (parsepipe b f (s, i)) (\<lambda>(r, st). bindE (malloc1 sizeof_pipecmd st) (\<lambda>st. Inr (PIPE c r, st))))"
| "parseexec b 0 st = Inl NoFuel"
| "parseexec b (Suc f) (s, i) =
     (let (p, s) = peek b ''('' s
      in if p then parseblock b f (s, i)
         else bindE (malloc1 sizeof_execcmd (s, i)) (\<lambda>st.
              bindE (parseredirs b f (EXEC []) st) (\<lambda>(ret, st). parseargs b f 0 ret st)))"
| "parseblock b 0 st = Inl NoFuel"
| "parseblock b (Suc f) (s, i) =
     (let (p, s) = peek b ''('' s
      in if \<not> p then Inl Parseblock
         else let (_, _, s) = gettoken b s
              in bindE (parseline b f (s, i)) (\<lambda>(c, s, i).
                   let (p, s) = peek b '')'' s
                   in if \<not> p then Inl MissingParen
                      else let (_, _, s) = gettoken b s in parseredirs b f c (s, i)))"

section \<open>NUL-termination\<close>

text \<open>\<open>nulterminate\<close>: the positions at which it writes a NUL, in order, and the line afterwards.\<close>

fun nul_positions :: "span cmd \<Rightarrow> nat list" where
  "nul_positions (EXEC ws) = map snd ws"
| "nul_positions (REDIR c w m fd) = nul_positions c @ [snd w]"
| "nul_positions (PIPE l r) = nul_positions l @ nul_positions r"
| "nul_positions (LIST l r) = nul_positions l @ nul_positions r"
| "nul_positions (BACK c) = nul_positions c"

definition nulterminate :: "span cmd \<Rightarrow> string \<Rightarrow> string" where
  "nulterminate c mem = foldl (\<lambda>m p. m[p := CHR 0x00]) mem (nul_positions c)"

text \<open>\<open>parsecmd\<close>: the command and the memory of the line, with its final NUL.\<close>

definition parse_fuel :: "string \<Rightarrow> nat" where
  "parse_fuel b = 4 * length b + 8"

definition parsecmd :: "string \<Rightarrow> perr + (span cmd \<times> string)" where
  "parsecmd b =
     bindE (parseline b (parse_fuel b) (0, 0)) (\<lambda>(c, s, i).
       let (_, s) = peek b [] s
       in if s \<noteq> length b then Inl Leftovers else Inr (c, nulterminate c (b @ [CHR 0x00])))"

text \<open>The string a pointer into the line points to, and the command with its strings.\<close>

definition cstring_at :: "string \<Rightarrow> nat \<Rightarrow> string" where
  "cstring_at mem q = takeWhile (\<lambda>c. c \<noteq> CHR 0x00) (drop q mem)"

definition strings_of :: "string \<Rightarrow> span cmd \<Rightarrow> string cmd" where
  "strings_of mem c = map_cmd (\<lambda>w. cstring_at mem (fst w)) c"

end
