(* ===== verification/Shell_Props.thy ===== *)
theory Shell_Props
  imports Shell
begin

text \<open>
  The shell: the parser ends on every line, its words are the words of the line, and it reads back
  every command that is printed.
\<close>

section \<open>Scanning\<close>

abbreviation wordchar :: "char \<Rightarrow> bool" where
  "wordchar c \<equiv> c \<notin> set whitespace \<and> c \<notin> set symbols"

lemma skip_while_le: "s \<le> length b \<Longrightarrow> skip_while P b s \<le> length b"
  using length_takeWhile_le [of P "drop s b"] by (simp add: skip_while_def)

lemma skip_while_ge: "s \<le> skip_while P b s"
  by (simp add: skip_while_def)

lemma drop_skip_while: "drop (skip_while P b s) b = dropWhile P (drop s b)"
  by (simp add: skip_while_def dropWhile_eq_drop add.commute)

lemma char_at_drop: "char_at b s = (case drop s b of [] \<Rightarrow> CHR 0x00 | c # _ \<Rightarrow> c)"
  by (cases "s < length b") (simp_all add: char_at_def Cons_nth_drop_Suc [symmetric])

lemma char_at_neq: "char_at b s \<noteq> CHR 0x00 \<Longrightarrow> s < length b"
  by (auto simp: char_at_def split: if_splits)

lemma skip_space_bounds: "s \<le> skip_space b s" "s \<le> length b \<Longrightarrow> skip_space b s \<le> length b"
  by (simp_all add: skip_space_def skip_while_ge skip_while_le)

lemma skip_word_bounds: "s \<le> skip_word b s" "s \<le> length b \<Longrightarrow> skip_word b s \<le> length b"
  by (simp_all add: skip_word_def skip_while_ge skip_while_le)

lemma skip_space_stop: "char_at b (skip_space b s) \<notin> set whitespace"
proof -
  have n: "CHR 0x00 \<notin> set whitespace" by (simp add: whitespace_def)
  show ?thesis
  proof (cases "dropWhile (\<lambda>c. c \<in> set whitespace) (drop s b)")
    case Nil
    then show ?thesis using n unfolding char_at_drop skip_space_def drop_skip_while Nil by simp
  next
    case (Cons c t)
    then have "c \<notin> set whitespace" using hd_dropWhile [of "\<lambda>c. c \<in> set whitespace" "drop s b"] by simp
    then show ?thesis using Cons by (simp add: char_at_drop skip_space_def drop_skip_while)
  qed
qed

lemma skip_word_grows:
  assumes "wordchar (char_at b s)" "char_at b s \<noteq> CHR 0x00" shows "s < skip_word b s"
proof -
  obtain c t where "drop s b = c # t" using assms(2) by (cases "drop s b") (auto simp: char_at_drop)
  then show ?thesis using assms(1) by (simp add: skip_word_def skip_while_def char_at_drop)
qed

lemma peek_bounds:
  assumes "peek b toks s = (p, s')" "s \<le> length b"
  shows "s \<le> s'" "s' \<le> length b" "s' = skip_space b s" "p \<Longrightarrow> char_at b s' \<noteq> CHR 0x00"
  using assms skip_space_bounds by (auto simp: peek_def Let_def)

lemma gettoken_bounds:
  assumes "gettoken b s = (tok, w, s')" "s \<le> length b"
  shows "s \<le> s' \<and> s' \<le> length b \<and> (tok \<noteq> CHR 0x00 \<longrightarrow> s < s') \<and> (char_at b s \<noteq> CHR 0x00 \<and> char_at b s \<notin> set whitespace \<longrightarrow> s < s')"
proof -
  let ?s = "skip_space b s" let ?c = "char_at b (skip_space b s)"
  have s: "s \<le> ?s" "?s \<le> length b" using skip_space_bounds assms(2) by auto
  have z: "?c \<notin> set whitespace" by (rule skip_space_stop)
  have same: "char_at b s \<noteq> CHR 0x00 \<and> char_at b s \<notin> set whitespace \<Longrightarrow> ?s = s"
    by (cases "drop s b") (auto simp: char_at_drop skip_space_def skip_while_def)
  define s1 where "s1 = snd (fst (snd (gettoken b s)))"
  have e: "s' = skip_space b s1" using assms(1) by (auto simp: s1_def gettoken_def Let_def split: prod.splits)
  have grow: "?s \<le> s1 \<and> s1 \<le> length b \<and> (?c \<noteq> CHR 0x00 \<longrightarrow> ?s < s1)"
  proof (cases "?c = CHR 0x00")
    case True
    then show ?thesis using s by (simp add: s1_def gettoken_def Let_def)
  next
    case False
    then have l: "?s < length b" by (rule char_at_neq)
    show ?thesis
    proof (cases "?c \<in> set symbols")
      case True
      then show ?thesis using False l char_at_neq [of b "?s + 1"]
        by (auto simp: s1_def gettoken_def Let_def symbols_def)
    next
      case nosym: False
      then have "s1 = skip_word b ?s" using False by (auto simp: s1_def gettoken_def Let_def symbols_def)
      then show ?thesis using skip_word_grows [of b ?s] False nosym z skip_word_bounds [of ?s b] l by auto
    qed
  qed
  have t: "tok \<noteq> CHR 0x00 \<Longrightarrow> ?c \<noteq> CHR 0x00" using assms(1) by (auto simp: gettoken_def Let_def split: if_splits)
  show ?thesis using grow s skip_space_bounds [of s1 b] t same unfolding e by fastforce
qed

section \<open>The parser ends\<close>

text \<open>A result from position \<open>s\<close>: an error other than \<open>NoFuel\<close>, or a position not before \<open>s\<close>.\<close>

definition result_ok :: "string \<Rightarrow> nat \<Rightarrow> perr + ('a \<times> pst) \<Rightarrow> bool" where
  "result_ok b s r \<longleftrightarrow> (case r of Inl e \<Rightarrow> e \<noteq> NoFuel | Inr (_, s', _) \<Rightarrow> s \<le> s' \<and> s' \<le> length b)"

lemma result_ok_simps [simp]:
  "result_ok b s (Inl e) \<longleftrightarrow> e \<noteq> NoFuel" "result_ok b s (Inr (x, s', i)) \<longleftrightarrow> s \<le> s' \<and> s' \<le> length b"
  by (simp_all add: result_ok_def)

lemma result_ok_mono: "result_ok b s' r \<Longrightarrow> s \<le> s' \<Longrightarrow> result_ok b s r"
  by (auto simp: result_ok_def split: sum.splits)

lemma result_ok_bind:
  assumes "result_ok b s x" "s0 \<le> s" "\<And>c s' i. s \<le> s' \<Longrightarrow> s' \<le> length b \<Longrightarrow> result_ok b s' (f (c, s', i))"
  shows "result_ok b s0 (bindE x f)"
proof (cases x)
  case (Inl e)
  then show ?thesis using assms(1) by (simp add: bindE_def)
next
  case (Inr r)
  obtain c s' i where r: "r = (c, s', i)" by (cases r)
  then show ?thesis using assms(1,2) assms(3) [of s' c i] Inr by (auto simp: bindE_def intro: result_ok_mono)
qed

lemma result_ok_malloc:
  assumes "\<And>i. result_ok b s (f (s', i))" shows "result_ok b s (bindE (malloc1 n (s', i)) f)"
  using assms by (simp add: malloc1_def bindE_def)

lemma parseredirs_ok: "s \<le> length b \<Longrightarrow> length b - s < f \<Longrightarrow> result_ok b s (parseredirs b f c (s, i))"
proof (induction f arbitrary: c s i)
  case (Suc f)
  obtain p s1 where p: "peek b ''<>'' s = (p, s1)" by fastforce
  note P = peek_bounds [OF p Suc.prems(1)]
  show ?case
  proof (cases p)
    case False
    then show ?thesis using p P by simp
  next
    case True
    obtain t1 w1 s2 where g1: "gettoken b s1 = (t1, w1, s2)" by (metis prod.exhaust)
    obtain t2 w2 s3 where g2: "gettoken b s2 = (t2, w2, s3)" by (metis prod.exhaust)
    have b1: "s1 < s2" "s2 \<le> length b"
      using gettoken_bounds [OF g1 P(2)] P(3,4) True skip_space_stop [of b s] by auto
    have b2: "s2 \<le> s3" "s3 \<le> length b" using gettoken_bounds [OF g2 b1(2)] by auto
    have "result_ok b s (parseredirs b f c' (s3, i'))" for c' i'
      by (rule result_ok_mono [OF Suc.IH]) (use b1 b2 P Suc.prems in auto)
    then show ?thesis using p True g1 g2 by (auto intro!: result_ok_malloc)
  qed
qed simp

lemma parseback_ok: "s \<le> length b \<Longrightarrow> length b - s < f \<Longrightarrow> result_ok b s (parseback b f c (s, i))"
proof (induction f arbitrary: c s i)
  case (Suc f)
  obtain p s1 where p: "peek b ''&'' s = (p, s1)" by fastforce
  note P = peek_bounds [OF p Suc.prems(1)]
  show ?case
  proof (cases p)
    case False
    then show ?thesis using p P by simp
  next
    case True
    obtain t1 w1 s2 where g1: "gettoken b s1 = (t1, w1, s2)" by (metis prod.exhaust)
    have b1: "s1 < s2" "s2 \<le> length b"
      using gettoken_bounds [OF g1 P(2)] P(3,4) True skip_space_stop [of b s] by auto
    have "result_ok b s (parseback b f c' (s2, i'))" for c' i'
      by (rule result_ok_mono [OF Suc.IH]) (use b1 P Suc.prems in auto)
    then show ?thesis using p True g1 by (auto intro!: result_ok_malloc)
  qed
qed simp

lemma parseargs_ok: "s \<le> length b \<Longrightarrow> length b - s + 1 < f \<Longrightarrow> result_ok b s (parseargs b f n c (s, i))"
proof (induction f arbitrary: n c s i)
  case (Suc f)
  obtain p s1 where p: "peek b ''|)&;'' s = (p, s1)" by fastforce
  note P = peek_bounds [OF p Suc.prems(1)]
  obtain t1 w1 s2 where g1: "gettoken b s1 = (t1, w1, s2)" by (metis prod.exhaust)
  note G = gettoken_bounds [OF g1 P(2)]
  show ?case
  proof (cases "p \<or> t1 = CHR 0x00")
    case True
    then show ?thesis using p g1 P G by auto
  next
    case False
    have "result_ok b s2 (parseredirs b f c' (s2, i'))" for c' i'
      by (rule parseredirs_ok) (use G P False Suc.prems in auto)
    then have "result_ok b s (bindE (parseredirs b f c' (s2, i')) (\<lambda>(c, st). parseargs b f n' c st))" for c' i' n'
      by (rule result_ok_bind) (use Suc G P False in auto)
    then show ?thesis using p False g1 by auto
  qed
qed simp

lemma parser_ok:
  "s \<le> length b \<Longrightarrow>
     (4 * (length b - s) + 5 \<le> f \<longrightarrow> result_ok b s (parseline b f (s, i)))
     \<and> (4 * (length b - s) + 4 \<le> f \<longrightarrow> result_ok b s (parsepipe b f (s, i)))
     \<and> (4 * (length b - s) + 3 \<le> f \<longrightarrow> result_ok b s (parseexec b f (s, i)))
     \<and> (4 * (length b - s) + 2 \<le> f \<longrightarrow> result_ok b s (parseblock b f (s, i)))"
proof (induction f arbitrary: s i)
  case (Suc f)
  have after: "s1 < s2 \<and> s2 \<le> length b" if "peek b toks s0 = (True, s1)" "gettoken b s1 = (t, w, s2)" "s0 \<le> length b"
    for toks s0 s1 s2 t w
    using peek_bounds [OF that(1,3)] gettoken_bounds [OF that(2)] skip_space_stop [of b s0] by auto
  have line: "result_ok b s (parseline b (Suc f) (s, i))" if l: "4 * (length b - s) + 5 \<le> Suc f"
  proof -
    let ?K = "\<lambda>(c, s, i). let (p, s) = peek b '';'' s
         in if \<not> p then Inr (c, s, i) else let (_, _, s) = gettoken b s
               in bindE (parseline b f (s, i)) (\<lambda>(r, st). bindE (malloc1 sizeof_listcmd st) (\<lambda>st. Inr (LIST c r, st)))"
    have K: "result_ok b s2 (?K (c, s2, i2))" if s2: "s \<le> s2" "s2 \<le> length b" for c s2 i2
    proof -
      obtain p s3 where p: "peek b '';'' s2 = (p, s3)" by fastforce
      obtain t w s4 where g: "gettoken b s3 = (t, w, s4)" by (metis prod.exhaust)
      have "result_ok b s2 (bindE (parseline b f (s4, i2)) (\<lambda>(r, st). bindE (malloc1 sizeof_listcmd st) (\<lambda>st. Inr (LIST c r, st))))" if p
      proof -
        have b: "s3 < s4" "s4 \<le> length b" "s2 \<le> s3" using after [of "'';''" s2] p g that s2 peek_bounds [OF p s2(2)] by auto
        show ?thesis
          by (rule result_ok_bind [of _ s4]) (use Suc.IH [OF b(2)] b l s2 in \<open>auto intro!: result_ok_malloc\<close>)
      qed
      then show ?thesis using p g peek_bounds [OF p s2(2)] by auto
    qed
    have 1: "result_ok b s (parsepipe b f (s, i))" using Suc.IH [OF Suc.prems] l by simp
    have 2: "result_ok b s1 (bindE (parseback b f c (s1, i1)) ?K)" if s1: "s \<le> s1" "s1 \<le> length b" for c s1 i1
      by (rule result_ok_bind [OF parseback_ok order_refl]) (use K s1 l in auto)
    show ?thesis unfolding parseline.simps by (rule result_ok_bind [OF 1 order_refl]) (use 2 in simp)
  qed
  have pipe: "result_ok b s (parsepipe b (Suc f) (s, i))" if l: "4 * (length b - s) + 4 \<le> Suc f"
  proof -
    let ?K = "\<lambda>(c, s, i). let (p, s) = peek b ''|'' s
       in if \<not> p then Inr (c, s, i) else let (_, _, s) = gettoken b s
             in bindE (parsepipe b f (s, i)) (\<lambda>(r, st). bindE (malloc1 sizeof_pipecmd st) (\<lambda>st. Inr (PIPE c r, st)))"
    have K: "result_ok b s2 (?K (c, s2, i2))" if s2: "s \<le> s2" "s2 \<le> length b" for c s2 i2
    proof -
      obtain p s3 where p: "peek b ''|'' s2 = (p, s3)" by fastforce
      obtain t w s4 where g: "gettoken b s3 = (t, w, s4)" by (metis prod.exhaust)
      have "result_ok b s2 (bindE (parsepipe b f (s4, i2)) (\<lambda>(r, st). bindE (malloc1 sizeof_pipecmd st) (\<lambda>st. Inr (PIPE c r, st))))" if p
      proof -
        have b: "s3 < s4" "s4 \<le> length b" "s2 \<le> s3" using after [of "''|''" s2] p g that s2 peek_bounds [OF p s2(2)] by auto
        show ?thesis
          by (rule result_ok_bind [of _ s4]) (use Suc.IH [OF b(2)] b l s2 in \<open>auto intro!: result_ok_malloc\<close>)
      qed
      then show ?thesis using p g peek_bounds [OF p s2(2)] by auto
    qed
    have 1: "result_ok b s (parseexec b f (s, i))" using Suc.IH [OF Suc.prems] l by simp
    show ?thesis unfolding parsepipe.simps by (rule result_ok_bind [OF 1 order_refl]) (use K in simp)
  qed
  have exec: "result_ok b s (parseexec b (Suc f) (s, i))" if l: "4 * (length b - s) + 3 \<le> Suc f"
  proof -
    obtain p s1 where p: "peek b ''('' s = (p, s1)" by fastforce
    note P = peek_bounds [OF p Suc.prems]
    show ?thesis
    proof (cases p)
      case True
      have "result_ok b s1 (parseblock b f (s1, i))" using Suc.IH [OF P(2)] l P(1) by simp
      then show ?thesis using p True result_ok_mono P(1) by auto
    next
      case False
      have "result_ok b s1 (bindE (parseredirs b f (EXEC []) (s1, i')) (\<lambda>(ret, st). parseargs b f 0 ret st))" for i'
        by (rule result_ok_bind [OF parseredirs_ok order_refl]) (use P l in \<open>auto intro!: parseargs_ok\<close>)
      then have "result_ok b s (bindE (parseredirs b f (EXEC []) (s1, i')) (\<lambda>(ret, st). parseargs b f 0 ret st))" for i'
        using result_ok_mono P(1) by blast
      then show ?thesis using p False by (auto intro!: result_ok_malloc)
    qed
  qed
  have block: "result_ok b s (parseblock b (Suc f) (s, i))" if l: "4 * (length b - s) + 2 \<le> Suc f"
  proof -
    obtain p s1 where p: "peek b ''('' s = (p, s1)" by fastforce
    obtain t w s2 where g: "gettoken b s1 = (t, w, s2)" by (metis prod.exhaust)
    note P = peek_bounds [OF p Suc.prems]
    show ?thesis
    proof (cases p)
      case True
      have b: "s1 < s2" "s2 \<le> length b" using after [of "''(''" s] p g True Suc.prems by auto
      have "4 * (length b - s2) + 5 \<le> f" using l b P(1) by arith
      then have 1: "result_ok b s2 (parseline b f (s2, i))" using Suc.IH [OF b(2)] by blast
      have s: "s \<le> s2" using P(1) b by simp
      let ?K = "\<lambda>(c, s, i). let (p, s) = peek b '')'' s
                   in if \<not> p then Inl MissingParen else let (_, _, s) = gettoken b s in parseredirs b f c (s, i)"
      have K: "result_ok b s3 (?K (c, s3, i3))" if s3: "s2 \<le> s3" "s3 \<le> length b" for c s3 i3
      proof -
        obtain p' s4 where p': "peek b '')'' s3 = (p', s4)" by fastforce
        obtain t w s5 where g': "gettoken b s4 = (t, w, s5)" by (metis prod.exhaust)
        have "result_ok b s3 (parseredirs b f c (s5, i3))" if p'
        proof -
          have b: "s4 < s5" "s5 \<le> length b" "s3 \<le> s4" using after [of "'')''" s3] p' g' that s3 peek_bounds [OF p' s3(2)] by auto
          show ?thesis by (rule result_ok_mono [OF parseredirs_ok]) (use b l s3 s Suc.prems in auto)
        qed
        then show ?thesis using p' g' by auto
      qed
      have "result_ok b s (bindE (parseline b f (s2, i)) ?K)" by (rule result_ok_bind [OF 1 s]) (use K in blast)
      then show ?thesis using p g True by simp
    next
      case False
      then show ?thesis using p by simp
    qed
  qed
  show ?case using line pipe exec block by blast
qed simp

section \<open>The words of a command\<close>

text \<open>A span is a whole word of the line: its characters are word characters, and it goes on to its end.\<close>

definition word_span :: "string \<Rightarrow> span \<Rightarrow> bool" where
  "word_span b w \<longleftrightarrow>
     fst w < snd w \<and> snd w \<le> length b \<and> (\<forall>k\<in>{fst w..<snd w}. wordchar (b ! k)) \<and> (snd w < length b \<longrightarrow> \<not> wordchar (b ! snd w))"

lemma skip_while_chars:
  "s \<le> k \<Longrightarrow> k < skip_while P b s \<Longrightarrow> P (b ! k)"
  "skip_while P b s < length b \<Longrightarrow> s \<le> length b \<Longrightarrow> \<not> P (b ! skip_while P b s)"
proof -
  assume k: "s \<le> k" "k < skip_while P b s"
  then have "k - s < length (takeWhile P (drop s b))" by (simp add: skip_while_def)
  then have m: "takeWhile P (drop s b) ! (k - s) \<in> set (takeWhile P (drop s b))" "takeWhile P (drop s b) ! (k - s) = drop s b ! (k - s)"
    by (rule nth_mem) (rule takeWhile_nth, fact)
  then have "drop s b ! (k - s) = b ! k" using k(1) \<open>k - s < _\<close> length_takeWhile_le [of P "drop s b"] by simp
  then show "P (b ! k)" using m set_takeWhileD [of "b ! k" P "drop s b"] by simp
next
  assume "skip_while P b s < length b" "s \<le> length b"
  then have "length (takeWhile P (drop s b)) < length (drop s b)" by (simp add: skip_while_def)
  then show "\<not> P (b ! skip_while P b s)" using nth_length_takeWhile [of P "drop s b"] by (simp add: skip_while_def)
qed

lemma gettoken_word:
  assumes "gettoken b s = (CHR ''a'', w, s')" "s \<le> length b" shows "word_span b w"
proof -
  let ?s = "skip_space b s" let ?c = "char_at b (skip_space b s)"
  have c: "?c \<noteq> CHR 0x00" "?c \<notin> set symbols" "w = (?s, skip_word b ?s)"
    using assms(1) by (auto simp: gettoken_def Let_def symbols_def split: if_splits)
  have l: "?s < length b" using char_at_neq c(1) by blast
  have "?s < skip_word b ?s" using skip_word_grows [of b ?s] c skip_space_stop [of b s] by blast
  moreover have "skip_word b ?s \<le> length b" using skip_word_bounds(2) [of ?s b] l by simp
  ultimately show ?thesis
    using skip_while_chars [where P = wordchar and b = b and s = "?s"] l unfolding word_span_def c(3) by (auto simp: skip_word_def)
qed

definition spans_ok :: "string \<Rightarrow> span cmd \<Rightarrow> bool" where
  "spans_ok b c \<longleftrightarrow> (\<forall>w\<in>set_cmd c. word_span b w)"

lemma spans_ok_simps [simp]:
  "spans_ok b (EXEC ws) \<longleftrightarrow> (\<forall>w\<in>set ws. word_span b w)" "spans_ok b (REDIR c w m fd) \<longleftrightarrow> spans_ok b c \<and> word_span b w"
  "spans_ok b (PIPE l r) \<longleftrightarrow> spans_ok b l \<and> spans_ok b r" "spans_ok b (LIST l r) \<longleftrightarrow> spans_ok b l \<and> spans_ok b r"
  "spans_ok b (BACK c) \<longleftrightarrow> spans_ok b c"
  by (auto simp: spans_ok_def)

lemma spans_ok_add_arg: "spans_ok b c \<Longrightarrow> word_span b w \<Longrightarrow> spans_ok b (add_arg w c)"
  by (induction c) auto

lemma bindE_Inr: "bindE x f = Inr y \<longleftrightarrow> (\<exists>a. x = Inr a \<and> f a = Inr y)"
  by (cases x) (simp_all add: bindE_def)

lemma malloc1_Inr: "malloc1 n (s, i) = Inr st \<longleftrightarrow> i + n \<le> MAXN \<and> st = (s, i + n)"
  by (auto simp: malloc1_def)

lemmas parse_Inr = bindE_Inr malloc1_Inr

lemma parseredirs_spans:
  "parseredirs b f c (s, i) = Inr (c', st) \<Longrightarrow> s \<le> length b \<Longrightarrow> spans_ok b c \<Longrightarrow> spans_ok b c' \<and> fst st \<le> length b"
proof (induction f arbitrary: c s i)
  case (Suc f)
  obtain p s1 where p: "peek b ''<>'' s = (p, s1)" by fastforce
  obtain t1 w1 s2 where g1: "gettoken b s1 = (t1, w1, s2)" by (metis prod.exhaust)
  obtain t2 w2 s3 where g2: "gettoken b s2 = (t2, w2, s3)" by (metis prod.exhaust)
  note P = peek_bounds [OF p Suc.prems(2)]
  have b: "s2 \<le> length b" "s3 \<le> length b" using gettoken_bounds [OF g1 P(2)] gettoken_bounds [OF g2] by auto
  show ?case
  proof (cases p)
    case False
    then show ?thesis using Suc.prems p P by auto
  next
    case True
    then have "t2 = CHR ''a''" using Suc.prems(1) p g1 g2 by (auto split: if_splits)
    then have "word_span b w2" using gettoken_word [OF g2 [unfolded \<open>t2 = _\<close>] b(1)] by simp
    then have R: "spans_ok b (REDIR c w2 m fd)" for m fd using Suc.prems(3) by simp
    note IH = Suc.IH [OF _ b(2) R] Suc.IH [OF _ b(2) Suc.prems(3)]
    show ?thesis using Suc.prems(1) True p g1 g2 by (auto simp: parse_Inr split: if_splits dest: IH)
  qed
qed simp

lemma parseback_spans:
  "parseback b f c (s, i) = Inr (c', st) \<Longrightarrow> s \<le> length b \<Longrightarrow> spans_ok b c \<Longrightarrow> spans_ok b c' \<and> fst st \<le> length b"
proof (induction f arbitrary: c s i)
  case (Suc f)
  obtain p s1 where p: "peek b ''&'' s = (p, s1)" by fastforce
  obtain t1 w1 s2 where g1: "gettoken b s1 = (t1, w1, s2)" by (metis prod.exhaust)
  note P = peek_bounds [OF p Suc.prems(2)]
  have b: "s2 \<le> length b" using gettoken_bounds [OF g1 P(2)] by auto
  have R: "spans_ok b (BACK c)" using Suc.prems(3) by simp
  note IH = Suc.IH [OF _ b R]
  show ?case using Suc.prems p g1 P by (auto simp: parse_Inr split: if_splits dest: IH)
qed simp

lemma parseargs_spans:
  "parseargs b f n c (s, i) = Inr (c', st) \<Longrightarrow> s \<le> length b \<Longrightarrow> spans_ok b c \<Longrightarrow> spans_ok b c' \<and> fst st \<le> length b"
proof (induction f arbitrary: n c s i)
  case (Suc f)
  obtain p s1 where p: "peek b ''|)&;'' s = (p, s1)" by fastforce
  obtain t1 w1 s2 where g1: "gettoken b s1 = (t1, w1, s2)" by (metis prod.exhaust)
  note P = peek_bounds [OF p Suc.prems(2)]
  have b: "s2 \<le> length b" using gettoken_bounds [OF g1 P(2)] by auto
  show ?case
  proof (cases "p \<or> t1 = CHR 0x00")
    case True
    then show ?thesis using Suc.prems p g1 P b by (auto split: if_splits)
  next
    case False
    then have t: "t1 = CHR ''a''" using Suc.prems(1) p g1 by (auto split: if_splits)
    obtain c2 s3 i3 where r: "parseredirs b f (add_arg w1 c) (s2, i) = Inr (c2, s3, i3)" "parseargs b f (n + 1) c2 (s3, i3) = Inr (c', st)"
      using Suc.prems(1) False p g1 t by (auto simp: parse_Inr split: if_splits)
    have "word_span b w1" using gettoken_word g1 t P(2) by blast
    then have "spans_ok b c2 \<and> s3 \<le> length b" using parseredirs_spans [OF r(1) b] spans_ok_add_arg Suc.prems(3) by simp
    then show ?thesis using Suc.IH [OF r(2)] by blast
  qed
qed simp

lemma parser_spans:
  "s \<le> length b \<Longrightarrow>
     (parseline b f (s, i) = Inr (c, st) \<longrightarrow> spans_ok b c \<and> fst st \<le> length b)
     \<and> (parsepipe b f (s, i) = Inr (c, st) \<longrightarrow> spans_ok b c \<and> fst st \<le> length b)
     \<and> (parseexec b f (s, i) = Inr (c, st) \<longrightarrow> spans_ok b c \<and> fst st \<le> length b)
     \<and> (parseblock b f (s, i) = Inr (c, st) \<longrightarrow> spans_ok b c \<and> fst st \<le> length b)"
proof (induction f arbitrary: s i c st)
  case (Suc f)
  have tok: "s2 \<le> length b" if "peek b toks s0 = (p, s1)" "gettoken b s1 = (t, w, s2)" "s0 \<le> length b" for toks p s0 s1 s2 t w
    using peek_bounds [OF that(1,3)] gettoken_bounds [OF that(2)] by auto
  have IHl: "parseline b f (s, i) = Inr (c, st) \<Longrightarrow> s \<le> length b \<Longrightarrow> spans_ok b c \<and> fst st \<le> length b"
    and IHp: "parsepipe b f (s, i) = Inr (c, st) \<Longrightarrow> s \<le> length b \<Longrightarrow> spans_ok b c \<and> fst st \<le> length b"
    and IHe: "parseexec b f (s, i) = Inr (c, st) \<Longrightarrow> s \<le> length b \<Longrightarrow> spans_ok b c \<and> fst st \<le> length b"
    and IHb: "parseblock b f (s, i) = Inr (c, st) \<Longrightarrow> s \<le> length b \<Longrightarrow> spans_ok b c \<and> fst st \<le> length b" for s i c st
    using Suc.IH by blast+
  have line: "spans_ok b c \<and> fst st \<le> length b" if l: "parseline b (Suc f) (s, i) = Inr (c, st)"
  proof -
    obtain c1 s1 i1 c2 s2 i2 where 1: "parsepipe b f (s, i) = Inr (c1, s1, i1)" "parseback b f c1 (s1, i1) = Inr (c2, s2, i2)"
      and r: "(let (p, s) = peek b '';'' s2
         in if \<not> p then Inr (c2, s, i2) else let (_, _, s) = gettoken b s
               in bindE (parseline b f (s, i2)) (\<lambda>(r, st). bindE (malloc1 sizeof_listcmd st) (\<lambda>st. Inr (LIST c2 r, st)))) = Inr (c, st)"
      using l by (auto simp: bindE_Inr)
    have c2: "spans_ok b c2" "s2 \<le> length b" using IHp [OF 1(1) Suc.prems] parseback_spans [OF 1(2)] by auto
    obtain p s3 where p: "peek b '';'' s2 = (p, s3)" by fastforce
    obtain t w s4 where g: "gettoken b s3 = (t, w, s4)" by (metis prod.exhaust)
    show ?thesis using r p g c2 peek_bounds [OF p c2(2)] tok [OF p g c2(2)]
      by (auto simp: parse_Inr split: if_splits dest: IHl)
  qed
  have pipe: "spans_ok b c \<and> fst st \<le> length b" if l: "parsepipe b (Suc f) (s, i) = Inr (c, st)"
  proof -
    obtain c2 s2 i2 where 1: "parseexec b f (s, i) = Inr (c2, s2, i2)"
      and r: "(let (p, s) = peek b ''|'' s2
         in if \<not> p then Inr (c2, s, i2) else let (_, _, s) = gettoken b s
               in bindE (parsepipe b f (s, i2)) (\<lambda>(r, st). bindE (malloc1 sizeof_pipecmd st) (\<lambda>st. Inr (PIPE c2 r, st)))) = Inr (c, st)"
      using l by (auto simp: bindE_Inr)
    have c2: "spans_ok b c2" "s2 \<le> length b" using IHe [OF 1(1) Suc.prems] by auto
    obtain p s3 where p: "peek b ''|'' s2 = (p, s3)" by fastforce
    obtain t w s4 where g: "gettoken b s3 = (t, w, s4)" by (metis prod.exhaust)
    show ?thesis using r p g c2 peek_bounds [OF p c2(2)] tok [OF p g c2(2)]
      by (auto simp: parse_Inr split: if_splits dest: IHp)
  qed
  obtain p s1 where p: "peek b ''('' s = (p, s1)" by fastforce
  obtain t w s2 where g: "gettoken b s1 = (t, w, s2)" by (metis prod.exhaust)
  note P = peek_bounds [OF p Suc.prems] and G = tok [OF p g Suc.prems]
  have exec: "spans_ok b c \<and> fst st \<le> length b" if l: "parseexec b (Suc f) (s, i) = Inr (c, st)"
  proof (cases p)
    case True
    then show ?thesis using l p P by (auto dest: IHb)
  next
    case False
    then obtain c1 s3 i3 where 1: "parseredirs b f (EXEC []) (s1, i + sizeof_execcmd) = Inr (c1, s3, i3)" "parseargs b f 0 c1 (s3, i3) = Inr (c, st)"
      using l p by (auto simp: parse_Inr)
    show ?thesis using parseredirs_spans [OF 1(1) P(2)] parseargs_spans [OF 1(2)] by simp
  qed
  have block: "spans_ok b c \<and> fst st \<le> length b" if l: "parseblock b (Suc f) (s, i) = Inr (c, st)"
  proof -
    obtain c1 s3 i3 where 1: "p" "parseline b f (s2, i) = Inr (c1, s3, i3)"
      and r: "(let (p, s) = peek b '')'' s3 in if \<not> p then Inl MissingParen else let (_, _, s) = gettoken b s in parseredirs b f c1 (s, i3)) = Inr (c, st)"
      using l p g by (auto simp: bindE_Inr split: if_splits)
    have c1: "spans_ok b c1" "s3 \<le> length b" using IHl [OF 1(2) G] by auto
    obtain p' s4 where p': "peek b '')'' s3 = (p', s4)" by fastforce
    obtain t w s5 where g': "gettoken b s4 = (t, w, s5)" by (metis prod.exhaust)
    show ?thesis using r p' g' c1 tok [OF p' g' c1(2)] by (auto split: if_splits dest: parseredirs_spans)
  qed
  show ?case using line pipe exec block by blast
qed simp

text \<open>NUL-termination does not touch the inside of a word.\<close>

lemma set_nul_positions: "set (nul_positions c) = snd ` set_cmd c"
  by (induction c) auto

lemma length_nul: "length (foldl (\<lambda>m p. m[p := z]) mem ps) = length mem"
  by (induction ps arbitrary: mem) auto

lemma nth_nul: "k < length mem \<Longrightarrow> foldl (\<lambda>m p. m[p := z]) mem ps ! k = (if k \<in> set ps then z else mem ! k)"
  by (induction ps arbitrary: mem) (auto simp: nth_list_update)

lemma takeWhile_upto:
  assumes "q \<le> e" "e < length xs" "\<forall>k\<in>{q..<e}. P (xs ! k)" "\<not> P (xs ! e)"
  shows "takeWhile P (drop q xs) = take (e - q) (drop q xs)"
proof (rule takeWhile_eq_take_P_nth)
  show "P (drop q xs ! i)" if "i < e - q" "i < length (drop q xs)" for i using assms(1,3) that by auto
  show "\<not> P (drop q xs ! (e - q))" if "e - q < length (drop q xs)" using assms(1,4) that by simp
qed

lemma cstring_at_span:
  assumes z: "CHR 0x00 \<notin> set b" and c: "spans_ok b c" and w: "(q, e) \<in> set_cmd c"
  shows "cstring_at (nulterminate c (b @ [CHR 0x00])) q = take (e - q) (drop q b)"
proof -
  let ?m = "nulterminate c (b @ [CHR 0x00])"
  have l: "length ?m = Suc (length b)" by (simp add: nulterminate_def length_nul)
  have n: "?m ! k = (if k \<in> snd ` set_cmd c then CHR 0x00 else (b @ [CHR 0x00]) ! k)" if "k \<le> length b" for k
    using that by (simp add: nulterminate_def nth_nul set_nul_positions)
  have ws: "word_span b (q, e)" using c w by (auto simp: spans_ok_def)
  have in_word: "?m ! k = b ! k" if "k \<in> {q..<e}" for k
  proof -
    have "wordchar (b ! k)" "k < length b" using ws that by (auto simp: word_span_def)
    moreover have "k \<notin> snd ` set_cmd c"
    proof
      assume "k \<in> snd ` set_cmd c"
      then obtain w' where "word_span b w'" "snd w' = k" using c by (auto simp: spans_ok_def)
      then show False using \<open>wordchar (b ! k)\<close> \<open>k < length b\<close> by (auto simp: word_span_def)
    qed
    ultimately show ?thesis using n [of k] by (simp add: nth_append)
  qed
  have "?m ! e = CHR 0x00" using n [of e] ws w by (force simp: word_span_def)
  moreover have "\<forall>k\<in>{q..<e}. ?m ! k \<noteq> CHR 0x00"
  proof
    fix k assume k: "k \<in> {q..<e}"
    then have "b ! k \<in> set b" using ws by (intro nth_mem) (simp add: word_span_def)
    then show "?m ! k \<noteq> CHR 0x00" using in_word [OF k] z by metis
  qed
  ultimately have "cstring_at ?m q = take (e - q) (drop q ?m)"
    unfolding cstring_at_def using ws l by (intro takeWhile_upto) (auto simp: word_span_def)
  also have "\<dots> = take (e - q) (drop q b)"
    using ws l in_word by (intro nth_equalityI) (auto simp: word_span_def)
  finally show ?thesis .
qed

text \<open>
  C21: The parser ends on every line; when it accepts one, every word of the command is a word of the
  line, as long as it goes, and after NUL-termination the pointers of the command point to exactly
  these words: no NUL is written inside another word.
\<close>

theorem shell_words:
  assumes "CHR 0x00 \<notin> set b"
  shows "case parsecmd b of
           Inl e \<Rightarrow> e \<noteq> NoFuel
         | Inr (c, mem) \<Rightarrow> length mem = Suc (length b)
             \<and> (\<forall>(q, e)\<in>set_cmd c. word_span b (q, e) \<and> cstring_at mem q = take (e - q) (drop q b))"
proof -
  have "result_ok b 0 (parseline b (parse_fuel b) (0, 0))"
    using parser_ok [of 0 b "parse_fuel b" 0] by (simp add: parse_fuel_def)
  moreover have "\<forall>(q, e)\<in>set_cmd c. word_span b (q, e) \<and> cstring_at (nulterminate c (b @ [CHR 0x00])) q = take (e - q) (drop q b)"
    if "parseline b (parse_fuel b) (0, 0) = Inr (c, st)" for c st
  proof -
    have "spans_ok b c" using parser_spans [of 0 b "parse_fuel b" 0 c st] that by simp
    then show ?thesis using cstring_at_span [OF assms] by (auto simp: spans_ok_def)
  qed
  ultimately show ?thesis
    by (auto simp: parsecmd_def bindE_def Let_def nulterminate_def length_nul result_ok_def split: sum.splits prod.splits)
qed

theorem shell_words_witness:
  "\<exists>mem. parsecmd ''a bc>d'' = Inr (REDIR (EXEC [(0, 1), (2, 4)]) (5, 6) O_WRONLY_CREAT 1, mem) \<and> cstring_at mem 2 = ''bc''"
proof -
  have "case parsecmd ''a bc>d'' of Inl e \<Rightarrow> False | Inr (c, mem) \<Rightarrow> c = REDIR (EXEC [(0, 1), (2, 4)]) (5, 6) O_WRONLY_CREAT 1"
    by code_simp
  then obtain mem where e: "parsecmd ''a bc>d'' = Inr (REDIR (EXEC [(0, 1), (2, 4)]) (5, 6) O_WRONLY_CREAT 1, mem)"
    by (auto split: sum.splits prod.splits)
  with shell_words [of "''a bc>d''"] show ?thesis by auto
qed

section \<open>Reading back\<close>

text \<open>The text of a command: every part in parentheses, every word followed by a space.\<close>

fun print_cmd :: "string cmd \<Rightarrow> string" where
  "print_cmd (EXEC ws) = concat (map (\<lambda>w. w @ '' '') ws)"
| "print_cmd (REDIR c w m fd) = ''('' @ print_cmd c @ '')'' @ (if fd = 0 then ''<'' else ''>'') @ w @ '' ''"
| "print_cmd (PIPE l r) = ''('' @ print_cmd l @ '')|('' @ print_cmd r @ '')''"
| "print_cmd (LIST l r) = ''('' @ print_cmd l @ '');('' @ print_cmd r @ '')''"
| "print_cmd (BACK c) = ''('' @ print_cmd c @ '')&''"

definition word_ok :: "string \<Rightarrow> bool" where
  "word_ok w \<longleftrightarrow> w \<noteq> [] \<and> (\<forall>c\<in>set w. wordchar c \<and> c \<noteq> CHR 0x00)"

text \<open>The commands the parser can build: at most 9 arguments, and the two kinds of redirection.\<close>

fun cmd_ok :: "string cmd \<Rightarrow> bool" where
  "cmd_ok (EXEC ws) \<longleftrightarrow> length ws < MAXARGS \<and> (\<forall>w\<in>set ws. word_ok w)"
| "cmd_ok (REDIR c w m fd) \<longleftrightarrow> cmd_ok c \<and> word_ok w \<and> ((m, fd) = (O_RDONLY, 0) \<or> (m, fd) = (O_WRONLY_CREAT, 1))"
| "cmd_ok (PIPE l r) \<longleftrightarrow> cmd_ok l \<and> cmd_ok r"
| "cmd_ok (LIST l r) \<longleftrightarrow> cmd_ok l \<and> cmd_ok r"
| "cmd_ok (BACK c) \<longleftrightarrow> cmd_ok c"

fun cmd_size :: "'w cmd \<Rightarrow> nat" where
  "cmd_size (EXEC ws) = sizeof_execcmd"
| "cmd_size (REDIR c w m fd) = cmd_size c + sizeof_redircmd"
| "cmd_size (PIPE l r) = cmd_size l + cmd_size r + sizeof_pipecmd"
| "cmd_size (LIST l r) = cmd_size l + cmd_size r + sizeof_listcmd"
| "cmd_size (BACK c) = cmd_size c + sizeof_backcmd"

definition text_of :: "string \<Rightarrow> span cmd \<Rightarrow> string cmd" where
  "text_of b c = map_cmd (\<lambda>(q, e). take (e - q) (drop q b)) c"

lemma text_of_simps [simp]:
  "text_of b (EXEC ws) = EXEC (map (\<lambda>(q, e). take (e - q) (drop q b)) ws)"
  "text_of b (REDIR c (q, e) m fd) = REDIR (text_of b c) (take (e - q) (drop q b)) m fd"
  "text_of b (PIPE l r) = PIPE (text_of b l) (text_of b r)" "text_of b (LIST l r) = LIST (text_of b l) (text_of b r)"
  "text_of b (BACK c) = BACK (text_of b c)"
  by (simp_all add: text_of_def)

lemma text_of_add_arg: "text_of b (add_arg (q, e) c) = add_arg (take (e - q) (drop q b)) (text_of b c)"
  by (induction c) (auto simp: text_of_def)

text \<open>Scanning when the text at the position is known.\<close>

definition solid :: "string \<Rightarrow> bool" where
  "solid t \<longleftrightarrow> t = [] \<or> hd t \<notin> set whitespace \<and> hd t \<noteq> CHR 0x00"

lemma solid_simps [simp]: "solid []" "solid (c # t) \<longleftrightarrow> c \<notin> set whitespace \<and> c \<noteq> CHR 0x00"
  by (simp_all add: solid_def)

lemma drop_next: "drop s b = c # t \<Longrightarrow> drop (Suc s) b = t"
  by (metis drop_Suc list.sel(3) tl_drop)

lemma drop_after: "drop s b = u @ t \<Longrightarrow> drop (s + length u) b = t"
  by (metis add.commute append_eq_conv_conj drop_drop)

lemma skip_space_solid: "drop s b = t \<Longrightarrow> solid t \<Longrightarrow> skip_space b s = s"
  by (cases t) (simp_all add: skip_space_def skip_while_def)

lemma peek_solid: "drop s b = t \<Longrightarrow> solid t \<Longrightarrow> peek b toks s = (t \<noteq> [] \<and> hd t \<in> set toks, s)"
  by (cases t) (simp_all add: peek_def skip_space_solid char_at_drop)

lemma gettoken_sym:
  assumes "drop s b = c # t" "c \<in> set ''|();&<'' \<or> c = CHR ''>'' \<and> (t = [] \<or> hd t \<noteq> CHR ''>'')" "solid t"
  shows "gettoken b s = (c, (s, Suc s), Suc s)"
proof -
  have c: "solid (c # t)" using assms(2) by (auto simp: whitespace_def)
  have t: "drop (Suc s) b = t" using assms(1) by (rule drop_next)
  have n: "c \<noteq> CHR 0x00" using assms(2) by auto
  have "char_at b (Suc s) \<noteq> CHR ''>''" if "c = CHR ''>''"
    using that assms(2) t by (cases t) (auto simp: char_at_drop)
  then show ?thesis using n assms(2) skip_space_solid [OF assms(1) c] skip_space_solid [OF t assms(3)]
    by (auto simp: gettoken_def Let_def char_at_drop assms(1))
qed

lemma gettoken_text:
  assumes "drop s b = w @ '' '' @ t" "word_ok w" "solid t"
  shows "gettoken b s = (CHR ''a'', (s, s + length w), s + length w + 1)"
proof -
  obtain c w' where w: "w = c # w'" using assms(2) by (cases w) (auto simp: word_ok_def)
  have c: "wordchar c" "c \<noteq> CHR 0x00" using assms(2) by (auto simp: w word_ok_def)
  have s: "skip_space b s = s" by (rule skip_space_solid [OF assms(1)]) (use c w in auto)
  have tw: "takeWhile wordchar (w @ '' '' @ t) = w" using assms(2) by (auto simp: takeWhile_append word_ok_def whitespace_def)
  have sw: "skip_word b s = s + length w" unfolding skip_word_def skip_while_def assms(1) tw by simp
  have d: "drop (s + length w) b = CHR '' '' # t" using drop_after [of s b w "'' '' @ t"] assms(1) by simp
  have "takeWhile (\<lambda>c. c \<in> set whitespace) (CHR '' '' # t) = '' ''"
    using assms(3) by (cases t) (auto simp: whitespace_def)
  then have sp: "skip_space b (s + length w) = s + length w + 1" unfolding skip_space_def skip_while_def d by simp
  have "char_at b s = c" using assms(1) w by (simp add: char_at_drop)
  then show ?thesis using c s sw sp by (auto simp: gettoken_def Let_def symbols_def)
qed

lemma print_solid: "cmd_ok c \<Longrightarrow> solid t \<Longrightarrow> solid (print_cmd c @ t)"
proof (cases c)
  case (EXEC ws)
  then show "cmd_ok c \<Longrightarrow> solid t \<Longrightarrow> solid (print_cmd c @ t)"
    by (cases ws) (auto simp: word_ok_def solid_def hd_append)
qed (auto simp: whitespace_def)

lemma parseredirs_none:
  assumes "drop s b = t" "solid t" "t = [] \<or> hd t \<notin> {CHR ''<'', CHR ''>''}"
  shows "parseredirs b (Suc f) c (s, i) = Inr (c, s, i)"
  using peek_solid [OF assms(1,2), of "''<>''"] assms(3) by auto

definition stop :: "string \<Rightarrow> bool" where
  "stop t \<longleftrightarrow> t = [] \<or> hd t = CHR '')''"

lemma stop_solid: "stop t \<Longrightarrow> solid t"
  by (auto simp: stop_def solid_def whitespace_def)

fun add_args :: "'w list \<Rightarrow> 'w cmd \<Rightarrow> 'w cmd" where
  "add_args [] c = c"
| "add_args (w # ws) c = add_args ws (add_arg w c)"

lemma add_args_EXEC: "add_args ws (EXEC vs) = EXEC (vs @ ws)"
  by (induction ws arbitrary: vs) auto

lemma parseargs_print:
  "drop s b = concat (map (\<lambda>w. w @ '' '') ws) @ t \<Longrightarrow> stop t \<Longrightarrow> \<forall>w\<in>set ws. word_ok w \<Longrightarrow> n + length ws < MAXARGS \<Longrightarrow>
   length ws < f \<Longrightarrow>
   \<exists>c'. parseargs b f n c (s, i) = Inr (c', s + length (concat (map (\<lambda>w. w @ '' '') ws)), i) \<and> text_of b c' = add_args ws (text_of b c)"
proof (induction ws arbitrary: s n f c)
  case Nil
  then obtain f' where f: "f = Suc f'" by (cases f) auto
  note st = stop_solid [OF Nil.prems(2)]
  have d: "drop s b = t" using Nil.prems(1) by simp
  show ?case
  proof (cases t)
    case Nil
    then show ?thesis using peek_solid [OF d st] skip_space_solid [OF d st] unfolding f
      by (auto simp: gettoken_def Let_def char_at_drop d)
  next
    case (Cons x xs)
    then show ?thesis using peek_solid [OF d st] Nil.prems(2) unfolding f by (auto simp: stop_def)
  qed
next
  case (Cons w ws)
  let ?u = "concat (map (\<lambda>w. w @ '' '') ws) @ t"
  obtain f' where f: "f = Suc f'" "length ws < f'" using Cons.prems(5) by (cases f) auto
  then obtain f'' where f'': "f' = Suc f''" by (cases f') auto
  have w: "word_ok w" "\<forall>w\<in>set ws. word_ok w" using Cons.prems(3) by auto
  have d: "drop s b = w @ '' '' @ ?u" using Cons.prems(1) by simp
  have u: "solid ?u" using print_solid [of "EXEC ws" t] stop_solid [OF Cons.prems(2)] w(2) Cons.prems(4) by (simp add: MAXARGS_def)
  have head: "solid (w @ '' '' @ ?u)" "hd (w @ '' '' @ ?u) \<notin> set symbols"
    using w(1) by (cases w; auto simp: word_ok_def)+
  have p: "peek b ''|)&;'' s = (False, s)" using peek_solid [OF d head(1)] head(2) by (auto simp: symbols_def)
  have du: "drop (s + length w + 1) b = ?u" using drop_after [of s b "w @ '' ''" ?u] d by simp
  have nr: "?u = [] \<or> hd ?u \<notin> {CHR ''<'', CHR ''>''}"
    using Cons.prems(2) w(2) by (cases ws) (auto simp: stop_def word_ok_def hd_append symbols_def)
  have r: "parseredirs b f' (add_arg (s, s + length w) c) (s + length w + 1, i) = Inr (add_arg (s, s + length w) c, s + length w + 1, i)"
    unfolding f'' by (rule parseredirs_none [OF du u nr])
  from Cons.IH [OF du Cons.prems(2) w(2) _ f(2), of "n + 1" "add_arg (s, s + length w) c"] Cons.prems(4)
  obtain c' where c': "parseargs b f' (n + 1) (add_arg (s, s + length w) c) (s + length w + 1, i) =
      Inr (c', s + length w + 1 + length (concat (map (\<lambda>w. w @ '' '') ws)), i)"
    "text_of b c' = add_args ws (text_of b (add_arg (s, s + length w) c))" by auto
  have "take (length w) (drop s b) = w" using d by simp
  then show ?case using c' p gettoken_text [OF d w(1) u] r Cons.prems(4) unfolding f(1)
    by (auto simp: bindE_def text_of_add_arg)
qed

text \<open>What it means that the parser reads a printed command back.\<close>

definition reads :: "string \<Rightarrow> string cmd \<Rightarrow> bool" where
  "reads b c \<longleftrightarrow>
     (\<forall>s t f i. drop s b = print_cmd c @ t \<longrightarrow> stop t \<longrightarrow> 4 * length (print_cmd c) + 5 \<le> f \<longrightarrow> i + cmd_size c \<le> MAXN \<longrightarrow>
        (\<exists>c'. parseline b f (s, i) = Inr (c', s + length (print_cmd c), i + cmd_size c) \<and> text_of b c' = c))"

lemma block_print:
  assumes r: "reads b c" "cmd_ok c" and d: "drop s b = ''('' @ print_cmd c @ '')'' @ t" and t: "solid t"
    and f: "4 * length (print_cmd c) + 7 \<le> f" and i: "i + cmd_size c \<le> MAXN"
  shows "\<exists>c' f'. parseexec b f (s, i) = parseredirs b f' c' (s + length (print_cmd c) + 2, i + cmd_size c)
     \<and> text_of b c' = c \<and> f = f' + 2"
proof -
  obtain f' where ff: "f = Suc (Suc f')" "4 * length (print_cmd c) + 5 \<le> f'" using f by (cases f; cases "f - 1") auto
  let ?u = "print_cmd c @ '')'' @ t"
  have u: "solid ?u" by (rule print_solid [OF r(2)]) (simp add: whitespace_def)
  have open_par: "peek b ''('' s = (True, s)" using peek_solid [OF d] by (auto simp: whitespace_def)
  have g: "gettoken b s = (CHR ''('', (s, Suc s), Suc s)" by (rule gettoken_sym [of s b _ ?u]) (use d u in auto)
  have du: "drop (Suc s) b = ?u" using d drop_next [of s b "CHR ''(''" ?u] by simp
  obtain c' where c': "parseline b f' (Suc s, i) = Inr (c', Suc s + length (print_cmd c), i + cmd_size c)" "text_of b c' = c"
    using r(1) du ff(2) i unfolding reads_def by (metis append_Cons append_Nil list.sel(1) stop_def)
  have d2: "drop (Suc s + length (print_cmd c)) b = CHR '')'' # t" using drop_after [of "Suc s" b "print_cmd c" "'')'' @ t"] du by simp
  have close_par: "peek b '')'' (Suc s + length (print_cmd c)) = (True, Suc s + length (print_cmd c))"
    using peek_solid [OF d2] by (auto simp: whitespace_def)
  have g2: "gettoken b (Suc s + length (print_cmd c)) = (CHR '')'', (Suc s + length (print_cmd c), Suc (Suc s + length (print_cmd c))), Suc (Suc s + length (print_cmd c)))"
    by (rule gettoken_sym [OF d2 _ t]) simp
  have "parseexec b f (s, i) = parseredirs b f' c' (s + length (print_cmd c) + 2, i + cmd_size c)"
    unfolding ff(1) using open_par g c'(1) close_par g2 by (simp add: bindE_def)
  then show ?thesis using c'(2) ff(1) by auto
qed

lemma exec_atom:
  assumes r: "reads b c" "cmd_ok c" and d: "drop s b = ''('' @ print_cmd c @ '')'' @ t" and t: "solid t" "t = [] \<or> hd t \<notin> {CHR ''<'', CHR ''>''}"
    and f: "4 * length (print_cmd c) + 7 \<le> f" and i: "i + cmd_size c \<le> MAXN"
  shows "\<exists>c'. parseexec b f (s, i) = Inr (c', s + length (print_cmd c) + 2, i + cmd_size c) \<and> text_of b c' = c"
proof -
  from block_print [OF r d t(1) f i] obtain c' f' where c': "parseexec b f (s, i) = parseredirs b f' c' (s + length (print_cmd c) + 2, i + cmd_size c)"
    "text_of b c' = c" "f = f' + 2" by blast
  obtain f'' where f'': "f' = Suc f''" using f c'(3) by (cases f') auto
  have "drop (s + length (print_cmd c) + 2) b = t" using drop_after [of s b "''('' @ print_cmd c @ '')''" t] d by simp
  then show ?thesis using c' parseredirs_none [of "s + length (print_cmd c) + 2" b t] t unfolding f'' by auto
qed

lemma pipe_atom:
  assumes r: "reads b c" "cmd_ok c" and d: "drop s b = ''('' @ print_cmd c @ '')'' @ t" and t: "t = [] \<or> hd t \<in> set '')&;''"
    and f: "4 * length (print_cmd c) + 8 \<le> f" and i: "i + cmd_size c \<le> MAXN"
  shows "\<exists>c'. parsepipe b f (s, i) = Inr (c', s + length (print_cmd c) + 2, i + cmd_size c) \<and> text_of b c' = c"
proof -
  obtain f' where f': "f = Suc f'" "4 * length (print_cmd c) + 7 \<le> f'" using f by (cases f) auto
  have s: "solid t" "t = [] \<or> hd t \<notin> {CHR ''<'', CHR ''>''}" "\<not> (t \<noteq> [] \<and> hd t \<in> set ''|'')"
    using t by (auto simp: solid_def whitespace_def)
  have "drop (s + length (print_cmd c) + 2) b = t" using drop_after [of s b "''('' @ print_cmd c @ '')''" t] d by simp
  from peek_solid [OF this s(1), of "''|''"] s(3) exec_atom [OF r d s(1,2) f'(2) i] show ?thesis
    unfolding f'(1) by (auto simp: bindE_def)
qed

lemma line_atom:
  assumes r: "reads b c" "cmd_ok c" and d: "drop s b = ''('' @ print_cmd c @ '')'' @ t" and t: "stop t"
    and f: "4 * length (print_cmd c) + 9 \<le> f" and i: "i + cmd_size c \<le> MAXN"
  shows "\<exists>c'. parseline b f (s, i) = Inr (c', s + length (print_cmd c) + 2, i + cmd_size c) \<and> text_of b c' = c"
proof -
  obtain f' where f': "f = Suc (Suc f')" "4 * length (print_cmd c) + 8 \<le> Suc f'" using f by (cases f; cases "f - 1") auto
  have dt: "drop (s + length (print_cmd c) + 2) b = t" using drop_after [of s b "''('' @ print_cmd c @ '')''" t] d by simp
  have p: "peek b ''&'' (s + length (print_cmd c) + 2) = (False, s + length (print_cmd c) + 2)"
    "peek b '';'' (s + length (print_cmd c) + 2) = (False, s + length (print_cmd c) + 2)"
    using peek_solid [OF dt stop_solid [OF t]] t by (auto simp: stop_def)
  have "t = [] \<or> hd t \<in> set '')&;''" using t by (auto simp: stop_def)
  from pipe_atom [OF r d this f'(2) i] p show ?thesis unfolding f'(1) by (auto simp: bindE_def)
qed

lemma readsI:
  assumes "\<And>s t f i. drop s b = print_cmd c @ t \<Longrightarrow> stop t \<Longrightarrow> 4 * length (print_cmd c) + 5 \<le> f \<Longrightarrow> i + cmd_size c \<le> MAXN \<Longrightarrow>
     \<exists>c'. parseline b f (s, i) = Inr (c', s + length (print_cmd c), i + cmd_size c) \<and> text_of b c' = c"
  shows "reads b c"
  unfolding reads_def using assms by blast

lemma reads_EXEC: assumes ok: "cmd_ok (EXEC ws)" shows "reads b (EXEC ws)"
proof (rule readsI)
  fix s t f i
  let ?u = "concat (map (\<lambda>w. w @ '' '') ws) @ t"
  assume d: "drop s b = print_cmd (EXEC ws) @ t" and t: "stop t" and f: "4 * length (print_cmd (EXEC ws)) + 5 \<le> f"
    and i: "i + cmd_size (EXEC ws) \<le> MAXN"
  have ws: "length ws \<le> length (concat (map (\<lambda>w. w @ '' '') ws))" by (induction ws) auto
  obtain f' where f': "f = Suc (Suc (Suc (Suc f')))" "length ws < Suc f'" using f ws
    by (cases f; cases "f - 1"; cases "f - 2"; cases "f - 3") auto
  have du: "drop s b = ?u" using d by simp
  have u: "solid ?u" using print_solid [OF ok stop_solid [OF t]] by simp
  have h: "?u = [] \<or> hd ?u \<notin> {CHR ''<'', CHR ''>'', CHR ''(''}"
    using t ok by (cases ws) (auto simp: stop_def word_ok_def hd_append symbols_def)
  have p: "peek b ''('' s = (False, s)" using peek_solid [OF du u] h by auto
  have r: "parseredirs b (Suc f') (EXEC []) (s, i + sizeof_execcmd) = Inr (EXEC [], s, i + sizeof_execcmd)"
    by (rule parseredirs_none [OF du u]) (use h in auto)
  obtain c' where c': "parseargs b (Suc f') 0 (EXEC []) (s, i + sizeof_execcmd) =
      Inr (c', s + length (concat (map (\<lambda>w. w @ '' '') ws)), i + sizeof_execcmd)" "text_of b c' = EXEC ws"
    using parseargs_print [OF du t _ _ f'(2), of 0 "EXEC []" "i + sizeof_execcmd"] ok by (auto simp: add_args_EXEC)
  let ?s = "s + length (concat (map (\<lambda>w. w @ '' '') ws))"
  have dt: "drop ?s b = t" by (rule drop_after [OF du])
  have q: "peek b ''|'' ?s = (False, ?s)" "peek b ''&'' ?s = (False, ?s)" "peek b '';'' ?s = (False, ?s)"
    using peek_solid [OF dt stop_solid [OF t]] t by (auto simp: stop_def)
  have e: "parseexec b (Suc (Suc f')) (s, i) = Inr (c', ?s, i + sizeof_execcmd)"
    using p r c'(1) i by (simp add: bindE_def malloc1_def)
  show "\<exists>c'. parseline b f (s, i) = Inr (c', s + length (print_cmd (EXEC ws)), i + cmd_size (EXEC ws)) \<and> text_of b c' = EXEC ws"
    unfolding f'(1) using e q c'(2) by (simp add: bindE_def)
qed

lemma reads_REDIR:
  assumes r: "reads b c" and ok: "cmd_ok (REDIR c w m fd)" shows "reads b (REDIR c w m fd)"
proof (rule readsI)
  fix s t f i
  assume d: "drop s b = print_cmd (REDIR c w m fd) @ t" and t: "stop t" and f: "4 * length (print_cmd (REDIR c w m fd)) + 5 \<le> f"
    and i: "i + cmd_size (REDIR c w m fd) \<le> MAXN"
  define x where "x = (if fd = 0 then CHR ''<'' else CHR ''>'')"
  let ?u = "x # w @ '' '' @ t" and ?s = "s + length (print_cmd c) + 2"
  have okc: "cmd_ok c" "word_ok w" "(m, fd) = (O_RDONLY, 0) \<or> (m, fd) = (O_WRONLY_CREAT, 1)" using ok by auto
  have dd: "drop s b = ''('' @ print_cmd c @ '')'' @ ?u" using d by (simp add: x_def)
  obtain f' where f': "f = Suc (Suc f')" "4 * length (print_cmd c) + 7 \<le> f'" using f by (cases f; cases "f - 1") auto
  have "i + cmd_size c \<le> MAXN" "solid ?u" using i by (auto simp: x_def whitespace_def)
  from block_print [OF r okc(1) dd this(2) f'(2) this(1)] obtain c' g where
    e: "parseexec b f' (s, i) = parseredirs b g c' (?s, i + cmd_size c)" "text_of b c' = c" "f' = g + 2" by blast
  have d1: "drop ?s b = ?u" using drop_after [of s b "''('' @ print_cmd c @ '')''" ?u] dd by simp
  have x: "x \<in> set ''<>''" by (simp add: x_def)
  have p1: "peek b ''<>'' ?s = (True, ?s)" using peek_solid [OF d1 \<open>solid ?u\<close>, of "''<>''"] x by simp
  have ws: "solid (w @ '' '' @ t)" "hd (w @ '' '' @ t) \<noteq> CHR ''>''" using okc(2) by (cases w; auto simp: word_ok_def symbols_def)+
  have g1: "gettoken b ?s = (x, (?s, Suc ?s), Suc ?s)" by (rule gettoken_sym [OF d1 _ ws(1)]) (use ws(2) in \<open>auto simp: x_def\<close>)
  have d2: "drop (Suc ?s) b = w @ '' '' @ t" by (rule drop_next [OF d1])
  have g2: "gettoken b (Suc ?s) = (CHR ''a'', (Suc ?s, Suc ?s + length w), Suc ?s + length w + 1)"
    by (rule gettoken_text [OF d2 okc(2) stop_solid [OF t]])
  let ?t = "Suc ?s + length w + 1"
  have dt: "drop ?t b = t" using drop_after [of "Suc ?s" b "w @ '' ''" t] d2 by simp
  obtain g' where g': "g = Suc (Suc g')" using f'(2) e(3) by (cases g; cases "g - 1") auto
  let ?c = "REDIR c' (Suc ?s, Suc ?s + length w) m fd"
  have last: "parseredirs b (Suc g') ?c (?t, i + cmd_size c + sizeof_redircmd) = Inr (?c, ?t, i + cmd_size c + sizeof_redircmd)"
    by (rule parseredirs_none [OF dt stop_solid [OF t]]) (use t in \<open>auto simp: stop_def\<close>)
  have "parseredirs b g c' (?s, i + cmd_size c) = Inr (?c, ?t, i + cmd_size c + sizeof_redircmd)"
    unfolding g' using p1 g1 g2 last i okc(3) by (auto simp: x_def bindE_def malloc1_def)
  then have ex: "parseexec b f' (s, i) = Inr (?c, ?t, i + cmd_size c + sizeof_redircmd)" using e(1) by simp
  have q: "peek b ''|'' ?t = (False, ?t)" "peek b ''&'' ?t = (False, ?t)" "peek b '';'' ?t = (False, ?t)"
    using peek_solid [OF dt stop_solid [OF t]] t by (auto simp: stop_def)
  obtain f'' where f'': "f' = Suc f''" using f'(2) by (cases f') auto
  have "take (length w) (drop (Suc ?s) b) = w" using d2 by simp
  then have "text_of b ?c = REDIR c w m fd" using e(2) by simp
  moreover have "parseline b f (s, i) = Inr (?c, s + length (print_cmd (REDIR c w m fd)), i + cmd_size (REDIR c w m fd))"
    unfolding f'(1) using ex q unfolding f'' by (simp add: bindE_def)
  ultimately show "\<exists>c'. parseline b f (s, i) = Inr (c', s + length (print_cmd (REDIR c w m fd)), i + cmd_size (REDIR c w m fd)) \<and> text_of b c' = REDIR c w m fd"
    by blast
qed

lemma reads_PIPE:
  assumes r: "reads b l" "reads b c" and ok: "cmd_ok (PIPE l c)" shows "reads b (PIPE l c)"
proof (rule readsI)
  fix s t f i
  assume d: "drop s b = print_cmd (PIPE l c) @ t" and t: "stop t" and f: "4 * length (print_cmd (PIPE l c)) + 5 \<le> f"
    and i: "i + cmd_size (PIPE l c) \<le> MAXN"
  let ?v = "''('' @ print_cmd c @ '')'' @ t" and ?s = "s + length (print_cmd l) + 2"
  have okc: "cmd_ok l" "cmd_ok c" using ok by auto
  have dd: "drop s b = ''('' @ print_cmd l @ '')'' @ CHR ''|'' # ?v" using d by simp
  obtain f' where f': "f = Suc (Suc f')" "4 * length (print_cmd l) + 7 \<le> f'" "4 * length (print_cmd c) + 8 \<le> f'" using f by (cases f; cases "f - 1") auto
  have i1: "i + cmd_size l \<le> MAXN" "i + cmd_size l + cmd_size c \<le> MAXN" using i by auto
  obtain l' where l': "parseexec b f' (s, i) = Inr (l', ?s, i + cmd_size l)" "text_of b l' = l"
    using exec_atom [OF r(1) okc(1) dd _ _ f'(2) i1(1)] by (auto simp: whitespace_def)
  have d1: "drop ?s b = CHR ''|'' # ?v" using drop_after [of s b "''('' @ print_cmd l @ '')''" "CHR ''|'' # ?v"] dd by simp
  have v: "solid ?v" by (simp add: whitespace_def)
  have p: "peek b ''|'' ?s = (True, ?s)" using peek_solid [OF d1] by (simp add: whitespace_def)
  have g: "gettoken b ?s = (CHR ''|'', (?s, Suc ?s), Suc ?s)" by (rule gettoken_sym [OF d1 _ v]) simp
  have d2: "drop (Suc ?s) b = ?v" by (rule drop_next [OF d1])
  have "t = [] \<or> hd t \<in> set '')&;''" using t by (auto simp: stop_def)
  from pipe_atom [OF r(2) okc(2) d2 this f'(3) i1(2)] obtain c' where
    c': "parsepipe b f' (Suc ?s, i + cmd_size l) = Inr (c', Suc ?s + length (print_cmd c) + 2, i + cmd_size l + cmd_size c)" "text_of b c' = c" by blast
  let ?t = "Suc ?s + length (print_cmd c) + 2"
  have dt: "drop ?t b = t" using drop_after [of "Suc ?s" b "''('' @ print_cmd c @ '')''" t] d2 by simp
  have q: "peek b ''&'' ?t = (False, ?t)" "peek b '';'' ?t = (False, ?t)"
    using peek_solid [OF dt stop_solid [OF t]] t by (auto simp: stop_def)
  show "\<exists>c'. parseline b f (s, i) = Inr (c', s + length (print_cmd (PIPE l c)), i + cmd_size (PIPE l c)) \<and> text_of b c' = PIPE l c"
    unfolding f'(1) using l' p g c' q i by (simp add: bindE_def malloc1_def)
qed

lemma reads_LIST:
  assumes r: "reads b l" "reads b c" and ok: "cmd_ok (LIST l c)" shows "reads b (LIST l c)"
proof (rule readsI)
  fix s t f i
  assume d: "drop s b = print_cmd (LIST l c) @ t" and t: "stop t" and f: "4 * length (print_cmd (LIST l c)) + 5 \<le> f"
    and i: "i + cmd_size (LIST l c) \<le> MAXN"
  let ?v = "''('' @ print_cmd c @ '')'' @ t" and ?s = "s + length (print_cmd l) + 2"
  have okc: "cmd_ok l" "cmd_ok c" using ok by auto
  have dd: "drop s b = ''('' @ print_cmd l @ '')'' @ CHR '';'' # ?v" using d by simp
  obtain f' where f': "f = Suc (Suc f')" "4 * length (print_cmd l) + 8 \<le> Suc f'" "4 * length (print_cmd c) + 9 \<le> Suc f'" using f by (cases f; cases "f - 1") auto
  have i1: "i + cmd_size l \<le> MAXN" "i + cmd_size l + cmd_size c \<le> MAXN" using i by auto
  obtain l' where l': "parsepipe b (Suc f') (s, i) = Inr (l', ?s, i + cmd_size l)" "text_of b l' = l"
    using pipe_atom [OF r(1) okc(1) dd _ f'(2) i1(1)] by auto
  have d1: "drop ?s b = CHR '';'' # ?v" using drop_after [of s b "''('' @ print_cmd l @ '')''" "CHR '';'' # ?v"] dd by simp
  have v: "solid ?v" by (simp add: whitespace_def)
  have p: "peek b ''&'' ?s = (False, ?s)" "peek b '';'' ?s = (True, ?s)" using peek_solid [OF d1] by (simp_all add: whitespace_def)
  have g: "gettoken b ?s = (CHR '';'', (?s, Suc ?s), Suc ?s)" by (rule gettoken_sym [OF d1 _ v]) simp
  have d2: "drop (Suc ?s) b = ?v" by (rule drop_next [OF d1])
  from line_atom [OF r(2) okc(2) d2 t f'(3) i1(2)] obtain c' where
    c': "parseline b (Suc f') (Suc ?s, i + cmd_size l) = Inr (c', Suc ?s + length (print_cmd c) + 2, i + cmd_size l + cmd_size c)" "text_of b c' = c" by blast
  have bk: "parseback b (Suc f') l' (?s, i + cmd_size l) = Inr (l', ?s, i + cmd_size l)" using p(1) by simp
  have "parseline b f (s, i) = Inr (LIST l' c', Suc ?s + length (print_cmd c) + 2, i + cmd_size l + cmd_size c + sizeof_listcmd)"
    unfolding f'(1) by (subst parseline.simps(2)) (use l'(1) p g i bk c'(1) in \<open>simp add: bindE_def malloc1_def del: parseback.simps parseline.simps parsepipe.simps\<close>)
  then show "\<exists>c'. parseline b f (s, i) = Inr (c', s + length (print_cmd (LIST l c)), i + cmd_size (LIST l c)) \<and> text_of b c' = LIST l c"
    using l'(2) c'(2) by simp
qed

lemma reads_BACK:
  assumes r: "reads b l" and ok: "cmd_ok (BACK l)" shows "reads b (BACK l)"
proof (rule readsI)
  fix s t f i
  assume d: "drop s b = print_cmd (BACK l) @ t" and t: "stop t" and f: "4 * length (print_cmd (BACK l)) + 5 \<le> f"
    and i: "i + cmd_size (BACK l) \<le> MAXN"
  let ?s = "s + length (print_cmd l) + 2"
  have okc: "cmd_ok l" using ok by auto
  have dd: "drop s b = ''('' @ print_cmd l @ '')'' @ CHR ''&'' # t" using d by simp
  obtain f' where f': "f = Suc (Suc (Suc f'))" "4 * length (print_cmd l) + 8 \<le> Suc (Suc f')" using f by (cases f; cases "f - 1"; cases "f - 2") auto
  have i1: "i + cmd_size l \<le> MAXN" using i by auto
  obtain l' where l': "parsepipe b (Suc (Suc f')) (s, i) = Inr (l', ?s, i + cmd_size l)" "text_of b l' = l"
    using pipe_atom [OF r(1) okc dd _ f'(2) i1] by auto
  have d1: "drop ?s b = CHR ''&'' # t" using drop_after [of s b "''('' @ print_cmd l @ '')''" "CHR ''&'' # t"] dd by simp
  have p: "peek b ''&'' ?s = (True, ?s)" using peek_solid [OF d1] by (simp_all add: whitespace_def)
  have g: "gettoken b ?s = (CHR ''&'', (?s, Suc ?s), Suc ?s)" by (rule gettoken_sym [OF d1 _ stop_solid [OF t]]) simp
  have dt: "drop (Suc ?s) b = t" by (rule drop_next [OF d1])
  have q: "peek b ''&'' (Suc ?s) = (False, Suc ?s)" "peek b '';'' (Suc ?s) = (False, Suc ?s)"
    using peek_solid [OF dt stop_solid [OF t]] t by (auto simp: stop_def)
  have bk: "parseback b (Suc (Suc f')) l' (?s, i + cmd_size l) = Inr (BACK l', Suc ?s, i + cmd_size l + sizeof_backcmd)"
    using p g q(1) i by (simp add: bindE_def malloc1_def)
  have "parseline b f (s, i) = Inr (BACK l', Suc ?s, i + cmd_size l + sizeof_backcmd)"
    unfolding f'(1) parseline.simps(2) l'(1) using bk q(2) by (simp add: bindE_def del: parseback.simps)
  then show "\<exists>c'. parseline b f (s, i) = Inr (c', s + length (print_cmd (BACK l)), i + cmd_size (BACK l)) \<and> text_of b c' = BACK l"
    using l'(2) by simp
qed

lemma reads_all: "cmd_ok c \<Longrightarrow> reads b c"
  by (induction c) (auto simp: reads_EXEC reads_REDIR reads_PIPE reads_LIST reads_BACK)

lemma parsecmd_print:
  assumes "cmd_ok c" "cmd_size c \<le> MAXN"
  shows "\<exists>c' mem. parsecmd (print_cmd c) = Inr (c', mem) \<and> strings_of mem c' = c"
proof -
  let ?b = "print_cmd c"
  have "drop 0 ?b = print_cmd c @ []" "stop []" "4 * length (print_cmd c) + 5 \<le> parse_fuel ?b" "0 + cmd_size c \<le> MAXN"
    using assms(2) by (auto simp: stop_def parse_fuel_def)
  then obtain c' where c': "parseline ?b (parse_fuel ?b) (0, 0) = Inr (c', length ?b, cmd_size c)" "text_of ?b c' = c"
    using reads_all [OF assms(1), of ?b] unfolding reads_def by fastforce
  have "snd (peek ?b [] (length ?b)) = length ?b" by (simp add: peek_solid [of _ _ "[]"])
  then have p: "parsecmd ?b = Inr (c', nulterminate c' (?b @ [CHR 0x00]))"
    unfolding parsecmd_def c'(1) by (auto simp: bindE_def Let_def split: prod.splits)
  have z: "CHR 0x00 \<notin> set ?b" using assms(1) by (induction c) (auto simp: word_ok_def)
  have "spans_ok ?b c'" using parser_spans [of 0 ?b "parse_fuel ?b" 0 c'] c'(1) by simp
  from cstring_at_span [OF z this] have "strings_of (nulterminate c' (?b @ [CHR 0x00])) c' = text_of ?b c'"
    unfolding strings_of_def text_of_def by (intro cmd.map_cong) auto
  with p c'(2) show ?thesis by auto
qed

text \<open>
  C19: Every command the parser can build, with well-formed words, at most 9 arguments and a size within
  the memory of \<open>malloc1\<close>, is read back from its text: the parser accepts the text, and the command
  it returns has, as C strings in the memory it leaves, exactly the words of the command.
\<close>

theorem shell_roundtrip:
  assumes "cmd_ok c" "cmd_size c \<le> MAXN"
  shows "\<exists>c' mem. parsecmd (print_cmd c) = Inr (c', mem) \<and> strings_of mem c' = c"
  using assms by (rule parsecmd_print)

theorem shell_roundtrip_witness:
  "\<exists>c' mem. parsecmd ''((ls -l )|(wc ))>out '' = Inr (c', mem)
     \<and> strings_of mem c' = REDIR (PIPE (EXEC [''ls'', ''-l'']) (EXEC [''wc''])) ''out'' O_WRONLY_CREAT 1"
proof -
  let ?c = "REDIR (PIPE (EXEC [''ls'', ''-l'']) (EXEC [''wc''])) ''out'' O_WRONLY_CREAT 1"
  have "cmd_ok ?c" by (simp add: word_ok_def whitespace_def symbols_def MAXARGS_def)
  moreover have "cmd_size ?c \<le> MAXN" by code_simp
  ultimately show ?thesis using shell_roundtrip [of ?c] by simp
qed

end
