(* ===== verification/Shell_Run.thy ===== *)
theory Shell_Run
  imports Shell_Props Sysfile
begin

text \<open>
  The shell (\<open>user/sh/main.c\<close>): running a command.  What \<open>runcmd\<close> asks of the kernel is a program of
  system calls; a call that may fail has a branch for it, a fork has the program of the child, of the
  parent and of the failure.  The messages on the standard error are left out.
\<close>

section \<open>runcmd\<close>

datatype prog =
    Exit int
  | Execv string "string list" prog
  | Close int prog
  | Open string int prog prog
  | Dup nat prog
  | MkPipe "nat \<times> nat \<Rightarrow> prog" prog
  | Fork prog prog prog
  | Wait prog
  | Chdir string prog

text \<open>\<open>fork1\<close>, which ends the program when the fork fails, and \<open>PANIC\<close>.\<close>

definition fork1 :: "prog \<Rightarrow> prog \<Rightarrow> prog" where
  "fork1 child parent = Fork child parent (Exit 1)"

primrec runcmd :: "string cmd \<Rightarrow> prog" where
  "runcmd (EXEC argv) = (if argv = [] then Exit 0 else Execv (hd argv) argv (Exit 0))"
| "runcmd (REDIR c file mode fd) = Close fd (Open file mode (runcmd c) (Exit 1))"
| "runcmd (LIST l r) = fork1 (runcmd l) (Wait (runcmd r))"
| "runcmd (PIPE l r) =
     MkPipe (\<lambda>(p0, p1).
       fork1 (Close 1 (Dup p1 (Close (int p0) (Close (int p1) (runcmd l)))))
         (fork1 (Close 0 (Dup p0 (Close (int p0) (Close (int p1) (runcmd r)))))
           (Close (int p0) (Close (int p1) (Wait (Wait (Exit 0)))))))
     (Exit 1)"
| "runcmd (BACK c) = fork1 (runcmd c) (Exit 0)"

text \<open>
  One round of the loop of \<open>main\<close> on the line that \<open>getcmd\<close> read: the shell itself changes directory,
  a child runs anything else.  A line that is not accepted ends the child.
\<close>

definition run_line :: "string \<Rightarrow> prog" where
  "run_line b = (case parsecmd b of Inl e \<Rightarrow> Exit 1 | Inr (c, mem) \<Rightarrow> runcmd (strings_of mem c))"

definition sh_round :: "string \<Rightarrow> prog \<Rightarrow> prog" where
  "sh_round buf loop =
     (if take 3 buf = ''cd '' then Chdir (drop 3 (butlast buf)) loop else fork1 (run_line buf) (Wait loop))"

section \<open>Descriptors\<close>

text \<open>
  What runs with which descriptors when every call succeeds: a descriptor is the first free one, as
  \<open>Sysfile.fdalloc\<close> takes it.  A new pipe has the number \<open>n\<close>.  The result are the programs started,
  each with its table of descriptors, and the number of the next pipe.
\<close>

datatype obj = Terminal | Opened string int | ReadEnd nat | WriteEnd nat

type_synonym fdtable = "nat \<Rightarrow> obj option"

type_synonym started = "(string list \<times> fdtable) list"

definition first_free :: "(nat \<Rightarrow> 'o option) \<Rightarrow> nat" where
  "first_free t = (case find (\<lambda>fd. t fd = None) [0..<NOFILE] of Some fd \<Rightarrow> fd | None \<Rightarrow> NOFILE)"

lemma fdalloc_first_free: "first_free (ofiles s) < NOFILE \<Longrightarrow>
    fdalloc f s = (int (first_free (ofiles s)), s\<lparr>ofiles := (ofiles s)(first_free (ofiles s) := Some f)\<rparr>)"
  by (auto simp: fdalloc_def first_free_def split: option.splits)

primrec run :: "prog \<Rightarrow> fdtable \<Rightarrow> nat \<Rightarrow> started \<times> nat" where
  "run (Exit code) = (\<lambda>t n. ([], n))"
| "run (Execv path argv k) = (\<lambda>t n. ([(argv, t)], n))"
| "run (Close fd k) = (\<lambda>t n. run k (t(nat fd := None)) n)"
| "run (Open file mode k e) = (\<lambda>t n. run k (t(first_free t := Some (Opened file mode))) n)"
| "run (Dup fd k) = (\<lambda>t n. run k (t(first_free t := t fd)) n)"
| "run (MkPipe k e) =
     (\<lambda>t n. let r = first_free t; t1 = t(r := Some (ReadEnd n)); w = first_free t1; t2 = t1(w := Some (WriteEnd n))
            in run (k (r, w)) t2 (n + 1))"
| "run (Fork child parent e) = (\<lambda>t n. let (a, n1) = run child t n; (b, n2) = run parent t n1 in (a @ b, n2))"
| "run (Wait k) = (\<lambda>t n. run k t n)"
| "run (Chdir d k) = (\<lambda>t n. run k t n)"

text \<open>What the shell promises.\<close>

fun plan :: "string cmd \<Rightarrow> fdtable \<Rightarrow> nat \<Rightarrow> started \<times> nat" where
  "plan (EXEC argv) t n = (if argv = [] then ([], n) else ([(argv, t)], n))"
| "plan (REDIR c file mode fd) t n = plan c (t(nat fd := Some (Opened file mode))) n"
| "plan (LIST l r) t n = (let (a, n1) = plan l t n; (b, n2) = plan r t n1 in (a @ b, n2))"
| "plan (PIPE l r) t n =
     (let (a, n1) = plan l (t(1 := Some (WriteEnd n))) (n + 1); (b, n2) = plan r (t(0 := Some (ReadEnd n))) n1 in (a @ b, n2))"
| "plan (BACK c) t n = plan c t n"

text \<open>Both standard descriptors are open and two more are free.\<close>

definition table_ok :: "fdtable \<Rightarrow> bool" where
  "table_ok t \<longleftrightarrow> t 0 \<noteq> None \<and> t 1 \<noteq> None \<and> (\<exists>i j. i < j \<and> j < NOFILE \<and> t i = None \<and> t j = None)"

lemma first_free_eq:
  assumes "k < NOFILE" "t k = None" "\<And>j. j < k \<Longrightarrow> t j \<noteq> None" shows "first_free t = k"
proof -
  have "find (\<lambda>fd. t fd = None) [0..<NOFILE] = Some k"
    unfolding find_Some_iff using assms by (intro exI [of _ k]) auto
  then show ?thesis by (simp add: first_free_def)
qed

lemma first_free_is:
  assumes "i < NOFILE" "t i = None" shows "first_free t \<le> i \<and> t (first_free t) = None"
proof -
  obtain k where "find (\<lambda>fd. t fd = None) [0..<NOFILE] = Some k"
    using assms by (cases "find (\<lambda>fd. t fd = None) [0..<NOFILE]") (auto simp: find_None_iff)
  moreover from this have "k \<le> i" "t k = None" using assms by (auto simp: find_Some_iff) (metis leI option.distinct(1))
  ultimately show ?thesis by (simp add: first_free_def)
qed

lemma table_okI: "t 0 \<noteq> None \<Longrightarrow> t 1 \<noteq> None \<Longrightarrow> i < j \<Longrightarrow> j < NOFILE \<Longrightarrow> t i = None \<Longrightarrow> t j = None \<Longrightarrow> table_ok t"
  unfolding table_ok_def by blast

lemma table_ok_upd:
  assumes "table_ok t" "k = 0 \<or> k = 1" shows "table_ok (t(k := Some x))"
proof -
  obtain i j where ij: "i < j" "j < NOFILE" "t i = None" "t j = None" "t 0 \<noteq> None" "t 1 \<noteq> None"
    using assms(1) unfolding table_ok_def by blast
  then have "i \<noteq> 0" "i \<noteq> 1" "j \<noteq> 0" "j \<noteq> 1" by (metis option.distinct(1) not_None_eq)+
  with ij assms(2) show ?thesis by (intro table_okI [of _ i j]) auto
qed

lemma run_runcmd:
  "table_ok t \<Longrightarrow> cmd_ok c \<Longrightarrow> run (runcmd c) t n = plan c t n"
proof (induction c arbitrary: t n)
  case (REDIR c w m fd)
  have fd: "fd = 0 \<or> fd = 1" using REDIR.prems(2) by auto
  have N: "(1 :: nat) < NOFILE" by (simp add: NOFILE_def)
  have "first_free (t(nat fd := None)) = nat fd"
    using REDIR.prems(1) fd N by (intro first_free_eq) (auto simp: table_ok_def)
  moreover have "table_ok (t(nat fd := Some (Opened w m)))" by (rule table_ok_upd [OF REDIR.prems(1)]) (use fd in auto)
  ultimately show ?case using REDIR by simp
next
  case (PIPE l r)
  have N: "(1 :: nat) < NOFILE" by (simp add: NOFILE_def)
  obtain i j where ij: "i < j" "j < NOFILE" "t i = None" "t j = None" "t 0 \<noteq> None" "t 1 \<noteq> None"
    using PIPE.prems(1) by (auto simp: table_ok_def)
  let ?r = "first_free t" let ?t1 = "t(?r := Some (ReadEnd n))" let ?w = "first_free ?t1"
  have r: "?r \<le> i" "t ?r = None" using first_free_is [of i t] ij by auto
  then have "?t1 j = None" using ij by auto
  then have w: "?w \<noteq> ?r" "t ?w = None" using first_free_is [of j ?t1] ij by (auto split: if_splits)
  have big: "?r \<noteq> 0" "?r \<noteq> 1" "?w \<noteq> 0" "?w \<noteq> 1" using r(2) w(2) ij by (metis option.distinct(1) not_None_eq)+
  let ?t2 = "?t1(?w := Some (WriteEnd n))"
  have f1: "first_free (?t2(1 := None)) = 1" using ij big N by (intro first_free_eq) auto
  have f0: "first_free (?t2(0 := None)) = 0" using N by (intro first_free_eq) auto
  have e1: "?t2(1 := Some (WriteEnd n), ?r := None, ?w := None) = t(1 := Some (WriteEnd n))" using r w big by auto
  have e0: "?t2(0 := Some (ReadEnd n), ?r := None, ?w := None) = t(0 := Some (ReadEnd n))" using r w big by auto
  have l: "run (runcmd l) (t(1 := Some (WriteEnd n))) m = plan l (t(1 := Some (WriteEnd n))) m" for m
    by (rule PIPE.IH(1) [OF table_ok_upd]) (use PIPE.prems in auto)
  have r': "run (runcmd r) (t(0 := Some (ReadEnd n))) m = plan r (t(0 := Some (ReadEnd n))) m" for m
    by (rule PIPE.IH(2) [OF table_ok_upd]) (use PIPE.prems in auto)
  have v: "(?t2(1 := None)) ?w = Some (WriteEnd n)" "(?t2(0 := None)) ?r = Some (ReadEnd n)" using big w(1) by auto
  have c1: "run (Close 1 (Dup ?w (Close (int ?r) (Close (int ?w) (runcmd l))))) ?t2 m = plan l (t(1 := Some (WriteEnd n))) m" for m
    unfolding run.simps nat_int nat_one_as_int [symmetric] using f1 v(1) e1 l by simp
  have c0: "run (Close 0 (Dup ?r (Close (int ?r) (Close (int ?w) (runcmd r))))) ?t2 m = plan r (t(0 := Some (ReadEnd n))) m" for m
    unfolding run.simps nat_int using f0 v(2) e0 r' by simp
  have "run (runcmd (PIPE l r)) t n = run (fork1 (Close 1 (Dup ?w (Close (int ?r) (Close (int ?w) (runcmd l)))))
         (fork1 (Close 0 (Dup ?r (Close (int ?r) (Close (int ?w) (runcmd r)))))
           (Close (int ?r) (Close (int ?w) (Wait (Wait (Exit 0))))))) ?t2 (n + 1)"
    by (simp add: Let_def)
  also have "\<dots> = plan (PIPE l r) t n"
    unfolding fork1_def run.simps(7) c1 c0 by (simp add: split_beta)
  finally show ?case .
qed (simp_all add: fork1_def Let_def split_beta)

text \<open>
  C20: The descriptors of a command line.  With both standard descriptors open, running a command starts
  each of its programs once and in order, with exactly the descriptors its place says: in a pipe the
  left side writes into and the right side reads from the same new pipe, a redirection replaces one
  descriptor, and no end of a pipe is left open in any program.
\<close>

theorem shell_descriptors:
  assumes "table_ok t" "cmd_ok c" "cmd_size c \<le> MAXN"
  shows "run (runcmd c) t n = plan c t n \<and> run (run_line (print_cmd c)) t n = plan c t n"
proof -
  obtain c' mem where p: "parsecmd (print_cmd c) = Inr (c', mem)" "strings_of mem c' = c"
    using parsecmd_print [OF assms(2,3)] by blast
  then show ?thesis using run_runcmd [OF assms(1,2)] by (simp add: run_line_def)
qed

definition example_table :: fdtable where
  "example_table = (\<lambda>_. None)(0 := Some Terminal, 1 := Some Terminal, 2 := Some Terminal)"

theorem shell_descriptors_witness:
  "fst (run (run_line ''(ls )|(wc )'') example_table 7) =
     [([''ls''], example_table(1 := Some (WriteEnd 7))), ([''wc''], example_table(0 := Some (ReadEnd 7)))]"
proof -
  let ?c = "PIPE (EXEC [''ls'']) (EXEC [''wc''])"
  have "table_ok example_table"
    by (rule table_okI [of _ 3 4]) (simp_all add: example_table_def NOFILE_def)
  moreover have "cmd_ok ?c" by (simp add: word_ok_def whitespace_def symbols_def MAXARGS_def)
  moreover have "cmd_size ?c \<le> MAXN" by code_simp
  ultimately show ?thesis using shell_descriptors [of example_table ?c 7] by simp
qed

end
