(* ===== verification/Format.thy ===== *)
theory Format
  imports Prelude
begin

text \<open>
  Formatted output (\<open>common/format.c\<close>, used by \<open>kernel/printk.c\<close>).  The arguments are a list: an
  integer argument is its 64-bit slot, of which the conversion reads the bits of its type, a string
  argument is a string or NULL.  Reading past the arguments, or an argument of another kind, is
  \<^const>\<open>None\<close>.  The result is what \<open>put_char\<close> is given, in order.
\<close>

unbundle bit_operations_syntax

datatype varg = VInt u64 | VStr "string option"

section \<open>Integers\<close>

definition digit :: string where "digit = ''0123456789abcdef''"

text \<open>
  The first loop of \<open>_print_int\<close>: \<open>room\<close> is what is left of \<open>buf[64]\<close>, and a digit beyond it is
  \<^const>\<open>None\<close>.
\<close>

fun digits_loop :: "nat \<Rightarrow> u64 \<Rightarrow> u64 \<Rightarrow> string option" where
  "digits_loop 0 base v = None"
| "digits_loop (Suc room) base v =
     (let d = digit ! unat (v mod base); v1 = v div base
      in if v1 = 0 then Some [d] else map_option (\<lambda>ds. d # ds) (digits_loop room base v1))"

definition print_int :: "u64 \<Rightarrow> u64 \<Rightarrow> bool \<Rightarrow> string option" where
  "print_int u base is_signed =
     (let neg = (is_signed \<and> u <s 0); v = (if neg then - u else u)
      in map_option (\<lambda>ds. (if neg then ''-'' else []) @ rev ds) (digits_loop 64 base v))"

section \<open>Conversions\<close>

datatype conv = Percent | Char | Str | IntC "u64 \<Rightarrow> u64" u64 bool

text \<open>The conversions in the order in which \<open>vformat\<close> tries them, each with what \<open>va_arg\<close> reads.\<close>

definition as_u32 :: "u64 \<Rightarrow> u64" where "as_u32 x = ucast (ucast x :: u32)"

definition as_i32 :: "u64 \<Rightarrow> u64" where "as_i32 x = scast (ucast x :: u32)"

definition conversions :: "(string \<times> conv) list" where
  "conversions =
     [(''%'', Percent), (''c'', Char), (''s'', Str), (''u'', IntC as_u32 10 False), (''llu'', IntC id 10 False),
      (''d'', IntC as_i32 10 True), (''lld'', IntC id 10 True), (''x'', IntC as_u32 16 False), (''llx'', IntC id 16 False),
      (''p'', IntC id 16 False), (''zu'', IntC id 10 False), (''zd'', IntC id 10 True)]"

definition conv_of :: "string \<Rightarrow> (string \<times> conv) option" where
  "conv_of pos = find (\<lambda>(i, _). take (length i) pos = i) conversions"

fun do_conv :: "conv \<Rightarrow> varg list \<Rightarrow> (string \<times> varg list) option" where
  "do_conv Percent as = Some (''%'', as)"
| "do_conv Char (VInt x # as) = Some ([char_of (unat x mod 256)], as)"
| "do_conv Str (VStr s # as) = Some (case s of None \<Rightarrow> ''(null)'' | Some t \<Rightarrow> t, as)"
| "do_conv (IntC f base sg) (VInt x # as) = do { t \<leftarrow> print_int (f x) base sg; Some (t, as) }"
| "do_conv _ _ = None"

lemma conv_of_nonempty: "conv_of pos = Some (i, k) \<Longrightarrow> 0 < length i"
  by (auto simp: conv_of_def conversions_def split: if_splits)

function vformat :: "string \<Rightarrow> varg list \<Rightarrow> string option" where
  "vformat [] as = Some []"
| "vformat (c # pos) as =
     (case (if c = CHR ''%'' then conv_of pos else None) of
        Some (i, k) \<Rightarrow> do { (t, as1) \<leftarrow> do_conv k as; r \<leftarrow> vformat (drop (length i) pos) as1; Some (t @ r) }
      | None \<Rightarrow> do { r \<leftarrow> vformat pos as; Some (c # r) })"
  by pat_completeness auto

termination vformat
  by (relation "measure (\<lambda>(pos, as). length pos)") (auto simp: conv_of_nonempty split: if_splits)

section \<open>Properties\<close>

text \<open>The value of a text of digits, and of a text that may have a sign.\<close>

definition digit_val :: "char \<Rightarrow> nat" where
  "digit_val c = length (takeWhile (\<lambda>d. d \<noteq> c) digit)"

fun digits_val :: "nat \<Rightarrow> string \<Rightarrow> nat" where
  "digits_val b [] = 0"
| "digits_val b (d # ds) = digit_val d + b * digits_val b ds"

definition text_val :: "nat \<Rightarrow> string \<Rightarrow> int" where
  "text_val b s = (if take 1 s = ''-'' then - int (digits_val b (rev (drop 1 s))) else int (digits_val b (rev s)))"

lemma digit_val_digit: "k < 16 \<Longrightarrow> digit_val (digit ! k) = k"
proof -
  assume "k < 16"
  then have "k \<in> set [0..<16]" by simp
  moreover have "\<forall>k\<in>set [0..<16]. digit_val (digit ! k) = k" by code_simp
  ultimately show ?thesis by blast
qed

lemma digit_no_sign: "k < 16 \<Longrightarrow> digit ! k \<noteq> CHR ''-''"
proof -
  assume "k < 16"
  then have "k \<in> set [0..<16]" by simp
  moreover have "\<forall>k\<in>set [0..<16]. digit ! k \<noteq> CHR ''-''" by code_simp
  ultimately show ?thesis by blast
qed

lemma digits_loop_val:
  assumes "2 \<le> unat base" "unat base \<le> 16"
  shows "unat v < 2 ^ room \<Longrightarrow> 0 < room \<Longrightarrow> \<exists>ds. digits_loop room base v = Some ds \<and> digits_val (unat base) ds = unat v \<and> ds \<noteq> []
     \<and> (\<forall>d\<in>set ds. \<exists>k<unat base. d = digit ! k) \<and> (v \<noteq> 0 \<longrightarrow> last ds \<noteq> CHR ''0'')"
proof (induction room arbitrary: v)
  case (Suc room)
  let ?d = "digit ! unat (v mod base)" and ?w = "v div base"
  have m: "unat (v mod base) = unat v mod unat base" "unat ?w = unat v div unat base" by (simp_all add: unat_mod unat_div)
  have lt: "unat v mod unat base < unat base" using assms(1) by simp
  have d: "digit_val ?d = unat v mod unat base" using digit_val_digit [of "unat v mod unat base"] lt assms(2) m(1) by simp
  show ?case
  proof (cases "?w = 0")
    case True
    then have "unat v div unat base = 0" using m(2) by (metis unat_0)
    then have v: "unat v mod unat base = unat v" using lt by (metis div_eq_0_iff mod_less mod_by_0)
    have "?d \<noteq> CHR ''0''" if "v \<noteq> 0"
    proof
      assume "?d = CHR ''0''"
      then have "digit_val ?d = 0" by (simp add: digit_val_def digit_def)
      then show False using d v that by (simp add: unat_eq_zero)
    qed
    then show ?thesis using True d v lt m(1) by auto
  next
    case False
    then have "0 < unat v div unat base" using m(2) by (metis neq0_conv unat_eq_zero)
    moreover have "unat v div unat base \<le> unat v div 2" using assms(1) by (simp add: div_le_mono2)
    moreover have "unat v div 2 < 2 ^ room" using Suc.prems(1) by simp
    ultimately have "unat ?w < 2 ^ room" "0 < room" using m(2) by (auto intro: gr0I)
    from Suc.IH [OF this] obtain ds where ds: "digits_loop room base ?w = Some ds" "digits_val (unat base) ds = unat v div unat base" "ds \<noteq> []"
      "\<forall>d\<in>set ds. \<exists>k<unat base. d = digit ! k" "last ds \<noteq> CHR ''0''" using False m(2) by auto
    then show ?thesis using False d lt m(1) by auto
  qed
qed simp

lemma print_int_val:
  assumes "base = 10 \<or> base = 16"
  shows "\<exists>s. print_int u base sg = Some s \<and> text_val (unat base) s = (if sg then sint u else uint u)"
proof -
  let ?neg = "sg \<and> u <s 0" let ?v = "if ?neg then - u else u"
  have b: "2 \<le> unat base" "unat base \<le> 16" using assms by auto
  have "unat ?v < 2 ^ 64" using unsigned_less [of ?v] by simp
  from digits_loop_val [OF b this] obtain ds where ds: "digits_loop 64 base ?v = Some ds" "digits_val (unat base) ds = unat ?v" "ds \<noteq> []"
    "\<forall>d\<in>set ds. \<exists>k<unat base. d = digit ! k" by auto
  have s: "print_int u base sg = Some ((if ?neg then ''-'' else []) @ rev ds)" using ds(1) by (simp add: print_int_def Let_def)
  have hd: "take 1 (rev ds) \<noteq> ''-''"
  proof
    assume "take 1 (rev ds) = ''-''"
    then have "CHR ''-'' \<in> set ds" by (metis in_set_takeD list.set_intros(1) set_rev)
    then obtain k where "k < unat base" "CHR ''-'' = digit ! k" using ds(4) by blast
    then show False using digit_no_sign [of k] b(2) by simp
  qed
  have val: "(if ?neg then - int (unat ?v) else int (unat ?v)) = (if sg then sint u else uint u)"
  proof (cases ?neg)
    case True
    then have n: "sint u < 0" by (simp add: word_sless_alt)
    have "uint (- u) = - sint u"
    proof -
      have "- u = word_of_int (- sint u)" by simp
      then have "uint (- u) = (- sint u) mod 2 ^ 64" using uint_word_of_int [where 'a = 64, of "- sint u"] by simp
      also have "\<dots> = - sint u" using n sint_ge [of u] by (intro mod_pos_pos_trivial) simp_all
      finally show ?thesis .
    qed
    then show ?thesis using True by simp
  next
    case False
    have "uint u = sint u" if "0 \<le> sint u"
    proof -
      have "uint u = (sint u) mod 2 ^ 64" using uint_word_of_int [where 'a = 64, of "sint u"] by simp
      also have "\<dots> = sint u" using that sint_lt [of u] by (intro mod_pos_pos_trivial) simp_all
      finally show ?thesis .
    qed
    with False show ?thesis by (auto simp: word_sless_alt)
  qed
  show ?thesis
    using s ds(2) hd val by (cases ?neg) (auto simp: text_val_def)
qed

text \<open>Text without conversions is put out as it is.\<close>

lemma vformat_plain:
  "CHR ''%'' \<notin> set s \<Longrightarrow> vformat (s @ pos) as = map_option (\<lambda>r. s @ r) (vformat pos as)"
proof (induction s)
  case Nil
  then show ?case by (simp add: option.map_ident)
next
  case (Cons c s)
  then show ?case by (cases "vformat pos as") auto
qed

text \<open>The integer conversions, with the number they show.\<close>

datatype ikind = U | LLU | D | LLD | X | LLX | P | ZU | ZD

fun ispec :: "ikind \<Rightarrow> string" where
  "ispec U = ''u''" | "ispec LLU = ''llu''" | "ispec D = ''d''" | "ispec LLD = ''lld''" | "ispec X = ''x''"
| "ispec LLX = ''llx''" | "ispec P = ''p''" | "ispec ZU = ''zu''" | "ispec ZD = ''zd''"

fun ivalue :: "ikind \<Rightarrow> u64 \<Rightarrow> int" where
  "ivalue U x = uint (ucast x :: u32)" | "ivalue LLU x = uint x" | "ivalue D x = sint (ucast x :: u32)" | "ivalue LLD x = sint x"
| "ivalue X x = uint (ucast x :: u32)" | "ivalue LLX x = uint x" | "ivalue P x = uint x" | "ivalue ZU x = uint x" | "ivalue ZD x = sint x"

fun ibase :: "ikind \<Rightarrow> nat" where
  "ibase X = 16" | "ibase LLX = 16" | "ibase P = 16" | "ibase _ = 10"

fun iread :: "ikind \<Rightarrow> u64 \<Rightarrow> u64" where
  "iread U = as_u32" | "iread D = as_i32" | "iread X = as_u32" | "iread _ = id"

definition isigned :: "ikind \<Rightarrow> bool" where "isigned k \<longleftrightarrow> k \<in> {D, LLD, ZD}"

lemma sint_scast_u32: "sint (scast (y :: u32) :: u64) = sint y"
proof -
  have "- (2 ^ 63) \<le> sint y" "sint y < 2 ^ 63" using sint_ge [of y] sint_lt [of y] by simp_all
  then show ?thesis by (simp add: signed_scast_eq signed_take_bit_int_eq_self_iff)
qed

lemma uint_ucast_u32: "uint (ucast (y :: u32) :: u64) = uint y"
  using uint_lt2p [of y] by (simp add: unsigned_ucast_eq take_bit_int_eq_self_iff)

lemma conv_of_int: "conv_of (ispec k @ pos) = Some (ispec k, IntC (iread k) (of_nat (ibase k)) (isigned k))"
  by (cases k) (simp_all add: conv_of_def conversions_def isigned_def)

lemma ivalue_read: "ivalue k x = (if isigned k then sint (iread k x) else uint (iread k x))"
proof -
  have "sint (scast (ucast x :: u32) :: u64) = sint (ucast x :: u32)" by (rule sint_scast_u32)
  moreover have "uint (ucast (ucast x :: u32) :: u64) = uint (ucast x :: u32)" by (rule uint_ucast_u32)
  ultimately show ?thesis by (cases k) (simp_all add: isigned_def as_u32_def as_i32_def)
qed

text \<open>
  C39: What \<open>printk\<close> puts out for a number.  After any text without \<open>%\<close>, each of the nine integer conversions
  takes one argument and puts out a text whose value in its base, with its sign, is the number in the
  bits of its type, the least number included, and goes on with the rest of the format and of the
  arguments; the buffer of 64 digits is never too small.
\<close>

theorem printk_int:
  assumes "CHR ''%'' \<notin> set pre" "vformat post as = Some r"
  shows "\<exists>s. vformat (pre @ ''%'' @ ispec k @ post) (VInt x # as) = Some (pre @ s @ r) \<and> text_val (ibase k) s = ivalue k x"
proof -
  have b: "of_nat (ibase k) = (10 :: u64) \<or> of_nat (ibase k) = (16 :: u64)" "unat (of_nat (ibase k) :: u64) = ibase k" by (cases k; simp)+
  obtain s where s: "print_int (iread k x) (of_nat (ibase k)) (isigned k) = Some s" "text_val (ibase k) s = ivalue k x"
    using print_int_val [OF b(1), of "iread k x" "isigned k"] b(2) ivalue_read by auto
  have "vformat (''%'' @ ispec k @ post) (VInt x # as) = Some (s @ r)" using conv_of_int s(1) assms(2) by simp
  then show ?thesis using vformat_plain [OF assms(1)] s(2) by auto
qed

theorem printk_int_witness:
  "\<exists>s. vformat ''pid %d.'' [VInt 0x80000000] = Some (''pid '' @ s @ ''.'') \<and> text_val 10 s = - 2147483648"
proof -
  have "vformat ''.'' [] = Some ''.''" by simp
  from printk_int [OF _ this, of "''pid ''" D "0x80000000"] show ?thesis by simp
qed

end
