(* ===== verification/Console.thy ===== *)
theory Console
  imports Prelude
begin

text \<open>
  The console (\<open>kernel/console.c\<close>) and \<open>uart_put_char\<close> of \<open>driver/uart.c\<close>.  The indices are 64-bit
  words, as \<open>usize\<close>; \<open>cout\<close> is what was put out, \<open>ilocked\<close> whether the inode of the console is locked.
  A \<open>char\<close> is a byte without sign, as in the procedure call standard of the processor.
\<close>

section \<open>State\<close>

definition INPUT_BUF :: nat where "INPUT_BUF = 128"

record console =
  cbuf :: "u8 list"
  cr :: usize
  cw :: usize
  ce :: usize
  cout :: "u8 list"
  ilocked :: bool

text \<open>\<open>C(x)\<close>: a control character, by the code of its letter.\<close>

definition ctrl :: "u8 \<Rightarrow> u8" where "ctrl x = x - 0x40"

definition ctrl_D :: u8 where "ctrl_D = ctrl 0x44"

definition ctrl_U :: u8 where "ctrl_U = ctrl 0x55"

definition slot :: "usize \<Rightarrow> nat" where "slot i = unat (i mod of_nat INPUT_BUF)"

definition uart_put_char :: "u8 \<Rightarrow> console \<Rightarrow> console" where
  "uart_put_char c s = s\<lparr>cout := cout s @ (if c = 0x0A then [c, 0x0D] else [c])\<rparr>"

section \<open>Reading and writing\<close>

fun put_all :: "u8 list \<Rightarrow> console \<Rightarrow> console" where
  "put_all [] s = s"
| "put_all (c # cs) s = put_all cs (uart_put_char c s)"

definition console_write :: "u8 list \<Rightarrow> console \<Rightarrow> nat \<times> console" where
  "console_write data s = (length data, (put_all data (s\<lparr>ilocked := False\<rparr>))\<lparr>ilocked := True\<rparr>)"

text \<open>The loop of \<open>console_read\<close>: \<open>i\<close> is the loop variable, \<open>k\<close> the rounds left, \<open>dst\<close> what was read.\<close>

fun read_loop :: "nat \<Rightarrow> nat \<Rightarrow> u8 list \<Rightarrow> console \<Rightarrow> u8 list \<times> console" where
  "read_loop 0 i dst s = (dst, s)"
| "read_loop (Suc k) i dst s =
     (if cr s + of_nat i = cw s then (dst, s)
      else let data = cbuf s ! slot (cr s + 1); s1 = s\<lparr>cr := (cr s + 1) mod of_nat INPUT_BUF\<rparr>; dst1 = dst @ [data]
           in if data = ctrl_D then (dst1, s1) else read_loop k (i + 1) dst1 s1)"

definition console_read :: "nat \<Rightarrow> console \<Rightarrow> nat \<times> u8 list \<times> console" where
  "console_read n s = (let (dst, s1) = read_loop n 0 [] (s\<lparr>ilocked := False\<rparr>) in (length dst, dst, s1))"

section \<open>Input\<close>

text \<open>
  The loop of control-U; a round that does not end the loop goes on, and running out of \<open>fuel\<close> is
  \<^const>\<open>None\<close>.
\<close>

fun kill_line :: "nat \<Rightarrow> console \<Rightarrow> console option" where
  "kill_line 0 s = None"
| "kill_line (Suc fuel) s =
     (if ce s = cw s then Some s
      else let s1 = uart_put_char 0x08 (s\<lparr>ce := (ce s - 1) mod of_nat INPUT_BUF\<rparr>); c = cbuf s1 ! slot (ce s1)
           in if c = 0x0A \<or> c = ctrl_D then Some s1 else kill_line fuel s1)"

text \<open>The body of the loop of \<open>console_intr\<close> for one character.\<close>

definition intr_char :: "nat \<Rightarrow> u8 \<Rightarrow> console \<Rightarrow> console option" where
  "intr_char fuel data s =
     (if data = ctrl_D then
        Some (if (ce s + 1) mod of_nat INPUT_BUF = cr s then s else uart_put_char data (s\<lparr>cw := ce s\<rparr>))
      else if data = ctrl_U then
        map_option (\<lambda>s. uart_put_char 0x08 (uart_put_char 0x20 s)) (kill_line fuel s)
      else if data = 0x7F then
        Some (if ce s \<noteq> cw s
              then uart_put_char 0x08 (uart_put_char 0x20 (uart_put_char 0x08 (s\<lparr>ce := (ce s - 1) mod of_nat INPUT_BUF\<rparr>)))
              else s)
      else Some (if ce s - cr s < of_nat INPUT_BUF
                 then s\<lparr>cbuf := (cbuf s)[slot (ce s) := data], ce := ce s + 1\<rparr> else s))"

text \<open>
  \<open>console_intr\<close>: \<open>getc k\<close> is the result of the \<open>k\<close>-th call of \<open>getc\<close>.  The test of the loop promotes the
  character to an \<open>int\<close> and compares it with -1.
\<close>

fun console_intr :: "nat \<Rightarrow> (nat \<Rightarrow> u8) \<Rightarrow> nat \<Rightarrow> console \<Rightarrow> console option" where
  "console_intr 0 getc k s = None"
| "console_intr (Suc fuel) getc k s =
     (let data = getc k
      in if uint data \<noteq> - 1 then (case intr_char fuel data s of None \<Rightarrow> None | Some s1 \<Rightarrow> console_intr fuel getc (k + 1) s1)
         else Some s)"

section \<open>Properties\<close>

lemma unsigned_char_never_minus_one: "uint (c :: u8) \<noteq> - 1"
  using uint_ge_0 [of c] by linarith

text \<open>
  \<open>console_intr\<close> never returns.  A \<open>char\<close> is never -1, so the loop that should end when the device has
  no more characters goes on, whatever the device delivers; the value 0xFF that \<open>uart_get_char\<close> returns
  then goes into the buffer until it is full.
\<close>

theorem console_intr_never_returns:
  "console_intr fuel getc k s = None
     \<and> intr_char fuel 0xFF s = Some (if ce s - cr s < of_nat INPUT_BUF
          then s\<lparr>cbuf := (cbuf s)[slot (ce s) := 0xFF], ce := ce s + 1\<rparr> else s)"
proof -
  have "console_intr fuel getc k s = None"
    by (induction fuel arbitrary: k s) (auto simp: Let_def unsigned_char_never_minus_one split: option.splits)
  then show ?thesis by (simp add: intr_char_def ctrl_D_def ctrl_U_def ctrl_def)
qed

lemma slot_small: "k < 128 \<Longrightarrow> slot (of_nat k) = k"
proof -
  assume k: "k < 128"
  then have "unat (of_nat k :: usize) = k" by (simp add: unat_of_nat_u64)
  then show "slot (of_nat k) = k" using k by (simp add: slot_def INPUT_BUF_def unat_mod)
qed

lemma read_loop_past_end:
  assumes no_eof: "\<forall>j. 1 \<le> j \<and> j \<le> n \<longrightarrow> b ! j \<noteq> ctrl_D" and n: "n \<le> 127" "length b = 128" and w: "odd (unat w)"
  shows "j \<le> n \<Longrightarrow> k = n - j \<Longrightarrow> cbuf s = b \<Longrightarrow> cr s = of_nat j \<Longrightarrow> cw s = w \<Longrightarrow>
    read_loop k j (map (\<lambda>i. b ! (i + 1)) [0..<j]) s = (map (\<lambda>i. b ! (i + 1)) [0..<n], s\<lparr>cr := of_nat n\<rparr>)"
proof (induction k arbitrary: j s)
  case 0
  then show ?case by simp
next
  case (Suc k)
  have j: "j < n" using Suc.prems(2) by simp
  have "unat (of_nat j + of_nat j :: usize) = 2 * j" using j n(1) unat_of_nat_u64 [of "j + j"] by (simp del: of_nat_add add: of_nat_add [symmetric])
  then have ne: "cr s + of_nat j \<noteq> cw s" using w Suc.prems(4,5) by (metis dvd_triv_left)
  have sl: "slot (cr s + 1) = j + 1" using slot_small [of "j + 1"] j n(1) Suc.prems(4) by (simp add: add.commute)
  have m: "(cr s + 1) mod of_nat INPUT_BUF = of_nat (j + 1)"
  proof -
    have "unat ((cr s + 1) mod of_nat INPUT_BUF) = j + 1" using sl by (simp add: slot_def)
    then show ?thesis by (metis of_nat_unat_u64)
  qed
  have d: "cbuf s ! slot (cr s + 1) \<noteq> ctrl_D" using no_eof sl Suc.prems(3) j by simp
  have "read_loop (Suc k) j (map (\<lambda>i. b ! (i + 1)) [0..<j]) s
      = read_loop k (j + 1) (map (\<lambda>i. b ! (i + 1)) [0..<j + 1]) (s\<lparr>cr := of_nat (j + 1)\<rparr>)"
    using ne d m Suc.prems(3) sl by (simp add: Let_def)
  also have "\<dots> = (map (\<lambda>i. b ! (i + 1)) [0..<n], s\<lparr>cr := of_nat n\<rparr>)"
  proof -
    have "k = n - (j + 1)" "j + 1 \<le> n" using Suc.prems(2) j by simp_all
    then show ?thesis using Suc.IH [of "j + 1" "s\<lparr>cr := of_nat (j + 1)\<rparr>"] Suc.prems(3,5) by simp
  qed
  finally show ?case .
qed

text \<open>
  C40: \<open>console_read\<close> does not stop at the end of the input.  The loop moves the read index and adds the loop
  variable to it as well, so with an odd number of characters committed it never meets the write index:
  a read of up to 127 bytes returns them all, starting with the second character and going on with
  whatever the buffer holds behind the input, and the inode it unlocked stays unlocked.
\<close>

theorem console_read_past_end:
  assumes "length (cbuf s) = INPUT_BUF" "cr s = 0" "odd (unat (cw s))" "n \<le> 127" "ctrl_D \<notin> set (cbuf s)"
  shows "console_read n s = (n, map (\<lambda>i. cbuf s ! (i + 1)) [0..<n], s\<lparr>cr := of_nat n, ilocked := False\<rparr>)"
proof -
  have "\<forall>j. 1 \<le> j \<and> j \<le> n \<longrightarrow> cbuf s ! j \<noteq> ctrl_D"
  proof (intro allI impI)
    fix j assume "1 \<le> j \<and> j \<le> n"
    then have "cbuf s ! j \<in> set (cbuf s)" using assms(1,4) by (intro nth_mem) (simp add: INPUT_BUF_def)
    then show "cbuf s ! j \<noteq> ctrl_D" using assms(5) by metis
  qed
  from read_loop_past_end [OF this assms(4) _ assms(3), of 0 n "s\<lparr>ilocked := False\<rparr>"] assms(1,2) show ?thesis
    by (simp add: console_read_def INPUT_BUF_def)
qed

theorem console_read_past_end_witness:
  "let s = \<lparr>cbuf = 0x61 # replicate 127 0x78, cr = 0, cw = 1, ce = 1, cout = [], ilocked = True\<rparr>
   in fst (snd (console_read 3 s)) = [0x78, 0x78, 0x78] \<and> \<not> ilocked (snd (snd (console_read 3 s)))"
proof -
  let ?s = "\<lparr>cbuf = 0x61 # replicate 127 0x78, cr = 0, cw = 1, ce = 1, cout = [], ilocked = True\<rparr>"
  have "ctrl_D \<notin> set (cbuf ?s)" by (simp add: ctrl_D_def ctrl_def)
  from console_read_past_end [of ?s 3, OF _ _ _ _ this] show ?thesis
    by (simp add: INPUT_BUF_def Let_def upt_rec)
qed

end
