(* ===== verification/Trap.thy ===== *)
theory Trap
  imports Proc_Exit
begin

text \<open>
  The way into the kernel: traps (\<open>aarch64/trap.c\<close>), interrupts (\<open>driver/interrupt.c\<close>), the dispatch of
  system calls (\<open>kernel/syscall.c\<close>) and the system calls of \<open>kernel/sysproc.c\<close>.  Device registers are
  arguments.  A handler is a function of the kernel state; \<^const>\<open>None\<close> is a panic or a fault.
\<close>

unbundle bit_operations_syntax

section \<open>Interrupts\<close>

type_synonym 'st handler = "'st \<Rightarrow> 'st option"

definition NUM_IRQ_TYPES :: nat where "NUM_IRQ_TYPES = 64"

definition IRQ_SRC_CNTPNSIRQ :: u32 where "IRQ_SRC_CNTPNSIRQ = push_bit 1 1"

definition IRQ_SRC_GPU :: u32 where "IRQ_SRC_GPU = push_bit 8 1"

definition init_interrupt :: "nat \<Rightarrow> 'st handler option" where
  "init_interrupt = (\<lambda>i. None)"

text \<open>\<open>set_interrupt_handler\<close>: the register it writes, as an offset, the value, and the new table.\<close>

definition set_interrupt_handler :: "nat \<Rightarrow> 'st handler \<Rightarrow> (nat \<Rightarrow> 'st handler option) \<Rightarrow> nat \<times> u32 \<times> (nat \<Rightarrow> 'st handler option)" where
  "set_interrupt_handler type handler h = (4 * (type div 32), push_bit (type mod 32) 1, h(type := Some handler))"

fun gpu_loop :: "(nat \<Rightarrow> 'st handler option) \<Rightarrow> u64 \<Rightarrow> nat list \<Rightarrow> 'st handler" where
  "gpu_loop h m [] st = Some st"
| "gpu_loop h m (i # is) st =
     (if drop_bit i m AND 1 \<noteq> 0
      then (case h i of None \<Rightarrow> PANIC | Some f \<Rightarrow> do { st1 \<leftarrow> f st; gpu_loop h m is st1 })
      else gpu_loop h m is st)"

definition interrupt_global_handler ::
    "(nat \<Rightarrow> 'st handler option) \<Rightarrow> 'st handler option \<Rightarrow> u32 \<Rightarrow> u32 \<Rightarrow> u32 \<Rightarrow> 'st handler" where
  "interrupt_global_handler h clock source pending1 pending2 st =
     do { (source, st) \<leftarrow> (if source AND IRQ_SRC_CNTPNSIRQ \<noteq> 0
                           then (case clock of None \<Rightarrow> PANIC
                                 | Some f \<Rightarrow> do { st1 \<leftarrow> f st; Some (source XOR IRQ_SRC_CNTPNSIRQ, st1) })
                           else Some (source, st));
          (source, st) \<leftarrow> (if source AND IRQ_SRC_GPU \<noteq> 0
                           then do { st1 \<leftarrow> gpu_loop h (ucast pending1 OR push_bit 32 (ucast pending2)) [0..<NUM_IRQ_TYPES] st;
                                     Some (source XOR IRQ_SRC_GPU, st1) }
                           else Some (source, st));
          ASSERT (source = 0);
          Some st }"

text \<open>The reference: the clock, then the handler of every pending line in order, and nothing unknown.\<close>

fun run_all :: "'st handler option list \<Rightarrow> 'st handler" where
  "run_all [] st = Some st"
| "run_all (None # fs) st = None"
| "run_all (Some f # fs) st = (case f st of None \<Rightarrow> None | Some st1 \<Rightarrow> run_all fs st1)"

definition pending_lines :: "u32 \<Rightarrow> u32 \<Rightarrow> nat list" where
  "pending_lines p1 p2 = filter (\<lambda>i. bit p1 i) [0..<32] @ map (\<lambda>i. i + 32) (filter (\<lambda>i. bit p2 i) [0..<32])"

definition serve :: "(nat \<Rightarrow> 'st handler option) \<Rightarrow> 'st handler option \<Rightarrow> u32 \<Rightarrow> u32 \<Rightarrow> u32 \<Rightarrow> 'st handler" where
  "serve h clock source p1 p2 st =
     (if \<exists>i<32. bit source i \<and> i \<noteq> 1 \<and> i \<noteq> 8 then None
      else run_all ((if bit source 1 then [clock] else []) @ (if bit source 8 then map h (pending_lines p1 p2) else [])) st)"

lemma run_all_append: "run_all (fs @ gs) st = (case run_all fs st of None \<Rightarrow> None | Some st1 \<Rightarrow> run_all gs st1)"
  by (induction fs st rule: run_all.induct) (auto split: option.splits)

lemma gpu_loop_filter: "gpu_loop h m is st = run_all (map h (filter (bit m) is)) st"
  by (induction h m "is" st rule: gpu_loop.induct)
    (auto simp: bit_iff_odd_drop_bit and_one_eq odd_iff_mod_2_eq_one PANIC_def Option.bind_eq_None_conv split: option.splits)

lemma bit_mask_test: "w AND push_bit n 1 \<noteq> 0 \<longleftrightarrow> bit w n" for w :: u32
  by (simp add: bit_iff_and_push_bit_not_eq_0)

lemma pending_lines_bits: "filter (bit (ucast p1 OR push_bit 32 (ucast p2) :: u64)) [0..<64] = pending_lines p1 p2"
proof -
  have s: "[0..<64] = [0..<32] @ map (\<lambda>i. i + 32) [0..<32]" by (simp add: upt_rec)
  have "filter (bit (ucast p1 OR push_bit 32 (ucast p2) :: u64)) [0..<32] = filter (\<lambda>i. bit p1 i) [0..<32]"
    by (intro filter_cong refl) (auto simp: bit_simps)
  moreover have "filter (bit (ucast p1 OR push_bit 32 (ucast p2) :: u64)) (map (\<lambda>i. i + 32) [0..<32])
      = map (\<lambda>i. i + 32) (filter (\<lambda>i. bit p2 i) [0..<32])"
    unfolding filter_map o_def by (intro arg_cong2 [where f = map] filter_cong refl) (auto simp: bit_simps dest: bit_imp_le_length)
  ultimately show ?thesis unfolding s filter_append pending_lines_def by simp
qed

lemma bit_xor_mask:
  fixes w :: u32 assumes "k < 32" "bit w k" shows "bit (w XOR push_bit k 1) i \<longleftrightarrow> bit w i \<and> i \<noteq> k"
proof -
  have "bit (push_bit k 1 :: u32) i \<longleftrightarrow> i = k" using assms(1) by (auto simp: bit_simps)
  then show ?thesis using assms(2) by (auto simp: bit_xor_iff)
qed

lemma source_left:
  fixes source :: u32
  defines "s1 \<equiv> (if bit source 1 then source XOR push_bit 1 1 else source)"
  defines "s2 \<equiv> (if bit s1 8 then s1 XOR push_bit 8 1 else s1)"
  shows "bit s1 8 \<longleftrightarrow> bit source 8" "s2 = 0 \<longleftrightarrow> \<not> (\<exists>i<32. bit source i \<and> i \<noteq> 1 \<and> i \<noteq> 8)"
proof -
  have b1: "bit s1 i \<longleftrightarrow> bit source i \<and> i \<noteq> 1" for i using bit_xor_mask [of 1 source i] by (auto simp: s1_def)
  then show "bit s1 8 \<longleftrightarrow> bit source 8" by simp
  have b2: "bit s2 i \<longleftrightarrow> bit source i \<and> i \<noteq> 1 \<and> i \<noteq> 8" for i using bit_xor_mask [of 8 s1 i] b1 by (auto simp: s2_def)
  show "s2 = 0 \<longleftrightarrow> \<not> (\<exists>i<32. bit source i \<and> i \<noteq> 1 \<and> i \<noteq> 8)"
    using b2 by (auto simp: bit_eq_iff)
qed

text \<open>
  C38: \<open>interrupt_global_handler\<close> is its reference: when a source other than the core timer and the GPU is
  set it panics; otherwise it runs the clock handler if the timer is set, and then, if the GPU is set,
  the handlers of exactly the pending lines of both registers, each once and in the order of their
  numbers, and panics at a pending line without one.
\<close>

theorem interrupt_serves_pending:
  "interrupt_global_handler h clock source p1 p2 st = serve h clock source p1 p2 st"
proof -
  let ?s1 = "if bit source 1 then source XOR push_bit 1 1 else source"
  let ?s2 = "if bit ?s1 8 then ?s1 XOR push_bit 8 1 else ?s1"
  note S = source_left [of source]
  have e: "interrupt_global_handler h clock source p1 p2 st =
      (case run_all (if bit source 1 then [clock] else []) st of None \<Rightarrow> None
       | Some st1 \<Rightarrow> (case run_all (if bit source 8 then map h (pending_lines p1 p2) else []) st1 of None \<Rightarrow> None
          | Some st2 \<Rightarrow> if ?s2 = 0 then Some st2 else None))"
    using S(1) unfolding interrupt_global_handler_def IRQ_SRC_CNTPNSIRQ_def IRQ_SRC_GPU_def bit_mask_test gpu_loop_filter NUM_IRQ_TYPES_def
      pending_lines_bits
    by (auto simp: PANIC_def ASSERT_def Option.bind_eq_None_conv split: option.splits if_splits)
  show ?thesis unfolding e serve_def run_all_append S(2) by (auto split: option.splits)
qed

end
