(* ===== verification/Syscall.thy ===== *)
theory Syscall
  imports Trap Sysfile
begin

text \<open>
  The dispatch of system calls (\<open>kernel/syscall.c\<close>), the calls of \<open>kernel/sysproc.c\<close> and the trap handler
  (\<open>aarch64/trap.c\<close>).  A call returns a value at once, or when the process is scheduled again, or sleeps
  first, or ends the process, or spins for ever.  A call that ends the process is in \<open>exit\<close>, and its
  state is the one in which \<open>exit\<close> has given up \<open>treelock\<close>: the last step, \<open>Proc.exit_end\<close>, is still to come,
  and other processors may run before it.  \<open>fork\<close> and \<open>execve\<close> have no body in the source; they
  are arguments, and so are the numbers that the header of the C library gives.
\<close>

section \<open>Dispatch\<close>

record UserContext =
  spsr :: u64
  elr :: u64
  ttbr0 :: u64
  usp :: u64
  x0 :: u64
  xs :: "u64 list"

datatype 'st outcome = Returns u64 'st | ReturnsLater u64 'st | Sleeps 'st | Ends 'st | Spins 'st

type_synonym 'st syscall = "u64 list \<Rightarrow> 'st \<Rightarrow> 'st outcome option"




section \<open>sysproc.c\<close>

text \<open>An \<open>int\<close> argument: the low half of its register.\<close>

definition int_arg :: "nat \<Rightarrow> u64 list \<Rightarrow> int" where
  "int_arg i as = sint (ucast (as ! i) :: u32)"

definition sys_gettid :: "nat \<Rightarrow> procst syscall" where
  "sys_gettid c as st = Some (Returns (of_int (ppid (procs st (this_proc c st)))) st)"

definition sys_set_tid_address :: "nat \<Rightarrow> procst syscall" where
  "sys_set_tid_address c as st = Some (Returns (of_int (ppid (procs st (this_proc c st)))) st)"

definition sys_sigprocmask :: "procst syscall" where "sys_sigprocmask as st = Some (Returns 0 st)"

definition sys_rt_sigprocmask :: "procst syscall" where "sys_rt_sigprocmask as st = Some (Returns 0 st)"

definition sys_yield :: "nat \<Rightarrow> u64 \<Rightarrow> procst syscall" where
  "sys_yield c now as st = do { s \<leftarrow> simple_sched c now RUNNABLE (tsched st); Some (ReturnsLater 0 (st\<lparr>tsched := s\<rparr>)) }"

definition sys_myyield :: "nat \<Rightarrow> u64 \<Rightarrow> procst syscall" where
  "sys_myyield c now as st = do { s \<leftarrow> simple_sched c now RUNNABLE (tsched st); Some (ReturnsLater 0 (st\<lparr>tsched := s\<rparr>)) }"

definition sys_pstat :: "ptr \<Rightarrow> procst syscall" where
  "sys_pstat kend as st = Some (Returns (left_page_cnt kend (pmem st)) st)"

definition sys_sbrk :: "nat \<Rightarrow> procst syscall" where
  "sys_sbrk c as st =
     do { let this = this_proc c st;
          (r, pd, m) \<leftarrow> sbrk (as ! 0) (ppgdir (procs st this)) (pmem st);
          Some (Returns r ((upd_proc this (\<lambda>p. p\<lparr>ppgdir := pd\<rparr>) st)\<lparr>pmem := m\<rparr>)) }"

definition sys_clone :: "(procst \<Rightarrow> procst outcome option) \<Rightarrow> procst syscall" where
  "sys_clone fork as st = (if int_arg 0 as \<noteq> 17 then Some (Returns (- 1) st) else fork st)"

definition exit_call :: "nat \<Rightarrow> int \<Rightarrow> procst \<Rightarrow> procst outcome option" where
  "exit_call c code st = do { st1 \<leftarrow> exit_begin c code st; Some (Ends st1) }"

definition sys_myexit :: "nat \<Rightarrow> procst syscall" where "sys_myexit c as st = exit_call c (int_arg 0 as) st"

definition sys_exit :: "nat \<Rightarrow> procst syscall" where "sys_exit c as st = exit_call c (int_arg 0 as) st"

definition sys_exit_group :: "nat \<Rightarrow> procst syscall" where "sys_exit_group c as st = exit_call c (int_arg 0 as) st"

definition sys_execve :: "access \<Rightarrow> (u64 \<Rightarrow> u8) \<Rightarrow> (u64 \<Rightarrow> u64 \<Rightarrow> u64 \<Rightarrow> procst \<Rightarrow> procst outcome option) \<Rightarrow> procst syscall" where
  "sys_execve ur um execve as st =
     (if user_strlen ur um (as ! 0) 256 = 0 then Some (Returns (- 1) st) else execve (as ! 0) (as ! 1) (as ! 2) st)"

text \<open>\<open>w\<close> is the address of the \<open>WaitData\<close> when the call sleeps.\<close>

definition sys_wait4 :: "nat \<Rightarrow> u64 \<Rightarrow> ptr \<Rightarrow> procst syscall" where
  "sys_wait4 c now w as st =
     (if int_arg 0 as \<noteq> - 1 \<or> as ! 2 \<noteq> 0 \<or> int_arg 1 as \<noteq> 0 \<or> as ! 3 \<noteq> 0 then Some (Spins st)
      else do { (r, st1) \<leftarrow> wait_begin c now w st;
                case r of
                  NoChild \<Rightarrow> Some (Returns (- 1) st1)
                | Got \<Rightarrow> do { (pid, code, st2) \<leftarrow> wait_reap c st1; Some (Returns (of_int pid) st2) }
                | Asleep \<Rightarrow> Some (Sleeps st1) })"

text \<open>The table: the numbers of \<open>kernel/syscallno.h\<close>, and three of the C library's header.\<close>

definition proc_syscalls ::
    "nat \<Rightarrow> nat \<Rightarrow> nat \<Rightarrow> ptr \<Rightarrow> access \<Rightarrow> (u64 \<Rightarrow> u8) \<Rightarrow> (procst \<Rightarrow> procst outcome option) \<Rightarrow>
     (u64 \<Rightarrow> u64 \<Rightarrow> u64 \<Rightarrow> procst \<Rightarrow> procst outcome option) \<Rightarrow> nat \<Rightarrow> u64 \<Rightarrow> ptr \<Rightarrow> (nat \<times> procst syscall) list" where
  "proc_syscalls no_gettid no_set_tid no_rt kend ur um fork execve c now w =
     [(no_gettid, sys_gettid c), (no_set_tid, sys_set_tid_address c), (135, sys_sigprocmask), (no_rt, sys_rt_sigprocmask),
      (459, sys_myyield c now), (124, sys_yield c now), (500, sys_pstat kend), (12, sys_sbrk c), (220, sys_clone fork),
      (457, sys_myexit c), (93, sys_exit c), (94, sys_exit_group c), (221, sys_execve ur um execve), (260, sys_wait4 c now w)]"

section \<open>Traps\<close>



text \<open>
  \<open>trap_global_handler\<close> on processor \<open>c\<close>: the context and the outcome; \<open>Returns\<close> is the way back to
  where the trap came from.  A system call that switched away goes on when the process runs again, so
  the test of \<open>killed\<close> is made in the state then; here that is the state of the outcome.
\<close>

definition trap_exit :: "nat \<Rightarrow> UserContext \<Rightarrow> procst \<Rightarrow> (UserContext \<times> procst outcome) option" where
  "trap_exit c ctx st =
     (if pkilled (procs st (this_proc c st)) then do { r \<leftarrow> exit_call c (- 1) st; Some (ctx, r) }
      else Some (ctx, Returns 0 st))"


section \<open>Properties\<close>

lemma trap_exit_returns: "trap_exit c ctx st = Some (ctx', Returns v st') \<Longrightarrow> \<not> pkilled (procs st' (this_proc c st'))"
  by (auto simp: trap_exit_def exit_call_def bind_eq_Some_conv split: if_splits)








lemma example_running: "pstate example_sched 72 = RUNNING"
  using example_sched_facts(1,3) by (auto simp: sched_inv_def NCPU_def dest: spec [of _ 0])












end
