(* ===== verification/Kernel_Pt.thy ===== *)
theory Kernel_Pt
  imports Mmu
begin

text \<open>
  The page table the kernel boots with (\<open>aarch64/kernel_pt.c\<close>): three tables the linker places, at
  addresses that are arguments here.  Its last table maps 2 MB by each entry.  What the processor makes
  of the tables is stated as a walk of its own: the four levels of a 4 KB granule, with blocks at the
  second and the third.
\<close>

unbundle bit_operations_syntax

section \<open>The tables\<close>

definition MT_DEVICE_nGnRnE :: u64 where "MT_DEVICE_nGnRnE = 0"
definition PTE_DEVICE :: u64 where "PTE_DEVICE = push_bit 2 MT_DEVICE_nGnRnE OR AF_USED"
definition PTE_KERNEL_DATA :: u64 where "PTE_KERNEL_DATA = PTE_KERNEL OR PTE_NORMAL OR PTE_BLOCK"
definition PTE_KERNEL_DEVICE :: u64 where "PTE_KERNEL_DEVICE = PTE_KERNEL OR PTE_DEVICE OR PTE_BLOCK"

text \<open>The file lists all 512 entries: entry \<open>i\<close> maps \<open>i * 0x200000\<close>, the last eight as device memory.\<close>

definition kernel_pt_level3 :: "u64 list" where
  "kernel_pt_level3 =
     map (\<lambda>i. (of_nat i * 0x200000) OR (if i < 504 then PTE_KERNEL_DATA else PTE_KERNEL_DEVICE)) [0..<N_PTE_PER_TABLE]"

definition kernel_pt_level2 :: "u64 \<Rightarrow> u64 list" where
  "kernel_pt_level2 level3 =
     [K2P level3 + PTE_TABLE, 0x40000000 OR PTE_KERNEL_DEVICE, 0, 0xC0000000 OR PTE_KERNEL_DEVICE]
     @ replicate (N_PTE_PER_TABLE - 4) 0"

definition kernel_pt :: "u64 \<Rightarrow> u64 list" where
  "kernel_pt level2 = [K2P level2 + PTE_TABLE] @ replicate (N_PTE_PER_TABLE - 1) 0"

definition invalid_pt :: "u64 list" where "invalid_pt = replicate N_PTE_PER_TABLE 0"

section \<open>The walk of the processor\<close>

text \<open>The address behind an entry that maps \<open>2 ^ n\<close> bytes, and the index of its memory attributes.\<close>

definition walk_hit :: "nat \<Rightarrow> u64 \<Rightarrow> u64 \<Rightarrow> u64 \<times> u64" where
  "walk_hit n e va = ((PTE_ADDRESS e AND NOT (mask n)) OR (va AND mask n), drop_bit 2 e AND 7)"

text \<open>Levels are counted down to 0, where the entry maps a page; \<open>mem\<close> holds the tables by physical address.\<close>

fun walk :: "(u64 \<Rightarrow> u64 list option) \<Rightarrow> nat \<Rightarrow> u64 \<Rightarrow> u64 \<Rightarrow> (u64 \<times> u64) option" where
  "walk mem l table va =
     (case mem table of
        None \<Rightarrow> None
      | Some es \<Rightarrow>
          let e = es ! unat (drop_bit (12 + 9 * l) va AND 0x1FF)
          in if e AND 1 = 0 then None
             else if l = 0 then (if e AND 3 = PTE_PAGE then Some (walk_hit 12 e va) else None)
             else if e AND 3 = PTE_TABLE then walk mem (l - 1) (PTE_ADDRESS e) va
             else if l = 3 then None
             else Some (walk_hit (12 + 9 * l) e va))"

declare walk.simps [simp del]

definition boot_memory :: "u64 \<Rightarrow> u64 \<Rightarrow> u64 \<Rightarrow> u64 \<Rightarrow> u64 list option" where
  "boot_memory level1 level2 level3 =
     [K2P level1 \<mapsto> kernel_pt level2, K2P level2 \<mapsto> kernel_pt_level2 level3, K2P level3 \<mapsto> kernel_pt_level3]"

text \<open>Where the linker may place a table.\<close>

definition table_addr :: "u64 \<Rightarrow> bool" where
  "table_addr a \<longleftrightarrow> K2P a AND 0xFFFF000000000FFF = 0"

lemma addr_field: "(0xFFFF000000000FFF :: u64) = NOT (push_bit 12 (mask 36))"
  by (simp add: mask_eq_exp_minus_1 push_bit_eq_mult)

lemma three: "(3 :: u64) = mask 2" "(1 :: u64) = mask 1"
  by (simp_all add: mask_eq_exp_minus_1)

lemma table_bits:
  assumes "table_addr a" "bit (K2P a) i"
  shows "12 \<le> i \<and> i < 48"
proof -
  have "\<not> bit (K2P a AND NOT (push_bit 12 (mask 36))) i"
    using assms(1) by (simp add: table_addr_def addr_field)
  moreover have "i < 64"
    using assms(2) bit_imp_le_length by fastforce
  ultimately show ?thesis
    using assms(2) by (auto simp: bit_and_iff bit_not_iff bit_push_bit_iff bit_mask_iff)
qed

lemma table_entry:
  assumes "table_addr a"
  shows "PTE_ADDRESS (K2P a + PTE_TABLE) = K2P a" "(K2P a + PTE_TABLE) AND 3 = PTE_TABLE" "(K2P a + PTE_TABLE) AND 1 = 1"
proof -
  have "K2P a AND mask 2 = 0"
    using table_bits [OF assms] by (fastforce simp: bit_eq_iff bit_and_iff bit_mask_iff)
  then have eq: "K2P a + PTE_TABLE = K2P a OR mask 2"
    by (simp add: PTE_TABLE_def three(1) disjunctive_add_eq_or)
  have high: "i - 12 < 36" if "bit (K2P a) i" for i
    using table_bits [OF assms that] by arith
  show "PTE_ADDRESS (K2P a + PTE_TABLE) = K2P a"
    using table_bits [OF assms] high unfolding eq PTE_ADDRESS_def addr_field
    by (intro bit_word_eqI) (auto simp: bit_and_iff bit_or_iff bit_not_iff bit_push_bit_iff bit_mask_iff)
  show "(K2P a + PTE_TABLE) AND 3 = PTE_TABLE" "(K2P a + PTE_TABLE) AND 1 = 1"
    unfolding eq unfolding PTE_TABLE_def three
    by (auto intro!: bit_word_eqI simp: bit_and_iff bit_or_iff bit_mask_iff bit_1_iff)
qed

section \<open>Indices and blocks\<close>

lemma PSPACE_take: "PSPACE va = take_bit 48 va"
proof -
  have "NOT KSPACE_MASK = mask 48"
    by (simp add: KSPACE_MASK_def mask_eq_exp_minus_1)
  then show ?thesis
    by (simp add: PSPACE_def take_bit_eq_mask)
qed

lemma walk_index:
  assumes "n \<le> 39"
  shows "unat (drop_bit n va AND 0x1FF) = unat (PSPACE va) div 2 ^ n mod 512"
proof -
  have m: "(0x1FF :: u64) = mask 9"
    by (simp add: mask_eq_exp_minus_1)
  have "drop_bit n va AND mask 9 = take_bit 9 (drop_bit n (take_bit 48 va))"
    using assms by (intro bit_word_eqI) (auto simp: bit_and_iff bit_mask_iff bit_take_bit_iff bit_drop_bit_eq)
  then show ?thesis
    unfolding PSPACE_take m
    by (simp only: unsigned_take_bit_eq unsigned_drop_bit_eq)
      (simp add: take_bit_eq_mod drop_bit_eq_div div_mult2_eq mod_mult2_eq)
qed

lemma flag_bits_low:
  "PTE_KERNEL_DATA = 0x605" "PTE_KERNEL_DEVICE = 0x401"
  by (simp_all add: PTE_KERNEL_DATA_def PTE_KERNEL_DEVICE_def PTE_KERNEL_def PTE_NORMAL_def PTE_DEVICE_def PTE_BLOCK_def
      MT_NORMAL_def MT_DEVICE_nGnRnE_def AF_USED_def SH_OUTER_def)

lemma block_entry:
  assumes "12 \<le> n" "n < 48" "take_bit 12 f = f"
  shows "walk_hit n (push_bit n (drop_bit n (PSPACE va)) OR f) va = (PSPACE va, drop_bit 2 f AND 7)"
    and "(push_bit n (drop_bit n (PSPACE va)) OR f) AND 3 = f AND 3"
    and "(push_bit n (drop_bit n (PSPACE va)) OR f) AND 1 = f AND 1"
proof -
  have f: "i < 12" if "bit f i" for i
    using assms(3) that by (metis bit_take_bit_iff)
  have f': "\<not> bit f i" if "n \<le> i" for i
    using f [of i] assms(1) that by auto
  have seven: "(7 :: u64) = mask 3"
    by (simp add: mask_eq_exp_minus_1)
  show "walk_hit n (push_bit n (drop_bit n (PSPACE va)) OR f) va = (PSPACE va, drop_bit 2 f AND 7)"
    unfolding walk_hit_def PSPACE_take PTE_ADDRESS_def addr_field seven
    using assms(1,2) f f'
    by (auto intro!: bit_word_eqI simp: bit_and_iff bit_or_iff bit_not_iff bit_push_bit_iff bit_mask_iff bit_drop_bit_eq bit_take_bit_iff)
  show "(push_bit n (drop_bit n (PSPACE va)) OR f) AND 3 = f AND 3"
    "(push_bit n (drop_bit n (PSPACE va)) OR f) AND 1 = f AND 1"
    unfolding three PSPACE_take using assms(1)
    by (auto intro!: bit_word_eqI simp: bit_and_iff bit_or_iff bit_push_bit_iff bit_mask_iff bit_1_iff)
qed

section \<open>The direct map\<close>

lemma boot_lookup:
  assumes "distinct [level1, level2, level3]"
  shows "boot_memory level1 level2 level3 (K2P level1) = Some (kernel_pt level2)"
    "boot_memory level1 level2 level3 (K2P level2) = Some (kernel_pt_level2 level3)"
    "boot_memory level1 level2 level3 (K2P level3) = Some kernel_pt_level3"
  using assms by (auto simp: boot_memory_def K2P_def)

lemma level3_entry:
  assumes "unat (PSPACE va) < 2 ^ 30"
  shows "kernel_pt_level3 ! (unat (PSPACE va) div 2 ^ 21 mod 512) =
     push_bit 21 (drop_bit 21 (PSPACE va)) OR (if PSPACE va < 0x3f000000 then PTE_KERNEL_DATA else PTE_KERNEL_DEVICE)"
proof -
  let ?i = "unat (PSPACE va) div 2 ^ 21"
  have i: "?i < 512" "?i < 504 \<longleftrightarrow> unat (PSPACE va) < 0x3f000000"
    using assms by (simp_all add: less_mult_imp_div_less div_less_iff_less_mult)
  have "unat (drop_bit 21 (PSPACE va)) = ?i"
    by (simp only: unsigned_drop_bit_eq) (simp add: drop_bit_eq_div take_bit_nat_eq_self unsigned_less)
  then have "of_nat ?i = drop_bit 21 (PSPACE va)"
  proof -
    have "of_nat (unat w) = w" for w :: u64 by simp
    then show ?thesis using \<open>unat (drop_bit 21 (PSPACE va)) = ?i\<close> by metis
  qed
  then have "(of_nat ?i :: u64) * 0x200000 = push_bit 21 (drop_bit 21 (PSPACE va))"
    by (simp add: push_bit_eq_mult)
  then show ?thesis
    using i by (simp add: kernel_pt_level3_def N_PTE_PER_TABLE_def word_less_nat_alt)
qed

text \<open>One level of the walk, by the kind of the entry.\<close>

lemma walk_entry:
  assumes "mem t = Some es" "l \<le> 3" "es ! (unat (PSPACE va) div 2 ^ (12 + 9 * l) mod 512) = e"
  shows "walk mem l t va =
     (if e AND 1 = 0 then None
      else if l = 0 then (if e AND 3 = PTE_PAGE then Some (walk_hit 12 e va) else None)
      else if e AND 3 = PTE_TABLE then walk mem (l - 1) (PTE_ADDRESS e) va
      else if l = 3 then None
      else Some (walk_hit (12 + 9 * l) e va))"
proof -
  have "es ! unat (drop_bit (12 + 9 * l) va AND 0x1FF) = e"
    using walk_index [of "12 + 9 * l" va] assms(2,3) by (simp only:)
  with assms(1) show ?thesis
    by (subst walk.simps) (simp add: Let_def)
qed

lemma walk_table:
  assumes "mem t = Some es" "l \<le> 3" "0 < l" "table_addr a"
    "es ! (unat (PSPACE va) div 2 ^ (12 + 9 * l) mod 512) = K2P a + PTE_TABLE"
  shows "walk mem l t va = walk mem (l - 1) (K2P a) va"
  using walk_entry [of mem t es l va "K2P a + PTE_TABLE", OF assms(1,2,5)] table_entry [OF assms(4)] assms(3) by simp

lemma walk_zero:
  assumes "mem t = Some es" "l \<le> 3" "es ! (unat (PSPACE va) div 2 ^ (12 + 9 * l) mod 512) = 0"
  shows "walk mem l t va = None"
  using walk_entry [of mem t es l va 0, OF assms] by simp

lemma walk_block:
  assumes "mem t = Some es" "l = 1 \<or> l = 2" "f = PTE_KERNEL_DATA \<or> f = PTE_KERNEL_DEVICE"
    "es ! (unat (PSPACE va) div 2 ^ (12 + 9 * l) mod 512) = push_bit (12 + 9 * l) (drop_bit (12 + 9 * l) (PSPACE va)) OR f"
  shows "walk mem l t va = Some (PSPACE va, if f = PTE_KERNEL_DATA then MT_NORMAL else MT_DEVICE_nGnRnE)"
proof -
  have f: "take_bit 12 f = f" "f AND 3 = 1" "f AND 1 = 1"
    "drop_bit 2 f AND 7 = (if f = PTE_KERNEL_DATA then MT_NORMAL else MT_DEVICE_nGnRnE)"
    using assms(3) by (auto simp: flag_bits_low MT_NORMAL_def MT_DEVICE_nGnRnE_def take_bit_eq_mask mask_eq_exp_minus_1)
  have l: "12 \<le> 12 + 9 * l" "12 + 9 * l < 48" "l \<le> 3" "l \<noteq> 0" "l \<noteq> 3"
    using assms(2) by auto
  show ?thesis
    using walk_entry [of mem t es l va "push_bit (12 + 9 * l) (drop_bit (12 + 9 * l) (PSPACE va)) OR f", OF assms(1) l(3) assms(4)] block_entry [OF l(1,2) f(1), of va] f l
    by (simp add: PTE_TABLE_def)
qed

lemma level2_block:
  assumes "unat (PSPACE va) div 2 ^ 30 = k" "k = 1 \<or> k = 3"
  shows "kernel_pt_level2 l3 ! (unat (PSPACE va) div 2 ^ 30 mod 512) = push_bit 30 (drop_bit 30 (PSPACE va)) OR PTE_KERNEL_DEVICE"
proof -
  have "unat (drop_bit 30 (PSPACE va)) = k"
    using assms(1) by (simp only: unsigned_drop_bit_eq) (simp add: drop_bit_eq_div take_bit_nat_eq_self unsigned_less)
  then have "drop_bit 30 (PSPACE va) = of_nat k"
    by (metis of_nat_unat ucast_id)
  then show ?thesis
    using assms by (auto simp: kernel_pt_level2_def push_bit_eq_mult)
qed

lemma direct_map_walk:
  assumes "distinct [level1, level2, level3]" "table_addr level2" "table_addr level3" "unat (PSPACE va) = n"
  shows "walk (boot_memory level1 level2 level3) 3 (K2P level1) va =
     (if n < 2 ^ 30 then Some (PSPACE va, if n < 0x3f000000 then MT_NORMAL else MT_DEVICE_nGnRnE)
      else if n div 2 ^ 30 = 1 \<or> n div 2 ^ 30 = 3 then Some (PSPACE va, MT_DEVICE_nGnRnE) else None)"
proof -
  let ?m = "boot_memory level1 level2 level3"
  note tables = boot_lookup [OF assms(1)]
  have bound: "n < 2 ^ 48"
    unfolding assms(4) [symmetric] PSPACE_take by (simp only: unsigned_take_bit_eq) (simp add: take_bit_eq_mod)
  show ?thesis
  proof (cases "n < 2 ^ 39")
    case False
    then have "n div 2 ^ 30 \<ge> 512"
      by (simp add: less_eq_div_iff_mult_less_eq)
    from False have "0 < n div 2 ^ 39" "n div 2 ^ 39 < 512"
      using bound by (auto simp: div_greater_zero_iff less_mult_imp_div_less)
    then have "walk ?m 3 (K2P level1) va = None"
      using walk_zero [of ?m "K2P level1" "kernel_pt level2" 3 va, OF tables(1)]
      by (simp add: assms(4) kernel_pt_def N_PTE_PER_TABLE_def nth_Cons' )
    then show ?thesis
      using False \<open>n div 2 ^ 30 \<ge> 512\<close> by auto
  next
    case True
    then have top: "n div 2 ^ 39 = 0" and mid: "n div 2 ^ 30 < 512"
      by (auto simp: less_mult_imp_div_less)
    have "walk ?m 3 (K2P level1) va = walk ?m 2 (K2P level2) va"
      using walk_table [of ?m "K2P level1" "kernel_pt level2" 3 level2 va, OF tables(1) _ _ assms(2)] top
      by (simp add: assms(4) kernel_pt_def)
    also have "\<dots> = (if n < 2 ^ 30 then Some (PSPACE va, if n < 0x3f000000 then MT_NORMAL else MT_DEVICE_nGnRnE)
      else if n div 2 ^ 30 = 1 \<or> n div 2 ^ 30 = 3 then Some (PSPACE va, MT_DEVICE_nGnRnE) else None)"
    proof (cases "n < 2 ^ 30")
      case True
      have "walk ?m 2 (K2P level2) va = walk ?m 1 (K2P level3) va"
        using walk_table [of ?m "K2P level2" "kernel_pt_level2 level3" 2 level3 va, OF tables(2) _ _ assms(3)] True
        by (simp add: assms(4) kernel_pt_level2_def)
      also have "\<dots> = Some (PSPACE va, if n < 0x3f000000 then MT_NORMAL else MT_DEVICE_nGnRnE)"
        using True assms(4) level3_entry [of va]
          walk_block [of ?m "K2P level3" kernel_pt_level3 1 "if PSPACE va < 0x3f000000 then PTE_KERNEL_DATA else PTE_KERNEL_DEVICE" va,
            OF tables(3)]
        by (simp add: word_less_nat_alt flag_bits_low)
      finally show ?thesis
        using True by simp
    next
      case False
      show ?thesis
      proof (cases "n div 2 ^ 30 = 1 \<or> n div 2 ^ 30 = 3")
        case True
        then have "walk ?m 2 (K2P level2) va = Some (PSPACE va, MT_DEVICE_nGnRnE)"
          using level2_block [of va "n div 2 ^ 30" level3]
            walk_block [of ?m "K2P level2" "kernel_pt_level2 level3" 2 PTE_KERNEL_DEVICE va, OF tables(2)]
          by (simp add: assms(4) flag_bits_low)
        then show ?thesis
          using True False by simp
      next
        case other: False
        then have "n div 2 ^ 30 = 2 \<or> 4 \<le> n div 2 ^ 30"
          using False by (auto simp: div_greater_zero_iff) 
        then have "walk ?m 2 (K2P level2) va = None"
          using mid walk_zero [of ?m "K2P level2" "kernel_pt_level2 level3" 2 va, OF tables(2)]
          by (auto simp: assms(4) kernel_pt_level2_def N_PTE_PER_TABLE_def nth_append)
        then show ?thesis
          using False other by simp
      qed
    qed
    finally show ?thesis .
  qed
qed

lemma PSPACE_P2K: "PSPACE (P2K a) = PSPACE a"
proof -
  have K: "unat KSPACE_MASK = 65535 * 2 ^ 48"
    by (simp add: KSPACE_MASK_def)
  have "unat (P2K a) mod 2 ^ 48 = (unat a + 65535 * 2 ^ 48) mod 2 ^ 64 mod 2 ^ 48"
    unfolding P2K_def unat_word_ariths K by simp
  also have "\<dots> = (unat a + 65535 * 2 ^ 48) mod 2 ^ 48"
    by (rule mod_mod_cancel) simp
  also have "\<dots> = unat a mod 2 ^ 48"
    by (simp only: mod_mult_self1)
  finally show ?thesis
    unfolding PSPACE_take word_unat_eq_iff unsigned_take_bit_eq by (simp add: take_bit_eq_mod)
qed

lemma div_eq_iff_between: "0 < k \<Longrightarrow> n div k = q \<longleftrightarrow> q * k \<le> n \<and> n < Suc q * k" for n k q :: nat
  using less_eq_div_iff_mult_less_eq [of k q n] div_less_iff_less_mult [of k n "Suc q"] by auto

text \<open>
  C34: The direct map of the kernel.  With the page table the kernel boots with, wherever the linker
  placed its three tables, the processor translates every address, with its upper 16 bits set as the
  kernel has them or clear, to its lower 48 bits: as normal memory below \<open>PHYSTOP\<close>, as device memory
  from there to 2 GB and from 3 GB to 4 GB, and not at all elsewhere.  So \<open>P2K\<close> of a physical address
  is an address of that memory.  Behind \<open>invalid_pt\<close> there is nothing.
\<close>

theorem kernel_pt_direct_map:
  assumes "distinct [level1, level2, level3]" "table_addr level2" "table_addr level3"
  shows "walk (boot_memory level1 level2 level3) 3 (K2P level1) va =
      (let pa = PSPACE va
       in if pa < PHYSTOP then Some (pa, MT_NORMAL)
          else if pa < 0x80000000 then Some (pa, MT_DEVICE_nGnRnE)
          else if 0xC0000000 \<le> pa \<and> pa < 0x100000000 then Some (pa, MT_DEVICE_nGnRnE)
          else None) \<and>
     PSPACE (P2K (PSPACE va)) = PSPACE va \<and> walk [K2P level1 \<mapsto> invalid_pt] 3 (K2P level1) va = None"
proof -
  define n where "n = unat (PSPACE va)"
  have "PSPACE (P2K (PSPACE va)) = PSPACE va"
    unfolding PSPACE_P2K by (simp add: PSPACE_take)
  moreover have "walk [K2P level1 \<mapsto> invalid_pt] 3 (K2P level1) va = None"
    by (rule walk_zero [of _ _ invalid_pt]) (auto simp: invalid_pt_def N_PTE_PER_TABLE_def)
  moreover have "n div 2 ^ 30 = 1 \<longleftrightarrow> 0x40000000 \<le> n \<and> n < 0x80000000"
    "n div 2 ^ 30 = 3 \<longleftrightarrow> 0xC0000000 \<le> n \<and> n < 0x100000000"
    by (simp_all add: div_eq_iff_between)
  ultimately show ?thesis
    using direct_map_walk [OF assms n_def [symmetric]]
    by (auto simp: Let_def PHYSTOP_def word_less_nat_alt word_le_nat_alt n_def)
qed

theorem kernel_pt_direct_map_witness:
  "walk (boot_memory 0xffff000000081000 0xffff000000082000 0xffff000000083000) 3 0x81000 0xffff00003f215040 =
     Some (0x3f215040, MT_DEVICE_nGnRnE)"
  using kernel_pt_direct_map [of "0xffff000000081000" "0xffff000000082000" "0xffff000000083000" "0xffff00003f215040"]
  by (simp add: table_addr_def K2P_def PSPACE_def KSPACE_MASK_def PHYSTOP_def)

end
