(* ===== verification/Clock.thy ===== *)
theory Clock
  imports Prelude
begin

text \<open>
  The clock of a processor (\<open>driver/clock.c\<close>) and the time to which \<open>kernel/cpu.c\<close> sets it.  The frequency
  and the value of the counter are read from registers and are arguments; the countdown the code writes
  is the value of an operation.
\<close>

record clock =
  one_ms :: u64
  clock_handler :: "(unit \<Rightarrow> unit option) option"

definition get_timestamp_ms :: "clock \<Rightarrow> u64 \<Rightarrow> u64" where
  "get_timestamp_ms clk counter = counter div one_ms clk"

definition reset_clock :: "clock \<Rightarrow> u64 \<Rightarrow> u64 option" where
  "reset_clock clk countdown_ms =
     (let t = countdown_ms * one_ms clk in do { ASSERT (t \<le> 0x7fffffff); Some t })"

definition init_clock :: "u64 \<Rightarrow> clock \<Rightarrow> (u64 \<times> clock) option" where
  "init_clock freq clk =
     (let clk1 = clk\<lparr>one_ms := freq div 1000\<rparr> in do { t \<leftarrow> reset_clock clk1 1000; Some (t, clk1) })"

definition set_clock_handler :: "(unit \<Rightarrow> unit option) \<Rightarrow> clock \<Rightarrow> clock" where
  "set_clock_handler h clk = clk\<lparr>clock_handler := Some h\<rparr>"

definition invoke_clock_handler :: "clock \<Rightarrow> unit option" where
  "invoke_clock_handler clk = (case clock_handler clk of None \<Rightarrow> PANIC | Some h \<Rightarrow> h ())"

text \<open>\<open>first\<close> is the deadline of the first timer of the tree of the processor, if there is one.\<close>

definition timer_set_clock :: "clock \<Rightarrow> u64 \<Rightarrow> u64 option \<Rightarrow> u64 option" where
  "timer_set_clock clk counter first =
     (case first of
        None \<Rightarrow> reset_clock clk 1000
      | Some t1 \<Rightarrow> let t0 = get_timestamp_ms clk counter
                   in if t1 \<le> t0 then reset_clock clk 0 else reset_clock clk (t1 - t0))"

text \<open>
  The countdown register has 31 bits: a timer at most \<open>d\<close> milliseconds ahead is set without a panic when
  \<open>d\<close> of them fit.  At 62.5 MHz that holds for the 5000 ms of \<open>hello_timer\<close>, at 1 GHz it does not.
\<close>

lemma timer_set_clock_fits:
  assumes "unat t1 \<le> unat (get_timestamp_ms clk counter) + d" "d * unat (one_ms clk) \<le> 0x7fffffff"
  shows "\<exists>t. timer_set_clock clk counter (Some t1) = Some t \<and> unat t \<le> d * unat (one_ms clk)"
proof (cases "t1 \<le> get_timestamp_ms clk counter")
  case True
  then show ?thesis
    by (simp add: timer_set_clock_def reset_clock_def)
next
  case False
  define e where "e = t1 - get_timestamp_ms clk counter"
  have "unat e \<le> d"
    using False assms(1) by (simp add: e_def unat_sub word_le_nat_alt)
  then have le: "unat e * unat (one_ms clk) \<le> d * unat (one_ms clk)"
    by (rule mult_right_mono) simp
  have "unat e * unat (one_ms clk) < 2 ^ 64"
    by (rule le_less_trans [OF le]) (rule le_less_trans [OF assms(2)], simp)
  then have "unat (e * one_ms clk) = unat e * unat (one_ms clk)"
    by (intro unat_mult_lem [THEN iffD1]) simp
  then show ?thesis
    using False le le_trans [OF le assms(2)] by (simp add: timer_set_clock_def reset_clock_def e_def [symmetric] Let_def word_le_nat_alt)
qed

lemma clock_rates:
  "timer_set_clock \<lparr>one_ms = 62500, clock_handler = None\<rparr> 0 (Some 5000) = Some 312500000"
  "timer_set_clock \<lparr>one_ms = 1000000, clock_handler = None\<rparr> 0 (Some 5000) = PANIC"
  by (simp_all add: timer_set_clock_def reset_clock_def get_timestamp_ms_def PANIC_def)

end
