(* ===== verification/Sd_Card.thy ===== *)
theory Sd_Card
  imports Prelude
begin

text \<open>
  The SD card protocol (\<open>driver/sddef.h\<close>) and the mailbox it asks for its clock (\<open>driver/mbox.c\<close>).  The
  hardware is a parameter: what a read of a register returns, what a write, a delay and the GPU do to
  it.  A read may change the hardware, which stands for what it does by itself in between.  Registers
  are named by their offset to \<open>MMIO_BASE\<close>.  Printing is left out but for the registers it reads.
\<close>

section \<open>The hardware\<close>

record 'h device =
  dread :: "u32 \<Rightarrow> 'h \<Rightarrow> u32 \<times> 'h"
  dwrite :: "u32 \<Rightarrow> u32 \<Rightarrow> 'h \<Rightarrow> 'h"
  ddelay_us :: "nat \<Rightarrow> 'h \<Rightarrow> 'h"
  dspin :: "nat \<Rightarrow> 'h \<Rightarrow> 'h"
  dmbox_buf :: "'h \<Rightarrow> u32 list \<times> 'h"

definition EMMC_BLKSIZECNT :: u32 where "EMMC_BLKSIZECNT = 0x300004"
definition EMMC_ARG1 :: u32 where "EMMC_ARG1 = 0x300008"
definition EMMC_CMDTM :: u32 where "EMMC_CMDTM = 0x30000C"
definition EMMC_RESP0 :: u32 where "EMMC_RESP0 = 0x300010"
definition EMMC_RESP1 :: u32 where "EMMC_RESP1 = 0x300014"
definition EMMC_RESP2 :: u32 where "EMMC_RESP2 = 0x300018"
definition EMMC_RESP3 :: u32 where "EMMC_RESP3 = 0x30001C"
definition EMMC_DATA :: u32 where "EMMC_DATA = 0x300020"
definition EMMC_STATUS :: u32 where "EMMC_STATUS = 0x300024"
definition EMMC_CONTROL0 :: u32 where "EMMC_CONTROL0 = 0x300028"
definition EMMC_CONTROL1 :: u32 where "EMMC_CONTROL1 = 0x30002C"
definition EMMC_INTERRUPT :: u32 where "EMMC_INTERRUPT = 0x300030"
definition EMMC_IRPT_MASK :: u32 where "EMMC_IRPT_MASK = 0x300034"
definition EMMC_IRPT_EN :: u32 where "EMMC_IRPT_EN = 0x300038"
definition EMMC_SLOTISR_VER :: u32 where "EMMC_SLOTISR_VER = 0x3000FC"

lemmas emmc_registers = EMMC_BLKSIZECNT_def EMMC_ARG1_def EMMC_CMDTM_def EMMC_RESP0_def EMMC_RESP1_def EMMC_RESP2_def
  EMMC_RESP3_def EMMC_DATA_def EMMC_STATUS_def EMMC_CONTROL0_def EMMC_CONTROL1_def EMMC_INTERRUPT_def EMMC_IRPT_MASK_def
  EMMC_IRPT_EN_def EMMC_SLOTISR_VER_def

definition GPFSEL4 :: u32 where "GPFSEL4 = 0x200010"
definition GPFSEL5 :: u32 where "GPFSEL5 = 0x200014"
definition GPEDS1 :: u32 where "GPEDS1 = 0x200044"
definition GPHEN1 :: u32 where "GPHEN1 = 0x200068"
definition GPPUD :: u32 where "GPPUD = 0x200094"
definition GPPUDCLK1 :: u32 where "GPPUDCLK1 = 0x20009C"

definition MBOX_READ :: u32 where "MBOX_READ = 0xB880"
definition MBOX_STATUS :: u32 where "MBOX_STATUS = 0xB898"
definition MBOX_WRITE :: u32 where "MBOX_WRITE = 0xB8A0"
definition MBOX_FULL :: u32 where "MBOX_FULL = 0x80000000"
definition MBOX_EMPTY :: u32 where "MBOX_EMPTY = 0x40000000"

section \<open>Flags\<close>

definition CMD_IS_DATA :: u32 where "CMD_IS_DATA = 0x00200000"
definition CMD_RSPNS_NO :: u32 where "CMD_RSPNS_NO = 0x00000000"
definition CMD_RSPNS_136 :: u32 where "CMD_RSPNS_136 = 0x00010000"
definition CMD_RSPNS_48 :: u32 where "CMD_RSPNS_48 = 0x00020000"
definition CMD_RSPNS_48B :: u32 where "CMD_RSPNS_48B = 0x00030000"
definition TM_MULTI_BLOCK :: u32 where "TM_MULTI_BLOCK = 0x00000020"
definition TM_DAT_DIR_HC :: u32 where "TM_DAT_DIR_HC = 0x00000000"
definition TM_DAT_DIR_CH :: u32 where "TM_DAT_DIR_CH = 0x00000010"
definition TM_BLKCNT_EN :: u32 where "TM_BLKCNT_EN = 0x00000002"
definition TM_MULTI_DATA :: u32 where "TM_MULTI_DATA = CMD_IS_DATA OR TM_MULTI_BLOCK OR TM_BLKCNT_EN"

definition INT_AUTO_ERROR :: u32 where "INT_AUTO_ERROR = 0x01000000"
definition INT_DATA_END_ERR :: u32 where "INT_DATA_END_ERR = 0x00400000"
definition INT_DATA_CRC_ERR :: u32 where "INT_DATA_CRC_ERR = 0x00200000"
definition INT_DATA_TIMEOUT :: u32 where "INT_DATA_TIMEOUT = 0x00100000"
definition INT_INDEX_ERROR :: u32 where "INT_INDEX_ERROR = 0x00080000"
definition INT_END_ERROR :: u32 where "INT_END_ERROR = 0x00040000"
definition INT_CRC_ERROR :: u32 where "INT_CRC_ERROR = 0x00020000"
definition INT_CMD_TIMEOUT :: u32 where "INT_CMD_TIMEOUT = 0x00010000"
definition INT_ERR :: u32 where "INT_ERR = 0x00008000"
definition INT_READ_RDY :: u32 where "INT_READ_RDY = 0x00000020"
definition INT_WRITE_RDY :: u32 where "INT_WRITE_RDY = 0x00000010"
definition INT_DATA_DONE :: u32 where "INT_DATA_DONE = 0x00000002"
definition INT_CMD_DONE :: u32 where "INT_CMD_DONE = 0x00000001"
definition INT_ERROR_MASK :: u32 where
  "INT_ERROR_MASK = INT_CRC_ERROR OR INT_END_ERROR OR INT_INDEX_ERROR OR INT_DATA_TIMEOUT OR
     INT_DATA_CRC_ERR OR INT_DATA_END_ERR OR INT_ERR OR INT_AUTO_ERROR"

definition C0_HCTL_DWITDH :: u32 where "C0_HCTL_DWITDH = 0x00000002"
definition C1_SRST_HC :: u32 where "C1_SRST_HC = 0x01000000"
definition C1_TOUNIT_MAX :: u32 where "C1_TOUNIT_MAX = 0x000e0000"
definition C1_CLK_EN :: u32 where "C1_CLK_EN = 0x00000004"
definition C1_CLK_STABLE :: u32 where "C1_CLK_STABLE = 0x00000002"
definition C1_CLK_INTLEN :: u32 where "C1_CLK_INTLEN = 0x00000001"
definition FREQ_SETUP :: u32 where "FREQ_SETUP = 400000"
definition FREQ_NORMAL :: u32 where "FREQ_NORMAL = 25000000"
definition HOST_SPEC_NUM :: u32 where "HOST_SPEC_NUM = 0x00ff0000"
definition HOST_SPEC_NUM_SHIFT :: nat where "HOST_SPEC_NUM_SHIFT = 16"
definition HOST_SPEC_V2 :: u32 where "HOST_SPEC_V2 = 1"
definition SR_READ_AVAILABLE :: u32 where "SR_READ_AVAILABLE = 0x00000800"
definition SR_DAT_INHIBIT :: u32 where "SR_DAT_INHIBIT = 0x00000002"
definition SR_CMD_INHIBIT :: u32 where "SR_CMD_INHIBIT = 0x00000001"

definition ACMD41_HCS :: u32 where "ACMD41_HCS = 0x40000000"
definition ACMD41_SDXC_POWER :: u32 where "ACMD41_SDXC_POWER = 0x10000000"
definition ACMD41_S18R :: u32 where "ACMD41_S18R = 0x01000000"
definition ACMD41_VOLTAGE :: u32 where "ACMD41_VOLTAGE = 0x00ff8000"
definition ACMD41_ARG_HC :: u32 where "ACMD41_ARG_HC = ACMD41_HCS OR ACMD41_SDXC_POWER OR ACMD41_VOLTAGE OR ACMD41_S18R"
definition ACMD41_ARG_SC :: u32 where "ACMD41_ARG_SC = ACMD41_VOLTAGE OR ACMD41_S18R"

definition ST_CARD_STATE :: u32 where "ST_CARD_STATE = 0x00001e00"
definition ST_APP_CMD :: u32 where "ST_APP_CMD = 0x00000020"
definition R1_CARD_STATE_SHIFT :: nat where "R1_CARD_STATE_SHIFT = 9"
definition R1_ERRORS_MASK :: u32 where "R1_ERRORS_MASK = 0xfff9c004"
definition R3_COMPLETE :: u32 where "R3_COMPLETE = 0x80000000"
definition R3_CCS :: u32 where "R3_CCS = 0x40000000"
definition R3_S18A :: u32 where "R3_S18A = 0x01000000"
definition R6_RCA_MASK :: u32 where "R6_RCA_MASK = 0xffff0000"

definition RESP_NO :: u8 where "RESP_NO = 0"
definition RESP_R1 :: u8 where "RESP_R1 = 1"
definition RESP_R1b :: u8 where "RESP_R1b = 11"
definition RESP_R2I :: u8 where "RESP_R2I = 2"
definition RESP_R2S :: u8 where "RESP_R2S = 12"
definition RESP_R3 :: u8 where "RESP_R3 = 3"
definition RESP_R6 :: u8 where "RESP_R6 = 6"
definition RESP_R7 :: u8 where "RESP_R7 = 7"
definition RCA_NO :: u8 where "RCA_NO = 1"
definition RCA_YES :: u8 where "RCA_YES = 2"

lemmas resp_types = RESP_NO_def RESP_R1_def RESP_R1b_def RESP_R2I_def RESP_R2S_def RESP_R3_def RESP_R6_def RESP_R7_def

definition SCR_SD_BUS_WIDTH_1 :: u32 where "SCR_SD_BUS_WIDTH_1 = 0x00000100"
definition SCR_SD_BUS_WIDTH_4 :: u32 where "SCR_SD_BUS_WIDTH_4 = 0x00000400"
definition SCR_CMD_SUPP_SET_BLKCNT :: u32 where "SCR_CMD_SUPP_SET_BLKCNT = 0x02000000"
definition SCR_CMD_SUPP_SPEED_CLASS :: u32 where "SCR_CMD_SUPP_SPEED_CLASS = 0x01000000"
definition SD_SUPP_SET_BLOCK_COUNT :: u32 where "SD_SUPP_SET_BLOCK_COUNT = 0x80000000"
definition SD_SUPP_SPEED_CLASS :: u32 where "SD_SUPP_SPEED_CLASS = 0x40000000"
definition SD_SUPP_BUS_WIDTH_4 :: u32 where "SD_SUPP_BUS_WIDTH_4 = 0x20000000"
definition SD_SUPP_BUS_WIDTH_1 :: u32 where "SD_SUPP_BUS_WIDTH_1 = 0x10000000"
definition SD_TYPE_1 :: u8 where "SD_TYPE_1 = 2"
definition SD_TYPE_2_SC :: u8 where "SD_TYPE_2_SC = 3"
definition SD_TYPE_2_HC :: u8 where "SD_TYPE_2_HC = 4"

definition CSD0_VERSION :: u32 where "CSD0_VERSION = 0x00c00000"
definition CSD0_V1 :: u32 where "CSD0_V1 = 0x00000000"
definition CSD1VN_READ_BL_LEN :: u32 where "CSD1VN_READ_BL_LEN = 0x00000f00"
definition CSD1V1_C_SIZEH :: u32 where "CSD1V1_C_SIZEH = 0x00000003"
definition CSD2V1_C_SIZEL :: u32 where "CSD2V1_C_SIZEL = 0xffc00000"
definition CSD2V1_C_SIZE_MULT :: u32 where "CSD2V1_C_SIZE_MULT = 0x00000380"
definition CSD2V2_C_SIZE :: u32 where "CSD2V2_C_SIZE = 0x3fffff00"
definition CSD3VN_FILE_FORMAT :: u32 where "CSD3VN_FILE_FORMAT = 0x0000000c"
definition CSD3VN_FILE_FORMAT_HDD :: u32 where "CSD3VN_FILE_FORMAT_HDD = 0x00000000"
definition CSD3VN_FILE_FORMAT_DOSFAT :: u32 where "CSD3VN_FILE_FORMAT_DOSFAT = 0x00000004"

definition SD_OK :: u32 where "SD_OK = 0"
definition SD_ERROR :: u32 where "SD_ERROR = 1"
definition SD_TIMEOUT :: u32 where "SD_TIMEOUT = 2"
definition SD_BUSY :: u32 where "SD_BUSY = 3"
definition SD_ERROR_RESET :: u32 where "SD_ERROR_RESET = 6"
definition SD_ERROR_CLOCK :: u32 where "SD_ERROR_CLOCK = 7"
definition SD_ERROR_VOLTAGE :: u32 where "SD_ERROR_VOLTAGE = 8"
definition SD_ERROR_APP_CMD :: u32 where "SD_ERROR_APP_CMD = 9"
definition SD_CARD_CHANGED :: u32 where "SD_CARD_CHANGED = 10"
definition SD_CARD_REINSERTED :: u32 where "SD_CARD_REINSERTED = 12"

lemmas sd_codes = SD_OK_def SD_ERROR_def SD_TIMEOUT_def SD_BUSY_def SD_ERROR_RESET_def SD_ERROR_CLOCK_def
  SD_ERROR_VOLTAGE_def SD_ERROR_APP_CMD_def SD_CARD_CHANGED_def SD_CARD_REINSERTED_def

section \<open>Commands\<close>

record EMMCCommand =
  cmd_name :: string
  cmd_code :: u32
  cmd_resp :: u8
  cmd_rca :: u8
  cmd_delay :: nat

abbreviation CMD :: "string \<Rightarrow> u32 \<Rightarrow> u8 \<Rightarrow> u8 \<Rightarrow> nat \<Rightarrow> EMMCCommand" where
  "CMD n c r a d \<equiv> \<lparr>cmd_name = n, cmd_code = c, cmd_resp = r, cmd_rca = a, cmd_delay = d\<rparr>"

definition sdCommandTable :: "EMMCCommand list" where
  "sdCommandTable =
   [CMD ''GO_IDLE_STATE'' (0x00000000 OR CMD_RSPNS_NO) RESP_NO RCA_NO 0,
    CMD ''ALL_SEND_CID'' (0x02000000 OR CMD_RSPNS_136) RESP_R2I RCA_NO 0,
    CMD ''SEND_REL_ADDR'' (0x03000000 OR CMD_RSPNS_48) RESP_R6 RCA_NO 0,
    CMD ''SET_DSR'' (0x04000000 OR CMD_RSPNS_NO) RESP_NO RCA_NO 0,
    CMD ''SWITCH_FUNC'' (0x06000000 OR CMD_RSPNS_48) RESP_R1 RCA_NO 0,
    CMD ''CARD_SELECT'' (0x07000000 OR CMD_RSPNS_48B) RESP_R1b RCA_YES 0,
    CMD ''SEND_IF_COND'' (0x08000000 OR CMD_RSPNS_48) RESP_R7 RCA_NO 100,
    CMD ''SEND_CSD'' (0x09000000 OR CMD_RSPNS_136) RESP_R2S RCA_YES 0,
    CMD ''SEND_CID'' (0x0A000000 OR CMD_RSPNS_136) RESP_R2I RCA_YES 0,
    CMD ''VOLT_SWITCH'' (0x0B000000 OR CMD_RSPNS_48) RESP_R1 RCA_NO 0,
    CMD ''STOP_TRANS'' (0x0C000000 OR CMD_RSPNS_48B) RESP_R1b RCA_NO 0,
    CMD ''SEND_STATUS'' (0x0D000000 OR CMD_RSPNS_48) RESP_R1 RCA_YES 0,
    CMD ''GO_INACTIVE'' (0x0F000000 OR CMD_RSPNS_NO) RESP_NO RCA_YES 0,
    CMD ''SET_BLOCKLEN'' (0x10000000 OR CMD_RSPNS_48) RESP_R1 RCA_NO 0,
    CMD ''READ_SINGLE'' (0x11000000 OR CMD_RSPNS_48 OR CMD_IS_DATA OR TM_DAT_DIR_CH) RESP_R1 RCA_NO 0,
    CMD ''READ_MULTI'' (0x12000000 OR CMD_RSPNS_48 OR TM_MULTI_DATA OR TM_DAT_DIR_CH) RESP_R1 RCA_NO 0,
    CMD ''SEND_TUNING'' (0x13000000 OR CMD_RSPNS_48) RESP_R1 RCA_NO 0,
    CMD ''SPEED_CLASS'' (0x14000000 OR CMD_RSPNS_48B) RESP_R1b RCA_NO 0,
    CMD ''SET_BLOCKCNT'' (0x17000000 OR CMD_RSPNS_48) RESP_R1 RCA_NO 0,
    CMD ''WRITE_SINGLE'' (0x18000000 OR CMD_RSPNS_48 OR CMD_IS_DATA OR TM_DAT_DIR_HC) RESP_R1 RCA_NO 0,
    CMD ''WRITE_MULTI'' (0x19000000 OR CMD_RSPNS_48 OR TM_MULTI_DATA OR TM_DAT_DIR_HC) RESP_R1 RCA_NO 0,
    CMD ''PROGRAM_CSD'' (0x1B000000 OR CMD_RSPNS_48) RESP_R1 RCA_NO 0,
    CMD ''SET_WRITE_PR'' (0x1C000000 OR CMD_RSPNS_48B) RESP_R1b RCA_NO 0,
    CMD ''CLR_WRITE_PR'' (0x1D000000 OR CMD_RSPNS_48B) RESP_R1b RCA_NO 0,
    CMD ''SND_WRITE_PR'' (0x1E000000 OR CMD_RSPNS_48) RESP_R1 RCA_NO 0,
    CMD ''ERASE_WR_ST'' (0x20000000 OR CMD_RSPNS_48) RESP_R1 RCA_NO 0,
    CMD ''ERASE_WR_END'' (0x21000000 OR CMD_RSPNS_48) RESP_R1 RCA_NO 0,
    CMD ''ERASE'' (0x26000000 OR CMD_RSPNS_48B) RESP_R1b RCA_NO 0,
    CMD ''LOCK_UNLOCK'' (0x2A000000 OR CMD_RSPNS_48) RESP_R1 RCA_NO 0,
    CMD ''APP_CMD'' (0x37000000 OR CMD_RSPNS_NO) RESP_NO RCA_NO 100,
    CMD ''APP_CMD'' (0x37000000 OR CMD_RSPNS_48) RESP_R1 RCA_YES 0,
    CMD ''GEN_CMD'' (0x38000000 OR CMD_RSPNS_48) RESP_R1 RCA_NO 0,
    CMD ''SET_BUS_WIDTH'' (0x06000000 OR CMD_RSPNS_48) RESP_R1 RCA_NO 0,
    CMD ''SD_STATUS'' (0x0D000000 OR CMD_RSPNS_48) RESP_R1 RCA_YES 0,
    CMD ''SEND_NUM_WRBL'' (0x16000000 OR CMD_RSPNS_48) RESP_R1 RCA_NO 0,
    CMD ''SEND_NUM_ERS'' (0x17000000 OR CMD_RSPNS_48) RESP_R1 RCA_NO 0,
    CMD ''SD_SENDOPCOND'' (0x29000000 OR CMD_RSPNS_48) RESP_R3 RCA_NO 1000,
    CMD ''SET_CLR_DET'' (0x2A000000 OR CMD_RSPNS_48) RESP_R1 RCA_NO 0,
    CMD ''SEND_SCR'' (0x33000000 OR CMD_RSPNS_48 OR CMD_IS_DATA OR TM_DAT_DIR_CH) RESP_R1 RCA_NO 0]"

definition IX_GO_IDLE_STATE :: nat where "IX_GO_IDLE_STATE = 0"
definition IX_ALL_SEND_CID :: nat where "IX_ALL_SEND_CID = 1"
definition IX_SEND_REL_ADDR :: nat where "IX_SEND_REL_ADDR = 2"
definition IX_CARD_SELECT :: nat where "IX_CARD_SELECT = 5"
definition IX_SEND_IF_COND :: nat where "IX_SEND_IF_COND = 6"
definition IX_SEND_CSD :: nat where "IX_SEND_CSD = 7"
definition IX_SET_BLOCKLEN :: nat where "IX_SET_BLOCKLEN = 13"
definition IX_READ_SINGLE :: nat where "IX_READ_SINGLE = 14"
definition IX_WRITE_SINGLE :: nat where "IX_WRITE_SINGLE = 19"
definition IX_APP_CMD :: nat where "IX_APP_CMD = 29"
definition IX_APP_CMD_RCA :: nat where "IX_APP_CMD_RCA = 30"
definition IX_APP_CMD_START :: nat where "IX_APP_CMD_START = 32"
definition IX_SET_BUS_WIDTH :: nat where "IX_SET_BUS_WIDTH = 32"
definition IX_APP_SEND_OP_COND :: nat where "IX_APP_SEND_OP_COND = 36"
definition IX_SEND_SCR :: nat where "IX_SEND_SCR = 38"

lemmas command_indices = IX_GO_IDLE_STATE_def IX_ALL_SEND_CID_def IX_SEND_REL_ADDR_def IX_CARD_SELECT_def IX_SEND_IF_COND_def
  IX_SEND_CSD_def IX_SET_BLOCKLEN_def IX_READ_SINGLE_def IX_WRITE_SINGLE_def IX_APP_CMD_def IX_APP_CMD_RCA_def
  IX_APP_CMD_START_def IX_SET_BUS_WIDTH_def IX_APP_SEND_OP_COND_def IX_SEND_SCR_def

section \<open>State\<close>

record SDDescriptor =
  capacity :: u64
  cid :: "u32 list"
  csd :: "u32 list"
  scr :: "u32 list"
  ocr :: u32
  support :: u32
  fileFormat :: u32
  card_type :: u8
  uhsi :: u8
  card_init :: u8
  absent :: u8
  rca :: u32
  cardState :: u32
  card_status :: u32
  lastCmd :: "EMMCCommand option"
  lastArg :: u32

record 'h sdst =
  hw :: 'h
  sdCard :: SDDescriptor
  sdHostVer :: u32
  sdBaseClock :: u32

definition rd :: "'h device \<Rightarrow> u32 \<Rightarrow> 'h sdst \<Rightarrow> u32 \<times> 'h sdst" where
  "rd D r s = (let (v, h) = dread D r (hw s) in (v, s\<lparr>hw := h\<rparr>))"

definition wr :: "'h device \<Rightarrow> u32 \<Rightarrow> u32 \<Rightarrow> 'h sdst \<Rightarrow> 'h sdst" where
  "wr D r v s = s\<lparr>hw := dwrite D r v (hw s)\<rparr>"

definition peek_regs :: "'h device \<Rightarrow> u32 list \<Rightarrow> 'h sdst \<Rightarrow> 'h sdst" where
  "peek_regs D rs s = fold (\<lambda>r s. snd (rd D r s)) rs s"

definition sd_delayus :: "'h device \<Rightarrow> nat \<Rightarrow> 'h sdst \<Rightarrow> 'h sdst" where
  "sd_delayus D c s = s\<lparr>hw := ddelay_us D (c * 3) (hw s)\<rparr>"

definition spin_delay :: "'h device \<Rightarrow> nat \<Rightarrow> 'h sdst \<Rightarrow> 'h sdst" where
  "spin_delay D c s = s\<lparr>hw := dspin D c (hw s)\<rparr>"

definition upd_card :: "(SDDescriptor \<Rightarrow> SDDescriptor) \<Rightarrow> 'h sdst \<Rightarrow> 'h sdst" where
  "upd_card f s = s\<lparr>sdCard := f (sdCard s)\<rparr>"

text \<open>
  The waiting loops: \<open>while (!done && count--) sd_delayus(d)\<close> with the value that \<open>count\<close> has behind
  it, and \<open>while (!done && --count) sd_delayus(d)\<close> with the answer whether \<open>count\<close> ran out.
\<close>

fun poll_post :: "'h device \<Rightarrow> ('h sdst \<Rightarrow> bool \<times> 'h sdst) \<Rightarrow> nat \<Rightarrow> nat \<Rightarrow> 'h sdst \<Rightarrow> int \<times> 'h sdst" where
  "poll_post D done d 0 s = (let (b, s1) = done s in if b then (0, s1) else (- 1, s1))"
| "poll_post D done d (Suc n) s =
     (let (b, s1) = done s in if b then (int (Suc n), s1) else poll_post D done d n (sd_delayus D d s1))"

fun poll_pre :: "'h device \<Rightarrow> ('h sdst \<Rightarrow> bool \<times> 'h sdst) \<Rightarrow> nat \<Rightarrow> nat \<Rightarrow> 'h sdst \<Rightarrow> bool \<times> 'h sdst" where
  "poll_pre D done d 0 s = (True, s)"
| "poll_pre D done d (Suc n) s =
     (let (b, s1) = done s
      in if b then (False, s1) else if n = 0 then (True, s1) else poll_pre D done d n (sd_delayus D d s1))"

section \<open>Waiting\<close>

definition sdWaitForInterrupt :: "'h device \<Rightarrow> u32 \<Rightarrow> 'h sdst \<Rightarrow> u32 \<times> 'h sdst" where
  "sdWaitForInterrupt D irq s =
     (let waitMask = irq OR INT_ERROR_MASK;
          (count, s1) = poll_post D (\<lambda>s. let (v, s') = rd D EMMC_INTERRUPT s in (v AND waitMask \<noteq> 0, s')) 1 1000000 s;
          (ival, s2) = rd D EMMC_INTERRUPT s1
      in if count \<le> 0 \<or> ival AND INT_CMD_TIMEOUT \<noteq> 0 \<or> ival AND INT_DATA_TIMEOUT \<noteq> 0
         then (SD_TIMEOUT, wr D EMMC_INTERRUPT ival s2)
         else if ival AND INT_ERROR_MASK \<noteq> 0
         then (SD_ERROR, wr D EMMC_INTERRUPT ival (peek_regs D [EMMC_STATUS, EMMC_RESP0] s2))
         else (SD_OK, wr D EMMC_INTERRUPT irq s2))"

text \<open>No flag of \<open>inhibit\<close> in the status register, or an error.\<close>

definition not_inhibited :: "'h device \<Rightarrow> u32 \<Rightarrow> 'h sdst \<Rightarrow> bool \<times> 'h sdst" where
  "not_inhibited D inhibit s =
     (let (st, s1) = rd D EMMC_STATUS s
      in if st AND inhibit = 0 then (True, s1)
         else let (v, s2) = rd D EMMC_INTERRUPT s1 in (v AND INT_ERROR_MASK \<noteq> 0, s2))"

definition wait_result :: "'h device \<Rightarrow> bool \<Rightarrow> 'h sdst \<Rightarrow> u32 \<times> 'h sdst" where
  "wait_result D timeout s =
     (let (err, s1) = (if timeout then (True, s) else let (v, s1) = rd D EMMC_INTERRUPT s in (v AND INT_ERROR_MASK \<noteq> 0, s1))
      in if err then (SD_BUSY, peek_regs D [EMMC_STATUS, EMMC_INTERRUPT, EMMC_RESP0] s1) else (SD_OK, s1))"

definition sdWaitForCommand :: "'h device \<Rightarrow> 'h sdst \<Rightarrow> u32 \<times> 'h sdst" where
  "sdWaitForCommand D s =
     (let (count, s1) = poll_post D (not_inhibited D SR_CMD_INHIBIT) 1 1000000 s in wait_result D (count \<le> 0) s1)"

definition sdWaitForData :: "'h device \<Rightarrow> 'h sdst \<Rightarrow> u32 \<times> 'h sdst" where
  "sdWaitForData D s =
     (let (timeout, s1) = poll_pre D (not_inhibited D SR_DAT_INHIBIT) 1 500000 s in wait_result D timeout s1)"

end
