(* ===== verification/Sd_Init.thy ===== *)
theory Sd_Init
  imports Sd_Card
begin

text \<open>
  The SD card (\<open>driver/sddef.h\<close>), continued: sending commands, the clock, and the initialisation of
  the card.  The result \<^const>\<open>None\<close> is a panic, a NULL pointer that is followed, or a mailbox that
  never answers.
\<close>

section \<open>Sending commands\<close>

text \<open>The name of the last command is printed: there has to be one.\<close>

definition sdDebugResponse :: "'h device \<Rightarrow> u32 \<Rightarrow> 'h sdst \<Rightarrow> (u32 \<times> 'h sdst) option" where
  "sdDebugResponse D resp s =
     (case lastCmd (sdCard s) of
        None \<Rightarrow> None
      | Some _ \<Rightarrow> Some (resp, peek_regs D [EMMC_RESP3, EMMC_RESP2, EMMC_RESP1, EMMC_RESP0,
                                        EMMC_STATUS, EMMC_CONTROL1, EMMC_INTERRUPT] s))"

definition r6_status :: "u32 \<Rightarrow> u32" where
  "r6_status resp0 = (resp0 AND 0x00001fff) OR push_bit 6 (resp0 AND 0x00002000)
     OR push_bit 8 (resp0 AND 0x00004000) OR push_bit 8 (resp0 AND 0x00008000)"

definition card_state :: "u32 \<Rightarrow> u32" where
  "card_state resp0 = drop_bit R1_CARD_STATE_SHIFT (resp0 AND ST_CARD_STATE)"

text \<open>What the response in the registers means, by the response type of the command.\<close>

definition handle_response :: "'h device \<Rightarrow> EMMCCommand \<Rightarrow> u32 \<Rightarrow> u32 \<Rightarrow> 'h sdst \<Rightarrow> (u32 \<times> 'h sdst) option" where
  "handle_response D cmd arg resp0 s =
     (if cmd_resp cmd = RESP_NO then Some (SD_OK, s)
      else if cmd_resp cmd = RESP_R1 \<or> cmd_resp cmd = RESP_R1b then
        Some (resp0 AND R1_ERRORS_MASK, upd_card (\<lambda>c. c\<lparr>card_status := resp0, cardState := card_state resp0\<rparr>) s)
      else if cmd_resp cmd = RESP_R2I \<or> cmd_resp cmd = RESP_R2S then
        (let (r3, s1) = rd D EMMC_RESP3 s; (r2, s2) = rd D EMMC_RESP2 s1; (r1, s3) = rd D EMMC_RESP1 s2;
             regs = [r3, r2, r1, resp0]
         in Some (SD_OK, upd_card (\<lambda>c. let c1 = c\<lparr>card_status := 0\<rparr>
              in if cmd_resp cmd = RESP_R2I then c1\<lparr>cid := regs\<rparr> else c1\<lparr>csd := regs\<rparr>) s3))
      else if cmd_resp cmd = RESP_R3 then Some (SD_OK, upd_card (\<lambda>c. c\<lparr>card_status := 0, ocr := resp0\<rparr>) s)
      else if cmd_resp cmd = RESP_R6 then
        Some (r6_status resp0 AND R1_ERRORS_MASK,
              upd_card (\<lambda>c. c\<lparr>rca := resp0 AND R6_RCA_MASK, card_status := r6_status resp0, cardState := card_state resp0\<rparr>) s)
      else if cmd_resp cmd = RESP_R7 then
        Some (if resp0 = arg then SD_OK else SD_ERROR, upd_card (\<lambda>c. c\<lparr>card_status := 0\<rparr>) s)
      else PANIC)"

definition sdSendCommandP :: "'h device \<Rightarrow> EMMCCommand \<Rightarrow> u32 \<Rightarrow> 'h sdst \<Rightarrow> (u32 \<times> 'h sdst) option" where
  "sdSendCommandP D cmd arg s =
     (let (busy, s1) = sdWaitForCommand D s
      in if busy \<noteq> 0 then Some (SD_BUSY, s1)
         else let s2 = upd_card (\<lambda>c. c\<lparr>lastCmd := Some cmd, lastArg := arg\<rparr>) s1;
                  (flags, s3) = rd D EMMC_INTERRUPT s2;
                  s4 = wr D EMMC_CMDTM (cmd_code cmd) (wr D EMMC_ARG1 arg (wr D EMMC_INTERRUPT flags s3));
                  s5 = (if cmd_delay cmd \<noteq> 0 then sd_delayus D (cmd_delay cmd) s4 else s4);
                  (result, s6) = sdWaitForInterrupt D INT_CMD_DONE s5
              in if result \<noteq> 0 then Some (result, s6)
                 else let (resp0, s7) = rd D EMMC_RESP0 s6 in handle_response D cmd arg resp0 s7)"

definition sdSendAppCommand :: "'h device \<Rightarrow> 'h sdst \<Rightarrow> (u32 \<times> 'h sdst) option" where
  "sdSendAppCommand D s =
     (if rca (sdCard s) = 0 then
        do { (_, s1) \<leftarrow> sdSendCommandP D (sdCommandTable ! IX_APP_CMD) 0 s; Some (SD_OK, s1) }
      else
        do { (resp, s1) \<leftarrow> sdSendCommandP D (sdCommandTable ! IX_APP_CMD_RCA) (rca (sdCard s)) s;
             if resp \<noteq> 0 then sdDebugResponse D resp s1
             else if card_status (sdCard s1) AND ST_APP_CMD = 0 then Some (SD_ERROR, s1)
             else Some (SD_OK, s1) })"

definition send_with :: "'h device \<Rightarrow> nat \<Rightarrow> (SDDescriptor \<Rightarrow> u32) \<Rightarrow> 'h sdst \<Rightarrow> (u32 \<times> 'h sdst) option" where
  "send_with D index arg s =
     do { (app, s1) \<leftarrow> (if IX_APP_CMD_START \<le> index then sdSendAppCommand D s else Some (SD_OK, s));
          if app \<noteq> 0 then sdDebugResponse D app s1
          else do { (resp, s2) \<leftarrow> sdSendCommandP D (sdCommandTable ! index) (arg (sdCard s1)) s1;
                    if resp \<noteq> 0 then Some (resp, s2)
                    else if IX_APP_CMD_START \<le> index \<and> rca (sdCard s2) \<noteq> 0 \<and> card_status (sdCard s2) AND ST_APP_CMD = 0
                    then Some (SD_ERROR_APP_CMD, s2)
                    else Some (resp, s2) } }"

definition sdSendCommand :: "'h device \<Rightarrow> nat \<Rightarrow> 'h sdst \<Rightarrow> (u32 \<times> 'h sdst) option" where
  "sdSendCommand D index s =
     send_with D index (\<lambda>c. if cmd_rca (sdCommandTable ! index) = RCA_YES then rca c else 0) s"

definition sdSendCommandA :: "'h device \<Rightarrow> nat \<Rightarrow> u32 \<Rightarrow> 'h sdst \<Rightarrow> (u32 \<times> 'h sdst) option" where
  "sdSendCommandA D index arg s = send_with D index (\<lambda>_. arg) s"

section \<open>The configuration register\<close>

text \<open>\<open>numRead\<close> words are there already; the answer is how many there are in the end.\<close>

function scr_loop :: "'h device \<Rightarrow> nat \<Rightarrow> nat \<Rightarrow> 'h sdst \<Rightarrow> nat \<times> 'h sdst" where
  "scr_loop D numRead count s =
     (if 2 \<le> numRead then (numRead, s)
      else let (st, s1) = rd D EMMC_STATUS s
           in if st AND SR_READ_AVAILABLE \<noteq> 0
              then let (v, s2) = rd D EMMC_DATA s1
                   in scr_loop D (Suc numRead) count (upd_card (\<lambda>c. c\<lparr>scr := (scr c)[numRead := v]\<rparr>) s2)
              else let s2 = sd_delayus D 1 s1
                   in if count - 1 = 0 then (numRead, s2) else scr_loop D numRead (count - 1) s2)"
  by pat_completeness auto

termination scr_loop
  by (relation "measure (\<lambda>(D, numRead, count, s). (2 - numRead) + count)") auto

declare scr_loop.simps [simp del]

definition scr_support :: "u32 \<Rightarrow> u32" where
  "scr_support scr0 =
     (if scr0 AND SCR_SD_BUS_WIDTH_4 \<noteq> 0 then SD_SUPP_BUS_WIDTH_4 else 0)
     OR (if scr0 AND SCR_SD_BUS_WIDTH_1 \<noteq> 0 then SD_SUPP_BUS_WIDTH_1 else 0)
     OR (if scr0 AND SCR_CMD_SUPP_SET_BLKCNT \<noteq> 0 then SD_SUPP_SET_BLOCK_COUNT else 0)
     OR (if scr0 AND SCR_CMD_SUPP_SPEED_CLASS \<noteq> 0 then SD_SUPP_SPEED_CLASS else 0)"

definition sdReadSCR :: "'h device \<Rightarrow> 'h sdst \<Rightarrow> (u32 \<times> 'h sdst) option" where
  "sdReadSCR D s =
     (let (busy, s1) = sdWaitForData D s
      in if busy \<noteq> 0 then Some (SD_TIMEOUT, s1)
         else do { (resp, s2) \<leftarrow> sdSendCommand D IX_SEND_SCR (wr D EMMC_BLKSIZECNT (push_bit 16 1 OR 8) s1);
                   if resp \<noteq> 0 then sdDebugResponse D resp s2
                   else let (resp, s3) = sdWaitForInterrupt D INT_READ_RDY s2
                        in if resp \<noteq> 0 then sdDebugResponse D resp s3
                           else let (numRead, s4) = scr_loop D 0 100000 s3
                                in if numRead \<noteq> 2
                                   then Some (SD_TIMEOUT, peek_regs D [EMMC_STATUS, EMMC_INTERRUPT, EMMC_RESP0] s4)
                                   else Some (SD_OK, upd_card (\<lambda>c. c\<lparr>support := support c OR scr_support (scr c ! 0)\<rparr>) s4) })"

section \<open>The clock\<close>

text \<open>One step of \<open>fls_long\<close>: no bit of \<open>m\<close> is set, so the word moves up by \<open>n\<close>.\<close>

definition fls_step :: "u64 \<Rightarrow> nat \<Rightarrow> u64 \<times> int \<Rightarrow> u64 \<times> int" where
  "fls_step m n = (\<lambda>(x, r). if x AND m = 0 then (push_bit n x, r - int n) else (x, r))"

definition fls_long :: "u64 \<Rightarrow> int" where
  "fls_long x =
     (if x = 0 then 0
      else snd (fls_step 0x80000000 1 (fls_step 0xc0000000 2 (fls_step 0xf0000000 4
             (fls_step 0xff000000 8 (fls_step 0xffff0000 16 (x, 32)))))))"

definition roundup_pow_of_two :: "u64 \<Rightarrow> u64" where
  "roundup_pow_of_two x = push_bit (nat (fls_long (x - 1))) 1"

definition sdGetClockDivider :: "u32 \<Rightarrow> u32 \<Rightarrow> u32" where
  "sdGetClockDivider hostVer freq =
     (let closest = 41666666 div freq;
          sc0 = (of_int (fls_long (ucast (closest - 1))) :: u32);
          sc1 = (if sc0 > 0 then sc0 - 1 else sc0);
          shiftcount = (if sc1 > 7 then 7 else sc1);
          d0 = (if hostVer > HOST_SPEC_V2 then closest else push_bit (unat shiftcount) 1);
          divisor = (if d0 \<le> 2 then 2 else d0);
          hi = (if hostVer > HOST_SPEC_V2 then drop_bit 2 (divisor AND 0x300) else 0);
          lo = divisor AND 0x0ff
      in push_bit 8 lo + hi)"

definition modify_reg :: "'h device \<Rightarrow> u32 \<Rightarrow> (u32 \<Rightarrow> u32) \<Rightarrow> 'h sdst \<Rightarrow> 'h sdst" where
  "modify_reg D r f s = (let (v, s1) = rd D r s in wr D r (f v) s1)"

definition sdSetClock :: "'h device \<Rightarrow> u32 \<Rightarrow> 'h sdst \<Rightarrow> u32 \<times> 'h sdst" where
  "sdSetClock D freq s =
     (let (timeout, s1) = poll_pre D (\<lambda>s. let (st, s') = rd D EMMC_STATUS s in (st AND (SR_CMD_INHIBIT OR SR_DAT_INHIBIT) = 0, s')) 1 100000 s
      in if timeout then (SD_ERROR_CLOCK, peek_regs D [EMMC_STATUS] s1)
         else let s2 = sd_delayus D 10 (modify_reg D EMMC_CONTROL1 (\<lambda>v. v AND NOT C1_CLK_EN) s1);
                  cdiv = sdGetClockDivider (sdHostVer s2) freq;
                  s3 = sd_delayus D 10 (modify_reg D EMMC_CONTROL1 (\<lambda>v. (v AND 0xffff003f) OR cdiv) s2);
                  s4 = sd_delayus D 10 (modify_reg D EMMC_CONTROL1 (\<lambda>v. v OR C1_CLK_EN) s3);
                  (count, s5) = poll_post D (\<lambda>s. let (v, s') = rd D EMMC_CONTROL1 s in (v AND C1_CLK_STABLE \<noteq> 0, s')) 10 10000 s4
              in if count \<le> 0 then (SD_ERROR_CLOCK, s5)
                 else (SD_OK, peek_regs D [EMMC_STATUS, EMMC_CONTROL1] s5))"

section \<open>Reset and operating conditions\<close>

definition sdResetCard :: "'h device \<Rightarrow> u32 \<Rightarrow> 'h sdst \<Rightarrow> (u32 \<times> 'h sdst) option" where
  "sdResetCard D resetType s =
     (let s1 = sd_delayus D 10 (modify_reg D EMMC_CONTROL1 (\<lambda>v. v OR resetType) (wr D EMMC_CONTROL0 0 s));
          (count, s2) = poll_post D (\<lambda>s. let (v, s') = rd D EMMC_CONTROL1 s in (v AND resetType = 0, s')) 10 10000 s1
      in if count \<le> 0 then Some (SD_ERROR_RESET, s2)
         else let s3 = sd_delayus D 10 (modify_reg D EMMC_CONTROL1 (\<lambda>v. v OR (C1_CLK_INTLEN OR C1_TOUNIT_MAX)) s2);
                  (resp, s4) = sdSetClock D FREQ_SETUP s3
              in if resp \<noteq> 0 then Some (resp, s4)
                 else let s5 = wr D EMMC_IRPT_MASK 0xffffffff
                               (wr D EMMC_IRPT_EN (0xffffffff AND NOT INT_CMD_DONE AND NOT INT_WRITE_RDY) s4);
                          s6 = upd_card (\<lambda>c. c\<lparr>rca := 0, ocr := 0, lastArg := 0, lastCmd := None, card_status := 0,
                                               card_type := 0, uhsi := 0\<rparr>) s5
                      in sdSendCommand D IX_GO_IDLE_STATE s6)"

text \<open>The retries of ACMD41: an error other than a timeout ends them with \<open>Inl\<close>.\<close>

fun op_cond_loop :: "'h device \<Rightarrow> u32 \<Rightarrow> nat \<Rightarrow> 'h sdst \<Rightarrow> ((u32 + unit) \<times> 'h sdst) option" where
  "op_cond_loop D arg 0 s = Some (Inr (), s)"
| "op_cond_loop D arg (Suc count) s =
     (if ocr (sdCard s) AND R3_COMPLETE \<noteq> 0 then Some (Inr (), s)
      else do { (resp, s1) \<leftarrow> sdSendCommandA D IX_APP_SEND_OP_COND arg (spin_delay D 50000 (peek_regs D [EMMC_STATUS] s));
                if resp \<noteq> 0 \<and> resp \<noteq> SD_TIMEOUT then Some (Inl resp, s1)
                else op_cond_loop D arg count s1 })"

definition sdAppSendOpCond :: "'h device \<Rightarrow> u32 \<Rightarrow> 'h sdst \<Rightarrow> (u32 \<times> 'h sdst) option" where
  "sdAppSendOpCond D arg s =
     do { (resp, s1) \<leftarrow> sdSendCommandA D IX_APP_SEND_OP_COND arg (peek_regs D [EMMC_STATUS] s);
          if resp \<noteq> 0 \<and> resp \<noteq> SD_TIMEOUT then Some (resp, s1)
          else do { (r, s2) \<leftarrow> op_cond_loop D arg 6 s1;
                    case r of
                      Inl resp \<Rightarrow> Some (resp, s2)
                    | Inr _ \<Rightarrow> if ocr (sdCard s2) AND R3_COMPLETE = 0 then Some (SD_TIMEOUT, s2)
                              else if ocr (sdCard s2) AND ACMD41_VOLTAGE = 0 then Some (SD_ERROR_VOLTAGE, s2)
                              else Some (SD_OK, s2) } }"

definition sdSwitchVoltage :: "u32" where "sdSwitchVoltage = SD_OK"

definition pull_up :: "'h device \<Rightarrow> u32 \<Rightarrow> 'h sdst \<Rightarrow> 'h sdst" where
  "pull_up D pins s =
     wr D GPPUDCLK1 0 (wr D GPPUD 0 (spin_delay D 150 (wr D GPPUDCLK1 pins (spin_delay D 150 (wr D GPPUD 2 s)))))"

definition sdInitGPIO :: "'h device \<Rightarrow> 'h sdst \<Rightarrow> 'h sdst" where
  "sdInitGPIO D s =
     (let s1 = pull_up D (push_bit 15 1) (modify_reg D GPFSEL4 (\<lambda>r. r AND NOT (push_bit 21 7)) s);
          s2 = modify_reg D GPHEN1 (\<lambda>r. r OR push_bit 15 1) s1;
          s3 = pull_up D (push_bit 16 1 OR push_bit 17 1) (modify_reg D GPFSEL4 (\<lambda>r. r OR (push_bit 24 7 OR push_bit 27 7)) s2)
      in pull_up D (push_bit 18 1 OR push_bit 19 1 OR push_bit 20 1 OR push_bit 21 1)
           (modify_reg D GPFSEL5 (\<lambda>r. r OR (push_bit 0 7 OR push_bit 3 7 OR push_bit 6 7 OR push_bit 9 7)) s3))"

section \<open>The mailbox\<close>

partial_function (option) mbox_wait :: "'h device \<Rightarrow> u32 \<Rightarrow> 'h sdst \<Rightarrow> 'h sdst option" where
  "mbox_wait D flag s = (let (v, s1) = rd D MBOX_STATUS s in if v AND flag = 0 then Some s1 else mbox_wait D flag s1)"

partial_function (option) mbox_read :: "'h device \<Rightarrow> u32 \<Rightarrow> 'h sdst \<Rightarrow> (u32 \<times> 'h sdst) option" where
  "mbox_read D chan s =
     do { s1 \<leftarrow> mbox_wait D MBOX_EMPTY s;
          let (r, s2) = rd D MBOX_READ s1;
          if r AND 0xF = chan then Some (drop_bit 4 r, s2) else mbox_read D chan s2 }"

definition mbox_write :: "'h device \<Rightarrow> u32 \<Rightarrow> u32 \<Rightarrow> 'h sdst \<Rightarrow> 'h sdst option" where
  "mbox_write D buf chan s =
     (if \<not> (buf AND 0xF = 0 \<and> chan AND NOT 0xF = 0) then PANIC
      else do { s1 \<leftarrow> mbox_wait D MBOX_FULL s;
                Some (wr D MBOX_WRITE ((buf AND NOT 0xF) OR chan) s1) })"

text \<open>
  The request is in memory at \<open>buf\<close>, where the GPU writes its answer; the caller's argument is
  ignored and the clock asked for is number 1.
\<close>

definition mbox_get_clock_rate :: "'h device \<Rightarrow> u32 \<Rightarrow> 'h sdst \<Rightarrow> (u32 \<times> 'h sdst) option" where
  "mbox_get_clock_rate D buf s =
     (if buf AND 0xF \<noteq> 0 then PANIC
      else do { s1 \<leftarrow> mbox_write D buf 8 s;
                (_, s2) \<leftarrow> mbox_read D 8 s1;
                let (answer, h) = dmbox_buf D (hw s2);
                Some (answer ! 6, s2\<lparr>hw := h\<rparr>) })"

text \<open>The size of the memory is asked for in the same way; it has to start at 0 and not be empty.\<close>

definition mbox_get_arm_memory :: "'h device \<Rightarrow> u32 \<Rightarrow> 'h sdst \<Rightarrow> (u32 \<times> 'h sdst) option" where
  "mbox_get_arm_memory D buf s =
     (if buf AND 0xF \<noteq> 0 then PANIC
      else do { s1 \<leftarrow> mbox_write D buf 8 s;
                (_, s2) \<leftarrow> mbox_read D 8 s1;
                let (answer, h) = dmbox_buf D (hw s2);
                if answer ! 5 \<noteq> 0 \<or> answer ! 6 = 0 then PANIC else Some (answer ! 6, s2\<lparr>hw := h\<rparr>) })"

definition sdGetBaseClock :: "'h device \<Rightarrow> u32 \<Rightarrow> 'h sdst \<Rightarrow> (u32 \<times> 'h sdst) option" where
  "sdGetBaseClock D buf s =
     do { (rate, s1) \<leftarrow> mbox_get_clock_rate D buf s;
          let s2 = s1\<lparr>sdBaseClock := rate\<rparr>;
          if rate = - 1 then Some (SD_ERROR, s2) else Some (SD_OK, s2) }"

section \<open>Initialisation\<close>

definition csd_capacity :: "u32 list \<Rightarrow> u64" where
  "csd_capacity d =
     (if d ! 0 AND CSD0_VERSION = CSD0_V1 then
        (let csize = push_bit 10 (d ! 1 AND CSD1V1_C_SIZEH) + drop_bit 22 (d ! 2 AND CSD2V1_C_SIZEL);
             mult = push_bit (unat (drop_bit 7 (d ! 2 AND CSD2V1_C_SIZE_MULT)) + 2) 1;
             blockSize = push_bit (unat (drop_bit 8 (d ! 1 AND CSD1VN_READ_BL_LEN))) 1
         in (ucast csize + 1) * mult * blockSize)
      else (ucast (drop_bit 8 (d ! 2 AND CSD2V2_C_SIZE)) + 1) * 512 * 1024)"

definition sdParseCSD :: "'h sdst \<Rightarrow> 'h sdst" where
  "sdParseCSD = upd_card (\<lambda>c. c\<lparr>capacity := csd_capacity (csd c), fileFormat := csd c ! 3 AND CSD3VN_FILE_FORMAT\<rparr>)"

text \<open>\<open>if ((resp = ...)) return resp\<close>, with and without \<open>sdDebugResponse\<close>.\<close>

definition or_return :: "(u32 \<times> 'h sdst) option \<Rightarrow> ('h sdst \<Rightarrow> (u32 \<times> 'h sdst) option) \<Rightarrow> (u32 \<times> 'h sdst) option" where
  "or_return m f = do { (resp, s) \<leftarrow> m; if resp \<noteq> 0 then Some (resp, s) else f s }"

definition or_debug :: "'h device \<Rightarrow> (u32 \<times> 'h sdst) option \<Rightarrow> ('h sdst \<Rightarrow> (u32 \<times> 'h sdst) option) \<Rightarrow> (u32 \<times> 'h sdst) option" where
  "or_debug D m f = do { (resp, s) \<leftarrow> m; if resp \<noteq> 0 then sdDebugResponse D resp s else f s }"

text \<open>The kind of card, by its answer to SEND_IF_COND.\<close>

definition find_card_type :: "'h device \<Rightarrow> 'h sdst \<Rightarrow> (u32 \<times> 'h sdst) option" where
  "find_card_type D s =
     do { (resp, s1) \<leftarrow> sdSendCommandA D IX_SEND_IF_COND 0x000001AA s;
          if resp = SD_OK then
            or_debug D (sdAppSendOpCond D ACMD41_ARG_HC (spin_delay D 50 s1)) (\<lambda>s2.
              Some (SD_OK, upd_card (\<lambda>c. c\<lparr>card_type := if ocr c AND R3_CCS \<noteq> 0 then SD_TYPE_2_HC else SD_TYPE_2_SC\<rparr>) s2))
          else if resp = SD_BUSY then Some (resp, s1)
          else let (st, s2) = rd D EMMC_STATUS s1
               in or_return (if st AND SR_CMD_INHIBIT \<noteq> 0 then sdResetCard D C1_SRST_HC s2 else Some (SD_OK, s2)) (\<lambda>s3.
                    or_debug D (sdAppSendOpCond D ACMD41_ARG_SC s3) (\<lambda>s4.
                      Some (SD_OK, upd_card (\<lambda>c. c\<lparr>card_type := SD_TYPE_1\<rparr>) s4))) }"

definition set_bus_width :: "'h device \<Rightarrow> 'h sdst \<Rightarrow> (u32 \<times> 'h sdst) option" where
  "set_bus_width D s =
     (if support (sdCard s) AND SD_SUPP_BUS_WIDTH_4 \<noteq> 0 then
        or_debug D (sdSendCommandA D IX_SET_BUS_WIDTH (rca (sdCard s) OR 2) s) (\<lambda>s1.
          Some (SD_OK, modify_reg D EMMC_CONTROL0 (\<lambda>v. v OR C0_HCTL_DWITDH) s1))
      else Some (SD_OK, s))"

text \<open>Identification, selection and set up of the card.\<close>

definition setup_card :: "'h device \<Rightarrow> u32 list \<Rightarrow> 'h sdst \<Rightarrow> (u32 \<times> 'h sdst) option" where
  "setup_card D oldCID s =
     or_return (Some (if ocr (sdCard s) AND R3_S18A \<noteq> 0 then sdSwitchVoltage else SD_OK, s)) (\<lambda>s.
     or_debug D (sdSendCommand D IX_ALL_SEND_CID s) (\<lambda>s.
     or_debug D (sdSendCommand D IX_SEND_REL_ADDR s) (\<lambda>s.
     or_debug D (sdSendCommand D IX_SEND_CSD s) (\<lambda>s.
       let s1 = sdParseCSD s
       in if fileFormat (sdCard s1) \<noteq> CSD3VN_FILE_FORMAT_DOSFAT \<and> fileFormat (sdCard s1) \<noteq> CSD3VN_FILE_FORMAT_HDD
          then Some (SD_ERROR, s1)
          else or_debug D (Some (sdSetClock D FREQ_NORMAL s1)) (\<lambda>s.
               or_debug D (sdSendCommand D IX_CARD_SELECT s) (\<lambda>s.
               or_debug D (sdReadSCR D s) (\<lambda>s.
               or_return (set_bus_width D s) (\<lambda>s.
               or_debug D (sdSendCommandA D IX_SET_BLOCKLEN 512 s) (\<lambda>s.
                 let s1 = upd_card (\<lambda>c. c\<lparr>card_init := 1\<rparr>) s
                 in Some (if oldCID = cid (sdCard s1) then SD_CARD_REINSERTED else SD_CARD_CHANGED, s1))))))))))"

text \<open>\<open>cardAbsent\<close> is 0 in the code, so the branch for it is left out.\<close>

definition sdInit :: "'h device \<Rightarrow> u32 \<Rightarrow> 'h sdst \<Rightarrow> (u32 \<times> 'h sdst) option" where
  "sdInit D buf s =
     (let s1 = (if card_init (sdCard s) = 0 then sdInitGPIO D s else s);
          (eds, s2) = rd D GPEDS1 s1;
          cardEjected = eds AND push_bit 15 1 \<noteq> 0;
          s3 = upd_card (\<lambda>c. c\<lparr>absent := 0\<rparr>) s2;
          (oldCID, s4) = (if cardEjected \<and> card_init (sdCard s3) \<noteq> 0
                          then (cid (sdCard s3), upd_card (\<lambda>c. c\<lparr>card_init := 0\<rparr>) s3)
                          else (replicate 4 0, s3))
      in if card_init (sdCard s4) \<noteq> 0 then Some (SD_OK, s4)
         else let (ver, s5) = rd D EMMC_SLOTISR_VER s4;
                  s6 = s5\<lparr>sdHostVer := drop_bit HOST_SPEC_NUM_SHIFT (ver AND HOST_SPEC_NUM)\<rparr>
              in or_return (sdGetBaseClock D buf s6) (\<lambda>s.
                 or_return (sdResetCard D C1_SRST_HC s) (\<lambda>s.
                 or_return (find_card_type D s) (setup_card D oldCID))))"

end
