(* ===== verification/Sd_Clock.thy ===== *)
theory Sd_Clock
  imports Sd_Init
begin

text \<open>
  The arithmetic of the clock (\<open>driver/sddef.h\<close>): \<open>fls_long\<close> is the number of binary digits of a
  value of 32 bits, and \<open>roundup_pow_of_two\<close> the least power of two that is not smaller.
\<close>

unbundle bit_operations_syntax

section \<open>Finding the highest bit\<close>

text \<open>The bits that one step looks at are the highest \<open>b\<close> of the 32.\<close>

lemma high_bits_clear:
  fixes x :: u64
  assumes "unat x < 2 ^ 32" "a + b = 32"
  shows "x AND push_bit a (2 ^ b - 1) = 0 \<longleftrightarrow> unat x < 2 ^ a"
proof -
  have high: "\<not> bit x i" if "32 \<le> i" for i
  proof -
    have "take_bit 32 x = x"
      using assms(1) by (simp add: word_unat_eq_iff unsigned_take_bit_eq take_bit_nat_eq_self)
    then show ?thesis
      using that by (metis bit_take_bit_iff not_le)
  qed
  have both: "bit (x AND push_bit a (2 ^ b - 1)) i \<longleftrightarrow> a \<le> i \<and> i < a + b \<and> bit x i" if "i < 64" for i
    using that assms(2) by (auto simp: bit_and_iff bit_push_bit_iff mask_eq_exp_minus_1 [symmetric] bit_mask_iff)
  have "x AND push_bit a (2 ^ b - 1) = 0 \<longleftrightarrow> drop_bit a x = 0"
  proof
    assume zero: "x AND push_bit a (2 ^ b - 1) = 0"
    have "\<not> bit x (a + i)" for i
    proof (cases "a + i < 32")
      case True
      then show ?thesis using both [of "a + i"] zero assms(2) by simp
    qed (simp add: high)
    then show "drop_bit a x = 0"
      by (intro bit_eqI) (simp add: bit_drop_bit_eq)
  next
    assume "drop_bit a x = 0"
    then have "bit (drop_bit a x) = bit (0 :: u64)"
      by simp
    then have low: "\<not> bit x (a + i)" for i
      unfolding bit_drop_bit_eq fun_eq_iff o_def by simp
    show "x AND push_bit a (2 ^ b - 1) = 0"
    proof (rule bit_word_eqI)
      fix i assume "i < LENGTH(64)"
      then show "bit (x AND push_bit a (2 ^ b - 1)) i = bit 0 i"
        using both [of i] low [of "i - a"] by auto
    qed
  qed
  also have "\<dots> \<longleftrightarrow> unat x < 2 ^ a"
    unfolding word_unat_eq_iff unsigned_drop_bit_eq by (simp add: drop_bit_eq_div div_eq_0_iff take_bit_nat_eq_self unsigned_less)
  finally show ?thesis .
qed

text \<open>What is known of the word and of the count: \<open>n\<close> has been moved up by \<open>32 - r\<close>.\<close>

definition fls_inv :: "nat \<Rightarrow> nat \<Rightarrow> u64 \<times> int \<Rightarrow> bool" where
  "fls_inv n l = (\<lambda>(x, r). \<exists>k. r = 32 - int k \<and> unat x = n * 2 ^ k \<and> 2 ^ l \<le> unat x \<and> unat x < 2 ^ 32)"

lemma fls_step_inv:
  assumes "fls_inv n l p" "m = push_bit a (2 ^ b - 1)" "a + b = 32" "l + b = a"
  shows "fls_inv n a (fls_step m b p)"
proof (cases p)
  case (Pair x r)
  from assms(1) Pair obtain k where k: "r = 32 - int k" "unat x = n * 2 ^ k" "2 ^ l \<le> unat x" "unat x < 2 ^ 32"
    by (auto simp: fls_inv_def)
  show ?thesis
  proof (cases "x AND m = 0")
    case True
    then have lt: "unat x < 2 ^ a"
      using high_bits_clear [OF k(4) assms(3)] assms(2) by simp
    have less: "unat x * 2 ^ b < 2 ^ 32"
      using mult_strict_right_mono [OF lt, of "2 ^ b"] assms(3) by (simp add: power_add [symmetric])
    then have eq: "unat (push_bit b x) = unat x * 2 ^ b"
      unfolding unsigned_push_bit_eq by (simp add: push_bit_eq_mult take_bit_nat_eq_self)
    have "2 ^ a \<le> unat x * (2 ^ b :: nat)"
      using mult_right_mono [OF k(3), of "2 ^ b"] assms(4) by (simp add: power_add [symmetric])
    then show ?thesis
      using True Pair k less eq
      by (auto simp: fls_step_def fls_inv_def power_add intro!: exI [of _ "k + b"])
  next
    case False
    then have "2 ^ a \<le> unat x"
      using high_bits_clear [OF k(4) assms(3)] assms(2) by simp
    then show ?thesis
      using False Pair k by (auto simp: fls_step_def fls_inv_def intro!: exI [of _ k])
  qed
qed

lemma fls_long_digits:
  assumes "0 < x" "x < 2 ^ 32"
  obtains d where "fls_long x = int d" "0 < d" "d \<le> 32" "2 ^ (d - 1) \<le> unat x" "unat x < 2 ^ d"
proof -
  have pos: "0 < unat x" and lt: "unat x < 2 ^ 32"
    using assms by (auto simp: word_less_nat_alt unat_gt_0)
  then have "fls_inv (unat x) 0 (x, 32)"
    by (auto simp: fls_inv_def intro!: exI [of _ 0])
  then have "fls_inv (unat x) 16 (fls_step 0xffff0000 16 (x, 32))"
    by (rule fls_step_inv) (auto simp: push_bit_eq_mult)
  then have "fls_inv (unat x) 24 (fls_step 0xff000000 8 (fls_step 0xffff0000 16 (x, 32)))"
    by (rule fls_step_inv) (auto simp: push_bit_eq_mult)
  then have "fls_inv (unat x) 28 (fls_step 0xf0000000 4 (fls_step 0xff000000 8 (fls_step 0xffff0000 16 (x, 32))))"
    by (rule fls_step_inv) (auto simp: push_bit_eq_mult)
  then have "fls_inv (unat x) 30 (fls_step 0xc0000000 2 (fls_step 0xf0000000 4 (fls_step 0xff000000 8 (fls_step 0xffff0000 16 (x, 32)))))"
    by (rule fls_step_inv) (auto simp: push_bit_eq_mult)
  then have "fls_inv (unat x) 31 (fls_step 0x80000000 1 (fls_step 0xc0000000 2 (fls_step 0xf0000000 4
      (fls_step 0xff000000 8 (fls_step 0xffff0000 16 (x, 32))))))"
    by (rule fls_step_inv) (auto simp: push_bit_eq_mult)
  moreover have "fls_long x = snd (fls_step 0x80000000 1 (fls_step 0xc0000000 2 (fls_step 0xf0000000 4
      (fls_step 0xff000000 8 (fls_step 0xffff0000 16 (x, 32))))))"
    using assms by (auto simp: fls_long_def)
  ultimately have "\<exists>y. fls_inv (unat x) 31 (y, fls_long x)"
    by (metis prod.collapse)
  then obtain y :: u64 and k where y: "fls_long x = 32 - int k" "unat y = unat x * 2 ^ k" "2 ^ 31 \<le> unat y" "unat y < 2 ^ 32"
    unfolding fls_inv_def prod.case by blast
  have "k < 32"
  proof (rule ccontr)
    assume "\<not> k < 32"
    then have "(2::nat) ^ 32 \<le> 2 ^ k" by (intro power_increasing) auto
    also have "\<dots> \<le> unat x * 2 ^ k" using pos by simp
    finally show False using y(2,4) by simp
  qed
  then obtain e where e: "31 = k + e"
    using le_Suc_ex [of k 31] by auto
  have "2 ^ e * 2 ^ k \<le> unat x * (2::nat) ^ k"
    using y(2,3) e by (simp add: power_add mult.commute)
  moreover have "2 ^ Suc e * (2::nat) ^ k = 2 ^ 32"
    using e by (simp add: power_add [symmetric] add.commute)
  then have "unat x * 2 ^ k < 2 ^ Suc e * (2::nat) ^ k"
    using y(2,4) by metis
  ultimately show thesis
    using y(1) e by (intro that [of "Suc e"]) auto
qed

section \<open>Powers of two\<close>

text \<open>
  Rounding up to a power of two.  For every value from 1 to \<open>2 ^ 32\<close> the result is the least power
  of two that is not smaller.  The parameter has 64 bits but only its lower 32 are looked at: for
  \<open>2 ^ 32 + 1\<close> the answer is 2.
\<close>

lemma roundup_exact:
  fixes x :: u64
  assumes "0 < x" "x \<le> 2 ^ 32"
  shows "(\<exists>k. unat (roundup_pow_of_two x) = 2 ^ k) \<and> unat x \<le> unat (roundup_pow_of_two x) \<and>
         (\<forall>j. unat x \<le> 2 ^ j \<longrightarrow> unat (roundup_pow_of_two x) \<le> 2 ^ j) \<and>
         roundup_pow_of_two (2 ^ 32 + 1) = 2"
proof -
  have wide: "roundup_pow_of_two (2 ^ 32 + 1) = 2"
    by (simp add: roundup_pow_of_two_def fls_long_def fls_step_def push_bit_eq_mult)
  have pred: "unat (x - 1) = unat x - 1" and pos: "0 < unat x" and le: "unat x \<le> 2 ^ 32"
    using assms by (auto simp: unat_minus_one word_le_nat_alt unat_gt_0)
  have pow: "unat (push_bit d 1 :: u64) = 2 ^ d" if "d \<le> 32" for d
    using that power_strict_increasing [of d 64 "2::nat"]
    unfolding unsigned_push_bit_eq by (simp add: push_bit_eq_mult take_bit_nat_eq_self)
  show ?thesis
  proof (cases "x = 1")
    case True
    then show ?thesis
      using wide by (auto simp: roundup_pow_of_two_def fls_long_def intro!: exI [of _ 0])
  next
    case False
    then have "0 < x - 1" "x - 1 < 2 ^ 32" and two: "2 \<le> unat x"
      using pred pos le by (auto simp: word_less_nat_alt word_unat_eq_iff)
    then obtain d where d: "fls_long (x - 1) = int d" "0 < d" "d \<le> 32" "2 ^ (d - 1) \<le> unat x - 1" "unat x - 1 < 2 ^ d"
      using fls_long_digits pred by metis
    then have r: "unat (roundup_pow_of_two x) = 2 ^ d"
      using pow [of d] by (simp add: roundup_pow_of_two_def del: push_bit_of_1)
    have "2 ^ d \<le> (2::nat) ^ j" if "unat x \<le> 2 ^ j" for j
    proof -
      have "2 ^ (d - 1) < (2::nat) ^ j"
        using d(4) that two by linarith
      then have "d - 1 < j"
        by (simp add: power_strict_increasing_iff)
      then show ?thesis
        by (intro power_increasing) auto
    qed
    then show ?thesis
      using r d(5) wide by auto
  qed
qed

end
