(* ===== verification/Sd_Props.thy ===== *)
theory Sd_Props
  imports Sd_Init
begin

text \<open>
  The initialisation of the SD card: it ends whatever the card does, never follows the NULL pointer to
  the last command, and its answer tells whether the card is set up.
\<close>

section \<open>What leaves the descriptor alone\<close>

named_theorems keeps_card \<open>operations on the hardware that do not change the descriptor\<close>

lemma rd_card [keeps_card]: "sdCard (snd (rd D r s)) = sdCard s"
  by (simp add: rd_def split: prod.splits)

lemma wr_card [keeps_card]: "sdCard (wr D r v s) = sdCard s"
  by (simp add: wr_def)

lemma delay_card [keeps_card]: "sdCard (sd_delayus D n s) = sdCard s" "sdCard (spin_delay D n s) = sdCard s"
  by (simp_all add: sd_delayus_def spin_delay_def)

lemma peek_card [keeps_card]: "sdCard (peek_regs D rs s) = sdCard s"
  by (induction rs arbitrary: s) (simp_all add: peek_regs_def keeps_card)

lemma modify_card [keeps_card]: "sdCard (modify_reg D r f s) = sdCard s"
  by (simp add: modify_reg_def case_prod_beta keeps_card)

lemma upd_card_card [simp]: "sdCard (upd_card f s) = f (sdCard s)"
  by (simp add: upd_card_def)

lemma poll_post_card:
  "(\<And>s. sdCard (snd (done s)) = sdCard s) \<Longrightarrow> sdCard (snd (poll_post D done d n s)) = sdCard s"
  by (induction n arbitrary: s) (simp_all add: case_prod_beta keeps_card)

lemma poll_pre_card:
  "(\<And>s. sdCard (snd (done s)) = sdCard s) \<Longrightarrow> sdCard (snd (poll_pre D done d n s)) = sdCard s"
  by (induction n arbitrary: s) (simp_all add: case_prod_beta keeps_card)

lemmas polls_card = poll_post_card poll_pre_card

lemma interrupt_card [keeps_card]: "sdCard (snd (sdWaitForInterrupt D irq s)) = sdCard s"
  by (simp add: sdWaitForInterrupt_def Let_def case_prod_beta keeps_card polls_card)

lemma inhibited_card [keeps_card]: "sdCard (snd (not_inhibited D i s)) = sdCard s"
  by (simp add: not_inhibited_def Let_def case_prod_beta keeps_card)

lemma wait_result_card [keeps_card]: "sdCard (snd (wait_result D t s)) = sdCard s"
  by (simp add: wait_result_def Let_def case_prod_beta keeps_card)

lemma wait_card [keeps_card]:
  "sdCard (snd (sdWaitForCommand D s)) = sdCard s" "sdCard (snd (sdWaitForData D s)) = sdCard s"
  by (simp_all add: sdWaitForCommand_def sdWaitForData_def Let_def case_prod_beta keeps_card polls_card)

lemma set_clock_card [keeps_card]: "sdCard (snd (sdSetClock D f s)) = sdCard s"
  by (simp add: sdSetClock_def Let_def case_prod_beta keeps_card polls_card)

lemma gpio_card [keeps_card]: "sdCard (sdInitGPIO D s) = sdCard s"
  by (simp add: sdInitGPIO_def pull_up_def Let_def keeps_card)

section \<open>Results\<close>

text \<open>
  A step of the initialisation ends in a state with a last command, without having marked the card as
  set up, and its answer is none of the two that say so.  For \<open>first\<close> the last command is only there
  on success: that is how the reset behaves.
\<close>

definition set_up :: "u32 \<Rightarrow> bool" where
  "set_up r \<longleftrightarrow> r = SD_CARD_CHANGED \<or> r = SD_CARD_REINSERTED"

definition has_cmd :: "'h sdst \<Rightarrow> bool" where
  "has_cmd s \<longleftrightarrow> lastCmd (sdCard s) \<noteq> None"

definition raw :: "'h sdst \<Rightarrow> bool" where
  "raw s \<longleftrightarrow> card_init (sdCard s) = 0"

definition step_ok :: "(u32 \<times> 'h sdst) option \<Rightarrow> bool" where
  "step_ok m \<longleftrightarrow> (\<exists>r s. m = Some (r, s) \<and> \<not> set_up r \<and> raw s \<and> has_cmd s)"

definition first_ok :: "(u32 \<times> 'h sdst) option \<Rightarrow> bool" where
  "first_ok m \<longleftrightarrow> (\<exists>r s. m = Some (r, s) \<and> \<not> set_up r \<and> raw s \<and> (r = 0 \<longrightarrow> has_cmd s))"

lemma step_ok_pair: "step_ok (Some p) \<longleftrightarrow> \<not> set_up (fst p) \<and> raw (snd p) \<and> has_cmd (snd p)"
  by (cases p) (simp add: step_ok_def)

lemma first_ok_pair: "first_ok (Some p) \<longleftrightarrow> \<not> set_up (fst p) \<and> raw (snd p) \<and> (fst p = 0 \<longrightarrow> has_cmd (snd p))"
  by (cases p) (simp add: first_ok_def)

lemma step_okI: "\<not> set_up r \<Longrightarrow> raw s \<Longrightarrow> has_cmd s \<Longrightarrow> step_ok (Some (r, s))"
  by (simp add: step_ok_def)

lemma step_okE:
  assumes "step_ok m"
  obtains r s where "m = Some (r, s)" "\<not> set_up r" "raw s" "has_cmd s"
  using assms by (auto simp: step_ok_def)

lemma step_first: "step_ok m \<Longrightarrow> first_ok m"
  by (auto simp: step_ok_def first_ok_def)

text \<open>The error bits of a card status are multiples of four without bit 3.\<close>

lemma error_bits: "\<not> set_up (w AND R1_ERRORS_MASK)"
proof
  assume "set_up (w AND R1_ERRORS_MASK)"
  then have "bit (w AND R1_ERRORS_MASK) 3"
    by (auto simp: set_up_def sd_codes bit_numeral_simps)
  then show False
    by (simp add: bit_and_iff R1_ERRORS_MASK_def)
qed

lemma small_codes [simp]:
  "\<not> set_up SD_OK" "\<not> set_up SD_ERROR" "\<not> set_up SD_TIMEOUT" "\<not> set_up SD_BUSY" "\<not> set_up SD_ERROR_RESET"
  "\<not> set_up SD_ERROR_CLOCK" "\<not> set_up SD_ERROR_VOLTAGE" "\<not> set_up SD_ERROR_APP_CMD" "\<not> set_up 0"
  by (simp_all add: set_up_def sd_codes)

lemma wait_codes:
  "\<not> set_up (fst (sdWaitForInterrupt D irq s))" "\<not> set_up (fst (wait_result D t s))" "\<not> set_up (fst (sdSetClock D f s))"
  by (simp_all add: sdWaitForInterrupt_def wait_result_def sdSetClock_def Let_def case_prod_beta)

lemma wait_state:
  "raw (snd (sdWaitForInterrupt D irq s)) = raw s" "has_cmd (snd (sdWaitForInterrupt D irq s)) = has_cmd s"
  "raw (snd (sdWaitForCommand D s)) = raw s" "has_cmd (snd (sdWaitForCommand D s)) = has_cmd s"
  "raw (snd (sdWaitForData D s)) = raw s" "has_cmd (snd (sdWaitForData D s)) = has_cmd s"
  "raw (snd (rd D r s)) = raw s" "has_cmd (snd (rd D r s)) = has_cmd s"
  "raw (wr D r v s) = raw s" "has_cmd (wr D r v s) = has_cmd s"
  "raw (sd_delayus D n s) = raw s" "has_cmd (sd_delayus D n s) = has_cmd s"
  "raw (spin_delay D n s) = raw s" "has_cmd (spin_delay D n s) = has_cmd s"
  "raw (peek_regs D rs s) = raw s" "has_cmd (peek_regs D rs s) = has_cmd s"
  "raw (snd (sdSetClock D f s)) = raw s" "has_cmd (snd (sdSetClock D f s)) = has_cmd s"
  "raw (modify_reg D r g s) = raw s" "has_cmd (modify_reg D r g s) = has_cmd s"
  by (simp_all add: raw_def has_cmd_def keeps_card)

section \<open>Commands\<close>

definition known_resp :: "EMMCCommand \<Rightarrow> bool" where
  "known_resp c \<longleftrightarrow> cmd_resp c \<in> {RESP_NO, RESP_R1, RESP_R1b, RESP_R2I, RESP_R2S, RESP_R3, RESP_R6, RESP_R7}"

lemma table_known: "i < 39 \<Longrightarrow> known_resp (sdCommandTable ! i)"
proof -
  have "list_all known_resp sdCommandTable" "length sdCommandTable = 39"
    by (simp_all add: sdCommandTable_def known_resp_def)
  then show "i < 39 \<Longrightarrow> known_resp (sdCommandTable ! i)"
    by (simp add: list_all_length)
qed

lemma handle_response_ok:
  assumes "known_resp c" "raw s" "has_cmd s"
  shows "step_ok (handle_response D c a w s)"
  using assms unfolding known_resp_def
  by (auto simp: handle_response_def Let_def case_prod_beta step_ok_def error_bits raw_def has_cmd_def keeps_card)

lemma send_raw:
  assumes "known_resp c" "raw s"
  shows "first_ok (sdSendCommandP D c a s) \<and> (has_cmd s \<longrightarrow> step_ok (sdSendCommandP D c a s))"
proof -
  obtain busy s1 where w: "sdWaitForCommand D s = (busy, s1)" by force
  define t where "t = upd_card (\<lambda>c'. c'\<lparr>lastCmd := Some c, lastArg := a\<rparr>) s1"
  have s1: "raw s1" "has_cmd s1 = has_cmd s"
    using wait_state(3,4) [of D s] assms w by simp_all
  then have t: "raw t" "has_cmd t"
    by (simp_all add: t_def raw_def has_cmd_def)
  show ?thesis
  proof (cases "busy = 0")
    case False
    then show ?thesis
      using w s1 by (simp add: sdSendCommandP_def step_ok_def first_ok_def SD_BUSY_def set_up_def sd_codes)
  next
    case True
    have "step_ok (sdSendCommandP D c a s)"
      using t True
      by (simp add: sdSendCommandP_def w t_def [symmetric] Let_def case_prod_beta wait_codes wait_state step_ok_pair handle_response_ok assms)
    then show ?thesis
      by (simp add: step_first)
  qed
qed

lemma debug_ok: "\<not> set_up r \<Longrightarrow> raw s \<Longrightarrow> has_cmd s \<Longrightarrow> step_ok (sdDebugResponse D r s)"
  by (auto simp: sdDebugResponse_def step_ok_def wait_state split: option.splits) (simp add: has_cmd_def)

lemma send_table_ok: "i < 39 \<Longrightarrow> raw s \<Longrightarrow> has_cmd s \<Longrightarrow> step_ok (sdSendCommandP D (sdCommandTable ! i) a s)"
  using send_raw [OF table_known] by blast

lemma app_ok:
  assumes "raw s" "has_cmd s"
  shows "step_ok (sdSendAppCommand D s)"
proof (cases "rca (sdCard s) = 0")
  case True
  have "step_ok (sdSendCommandP D (sdCommandTable ! IX_APP_CMD) 0 s)"
    using assms by (intro send_table_ok) (auto simp: command_indices)
  then show ?thesis
    using True by (auto simp: sdSendAppCommand_def step_ok_pair elim!: step_okE)
next
  case False
  have "step_ok (sdSendCommandP D (sdCommandTable ! IX_APP_CMD_RCA) (rca (sdCard s)) s)"
    using assms by (intro send_table_ok) (auto simp: command_indices)
  then show ?thesis
    using False by (auto simp: sdSendAppCommand_def step_ok_pair debug_ok elim!: step_okE)
qed

lemma send_with_ok:
  assumes "i < 39" "raw s" "has_cmd s"
  shows "step_ok (send_with D i arg s)"
proof -
  have "step_ok (if IX_APP_CMD_START \<le> i then sdSendAppCommand D s else Some (SD_OK, s))"
    using assms app_ok by (auto intro: step_okI)
  then obtain r t where t: "(if IX_APP_CMD_START \<le> i then sdSendAppCommand D s else Some (SD_OK, s)) = Some (r, t)"
      "\<not> set_up r" "raw t" "has_cmd t"
    by (rule step_okE)
  have "step_ok (sdSendCommandP D (sdCommandTable ! i) (arg (sdCard t)) t)"
    using send_table_ok assms(1) t(3,4) by blast
  then show ?thesis
    using t by (auto simp: send_with_def debug_ok step_ok_pair elim!: step_okE)
qed

lemma sends_ok:
  "i < 39 \<Longrightarrow> raw s \<Longrightarrow> has_cmd s \<Longrightarrow> step_ok (sdSendCommand D i s)"
  "i < 39 \<Longrightarrow> raw s \<Longrightarrow> has_cmd s \<Longrightarrow> step_ok (sdSendCommandA D i a s)"
  by (simp_all add: sdSendCommand_def sdSendCommandA_def send_with_ok)

section \<open>The steps of the initialisation\<close>

lemma upd_state:
  "card_init (f (sdCard s)) = card_init (sdCard s) \<Longrightarrow> raw (upd_card f s) = raw s"
  "lastCmd (f (sdCard s)) = lastCmd (sdCard s) \<Longrightarrow> has_cmd (upd_card f s) = has_cmd s"
  by (simp_all add: raw_def has_cmd_def)

lemma scr_loop_state: "raw (snd (scr_loop D k n s)) = raw s \<and> has_cmd (snd (scr_loop D k n s)) = has_cmd s"
proof (induction D k n s rule: scr_loop.induct)
  case (1 D k n s)
  obtain st s1 where st: "rd D EMMC_STATUS s = (st, s1)" by force
  obtain v s2 where v: "rd D EMMC_DATA s1 = (v, s2)" by force
  have "raw s1 = raw s" "has_cmd s1 = has_cmd s" "raw s2 = raw s1" "has_cmd s2 = has_cmd s1"
    using wait_state(7,8) [of D EMMC_STATUS s] wait_state(7,8) [of D EMMC_DATA s1] st v by simp_all
  with 1 st v show ?case
    by (subst (1 2) scr_loop.simps) (auto simp: wait_state upd_state Let_def)
qed

lemma read_scr_ok:
  assumes "raw s" "has_cmd s"
  shows "step_ok (sdReadSCR D s)"
proof (cases "fst (sdWaitForData D s) = 0")
  case False
  then show ?thesis
    using assms by (simp add: sdReadSCR_def case_prod_beta step_ok_pair wait_state)
next
  case True
  define t where "t = wr D EMMC_BLKSIZECNT 65544 (snd (sdWaitForData D s))"
  have "step_ok (sdSendCommand D IX_SEND_SCR t)"
    using assms by (intro sends_ok) (auto simp: t_def wait_state command_indices)
  then obtain r u where u: "sdSendCommand D IX_SEND_SCR t = Some (r, u)" "\<not> set_up r" "raw u" "has_cmd u"
    by (rule step_okE)
  then show ?thesis
    using True
    by (auto simp: sdReadSCR_def case_prod_beta t_def [symmetric] Let_def debug_ok step_ok_pair wait_state wait_codes
        scr_loop_state upd_state)
qed

lemma op_cond_loop_ok:
  assumes "raw s" "has_cmd s"
  shows "\<exists>r t. op_cond_loop D a n s = Some (r, t) \<and> raw t \<and> has_cmd t \<and> (\<forall>e. r = Inl e \<longrightarrow> \<not> set_up e)"
  using assms
proof (induction n arbitrary: s)
  case (Suc n)
  have "step_ok (sdSendCommandA D IX_APP_SEND_OP_COND a (spin_delay D 50000 (peek_regs D [EMMC_STATUS] s)))"
    using Suc.prems by (intro sends_ok) (auto simp: wait_state command_indices)
  then show ?case
    using Suc by (auto elim!: step_okE)
qed simp

lemma op_cond_ok:
  assumes "raw s" "has_cmd s"
  shows "step_ok (sdAppSendOpCond D a s)"
proof -
  have "step_ok (sdSendCommandA D IX_APP_SEND_OP_COND a (peek_regs D [EMMC_STATUS] s))"
    using assms by (intro sends_ok) (auto simp: wait_state command_indices)
  then obtain r t where t: "sdSendCommandA D IX_APP_SEND_OP_COND a (peek_regs D [EMMC_STATUS] s) = Some (r, t)"
      "\<not> set_up r" "raw t" "has_cmd t"
    by (rule step_okE)
  obtain e u where "op_cond_loop D a 6 t = Some (e, u)" "raw u" "has_cmd u" "\<forall>x. e = Inl x \<longrightarrow> \<not> set_up x"
    using op_cond_loop_ok [OF t(3,4)] by metis
  then show ?thesis
    using t by (auto simp: sdAppSendOpCond_def step_ok_pair split: sum.splits)
qed

lemma table_no_rca: "cmd_rca (sdCommandTable ! 0) \<noteq> RCA_YES"
  by (simp add: sdCommandTable_def RCA_NO_def RCA_YES_def)

lemma reset_ok: "raw s \<Longrightarrow> first_ok (sdResetCard D k s)"
proof -
  assume "raw s"
  define s2 where "s2 = poll_post D (\<lambda>s. let (v, s') = rd D EMMC_CONTROL1 s in (v AND k = 0, s')) 10 10000
    (sd_delayus D 10 (modify_reg D EMMC_CONTROL1 (\<lambda>v. v OR k) (wr D EMMC_CONTROL0 0 s)))"
  have s2: "raw (snd s2)"
    using \<open>raw s\<close> by (simp add: s2_def raw_def keeps_card poll_post_card case_prod_beta)
  define p where "p = sdSetClock D FREQ_SETUP
    (sd_delayus D 10 (modify_reg D EMMC_CONTROL1 (\<lambda>v. v OR (C1_CLK_INTLEN OR C1_TOUNIT_MAX)) (snd s2)))"
  define u where "u = upd_card (\<lambda>c. c\<lparr>rca := 0, ocr := 0, lastArg := 0, lastCmd := None, card_status := 0,
      card_type := 0, uhsi := 0\<rparr>) (wr D EMMC_IRPT_MASK 0xffffffff
        (wr D EMMC_IRPT_EN (0xffffffff AND NOT INT_CMD_DONE AND NOT INT_WRITE_RDY) (snd p)))"
  have eq: "sdResetCard D k s =
      (if fst s2 \<le> 0 then Some (SD_ERROR_RESET, snd s2)
       else if fst p \<noteq> 0 then Some p else sdSendCommand D IX_GO_IDLE_STATE u)"
    unfolding sdResetCard_def u_def p_def s2_def Let_def case_prod_beta prod.collapse ..
  have p: "raw (snd p)" "\<not> set_up (fst p)"
    using s2 by (simp_all add: p_def wait_state wait_codes)
  have "first_ok (sdSendCommandP D (sdCommandTable ! IX_GO_IDLE_STATE) 0 u)"
    using send_raw [OF table_known, of IX_GO_IDLE_STATE u D 0] p(1)
    by (simp add: u_def upd_state wait_state command_indices)
  then have "first_ok (sdSendCommand D IX_GO_IDLE_STATE u)"
    by (auto simp: sdSendCommand_def send_with_def command_indices table_no_rca first_ok_def SD_OK_def)
  then show ?thesis
    using s2 p by (simp add: eq first_ok_pair) (simp add: SD_ERROR_RESET_def)
qed

section \<open>Composition\<close>

text \<open>
  How the whole of it ends: with an answer other than 0, and with a card that is marked as set up and
  has accepted the block length exactly when the answer says so.
\<close>

definition accepted :: "'h sdst \<Rightarrow> bool" where
  "accepted s \<longleftrightarrow> lastCmd (sdCard s) = Some (sdCommandTable ! IX_SET_BLOCKLEN) \<and> lastArg (sdCard s) = 512 \<and>
     card_status (sdCard s) AND R1_ERRORS_MASK = 0"

definition answer_ok :: "(u32 \<times> 'h sdst) option \<Rightarrow> bool" where
  "answer_ok m \<longleftrightarrow> (\<exists>r s. m = Some (r, s) \<and> r \<noteq> 0 \<and> card_init (sdCard s) = (if set_up r then 1 else 0) \<and>
     (set_up r \<longrightarrow> accepted s))"

lemma or_return_step:
  assumes "first_ok m" "\<And>s. raw s \<Longrightarrow> has_cmd s \<Longrightarrow> first_ok (f s)"
  shows "first_ok (or_return m f)"
  using assms by (auto simp: first_ok_def [of m] or_return_def first_ok_pair)

lemma or_debug_step:
  assumes "step_ok m" "\<And>s. raw s \<Longrightarrow> has_cmd s \<Longrightarrow> step_ok (f s)"
  shows "step_ok (or_debug D m f)"
  using assms by (auto simp: or_debug_def debug_ok elim!: step_okE)

lemma or_return_answer:
  assumes "first_ok m" "\<And>s. raw s \<Longrightarrow> has_cmd s \<Longrightarrow> answer_ok (f s)"
  shows "answer_ok (or_return m f)"
proof -
  obtain r s where m: "m = Some (r, s)" "\<not> set_up r" "raw s" "r = 0 \<longrightarrow> has_cmd s"
    using assms(1) by (auto simp: first_ok_def)
  show ?thesis
  proof (cases "r = 0")
    case True
    then show ?thesis
      using m assms(2) [of s] by (simp add: or_return_def)
  next
    case False
    then show ?thesis
      using m by (simp add: or_return_def answer_ok_def raw_def)
  qed
qed

lemma debug_nonzero: "\<not> set_up r \<Longrightarrow> raw s \<Longrightarrow> has_cmd s \<Longrightarrow> r \<noteq> 0 \<Longrightarrow> answer_ok (sdDebugResponse D r s)"
  by (auto simp: sdDebugResponse_def has_cmd_def answer_ok_def raw_def keeps_card)

lemma or_debug_answer:
  assumes "step_ok m" "\<And>s. raw s \<Longrightarrow> has_cmd s \<Longrightarrow> answer_ok (f s)"
  shows "answer_ok (or_debug D m f)"
  using assms by (auto simp: or_debug_def debug_nonzero elim!: step_okE)

lemma find_card_type_ok:
  assumes "raw s" "has_cmd s"
  shows "first_ok (find_card_type D s)"
proof -
  have "step_ok (sdSendCommandA D IX_SEND_IF_COND 0x000001AA s)"
    using assms by (intro sends_ok) (auto simp: command_indices)
  then obtain r t where t: "sdSendCommandA D IX_SEND_IF_COND 0x000001AA s = Some (r, t)" "\<not> set_up r" "raw t" "has_cmd t"
    by (rule step_okE)
  obtain st u where u: "rd D EMMC_STATUS t = (st, u)" by force
  then have u': "raw u" "has_cmd u"
    using t(3,4) wait_state(7,8) [of D EMMC_STATUS t] by simp_all
  have new: "step_ok (or_debug D (sdAppSendOpCond D ACMD41_ARG_HC (spin_delay D 50 t)) (\<lambda>s2.
      Some (SD_OK, upd_card (\<lambda>c. c\<lparr>card_type := if ocr c AND R3_CCS \<noteq> 0 then SD_TYPE_2_HC else SD_TYPE_2_SC\<rparr>) s2)))"
    using t(3,4) by (intro or_debug_step op_cond_ok) (auto simp: wait_state step_ok_pair upd_state)
  have old: "first_ok (or_return (if st AND SR_CMD_INHIBIT \<noteq> 0 then sdResetCard D C1_SRST_HC u else Some (SD_OK, u)) (\<lambda>s3.
      or_debug D (sdAppSendOpCond D ACMD41_ARG_SC s3) (\<lambda>s4. Some (SD_OK, upd_card (\<lambda>c. c\<lparr>card_type := SD_TYPE_1\<rparr>) s4))))"
    using u' by (intro or_return_step step_first [OF or_debug_step] op_cond_ok)
      (auto simp: reset_ok step_ok_pair first_ok_pair upd_state)
  show ?thesis
    using t step_first [OF new] old by (auto simp: find_card_type_def u first_ok_pair)
qed

lemma bus_width_ok:
  assumes "raw s" "has_cmd s"
  shows "step_ok (set_bus_width D s)"
proof (cases "support (sdCard s) AND SD_SUPP_BUS_WIDTH_4 = 0")
  case False
  have "step_ok (or_debug D (sdSendCommandA D IX_SET_BUS_WIDTH (rca (sdCard s) OR 2) s) (\<lambda>s1.
      Some (SD_OK, modify_reg D EMMC_CONTROL0 (\<lambda>v. v OR C0_HCTL_DWITDH) s1)))"
    using assms by (intro or_debug_step sends_ok) (auto simp: wait_state step_ok_pair command_indices)
  with False show ?thesis
    by (simp add: set_bus_width_def)
qed (use assms in \<open>simp add: set_bus_width_def step_ok_pair\<close>)

lemma block_length_accepted:
  assumes "sdSendCommandA D IX_SET_BLOCKLEN 512 s = Some (0, t)"
  shows "accepted t"
proof -
  have "sdSendCommandP D (sdCommandTable ! 13) 512 s = Some (0, t)"
    using assms by (auto simp: sdSendCommandA_def send_with_def command_indices SD_OK_def bind_eq_Some_conv split: if_splits)
  moreover have "cmd_resp (sdCommandTable ! 13) = RESP_R1"
    by (simp add: sdCommandTable_def)
  ultimately show ?thesis
    by (auto simp: sdSendCommandP_def handle_response_def Let_def case_prod_beta accepted_def IX_SET_BLOCKLEN_def
        SD_BUSY_def resp_types keeps_card split: if_splits)
qed

lemma setup_card_ok:
  assumes "raw s" "has_cmd s"
  shows "answer_ok (setup_card D old s)"
  unfolding setup_card_def
proof (rule or_return_answer, goal_cases)
  case 1
  show ?case
    using assms by (simp add: first_ok_pair sdSwitchVoltage_def)
next
  case (2 s)
  define fin where "fin = (\<lambda>s. or_debug D (sdSendCommandA D IX_SET_BLOCKLEN 512 s) (\<lambda>s.
      let s1 = upd_card (\<lambda>c. c\<lparr>card_init := 1\<rparr>) s
      in Some (if old = cid (sdCard s1) then SD_CARD_REINSERTED else SD_CARD_CHANGED, s1)))"
  have fin: "answer_ok (fin s)" if s: "raw s" "has_cmd s" for s
  proof -
    have "step_ok (sdSendCommandA D IX_SET_BLOCKLEN 512 s)"
      using s by (intro sends_ok) (auto simp: command_indices)
    then obtain r t where t: "sdSendCommandA D IX_SET_BLOCKLEN 512 s = Some (r, t)" "\<not> set_up r" "raw t" "has_cmd t"
      by (rule step_okE)
    then show ?thesis
      using block_length_accepted [of D s t] debug_nonzero [OF t(2-4), of D]
      by (auto simp: fin_def or_debug_def Let_def answer_ok_def set_up_def accepted_def sd_codes)
  qed
  have parsed: "raw (sdParseCSD s) = raw s" "has_cmd (sdParseCSD s) = has_cmd s" for s :: "'a sdst"
    by (simp_all add: sdParseCSD_def upd_state)
  have clock: "step_ok (Some (sdSetClock D FREQ_NORMAL s))" if "raw s" "has_cmd s" for s
    using that by (simp add: step_ok_pair wait_state wait_codes)
  have bad: "answer_ok (Some (SD_ERROR, s))" if "raw s" for s :: "'a sdst"
    using that by (simp add: answer_ok_def raw_def) (simp add: SD_ERROR_def)
  from 2 show ?case
    unfolding fin_def [symmetric]
    by (intro or_debug_answer sends_ok)
      (auto simp: command_indices Let_def parsed
         intro!: or_debug_answer sends_ok or_return_answer step_first bus_width_ok read_scr_ok clock bad fin)
qed

section \<open>The mailbox\<close>

lemma mbox_wait_card:
  assumes "mbox_wait D f s = Some t"
  shows "sdCard t = sdCard s"
proof (rule mbox_wait.raw_induct [where P = "\<lambda>D f s t. sdCard t = sdCard s", OF _ assms], goal_cases)
  case (1 wait D f s t)
  obtain v s1 where v: "rd D MBOX_STATUS s = (v, s1)" by force
  then have same: "sdCard s1 = sdCard s"
    using rd_card [of D MBOX_STATUS s] by simp
  show ?case
  proof (cases "v AND f = 0")
    case True
    then show ?thesis using 1(2) v same by simp
  next
    case False
    then have "wait D f s1 = Some t"
      using 1(2) v by simp
    then show ?thesis using 1(1) same by metis
  qed
qed

lemma mbox_read_card:
  assumes "mbox_read D c s = Some p"
  shows "sdCard (snd p) = sdCard s"
proof (rule mbox_read.raw_induct [where P = "\<lambda>D c s p. sdCard (snd p) = sdCard s", OF _ assms], goal_cases)
  case (1 again D c s p)
  then obtain s1 where s1: "mbox_wait D MBOX_EMPTY s = Some s1"
    by (auto simp: bind_eq_Some_conv)
  obtain r s2 where r: "rd D MBOX_READ s1 = (r, s2)" by force
  have same: "sdCard s2 = sdCard s"
    using mbox_wait_card [OF s1] rd_card [of D MBOX_READ s1] r by simp
  show ?case
  proof (cases "r AND 0xF = c")
    case True
    then show ?thesis using 1(2) s1 r same by auto
  next
    case False
    then have "again D c s2 = Some p"
      using 1(2) s1 r by simp
    then show ?thesis using 1(1) same by metis
  qed
qed

lemma clock_rate_card: "mbox_get_clock_rate D b s = Some (v, t) \<Longrightarrow> sdCard t = sdCard s"
  using mbox_wait_card mbox_read_card
  by (fastforce simp: mbox_get_clock_rate_def mbox_write_def bind_eq_Some_conv case_prod_beta Let_def wr_def split: if_splits)

lemma or_return_raw:
  assumes "m = Some (r, s)" "\<not> set_up r" "raw s" "\<And>s. raw s \<Longrightarrow> answer_ok (f s)"
  shows "answer_ok (or_return m f)"
  using assms by (cases "r = 0") (auto simp: or_return_def answer_ok_def raw_def)

text \<open>
  C9: The initialisation of a card that is not set up.  When the mailbox answers, \<open>sdInit\<close> ends for
  every behaviour of the card without a panic and without following the NULL pointer to the last
  command.  Its answer is never 0, which its comment gives for success: it is \<open>SD_CARD_CHANGED\<close> or
  \<open>SD_CARD_REINSERTED\<close> exactly when the card is marked as set up, and then the card has accepted the
  last command, a block length of 512, without an error bit in its status.
\<close>

theorem sdInit_answer:
  assumes "\<And>s. mbox_get_clock_rate D buf s \<noteq> None" "card_init (sdCard s) = 0"
  shows "\<exists>r s'. sdInit D buf s = Some (r, s') \<and> r \<noteq> 0 \<and>
      card_init (sdCard s') = (if r = SD_CARD_CHANGED \<or> r = SD_CARD_REINSERTED then 1 else 0) \<and>
      (card_init (sdCard s') = 1 \<longrightarrow> lastCmd (sdCard s') = Some (sdCommandTable ! IX_SET_BLOCKLEN) \<and>
         lastArg (sdCard s') = 512 \<and> card_status (sdCard s') AND R1_ERRORS_MASK = 0)"
proof -
  define s3 where "s3 = upd_card (\<lambda>c. c\<lparr>absent := 0\<rparr>) (snd (rd D GPEDS1 (sdInitGPIO D s)))"
  have s3: "raw s3"
    using assms(2) by (simp add: s3_def raw_def keeps_card)
  define s6 where "s6 = (snd (rd D EMMC_SLOTISR_VER s3))\<lparr>sdHostVer :=
      drop_bit HOST_SPEC_NUM_SHIFT (fst (rd D EMMC_SLOTISR_VER s3) AND HOST_SPEC_NUM)\<rparr>"
  have "raw s6"
    using s3 by (simp add: s6_def raw_def keeps_card)
  obtain rate t where t: "mbox_get_clock_rate D buf s6 = Some (rate, t)"
    using assms(1) [of s6] by auto
  then have "raw t"
    using \<open>raw s6\<close> clock_rate_card [OF t] by (simp add: raw_def)
  then have base: "sdGetBaseClock D buf s6 = Some (if rate = - 1 then SD_ERROR else SD_OK, t\<lparr>sdBaseClock := rate\<rparr>)"
      "raw (t\<lparr>sdBaseClock := rate\<rparr>)"
    by (simp_all add: sdGetBaseClock_def t raw_def)
  have "answer_ok (or_return (sdGetBaseClock D buf s6) (\<lambda>s. or_return (sdResetCard D C1_SRST_HC s) (\<lambda>s.
      or_return (find_card_type D s) (setup_card D (replicate 4 0)))))"
    by (rule or_return_raw [OF base(1) _ base(2)])
      (auto intro!: or_return_answer reset_ok find_card_type_ok setup_card_ok)
  moreover have "sdInit D buf s = or_return (sdGetBaseClock D buf s6) (\<lambda>s. or_return (sdResetCard D C1_SRST_HC s) (\<lambda>s.
      or_return (find_card_type D s) (setup_card D (replicate 4 0))))"
    using assms(2) s3
    by (simp add: sdInit_def Let_def case_prod_beta s3_def [symmetric] s6_def raw_def keeps_card)
  ultimately obtain r t where t: "sdInit D buf s = Some (r, t)" "r \<noteq> 0" "card_init (sdCard t) = (if set_up r then 1 else 0)"
      "set_up r \<longrightarrow> accepted t"
    by (auto simp: answer_ok_def)
  then show ?thesis
    by (intro exI [of _ r] exI [of _ t]) (simp add: set_up_def accepted_def)
qed

text \<open>A card that answers nothing behind a mailbox that does.\<close>

definition dead_card :: "unit device" where
  "dead_card = \<lparr>dread = \<lambda>r h. (if r = MBOX_READ then 8 else 0, h), dwrite = \<lambda>r v h. h, ddelay_us = \<lambda>n h. h,
     dspin = \<lambda>n h. h, dmbox_buf = \<lambda>h. (replicate 8 50000000, h)\<rparr>"

definition no_card :: SDDescriptor where
  "no_card = \<lparr>capacity = 0, cid = replicate 4 0, csd = replicate 4 0, scr = replicate 2 0, ocr = 0, support = 0,
     fileFormat = 0, card_type = 0, uhsi = 0, card_init = 0, absent = 0, rca = 0, cardState = 0, card_status = 0,
     lastCmd = None, lastArg = 0\<rparr>"

lemma dead_mailbox: "mbox_get_clock_rate dead_card 0 s = Some (50000000, s)"
  by (simp add: mbox_get_clock_rate_def mbox_write_def mbox_wait.simps mbox_read.simps rd_def wr_def dead_card_def
      MBOX_READ_def MBOX_STATUS_def)

theorem sdInit_answer_witness:
  "\<exists>r s'. sdInit dead_card 0 \<lparr>hw = (), sdCard = no_card, sdHostVer = 0, sdBaseClock = 0\<rparr> = Some (r, s') \<and> r \<noteq> 0"
  using sdInit_answer [of dead_card 0 "\<lparr>hw = (), sdCard = no_card, sdHostVer = 0, sdBaseClock = 0\<rparr>"]
  by (auto simp: dead_mailbox no_card_def)

end
