(* ===== verification/Sd_Queue.thy ===== *)
theory Sd_Queue
  imports Sd_Init Fs_Defs Clist
begin

text \<open>
  The request queue of the SD card (\<open>driver/sd.c\<close>) and the block device over it (\<open>fs/block_device.c\<close>).
  Requests are \<open>buf\<close> structures at an address.  The queue is the \<open>Queue\<close> of \<open>list.c\<close>, whose nodes are the
  fields \<open>bufnode\<close> of the requests, with the operations of \<open>Clist\<close> on their heap; \<open>done\<close> counts the
  units of the semaphore of a request, a caller that sleeps in it having none yet.  A spin lock that is taken is the value \<^const>\<open>None\<close>, as is a panic.
\<close>

section \<open>Requests\<close>

definition B_VALID :: u32 where "B_VALID = 0x2"
definition B_DIRTY :: u32 where "B_DIRTY = 0x4"

record sdbuf =
  b_flags :: u32
  b_blockno :: u32
  b_data :: "u8 list"
  b_done :: int

record 'h sdq =
  sd :: "'h sdst"
  bufs :: "ptr \<Rightarrow> sdbuf"
  buf_queue :: Queue
  nodes :: lheap
  qlock :: bool
  sdlock :: bool

definition upd_buf :: "ptr \<Rightarrow> (sdbuf \<Rightarrow> sdbuf) \<Rightarrow> 'h sdq \<Rightarrow> 'h sdq" where
  "upd_buf b f q = q\<lparr>bufs := (bufs q)(b := f (bufs q b))\<rparr>"

text \<open>\<open>&b->bufnode\<close> and \<open>container_of\<close>: the flags, the block number, the data and \<open>pid\<close> take 528 bytes.\<close>

definition bufnode :: "ptr \<Rightarrow> ptr" where
  "bufnode b = b + 528"

definition buf_of :: "ptr \<Rightarrow> ptr" where
  "buf_of n = n - 528"

text \<open>\<open>memset(b, 0, sizeof(b))\<close> clears as many bytes as a pointer has: the flags and the block number.\<close>

definition init_buf :: "ptr \<Rightarrow> 'h sdq \<Rightarrow> 'h sdq" where
  "init_buf b q =
     (let q1 = upd_buf b (\<lambda>x. x\<lparr>b_flags := 0, b_blockno := 0, b_done := 0\<rparr>) q
      in q1\<lparr>nodes := init_list_node (bufnode b) (nodes q1)\<rparr>)"

section \<open>Transfers\<close>

fun read_words :: "'h device \<Rightarrow> nat \<Rightarrow> 'h sdst \<Rightarrow> u32 list \<times> 'h sdst" where
  "read_words D 0 s = ([], s)"
| "read_words D (Suc n) s =
     (let (v, s1) = rd D EMMC_DATA s; (vs, s2) = read_words D n s1 in (v # vs, s2))"

definition write_words :: "'h device \<Rightarrow> u32 list \<Rightarrow> 'h sdst \<Rightarrow> 'h sdst" where
  "write_words D ws s = fold (wr D EMMC_DATA) ws s"

definition get_and_clear_EMMC_INTERRUPT :: "'h device \<Rightarrow> 'h sdst \<Rightarrow> u32 \<times> 'h sdst" where
  "get_and_clear_EMMC_INTERRUPT D s = (let (t, s1) = rd D EMMC_INTERRUPT s in (t, wr D EMMC_INTERRUPT t s1))"

definition clear_irq :: "'h device \<Rightarrow> 'h sdst \<Rightarrow> 'h sdst" where
  "clear_irq D s = snd (get_and_clear_EMMC_INTERRUPT D s)"

text \<open>\<open>data\<close> lies 8 bytes behind the start of the structure.\<close>

definition sd_start :: "'h device \<Rightarrow> ptr \<Rightarrow> 'h sdq \<Rightarrow> 'h sdq option" where
  "sd_start D b q =
     (let x = bufs q b;
          bno = (if card_type (sdCard (sd q)) = SD_TYPE_2_HC then b_blockno x else push_bit 9 (b_blockno x));
          dirty = b_flags x AND B_DIRTY \<noteq> 0;
          (i, s1) = rd D EMMC_INTERRUPT (sd q)
      in if i \<noteq> 0 then PANIC
         else do { (resp, s2) \<leftarrow> sdSendCommandA D (if dirty then IX_WRITE_SINGLE else IX_READ_SINGLE) bno (wr D EMMC_BLKSIZECNT 512 s1);
                   if resp \<noteq> 0 then PANIC
                   else if (b + 8) AND 3 \<noteq> 0 then PANIC
                   else if dirty then
                     let (resp, s3) = sdWaitForInterrupt D INT_WRITE_RDY s2
                     in if resp \<noteq> 0 then PANIC
                        else let (i, s4) = rd D EMMC_INTERRUPT s3
                             in if i \<noteq> 0 then PANIC
                                else Some (q\<lparr>sd := write_words D (le_words 4 128 (b_data x)) s4\<rparr>)
                   else Some (q\<lparr>sd := s2\<rparr>) })"

definition sd_dev :: "('h sdst \<Rightarrow> 'h sdst) \<Rightarrow> 'h sdq \<Rightarrow> 'h sdq" where
  "sd_dev f q = q\<lparr>sd := f (sd q)\<rparr>"

section \<open>The interrupt handler\<close>

definition sd_acquire :: "'h sdq \<Rightarrow> 'h sdq option" where
  "sd_acquire q = (if sdlock q then None else Some (q\<lparr>sdlock := True\<rparr>))"

definition sd_release :: "'h sdq \<Rightarrow> 'h sdq" where
  "sd_release q = q\<lparr>sdlock := False\<rparr>"

text \<open>
  The handler runs under \<open>sdlock\<close>, but it reads and changes the queue without the lock of the queue, so
  a caller may push in between.  It is four steps, cut behind each look at the queue: it takes the lock
  and looks at the front; it serves the front request, takes it out and wakes its caller; it starts the
  next one; it gives the lock up.  An \<open>sd_pc\<close> says where it is.
\<close>

datatype sd_pc = Out | Front u32 ptr | Popped bool | Leave

definition intr_enter :: "'h device \<Rightarrow> 'h sdq \<Rightarrow> (sd_pc \<times> 'h sdq) option" where
  "intr_enter D q =
     do { q1 \<leftarrow> sd_acquire q;
          let (interrupt, s1) = get_and_clear_EMMC_INTERRUPT D (sd q1);
          let q2 = q1\<lparr>sd := s1\<rparr>;
          if queue_empty (buf_queue q2) then Some (Leave, q2)
          else do { n \<leftarrow> queue_front (buf_queue q2); Some (Front interrupt (buf_of n), q2) } }"

definition finish_front :: "'h device \<Rightarrow> ptr \<Rightarrow> 'h sdq \<Rightarrow> 'h sdq option" where
  "finish_front D b q =
     do { (bq, ns) \<leftarrow> queue_pop (buf_queue q) (nodes q);
          let q1 = sd_dev (clear_irq D) (q\<lparr>buf_queue := bq, nodes := ns\<rparr>);
          v \<leftarrow> int_inc (b_done (bufs q1 b));
          Some (upd_buf b (\<lambda>x. x\<lparr>b_done := v\<rparr>) q1) }"

definition intr_read :: "'h device \<Rightarrow> ptr \<Rightarrow> 'h sdq \<Rightarrow> (sd_pc \<times> 'h sdq) option" where
  "intr_read D b q =
     (if b_flags (bufs q b) AND B_DIRTY = 0 \<and> b_flags (bufs q b) AND B_VALID = 0 then
        do { let (ws, s1) = read_words D 128 (sd q);
             let s2 = snd (sdWaitForInterrupt D INT_DATA_DONE s1);
             q1 \<leftarrow> finish_front D b (upd_buf b (\<lambda>x. x\<lparr>b_data := le_array 4 ws, b_flags := b_flags x OR B_VALID\<rparr>) (q\<lparr>sd := s2\<rparr>));
             Some (Popped False, q1) }
      else Some (Leave, q))"

definition intr_done :: "'h device \<Rightarrow> ptr \<Rightarrow> 'h sdq \<Rightarrow> (sd_pc \<times> 'h sdq) option" where
  "intr_done D b q =
     (if b_flags (bufs q b) AND B_DIRTY \<noteq> 0 then
        do { q1 \<leftarrow> finish_front D b (upd_buf b (\<lambda>x. x\<lparr>b_flags := b_flags x AND NOT B_DIRTY\<rparr>) q); Some (Popped True, q1) }
      else if b_flags (bufs q b) AND B_VALID = 0 then
        do { q1 \<leftarrow> sd_start D b (sd_dev (clear_irq D) q); Some (Leave, q1) }
      else Some (Leave, q))"

definition intr_serve :: "'h device \<Rightarrow> u32 \<Rightarrow> ptr \<Rightarrow> 'h sdq \<Rightarrow> (sd_pc \<times> 'h sdq) option" where
  "intr_serve D interrupt b q =
     (if interrupt = INT_READ_RDY then intr_read D b q
      else if interrupt = INT_DATA_DONE then intr_done D b q
      else Some (Leave, q))"

text \<open>Behind a write the lock is released here when there is a next request, and again in the last step.\<close>

definition intr_next :: "'h device \<Rightarrow> bool \<Rightarrow> 'h sdq \<Rightarrow> 'h sdq option" where
  "intr_next D written q =
     (if queue_empty (buf_queue q) then Some q
      else do { n \<leftarrow> queue_front (buf_queue q);
                q1 \<leftarrow> sd_start D (buf_of n) q;
                Some (if written then sd_release q1 else q1) })"

definition intr_leave :: "'h device \<Rightarrow> 'h sdq \<Rightarrow> 'h sdq" where
  "intr_leave D q = sd_release (sd_dev (clear_irq D) q)"

fun intr_step :: "'h device \<Rightarrow> sd_pc \<Rightarrow> 'h sdq \<Rightarrow> (sd_pc \<times> 'h sdq) option" where
  "intr_step D Out q = intr_enter D q"
| "intr_step D (Front interrupt b) q = intr_serve D interrupt b q"
| "intr_step D (Popped written) q = do { q1 \<leftarrow> intr_next D written q; Some (Leave, q1) }"
| "intr_step D Leave q = Some (Out, intr_leave D q)"

text \<open>\<open>sd_intr\<close> from its begin to its end, when nobody interferes.\<close>

definition sd_intr :: "'h device \<Rightarrow> 'h sdq \<Rightarrow> 'h sdq option" where
  "sd_intr D q =
     do { (pc1, q1) \<leftarrow> intr_step D Out q;
          (pc2, q2) \<leftarrow> (case pc1 of Front interrupt b \<Rightarrow> intr_step D pc1 q1 | _ \<Rightarrow> Some (pc1, q1));
          (pc3, q3) \<leftarrow> (case pc2 of Popped written \<Rightarrow> intr_step D pc2 q2 | _ \<Rightarrow> Some (pc2, q2));
          (pc4, q4) \<leftarrow> intr_step D Leave q3;
          Some q4 }"

section \<open>Asking for a transfer\<close>

text \<open>
  \<open>sdrw\<close> is three steps.  Under the lock of the queue it looks whether the queue is empty and pushes the
  node of the request; if the queue was empty it starts the transfer under \<open>sdlock\<close>; and then, in this
  case only, it waits.  A lock that is taken is the value \<^const>\<open>None\<close>: the caller spins.
\<close>

definition queue_lock :: "'h sdq \<Rightarrow> 'h sdq option" where
  "queue_lock q = (if qlock q then None else Some (q\<lparr>qlock := True\<rparr>))"

definition queue_unlock :: "'h sdq \<Rightarrow> 'h sdq" where
  "queue_unlock q = q\<lparr>qlock := False\<rparr>"

definition sdrw_push :: "ptr \<Rightarrow> 'h sdq \<Rightarrow> (bool \<times> 'h sdq) option" where
  "sdrw_push b q =
     do { q1 \<leftarrow> queue_lock q;
          let is_empty = queue_empty (buf_queue q1);
          let (bq, ns) = queue_push (buf_queue q1) (bufnode b) (nodes q1);
          Some (is_empty, queue_unlock (q1\<lparr>buf_queue := bq, nodes := ns\<rparr>)) }"

definition sdrw_start :: "'h device \<Rightarrow> ptr \<Rightarrow> 'h sdq \<Rightarrow> 'h sdq option" where
  "sdrw_start D b q = do { q1 \<leftarrow> sd_acquire q; q2 \<leftarrow> sd_start D b q1; Some (sd_release q2) }"

text \<open>Up to the wait, when nobody interferes: whether the caller waits for the semaphore of the request.\<close>

definition sdrw :: "'h device \<Rightarrow> ptr \<Rightarrow> 'h sdq \<Rightarrow> (bool \<times> 'h sdq) option" where
  "sdrw D b q =
     do { (is_empty, q1) \<leftarrow> sdrw_push b q;
          q2 \<leftarrow> (if is_empty then sdrw_start D b q1 else Some q1);
          Some (is_empty, q2) }"

text \<open>
  The wait at the end of \<open>sdrw\<close> returns once the semaphore has a unit.  A wait that is interrupted
  changes nothing here, and \<open>sdrw\<close> returns all the same.
\<close>

definition sdrw_wait :: "ptr \<Rightarrow> 'h sdq \<Rightarrow> 'h sdq option" where
  "sdrw_wait b q = (if 0 < b_done (bufs q b) then Some (upd_buf b (\<lambda>x. x\<lparr>b_done := b_done x - 1\<rparr>) q) else None)"

text \<open>
  \<open>sd_read\<close> and \<open>sd_write\<close> fill in the request on their stack and leave \<open>done\<close> and \<open>bufnode\<close> as they
  find them.
\<close>

definition read_request :: "ptr \<Rightarrow> usize \<Rightarrow> 'h sdq \<Rightarrow> 'h sdq" where
  "read_request b block_no = upd_buf b (\<lambda>x. x\<lparr>b_blockno := ucast block_no, b_flags := 0\<rparr>)"

definition write_request :: "ptr \<Rightarrow> usize \<Rightarrow> u8 list \<Rightarrow> 'h sdq \<Rightarrow> 'h sdq" where
  "write_request b block_no buffer =
     upd_buf b (\<lambda>x. x\<lparr>b_blockno := ucast block_no, b_flags := B_DIRTY OR B_VALID, b_data := take BLOCK_SIZE buffer\<rparr>)"

definition sd_read :: "'h device \<Rightarrow> ptr \<Rightarrow> usize \<Rightarrow> 'h sdq \<Rightarrow> (bool \<times> 'h sdq) option" where
  "sd_read D b block_no q = sdrw D b (read_request b block_no q)"

definition sd_read_result :: "ptr \<Rightarrow> 'h sdq \<Rightarrow> u8 list" where
  "sd_read_result b q = take BLOCK_SIZE (b_data (bufs q b))"

definition sd_write :: "'h device \<Rightarrow> ptr \<Rightarrow> usize \<Rightarrow> u8 list \<Rightarrow> 'h sdq \<Rightarrow> (bool \<times> 'h sdq) option" where
  "sd_write D b block_no buffer q = sdrw D b (write_request b block_no buffer q)"

section \<open>Set up\<close>

text \<open>
  \<open>sd_init\<close> on a request \<open>mbr\<close>; the values are the start and the size of the second partition, which the
  code prints and does not use.  Setting the handlers of the two lines is \<open>Trap.set_interrupt_handler\<close>.
\<close>

definition sd_init :: "'h device \<Rightarrow> u32 \<Rightarrow> ptr \<Rightarrow> 'h sdq \<Rightarrow> (u32 \<times> u32 \<times> 'h sdq) option" where
  "sd_init D mbox mbr q =
     do { (_, s1) \<leftarrow> sdInit D mbox (sd q);
          let q1 = upd_buf mbr (\<lambda>x. x\<lparr>b_flags := 0, b_blockno := 0\<rparr>) (init_buf mbr (q\<lparr>sd := s1\<rparr>));
          q2 \<leftarrow> sd_start D mbr q1;
          let s2 = snd (sdWaitForInterrupt D INT_READ_RDY (sd q2));
          let (ws, s3) = read_words D 128 s2;
          let s4 = snd (sdWaitForInterrupt D INT_DATA_DONE s3);
          let d = le_array 4 ws;
          let q3 = upd_buf mbr (\<lambda>x. x\<lparr>b_data := d\<rparr>) (q2\<lparr>sd := s4\<rparr>);
          Some (le_word (get_bytes 470 4 d), le_word (get_bytes 474 4 d), q3\<lparr>buf_queue := queue_init, qlock := False, sdlock := False\<rparr>) }"

end
