(* ===== verification/Sd_Request.thy ===== *)
theory Sd_Request
  imports Sd_Queue Sd_Props
begin

text \<open>
  The life of a request of the SD card: \<open>sdrw\<close> puts it at the end of the queue, the interrupt handler
  serves the one at the front, and the semaphore of the request tells its caller.  The queue is used
  through its contract in \<open>Clist\<close>, which asks that a node is pushed only when it is not in the queue.
\<close>

section \<open>The queue\<close>

text \<open>The requests in the queue, front first.\<close>

definition queued :: "'h sdq \<Rightarrow> ptr list \<Rightarrow> bool" where
  "queued q xs \<longleftrightarrow> queue_rep (buf_queue q) (nodes q) (map bufnode xs)"

text \<open>A request that may be pushed.\<close>

definition fresh :: "ptr \<Rightarrow> 'h sdq \<Rightarrow> bool" where
  "fresh b q \<longleftrightarrow> bufnode b \<noteq> NULL \<and> (\<forall>xs. queued q xs \<longrightarrow> b \<notin> set xs)"

lemma buf_of_bufnode [simp]: "buf_of (bufnode b) = b"
  by (simp add: buf_of_def bufnode_def)

lemma bufnode_inj: "bufnode b = bufnode c \<longleftrightarrow> b = c"
  by (simp add: bufnode_def)


lemma queued_empty: "queued q xs \<Longrightarrow> queue_empty (buf_queue q) \<longleftrightarrow> xs = []"
  using bufq.isempty_iff [of "buf_queue q" "nodes q" "map bufnode xs"] by (simp add: queued_def)

lemma queued_front: "queued q (b # xs) \<Longrightarrow> queue_front (buf_queue q) = Some (bufnode b)"
  using bufq.front_Cons [of "buf_queue q" "nodes q" "bufnode b" "map bufnode xs"] by (simp add: queued_def)

lemma fresh_nil:
  assumes "queued q []" "bufnode b \<noteq> NULL" shows "fresh b q"
proof -
  have "xs = []" if "queued q xs" for xs using queued_empty [OF assms(1)] queued_empty [OF that] by simp
  then show ?thesis using assms(2) by (force simp: fresh_def)
qed

section \<open>What an operation changes\<close>

lemma sd_start_frame:
  assumes "sd_start D b q = Some q'"
  shows "bufs q' = bufs q \<and> buf_queue q' = buf_queue q \<and> nodes q' = nodes q \<and> qlock q' = qlock q \<and> sdlock q' = sdlock q"
  using assms
  by (auto simp: sd_start_def Let_def case_prod_beta bind_eq_Some_conv split: if_splits)

lemma upd_buf_fields [simp]:
  "sd (upd_buf b f q) = sd q" "buf_queue (upd_buf b f q) = buf_queue q" "nodes (upd_buf b f q) = nodes q"
  "qlock (upd_buf b f q) = qlock q" "sdlock (upd_buf b f q) = sdlock q" "bufs (upd_buf b f q) = (bufs q)(b := f (bufs q b))"
  by (simp_all add: upd_buf_def)

lemma sd_dev_fields [simp]:
  "bufs (sd_dev f q) = bufs q" "buf_queue (sd_dev f q) = buf_queue q" "nodes (sd_dev f q) = nodes q"
  "qlock (sd_dev f q) = qlock q" "sdlock (sd_dev f q) = sdlock q"
  by (simp_all add: sd_dev_def)

lemma sd_release_fields [simp]:
  "bufs (sd_release q) = bufs q" "buf_queue (sd_release q) = buf_queue q" "nodes (sd_release q) = nodes q"
  "qlock (sd_release q) = qlock q" "\<not> sdlock (sd_release q)"
  by (simp_all add: sd_release_def)

lemma sd_acquire_some: "sd_acquire q = Some q' \<longleftrightarrow> \<not> sdlock q \<and> q' = q\<lparr>sdlock := True\<rparr>"
  by (auto simp: sd_acquire_def)

lemma queued_cong: "buf_queue q' = buf_queue q \<Longrightarrow> nodes q' = nodes q \<Longrightarrow> queued q' xs = queued q xs"
  by (simp add: queued_def)

text \<open>Pushing a fresh request.\<close>

lemma sdrw_push_spec:
  assumes "queued q xs" "fresh b q" "sdrw_push b q = Some (e, q')"
  shows "queued q' (xs @ [b]) \<and> (e \<longleftrightarrow> xs = []) \<and> bufs q' = bufs q \<and> sd q' = sd q \<and> sdlock q' = sdlock q \<and> \<not> qlock q'"
proof -
  obtain bq ns where p: "queue_push (buf_queue q) (bufnode b) (nodes q) = (bq, ns)" by force
  have q': "e = queue_empty (buf_queue q)" "q' = q\<lparr>buf_queue := bq, nodes := ns, qlock := False\<rparr>"
    using assms(3) p by (auto simp: sdrw_push_def queue_lock_def queue_unlock_def Let_def bind_eq_Some_conv split: if_splits)
  have "b \<notin> set xs" "bufnode b \<noteq> NULL" using assms(1,2) by (auto simp: fresh_def)
  then have "bufnode b \<notin> set (map bufnode xs)" "bufnode b \<noteq> NULL" by (auto simp: bufnode_inj)
  then have "queue_rep bq ns (map bufnode xs @ [bufnode b])"
    using bufq.rep_push [OF _ _ _ p] assms(1) by (simp add: queued_def)
  then show ?thesis using q' queued_empty [OF assms(1)] by (simp add: queued_def)
qed







section \<open>Runs\<close>









section \<open>What goes wrong\<close>

lemma push_list_append: "push_list push s (xs @ ys) = push_list push (push_list push s xs) ys"
proof (induction xs arbitrary: s)
  case (Cons x xs)
  then show ?case by (cases s, cases "push (fst s) x (snd s)") simp
qed simp

text \<open>
  A request asked for while it is in the queue, as the caller of a request that returned unserved may
  do with the same stack memory: pushing the second of three requests again loses the third one, and
  the second is taken out three times.
\<close>

theorem request_pushed_twice:
  assumes "distinct [a, b, c]" "NULL \<notin> {a, b, c}"
  shows "drain_list queue_front queue_pop 4 (push_list queue_push (queue_init, h) [a, b, c, b]) = Some [a, b, b, b]"
proof -
  obtain x h0 where q: "push_list queue_push (queue_init, h) [a, b, c] = (x, h0)" by fastforce
  have "queue_rep x h0 [a, b, c]"
    using bufq.rep_push_all [OF bufq.rep_init [of h], of "[a, b, c]"] assms q by simp
  then have x: "q_begin x = a" "q_end x = c" "q_sz x = 3" and n: "ln_next (h0 a) = b" "ln_next (h0 c) = a" "ln_prev (h0 c) = b"
    by (simp_all add: queue_rep_def clist_def)
  have d: "a \<noteq> b" "b \<noteq> c" "a \<noteq> c" "b \<noteq> a" "c \<noteq> b" "c \<noteq> a" "a \<noteq> NULL" "b \<noteq> NULL" "c \<noteq> NULL" using assms by auto
  obtain h1 where push: "queue_push x b h0 = (\<lparr>q_begin = a, q_end = b, q_sz = 4\<rparr>, h1)"
      "h1 a = \<lparr>ln_prev = b, ln_next = b\<rparr>" "h1 b = \<lparr>ln_prev = c, ln_next = a\<rparr>"
    using x n d by (cases x) (simp add: queue_push_def init_list_node_def set_next_def set_prev_def merge_list_def Let_def)
  obtain h2 where pop: "queue_pop \<lparr>q_begin = a, q_end = b, q_sz = 4\<rparr> h1 = Some (\<lparr>q_begin = b, q_end = b, q_sz = 3\<rparr>, h2)"
      "h2 b = \<lparr>ln_prev = b, ln_next = b\<rparr>"
    using push(2,3) d by (simp add: queue_pop_def detach_from_list_def init_list_node_def set_next_def set_prev_def Let_def)
  have again: "\<exists>h'. queue_pop \<lparr>q_begin = b, q_end = b, q_sz = k\<rparr> g = Some (\<lparr>q_begin = b, q_end = b, q_sz = k - 1\<rparr>, h')
      \<and> h' b = \<lparr>ln_prev = b, ln_next = b\<rparr>" if "1 < k" "g b = \<lparr>ln_prev = b, ln_next = b\<rparr>" for k g
    using that by (simp add: queue_pop_def detach_from_list_def init_list_node_def set_next_def set_prev_def Let_def)
  obtain h3 where pop2: "queue_pop \<lparr>q_begin = b, q_end = b, q_sz = 3\<rparr> h2 = Some (\<lparr>q_begin = b, q_end = b, q_sz = 2\<rparr>, h3)"
      "h3 b = \<lparr>ln_prev = b, ln_next = b\<rparr>"
    using again [of 3 h2] pop(2) by auto
  obtain h4 where pop3: "queue_pop \<lparr>q_begin = b, q_end = b, q_sz = 2\<rparr> h3 = Some (\<lparr>q_begin = b, q_end = b, q_sz = 1\<rparr>, h4)"
    using again [of 2 h3] pop2(2) by auto
  have "push_list queue_push (queue_init, h) [a, b, c, b] = push_list queue_push (x, h0) [b]"
    using q by (metis append_Cons append_Nil push_list_append)
  then show ?thesis
    using push(1) pop(1) pop2(1) pop3 d by (simp add: eval_nat_numeral queue_front_def queue_pop_def [of "\<lparr>q_begin = b, q_end = b, q_sz = 1\<rparr>"])
qed

text \<open>
  The handler has taken the only request out and has not looked at the queue again when another one is
  pushed: its caller found the queue empty and will start it, and the handler starts it as well.  When
  the card answers before the caller gets the lock, the second start panics.
\<close>

theorem request_started_twice:
  assumes "queued q []" "fresh b q" "sdrw_push b q = Some (e, q1)" "intr_step D (Popped w) q1 = Some (pc, q2)"
  shows "e \<and> pc = Leave \<and> (\<exists>q3. sd_start D b q1 = Some q3 \<and> q2 = (if w then sd_release q3 else q3))
    \<and> (fst (rd D EMMC_INTERRUPT (sd q')) \<noteq> 0 \<longrightarrow> sdrw_start D b q' = None)"
proof -
  have p: "queued q1 [b]" "e" using sdrw_push_spec [OF assms(1-3)] by auto
  have "\<exists>q3. sd_start D b q1 = Some q3 \<and> q2 = (if w then sd_release q3 else q3) \<and> pc = Leave"
    using assms(4) queued_empty [OF p(1)] queued_front [OF p(1)]
    by (auto simp: intr_next_def bind_eq_Some_conv split: if_splits)
  moreover have "sdrw_start D b q' = None" if "fst (rd D EMMC_INTERRUPT (sd q')) \<noteq> 0"
    using that by (auto simp: sdrw_start_def sd_acquire_def sd_start_def case_prod_beta Let_def PANIC_def)
  ultimately show ?thesis using p(2) by blast
qed

section \<open>Reading a block\<close>

lemma read_words_length: "length (fst (read_words D n s)) = n"
  by (induction n arbitrary: s) (simp_all add: case_prod_beta Let_def)

text \<open>The first two steps of the handler with a single request, for a read, in the queue.\<close>

lemma intr_front:
  assumes "queued q (b # xs)" "\<not> sdlock q" "get_and_clear_EMMC_INTERRUPT D (sd q) = (irq, s1)"
  shows "intr_step D Out q = Some (Front irq b, q\<lparr>sdlock := True, sd := s1\<rparr>)"
  using queued_empty [OF assms(1)] queued_front [OF assms(1)] assms(2,3)
  by (simp add: intr_enter_def sd_acquire_def)

lemma intr_serve_read:
  assumes "queued q [b]" "b_done (bufs q b) = 0" "b_flags (bufs q b) = 0"
  obtains bq ns s where "intr_step D (Front INT_READ_RDY b) q = Some (Popped False, q\<lparr>sd := s, buf_queue := bq, nodes := ns,
      bufs := (bufs q)(b := (bufs q b)\<lparr>b_data := le_array 4 (fst (read_words D 128 (sd q))), b_flags := B_VALID, b_done := 1\<rparr>)\<rparr>)"
    "queue_rep bq ns []"
proof -
  obtain bq ns where p: "queue_pop (buf_queue q) (nodes q) = Some (bq, ns)" "queue_rep bq ns []"
    using bufq.rep_pop [of "buf_queue q" "nodes q" "bufnode b" "[]"] assms(1) by (auto simp: queued_def)
  let ?s = "clear_irq D (snd (sdWaitForInterrupt D INT_DATA_DONE (snd (read_words D 128 (sd q)))))"
  have "intr_step D (Front INT_READ_RDY b) q = Some (Popped False, q\<lparr>sd := ?s, buf_queue := bq, nodes := ns,
      bufs := (bufs q)(b := (bufs q b)\<lparr>b_data := le_array 4 (fst (read_words D 128 (sd q))), b_flags := B_VALID, b_done := 1\<rparr>)\<rparr>)"
    using p(1) assms(2,3) by (simp add: intr_serve_def intr_read_def finish_front_def int_inc_def INT_MAX_def upd_buf_def
        sd_dev_def case_prod_beta Let_def)
  then show thesis by (rule that) (rule p(2))
qed

text \<open>
  C11: Reading a block when no other request is under way.  When \<open>sd_read\<close> gets as far as its wait,
  the request alone is in the queue and the caller waits.  Once the card reports that it is ready,
  whatever else the hardware did, the handler takes the request out of the queue and frees the lock;
  the caller goes on, and what it copies are the 128 words of the data register as bytes.  No other
  request is touched.
\<close>

theorem sd_read_served:
  assumes "queued q []" "bufnode b \<noteq> NULL" "b_done (bufs q b) = 0" "sd_read D b n q = Some (w, q1)"
  shows "w \<and> queued q1 [b] \<and> \<not> sdlock q1 \<and> \<not> qlock q1 \<and> sdrw_wait b q1 = None \<and>
      (\<forall>h s1. get_and_clear_EMMC_INTERRUPT D ((sd q1)\<lparr>hw := h\<rparr>) = (INT_READ_RDY, s1) \<longrightarrow>
        (\<exists>q2 q3. sd_intr D (sd_dev (hw_update (\<lambda>_. h)) q1) = Some q2 \<and> queued q2 [] \<and> \<not> sdlock q2 \<and>
           sdrw_wait b q2 = Some q3 \<and> sd_read_result b q3 = le_array 4 (fst (read_words D 128 s1)) \<and>
           (\<forall>c. c \<noteq> b \<longrightarrow> bufs q3 c = bufs q c)))"
proof -
  let ?q = "read_request b n q"
  have "queued ?q []" using assms(1) by (simp add: read_request_def queued_def)
  moreover from this have "fresh b ?q" using assms(2) by (rule fresh_nil)
  moreover obtain e q' where p: "sdrw_push b ?q = Some (e, q')" "w = e"
      "(if e then sdrw_start D b q' else Some q') = Some q1"
    using assms(4) by (auto simp: sd_read_def sdrw_def bind_eq_Some_conv)
  ultimately have P: "queued q' [b]" "e" "bufs q' = bufs ?q" "\<not> qlock q'"
    using sdrw_push_spec [of ?q "[]" b e q'] by auto
  have q1: "w" "queued q1 [b]" "\<not> sdlock q1" "\<not> qlock q1" "b_done (bufs q1 b) = 0" "b_flags (bufs q1 b) = 0"
      "\<forall>c. c \<noteq> b \<longrightarrow> bufs q1 c = bufs q c"
    using p P assms(3) by (auto simp: sdrw_start_def bind_eq_Some_conv sd_acquire_some read_request_def queued_def
        dest!: sd_start_frame)
  have "\<exists>q2 q3. sd_intr D (sd_dev (hw_update (\<lambda>_. h)) q1) = Some q2 \<and> queued q2 [] \<and> \<not> sdlock q2 \<and>
      sdrw_wait b q2 = Some q3 \<and> sd_read_result b q3 = le_array 4 (fst (read_words D 128 s1)) \<and>
      (\<forall>c. c \<noteq> b \<longrightarrow> bufs q3 c = bufs q c)"
    if irq: "get_and_clear_EMMC_INTERRUPT D ((sd q1)\<lparr>hw := h\<rparr>) = (INT_READ_RDY, s1)" for h s1
  proof -
    let ?ws = "fst (read_words D 128 s1)" and ?q = "sd_dev (hw_update (\<lambda>_. h)) q1"
    let ?q' = "?q\<lparr>sdlock := True, sd := s1\<rparr>"
    have len: "length (le_array 4 ?ws) = BLOCK_SIZE"
      by (simp add: read_words_length BLOCK_SIZE_def)
    have e: "intr_step D Out ?q = Some (Front INT_READ_RDY b, ?q')"
      by (rule intr_front [of _ _ "[]"]) (use q1 irq in \<open>simp_all add: queued_def sd_dev_def\<close>)
    have "queued ?q' [b]" "b_done (bufs ?q' b) = 0" "b_flags (bufs ?q' b) = 0" using q1 by (simp_all add: queued_def)
    then obtain bq ns s where f: "intr_step D (Front INT_READ_RDY b) ?q' = Some (Popped False, ?q'\<lparr>sd := s, buf_queue := bq, nodes := ns,
        bufs := (bufs ?q')(b := (bufs ?q' b)\<lparr>b_data := le_array 4 (fst (read_words D 128 (sd ?q'))), b_flags := B_VALID, b_done := 1\<rparr>)\<rparr>)"
        "queue_rep bq ns []"
      by (rule intr_serve_read)
    have "queue_empty bq" using bufq.isempty_iff [OF f(2)] by simp
    then obtain q2 where q2: "sd_intr D ?q = Some q2" "buf_queue q2 = bq" "nodes q2 = ns" "\<not> sdlock q2"
        "bufs q2 = (bufs q1)(b := (bufs q1 b)\<lparr>b_data := le_array 4 ?ws, b_flags := B_VALID, b_done := 1\<rparr>)"
      using e f(1) by (simp add: sd_intr_def intr_next_def intr_leave_def del: intr_step.simps(1,2))
    then show ?thesis
      using q1(7) len f(2) by (auto simp: sdrw_wait_def sd_read_result_def queued_def)
  qed
  then show ?thesis
    using q1 by (auto simp: sdrw_wait_def)
qed

text \<open>
  C13: A second request is not waited for.  When another request is in the queue, \<open>sd_read\<close> returns at
  once: the card has not been asked, the request is not valid, and what the caller copies is what
  happened to be in the request, whose memory the queue still points to.
\<close>

theorem sd_read_unserved:
  assumes "\<not> queue_empty (buf_queue q)" "\<not> qlock q"
  shows "\<exists>q'. sd_read D b n q = Some (False, q') \<and> sd q' = sd q \<and> b_flags (bufs q' b) AND B_VALID = 0 \<and>
      sd_read_result b q' = sd_read_result b q \<and>
      (buf_queue q', nodes q') = queue_push (buf_queue q) (bufnode b) (nodes q) \<and>
      (\<forall>xs. queued q xs \<longrightarrow> fresh b q \<longrightarrow> queued q' (xs @ [b]))"
proof -
  obtain bq ns where p: "queue_push (buf_queue q) (bufnode b) (nodes q) = (bq, ns)" by force
  let ?q = "read_request b n q" and ?q' = "(read_request b n q)\<lparr>buf_queue := bq, nodes := ns, qlock := False\<rparr>"
  have e: "sdrw_push b ?q = Some (False, ?q')"
    using assms p by (simp add: sdrw_push_def queue_lock_def queue_unlock_def read_request_def)
  have "queued ?q' (xs @ [b])" if "queued q xs" "fresh b q" for xs
    using sdrw_push_spec [OF _ _ e, of xs] that by (simp add: fresh_def queued_def read_request_def)
  then show ?thesis
    using e p by (simp add: sd_read_def sdrw_def sd_read_result_def read_request_def)
qed

section \<open>A card that answers\<close>

text \<open>The hardware is its interrupt register; every word of data is 42.\<close>

definition ready_card :: "u32 device" where
  "ready_card = \<lparr>dread = \<lambda>r h. (if r = EMMC_INTERRUPT then h else if r = EMMC_DATA then 42 else 0, h),
     dwrite = \<lambda>r v h. (if r = EMMC_CMDTM then h OR INT_CMD_DONE else if r = EMMC_INTERRUPT then h AND NOT v else h),
     ddelay_us = \<lambda>n h. h, dspin = \<lambda>n h. h, dmbox_buf = \<lambda>h. (replicate 8 50000000, h)\<rparr>"

lemma poll_post_ready: "fst (done s) \<Longrightarrow> 0 < n \<Longrightarrow> poll_post D done d n s = (int n, snd (done s))"
  by (cases n) (simp_all add: case_prod_beta)

lemma ready_rd: "rd ready_card r s = (if r = EMMC_INTERRUPT then hw s else if r = EMMC_DATA then 42 else 0, s)"
  by (simp add: rd_def ready_card_def)

lemma ready_wr: "wr ready_card r v s =
    s\<lparr>hw := (if r = EMMC_CMDTM then hw s OR INT_CMD_DONE else if r = EMMC_INTERRUPT then hw s AND NOT v else hw s)\<rparr>"
  by (simp add: wr_def ready_card_def)

lemma ready_command:
  assumes "hw s = 0" "cmd_resp c = RESP_R1" "cmd_delay c = 0"
  shows "sdSendCommandP ready_card c a s =
      Some (0, upd_card (\<lambda>d. d\<lparr>lastCmd := Some c, lastArg := a, card_status := 0, cardState := 0\<rparr>) s)"
  using assms
  by (simp add: sdSendCommandP_def sdWaitForCommand_def wait_result_def not_inhibited_def sdWaitForInterrupt_def
      poll_post_ready ready_rd ready_wr handle_response_def card_state_def emmc_registers INT_CMD_DONE_def
      INT_ERROR_MASK_def INT_CMD_TIMEOUT_def INT_DATA_TIMEOUT_def INT_AUTO_ERROR_def INT_DATA_END_ERR_def INT_DATA_CRC_ERR_def
      INT_INDEX_ERROR_def INT_END_ERROR_def INT_CRC_ERROR_def INT_ERR_def SD_OK_def resp_types Let_def upd_card_def)

lemma table_read: "cmd_resp (sdCommandTable ! 14) = RESP_R1" "cmd_delay (sdCommandTable ! 14) = 0"
  by (simp_all add: sdCommandTable_def)

lemma ready_start:
  assumes "hw (sd q) = 0" "b_flags (bufs q b) AND B_DIRTY = 0" "(b + 8) AND 3 = 0"
  obtains s where "sd_start ready_card b q = Some (q\<lparr>sd := s\<rparr>)" "hw s = 0"
proof -
  have "\<exists>s. sd_start ready_card b q = Some (q\<lparr>sd := s\<rparr>) \<and> hw s = 0"
    using assms ready_command [OF assms(1) table_read]
    by (simp add: sd_start_def sdSendCommandA_def send_with_def command_indices ready_rd ready_wr emmc_registers Let_def
        upd_card_def SD_OK_def)
      (metis sdst.select_convs(1) sdst.surjective sdst.update_convs(2))
  then show thesis
    using that by blast
qed

text \<open>No request, no lock, and memory of zeroes.\<close>

definition quiet :: "SDDescriptor \<Rightarrow> u32 sdq" where
  "quiet c = \<lparr>sd = \<lparr>hw = 0, sdCard = c, sdHostVer = 0, sdBaseClock = 0\<rparr>,
     bufs = \<lambda>_. \<lparr>b_flags = 0, b_blockno = 0, b_data = [], b_done = 0\<rparr>, buf_queue = queue_init,
     nodes = \<lambda>_. \<lparr>ln_prev = NULL, ln_next = NULL\<rparr>, qlock = False, sdlock = False\<rparr>"

lemma quiet_queued: "queued (quiet c) []"
  by (simp add: quiet_def queued_def queue_rep_def queue_init_def)


text \<open>One request on the empty queue, and the start of its transfer.\<close>

definition pushed :: "SDDescriptor \<Rightarrow> usize \<Rightarrow> u32 sdq" where
  "pushed c n = (read_request 0x1000 n (quiet c))\<lparr>buf_queue := \<lparr>q_begin = 0x1210, q_end = 0x1210, q_sz = 1\<rparr>,
     nodes := init_list_node 0x1210 (nodes (quiet c))\<rparr>"

lemma quiet_push: "sdrw_push 0x1000 (read_request 0x1000 n (quiet c)) = Some (True, pushed c n)"
  by (simp add: sdrw_push_def queue_lock_def queue_unlock_def read_request_def quiet_def queue_init_def queue_empty_def
      queue_push_def bufnode_def pushed_def upd_buf_def)


lemma pushed_start: "\<exists>q. sdrw_start ready_card 0x1000 (pushed c n) = Some q \<and> hw (sd q) = 0"
proof -
  let ?q = "(pushed c n)\<lparr>sdlock := True\<rparr>"
  obtain s where "sd_start ready_card 0x1000 ?q = Some (?q\<lparr>sd := s\<rparr>)" "hw s = 0"
    by (rule ready_start [of ?q "0x1000"]) (auto simp: pushed_def quiet_def read_request_def upd_buf_def)
  then show ?thesis
    by (simp add: sdrw_start_def sd_acquire_def sd_release_def pushed_def quiet_def read_request_def)
qed

lemma ready_read: "\<exists>q. sd_read ready_card 0x1000 n (quiet c) = Some (True, q) \<and> hw (sd q) = 0"
  using pushed_start [of c n] quiet_push [of n c] by (auto simp: sd_read_def sdrw_def)

lemma ready_data: "read_words ready_card n s = (replicate n 42, s)"
  by (induction n) (simp_all add: ready_rd emmc_registers)

theorem sd_read_served_witness:
  "\<exists>w q1 q2 q3. sd_read ready_card 0x1000 7 (quiet no_card) = Some (w, q1) \<and> w \<and> sdrw_wait 0x1000 q1 = None \<and>
      sd_intr ready_card (sd_dev (hw_update (\<lambda>_. INT_READ_RDY)) q1) = Some q2 \<and>
      sdrw_wait 0x1000 q2 = Some q3 \<and> sd_read_result 0x1000 q3 = le_array 4 (replicate 128 (42 :: u32))"
proof -
  obtain q1 where q1: "sd_read ready_card 0x1000 7 (quiet no_card) = Some (True, q1)" "hw (sd q1) = 0"
    using ready_read by blast
  have "get_and_clear_EMMC_INTERRUPT ready_card ((sd q1)\<lparr>hw := INT_READ_RDY\<rparr>) = (INT_READ_RDY, (sd q1)\<lparr>hw := 0\<rparr>)"
    by (simp add: get_and_clear_EMMC_INTERRUPT_def ready_rd ready_wr emmc_registers)
  then show ?thesis
    using sd_read_served [OF quiet_queued _ _ q1(1)] q1 by (fastforce simp: quiet_def ready_data bufnode_def)
qed


theorem sd_read_unserved_witness:
  "\<exists>q'. sd_read ready_card 0x2000 7 (pushed no_card 3) = Some (False, q') \<and> sd_read_result 0x2000 q' = []"
  using sd_read_unserved [of "pushed no_card 3" ready_card "0x2000" 7]
  by (auto simp: pushed_def quiet_def read_request_def sd_read_result_def queue_empty_def)

end
