(* ===== verification/Spec2Isabelle.thy ===== *)
theory Spec2Isabelle
  imports Prelude Clist Cstring Sched Sem Bytes Fs_Defs Cache Log Log_Ops Block_Store Alloc
    Inode Inode_Props Inode_File Mkfs Mkfs_Blocks Mkfs_Files Mkfs_Image Mkfs_Props Mmu Mem Mem_Props Mem_Inv Mem_Run Ipc Ipc_Props Rbtree Rbtree_Rep Rbtree_Insert Rbtree_Search Rbtree_Erase Rbtree_Splice Timer_Tree Pipe File Sysfile Ptable Ptable_Props Proc Proc_Props Proc_Exit Shell Shell_Props Shell_Run Format Console Trap Syscall Kernel_Pt Clock Sd_Card Sd_Init Sd_Clock Sd_Props Sd_Queue Sd_Request
begin

text \<open>
  A verification development for the teaching operating system under
  \<open>src/OS-23Fall-FDU-lab-finished/src\<close>: a kernel for the Raspberry Pi 3 (AArch64), the program that
  builds its file system and its shell.  Paths below are relative to that directory.

  How the program is put together.  A trap or an interrupt enters the kernel (\<open>aarch64/trap.c\<close>,
  \<open>driver/interrupt.c\<close>) and runs a system call (\<open>kernel/syscall.c\<close>, \<open>sysproc.c\<close>, \<open>sysfile.c\<close>) or the
  handler of a device.  Processes (\<open>kernel/proc.c\<close>) sleep and wake through semaphores (\<open>common/sem.c\<close>),
  which call the scheduler (\<open>kernel/sched.c\<close>); the scheduler arms timers of the processor
  (\<open>kernel/cpu.c\<close>, \<open>driver/clock.c\<close>), which are a red-black tree (\<open>common/rbtree.c\<close>).  Memory comes from
  \<open>kernel/mem.c\<close>, address spaces from \<open>kernel/pt.c\<close> and \<open>kernel/paging.c\<close> under the table of
  \<open>aarch64/kernel_pt.c\<close>.  Files go from \<open>sysfile.c\<close> over \<open>fs/file.c\<close> to inodes (\<open>fs/inode.c\<close>) or pipes
  (\<open>fs/pipe.c\<close>), inodes to the block cache with its log (\<open>fs/cache.c\<close>), and blocks to the SD card
  (\<open>fs/block_device.c\<close>, \<open>driver/sd.c\<close>, \<open>driver/sddef.h\<close>).  \<open>user/mkfs/main.c\<close> writes the first image,
  \<open>user/sh/main.c\<close> is the shell.

  How code becomes a model.  A struct is a record, or a function of the address when objects point to
  each other; a machine integer is a word of its width; an array is a list, an intrusive list or tree a
  heap of nodes with a predicate that says which sequence or tree it holds.  A panic, a failed \<open>ASSERT\<close>,
  a NULL pointer that is followed and a lock that never comes free are the value \<^const>\<open>None\<close> of an
  operation; an error the code returns is a value of its result, and an \<open>int\<close> that overflows is
  \<^const>\<open>None\<close> as well.  A section under a lock is one step, and what other processors do in between is
  another step of a run (an inductive relation).  An operation that gives up a lock and takes another is
  cut there: \<open>_wait_sem\<close>, \<open>exit\<close> and \<open>wait\<close>, \<open>sdrw\<close> and the handler of the SD card, \<open>cache_acquire\<close> and
  \<open>cache_release\<close>.  The lemmas on the file system run the parts of the last two in a row: they are about
  one thread at a time, and \<open>release_race\<close> and \<open>acquire_race\<close> in \<open>Cache\<close> show what that leaves out.

  The theories, by part:

  \<^item> \<open>Prelude\<close> has the machine types, \<open>PANIC\<close> and \<open>ASSERT\<close> and shared lemmas; \<open>Bytes\<close> the byte images of
    integers; \<open>Cstring\<close> \<open>common/string.c\<close>, \<open>bitmap.h\<close> and \<open>rc.c\<close>; \<open>Clist\<close> \<open>common/list.c\<close>, with the locale
    \<open>fifo_queue\<close> for what a queue promises, interpreted on the code's queue; \<open>Format\<close> \<open>common/format.c\<close>.
  \<^item> \<open>Rbtree\<close> is \<open>common/rbtree.c\<close>.  \<open>Rbtree_Rep\<close> says which tree a heap represents, \<open>Rbtree_Insert\<close>,
    \<open>Rbtree_Erase\<close> and \<open>Rbtree_Splice\<close> show that insertion and erasure keep order and colours,
    \<open>Rbtree_Search\<close> that lookup ends within twice the logarithm of the size.
  \<^item> \<open>Sched\<close> is \<open>kernel/sched.c\<close> with the timers of \<open>kernel/cpu.c\<close> as a sorted list; \<open>Timer_Tree\<close> has the
    locale \<open>ordered_tree\<close>, interpreted on the red-black tree, by which the tree holds that list; \<open>Clock\<close>
    is \<open>driver/clock.c\<close>.  \<open>Sem\<close> is \<open>common/sem.c\<close>: in no execution does an assertion fail, and no
    unit is lost.
  \<^item> \<open>Proc\<close>, \<open>Proc_Props\<close> and \<open>Proc_Exit\<close> are \<open>kernel/proc.c\<close>: process numbers, the tree of processes as an
    invariant of all operations, \<open>exit\<close>, \<open>wait\<close> and \<open>kill\<close>.  \<open>Trap\<close> and \<open>Syscall\<close> lead into the kernel and
    compose it: a killed process ends at its next trap, and its parent, asleep or not, learns it.
  \<^item> \<open>Mmu\<close> has the macros of \<open>aarch64/mmu.h\<close>; \<open>Mem\<close>, \<open>Mem_Inv\<close>, \<open>Mem_Props\<close> and \<open>Mem_Run\<close> are
    \<open>kernel/mem.c\<close>: in every run a block is fresh and overlaps nothing.  \<open>Ptable\<close> and \<open>Ptable_Props\<close> are
    \<open>kernel/pt.c\<close> and \<open>paging.c\<close>: the tables are a map from pages to entries.  \<open>Kernel_Pt\<close> is the boot table.
  \<^item> \<open>Fs_Defs\<close> has the objects on the disk; \<open>Cache\<close>, \<open>Log\<close> and \<open>Log_Ops\<close> are the block cache and its log:
    in any run of begin, sync and end an operation ends all or nothing, also when a crash cuts it off.
    \<open>Block_Store\<close> has the locale of what a client of the cache relies on, interpreted on \<open>fs/cache.c\<close>;
    \<open>Alloc\<close> is its client.  \<open>Inode\<close>, \<open>Inode_Props\<close> and \<open>Inode_File\<close> are \<open>fs/inode.c\<close>, \<open>Pipe\<close> and \<open>File\<close>
    \<open>fs/pipe.c\<close> and \<open>fs/file.c\<close>, \<open>Sysfile\<close> \<open>kernel/sysfile.c\<close>.
  \<^item> \<open>Sd_Card\<close> and \<open>Sd_Init\<close> are \<open>driver/sddef.h\<close> and \<open>driver/mbox.c\<close> over a hardware that is an argument:
    what a read of a register returns and what reads, writes and delays do to it.  \<open>Sd_Props\<close> shows how
    the initialisation ends for every hardware, \<open>Sd_Clock\<close> the arithmetic of its clock.  \<open>Sd_Queue\<close> is
    \<open>driver/sd.c\<close> and \<open>fs/block_device.c\<close>, \<open>Sd_Request\<close> the way of a request through the linked queue,
    whose contract is that of \<open>Clist\<close>.
  \<^item> \<open>Ipc\<close> and \<open>Ipc_Props\<close> are \<open>common/ipc.c\<close>, \<open>Console\<close> is \<open>kernel/console.c\<close>.
  \<^item> \<open>Mkfs\<close>, \<open>Mkfs_Blocks\<close>, \<open>Mkfs_Files\<close>, \<open>Mkfs_Image\<close> and \<open>Mkfs_Props\<close> are \<open>user/mkfs/main.c\<close>: the image
    holds each input file as the kernel reads it, and its bitmap is exact.
  \<^item> \<open>Shell\<close>, \<open>Shell_Props\<close> and \<open>Shell_Run\<close> are \<open>user/sh/main.c\<close>: what is parsed, that it reads back what is
    printed, and with which descriptors the programs of a line start.

  Bounds and fuel.  Loops are structural recursions or functions with a measure wherever the code bounds
  them.  The parser of the shell descends at most four calls for each character, so \<open>4 * length + 8\<close>
  (\<open>parse_fuel\<close>) always suffices, which is proved.  The loops of the red-black tree run on fuel, and the
  theorems on them ask for twice the logarithm of the number of nodes; the number of nodes is enough too.
  The search of \<open>kill\<close> needs no more than the number of processes.  The pieces a page is cut into are
  bounded by the size of the page, the digits of \<open>print_int\<close> by the 64 places of the code's buffer, and
  \<open>range_fuel\<close> is the number of pages up to the end of a range.  The waits of the SD driver count down as
  the code's counters do.  The loop of \<open>console_intr\<close> runs out of every fuel, which is a theorem; the waits
  for the mailbox are partial functions, for which not to end is the value \<^const>\<open>None\<close>.

  What the theorems show where the code does not do what it says is stated as it is: the log of a fresh
  image overlaps its inodes, a parent may panic between the two steps of \<open>exit\<close>, a writer that sleeps on
  a full pipe blocks its readers, a second request to the card is not waited for, and others.  Some of
  them are lemmas beside the definitions: \<open>request_pushed_twice\<close> and \<open>request_started_twice\<close> in
  \<open>Sd_Request\<close>, the two races in \<open>Cache\<close>, \<open>create_proc_faults\<close> in \<open>Proc_Exit\<close>.

  Not modelled.  Assembly, the intrinsics of \<open>aarch64/intrinsic.h\<close>, memory barriers and cache and TLB
  maintenance; the registers of the serial port; the order of initialisation and the idle and panic
  loops (\<open>main.c\<close>, \<open>kernel/core.c\<close>); \<open>fork\<close> and \<open>execve\<close>, which have no body; messages that are only
  printed (\<open>sdParseCID\<close>, \<open>sd_test\<close>, the texts of \<open>printk\<close>); the tests, \<open>mmaptest\<close> and \<open>usertests\<close>; and
  the small user programs, which only call the C library.  Functions without a body in the repository
  (\<open>user_readable\<close>, \<open>user_writeable\<close>, \<open>fork\<close>, \<open>execve\<close>) and the C library of \<open>mkfs\<close> and of the shell
  are arguments of the definitions that use them.
\<close>

end
